(* ===== verification/Njs_Prelude.thy ===== *)
theory Njs_Prelude
  imports Main "HOL-Library.Word"
begin

section \<open>Shared vocabulary of the njs development\<close>

text \<open>
  The return codes, machine-integer abbreviations and generic list facts the component
  theories share.  Return codes follow src/src/njs_types.h: a C function that answers
  \<open>NJS_OK\<close>, \<open>NJS_ERROR\<close>, \<open>NJS_DECLINED\<close> or \<open>NJS_DONE\<close> returns the constructor of the
  same name.
\<close>

unbundle bit_operations_syntax

subsection \<open>Types\<close>

type_synonym u_char = "8 word"
type_synonym uint16 = "16 word"
type_synonym uint32 = "32 word"
type_synonym uint64 = "64 word"

datatype njs_ret = NJS_OK | NJS_ERROR | NJS_AGAIN | NJS_DECLINED | NJS_DONE

abbreviation UINT32_MAX :: nat where
  "UINT32_MAX \<equiv> 4294967295"

subsection \<open>Collections of facts\<close>

named_theorems chain_simps \<open>rewriting of element chains under array updates\<close>
named_theorems bucket_simps \<open>the contents of a hash bucket after an update\<close>
named_theorems byte_bounds \<open>ranges of masked and shifted words\<close>

subsection \<open>Lists\<close>

lemma filter_upt_Suc:
  "filter P [0..<Suc n] = filter P [0..<n] @ (if P n then [n] else [])"
  by simp

lemma filter_upt_cong:
  "(\<And>i. i < n \<Longrightarrow> P i = Q i) \<Longrightarrow> filter P [0..<n] = filter Q [0..<n]"
  by (rule filter_cong) auto

lemma filter_as_map_upt: "filter P xs = map ((!) xs) (filter (\<lambda>i. P (xs ! i)) [0..<length xs])"
proof -
  have "filter P (map ((!) xs) [0..<length xs]) = map ((!) xs) (filter (P \<circ> (!) xs) [0..<length xs])"
    by (rule filter_map)
  then show ?thesis by (simp add: map_nth comp_def)
qed

lemma filter_list_update_drop:
  assumes "i < length xs" "P (xs ! i)" "\<not> P y"
  shows "filter P (xs[i := y]) = filter P (take i xs) @ filter P (drop (Suc i) xs)"
  using assms by (simp add: upd_conv_take_nth_drop)

lemma filter_split_nth:
  assumes "i < length xs"
  shows "filter P xs = filter P (take i xs) @ (if P (xs ! i) then [xs ! i] else []) @ filter P (drop (Suc i) xs)"
  using assms by (subst id_take_nth_drop[of i xs]) auto

lemma set_filter_upt [simp]: "set (filter P [0..<n]) = {i. i < n \<and> P i}"
  by auto

lemma nth_list_update_any: "xs[i := x] ! j = (if i = j \<and> j < length xs then x else xs ! j)"
  by (cases "i < length xs") (auto simp: nth_list_update list_update_beyond)

lemma find_rev_upt:
  assumes "List.find p (rev (filter Q [0..<n])) = Some i"
  shows "i < n \<and> Q i \<and> p i \<and> (\<forall>j. i < j \<and> j < n \<and> Q j \<longrightarrow> \<not> p j)"
  using assms by (induction n) (auto split: if_splits simp: less_Suc_eq)

lemma find_Some_split:
  "List.find p xs = Some x \<Longrightarrow> \<exists>vs. xs = takeWhile (\<lambda>y. \<not> p y) xs @ x # vs \<and> p x"
  by (induction xs) (auto split: if_splits)

lemma find_None_iff_set: "List.find p xs = None \<longleftrightarrow> (\<forall>x \<in> set xs. \<not> p x)"
  by (auto simp: find_None_iff)

lemma filter_neq_notin: "i \<notin> set xs \<Longrightarrow> filter (\<lambda>j. j \<noteq> i) xs = xs"
  by (auto simp: filter_id_conv)

lemma filter_neq_split: "distinct (us @ i # vs) \<Longrightarrow> filter (\<lambda>j. j \<noteq> i) (us @ i # vs) = us @ vs"
  by (simp add: filter_neq_notin)

subsection \<open>Return codes of nginx\<close>

datatype ngx_rc = NGX_OK | NGX_ERROR | NGX_AGAIN | NGX_DONE | NGX_DECLINED

lemma list_all_repl: "list_all P (replicate n x) \<longleftrightarrow> n = 0 \<or> P x"
  by (induction n) auto

end
