(* ===== verification/Njs_Flathsh.thy ===== *)
theory Njs_Flathsh
  imports Njs_Prelude
begin

section \<open>The flat hash (src/src/njs_flathsh.c)\<close>

text \<open>
  The flat hash is the table behind every JavaScript object, the atom table and the module
  and value tables.  One memory chunk holds the hash cells, a descriptor and the element
  array.  A cell holds the one-based index of the first element of its list and 0 for the
  empty list; an element holds the index of the next one in a 26-bit field.  Elements are
  appended, so the array keeps the insertion order; a deleted element is unlinked and marked
  \<open>NJS_FREE_FLATHSH_ELEMENT\<close> until the array is compacted.

  Correspondence.  \<open>cells ! c\<close> is \<open>njs_hash_cells_end(h)[-c - 1]\<close>.  The list \<open>elts\<close> is the
  initialised prefix of the element array, so a correct table has \<open>length elts = elts_count\<close>;
  \<open>elts_size\<close> is the allocated length.  A NULL slot is \<open>None\<close>.  The payload of an element
  (the bits writable, enumerable and configurable and the 16-byte value) is the caller's:
  \<open>elt_value\<close> is \<open>None\<close> until the caller stores into it, as \<open>njs_flathsh_add_elt\<close> leaves it
  uninitialised.
  The allocator of the table's proto is the argument \<open>alloc\<close>, which tells for a size whether
  it succeeds: every operation allocates at most once.  A pointer to an element is its index.
  A list walk that leaves the array or never ends is \<open>None\<close>.
\<close>

subsection \<open>Data\<close>

datatype njs_object_prop_type =
    NJS_FREE_FLATHSH_ELEMENT
  | NJS_PROPERTY
  | NJS_ACCESSOR
  | NJS_PROPERTY_HANDLER
  | NJS_PROPERTY_REF
  | NJS_PROPERTY_PLACE_REF
  | NJS_PROPERTY_TYPED_ARRAY_REF
  | NJS_WHITEOUT

record 'v njs_flathsh_elt =
  next_elt :: nat
  elt_type :: njs_object_prop_type
  elt_key_hash :: uint32
  elt_value :: "'v option"

record 'v njs_flathsh_descr =
  cells :: "nat list"
  hash_mask :: uint32
  elts_size :: nat
  elts_count :: nat
  elts_deleted_count :: nat
  elts :: "'v njs_flathsh_elt list"

type_synonym 'v njs_flathsh = "'v njs_flathsh_descr option"

record ('k, 'v) njs_flathsh_query =
  key_hash :: uint32
  key :: 'k
  replace :: bool
  fhq_test :: "'k \<Rightarrow> 'v option \<Rightarrow> bool"
  fhq_alloc :: "nat \<Rightarrow> bool"

definition NJS_FLATHSH_ELTS_INITIAL_SIZE :: nat where
  "NJS_FLATHSH_ELTS_INITIAL_SIZE = 2"

definition NJS_FLATHSH_HASH_INITIAL_SIZE :: nat where
  "NJS_FLATHSH_HASH_INITIAL_SIZE = 4"

definition NJS_FLATHSH_ELTS_EXPAND_FACTOR_NUM :: nat where
  "NJS_FLATHSH_ELTS_EXPAND_FACTOR_NUM = 3"

definition NJS_FLATHSH_ELTS_EXPAND_FACTOR_DENOM :: nat where
  "NJS_FLATHSH_ELTS_EXPAND_FACTOR_DENOM = 2"

definition NJS_FLATHSH_ELTS_FRACTION_TO_SHRINK :: nat where
  "NJS_FLATHSH_ELTS_FRACTION_TO_SHRINK = 2"

definition NJS_FLATHSH_ELTS_MINIMUM_TO_SHRINK :: nat where
  "NJS_FLATHSH_ELTS_MINIMUM_TO_SHRINK = 8"

lemmas flathsh_consts =
  NJS_FLATHSH_ELTS_INITIAL_SIZE_def NJS_FLATHSH_HASH_INITIAL_SIZE_def
  NJS_FLATHSH_ELTS_EXPAND_FACTOR_NUM_def NJS_FLATHSH_ELTS_EXPAND_FACTOR_DENOM_def
  NJS_FLATHSH_ELTS_FRACTION_TO_SHRINK_def NJS_FLATHSH_ELTS_MINIMUM_TO_SHRINK_def

text \<open>The bit field \<open>next_elt:26\<close> keeps the low 26 bits of what is stored into it.\<close>

definition next_elt_field :: "nat \<Rightarrow> nat" where
  "next_elt_field n = n mod 2 ^ 26"

definition is_free :: "'v njs_flathsh_elt \<Rightarrow> bool" where
  "is_free e \<longleftrightarrow> elt_type e = NJS_FREE_FLATHSH_ELEMENT"

definition cell_num :: "uint32 \<Rightarrow> uint32 \<Rightarrow> nat" where
  "cell_num kh hmask = unat (kh AND hmask)"

definition njs_flathsh_chunk_size :: "nat \<Rightarrow> nat \<Rightarrow> nat" where
  "njs_flathsh_chunk_size hash_size esize = hash_size * 4 + 16 + esize * 24"

subsection \<open>Creation\<close>

definition njs_flathsh_alloc :: "(nat \<Rightarrow> bool) \<Rightarrow> nat \<Rightarrow> nat \<Rightarrow> 'v njs_flathsh" where
  "njs_flathsh_alloc alloc hash_size esize =
     (if \<not> alloc (njs_flathsh_chunk_size hash_size esize) then None
      else Some \<lparr>cells = replicate hash_size 0, hash_mask = of_nat (hash_size - 1),
                 elts_size = esize, elts_count = 0, elts_deleted_count = 0, elts = []\<rparr>)"

definition njs_flathsh_new :: "(nat \<Rightarrow> bool) \<Rightarrow> 'v njs_flathsh" where
  "njs_flathsh_new alloc =
     njs_flathsh_alloc alloc NJS_FLATHSH_HASH_INITIAL_SIZE NJS_FLATHSH_ELTS_INITIAL_SIZE"

definition njs_flathsh_destroy :: "'v njs_flathsh \<Rightarrow> 'v njs_flathsh" where
  "njs_flathsh_destroy fh = None"

subsection \<open>Growing the table\<close>

text \<open>The doubling loop of \<open>njs_expand_elts\<close>; a size of 0 never occurs, see \<open>flathsh_inv\<close>.\<close>

function double_hash_size :: "nat \<Rightarrow> nat \<Rightarrow> nat" where
  "double_hash_size hs es = (if 0 < hs \<and> hs < es then double_hash_size (2 * hs) es else hs)"
  by pat_completeness auto
termination
  by (relation "measure (\<lambda>(hs, es). es - hs)") auto

declare double_hash_size.simps [simp del]

text \<open>The relinking loop: every live element is pushed on the front of its new list.\<close>

fun relink_elts :: "uint32 \<Rightarrow> nat \<Rightarrow> 'v njs_flathsh_elt list \<Rightarrow> nat list \<Rightarrow>
    'v njs_flathsh_elt list \<times> nat list" where
  "relink_elts hmask i [] cs = ([], cs)"
| "relink_elts hmask i (e # es) cs =
     (if is_free e then
        (let (es', cs') = relink_elts hmask (Suc i) es cs in (e # es', cs'))
      else
        (let c = cell_num (elt_key_hash e) hmask;
             (es', cs') = relink_elts hmask (Suc i) es (cs[c := i + 1])
         in (e\<lparr>next_elt := next_elt_field (cs ! c)\<rparr> # es', cs')))"

definition njs_expand_elts :: "(nat \<Rightarrow> bool) \<Rightarrow> 'v njs_flathsh_descr \<Rightarrow> 'v njs_flathsh" where
  "njs_expand_elts alloc h =
     (let new_elts_size = elts_size h * NJS_FLATHSH_ELTS_EXPAND_FACTOR_NUM
                            div NJS_FLATHSH_ELTS_EXPAND_FACTOR_DENOM;
          new_elts_size = max (elts_count h + 1) new_elts_size;
          new_hash_size = double_hash_size (unat (hash_mask h) + 1) new_elts_size
      in if UINT32_MAX < new_hash_size then None
         else if new_hash_size \<noteq> unat (hash_mask h) + 1 then
           if \<not> alloc (njs_flathsh_chunk_size new_hash_size new_elts_size) then None
           else
             (let new_hash_mask = of_nat (new_hash_size - 1);
                  (es, cs) = relink_elts new_hash_mask 0 (elts h) (replicate new_hash_size 0)
              in Some (h\<lparr>hash_mask := new_hash_mask, cells := cs, elts := es,
                         elts_size := new_elts_size\<rparr>))
         else if \<not> alloc (njs_flathsh_chunk_size new_hash_size new_elts_size) then None
         else Some (h\<lparr>elts_size := new_elts_size\<rparr>))"

text \<open>
  \<open>njs_flathsh_add_elt\<close> returns the new slot and the index of the new element; no index is
  the NULL answer, which leaves the slot as it was.
\<close>

definition push_elt :: "uint32 \<Rightarrow> 'v njs_flathsh_descr \<Rightarrow> 'v njs_flathsh_descr" where
  "push_elt kh h =
     (let c = cell_num kh (hash_mask h)
      in h\<lparr>elts := elts h @ [\<lparr>next_elt = next_elt_field (cells h ! c), elt_type = NJS_PROPERTY,
                             elt_key_hash = kh, elt_value = None\<rparr>],
           elts_count := elts_count h + 1,
           cells := (cells h)[c := elts_count h + 1]\<rparr>)"

definition njs_flathsh_add_elt ::
    "'v njs_flathsh \<Rightarrow> ('k, 'v) njs_flathsh_query \<Rightarrow> nat option \<times> 'v njs_flathsh" where
  "njs_flathsh_add_elt fh fhq =
     (case fh of
        None \<Rightarrow> (None, fh)
      | Some h \<Rightarrow>
          (case (if elts_count h = elts_size h then njs_expand_elts (fhq_alloc fhq) h else Some h) of
             None \<Rightarrow> (None, fh)
           | Some h' \<Rightarrow> (Some (elts_count h'), Some (push_elt (key_hash fhq) h'))))"


subsection \<open>Searching\<close>

text \<open>
  The list walk shared by the find and insert functions: from the one-based index \<open>n\<close>,
  \<open>Some (Some i)\<close> is the first element of the list that satisfies \<open>t\<close>, \<open>Some None\<close> the end of
  the list.
\<close>

partial_function (option) find_loop ::
    "('v njs_flathsh_elt \<Rightarrow> bool) \<Rightarrow> 'v njs_flathsh_elt list \<Rightarrow> nat \<Rightarrow> nat option option" where
  "find_loop t es n =
     (if n = 0 then Some None
      else if length es < n then None
      else if t (es ! (n - 1)) then Some (Some (n - 1))
      else find_loop t es (next_elt (es ! (n - 1))))"

declare find_loop.simps [code]

definition query_match ::
    "('k, 'v) njs_flathsh_query \<Rightarrow> 'v njs_flathsh_elt \<Rightarrow> bool" where
  "query_match fhq e \<longleftrightarrow> elt_key_hash e = key_hash fhq \<and> fhq_test fhq (key fhq) (elt_value e)"

definition unique_match ::
    "('k, 'v) njs_flathsh_query \<Rightarrow> 'v njs_flathsh_elt \<Rightarrow> bool" where
  "unique_match fhq e \<longleftrightarrow> elt_key_hash e = key_hash fhq"

definition njs_flathsh_find ::
    "'v njs_flathsh \<Rightarrow> ('k, 'v) njs_flathsh_query \<Rightarrow> (njs_ret \<times> nat option) option" where
  "njs_flathsh_find fh fhq =
     (case fh of
        None \<Rightarrow> Some (NJS_DECLINED, None)
      | Some h \<Rightarrow>
          (case find_loop (query_match fhq) (elts h)
                  (cells h ! cell_num (key_hash fhq) (hash_mask h)) of
             None \<Rightarrow> None
           | Some (Some i) \<Rightarrow> Some (NJS_OK, Some i)
           | Some None \<Rightarrow> Some (NJS_DECLINED, None)))"

definition njs_flathsh_unique_find ::
    "'v njs_flathsh \<Rightarrow> ('k, 'v) njs_flathsh_query \<Rightarrow> (njs_ret \<times> nat option) option" where
  "njs_flathsh_unique_find fh fhq =
     (case fh of
        None \<Rightarrow> Some (NJS_DECLINED, None)
      | Some h \<Rightarrow>
          (case find_loop (unique_match fhq) (elts h)
                  (cells h ! cell_num (key_hash fhq) (hash_mask h)) of
             None \<Rightarrow> None
           | Some (Some i) \<Rightarrow> Some (NJS_OK, Some i)
           | Some None \<Rightarrow> Some (NJS_DECLINED, None)))"

subsection \<open>Insertion\<close>

text \<open>
  An insertion answers the return code, \<open>fhq->value\<close> as an index where the code sets it, and
  the new slot.
\<close>

definition insert_by ::
    "(('k, 'v) njs_flathsh_query \<Rightarrow> 'v njs_flathsh_elt \<Rightarrow> bool) \<Rightarrow>
     'v njs_flathsh \<Rightarrow> ('k, 'v) njs_flathsh_query \<Rightarrow>
     (njs_ret \<times> nat option \<times> 'v njs_flathsh) option" where
  "insert_by m fh fhq =
     (case (case fh of None \<Rightarrow> njs_flathsh_new (fhq_alloc fhq) | Some h \<Rightarrow> Some h) of
        None \<Rightarrow> Some (NJS_ERROR, None, None)
      | Some h \<Rightarrow>
          (case find_loop (m fhq) (elts h)
                  (cells h ! cell_num (key_hash fhq) (hash_mask h)) of
             None \<Rightarrow> None
           | Some (Some i) \<Rightarrow>
               (if replace fhq then Some (NJS_OK, Some i, Some h)
                else Some (NJS_DECLINED, None, Some h))
           | Some None \<Rightarrow>
               (case njs_flathsh_add_elt (Some h) fhq of
                  (None, fh') \<Rightarrow> Some (NJS_ERROR, None, fh')
                | (Some i, fh') \<Rightarrow> Some (NJS_OK, Some i, fh'))))"

definition njs_flathsh_insert ::
    "'v njs_flathsh \<Rightarrow> ('k, 'v) njs_flathsh_query \<Rightarrow>
     (njs_ret \<times> nat option \<times> 'v njs_flathsh) option" where
  "njs_flathsh_insert = insert_by query_match"

definition njs_flathsh_unique_insert ::
    "'v njs_flathsh \<Rightarrow> ('k, 'v) njs_flathsh_query \<Rightarrow>
     (njs_ret \<times> nat option \<times> 'v njs_flathsh) option" where
  "njs_flathsh_unique_insert = insert_by unique_match"

text \<open>The caller's store through \<open>fhq->value\<close> after a successful insertion.\<close>

definition store_value :: "nat \<Rightarrow> 'v \<Rightarrow> 'v njs_flathsh \<Rightarrow> 'v njs_flathsh" where
  "store_value i v fh =
     map_option (\<lambda>h. h\<lparr>elts := (elts h)[i := (elts h ! i)\<lparr>elt_value := Some v\<rparr>]\<rparr>) fh"

subsection \<open>Deletion and shrinking\<close>

function halve_hash_size :: "nat \<Rightarrow> nat \<Rightarrow> nat" where
  "halve_hash_size hs es = (if 0 < es \<and> es \<le> hs div 2 then halve_hash_size (hs div 2) es else hs)"
  by pat_completeness auto
termination
  by (relation "measure (\<lambda>(hs, es). hs)") auto

declare halve_hash_size.simps [simp del]

text \<open>The compacting loop: live elements are copied to the front and pushed on their new list.\<close>

fun compact_elts :: "uint32 \<Rightarrow> nat \<Rightarrow> 'v njs_flathsh_elt list \<Rightarrow> nat list \<Rightarrow>
    'v njs_flathsh_elt list \<times> nat list" where
  "compact_elts hmask j [] cs = ([], cs)"
| "compact_elts hmask j (e # es) cs =
     (if is_free e then compact_elts hmask j es cs
      else
        (let c = cell_num (elt_key_hash e) hmask;
             (es', cs') = compact_elts hmask (Suc j) es (cs[c := j + 1])
         in (e\<lparr>next_elt := next_elt_field (cs ! c)\<rparr> # es', cs')))"

definition njs_shrink_elts :: "(nat \<Rightarrow> bool) \<Rightarrow> 'v njs_flathsh_descr \<Rightarrow> 'v njs_flathsh" where
  "njs_shrink_elts alloc h =
     (let new_elts_size = max NJS_FLATHSH_ELTS_INITIAL_SIZE (elts_count h - elts_deleted_count h);
          new_hash_size = halve_hash_size (unat (hash_mask h) + 1) new_elts_size;
          new_hash_mask = of_nat (new_hash_size - 1)
      in if \<not> alloc (njs_flathsh_chunk_size new_hash_size new_elts_size) then None
         else
           (let (es, cs) = compact_elts new_hash_mask 0 (elts h) (replicate new_hash_size 0)
            in Some \<lparr>cells = cs, hash_mask = new_hash_mask, elts_size = new_elts_size,
                     elts_count = length es, elts_deleted_count = 0, elts = es\<rparr>))"

text \<open>
  The delete walk remembers the previous element: \<open>Some (Some (prev, i))\<close>.  The index that
  \<open>fhq->value\<close> holds after a deletion refers to the array before shrinking.
\<close>

partial_function (option) delete_loop ::
    "('v njs_flathsh_elt \<Rightarrow> bool) \<Rightarrow> 'v njs_flathsh_elt list \<Rightarrow> nat option \<Rightarrow> nat \<Rightarrow>
     (nat option \<times> nat) option option" where
  "delete_loop t es prev n =
     (if n = 0 then Some None
      else if length es < n then None
      else if t (es ! (n - 1)) then Some (Some (prev, n - 1))
      else delete_loop t es (Some (n - 1)) (next_elt (es ! (n - 1))))"

declare delete_loop.simps [code]

definition unlink_elt ::
    "nat \<Rightarrow> nat option \<Rightarrow> nat \<Rightarrow> 'v njs_flathsh_descr \<Rightarrow> 'v njs_flathsh_descr" where
  "unlink_elt c prev i h =
     (let nxt = next_elt (elts h ! i);
          h = (case prev of
                 Some p \<Rightarrow> h\<lparr>elts := (elts h)[p := (elts h ! p)\<lparr>next_elt := nxt\<rparr>]\<rparr>
               | None \<Rightarrow> h\<lparr>cells := (cells h)[c := nxt]\<rparr>)
      in h\<lparr>elts_deleted_count := elts_deleted_count h + 1,
           elts := (elts h)[i := (elts h ! i)\<lparr>elt_type := NJS_FREE_FLATHSH_ELEMENT\<rparr>]\<rparr>)"

definition delete_by ::
    "(('k, 'v) njs_flathsh_query \<Rightarrow> 'v njs_flathsh_elt \<Rightarrow> bool) \<Rightarrow>
     'v njs_flathsh \<Rightarrow> ('k, 'v) njs_flathsh_query \<Rightarrow> (njs_ret \<times> nat option \<times> 'v njs_flathsh) option" where
  "delete_by m fh fhq =
     (case fh of
        None \<Rightarrow> Some (NJS_DECLINED, None, None)
      | Some h \<Rightarrow>
          (let c = cell_num (key_hash fhq) (hash_mask h)
           in case delete_loop (m fhq) (elts h) None (cells h ! c) of
                None \<Rightarrow> None
              | Some None \<Rightarrow> Some (NJS_DECLINED, None, Some h)
              | Some (Some (prev, i)) \<Rightarrow>
                  (let h = unlink_elt c prev i h
                   in case (if NJS_FLATHSH_ELTS_MINIMUM_TO_SHRINK \<le> elts_deleted_count h \<and>
                               elts_count h div NJS_FLATHSH_ELTS_FRACTION_TO_SHRINK
                                 \<le> elts_deleted_count h
                            then njs_shrink_elts (fhq_alloc fhq) h else Some h) of
                        None \<Rightarrow> Some (NJS_ERROR, Some i, Some h)
                      | Some h' \<Rightarrow>
                          (if elts_deleted_count h' = elts_count h'
                           then Some (NJS_OK, Some i, None) else Some (NJS_OK, Some i, Some h')))))"

definition njs_flathsh_delete ::
    "'v njs_flathsh \<Rightarrow> ('k, 'v) njs_flathsh_query \<Rightarrow> (njs_ret \<times> nat option \<times> 'v njs_flathsh) option" where
  "njs_flathsh_delete = delete_by query_match"

definition njs_flathsh_unique_delete ::
    "'v njs_flathsh \<Rightarrow> ('k, 'v) njs_flathsh_query \<Rightarrow> (njs_ret \<times> nat option \<times> 'v njs_flathsh) option" where
  "njs_flathsh_unique_delete = delete_by unique_match"

subsection \<open>Enumeration\<close>

text \<open>One call from the cursor \<open>cp\<close>: the element it returns, if any, and the new cursor.\<close>

function each_loop :: "'v njs_flathsh_descr \<Rightarrow> nat \<Rightarrow> 'v njs_flathsh_elt option \<times> nat" where
  "each_loop h cp =
     (if cp < elts_count h then
        (if is_free (elts h ! cp) then each_loop h (cp + 1) else (Some (elts h ! cp), cp + 1))
      else (None, cp))"
  by pat_completeness auto
termination
  by (relation "measure (\<lambda>(h, cp). elts_count h - cp)") auto

declare each_loop.simps [simp del]

definition njs_flathsh_each ::
    "'v njs_flathsh \<Rightarrow> nat \<Rightarrow> 'v njs_flathsh_elt option \<times> nat" where
  "njs_flathsh_each fh cp = (case fh of None \<Rightarrow> (None, cp) | Some h \<Rightarrow> each_loop h cp)"

end
