(* ===== verification/Njs_Flathsh_Inv.thy ===== *)
theory Njs_Flathsh_Inv
  imports Njs_Flathsh
begin

section \<open>The flat hash invariant and the correctness of its operations\<close>

text \<open>
  The invariant of the flat hash (every cell's list visits exactly the live elements of that
  cell, newest first; the counters count; the sizes fit) and, for each operation of
  \<open>Njs_Flathsh\<close>, that it keeps the invariant and what it does to the list of live elements.
  The find, insert and delete proofs are done once in the locale \<open>flathsh_match\<close> and
  interpreted for the two tests of the source.
\<close>

subsection \<open>Element lists and the table invariant\<close>

text \<open>
  \<open>chain es n is\<close>: the list that starts at the one-based index \<open>n\<close> visits exactly the elements
  \<open>is\<close>.  \<open>bucket\<close> names the live elements of a cell, newest first; a table is linked when every
  cell's list visits exactly its bucket.
\<close>

primrec chain :: "'v njs_flathsh_elt list \<Rightarrow> nat \<Rightarrow> nat list \<Rightarrow> bool" where
  "chain es n [] \<longleftrightarrow> n = 0"
| "chain es n (i # is) \<longleftrightarrow> n = Suc i \<and> i < length es \<and> chain es (next_elt (es ! i)) is"

definition in_bucket :: "uint32 \<Rightarrow> 'v njs_flathsh_elt \<Rightarrow> nat \<Rightarrow> bool" where
  "in_bucket hmask e c \<longleftrightarrow> \<not> is_free e \<and> cell_num (elt_key_hash e) hmask = c"

definition bucket :: "uint32 \<Rightarrow> 'v njs_flathsh_elt list \<Rightarrow> nat \<Rightarrow> nat list" where
  "bucket hmask es c = rev (filter (\<lambda>i. in_bucket hmask (es ! i) c) [0..<length es])"

definition linked :: "uint32 \<Rightarrow> 'v njs_flathsh_elt list \<Rightarrow> nat list \<Rightarrow> bool" where
  "linked hmask es cs \<longleftrightarrow> (\<forall>c < length cs. chain es (cs ! c) (bucket hmask es c))"

definition is_pow2 :: "nat \<Rightarrow> bool" where
  "is_pow2 n \<longleftrightarrow> n \<in> range ((^) 2)"

definition flathsh_inv :: "'v njs_flathsh_descr \<Rightarrow> bool" where
  "flathsh_inv h \<longleftrightarrow>
     length (cells h) = unat (hash_mask h) + 1 \<and> is_pow2 (length (cells h)) \<and>
     length (cells h) \<le> UINT32_MAX \<and>
     elts_count h = length (elts h) \<and> elts_count h \<le> elts_size h \<and>
     NJS_FLATHSH_ELTS_INITIAL_SIZE \<le> elts_size h \<and> elts_size h \<le> length (cells h) \<and>
     elts_deleted_count h = length (filter is_free (elts h)) \<and>
     linked (hash_mask h) (elts h) (cells h)"

definition fh_inv :: "'v njs_flathsh \<Rightarrow> bool" where
  "fh_inv fh \<longleftrightarrow> (case fh of None \<Rightarrow> True | Some h \<Rightarrow> flathsh_inv h)"

text \<open>
  The abstraction: the live elements in the order of insertion, without their list links.
\<close>

definition strip :: "'v njs_flathsh_elt \<Rightarrow> 'v njs_flathsh_elt" where
  "strip e = e\<lparr>next_elt := 0\<rparr>"

definition live_elts :: "'v njs_flathsh_elt list \<Rightarrow> 'v njs_flathsh_elt list" where
  "live_elts es = map strip (filter (\<lambda>e. \<not> is_free e) es)"

definition entries :: "'v njs_flathsh \<Rightarrow> 'v njs_flathsh_elt list" where
  "entries fh = (case fh of None \<Rightarrow> [] | Some h \<Rightarrow> live_elts (elts h))"

subsection \<open>Facts about element lists\<close>

lemma strip_simps [simp]:
  "elt_key_hash (strip e) = elt_key_hash e" "elt_value (strip e) = elt_value e"
  "elt_type (strip e) = elt_type e" "is_free (strip e) = is_free e"
  "strip (e\<lparr>next_elt := n\<rparr>) = strip e" "is_free (e\<lparr>next_elt := n\<rparr>) = is_free e"
  by (simp_all add: strip_def is_free_def)

lemma live_elts_Nil [simp]: "live_elts [] = []"
  by (simp add: live_elts_def)

lemma in_bucket_next [simp]: "in_bucket hmask (e\<lparr>next_elt := n\<rparr>) c = in_bucket hmask e c"
  by (simp add: in_bucket_def)

lemma cell_num_less: "cell_num kh hmask < unat hmask + 1"
proof -
  have "unat (kh AND hmask) \<le> unat hmask"
    by (simp add: word_le_nat_alt [symmetric] word_and_le1)
  then show ?thesis by (simp add: cell_num_def)
qed

lemma next_elt_field_id: "n < 2 ^ 26 \<Longrightarrow> next_elt_field n = n"
  by (simp add: next_elt_field_def)

lemma chain_head_le: "chain es n is \<Longrightarrow> n \<le> length es"
  by (cases "is") auto

lemma chain_set: "chain es n is \<Longrightarrow> i \<in> set is \<Longrightarrow> i < length es"
  by (induction "is" arbitrary: n) auto

lemma chain_append_elt [chain_simps]: "chain es n is \<Longrightarrow> chain (es @ xs) n is"
  by (induction "is" arbitrary: n) (auto simp: nth_append)

lemma chain_update [chain_simps]:
  "i \<notin> set is \<Longrightarrow> chain (es[i := e]) n is = chain es n is"
  by (induction "is" arbitrary: n) auto

lemma chain_update_same_next [chain_simps]:
  assumes "next_elt e = next_elt (es ! i)"
  shows "chain (es[i := e]) n is = chain es n is"
proof -
  have "next_elt (es[i := e] ! j) = next_elt (es ! j)" for j
    using assms by (cases "i = j"; cases "i < length es") (auto simp: list_update_beyond)
  then show ?thesis by (induction "is" arbitrary: n) auto
qed

lemma chain_app:
  "chain es n (xs @ i # ys) \<Longrightarrow> i < length es \<and> chain es (next_elt (es ! i)) ys"
  by (induction xs arbitrary: n) auto

lemma chain_skip:
  "chain es n (xs @ p # i # ys) \<Longrightarrow> distinct (xs @ p # i # ys) \<Longrightarrow>
   chain (es[p := (es ! p)\<lparr>next_elt := next_elt (es ! i)\<rparr>]) n (xs @ p # ys)"
  by (induction xs arbitrary: n) (auto simp: chain_simps)

lemma find_loop_chain:
  "chain es n is \<Longrightarrow> find_loop t es n = Some (List.find (\<lambda>i. t (es ! i)) is)"
  by (induction "is" arbitrary: n) (subst find_loop.simps, auto)+

lemma delete_loop_chain_None:
  "chain es n is \<Longrightarrow> \<forall>i \<in> set is. \<not> t (es ! i) \<Longrightarrow> delete_loop t es prev n = Some None"
  by (induction "is" arbitrary: n prev) (subst delete_loop.simps, auto)+

lemma delete_loop_chain_Some:
  "chain es n (pre @ i # post) \<Longrightarrow> \<forall>j \<in> set pre. \<not> t (es ! j) \<Longrightarrow> t (es ! i) \<Longrightarrow>
   delete_loop t es prev n = Some (Some (if pre = [] then prev else Some (last pre), i))"
  by (induction pre arbitrary: n prev) (subst delete_loop.simps, auto)+

lemma distinct_bucket: "distinct (bucket hmask es c)"
  by (simp add: bucket_def)

lemma set_bucket: "set (bucket hmask es c) = {i. i < length es \<and> in_bucket hmask (es ! i) c}"
  by (auto simp: bucket_def)

lemma bucket_append [bucket_simps]:
  "bucket hmask (es @ [e]) c =
     (if in_bucket hmask e c then length es # bucket hmask es c else bucket hmask es c)"
proof -
  have "filter (\<lambda>i. in_bucket hmask ((es @ [e]) ! i) c) [0..<length es] =
        filter (\<lambda>i. in_bucket hmask (es ! i) c) [0..<length es]"
    by (rule filter_upt_cong) (simp add: nth_append)
  then show ?thesis by (simp add: bucket_def)
qed

lemma bucket_cong [bucket_simps]:
  "length es' = length es \<Longrightarrow> (\<And>i. i < length es \<Longrightarrow> in_bucket hmask (es' ! i) c = in_bucket hmask (es ! i) c)
   \<Longrightarrow> bucket hmask es' c = bucket hmask es c"
  unfolding bucket_def by (auto intro: filter_upt_cong)

lemma linked_push:
  assumes "linked hmask es cs" "length es < 2 ^ 26" "\<not> is_free e"
    and "c = cell_num (elt_key_hash e) hmask" "c < length cs"
  shows "linked hmask (es @ [e\<lparr>next_elt := next_elt_field (cs ! c)\<rparr>]) (cs[c := Suc (length es)])"
  unfolding linked_def
proof (intro allI impI)
  fix d assume d: "d < length (cs[c := Suc (length es)])"
  from assms(1,5) have ch: "chain es (cs ! c) (bucket hmask es c)" by (simp add: linked_def)
  then have "cs ! c < 2 ^ 26" using assms(2) chain_head_le by fastforce
  then have nx: "next_elt_field (cs ! c) = cs ! c" by (rule next_elt_field_id)
  show "chain (es @ [e\<lparr>next_elt := next_elt_field (cs ! c)\<rparr>]) (cs[c := Suc (length es)] ! d)
          (bucket hmask (es @ [e\<lparr>next_elt := next_elt_field (cs ! c)\<rparr>]) d)"
  proof (cases "d = c")
    case True
    then show ?thesis using assms ch nx
      by (simp add: bucket_append in_bucket_def chain_append_elt)
  next
    case False
    then have "chain es (cs ! d) (bucket hmask es d)" using assms(1) d by (simp add: linked_def)
    then show ?thesis using False assms(3,4)
      by (auto simp: bucket_append in_bucket_def chain_append_elt)
  qed
qed

lemma linked_free:
  "linked hmask es cs \<Longrightarrow> is_free e \<Longrightarrow> linked hmask (es @ [e]) cs"
  by (simp add: linked_def bucket_append in_bucket_def chain_append_elt)

lemma linked_empty: "linked hmask [] (replicate n 0)"
  by (simp add: linked_def bucket_def)


subsection \<open>Relinking and compacting\<close>

lemma relink_elts_correct:
  assumes "relink_elts hmask i es cs = (es', cs')" "linked hmask pre cs" "length pre = i"
    and "length pre + length es \<le> 2 ^ 26" "length cs = unat hmask + 1"
  shows "linked hmask (pre @ es') cs' \<and> length cs' = length cs \<and> map strip es' = map strip es"
  using assms
proof (induction es arbitrary: pre i cs es' cs')
  case Nil
  then show ?case by simp
next
  case (Cons e es)
  show ?case
  proof (cases "is_free e")
    case True
    with Cons.prems obtain es1 where es1: "relink_elts hmask (Suc i) es cs = (es1, cs')" "es' = e # es1"
      by (auto split: prod.splits)
    have "linked hmask ((pre @ [e]) @ es1) cs' \<and> length cs' = length cs \<and> map strip es1 = map strip es"
      using Cons.prems True by (intro Cons.IH [OF es1(1)]) (auto intro: linked_free)
    then show ?thesis using es1 by simp
  next
    case False
    let ?c = "cell_num (elt_key_hash e) hmask"
    let ?e = "e\<lparr>next_elt := next_elt_field (cs ! ?c)\<rparr>"
    from False Cons.prems obtain es1 where
      es1: "relink_elts hmask (Suc i) es (cs[?c := i + 1]) = (es1, cs')" "es' = ?e # es1"
      by (auto simp: Let_def split: prod.splits)
    have "linked hmask (pre @ [?e]) (cs[?c := Suc (length pre)])"
      using Cons.prems False cell_num_less[of "elt_key_hash e" hmask] by (intro linked_push) auto
    then have "linked hmask ((pre @ [?e]) @ es1) cs' \<and> length cs' = length (cs[?c := i + 1]) \<and>
               map strip es1 = map strip es"
      using Cons.prems by (intro Cons.IH [OF es1(1)]) auto
    then show ?thesis using es1 by simp
  qed
qed

lemma compact_elts_correct:
  assumes "compact_elts hmask j es cs = (es', cs')" "linked hmask pre cs" "length pre = j"
    and "length pre + length es \<le> 2 ^ 26" "length cs = unat hmask + 1"
  shows "linked hmask (pre @ es') cs' \<and> length cs' = length cs \<and>
         map strip es' = live_elts es \<and> (\<forall>e \<in> set es'. \<not> is_free e)"
  using assms
proof (induction es arbitrary: pre j cs es' cs')
  case Nil
  then show ?case by (simp add: live_elts_def)
next
  case (Cons e es)
  show ?case
  proof (cases "is_free e")
    case True
    then show ?thesis using Cons.prems Cons.IH [of j cs es' cs' pre] by (simp add: live_elts_def)
  next
    case False
    let ?c = "cell_num (elt_key_hash e) hmask"
    let ?e = "e\<lparr>next_elt := next_elt_field (cs ! ?c)\<rparr>"
    from False Cons.prems obtain es1 where
      es1: "compact_elts hmask (Suc j) es (cs[?c := j + 1]) = (es1, cs')" "es' = ?e # es1"
      by (auto simp: Let_def split: prod.splits)
    have "linked hmask (pre @ [?e]) (cs[?c := Suc (length pre)])"
      using Cons.prems False cell_num_less[of "elt_key_hash e" hmask] by (intro linked_push) auto
    then have "linked hmask ((pre @ [?e]) @ es1) cs' \<and> length cs' = length (cs[?c := j + 1]) \<and>
               map strip es1 = live_elts es \<and> (\<forall>e \<in> set es1. \<not> is_free e)"
      using Cons.prems by (intro Cons.IH [OF es1(1)]) auto
    then show ?thesis using es1 False by (simp add: live_elts_def)
  qed
qed

lemma live_elts_strip_cong:
  assumes "map strip es' = map strip es"
  shows "live_elts es' = live_elts es" "length (filter is_free es') = length (filter is_free es)"
        "length es' = length es"
proof -
  have f: "filter (\<lambda>e. \<not> is_free e) (map strip xs) = live_elts xs"
    and g: "length (filter is_free (map strip xs)) = length (filter is_free xs)"
    for xs :: "'a njs_flathsh_elt list"
    by (simp_all add: live_elts_def filter_map comp_def)
  show "live_elts es' = live_elts es" using f[of es'] f[of es] assms by simp
  show "length (filter is_free es') = length (filter is_free es)"
    using g[of es'] g[of es] assms by simp
  show "length es' = length es" using assms by (rule map_eq_imp_length_eq)
qed

lemma double_hash_size_ge: "0 < hs \<Longrightarrow> es \<le> double_hash_size hs es \<and> hs \<le> double_hash_size hs es"
proof (induction hs es rule: double_hash_size.induct)
  case (1 hs es)
  then show ?case by (subst (1 2) double_hash_size.simps) auto
qed

lemma is_pow2_double: "is_pow2 n \<Longrightarrow> is_pow2 (2 * n)"
  by (auto simp: is_pow2_def intro: range_eqI[of _ _ "Suc _"])

lemma is_pow2_halve:
  assumes "is_pow2 n" "0 < n div 2"
  shows "is_pow2 (n div 2)"
proof -
  from assms(1) obtain k where "n = 2 ^ k" by (auto simp: is_pow2_def)
  with assms(2) show ?thesis by (cases k) (auto simp: is_pow2_def)
qed

lemma double_hash_size_pow2: "is_pow2 hs \<Longrightarrow> is_pow2 (double_hash_size hs es)"
proof (induction hs es rule: double_hash_size.induct)
  case (1 hs es)
  then show ?case by (subst double_hash_size.simps) (auto intro: is_pow2_double)
qed

lemma halve_hash_size_ge: "es \<le> hs \<Longrightarrow> es \<le> halve_hash_size hs es \<and> halve_hash_size hs es \<le> hs"
proof (induction hs es rule: halve_hash_size.induct)
  case (1 hs es)
  then show ?case
  proof (cases "0 < es \<and> es \<le> hs div 2")
    case True
    with 1 have "es \<le> halve_hash_size (hs div 2) es \<and> halve_hash_size (hs div 2) es \<le> hs div 2" by simp
    then show ?thesis using True by (subst (1 2) halve_hash_size.simps) auto
  next
    case False
    then show ?thesis using 1 by (subst (1 2) halve_hash_size.simps) auto
  qed
qed

lemma halve_hash_size_pow2: "is_pow2 hs \<Longrightarrow> is_pow2 (halve_hash_size hs es)"
proof (induction hs es rule: halve_hash_size.induct)
  case (1 hs es)
  then show ?case by (subst halve_hash_size.simps) (auto dest: is_pow2_halve)
qed

lemma unat_mask: "0 < n \<Longrightarrow> n \<le> UINT32_MAX \<Longrightarrow> unat (of_nat (n - 1) :: uint32) + 1 = n"
  by (cases n) (simp_all add: unat_of_nat)

lemma flathsh_inv_new:
  assumes "njs_flathsh_new alloc = Some h"
  shows "flathsh_inv h" "elts h = []" "elts_count h = 0" "elts_size h = 2"
proof -
  from assms have h: "h = \<lparr>cells = replicate 4 0, hash_mask = 3, elts_size = 2, elts_count = 0,
      elts_deleted_count = 0, elts = []\<rparr>"
    by (simp add: njs_flathsh_new_def njs_flathsh_alloc_def flathsh_consts split: if_splits)
  have "is_pow2 4" by (auto simp: is_pow2_def intro: range_eqI[of _ _ 2])
  moreover have "linked 3 [] (replicate 4 0)" by (rule linked_empty)
  ultimately show "flathsh_inv h" by (simp add: flathsh_inv_def h flathsh_consts)
  show "elts h = []" "elts_count h = 0" "elts_size h = 2" by (simp_all add: h)
qed

lemma expand_elts_correct:
  assumes "flathsh_inv h" "elts_count h \<le> 2 ^ 26" "njs_expand_elts alloc h = Some h'"
  shows "flathsh_inv h' \<and> live_elts (elts h') = live_elts (elts h) \<and>
         elts_count h' = elts_count h \<and> elts_count h' < elts_size h' \<and> length (elts h') = length (elts h)"
proof -
  define es where "es = max (elts_count h + 1) (elts_size h * 3 div 2)"
  define hs where "hs = double_hash_size (unat (hash_mask h) + 1) es"
  define nm where "nm = (of_nat (hs - 1) :: uint32)"
  have hs: "es \<le> hs" "0 < hs" using double_hash_size_ge[of "unat (hash_mask h) + 1" es]
    by (auto simp: hs_def)
  have hs2: "is_pow2 hs" using assms(1) unfolding hs_def flathsh_inv_def
    by (metis double_hash_size_pow2)
  have le: "hs \<le> UINT32_MAX" and n: "hs \<noteq> unat (hash_mask h) + 1 \<Longrightarrow> \<exists>es' cs'.
      relink_elts nm 0 (elts h) (replicate hs 0) = (es', cs') \<and>
      h' = h\<lparr>hash_mask := nm, cells := cs', elts := es', elts_size := es\<rparr>"
    and s: "hs = unat (hash_mask h) + 1 \<Longrightarrow> h' = h\<lparr>elts_size := es\<rparr>"
    using assms(3)[unfolded njs_expand_elts_def flathsh_consts Let_def,
        folded es_def, folded hs_def, folded nm_def] by (auto split: if_splits prod.splits)
  have m: "unat nm + 1 = hs" using unat_mask[of hs] hs le by (simp add: nm_def)
  have es: "2 \<le> es" "elts_count h < es" "elts_count h = length (elts h)" using assms(1)
    by (auto simp: es_def flathsh_inv_def flathsh_consts)
  show ?thesis
  proof (cases "hs = unat (hash_mask h) + 1")
    case True
    then show ?thesis using s es hs assms(1) by (auto simp: flathsh_inv_def flathsh_consts)
  next
    case False
    then obtain es' cs' where r: "relink_elts nm 0 (elts h) (replicate hs 0) = (es', cs')"
      and h': "h' = h\<lparr>hash_mask := nm, cells := cs', elts := es', elts_size := es\<rparr>"
      using n by blast
    from relink_elts_correct[OF r, of "[]"] m assms(2) es
    have l: "linked nm es' cs'" "length cs' = hs" "map strip es' = map strip (elts h)"
      by (auto simp: linked_empty)
    show ?thesis using l live_elts_strip_cong[OF l(3)] assms(1) es hs hs2 le m
      by (auto simp: h' flathsh_inv_def flathsh_consts)
  qed
qed

lemma double_hash_size_le: "double_hash_size hs es \<le> max hs (2 * es)"
proof (induction hs es rule: double_hash_size.induct)
  case (1 hs es)
  then show ?case by (subst double_hash_size.simps) auto
qed

lemma expand_fails_alloc:
  assumes "flathsh_inv h" "elts_count h = elts_size h" "elts_count h < 2 ^ 26"
    and "njs_expand_elts alloc h = None"
  shows "\<exists>n. \<not> alloc n"
proof -
  have "max (unat (hash_mask h) + 1) (2 * max (elts_count h + 1) (elts_size h * 3 div 2)) \<le> UINT32_MAX"
    using assms(1,2,3) by (auto simp: flathsh_inv_def max_def)
  then have "double_hash_size (unat (hash_mask h) + 1) (max (elts_count h + 1) (elts_size h * 3 div 2)) \<le> UINT32_MAX"
    by (rule order_trans [OF double_hash_size_le])
  then show ?thesis using assms(4)
    by (auto simp: njs_expand_elts_def flathsh_consts Let_def split: if_splits prod.splits)
qed

definition fresh_elt :: "uint32 \<Rightarrow> 'v njs_flathsh_elt" where
  "fresh_elt kh = \<lparr>next_elt = 0, elt_type = NJS_PROPERTY, elt_key_hash = kh, elt_value = None\<rparr>"

lemma fresh_elt_simps [simp]:
  "elt_key_hash (fresh_elt kh) = kh" "elt_value (fresh_elt kh) = None" "\<not> is_free (fresh_elt kh)"
  "strip (fresh_elt kh) = fresh_elt kh"
  by (simp_all add: fresh_elt_def is_free_def strip_def)

lemma push_elt_correct:
  assumes "flathsh_inv h" "elts_count h < elts_size h" "elts_count h < 2 ^ 26"
  shows "flathsh_inv (push_elt kh h) \<and> live_elts (elts (push_elt kh h)) = live_elts (elts h) @ [fresh_elt kh]
    \<and> strip (elts (push_elt kh h) ! elts_count h) = fresh_elt kh
    \<and> elts_count (push_elt kh h) = elts_count h + 1"
proof -
  let ?c = "cell_num kh (hash_mask h)"
  let ?e = "(fresh_elt kh :: 'a njs_flathsh_elt)\<lparr>next_elt := next_elt_field (cells h ! ?c)\<rparr>"
  have p: "push_elt kh h = h\<lparr>elts := elts h @ [?e], elts_count := elts_count h + 1,
             cells := (cells h)[?c := Suc (length (elts h))]\<rparr>"
    using assms(1) by (simp add: push_elt_def fresh_elt_def Let_def flathsh_inv_def)
  have "linked (hash_mask h) (elts h @ [?e]) ((cells h)[?c := Suc (length (elts h))])"
    using assms cell_num_less[of kh "hash_mask h"]
    by (intro linked_push) (auto simp: flathsh_inv_def)
  then show ?thesis using assms by (auto simp: p flathsh_inv_def live_elts_def)
qed

lemma add_elt_correct:
  assumes "flathsh_inv h" "elts_count h < 2 ^ 26"
  shows "case njs_flathsh_add_elt (Some h) fhq of
           (None, fh') \<Rightarrow> fh' = Some h \<and> elts_count h = elts_size h \<and> njs_expand_elts (fhq_alloc fhq) h = None
         | (Some i, fh') \<Rightarrow> (\<exists>h'. fh' = Some h' \<and> flathsh_inv h' \<and> i = elts_count h
             \<and> elts_count h' = elts_count h + 1
             \<and> live_elts (elts h') = live_elts (elts h) @ [fresh_elt (key_hash fhq)]
             \<and> strip (elts h' ! i) = fresh_elt (key_hash fhq))"
proof (cases "elts_count h = elts_size h")
  case True
  show ?thesis
  proof (cases "njs_expand_elts (fhq_alloc fhq) h")
    case None
    then show ?thesis using True by (simp add: njs_flathsh_add_elt_def)
  next
    case (Some h1)
    from expand_elts_correct[OF assms(1) _ Some] assms(2)
    have h1: "flathsh_inv h1" "live_elts (elts h1) = live_elts (elts h)"
       "elts_count h1 = elts_count h" "elts_count h1 < elts_size h1" by auto
    then show ?thesis using push_elt_correct[OF h1(1,4), of "key_hash fhq"] assms(2) True Some
      by (auto simp: njs_flathsh_add_elt_def)
  qed
next
  case False
  then have "elts_count h < elts_size h" using assms(1) by (auto simp: flathsh_inv_def)
  then show ?thesis using push_elt_correct[OF assms(1), of "key_hash fhq"] assms(2) False
    by (auto simp: njs_flathsh_add_elt_def)
qed


lemma bucket_free [bucket_simps]:
  assumes "i < length es" "is_free e"
  shows "bucket hmask (es[i := e]) c = filter (\<lambda>j. j \<noteq> i) (bucket hmask es c)"
proof -
  have "filter (\<lambda>j. in_bucket hmask (es[i := e] ! j) c) [0..<length es] =
        filter (\<lambda>j. j \<noteq> i \<and> in_bucket hmask (es ! j) c) [0..<length es]"
    using assms by (intro filter_upt_cong) (auto simp: nth_list_update in_bucket_def)
  then show ?thesis by (simp add: bucket_def rev_filter conj_commute)
qed

lemma bucket_update_next [bucket_simps]:
  "bucket hmask (es[i := (es ! i)\<lparr>next_elt := n\<rparr>]) c = bucket hmask es c"
  by (rule bucket_cong) (auto simp: nth_list_update_any)

lemma linked_unlink:
  assumes "linked hmask es cs" "c < length cs" "bucket hmask es c = us @ i # vs"
    and es1: "es1 = (if us = [] then es else es[last us := (es ! last us)\<lparr>next_elt := next_elt (es ! i)\<rparr>])"
    and cs1: "cs1 = (if us = [] then cs[c := next_elt (es ! i)] else cs)"
  shows "linked hmask (es1[i := (es1 ! i)\<lparr>elt_type := NJS_FREE_FLATHSH_ELEMENT\<rparr>]) cs1"
  unfolding linked_def
proof (intro allI impI)
  fix d assume d: "d < length cs1"
  let ?e = "(es1 ! i)\<lparr>elt_type := NJS_FREE_FLATHSH_ELEMENT\<rparr>"
  from assms(1,2,3) have ch: "chain es (cs ! c) (us @ i # vs)" by (auto simp: linked_def)
  have ds: "distinct (us @ i # vs)" using distinct_bucket[of hmask es c] assms(3) by simp
  have i: "i < length es1" "is_free ?e" using chain_app[OF ch] by (simp_all add: es1 is_free_def)
  have b1: "bucket hmask es1 d' = bucket hmask es d'" for d' by (simp add: es1 bucket_update_next)
  show "chain (es1[i := ?e]) (cs1 ! d) (bucket hmask (es1[i := ?e]) d)"
  proof (cases "d = c")
    case True
    have bk: "bucket hmask (es1[i := ?e]) d = us @ vs"
      using bucket_free[OF i] True assms(3) b1 filter_neq_split[OF ds] by simp
    have "chain es1 (cs1 ! c) (us @ vs)"
    proof (cases "us = []")
      case True
      then show ?thesis using ch assms(2) by (simp add: es1 cs1)
    next
      case False
      then obtain xs p where us: "us = xs @ [p]" by (metis rev_exhaust)
      then show ?thesis using chain_skip[of es "cs ! c" xs p i vs] ch ds False
        by (simp add: es1 cs1)
    qed
    then show ?thesis using bk True ds by (simp add: chain_update)
  next
    case False
    have disj: "j \<notin> set (bucket hmask es d)" if "j \<in> set (us @ i # vs)" for j
      using that assms(3) False unfolding assms(3)[symmetric] by (auto simp: set_bucket in_bucket_def)
    then have "bucket hmask (es1[i := ?e]) d = bucket hmask es d"
      using bucket_free[OF i] b1 filter_neq_notin by (simp add: filter_neq_notin)
    moreover have "chain es (cs1 ! d) (bucket hmask es d)"
      using d False assms(1) by (simp add: cs1 linked_def split: if_splits)
    moreover have "us \<noteq> [] \<Longrightarrow> last us \<notin> set (bucket hmask es d)" "i \<notin> set (bucket hmask es d)"
      using disj by auto
    ultimately show ?thesis by (simp add: es1 chain_update)
  qed
qed

lemma live_elts_split:
  assumes "i < length es" "\<not> is_free (es ! i)"
  shows "live_elts es = live_elts (take i es) @ strip (es ! i) # live_elts (drop (Suc i) es)"
  using filter_split_nth[OF assms(1), of "\<lambda>e. \<not> is_free e"] assms(2) by (simp add: live_elts_def)

lemma unlink_elt_correct:
  assumes "flathsh_inv h" "c < length (cells h)" "bucket (hash_mask h) (elts h) c = us @ i # vs"
    and h': "h' = unlink_elt c (if us = [] then None else Some (last us)) i h"
  shows "flathsh_inv h'" "elts_count h' = elts_count h"
    and "live_elts (elts h) = live_elts (take i (elts h)) @ strip (elts h ! i) # live_elts (drop (Suc i) (elts h))"
    and "live_elts (elts h') = live_elts (take i (elts h)) @ live_elts (drop (Suc i) (elts h))"
proof -
  let ?es = "elts h"
  define es1 where "es1 = (if us = [] then ?es else ?es[last us := (?es ! last us)\<lparr>next_elt := next_elt (?es ! i)\<rparr>])"
  define cs1 where "cs1 = (if us = [] then (cells h)[c := next_elt (?es ! i)] else cells h)"
  let ?e = "(es1 ! i)\<lparr>elt_type := NJS_FREE_FLATHSH_ELEMENT\<rparr>"
  have "i \<in> set (bucket (hash_mask h) ?es c)" using assms(3) by simp
  then have i: "i < length ?es" "\<not> is_free (?es ! i)" by (auto simp: set_bucket in_bucket_def)
  have ds: "distinct (us @ i # vs)" using distinct_bucket assms(3) by metis
  have h'': "h' = h\<lparr>elts := es1[i := ?e], cells := cs1, elts_deleted_count := elts_deleted_count h + 1\<rparr>"
    by (simp add: h' unlink_elt_def Let_def es1_def cs1_def)
  have "map strip es1 = map strip ?es"
    by (rule nth_equalityI) (auto simp: es1_def nth_list_update_any split: if_splits)
  note s = live_elts_strip_cong[OF this]
  have fr: "\<not> is_free (es1 ! i)" using i by (auto simp: es1_def nth_list_update_any)
  have le: "live_elts (es1[i := ?e]) = live_elts (take i es1) @ live_elts (drop (Suc i) es1)"
    using filter_list_update_drop[of i es1 "\<lambda>e. \<not> is_free e" ?e] fr i(1) s(3)
    by (simp add: live_elts_def is_free_def)
  have td: "live_elts (take i es1) = live_elts (take i ?es)"
    "live_elts (drop (Suc i) es1) = live_elts (drop (Suc i) ?es)"
    using \<open>map strip es1 = map strip ?es\<close> by (metis live_elts_strip_cong(1) take_map drop_map)+
  have "length (filter is_free (es1[i := ?e])) = Suc (length (filter is_free es1))"
    using filter_split_nth[of i "es1[i := ?e]" is_free] filter_split_nth[of i es1 is_free] fr i(1) s(3)
    by (simp add: is_free_def)
  then show "flathsh_inv h'" using assms(1) s linked_unlink[OF _ assms(2,3) es1_def cs1_def]
    by (auto simp: h'' flathsh_inv_def cs1_def)
  show "elts_count h' = elts_count h" by (simp add: h'')
  show "live_elts (elts h) = live_elts (take i (elts h)) @ strip (elts h ! i) # live_elts (drop (Suc i) (elts h))"
    by (rule live_elts_split[OF i])
  show "live_elts (elts h') = live_elts (take i (elts h)) @ live_elts (drop (Suc i) (elts h))"
    by (simp add: h'' le td)
qed

lemma length_live_elts: "length (live_elts es) + length (filter is_free es) = length es"
  using sum_length_filter_compl[of is_free es] by (simp add: live_elts_def)

lemma shrink_elts_correct:
  assumes "flathsh_inv h" "elts_count h \<le> 2 ^ 26" "njs_shrink_elts alloc h = Some h'"
  shows "flathsh_inv h' \<and> live_elts (elts h') = live_elts (elts h) \<and> elts_deleted_count h' = 0 \<and>
         elts_count h' = elts_count h - elts_deleted_count h \<and> elts_size h' \<le> elts_size h"
proof -
  define es where "es = max 2 (elts_count h - elts_deleted_count h)"
  define hs where "hs = halve_hash_size (unat (hash_mask h) + 1) es"
  define nm where "nm = (of_nat (hs - 1) :: uint32)"
  have esz: "2 \<le> es" "es \<le> elts_size h" "es \<le> unat (hash_mask h) + 1"
    and ct: "elts_count h = length (elts h)" using assms(1)
    by (auto simp: es_def flathsh_inv_def flathsh_consts)
  have hs: "es \<le> hs" "hs \<le> unat (hash_mask h) + 1"
    using halve_hash_size_ge[OF esz(3)] by (auto simp: hs_def)
  have hs2: "is_pow2 hs" using assms(1) unfolding hs_def flathsh_inv_def
    by (metis halve_hash_size_pow2)
  have le: "hs \<le> UINT32_MAX" using hs assms(1) by (simp add: flathsh_inv_def)
  have m: "unat nm + 1 = hs" using unat_mask[of hs] hs esz le by (simp add: nm_def)
  obtain es' cs' where r: "compact_elts nm 0 (elts h) (replicate hs 0) = (es', cs')" by force
  then have h': "h' = \<lparr>cells = cs', hash_mask = nm, elts_size = es, elts_count = length es',
      elts_deleted_count = 0, elts = es'\<rparr>"
    using assms(3)[unfolded njs_shrink_elts_def flathsh_consts Let_def,
        folded es_def, folded hs_def, folded nm_def] by (auto split: if_splits)
  from compact_elts_correct[OF r, of "[]"] m assms(2) ct
  have l: "linked nm es' cs'" "length cs' = hs" "map strip es' = live_elts (elts h)"
    "\<forall>e \<in> set es'. \<not> is_free e" by (auto simp: linked_empty)
  have lv: "live_elts es' = live_elts (elts h)" using l(3,4) by (simp add: live_elts_def filter_id_conv)
  have fr: "filter is_free es' = []" using l(4) by simp
  have len: "length es' = elts_count h - elts_deleted_count h"
    using length_live_elts[of "elts h"] assms(1) l(3)
    by (metis add_diff_cancel_right' flathsh_inv_def length_map)
  show ?thesis using l lv fr len esz hs hs2 le m
    by (simp add: h' flathsh_inv_def flathsh_consts es_def)
qed


subsection \<open>The table operations over a matching function\<close>

text \<open>
  The find, insert and delete functions come in two versions that differ in the test of an
  element only.  What the proofs need of the test is a contract: it accepts elements of the
  query's hash only, and it does not look at the list link.
\<close>

definition entry_count :: "'v njs_flathsh \<Rightarrow> nat" where
  "entry_count fh = (case fh of None \<Rightarrow> 0 | Some h \<Rightarrow> elts_count h)"

definition valid_elt :: "'v njs_flathsh \<Rightarrow> nat \<Rightarrow> 'v njs_flathsh_elt \<Rightarrow> bool" where
  "valid_elt fh i e \<longleftrightarrow>
     (\<exists>h. fh = Some h \<and> i < length (elts h) \<and> \<not> is_free (elts h ! i) \<and> strip (elts h ! i) = e)"

lemma live_elts_nth: "i < length es \<Longrightarrow> \<not> is_free (es ! i) \<Longrightarrow> strip (es ! i) \<in> set (live_elts es)"
  by (auto simp: live_elts_def)

lemma valid_elt_entries: "valid_elt fh i e \<Longrightarrow> e \<in> set (entries fh)"
  by (auto simp: valid_elt_def entries_def live_elts_nth)

locale flathsh_match =
  fixes m :: "('k, 'v) njs_flathsh_query \<Rightarrow> 'v njs_flathsh_elt \<Rightarrow> bool"
  assumes match_hash: "m fhq e \<Longrightarrow> elt_key_hash e = key_hash fhq"
    and match_strip: "m fhq (strip e) = m fhq e"
begin

lemma find_loop_inv:
  assumes "flathsh_inv h"
  shows "find_loop (m fhq) (elts h) (cells h ! cell_num (key_hash fhq) (hash_mask h)) =
         Some (List.find (\<lambda>i. m fhq (elts h ! i))
                (bucket (hash_mask h) (elts h) (cell_num (key_hash fhq) (hash_mask h))))"
  using assms cell_num_less[of "key_hash fhq" "hash_mask h"]
  by (intro find_loop_chain) (auto simp: flathsh_inv_def linked_def)

lemma found_elt:
  assumes "List.find (\<lambda>i. m fhq (es ! i)) (bucket hmask es c) = Some i"
  shows "i < length es" "\<not> is_free (es ! i)" "m fhq (es ! i)"
    and "\<And>e. e \<in> set (live_elts (drop (Suc i) es)) \<Longrightarrow> cell_num (key_hash fhq) hmask = c \<Longrightarrow> \<not> m fhq e"
proof -
  note f = find_rev_upt[OF assms[unfolded bucket_def]]
  then show "i < length es" "\<not> is_free (es ! i)" "m fhq (es ! i)" by (auto simp: in_bucket_def)
  fix e assume e: "e \<in> set (live_elts (drop (Suc i) es))" and c: "cell_num (key_hash fhq) hmask = c"
  then obtain e' where "e' \<in> set (drop (Suc i) es)" and e': "\<not> is_free e'" "e = strip e'"
    by (auto simp: live_elts_def)
  then obtain k where "k < length (drop (Suc i) es)" "e' = drop (Suc i) es ! k"
    by (metis in_set_conv_nth)
  then obtain j where j: "Suc i + j < length es" "\<not> is_free (es ! (Suc i + j))" "e = strip (es ! (Suc i + j))"
    using e' by (intro that [of k]) auto
  show "\<not> m fhq e"
  proof
    assume "m fhq e"
    then have m: "m fhq (es ! (Suc i + j))" by (simp add: j(3) match_strip)
    then have "in_bucket hmask (es ! (Suc i + j)) c" using j c match_hash[OF m] by (simp add: in_bucket_def)
    with f j m show False by auto
  qed
qed

lemma not_found:
  assumes "List.find (\<lambda>i. m fhq (es ! i)) (bucket hmask es (cell_num (key_hash fhq) hmask)) = None"
    and "e \<in> set (live_elts es)"
  shows "\<not> m fhq e"
proof
  assume "m fhq e"
  from assms(2) obtain i where i: "i < length es" "\<not> is_free (es ! i)" "e = strip (es ! i)"
    by (auto simp: live_elts_def in_set_conv_nth)
  with \<open>m fhq e\<close> have m: "m fhq (es ! i)" by (simp add: match_strip)
  then have "i \<in> set (bucket hmask es (cell_num (key_hash fhq) hmask))"
    using i by (simp add: set_bucket in_bucket_def match_hash)
  with assms(1) m show False by (auto simp: find_None_iff)
qed

lemma insert_by_correct:
  assumes "fh_inv fh" "entry_count fh < 2 ^ 26"
  obtains (replaced) i e fh' where "insert_by m fh fhq = Some (NJS_OK, Some i, fh')" "replace fhq"
      "valid_elt fh' i e" "m fhq e" "fh_inv fh'" "entries fh' = entries fh"
      "entry_count fh' = entry_count fh"
  | (declined) e fh' where "insert_by m fh fhq = Some (NJS_DECLINED, None, fh')" "\<not> replace fhq"
      "e \<in> set (entries fh)" "m fhq e" "fh_inv fh'" "entries fh' = entries fh"
      "entry_count fh' = entry_count fh"
  | (added) fh' where "insert_by m fh fhq = Some (NJS_OK, Some (entry_count fh), fh')"
      "\<forall>e \<in> set (entries fh). \<not> m fhq e" "fh_inv fh'"
      "entries fh' = entries fh @ [fresh_elt (key_hash fhq)]"
      "valid_elt fh' (entry_count fh) (fresh_elt (key_hash fhq))"
      "entry_count fh' = Suc (entry_count fh)"
  | (failed) fh' where "insert_by m fh fhq = Some (NJS_ERROR, None, fh')"
      "\<forall>e \<in> set (entries fh). \<not> m fhq e" "fh_inv fh'" "entries fh' = entries fh"
      "entry_count fh' = entry_count fh" "\<exists>n. \<not> fhq_alloc fhq n"
proof (cases "case fh of None \<Rightarrow> njs_flathsh_new (fhq_alloc fhq) | Some h \<Rightarrow> Some h")
  case None
  then have "fh = None" "\<exists>n. \<not> fhq_alloc fhq n"
    by (auto simp: njs_flathsh_new_def njs_flathsh_alloc_def split: option.splits if_splits)
  then show thesis using None by (intro failed [of None]) (simp_all add: insert_by_def fh_inv_def entries_def)
next
  case (Some h)
  then have h: "flathsh_inv h" "live_elts (elts h) = entries fh" "elts_count h = entry_count fh"
    using assms(1) flathsh_inv_new[of "fhq_alloc fhq" h]
    by (auto simp: fh_inv_def entries_def entry_count_def split: option.splits)
  have ins: "insert_by m fh fhq =
     (case List.find (\<lambda>i. m fhq (elts h ! i))
            (bucket (hash_mask h) (elts h) (cell_num (key_hash fhq) (hash_mask h))) of
        Some i \<Rightarrow> (if replace fhq then Some (NJS_OK, Some i, Some h) else Some (NJS_DECLINED, None, Some h))
      | None \<Rightarrow> (case njs_flathsh_add_elt (Some h) fhq of
                  (None, fh') \<Rightarrow> Some (NJS_ERROR, None, fh')
                | (Some i, fh') \<Rightarrow> Some (NJS_OK, Some i, fh')))"
    using Some find_loop_inv[OF h(1)] by (simp add: insert_by_def split: option.splits)
  have eh: "entries (Some h) = entries fh" "fh_inv (Some h)" "entry_count (Some h) = entry_count fh"
    using h by (simp_all add: entries_def fh_inv_def entry_count_def)
  show thesis
  proof (cases "List.find (\<lambda>i. m fhq (elts h ! i))
            (bucket (hash_mask h) (elts h) (cell_num (key_hash fhq) (hash_mask h)))")
    case None
    from not_found[OF this] h have nm: "\<forall>e \<in> set (entries fh). \<not> m fhq e" by simp
    show thesis
    proof (cases "njs_flathsh_add_elt (Some h) fhq")
      case (Pair v fh')
      show thesis
      proof (cases v)
        case None': None
        with add_elt_correct[OF h(1), of fhq] Pair h assms(2)
        have "fh' = Some h" "\<exists>n. \<not> fhq_alloc fhq n" using expand_fails_alloc[OF h(1), of "fhq_alloc fhq"]
          by auto
        then show thesis using None None' Pair ins nm eh by (intro failed [of fh']) simp_all
      next
        case (Some i)
        with add_elt_correct[OF h(1), of fhq] Pair h assms(2) obtain h' where
          h': "fh' = Some h'" "flathsh_inv h'" "i = entry_count fh" "elts_count h' = entry_count fh + 1"
          "live_elts (elts h') = entries fh @ [fresh_elt (key_hash fhq)]"
          "strip (elts h' ! i) = fresh_elt (key_hash fhq)" by auto
        have "i < length (elts h')" "\<not> is_free (elts h' ! i)"
          using h' by (auto simp: flathsh_inv_def) (metis fresh_elt_simps(3) strip_simps(4))
        then show thesis using None Some Pair ins nm h'
          by (intro added [of fh']) (simp_all add: fh_inv_def entries_def entry_count_def valid_elt_def)
      qed
    qed
  next
    case (Some i)
    note f = found_elt[OF Some]
    have v: "valid_elt (Some h) i (strip (elts h ! i))" "m fhq (strip (elts h ! i))"
      using f by (auto simp: valid_elt_def match_strip)
    show thesis
    proof (cases "replace fhq")
      case True
      then show thesis using ins Some v eh by (intro replaced [of i "Some h"]) simp_all
    next
      case False
      then show thesis using ins Some v eh valid_elt_entries[OF v(1)]
        by (intro declined [of "Some h" "strip (elts h ! i)"]) simp_all
    qed
  qed
qed


lemma delete_loop_inv:
  assumes "flathsh_inv h" "c = cell_num (key_hash fhq) (hash_mask h)"
  shows "delete_loop (m fhq) (elts h) None (cells h ! c) =
     (case List.find (\<lambda>i. m fhq (elts h ! i)) (bucket (hash_mask h) (elts h) c) of
        None \<Rightarrow> Some None
      | Some i \<Rightarrow> Some (Some (let us = takeWhile (\<lambda>j. \<not> m fhq (elts h ! j)) (bucket (hash_mask h) (elts h) c)
                 in if us = [] then None else Some (last us), i)))"
proof -
  let ?b = "bucket (hash_mask h) (elts h) c"
  have ch: "chain (elts h) (cells h ! c) ?b" using assms cell_num_less[of "key_hash fhq" "hash_mask h"]
    by (auto simp: flathsh_inv_def linked_def)
  show ?thesis
  proof (cases "List.find (\<lambda>i. m fhq (elts h ! i)) ?b")
    case None
    then have "\<forall>i \<in> set ?b. \<not> m fhq (elts h ! i)" by (simp add: find_None_iff_set)
    from delete_loop_chain_None[OF ch this] None show ?thesis by simp
  next
    case (Some i)
    define us where "us = takeWhile (\<lambda>j. \<not> m fhq (elts h ! j)) ?b"
    from find_Some_split[OF Some] obtain vs where b: "?b = us @ i # vs" and i: "m fhq (elts h ! i)"
      by (auto simp: us_def)
    have "\<forall>j \<in> set us. \<not> m fhq (elts h ! j)" by (auto simp: us_def dest: set_takeWhileD)
    from delete_loop_chain_Some[where t = "m fhq", OF ch[unfolded b] this i] Some show ?thesis
      by (simp add: Let_def flip: us_def)
  qed
qed

lemma delete_by_correct:
  assumes "fh_inv fh" "entry_count fh \<le> 2 ^ 26"
  obtains (declined) "delete_by m fh fhq = Some (NJS_DECLINED, None, fh)"
      "\<forall>e \<in> set (entries fh). \<not> m fhq e"
  | (deleted) r i fh' pre e post where "delete_by m fh fhq = Some (r, Some i, fh')"
      "valid_elt fh i e" "m fhq e" "entries fh = pre @ e # post" "\<forall>e' \<in> set post. \<not> m fhq e'"
      "fh_inv fh'" "entries fh' = pre @ post" "entry_count fh' \<le> entry_count fh"
      "r = NJS_OK \<or> r = NJS_ERROR \<and> (\<exists>n. \<not> fhq_alloc fhq n)"
proof (cases fh)
  case None
  then show thesis by (intro declined) (simp_all add: delete_by_def entries_def)
next
  case (Some h)
  let ?c = "cell_num (key_hash fhq) (hash_mask h)"
  let ?b = "bucket (hash_mask h) (elts h) ?c"
  have inv: "flathsh_inv h" and cnt: "elts_count h \<le> 2 ^ 26"
    using assms Some by (simp_all add: fh_inv_def entry_count_def)
  show thesis
  proof (cases "List.find (\<lambda>i. m fhq (elts h ! i)) ?b")
    case None
    then show thesis using not_found[OF None] delete_loop_inv[OF inv refl, of fhq] Some
      by (intro declined) (simp_all add: delete_by_def entries_def)
  next
    case Some': (Some i)
    define us where "us = takeWhile (\<lambda>j. \<not> m fhq (elts h ! j)) ?b"
    obtain vs where b: "?b = us @ i # vs"
      using find_Some_split[OF Some'] unfolding us_def by auto
    define pv where "pv = (if us = [] then None else Some (last us))"
    define h1 where "h1 = unlink_elt ?c pv i h"
    have c: "?c < length (cells h)" using inv cell_num_less by (simp add: flathsh_inv_def)
    note u = unlink_elt_correct[OF inv c b h1_def[unfolded pv_def]]
    have dl: "delete_loop (m fhq) (elts h) None (cells h ! ?c) =
        Some (Some (pv, i))"
      using delete_loop_inv[OF inv refl, of fhq] Some' by (simp add: us_def pv_def Let_def)
    note f = found_elt[OF Some']
    have v: "valid_elt fh i (strip (elts h ! i))" "m fhq (strip (elts h ! i))"
      using f Some by (auto simp: valid_elt_def match_strip)
    let ?pre = "live_elts (take i (elts h))" and ?post = "live_elts (drop (Suc i) (elts h))"
    have en: "entries fh = ?pre @ strip (elts h ! i) # ?post" using u(3) Some by (simp add: entries_def)
    have post: "\<forall>e' \<in> set ?post. \<not> m fhq e'" using f(4) by blast
    let ?shrink = "NJS_FLATHSH_ELTS_MINIMUM_TO_SHRINK \<le> elts_deleted_count h1 \<and>
         elts_count h1 div NJS_FLATHSH_ELTS_FRACTION_TO_SHRINK \<le> elts_deleted_count h1"
    have del: "delete_by m fh fhq =
       (case (if ?shrink then njs_shrink_elts (fhq_alloc fhq) h1 else Some h1) of
          None \<Rightarrow> Some (NJS_ERROR, Some i, Some h1)
        | Some h' \<Rightarrow> (if elts_deleted_count h' = elts_count h' then Some (NJS_OK, Some i, None)
                      else Some (NJS_OK, Some i, Some h')))"
      unfolding h1_def using Some dl by (simp add: delete_by_def Let_def)
    show thesis
    proof (cases "if ?shrink then njs_shrink_elts (fhq_alloc fhq) h1 else Some h1")
      case None
      then have "\<exists>n. \<not> fhq_alloc fhq n"
        by (auto simp: njs_shrink_elts_def Let_def split: if_splits prod.splits)
      then show thesis using del None v en post u Some
        by (intro deleted [of NJS_ERROR i "Some h1"]) (simp_all add: fh_inv_def entries_def entry_count_def)
    next
      case Some2: (Some h2)
      have h2: "flathsh_inv h2" "live_elts (elts h2) = ?pre @ ?post" "elts_count h2 \<le> entry_count fh"
        using Some2 shrink_elts_correct[OF u(1), of "fhq_alloc fhq" h2] u cnt Some
        by (auto simp: entry_count_def split: if_splits)
      show thesis
      proof (cases "elts_deleted_count h2 = elts_count h2")
        case True
        then have "?pre @ ?post = []" using h2 length_live_elts[of "elts h2"]
          by (auto simp: flathsh_inv_def)
        then show thesis using True del Some2 v en post
          by (intro deleted [of NJS_OK i None]) (simp_all add: fh_inv_def entries_def entry_count_def)
      next
        case False
        then show thesis using del Some2 v en post h2
          by (intro deleted [of NJS_OK i "Some h2"]) (simp_all add: fh_inv_def entries_def entry_count_def)
      qed
    qed
  qed
qed

end


interpretation by_test: flathsh_match query_match
  by unfold_locales (auto simp: query_match_def)

interpretation by_hash: flathsh_match unique_match
  by unfold_locales (auto simp: unique_match_def)

end
