(* ===== verification/Njs_Flathsh_Map.thy ===== *)
theory Njs_Flathsh_Map
  imports Njs_Flathsh_Inv
begin

section \<open>The flat hash as an insertion-ordered map\<close>

text \<open>
  What the clients of the flat hash rely on: the unique-key operations implement a map from
  key hashes to values that remembers the order of insertion.  The abstract map is an
  association list; sequences of operations on the table are simulated by the abstract one.
\<close>

subsection \<open>The abstract map\<close>

definition key_unique :: "'v njs_flathsh \<Rightarrow> bool" where
  "key_unique fh \<longleftrightarrow> distinct (map elt_key_hash (entries fh))"

definition kv :: "'v njs_flathsh \<Rightarrow> (uint32 \<times> 'v option) list" where
  "kv fh = map (\<lambda>e. (elt_key_hash e, elt_value e)) (entries fh)"

fun spec_put :: "uint32 \<Rightarrow> 'v \<Rightarrow> (uint32 \<times> 'v) list \<Rightarrow> (uint32 \<times> 'v) list" where
  "spec_put k v [] = [(k, v)]"
| "spec_put k v ((k', v') # xs) = (if k' = k then (k, v) # xs else (k', v') # spec_put k v xs)"

definition spec_del :: "uint32 \<Rightarrow> (uint32 \<times> 'v) list \<Rightarrow> (uint32 \<times> 'v) list" where
  "spec_del k xs = filter (\<lambda>p. fst p \<noteq> k) xs"

lemma map_of_spec_put: "map_of (spec_put k v xs) = (map_of xs)(k \<mapsto> v)"
  by (induction k v xs rule: spec_put.induct) auto

lemma map_of_spec_del: "map_of (spec_del k xs) = (map_of xs)(k := None)"
  by (induction xs) (auto simp: spec_del_def)

lemma keys_spec_put: "fst ` set (spec_put k v xs) = insert k (fst ` set xs)"
  by (induction k v xs rule: spec_put.induct) auto

lemma spec_put_new: "k \<notin> fst ` set xs \<Longrightarrow> spec_put k v xs = xs @ [(k, v)]"
  by (induction k v xs rule: spec_put.induct) auto

lemma distinct_spec_put: "distinct (map fst xs) \<Longrightarrow> distinct (map fst (spec_put k v xs))"
  by (induction k v xs rule: spec_put.induct) (auto simp: keys_spec_put)

lemma distinct_spec_del: "distinct (map fst xs) \<Longrightarrow> distinct (map fst (spec_del k xs))"
  by (auto simp: spec_del_def distinct_map inj_on_def)

lemma key_unique_kv: "key_unique fh \<longleftrightarrow> distinct (map fst (kv fh))"
  by (simp add: key_unique_def kv_def comp_def)

lemma keys_kv: "fst ` set (kv fh) = elt_key_hash ` set (entries fh)"
  by (simp add: kv_def image_image)

lemma spec_put_split:
  "k \<notin> fst ` set pre \<Longrightarrow> spec_put k v (pre @ (k, w) # post) = pre @ (k, v) # post"
  by (induction pre) auto

lemma filter_key_split:
  assumes "distinct (map elt_key_hash (pre @ e # post))"
  shows "filter (\<lambda>x. elt_key_hash x \<noteq> elt_key_hash e) (pre @ e # post) = pre @ post"
proof -
  from assms have "elt_key_hash e \<notin> elt_key_hash ` set pre" "elt_key_hash e \<notin> elt_key_hash ` set post"
    by simp_all
  then have "filter (\<lambda>x. elt_key_hash x \<noteq> elt_key_hash e) pre = pre"
    "filter (\<lambda>x. elt_key_hash x \<noteq> elt_key_hash e) post = post"
    by (auto simp: filter_id_conv image_iff)
  then show ?thesis by simp
qed

lemma store_value_correct:
  assumes "fh_inv fh" "valid_elt fh i e"
  obtains pre post where "entries fh = pre @ e # post"
    "entries (store_value i v fh) = pre @ e\<lparr>elt_value := Some v\<rparr> # post"
    "fh_inv (store_value i v fh)" "entry_count (store_value i v fh) = entry_count fh"
    "valid_elt (store_value i v fh) i (e\<lparr>elt_value := Some v\<rparr>)"
proof -
  from assms obtain h where h: "fh = Some h" "flathsh_inv h" "i < length (elts h)"
    "\<not> is_free (elts h ! i)" "strip (elts h ! i) = e" by (auto simp: valid_elt_def fh_inv_def)
  let ?e = "(elts h ! i)\<lparr>elt_value := Some v\<rparr>"
  let ?es = "(elts h)[i := ?e]"
  have s: "store_value i v (Some h) = Some (h\<lparr>elts := ?es\<rparr>)" by (simp add: store_value_def)
  have e: "\<not> is_free ?e" "strip ?e = e\<lparr>elt_value := Some v\<rparr>" "in_bucket hm ?e c = in_bucket hm (elts h ! i) c"
    for hm c using h(4,5) by (auto simp: is_free_def strip_def in_bucket_def)
  have "bucket hm ?es c = bucket hm (elts h) c" for hm c
    by (rule bucket_cong) (auto simp: nth_list_update_any e)
  then have "linked hm ?es cs = linked hm (elts h) cs" for hm cs
    by (simp add: linked_def chain_update_same_next)
  moreover have "length (filter is_free ?es) = length (filter is_free (elts h))"
    using filter_split_nth[OF h(3), of is_free] filter_split_nth[of i ?es is_free] h(3,4) e(1) by simp
  ultimately have inv: "fh_inv (store_value i v fh)"
    using h(2) by (auto simp: h(1) s fh_inv_def flathsh_inv_def)
  have "live_elts ?es = live_elts (take i (elts h)) @ strip ?e # live_elts (drop (Suc i) (elts h))"
    using live_elts_split[of i ?es] h(3) e(1) by simp
  with live_elts_split[OF h(3,4)] inv show thesis
    by (intro that) (simp_all add: s h e entries_def entry_count_def valid_elt_def)
qed

lemma insert_store_kv:
  assumes "fh_inv fh" "key_unique fh" "entry_count fh < 2 ^ 26"
    and "njs_flathsh_unique_insert fh fhq = Some (NJS_OK, Some i, fh')"
  shows "fh_inv (store_value i v fh')" "kv (store_value i v fh') = spec_put (key_hash fhq) (Some v) (kv fh)"
    and "entry_count (store_value i v fh') \<le> Suc (entry_count fh)"
proof -
  obtain e where e: "valid_elt fh' i e" "elt_key_hash e = key_hash fhq" "fh_inv fh'"
    "entry_count fh' \<le> Suc (entry_count fh)"
    "kv fh' = kv fh \<or> kv fh' = kv fh @ [(key_hash fhq, None)] \<and> key_hash fhq \<notin> fst ` set (kv fh)"
  proof (cases rule: by_hash.insert_by_correct[OF assms(1,3), of fhq,
        case_names replaced declined added failed])
    case (replaced j e fh2)
    then show ?thesis using assms(4) that[of e]
      by (simp add: njs_flathsh_unique_insert_def unique_match_def kv_def)
  next
    case (added fh2)
    then show ?thesis using assms(4) that[of "fresh_elt (key_hash fhq)"]
      by (force simp: njs_flathsh_unique_insert_def unique_match_def kv_def)
  qed (use assms(4) in \<open>simp_all add: njs_flathsh_unique_insert_def\<close>)
  from e(3,1) obtain pre post where s: "entries fh' = pre @ e # post"
    "entries (store_value i v fh') = pre @ e\<lparr>elt_value := Some v\<rparr> # post"
    "fh_inv (store_value i v fh')" "entry_count (store_value i v fh') = entry_count fh'"
    by (rule store_value_correct)
  let ?kv = "\<lambda>es. map (\<lambda>e. (elt_key_hash e, elt_value e)) es"
  have "distinct (map fst (kv fh'))" using e(5) assms(2) by (auto simp: key_unique_kv)
  then have "key_hash fhq \<notin> fst ` set (?kv pre)" using s e(2) by (auto simp: kv_def)
  then have "kv (store_value i v fh') = spec_put (key_hash fhq) (Some v) (kv fh')"
    using s e(2) spec_put_split[of "key_hash fhq" "?kv pre"] by (simp add: kv_def)
  moreover have "spec_put (key_hash fhq) (Some v) (kv fh') = spec_put (key_hash fhq) (Some v) (kv fh)"
    using e(5) by (auto simp: spec_put_new spec_put_split)
  ultimately show "kv (store_value i v fh') = spec_put (key_hash fhq) (Some v) (kv fh)" by simp
  show "fh_inv (store_value i v fh')" by (rule s(3))
  show "entry_count (store_value i v fh') \<le> Suc (entry_count fh)" using e(4) s(4) by simp
qed

lemma unique_delete_kv:
  assumes "fh_inv fh" "key_unique fh" "entry_count fh \<le> 2 ^ 26"
    and "njs_flathsh_unique_delete fh fhq = Some (r, v, fh')"
  shows "fh_inv fh'" "kv fh' = spec_del (key_hash fhq) (kv fh)" "entry_count fh' \<le> entry_count fh"
proof -
  have "fh_inv fh' \<and> entries fh' = filter (\<lambda>e. elt_key_hash e \<noteq> key_hash fhq) (entries fh) \<and>
        entry_count fh' \<le> entry_count fh"
  proof (cases rule: by_hash.delete_by_correct[OF assms(1,3), of fhq, case_names declined deleted])
    case declined
    then show ?thesis using assms(1,4)
      by (auto simp: njs_flathsh_unique_delete_def unique_match_def filter_id_conv)
  next
    case (deleted r' i fh'' pre e post)
    have "filter (\<lambda>x. elt_key_hash x \<noteq> elt_key_hash e) (entries fh) = pre @ post"
      using filter_key_split[of pre e post] assms(2) deleted(4) by (simp add: key_unique_def)
    then show ?thesis using deleted assms(4)
      by (auto simp: njs_flathsh_unique_delete_def unique_match_def)
  qed
  then show "fh_inv fh'" "kv fh' = spec_del (key_hash fhq) (kv fh)" "entry_count fh' \<le> entry_count fh"
    by (auto simp: kv_def spec_del_def filter_map comp_def)
qed


subsection \<open>The operations refine the abstract map\<close>

lemma unique_find_cases:
  assumes "fh_inv fh"
  obtains (found) i e where "njs_flathsh_unique_find fh fhq = Some (NJS_OK, Some i)"
      "valid_elt fh i e" "elt_key_hash e = key_hash fhq"
  | (missing) "njs_flathsh_unique_find fh fhq = Some (NJS_DECLINED, None)"
      "\<forall>e \<in> set (entries fh). elt_key_hash e \<noteq> key_hash fhq"
proof (cases fh)
  case None
  then show thesis by (intro missing) (simp_all add: njs_flathsh_unique_find_def entries_def)
next
  case (Some h)
  with assms have h: "flathsh_inv h" by (simp add: fh_inv_def)
  let ?r = "List.find (\<lambda>i. unique_match fhq (elts h ! i))
       (bucket (hash_mask h) (elts h) (cell_num (key_hash fhq) (hash_mask h)))"
  show thesis
  proof (cases ?r)
    case None
    then show thesis using Some by_hash.find_loop_inv[OF h, of fhq] by_hash.not_found[OF None]
      by (intro missing) (auto simp: njs_flathsh_unique_find_def entries_def unique_match_def)
  next
    case S: (Some i)
    then show thesis using Some by_hash.find_loop_inv[OF h, of fhq] by_hash.found_elt[OF S]
      by (intro found [of i "strip (elts h ! i)"])
         (auto simp: njs_flathsh_unique_find_def valid_elt_def unique_match_def)
  qed
qed

lemma unique_match_key:
  "unique_match fhq e \<Longrightarrow> e \<in> S \<Longrightarrow> key_hash fhq \<in> elt_key_hash ` S"
  by (metis imageI unique_match_def)

lemma map_of_kv:
  assumes "key_unique fh" "e \<in> set (entries fh)"
  shows "map_of (kv fh) (elt_key_hash e) = Some (elt_value e)"
  using assms by (intro map_of_is_SomeI) (auto simp: key_unique_kv kv_def)

definition found_value ::
    "'v njs_flathsh \<Rightarrow> (njs_ret \<times> nat option) option \<Rightarrow> 'v option option option" where
  "found_value fh r =
     (case r of
        Some (NJS_OK, Some i) \<Rightarrow> Some (case fh of Some h \<Rightarrow> Some (elt_value (elts h ! i)) | None \<Rightarrow> None)
      | Some (NJS_DECLINED, None) \<Rightarrow> Some None
      | _ \<Rightarrow> None)"

text \<open>
  On a table that satisfies the invariant and has unique keys, \<open>njs_flathsh_unique_find\<close> always
  returns (its list walk ends and never leaves the element array), and it is the lookup of the
  abstract map: \<open>NJS_OK\<close> with an element holding the key's value, or \<open>NJS_DECLINED\<close> when the key
  has no live element.
\<close>

theorem unique_find_lookup:
  assumes "fh_inv fh" "key_unique fh"
  shows "found_value fh (njs_flathsh_unique_find fh fhq) = Some (map_of (kv fh) (key_hash fhq))"
  using assms(1)
proof (cases rule: unique_find_cases [where fhq = fhq, case_names found missing])
  case (found i e)
  then obtain h where "fh = Some h" "elt_value (elts h ! i) = elt_value e" by (auto simp: valid_elt_def)
  then show ?thesis using found map_of_kv[OF assms(2) valid_elt_entries[OF found(2)]]
    by (simp add: found_value_def)
next
  case missing
  then have "map_of (kv fh) (key_hash fhq) = None" by (force simp: map_of_eq_None_iff kv_def)
  with missing show ?thesis by (simp add: found_value_def)
qed


text \<open>
  C16. \<open>njs_flathsh_unique_insert\<close> on every branch: an existing key is left in place and answered by
  \<open>NJS_OK\<close> with its element under the replace flag and by \<open>NJS_DECLINED\<close> without it; a new key is
  appended behind all others; \<open>NJS_ERROR\<close> comes only from a failed allocation and changes
  nothing.  Invariant and uniqueness of keys are kept throughout.
\<close>

theorem unique_insert_refines:
  assumes "fh_inv fh" "key_unique fh" "entry_count fh < 2 ^ 26"
  shows "\<exists>r v fh'. njs_flathsh_unique_insert fh fhq = Some (r, v, fh') \<and> fh_inv fh' \<and> key_unique fh' \<and>
    (if key_hash fhq \<in> elt_key_hash ` set (entries fh)
     then entries fh' = entries fh \<and>
          (if replace fhq
           then r = NJS_OK \<and> (\<exists>i e. v = Some i \<and> valid_elt fh' i e \<and> elt_key_hash e = key_hash fhq)
           else r = NJS_DECLINED \<and> v = None)
     else r = NJS_OK \<and> entries fh' = entries fh @ [fresh_elt (key_hash fhq)] \<and>
            v = Some (entry_count fh) \<and> valid_elt fh' (entry_count fh) (fresh_elt (key_hash fhq))
          \<or> r = NJS_ERROR \<and> v = None \<and> entries fh' = entries fh \<and> (\<exists>n. \<not> fhq_alloc fhq n))"
proof (cases rule: by_hash.insert_by_correct[OF assms(1,3), of fhq,
        case_names replaced declined added failed])
  case (replaced i e fh')
  from valid_elt_entries[OF replaced(3)] replaced(4,6)
  have "key_hash fhq \<in> elt_key_hash ` set (entries fh)" by (simp add: unique_match_key)
  then show ?thesis using replaced assms(2)
    by (auto simp: njs_flathsh_unique_insert_def unique_match_def key_unique_def)
next
  case (declined e fh')
  then have "key_hash fhq \<in> elt_key_hash ` set (entries fh)" by (simp add: unique_match_key)
  then show ?thesis using declined assms(2)
    by (simp add: njs_flathsh_unique_insert_def key_unique_def)
next
  case (added fh')
  then have "key_hash fhq \<notin> elt_key_hash ` set (entries fh)" by (auto simp: unique_match_def)
  then show ?thesis using added assms(2)
    by (simp add: njs_flathsh_unique_insert_def key_unique_def)
next
  case (failed fh')
  then have "key_hash fhq \<notin> elt_key_hash ` set (entries fh)" by (auto simp: unique_match_def)
  then show ?thesis using failed assms(2)
    by (simp add: njs_flathsh_unique_insert_def key_unique_def)
qed

text \<open>
  \<open>njs_flathsh_unique_delete\<close> removes exactly the element of the key and keeps the order of the
  others, through unlinking, the shrinking of the table and the release of an emptied table.  It
  answers \<open>NJS_DECLINED\<close> for a missing key; on a failed shrink allocation it answers \<open>NJS_ERROR\<close>
  although the element is already gone.
\<close>

theorem unique_delete_refines:
  assumes "fh_inv fh" "key_unique fh" "entry_count fh \<le> 2 ^ 26"
  shows "\<exists>r v fh'. njs_flathsh_unique_delete fh fhq = Some (r, v, fh') \<and> fh_inv fh' \<and> key_unique fh' \<and>
    entries fh' = filter (\<lambda>e. elt_key_hash e \<noteq> key_hash fhq) (entries fh) \<and>
    (if key_hash fhq \<in> elt_key_hash ` set (entries fh)
     then r = NJS_OK \<or> r = NJS_ERROR \<and> (\<exists>n. \<not> fhq_alloc fhq n)
     else r = NJS_DECLINED \<and> fh' = fh)"
proof (cases rule: by_hash.delete_by_correct[OF assms(1,3), of fhq, case_names declined deleted])
  case declined
  then have "key_hash fhq \<notin> elt_key_hash ` set (entries fh)" by (auto simp: unique_match_def)
  then show ?thesis using declined assms(1,2)
    by (simp add: njs_flathsh_unique_delete_def unique_match_def filter_id_conv)
next
  case (deleted r i fh' pre e post)
  have "filter (\<lambda>x. elt_key_hash x \<noteq> elt_key_hash e) (entries fh) = pre @ post"
    using filter_key_split[of pre e post] assms(2) deleted(4) by (simp add: key_unique_def)
  moreover have "key_unique fh'" using assms(2) deleted(4,7) by (simp add: key_unique_def)
  moreover have "key_hash fhq = elt_key_hash e" using deleted(3) by (simp add: unique_match_def)
  ultimately show ?thesis using deleted by (simp add: njs_flathsh_unique_delete_def)
qed

subsection \<open>Sequences of operations\<close>

text \<open>
  The caller's use of the table: an insertion with the replace flag followed by the store, and a
  deletion, all with an allocator that succeeds.
\<close>

datatype 'v table_op = Put uint32 'v | Del uint32

definition unique_query :: "uint32 \<Rightarrow> (unit, 'v) njs_flathsh_query" where
  "unique_query kh = \<lparr>key_hash = kh, key = (), replace = True, fhq_test = (\<lambda>_ _. True), fhq_alloc = (\<lambda>_. True)\<rparr>"

fun table_step :: "'v table_op \<Rightarrow> 'v njs_flathsh \<Rightarrow> 'v njs_flathsh option" where
  "table_step (Put k v) fh =
     (case njs_flathsh_unique_insert fh (unique_query k) of
        Some (NJS_OK, Some i, fh') \<Rightarrow> Some (store_value i v fh')
      | _ \<Rightarrow> None)"
| "table_step (Del k) fh =
     (case njs_flathsh_unique_delete fh (unique_query k) of
        Some (r, _, fh') \<Rightarrow> if r = NJS_ERROR then None else Some fh'
      | None \<Rightarrow> None)"

fun table_run :: "'v table_op list \<Rightarrow> 'v njs_flathsh \<Rightarrow> 'v njs_flathsh option" where
  "table_run [] fh = Some fh"
| "table_run (op # ops) fh = (case table_step op fh of None \<Rightarrow> None | Some fh' \<Rightarrow> table_run ops fh')"

fun spec_step :: "'v table_op \<Rightarrow> (uint32 \<times> 'v) list \<Rightarrow> (uint32 \<times> 'v) list" where
  "spec_step (Put k v) xs = spec_put k v xs"
| "spec_step (Del k) xs = spec_del k xs"

definition stored :: "(uint32 \<times> 'v) list \<Rightarrow> (uint32 \<times> 'v option) list" where
  "stored xs = map (\<lambda>(k, v). (k, Some v)) xs"

lemma map_Some_spec_put:
  "spec_put k (Some v) (stored xs) = stored (spec_put k v xs)"
  by (induction k v xs rule: spec_put.induct) (auto simp: stored_def)

lemma map_Some_spec_del:
  "spec_del k (stored xs) = stored (spec_del k xs)"
  by (induction xs) (auto simp: spec_del_def stored_def)

lemma table_step_simulates:
  assumes "fh_inv fh" "key_unique fh" "entry_count fh < 2 ^ 26" "kv fh = stored xs"
  shows "\<exists>fh'. table_step op fh = Some fh' \<and> fh_inv fh' \<and> key_unique fh' \<and>
           entry_count fh' \<le> Suc (entry_count fh) \<and> kv fh' = stored (spec_step op xs)"
proof (cases op)
  case (Put k v)
  from unique_insert_refines[OF assms(1,2,3), of "unique_query k"]
  obtain i fh1 where "njs_flathsh_unique_insert fh (unique_query k) = Some (NJS_OK, Some i, fh1)"
    by (auto simp: unique_query_def split: if_splits)
  with insert_store_kv[OF assms(1,2,3) this, of v] assms(2,4) show ?thesis
    by (simp add: Put unique_query_def map_Some_spec_put key_unique_kv)
       (metis distinct_spec_put map_Some_spec_put)
next
  case (Del k)
  from unique_delete_refines[OF assms(1,2), of "unique_query k"] assms(3)
  obtain r v fh1 where d: "njs_flathsh_unique_delete fh (unique_query k) = Some (r, v, fh1)" "r \<noteq> NJS_ERROR"
    by (fastforce simp: unique_query_def split: if_splits)
  with unique_delete_kv[OF assms(1,2) _ d(1)] assms(2,3,4) show ?thesis
    by (simp add: Del unique_query_def map_Some_spec_del key_unique_kv)
       (metis distinct_spec_del map_Some_spec_del)
qed


lemma table_run_simulates:
  assumes "fh_inv fh" "key_unique fh" "entry_count fh + length ops \<le> 2 ^ 26"
    and "kv fh = stored xs"
  shows "\<exists>fh'. table_run ops fh = Some fh' \<and> fh_inv fh' \<and> key_unique fh' \<and> entry_count fh' \<le> entry_count fh + length ops \<and>
           kv fh' = stored (fold spec_step ops xs)"
  using assms
proof (induction ops arbitrary: fh xs)
  case Nil
  then show ?case by simp
next
  case (Cons op ops)
  then obtain fh1 where s: "table_step op fh = Some fh1" "fh_inv fh1" "key_unique fh1"
    "entry_count fh1 \<le> Suc (entry_count fh)" "kv fh1 = stored (spec_step op xs)"
    using table_step_simulates[of fh xs op] by auto
  then have "\<exists>fh'. table_run ops fh1 = Some fh' \<and> fh_inv fh' \<and> key_unique fh' \<and> entry_count fh' \<le> entry_count fh1 + length ops \<and>
      kv fh' = stored (fold spec_step ops (spec_step op xs))"
    using Cons.prems(3) by (intro Cons.IH) auto
  with s show ?case by force
qed

lemma empty_table: "fh_inv None" "key_unique None" "entry_count None = 0" "kv None = []"
  by (simp_all add: fh_inv_def key_unique_def entry_count_def entries_def kv_def)

text \<open>
  C1. Simulation: every sequence of at most \<open>2 ^ 26\<close> insertions and deletions on an empty table, with
  an allocator that succeeds, runs to the end and leaves the table with exactly the key-value
  list, in the same order, that the abstract insertion-ordered map has after the sequence.
\<close>

theorem table_run_refines:
  assumes "length ops \<le> 2 ^ 26"
  shows "\<exists>fh. table_run ops None = Some fh \<and> fh_inv fh \<and> key_unique fh \<and>
           kv fh = stored (fold spec_step ops [])"
  using table_run_simulates[of None ops "[]"] assms by (auto simp: empty_table stored_def)

subsection \<open>Enumeration\<close>

lemma each_loop_cursor: "each_loop h cp = (Some e, cp') \<Longrightarrow> cp < cp' \<and> cp' \<le> elts_count h"
proof (induction h cp rule: each_loop.induct)
  case (1 h cp)
  from "1.prems" have "cp < elts_count h" by (subst (asm) each_loop.simps) (simp split: if_splits)
  show ?case
  proof (cases "is_free (elts h ! cp)")
    case True
    with "1.prems" \<open>cp < elts_count h\<close> have "each_loop h (cp + 1) = (Some e, cp')"
      by (subst (asm) each_loop.simps) simp
    with "1.IH" \<open>cp < elts_count h\<close> True show ?thesis by simp
  next
    case False
    with "1.prems" \<open>cp < elts_count h\<close> show ?thesis by (subst (asm) each_loop.simps) auto
  qed
qed

lemma each_cursor: "njs_flathsh_each fh cp = (Some e, cp') \<Longrightarrow> cp < cp' \<and> cp' \<le> entry_count fh"
  by (auto simp: njs_flathsh_each_def entry_count_def split: option.splits dest: each_loop_cursor)

text \<open>The enumeration loop of the callers: call \<open>njs_flathsh_each\<close> until it returns NULL.\<close>

function each_all :: "'v njs_flathsh \<Rightarrow> nat \<Rightarrow> 'v njs_flathsh_elt list" where
  "each_all fh cp =
     (case njs_flathsh_each fh cp of (None, _) \<Rightarrow> [] | (Some e, cp') \<Rightarrow> e # each_all fh cp')"
  by pat_completeness auto
termination
  by (relation "measure (\<lambda>(fh, cp). entry_count fh - cp)")
     (auto dest!: sym [of _ "njs_flathsh_each _ _"] each_cursor)

declare each_all.simps [simp del]

lemma each_all_drop:
  assumes "elts_count h = length (elts h)" "cp \<le> length (elts h)"
  shows "each_all (Some h) cp = filter (\<lambda>e. \<not> is_free e) (drop cp (elts h))"
  using assms
proof (induction "length (elts h) - cp" arbitrary: cp)
  case 0
  then show ?case by (simp add: each_all.simps njs_flathsh_each_def each_loop.simps)
next
  case (Suc n)
  then have cp: "cp < length (elts h)" "each_all (Some h) (cp + 1) = filter (\<lambda>e. \<not> is_free e) (drop (cp + 1) (elts h))"
    by simp_all
  have d: "drop cp (elts h) = elts h ! cp # drop (cp + 1) (elts h)"
    using cp(1) by (simp add: Cons_nth_drop_Suc)
  show ?case
  proof (cases "is_free (elts h ! cp)")
    case True
    then have "each_loop h cp = each_loop h (cp + 1)" using cp Suc.prems by (subst each_loop.simps) simp
    then have "each_all (Some h) cp = each_all (Some h) (cp + 1)"
      unfolding each_all.simps[of "Some h" cp] each_all.simps[of "Some h" "cp + 1"] njs_flathsh_each_def
      by simp
    then show ?thesis using True cp(2) d by simp
  next
    case False
    then have "each_loop h cp = (Some (elts h ! cp), cp + 1)" using cp Suc.prems by (subst each_loop.simps) simp
    then have "each_all (Some h) cp = elts h ! cp # each_all (Some h) (cp + 1)"
      by (simp add: each_all.simps[of "Some h" cp] njs_flathsh_each_def)
    then show ?thesis using False cp(2) d by simp
  qed
qed

text \<open>
  C17. Calling \<open>njs_flathsh_each\<close> from a fresh cursor until it returns NULL ends and yields every live
  element exactly once, in the order of insertion.
\<close>

theorem each_enumerates:
  assumes "fh_inv fh"
  shows "map strip (each_all fh 0) = entries fh"
proof (cases fh)
  case None
  then show ?thesis by (simp add: each_all.simps njs_flathsh_each_def entries_def)
next
  case (Some h)
  with assms show ?thesis
    using each_all_drop[of h 0] by (simp add: fh_inv_def flathsh_inv_def entries_def live_elts_def)
qed

subsection \<open>The 26-bit link field\<close>

text \<open>
  The link field of an element has 26 bits.  An insertion into a cell whose list starts at the
  element number \<open>2 ^ 26\<close> leaves a list of the new element alone: the elements that were in the
  list can no longer be found, although the source states an occupancy of up to \<open>2 ^ 32 - 2\<close>
  elements.
\<close>

theorem next_elt_overflow_unlinks:
  assumes "c = cell_num kh (hash_mask h)" "c < length (cells h)" "elts_count h = length (elts h)"
    and "cells h ! c = 2 ^ 26"
  shows "chain (elts (push_elt kh h)) (cells (push_elt kh h) ! c) [elts_count h]"
  using assms by (simp add: push_elt_def next_elt_field_def Let_def)

subsection \<open>Witnesses\<close>

definition sample_ops :: "nat table_op list" where
  "sample_ops = [Put 5 10, Put 9 20, Put 6 30, Del 6]"

definition sample_table :: "nat njs_flathsh" where
  "sample_table = the (table_run sample_ops None)"

lemma sample_table:
  "fh_inv sample_table" "key_unique sample_table" "kv sample_table = [(5, Some 10), (9, Some 20)]"
  "entry_count sample_table \<le> 4"
proof -
  have "fold spec_step sample_ops [] = [(5, 10), (9, 20)]" by (simp add: sample_ops_def spec_del_def)
  with table_run_simulates[of None sample_ops "[]"] obtain fh where
    "table_run sample_ops None = Some fh" "fh_inv fh" "key_unique fh"
    "entry_count fh \<le> 4" "kv fh = [(5, Some 10), (9, Some 20)]"
    by (auto simp: empty_table sample_ops_def stored_def)
  then show "fh_inv sample_table" "key_unique sample_table" "entry_count sample_table \<le> 4"
    "kv sample_table = [(5, Some 10), (9, Some 20)]"
    by (simp_all add: sample_table_def)
qed

lemma sample_hashes: "elt_key_hash ` set (entries sample_table) = {5, 9}"
  using keys_kv[of sample_table] by (auto simp: sample_table)


theorem unique_find_lookup_witness:
  "fh_inv sample_table \<and> key_unique sample_table \<and>
   found_value sample_table (njs_flathsh_unique_find sample_table (unique_query 9)) = Some (Some (Some 20))"
  using unique_find_lookup[OF sample_table(1,2), of "unique_query 9"] sample_table
  by (simp add: unique_query_def)

theorem unique_insert_refines_witness:
  "\<exists>v fh'. njs_flathsh_unique_insert sample_table (unique_query 7) = Some (NJS_OK, v, fh') \<and>
     entries fh' = entries sample_table @ [fresh_elt 7]"
proof -
  have "entry_count sample_table < 2 ^ 26" using sample_table(4) by simp
  from unique_insert_refines[OF sample_table(1,2) this, of "unique_query 7"] sample_hashes
  show ?thesis by (auto simp: unique_query_def)
qed

theorem unique_delete_refines_witness:
  "\<exists>v fh'. njs_flathsh_unique_delete sample_table (unique_query 9) = Some (NJS_OK, v, fh') \<and>
     entries fh' = filter (\<lambda>e. elt_key_hash e \<noteq> 9) (entries sample_table)"
proof -
  have "entry_count sample_table \<le> 2 ^ 26" using sample_table(4) by simp
  from unique_delete_refines[OF sample_table(1,2) this, of "unique_query 9"] sample_hashes
  show ?thesis by (auto simp: unique_query_def)
qed

theorem table_run_refines_witness:
  "\<exists>fh. table_run sample_ops None = Some fh \<and> kv fh = [(5, Some 10), (9, Some 20)]"
  using table_run_refines[of sample_ops] by (auto simp: sample_ops_def stored_def spec_del_def)

theorem each_enumerates_witness: "map strip (each_all sample_table 0) = entries sample_table"
  by (rule each_enumerates[OF sample_table(1)])

definition full_table :: "nat njs_flathsh_descr" where
  "full_table = \<lparr>cells = [2 ^ 26], hash_mask = 0, elts_size = 2 ^ 26 + 1, elts_count = 2 ^ 26,
     elts_deleted_count = 0, elts = replicate (2 ^ 26) (fresh_elt 0)\<rparr>"

theorem next_elt_overflow_unlinks_witness:
  "chain (elts (push_elt 0 full_table)) (cells (push_elt 0 full_table) ! 0) [2 ^ 26]"
  using next_elt_overflow_unlinks[of 0 0 full_table]
  by (simp add: full_table_def cell_num_def)


end
