(* ===== verification/Njs_Unicode.thy ===== *)
theory Njs_Unicode
  imports Njs_Prelude
begin

section \<open>Unicode conversion (src/src/njs_utf8.c, njs_utf8.h, njs_utf16.c, njs_unicode.h)\<close>

text \<open>
  The UTF-8 and UTF-16 encoders and the incremental decoders.  A buffer is the list of its
  bytes; a pointer that moves towards \<open>end\<close> is the list of the bytes still ahead.  The decoder
  context keeps a partly decoded character between two buffers.  A read at \<open>end\<close>, which every
  caller of the decoders excludes by \<open>while (p < end)\<close>, is \<open>None\<close>.
\<close>

subsection \<open>Constants and the decoder context\<close>

definition NJS_UNICODE_REPLACEMENT :: uint32 where "NJS_UNICODE_REPLACEMENT = 0xFFFD"
definition NJS_UNICODE_MAX_CODEPOINT :: uint32 where "NJS_UNICODE_MAX_CODEPOINT = 0x10FFFF"
definition NJS_UNICODE_ERROR :: uint32 where "NJS_UNICODE_ERROR = 0x1FFFFF"
definition NJS_UNICODE_CONTINUE :: uint32 where "NJS_UNICODE_CONTINUE = 0x2FFFFF"

lemmas unicode_consts =
  NJS_UNICODE_REPLACEMENT_def NJS_UNICODE_MAX_CODEPOINT_def NJS_UNICODE_ERROR_def
  NJS_UNICODE_CONTINUE_def

record njs_unicode_decode =
  codepoint :: uint32
  need :: nat
  lower :: u_char
  upper :: u_char

definition njs_surrogate_leading :: "uint32 \<Rightarrow> bool" where
  "njs_surrogate_leading cp \<longleftrightarrow> cp - 0xD800 \<le> 0xDBFF - 0xD800"

definition njs_surrogate_trailing :: "uint32 \<Rightarrow> bool" where
  "njs_surrogate_trailing cp \<longleftrightarrow> cp - 0xDC00 \<le> 0xDFFF - 0xDC00"

definition njs_surrogate_any :: "uint32 \<Rightarrow> bool" where
  "njs_surrogate_any cp \<longleftrightarrow> cp - 0xD800 \<le> 0xDFFF - 0xD800"

definition njs_surrogate_pair :: "uint32 \<Rightarrow> uint32 \<Rightarrow> uint32" where
  "njs_surrogate_pair high low = 0x10000 + push_bit 10 (high - 0xD800) + (low - 0xDC00)"

subsection \<open>UTF-8 encoding\<close>

text \<open>The NULL answer for a value beyond the code space is \<open>None\<close>.\<close>

definition njs_utf8_encode :: "uint32 \<Rightarrow> u_char list option" where
  "njs_utf8_encode u =
     (if u < 0x80 then Some [ucast (u AND 0xFF)]
      else if u < 0x0800 then
        Some [ucast (drop_bit 6 u OR 0xC0), ucast ((u AND 0x3F) OR 0x80)]
      else if u < 0x10000 then
        Some [ucast (drop_bit 12 u OR 0xE0), ucast ((drop_bit 6 u AND 0x3F) OR 0x80),
              ucast ((u AND 0x3F) OR 0x80)]
      else if u < 0x110000 then
        Some [ucast (drop_bit 18 u OR 0xF0), ucast ((drop_bit 12 u AND 0x3F) OR 0x80),
              ucast ((drop_bit 6 u AND 0x3F) OR 0x80), ucast ((u AND 0x3F) OR 0x80)]
      else None)"

definition njs_utf8_size :: "uint32 \<Rightarrow> nat" where
  "njs_utf8_size cp = (if cp < 0x80 then 1 else if cp < 0x0800 then 2 else if cp < 0x10000 then 3 else 4)"

definition njs_utf8_size_uint16 :: "uint32 \<Rightarrow> nat" where
  "njs_utf8_size_uint16 cp = (if cp < 0x80 then 1 else if cp < 0x0800 then 2 else 3)"

subsection \<open>UTF-8 decoding\<close>

definition njs_utf8_decode_init :: "njs_unicode_decode \<Rightarrow> njs_unicode_decode" where
  "njs_utf8_decode_init ctx = ctx\<lparr>need := 0, lower := 0, codepoint := 0\<rparr>"

text \<open>\<open>(codepoint << 6) | (c & 0x3F)\<close>\<close>

definition add_trail :: "uint32 \<Rightarrow> u_char \<Rightarrow> uint32" where
  "add_trail cp c = push_bit 6 cp OR ucast (c AND 0x3F)"

text \<open>
  \<open>njs_utf8_boundary\<close> checks the next byte against a range and consumes it: \<open>Inl ()\<close> is
  \<open>NJS_ERROR\<close>; the answer carries the context, the count still needed and the rest.
\<close>

definition njs_utf8_boundary ::
    "njs_unicode_decode \<Rightarrow> u_char list \<Rightarrow> nat \<Rightarrow> u_char \<Rightarrow> u_char \<Rightarrow>
     (unit + njs_unicode_decode \<times> nat \<times> u_char list) option" where
  "njs_utf8_boundary ctx data n lo up =
     (case data of
        [] \<Rightarrow> None
      | ch # rest \<Rightarrow>
          Some (if ch < lo \<or> up < ch then Inl ()
                else Inr (ctx\<lparr>codepoint := add_trail (codepoint ctx) ch\<rparr>, n - 1, rest)))"

definition njs_utf8_boundary_set ::
    "njs_unicode_decode \<Rightarrow> u_char \<Rightarrow> u_char \<Rightarrow> u_char \<Rightarrow> u_char \<Rightarrow> u_char \<Rightarrow> njs_unicode_decode" where
  "njs_utf8_boundary_set ctx ch first second lo up =
     (if ch = first then ctx\<lparr>lower := lo, upper := 0xBF\<rparr>
      else if ch = second then ctx\<lparr>lower := 0x80, upper := up\<rparr>
      else ctx)"

definition decode_failed ::
    "njs_unicode_decode \<Rightarrow> u_char list \<Rightarrow> uint32 \<times> njs_unicode_decode \<times> u_char list" where
  "decode_failed ctx rest = (NJS_UNICODE_ERROR, ctx\<lparr>lower := 0, need := 0\<rparr>, rest)"

text \<open>The loop at the label \<open>decode\<close>, with the exits \<open>failed\<close> and \<open>next\<close>.\<close>

fun decode_trail ::
    "njs_unicode_decode \<Rightarrow> nat \<Rightarrow> u_char list \<Rightarrow> uint32 \<times> njs_unicode_decode \<times> u_char list" where
  "decode_trail ctx n [] = (NJS_UNICODE_CONTINUE, ctx\<lparr>need := n\<rparr>, [])"
| "decode_trail ctx n (c # cs) =
     (if c < 0x80 \<or> 0xBF < c then decode_failed ctx (c # cs)
      else
        (let ctx' = ctx\<lparr>codepoint := add_trail (codepoint ctx) c\<rparr>
         in if n - 1 = 0 then (codepoint ctx', ctx', cs) else decode_trail ctx' (n - 1) cs))"

text \<open>
  The part after a lead byte \<open>c\<close> of three or four bytes: at the end of the buffer the range of
  the next byte is remembered in the context, otherwise it is checked at once.
\<close>

definition decode_lead ::
    "njs_unicode_decode \<Rightarrow> u_char \<Rightarrow> nat \<Rightarrow> u_char \<Rightarrow> u_char \<Rightarrow> u_char \<Rightarrow> u_char \<Rightarrow> u_char list \<Rightarrow>
     (uint32 \<times> njs_unicode_decode \<times> u_char list) option" where
  "decode_lead ctx c n first second lo up cs =
     (if cs = [] then
        Some (NJS_UNICODE_CONTINUE, (njs_utf8_boundary_set ctx c first second lo up)\<lparr>need := n\<rparr>, [])
      else if c = first \<or> c = second then
        (case (if c = first then njs_utf8_boundary ctx cs n lo 0xBF
               else njs_utf8_boundary ctx cs n 0x80 up) of
           None \<Rightarrow> None
         | Some (Inl _) \<Rightarrow> Some (decode_failed ctx cs)
         | Some (Inr (ctx', n', cs')) \<Rightarrow> Some (decode_trail ctx' n' cs'))
      else Some (decode_trail ctx n cs))"

definition njs_utf8_decode ::
    "njs_unicode_decode \<Rightarrow> u_char list \<Rightarrow> (uint32 \<times> njs_unicode_decode \<times> u_char list) option" where
  "njs_utf8_decode ctx start =
     (if need ctx \<noteq> 0 then
        (let n = need ctx; ctx = ctx\<lparr>need := 0\<rparr>
         in if lower ctx \<noteq> 0 then
              (case njs_utf8_boundary ctx start n (lower ctx) (upper ctx) of
                 None \<Rightarrow> None
               | Some (Inl _) \<Rightarrow> Some (decode_failed ctx start)
               | Some (Inr (ctx', n', rest)) \<Rightarrow> Some (decode_trail (ctx'\<lparr>lower := 0\<rparr>) n' rest))
            else Some (decode_trail ctx n start))
      else
        (case start of
           [] \<Rightarrow> None
         | c # cs \<Rightarrow>
             (if c < 0x80 then Some (ucast c, ctx, cs)
              else if c \<le> 0xDF then
                (if c < 0xC2 then Some (NJS_UNICODE_ERROR, ctx, cs)
                 else Some (decode_trail (ctx\<lparr>codepoint := ucast (c AND 0x1F)\<rparr>) 1 cs))
              else if c < 0xF0 then
                decode_lead (ctx\<lparr>codepoint := ucast (c AND 0x0F)\<rparr>) c 2 0xE0 0xED 0xA0 0x9F cs
              else if c < 0xF5 then
                decode_lead (ctx\<lparr>codepoint := ucast (c AND 0x07)\<rparr>) c 3 0xF0 0xF4 0x90 0x8F cs
              else Some (NJS_UNICODE_ERROR, ctx, cs))))"


text \<open>\<open>njs_utf8_consume\<close>: one byte at a time.\<close>

definition njs_utf8_consume ::
    "njs_unicode_decode \<Rightarrow> u_char \<Rightarrow> (uint32 \<times> njs_unicode_decode \<times> u_char list) option" where
  "njs_utf8_consume ctx b = njs_utf8_decode ctx [b]"

subsection \<open>Progress of the decoder\<close>

text \<open>
  A call on a non-empty buffer always answers, and it consumes a byte or leaves a pending
  character: this is why the loops over the decoder end.
\<close>

definition pending :: "njs_unicode_decode \<Rightarrow> u_char list \<Rightarrow> nat" where
  "pending ctx bs = 2 * length bs + (if need ctx = 0 then 0 else 1)"

lemma decode_trail_pending:
  assumes "decode_trail ctx n bs = (cp, ctx', rest)" "need ctx = 0"
  shows "(cp = NJS_UNICODE_CONTINUE \<and> rest = [] \<or> need ctx' = 0) \<and> length rest \<le> length bs"
  using assms
  by (induction ctx n bs rule: decode_trail.induct)
     (auto simp: decode_failed_def Let_def split: if_splits)

lemma decode_lead_pending:
  assumes "decode_lead ctx c n a b lo up bs = Some (cp, ctx', rest)" "need ctx = 0"
  shows "(cp = NJS_UNICODE_CONTINUE \<and> rest = [] \<or> need ctx' = 0) \<and> length rest \<le> length bs"
  using assms
  by (auto simp: decode_lead_def njs_utf8_boundary_def decode_failed_def
           split: if_splits option.splits sum.splits list.splits dest!: decode_trail_pending)

lemma utf8_decode_pending:
  assumes "njs_utf8_decode ctx bs = Some (cp, ctx', rest)" "bs \<noteq> []"
  shows "pending ctx' rest < pending ctx bs"
proof -
  obtain b bs' where bs: "bs = b # bs'" using assms(2) by (cases bs) auto
  have "(rest = [] \<or> need ctx' = 0) \<and> length rest \<le> length bs \<and>
        (need ctx = 0 \<longrightarrow> length rest \<le> length bs')"
    using assms(1) unfolding njs_utf8_decode_def bs
    by (auto simp: njs_utf8_boundary_def decode_failed_def Let_def
             split: if_splits dest!: decode_trail_pending decode_lead_pending)
  then show ?thesis by (auto simp: pending_def bs)
qed

lemma decode_lead_answers: "decode_lead ctx c n a b lo up bs \<noteq> None"
  by (cases bs) (simp_all add: decode_lead_def njs_utf8_boundary_def del: decode_trail.simps not_None_eq)

lemma utf8_decode_answers: "bs \<noteq> [] \<Longrightarrow> njs_utf8_decode ctx bs \<noteq> None"
  by (cases bs) (simp_all add: njs_utf8_decode_def decode_lead_answers njs_utf8_boundary_def Let_def
      del: decode_trail.simps not_None_eq)

subsection \<open>Loops over the decoder\<close>

text \<open>
  The loop of \<open>njs_utf8_stream_length\<close>: \<open>Inl\<close> is the answer -1, \<open>Inr\<close> carries the two
  counters; both carry the context.
\<close>

function stream_length_loop ::
    "bool \<Rightarrow> njs_unicode_decode \<Rightarrow> u_char list \<Rightarrow> nat \<Rightarrow> nat \<Rightarrow>
     (njs_unicode_decode + njs_unicode_decode \<times> nat \<times> nat) option" where
  "stream_length_loop fatal ctx p len osize =
     (if p = [] then Some (Inr (ctx, len, osize))
      else
        (case njs_utf8_decode ctx p of
           None \<Rightarrow> None
         | Some (cp, ctx', p') \<Rightarrow>
             (if NJS_UNICODE_MAX_CODEPOINT < cp then
                (if cp = NJS_UNICODE_CONTINUE then Some (Inr (ctx', len, osize))
                 else if fatal then Some (Inl ctx')
                 else stream_length_loop fatal ctx' p' (len + 1)
                        (osize + njs_utf8_size NJS_UNICODE_REPLACEMENT))
              else stream_length_loop fatal ctx' p' (len + 1) (osize + njs_utf8_size cp))))"
  by pat_completeness auto
termination
  by (relation "measure (\<lambda>(fatal, ctx, p, len, osize). pending ctx p)")
     (auto dest: utf8_decode_pending)

declare stream_length_loop.simps [simp del]

text \<open>
  \<open>Inr (ctx, len, osize)\<close> is the answer \<open>len\<close> with \<open>*out_size = osize\<close>, \<open>Inl ctx\<close> is -1; both
  with the context as the call leaves it.
\<close>

definition njs_utf8_stream_length ::
    "njs_unicode_decode \<Rightarrow> u_char list \<Rightarrow> bool \<Rightarrow> bool \<Rightarrow>
     (njs_unicode_decode + njs_unicode_decode \<times> nat \<times> nat) option" where
  "njs_utf8_stream_length ctx p is_last fatal =
     (case stream_length_loop fatal ctx p 0 0 of
        None \<Rightarrow> None
      | Some (Inl ctx') \<Rightarrow> Some (Inl ctx')
      | Some (Inr (ctx', len, osize)) \<Rightarrow>
          Some (if is_last \<and> need ctx' \<noteq> 0 then
                  (if fatal then Inl ctx'
                   else Inr (ctx', len + 1, osize + njs_utf8_size NJS_UNICODE_REPLACEMENT))
                else Inr (ctx', len, osize)))"

definition njs_utf8_length :: "u_char list \<Rightarrow> (unit + nat) option" where
  "njs_utf8_length p =
     map_option (map_sum (\<lambda>_. ()) (fst \<circ> snd))
       (njs_utf8_stream_length \<lparr>codepoint = 0, need = 0, lower = 0, upper = 0\<rparr> p True True)"

function stream_encode_loop ::
    "bool \<Rightarrow> njs_unicode_decode \<Rightarrow> u_char list \<Rightarrow> u_char list \<Rightarrow>
     (njs_unicode_decode + njs_unicode_decode \<times> u_char list) option" where
  "stream_encode_loop fatal ctx start dst =
     (if start = [] then Some (Inr (ctx, dst))
      else
        (case njs_utf8_decode ctx start of
           None \<Rightarrow> None
         | Some (cp, ctx', start') \<Rightarrow>
             (if NJS_UNICODE_MAX_CODEPOINT < cp \<and> cp = NJS_UNICODE_CONTINUE
              then Some (Inr (ctx', dst))
              else if NJS_UNICODE_MAX_CODEPOINT < cp \<and> fatal then Some (Inl ctx')
              else
                (case njs_utf8_encode (if NJS_UNICODE_MAX_CODEPOINT < cp
                                       then NJS_UNICODE_REPLACEMENT else cp) of
                   None \<Rightarrow> None
                 | Some bytes \<Rightarrow> stream_encode_loop fatal ctx' start' (dst @ bytes)))))"
  by pat_completeness auto
termination
  by (relation "measure (\<lambda>(fatal, ctx, p, dst). pending ctx p)")
     (auto dest: utf8_decode_pending)

declare stream_encode_loop.simps [simp del]

text \<open>The NULL answer is \<open>Inl\<close>; otherwise the bytes written to \<open>dst\<close>.\<close>

definition njs_utf8_stream_encode ::
    "njs_unicode_decode \<Rightarrow> u_char list \<Rightarrow> bool \<Rightarrow> bool \<Rightarrow>
     (njs_unicode_decode + njs_unicode_decode \<times> u_char list) option" where
  "njs_utf8_stream_encode ctx start is_last fatal =
     (case stream_encode_loop fatal ctx start [] of
        None \<Rightarrow> None
      | Some (Inl ctx') \<Rightarrow> Some (Inl ctx')
      | Some (Inr (ctx', dst)) \<Rightarrow>
          (if is_last \<and> need ctx' \<noteq> 0 then
             (if fatal then Some (Inl ctx')
              else map_option (\<lambda>bytes. Inr (ctx', dst @ bytes)) (njs_utf8_encode NJS_UNICODE_REPLACEMENT))
           else Some (Inr (ctx', dst))))"

function is_valid_loop :: "njs_unicode_decode \<Rightarrow> u_char list \<Rightarrow> bool option" where
  "is_valid_loop ctx p =
     (if p = [] then Some True
      else
        (case njs_utf8_decode ctx p of
           None \<Rightarrow> None
         | Some (cp, ctx', p') \<Rightarrow>
             (if NJS_UNICODE_MAX_CODEPOINT < cp then Some False else is_valid_loop ctx' p')))"
  by pat_completeness auto
termination
  by (relation "measure (\<lambda>(ctx, p). pending ctx p)") (auto dest: utf8_decode_pending)

declare is_valid_loop.simps [simp del]

definition njs_utf8_is_valid :: "u_char list \<Rightarrow> bool option" where
  "njs_utf8_is_valid p = is_valid_loop \<lparr>codepoint = 0, need = 0, lower = 0, upper = 0\<rparr> p"

subsection \<open>Moving over valid UTF-8\<close>

fun skip_trail :: "u_char list \<Rightarrow> u_char list" where
  "skip_trail [] = []"
| "skip_trail (c # cs) = (if c AND 0xC0 \<noteq> 0x80 then c # cs else skip_trail cs)"

definition njs_utf8_next :: "u_char list \<Rightarrow> u_char list option" where
  "njs_utf8_next p =
     (case p of
        [] \<Rightarrow> None
      | c # cs \<Rightarrow> Some (if c AND 0x80 \<noteq> 0 then skip_trail cs else cs))"

text \<open>\<open>njs_utf8_prev\<close> on the buffer \<open>bs\<close> from index \<open>i\<close>; -1 is the position before \<open>start\<close>.\<close>

fun njs_utf8_prev :: "u_char list \<Rightarrow> nat \<Rightarrow> int" where
  "njs_utf8_prev bs 0 = -1"
| "njs_utf8_prev bs (Suc i) = (if bs ! i AND 0xC0 = 0x80 then njs_utf8_prev bs i else int i)"

text \<open>
  \<open>njs_utf8_copy\<close> reads the byte after the lead before it compares with \<open>end\<close>, so a truncated
  character at the end of the buffer is a read outside of it.
\<close>

fun copy_trail :: "u_char list \<Rightarrow> u_char list \<Rightarrow> u_char list \<times> u_char list" where
  "copy_trail dst [] = (dst, [])"
| "copy_trail dst (c # cs) = (if c AND 0xC0 \<noteq> 0x80 then (dst, c # cs) else copy_trail (dst @ [c]) cs)"

definition njs_utf8_copy :: "u_char list \<Rightarrow> (u_char list \<times> u_char list) option" where
  "njs_utf8_copy src =
     (case src of
        [] \<Rightarrow> None
      | c # cs \<Rightarrow>
          (if c AND 0x80 \<noteq> 0 then (if cs = [] then None else Some (copy_trail [c] cs))
           else Some ([c], cs)))"

definition njs_utf8_bom :: "u_char list \<Rightarrow> nat" where
  "njs_utf8_bom s =
     (if length s < 3 then 0
      else if s ! 0 = 0xEF \<and> s ! 1 = 0xBB \<and> s ! 2 = 0xBF then 3 else 0)"

definition njs_utf8_is_whitespace :: "uint32 \<Rightarrow> bool" where
  "njs_utf8_is_whitespace c \<longleftrightarrow>
     c \<in> {0x0009, 0x000A, 0x000B, 0x000C, 0x000D, 0x0020, 0x00A0, 0x1680, 0x2000, 0x2001, 0x2002,
          0x2003, 0x2004, 0x2005, 0x2006, 0x2007, 0x2008, 0x2009, 0x200A, 0x2028, 0x2029, 0x202F,
          0x205F, 0x3000, 0xFEFF}"

subsection \<open>Case conversion\<close>

text \<open>
  The tables of \<open>njs_unicode_lower_case.h\<close> and \<open>njs_unicode_upper_case.h\<close> are generated from the
  Unicode database: the block for ASCII, the blocks by number, the block size and the last code
  point with a block.
\<close>

record case_tables =
  block_000 :: "uint32 list"
  blocks :: "nat \<Rightarrow> uint32 list option"
  block_size :: nat
  max_case :: uint32

text \<open>\<open>njs_utf8_lower_case\<close> and \<open>njs_utf8_upper_case\<close> have the same body on their own tables.\<close>

definition njs_utf8_lower_case ::
    "case_tables \<Rightarrow> u_char list \<Rightarrow> (uint32 \<times> u_char list) option" where
  "njs_utf8_lower_case tabs start =
     (case start of
        [] \<Rightarrow> None
      | c # cs \<Rightarrow>
          (if c < 0x80 then Some (block_000 tabs ! unat c, cs)
           else
             (case njs_utf8_decode \<lparr>codepoint = 0, need = 0, lower = 0, upper = 0\<rparr> start of
                None \<Rightarrow> None
              | Some (u, _, rest) \<Rightarrow>
                  (if u \<le> max_case tabs then
                     (case blocks tabs (unat u div block_size tabs) of
                        Some block \<Rightarrow> Some (block ! (unat u mod block_size tabs), rest)
                      | None \<Rightarrow> Some (u, rest))
                   else Some (u, rest)))))"

definition njs_utf8_upper_case ::
    "case_tables \<Rightarrow> u_char list \<Rightarrow> (uint32 \<times> u_char list) option" where
  "njs_utf8_upper_case tabs start = njs_utf8_lower_case tabs start"

lemma decode_consumes:
  assumes "njs_utf8_decode ctx (c # cs) = Some (u, ctx', rest)" "need ctx = 0"
  shows "length rest < length (c # cs)"
  using assms utf8_decode_pending[OF assms(1)] by (auto simp: pending_def split: if_splits)

lemma lower_case_consumes:
  "njs_utf8_lower_case tabs start = Some (u, rest) \<Longrightarrow> length rest < length start"
  by (auto simp: njs_utf8_lower_case_def dest: decode_consumes split: list.splits if_splits option.splits)

text \<open>
  The loop of \<open>njs_utf8_casecmp\<close>: the difference of the first two characters that differ, as a
  32-bit signed number, and 0 when one string ends.
\<close>

function njs_utf8_casecmp :: "case_tables \<Rightarrow> u_char list \<Rightarrow> u_char list \<Rightarrow> int option" where
  "njs_utf8_casecmp tabs start1 start2 =
     (if start1 = [] \<or> start2 = [] then Some 0
      else
        (case njs_utf8_lower_case tabs start1 of
           None \<Rightarrow> None
         | Some (u1, rest1) \<Rightarrow>
             (case njs_utf8_lower_case tabs start2 of
                None \<Rightarrow> None
              | Some (u2, rest2) \<Rightarrow>
                  (if u1 OR u2 = 0xFFFFFFFF then Some (uint NJS_UNICODE_ERROR)
                   else if sint (u1 - u2) \<noteq> 0 then Some (sint (u1 - u2))
                   else njs_utf8_casecmp tabs rest1 rest2))))"
  by pat_completeness auto
termination
  by (relation "measure (\<lambda>(tabs, s, t). length s)") (auto dest: lower_case_consumes)

declare njs_utf8_casecmp.simps [simp del]

subsection \<open>UTF-16 (little endian)\<close>

definition njs_utf16_encode_write :: "uint32 \<Rightarrow> u_char list" where
  "njs_utf16_encode_write cp = [ucast (cp AND 0x00FF), ucast (drop_bit 8 cp)]"

text \<open>\<open>room\<close> is \<open>end - *start\<close>; \<open>None\<close> is \<open>NJS_ERROR\<close>, the length of the answer the value returned.\<close>

definition njs_utf16_encode :: "uint32 \<Rightarrow> nat \<Rightarrow> u_char list option" where
  "njs_utf16_encode cp room =
     (if room < 2 then None
      else if cp < 0x10000 then Some (njs_utf16_encode_write cp)
      else if room < 4 then None
      else
        (let cp = cp - 0x10000
         in Some (njs_utf16_encode_write (0xD800 OR drop_bit 10 cp) @
                  njs_utf16_encode_write (0xDC00 OR (cp AND 0x03FF)))))"

definition njs_utf16_decode_init :: "njs_unicode_decode \<Rightarrow> njs_unicode_decode" where
  "njs_utf16_decode_init ctx = ctx\<lparr>upper := 0, codepoint := 0\<rparr>"

text \<open>
  The two states of the decoder: \<open>pair_state\<close> reads the low byte of a unit, \<open>lead_state\<close> the high
  byte.  The context keeps the low byte plus one in the 8-bit field \<open>upper\<close>.
\<close>

function utf16_pair_state ::
    "njs_unicode_decode \<Rightarrow> u_char list \<Rightarrow> (uint32 \<times> njs_unicode_decode \<times> u_char list) option"
and utf16_lead_state ::
    "njs_unicode_decode \<Rightarrow> u_char \<Rightarrow> u_char list \<Rightarrow>
     (uint32 \<times> njs_unicode_decode \<times> u_char list) option" where
  "utf16_pair_state ctx start =
     (case start of
        [] \<Rightarrow> None
      | lead # rest \<Rightarrow>
          (if rest = [] then Some (NJS_UNICODE_CONTINUE, ctx\<lparr>upper := lead + 1\<rparr>, [])
           else utf16_lead_state ctx lead rest))"
| "utf16_lead_state ctx lead start =
     (case start of
        [] \<Rightarrow> None
      | b # rest \<Rightarrow>
          (let unit = push_bit 8 (ucast b) + ucast lead
           in if codepoint ctx \<noteq> 0 then
                (if njs_surrogate_trailing unit then
                   Some (njs_surrogate_pair (codepoint ctx) unit, ctx\<lparr>codepoint := 0\<rparr>, rest)
                 else Some (NJS_UNICODE_ERROR, ctx\<lparr>upper := lead + 1, codepoint := 0\<rparr>, b # rest))
              else if njs_surrogate_any unit then
                (if njs_surrogate_trailing unit then Some (NJS_UNICODE_ERROR, ctx, rest)
                 else if rest = [] then Some (NJS_UNICODE_CONTINUE, ctx\<lparr>codepoint := unit\<rparr>, [])
                 else utf16_pair_state (ctx\<lparr>codepoint := unit\<rparr>) rest)
              else Some (unit, ctx, rest)))"
  by pat_completeness auto
termination
  by (relation "measure (\<lambda>x. case x of Inl (ctx, start) \<Rightarrow> 2 * length start
        | Inr (ctx, lead, start) \<Rightarrow> 2 * length start + 1)") auto

declare utf16_pair_state.simps [simp del] utf16_lead_state.simps [simp del]

definition njs_utf16_decode ::
    "njs_unicode_decode \<Rightarrow> u_char list \<Rightarrow> (uint32 \<times> njs_unicode_decode \<times> u_char list) option" where
  "njs_utf16_decode ctx start =
     (if upper ctx \<noteq> 0 then utf16_lead_state (ctx\<lparr>upper := 0\<rparr>) (upper ctx - 1) start
      else utf16_pair_state ctx start)"

end
