(* ===== verification/Njs_Utf8_Codec.thy ===== *)
theory Njs_Utf8_Codec
  imports Njs_Unicode
begin

section \<open>One character of UTF-8\<close>

text \<open>
  The encoder and the decoder on a single character: the bytes that \<open>njs_utf8_encode\<close> writes in
  terms of base-64 digits, the well-formed sequences that \<open>njs_utf8_decode\<close> accepts, and that
  the two are inverse to each other.
\<close>

subsection \<open>Bit operations on naturals and words\<close>

lemma nat_or_disjoint:
  fixes y :: nat
  assumes "y < 2 ^ k"
  shows "y OR q * 2 ^ k = y + q * 2 ^ k"
proof -
  have "y AND push_bit k q = 0"
  proof (rule bit_eqI)
    fix n
    have "\<not> bit y n" if "k \<le> n"
    proof -
      have "y = take_bit k y" using assms by (simp add: take_bit_nat_eq_self)
      then show ?thesis using that by (metis bit_take_bit_iff leD)
    qed
    then show "bit (y AND push_bit k q) n = bit 0 n" by (auto simp: bit_simps)
  qed
  then show ?thesis by (metis disjunctive_add_eq_or push_bit_eq_mult)
qed

lemma nat_and_mask: "(x::nat) AND mask n = x mod 2 ^ n"
  by (simp add: take_bit_eq_mask [symmetric] take_bit_eq_mod)

lemma nat_masks:
  "(x::nat) AND 0x3F = x mod 64" "x AND 0x1F = x mod 32" "x AND 0x0F = x mod 16" "x AND 0x07 = x mod 8"
  "x AND 0xFF = x mod 256" "x AND 0x3FF = x mod 1024"
  using nat_and_mask[of x 6] nat_and_mask[of x 5] nat_and_mask[of x 4] nat_and_mask[of x 3]
    nat_and_mask[of x 8] nat_and_mask[of x 10] by (simp_all add: mask_eq_exp_minus_1)

lemma nat_ors:
  "(y::nat) < 64 \<Longrightarrow> y OR 0x80 = y + 0x80" "y < 32 \<Longrightarrow> y OR 0xC0 = y + 0xC0"
  "y < 16 \<Longrightarrow> y OR 0xE0 = y + 0xE0" "y < 8 \<Longrightarrow> y OR 0xF0 = y + 0xF0"
  "y < 1024 \<Longrightarrow> 0xD800 OR y = y + 0xD800" "y < 1024 \<Longrightarrow> 0xDC00 OR y = y + 0xDC00"
  using nat_or_disjoint[of y 6 2] nat_or_disjoint[of y 5 6] nat_or_disjoint[of y 4 14]
    nat_or_disjoint[of y 3 30] nat_or_disjoint[of y 10 54] nat_or_disjoint[of y 10 55]
  by (simp_all add: or.commute)

lemma unat_ucast_byte: "unat (ucast (x :: uint32) :: u_char) = unat x mod 256"
  by (simp add: unsigned_ucast_eq take_bit_eq_mod)

lemma unat_byte_ucast: "unat (ucast (x :: u_char) :: uint32) = unat x"
  using unsigned_less [of x, where ?'a = nat] by (simp add: unsigned_ucast_eq take_bit_eq_mod)

lemma unat_drop: "unat (drop_bit n (x :: uint32)) = unat x div 2 ^ n"
  by (simp only: unat_drop_bit_eq) (simp add: drop_bit_eq_div)

lemmas unat_bits = unsigned_or_eq unsigned_and_eq unat_drop nat_masks unat_ucast_byte mod_mod_cancel

definition utf8_nat :: "nat \<Rightarrow> nat list" where
  "utf8_nat u =
     (if u < 0x80 then [u]
      else if u < 0x800 then [0xC0 + u div 64, 0x80 + u mod 64]
      else if u < 0x10000 then [0xE0 + u div 4096, 0x80 + u div 64 mod 64, 0x80 + u mod 64]
      else [0xF0 + u div 262144, 0x80 + u div 4096 mod 64, 0x80 + u div 64 mod 64, 0x80 + u mod 64])"

lemma unat_encode:
  assumes "unat u < 0x110000"
  shows "map_option (map unat) (njs_utf8_encode u) = Some (utf8_nat (unat u))"
proof -
  show ?thesis
  proof -
    consider "unat u < 0x80" | "\<not> unat u < 0x80" "unat u < 0x800"
      | "\<not> unat u < 0x80" "\<not> unat u < 0x800" "unat u < 0x10000"
      | "\<not> unat u < 0x80" "\<not> unat u < 0x800" "\<not> unat u < 0x10000" by linarith
    then show ?thesis
    proof cases
      case 1
      then show ?thesis by (simp add: njs_utf8_encode_def utf8_nat_def unat_bits word_less_nat_alt)
    next
      case 2
      then have "unat u div 64 < 32" by (simp add: less_mult_imp_div_less)
      then show ?thesis using 2 by (simp add: njs_utf8_encode_def utf8_nat_def unat_bits nat_ors word_less_nat_alt)
    next
      case 3
      then have "unat u div 4096 < 16" by (simp add: less_mult_imp_div_less)
      then show ?thesis using 3 by (simp add: njs_utf8_encode_def utf8_nat_def unat_bits nat_ors word_less_nat_alt)
    next
      case 4
      with assms have "unat u div 262144 < 8" by (simp add: less_mult_imp_div_less)
      then show ?thesis using 4 assms by (simp add: njs_utf8_encode_def utf8_nat_def unat_bits nat_ors word_less_nat_alt)
    qed
  qed
qed


subsection \<open>Well-formed sequences\<close>

definition is_trail :: "u_char \<Rightarrow> bool" where
  "is_trail c \<longleftrightarrow> 0x80 \<le> c \<and> c \<le> 0xBF"

definition valid_seq :: "u_char \<Rightarrow> u_char list \<Rightarrow> bool" where
  "valid_seq c ts \<longleftrightarrow> list_all is_trail ts \<and>
     (c < 0x80 \<and> ts = []
      \<or> 0xC2 \<le> c \<and> c \<le> 0xDF \<and> length ts = 1
      \<or> 0xE0 \<le> c \<and> c < 0xF0 \<and> length ts = 2 \<and> (c = 0xE0 \<longrightarrow> 0xA0 \<le> hd ts) \<and> (c = 0xED \<longrightarrow> hd ts \<le> 0x9F)
      \<or> 0xF0 \<le> c \<and> c < 0xF5 \<and> length ts = 3 \<and> (c = 0xF0 \<longrightarrow> 0x90 \<le> hd ts) \<and> (c = 0xF4 \<longrightarrow> hd ts \<le> 0x8F))"

definition lead_bits :: "u_char \<Rightarrow> uint32" where
  "lead_bits c = (if c < 0x80 then ucast c else if c \<le> 0xDF then ucast (c AND 0x1F)
     else if c < 0xF0 then ucast (c AND 0x0F) else ucast (c AND 0x07))"

definition seq_value :: "u_char \<Rightarrow> u_char list \<Rightarrow> uint32" where
  "seq_value c ts = foldl add_trail (lead_bits c) ts"

lemma decode_trail_ok:
  "list_all is_trail ts \<Longrightarrow> length ts = n \<Longrightarrow> 0 < n \<Longrightarrow>
   decode_trail ctx n (ts @ rest) =
     (foldl add_trail (codepoint ctx) ts, ctx\<lparr>codepoint := foldl add_trail (codepoint ctx) ts\<rparr>, rest)"
proof (induction ts arbitrary: ctx n)
  case Nil
  then show ?case by simp
next
  case (Cons t ts)
  then show ?case by (cases ts) (auto simp: is_trail_def Let_def not_less)
qed

lemma decode_trail_okD:
  assumes "decode_trail ctx n cs = (u, ctx', rest)" "u \<le> NJS_UNICODE_MAX_CODEPOINT" "0 < n"
  shows "\<exists>ts. cs = ts @ rest \<and> list_all is_trail ts \<and> length ts = n \<and> u = foldl add_trail (codepoint ctx) ts"
  using assms
proof (induction ctx n cs rule: decode_trail.induct)
  case (1 ctx n)
  then show ?case by (simp add: unicode_consts)
next
  case (2 ctx n c cs)
  from "2.prems" have t: "is_trail c" 
    by (auto simp: is_trail_def decode_failed_def unicode_consts not_less split: if_splits)
  show ?case
  proof (cases "n - 1 = 0")
    case True
    then have "n = 1" using "2.prems" by simp
    then show ?thesis using "2.prems" t
      by (intro exI[of _ "[c]"]) (auto simp: Let_def is_trail_def split: if_splits)
  next
    case False
    then have d: "decode_trail (ctx\<lparr>codepoint := add_trail (codepoint ctx) c\<rparr>) (n - 1) cs = (u, ctx', rest)"
      using "2.prems" t by (auto simp: Let_def is_trail_def split: if_splits)
    have "\<exists>ts. cs = ts @ rest \<and> list_all is_trail ts \<and> length ts = n - 1 \<and>
        u = foldl add_trail (codepoint (ctx\<lparr>codepoint := add_trail (codepoint ctx) c\<rparr>)) ts"
      using "2.IH"[OF _ refl False d "2.prems"(2)] False t
      by (fastforce simp: is_trail_def[of c])
    then obtain ts where "cs = ts @ rest" "list_all is_trail ts" "length ts = n - 1"
      "u = foldl add_trail (add_trail (codepoint ctx) c) ts" by auto
    then show ?thesis using t "2.prems"(3) by (intro exI[of _ "c # ts"]) simp
  qed
qed

lemma decode_lead_ok:
  assumes "list_all is_trail ts" "length ts = n" "1 < n" "(c = first \<longrightarrow> lo \<le> hd ts)" "c = second \<longrightarrow> hd ts \<le> up"
     "0x80 \<le> lo" "up \<le> 0xBF" "first \<noteq> second"
  shows "\<exists>ctx'. decode_lead ctx c n first second lo up (ts @ rest) = Some (foldl add_trail (codepoint ctx) ts, ctx', rest)
    \<and> need ctx' = need ctx \<and> lower ctx' = lower ctx"
proof -
  from assms(2,3) obtain t ts' where ts: "ts = t # ts'" by (cases ts) auto
  then have t: "is_trail t" "list_all is_trail ts'" "length ts' = n - 1" using assms by auto
  show ?thesis using ts t assms decode_trail_ok[OF assms(1,2), of ctx rest]
      decode_trail_ok[OF t(2,3), of "ctx\<lparr>codepoint := add_trail (codepoint ctx) t\<rparr>" rest]
    by (auto simp: decode_lead_def njs_utf8_boundary_def is_trail_def not_less simp del: decode_trail.simps)
qed

lemma decode_lead_okD:
  assumes "decode_lead ctx c n first second lo up cs = Some (u, ctx', rest)" "u \<le> NJS_UNICODE_MAX_CODEPOINT"
     "1 < n" "0x80 \<le> lo" "up \<le> 0xBF" "first \<noteq> second"
  shows "\<exists>ts. cs = ts @ rest \<and> list_all is_trail ts \<and> length ts = n \<and> u = foldl add_trail (codepoint ctx) ts
     \<and> (c = first \<longrightarrow> lo \<le> hd ts) \<and> (c = second \<longrightarrow> hd ts \<le> up)"
proof (cases cs)
  case Nil
  then show ?thesis using assms by (simp add: decode_lead_def unicode_consts)
next
  case (Cons t cs')
  show ?thesis
  proof (cases "c = first \<or> c = second")
    case True
    with assms Cons have t: "is_trail t" "c = first \<longrightarrow> lo \<le> t" "c = second \<longrightarrow> t \<le> up"
      and d: "decode_trail (ctx\<lparr>codepoint := add_trail (codepoint ctx) t\<rparr>) (n - 1) cs' = (u, ctx', rest)"
      by (auto simp: decode_lead_def njs_utf8_boundary_def is_trail_def decode_failed_def unicode_consts
          not_less simp del: decode_trail.simps split: if_splits)
    from decode_trail_okD[OF d assms(2)] assms(3) obtain ts where "cs' = ts @ rest" "list_all is_trail ts"
      "length ts = n - 1" "u = foldl add_trail (add_trail (codepoint ctx) t) ts" by auto
    then show ?thesis using t Cons assms(3) by (intro exI[of _ "t # ts"]) simp
  next
    case False
    with assms Cons have "decode_trail ctx n cs = (u, ctx', rest)"
      by (auto simp: decode_lead_def simp del: decode_trail.simps)
    from decode_trail_okD[OF this assms(2)] assms(3) show ?thesis using False by auto
  qed
qed


lemma utf8_decode_ok:
  assumes "valid_seq c ts" "need ctx = 0"
  shows "\<exists>ctx'. njs_utf8_decode ctx (c # ts @ rest) = Some (seq_value c ts, ctx', rest)
    \<and> need ctx' = 0 \<and> lower ctx' = lower ctx"
proof -
  have tr: "list_all is_trail ts" using assms(1) by (simp add: valid_seq_def)
  consider (1) "c < 0x80" "ts = []" | (2) "0xC2 \<le> c" "c \<le> 0xDF" "length ts = 1"
    | (3) "0xE0 \<le> c" "c < 0xF0" "length ts = 2" "c = 0xE0 \<longrightarrow> 0xA0 \<le> hd ts" "c = 0xED \<longrightarrow> hd ts \<le> 0x9F"
    | (4) "0xF0 \<le> c" "c < 0xF5" "length ts = 3" "c = 0xF0 \<longrightarrow> 0x90 \<le> hd ts" "c = 0xF4 \<longrightarrow> hd ts \<le> 0x8F"
    using assms(1) unfolding valid_seq_def by blast
  then show ?thesis
  proof cases
    case 1
    then show ?thesis using assms(2) by (simp add: njs_utf8_decode_def seq_value_def lead_bits_def)
  next
    case 2
    from 2(1) have "\<not> c < 0x80" "\<not> c < 0xC2" by (auto simp: word_le_nat_alt word_less_nat_alt)
    then show ?thesis using 2 assms(2) decode_trail_ok[OF tr, of 1 "ctx\<lparr>codepoint := ucast (c AND 0x1F)\<rparr>" rest]
      by (simp add: njs_utf8_decode_def seq_value_def lead_bits_def)
  next
    case 3
    from 3(1) have "\<not> c < 0x80" "\<not> c \<le> 0xDF" by (auto simp: word_le_nat_alt word_less_nat_alt)
    then show ?thesis using 3 assms(2)
        decode_lead_ok[OF tr 3(3) _ 3(4,5), of "ctx\<lparr>codepoint := ucast (c AND 0x0F)\<rparr>" rest]
      by (auto simp: njs_utf8_decode_def seq_value_def lead_bits_def)
  next
    case 4
    from 4(1) have "\<not> c < 0x80" "\<not> c \<le> 0xDF" "\<not> c < 0xF0" by (auto simp: word_le_nat_alt word_less_nat_alt)
    then show ?thesis using 4 assms(2)
        decode_lead_ok[OF tr 4(3) _ 4(4,5), of "ctx\<lparr>codepoint := ucast (c AND 0x07)\<rparr>" rest]
      by (auto simp: njs_utf8_decode_def seq_value_def lead_bits_def)
  qed
qed

lemma utf8_decode_okD:
  assumes "njs_utf8_decode ctx bs = Some (u, ctx', rest)" "u \<le> NJS_UNICODE_MAX_CODEPOINT" "need ctx = 0"
  shows "\<exists>c ts. bs = c # ts @ rest \<and> valid_seq c ts \<and> u = seq_value c ts"
proof (cases bs)
  case Nil
  then show ?thesis using assms by (simp add: njs_utf8_decode_def)
next
  case (Cons c cs)
  consider (1) "c < 0x80" | (bad) "\<not> c < 0x80" "c \<le> 0xDF" "c < 0xC2" | (2) "\<not> c < 0x80" "c \<le> 0xDF" "\<not> c < 0xC2"
    | (3) "\<not> c < 0x80" "\<not> c \<le> 0xDF" "c < 0xF0" | (4) "\<not> c < 0x80" "\<not> c \<le> 0xDF" "\<not> c < 0xF0" "c < 0xF5"
    | (bad2) "\<not> c < 0x80" "\<not> c \<le> 0xDF" "\<not> c < 0xF0" "\<not> c < 0xF5" by blast
  then show ?thesis
  proof cases
    case 1
    then show ?thesis using assms Cons by (auto simp: njs_utf8_decode_def valid_seq_def seq_value_def lead_bits_def)
  next
    case bad
    then show ?thesis using assms Cons by (simp add: njs_utf8_decode_def unicode_consts)
  next
    case bad2
    then show ?thesis using assms Cons by (simp add: njs_utf8_decode_def unicode_consts)
  next
    case 2
    then have "decode_trail (ctx\<lparr>codepoint := ucast (c AND 0x1F)\<rparr>) 1 cs = (u, ctx', rest)"
      using assms Cons by (simp add: njs_utf8_decode_def)
    from decode_trail_okD[OF this assms(2)] show ?thesis using Cons 2
      by (auto simp: valid_seq_def seq_value_def lead_bits_def not_less)
  next
    case 3
    then have "decode_lead (ctx\<lparr>codepoint := ucast (c AND 0x0F)\<rparr>) c 2 0xE0 0xED 0xA0 0x9F cs = Some (u, ctx', rest)"
      using assms Cons by (simp add: njs_utf8_decode_def)
    moreover have "0xE0 \<le> c" using 3 by (auto simp: word_le_nat_alt word_less_nat_alt)
    ultimately show ?thesis using decode_lead_okD[OF _ assms(2)] Cons 3
      by (fastforce simp: valid_seq_def seq_value_def lead_bits_def)
  next
    case 4
    then have "decode_lead (ctx\<lparr>codepoint := ucast (c AND 0x07)\<rparr>) c 3 0xF0 0xF4 0x90 0x8F cs = Some (u, ctx', rest)"
      using assms Cons by (simp add: njs_utf8_decode_def)
    moreover have "0xF0 \<le> c" using 4 by (auto simp: not_less)
    ultimately show ?thesis using decode_lead_okD[OF _ assms(2)] Cons 4
      by (fastforce simp: valid_seq_def seq_value_def lead_bits_def)
  qed
qed


subsection \<open>Values of sequences\<close>

definition is_scalar :: "uint32 \<Rightarrow> bool" where
  "is_scalar u \<longleftrightarrow> u \<le> NJS_UNICODE_MAX_CODEPOINT \<and> \<not> njs_surrogate_any u"

lemma surrogate_any_unat: "njs_surrogate_any u \<longleftrightarrow> 0xD800 \<le> unat u \<and> unat u \<le> 0xDFFF"
  by (simp add: njs_surrogate_any_def) (unat_arith, auto)

lemma is_scalar_unat: "is_scalar u \<longleftrightarrow> unat u < 0x110000 \<and> \<not> (0xD800 \<le> unat u \<and> unat u \<le> 0xDFFF)"
  by (auto simp: is_scalar_def surrogate_any_unat unicode_consts word_le_nat_alt)

lemma unat_add_trail:
  assumes "unat cp < 2 ^ 26"
  shows "unat (add_trail cp c) = unat cp * 64 + unat c mod 64"
proof -
  have p: "unat (push_bit 6 cp) = unat cp * 64"
    using assms by (simp only: unsigned_push_bit_eq) (simp add: push_bit_eq_mult take_bit_eq_mod)
  have "unat (add_trail cp c) = (unat cp * 64) OR (unat c mod 64)"
    unfolding add_trail_def
    by (simp add: unsigned_or_eq p unat_byte_ucast unsigned_and_eq nat_masks)
  also have "\<dots> = unat cp * 64 + unat c mod 64"
    using nat_or_disjoint[of "unat c mod 64" 6 "unat cp"] by (simp add: or.commute add.commute)
  finally show ?thesis .
qed

lemma nat_split64: "(n::nat) div (k * 64) * 64 + n div k mod 64 = n div k"
proof -
  have "n div (k * 64) = n div k div 64" by (simp add: div_mult2_eq)
  then show ?thesis by simp
qed

lemmas nat_split64s = nat_split64[of n 1 for n, simplified] nat_split64[of n 64 for n, simplified]
  nat_split64[of n 4096 for n, simplified]

lemma unat_lead_bits:
  "c < 0x80 \<Longrightarrow> unat (lead_bits c) = unat c"
  "0xC2 \<le> c \<Longrightarrow> c \<le> 0xDF \<Longrightarrow> unat (lead_bits c) = unat c - 0xC0"
  "0xE0 \<le> c \<Longrightarrow> c < 0xF0 \<Longrightarrow> unat (lead_bits c) = unat c - 0xE0"
  "0xF0 \<le> c \<Longrightarrow> c < 0xF5 \<Longrightarrow> unat (lead_bits c) = unat c - 0xF0"
proof -
  have m: "n mod k = n - k * q" if "k * q \<le> n" "n < k * q + k" for n k q :: nat
    using that by (metis (no_types) add_diff_inverse_nat leD mod_less mod_mult_self4 nat_add_left_cancel_less)
  have c: "unat (lead_bits c) = (if unat c < 0x80 then unat c else if unat c \<le> 0xDF then unat c mod 32
      else if unat c < 0xF0 then unat c mod 16 else unat c mod 8)"
    unfolding lead_bits_def word_less_nat_alt word_le_nat_alt
    by (simp only: unat_byte_ucast unsigned_and_eq if_distrib [of unat] ) (simp add: nat_masks)
  show "c < 0x80 \<Longrightarrow> unat (lead_bits c) = unat c"
    "0xC2 \<le> c \<Longrightarrow> c \<le> 0xDF \<Longrightarrow> unat (lead_bits c) = unat c - 0xC0"
    "0xE0 \<le> c \<Longrightarrow> c < 0xF0 \<Longrightarrow> unat (lead_bits c) = unat c - 0xE0"
    "0xF0 \<le> c \<Longrightarrow> c < 0xF5 \<Longrightarrow> unat (lead_bits c) = unat c - 0xF0"
    using m[of 32 6 "unat c"] m[of 16 14 "unat c"] m[of 8 30 "unat c"]
    by (auto simp: c word_less_nat_alt word_le_nat_alt)
qed


lemma map_unat_eq: "map unat (xs :: u_char list) = map unat ys \<longleftrightarrow> xs = ys"
  by (rule inj_map_eq_map) (simp add: inj_on_def word_unat_eq_iff)

lemma encode_eqI:
  assumes "unat u < 0x110000" "utf8_nat (unat u) = map unat bs"
  shows "njs_utf8_encode u = Some bs"
  using unat_encode[OF assms(1)] assms(2) by (auto simp: map_unat_eq)

lemma trail_mod: "is_trail t \<Longrightarrow> unat t mod 64 = unat t - 0x80 \<and> 0x80 \<le> unat t \<and> unat t < 0xC0"
  by (auto simp: is_trail_def word_le_nat_alt mod_if)

lemma trail_bounds: "is_trail t \<Longrightarrow> 0x80 \<le> unat t" "is_trail t \<Longrightarrow> unat t < 0xC0"
  by (auto simp: is_trail_def word_le_nat_alt)

lemma digit64: "(n::nat) = q * 64 + r \<Longrightarrow> r < 64 \<Longrightarrow> n div 64 = q \<and> n mod 64 = r"
  by simp

lemma div64_twice: "(n::nat) div 4096 = n div 64 div 64" "n div 262144 = n div 64 div 64 div 64"
  by (simp_all add: div_mult2_eq [symmetric])

lemmas word_nat_cmp = word_less_nat_alt word_le_nat_alt

lemma unat_seq_value:
  "c < 0x80 \<Longrightarrow> unat (seq_value c []) = unat c"
  "0xC2 \<le> c \<Longrightarrow> c \<le> 0xDF \<Longrightarrow> is_trail t \<Longrightarrow>
     unat (seq_value c [t]) = (unat c - 0xC0) * 64 + (unat t - 0x80)"
  "0xE0 \<le> c \<Longrightarrow> c < 0xF0 \<Longrightarrow> is_trail t \<Longrightarrow> is_trail t' \<Longrightarrow>
     unat (seq_value c [t, t']) = ((unat c - 0xE0) * 64 + (unat t - 0x80)) * 64 + (unat t' - 0x80)"
  "0xF0 \<le> c \<Longrightarrow> c < 0xF5 \<Longrightarrow> is_trail t \<Longrightarrow> is_trail t' \<Longrightarrow> is_trail t'' \<Longrightarrow>
     unat (seq_value c [t, t', t'']) =
       (((unat c - 0xF0) * 64 + (unat t - 0x80)) * 64 + (unat t' - 0x80)) * 64 + (unat t'' - 0x80)"
proof -
  have s: "unat (add_trail cp t) = unat cp * 64 + (unat t - 0x80) \<and> unat t - 0x80 < 64"
    if "unat cp < 2 ^ 26" "is_trail t" for cp t
    using that trail_mod[of t] by (auto simp: unat_add_trail)
  show "c < 0x80 \<Longrightarrow> unat (seq_value c []) = unat c" by (simp add: seq_value_def unat_lead_bits)
  show "0xC2 \<le> c \<Longrightarrow> c \<le> 0xDF \<Longrightarrow> is_trail t \<Longrightarrow>
     unat (seq_value c [t]) = (unat c - 0xC0) * 64 + (unat t - 0x80)"
    using s[of "lead_bits c" t] by (simp add: seq_value_def unat_lead_bits word_nat_cmp)
  show "unat (seq_value c [t, t']) = ((unat c - 0xE0) * 64 + (unat t - 0x80)) * 64 + (unat t' - 0x80)"
    if c: "0xE0 \<le> c" "c < 0xF0" and t: "is_trail t" "is_trail t'"
  proof -
    have l: "unat (lead_bits c) = unat c - 0xE0" "unat c - 0xE0 < 16"
      using c by (auto simp: unat_lead_bits word_nat_cmp)
    have a: "unat (add_trail (lead_bits c) t) = (unat c - 0xE0) * 64 + (unat t - 0x80)" "unat t - 0x80 < 64"
      using s[OF _ t(1), of "lead_bits c"] l by simp_all
    show ?thesis using s[OF _ t(2), of "add_trail (lead_bits c) t"] a l(2) by (simp add: seq_value_def)
  qed
  show "unat (seq_value c [t, t', t'']) =
       (((unat c - 0xF0) * 64 + (unat t - 0x80)) * 64 + (unat t' - 0x80)) * 64 + (unat t'' - 0x80)"
    if c: "0xF0 \<le> c" "c < 0xF5" and t: "is_trail t" "is_trail t'" "is_trail t''"
  proof -
    have l: "unat (lead_bits c) = unat c - 0xF0" "unat c - 0xF0 < 5"
      using c by (auto simp: unat_lead_bits word_nat_cmp)
    have a: "unat (add_trail (lead_bits c) t) = (unat c - 0xF0) * 64 + (unat t - 0x80)" "unat t - 0x80 < 64"
      using s[OF _ t(1), of "lead_bits c"] l by simp_all
    have b: "unat (add_trail (add_trail (lead_bits c) t) t') = ((unat c - 0xF0) * 64 + (unat t - 0x80)) * 64 + (unat t' - 0x80)"
      "unat t' - 0x80 < 64"
      using s[OF _ t(2), of "add_trail (lead_bits c) t"] a l by simp_all
    show ?thesis using s[OF _ t(3), of "add_trail (add_trail (lead_bits c) t) t'"] a b l(2) by (simp add: seq_value_def)
  qed
qed

lemma seq_encode:
  assumes "valid_seq c ts"
  shows "is_scalar (seq_value c ts) \<and> njs_utf8_encode (seq_value c ts) = Some (c # ts)"
proof -
  have tr: "list_all is_trail ts" using assms(1) by (simp add: valid_seq_def)
  consider (1) "c < 0x80" "ts = []" | (2) "0xC2 \<le> c" "c \<le> 0xDF" "length ts = 1"
    | (3) "0xE0 \<le> c" "c < 0xF0" "length ts = 2" "c = 0xE0 \<longrightarrow> 0xA0 \<le> hd ts" "c = 0xED \<longrightarrow> hd ts \<le> 0x9F"
    | (4) "0xF0 \<le> c" "c < 0xF5" "length ts = 3" "c = 0xF0 \<longrightarrow> 0x90 \<le> hd ts" "c = 0xF4 \<longrightarrow> hd ts \<le> 0x8F"
    using assms(1) unfolding valid_seq_def by blast
  then show ?thesis
  proof cases
    case 1
    then have "unat (seq_value c ts) = unat c" by (simp add: unat_seq_value)
    then show ?thesis using 1
      by (auto intro!: encode_eqI simp: is_scalar_unat word_nat_cmp utf8_nat_def)
  next
    case 2
    then obtain t where t: "ts = [t]" "is_trail t" using tr by (auto simp: length_Suc_conv)
    define x y where "x = unat c - 0xC0" and "y = unat t - 0x80"
    have xy: "unat c = x + 0xC0" "unat t = y + 0x80" "y < 64" "2 \<le> x" "x < 32"
      using trail_mod[OF t(2)] 2 by (auto simp: x_def y_def word_nat_cmp)
    have v: "unat (seq_value c ts) = x * 64 + y"
      using t 2 xy by (simp add: unat_seq_value)
    show ?thesis using t xy v by (auto intro!: encode_eqI simp: is_scalar_unat utf8_nat_def)
  next
    case 3
    then obtain t1 t2 where t: "ts = [t1, t2]" "is_trail t1" "is_trail t2"
      using tr by (auto simp: length_Suc_conv numeral_2_eq_2)
    have c3: "unat c = 0xE0 \<Longrightarrow> 0xA0 \<le> unat t1" "unat c = 0xED \<Longrightarrow> unat t1 \<le> 0x9F"
      using 3(4,5) t(1) by (simp_all add: word_nat_cmp word_unat_eq_iff)
    define x y z where "x = unat c - 0xE0" and "y = unat t1 - 0x80" and "z = unat t2 - 0x80"
    have xy: "unat c = x + 0xE0" "unat t1 = y + 0x80" "unat t2 = z + 0x80" "y < 64" "z < 64" "x < 16"
      using trail_bounds[OF t(2)] trail_bounds[OF t(3)] 3(1,2) by (auto simp: x_def y_def z_def word_nat_cmp)
    have xc: "x = 0 \<Longrightarrow> 0x20 \<le> y" "x = 0xD \<Longrightarrow> y < 0x20" using c3 xy(1,2) by auto
    have v: "unat (seq_value c ts) = (x * 64 + y) * 64 + z"
      using t 3 xy by (simp add: unat_seq_value)
    define m n where "m = x * 64 + y" and "n = m * 64 + z"
    have d: "m div 64 = x" "m mod 64 = y" "n div 64 = m" "n mod 64 = z"
      using digit64[OF m_def xy(4)] digit64[OF n_def xy(5)] by simp_all
    have n: "n = unat (seq_value c ts)" using v by (simp add: m_def n_def)
    have b: "0x800 \<le> n" using xc(1) by (cases "x = 0") (auto simp: m_def n_def)
    have "\<not> (0xD800 \<le> n \<and> n \<le> 0xDFFF)" "n < 0x10000"
      using xy(4,5,6) xc(2) by (cases "x = 0xD"; simp add: m_def n_def)+
    then have "is_scalar (seq_value c ts)" "unat (seq_value c ts) < 0x110000"
      by (simp_all add: is_scalar_unat flip: n)
    moreover have "utf8_nat n = map unat (c # ts)"
      using b d t(1) xy(1,2,3) \<open>n < 0x10000\<close> by (simp add: utf8_nat_def div64_twice)
    ultimately show ?thesis using n by (simp add: encode_eqI)
  next
    case 4
    then obtain t1 t2 t3 where t: "ts = [t1, t2, t3]" "is_trail t1" "is_trail t2" "is_trail t3"
      using tr by (auto simp: length_Suc_conv numeral_3_eq_3)
    have c4: "unat c = 0xF0 \<Longrightarrow> 0x90 \<le> unat t1" "unat c = 0xF4 \<Longrightarrow> unat t1 \<le> 0x8F"
      using 4(4,5) t(1) by (simp_all add: word_nat_cmp word_unat_eq_iff)
    define x y z w where "x = unat c - 0xF0" and "y = unat t1 - 0x80" and "z = unat t2 - 0x80" and "w = unat t3 - 0x80"
    have xy: "unat c = x + 0xF0" "unat t1 = y + 0x80" "unat t2 = z + 0x80" "unat t3 = w + 0x80"
       "y < 64" "z < 64" "w < 64" "x < 5"
      using trail_bounds[OF t(2)] trail_bounds[OF t(3)] trail_bounds[OF t(4)] 4(1,2)
      by (auto simp: x_def y_def z_def w_def word_nat_cmp)
    have xc: "x = 0 \<Longrightarrow> 0x10 \<le> y" "x = 4 \<Longrightarrow> y < 0x10" using c4 xy(1,2) by auto
    have v: "unat (seq_value c ts) = ((x * 64 + y) * 64 + z) * 64 + w"
      using t 4 xy by (simp add: unat_seq_value)
    define k m n where "k = x * 64 + y" and "m = k * 64 + z" and "n = m * 64 + w"
    have d: "k div 64 = x" "k mod 64 = y" "m div 64 = k" "m mod 64 = z" "n div 64 = m" "n mod 64 = w"
      using digit64[OF k_def xy(5)] digit64[OF m_def xy(6)] digit64[OF n_def xy(7)] by simp_all
    have n: "n = unat (seq_value c ts)" using v by (simp add: k_def m_def n_def)
    have b: "0x10000 \<le> n" using xc(1) by (cases "x = 0") (auto simp: k_def m_def n_def)
    have "n < 0x110000" using xy(5,6,7,8) xc(2) by (cases "x = 4"; simp add: k_def m_def n_def)
    then have "is_scalar (seq_value c ts)" "unat (seq_value c ts) < 0x110000"
      using b by (simp_all add: is_scalar_unat flip: n)
    moreover have "utf8_nat n = map unat (c # ts)"
      using b d t(1) xy(1-4) by (simp add: utf8_nat_def div64_twice)
    ultimately show ?thesis using n by (simp add: encode_eqI)
  qed
qed

lemma encode_seq:
  assumes "is_scalar u"
  shows "\<exists>c ts. njs_utf8_encode u = Some (c # ts) \<and> valid_seq c ts \<and> seq_value c ts = u"
proof -
  define n where "n = unat u"
  have lt: "n < 0x110000" "\<not> (0xD800 \<le> n \<and> n \<le> 0xDFFF)" using assms by (auto simp: n_def is_scalar_unat)
  obtain bs where bs: "njs_utf8_encode u = Some bs" "map unat bs = utf8_nat n"
    using unat_encode[of u] lt by (auto simp: n_def)
  have fin: ?thesis if "valid_seq c ts" "unat (seq_value c ts) = n" "bs = c # ts" for c ts
  proof -
    have "seq_value c ts = u" using that(2) by (simp add: n_def word_unat_eq_iff)
    then show ?thesis using that bs(1) by blast
  qed
  define m where "m = n div 64"
  define k where "k = m div 64"
  define x where "x = k div 64"
  have d: "n = m * 64 + n mod 64" "m = k * 64 + m mod 64" "k = x * 64 + k mod 64"
    by (simp_all add: m_def k_def x_def)
  have r: "n mod 64 < 64" "m mod 64 < 64" "k mod 64 < 64" by simp_all
  consider (1) "n < 0x80" | (2) "\<not> n < 0x80" "n < 0x800" | (3) "\<not> n < 0x80" "\<not> n < 0x800" "n < 0x10000"
    | (4) "\<not> n < 0x80" "\<not> n < 0x800" "\<not> n < 0x10000" by linarith
  then show ?thesis
  proof cases
    case 1
    then obtain c where c: "bs = [c]" "unat c = n" using bs(2) by (auto simp: utf8_nat_def)
    then have "valid_seq c []" "unat (seq_value c []) = n" using 1
      by (simp_all add: valid_seq_def seq_value_def unat_lead_bits word_nat_cmp)
    then show ?thesis using fin c(1) by blast
  next
    case 2
    then obtain c t where c: "bs = [c, t]" "unat c = 0xC0 + m" "unat t = 0x80 + n mod 64"
      using bs(2) by (auto simp: utf8_nat_def m_def)
    have "2 \<le> m" "m < 32" using 2 d(1) r(1) by linarith+
    then have b: "0xC2 \<le> c" "c \<le> 0xDF" "is_trail t" using c r(1) by (auto simp: word_nat_cmp is_trail_def)
    then have "valid_seq c [t]" by (simp add: valid_seq_def)
    moreover have "unat (seq_value c [t]) = n"
      using unat_seq_value(2)[OF b] c d(1) by simp
    ultimately show ?thesis using fin c(1) by blast
  next
    case 3
    then obtain c t1 t2 where c: "bs = [c, t1, t2]" "unat c = 0xE0 + k" "unat t1 = 0x80 + m mod 64" "unat t2 = 0x80 + n mod 64"
      using bs(2) by (auto simp: utf8_nat_def m_def k_def div64_twice)
    have k: "k < 16" "k = 0 \<Longrightarrow> 0x20 \<le> m mod 64" "k = 0xD \<Longrightarrow> m mod 64 < 0x20"
      using 3 d(1,2) r(1,2) lt(2) by linarith+
    then have b: "0xE0 \<le> c" "c < 0xF0" "is_trail t1" "is_trail t2" "c = 0xE0 \<longrightarrow> 0xA0 \<le> t1" "c = 0xED \<longrightarrow> t1 \<le> 0x9F"
      using c r(1,2) by (auto simp: word_nat_cmp is_trail_def word_unat_eq_iff)
    then have "valid_seq c [t1, t2]" by (simp add: valid_seq_def)
    moreover have "unat (seq_value c [t1, t2]) = (k * 64 + m mod 64) * 64 + n mod 64"
      using unat_seq_value(3)[OF b(1-4)] c by simp
    then have "unat (seq_value c [t1, t2]) = n" by (simp only: d(1,2)[symmetric])
    ultimately show ?thesis using fin c(1) by blast
  next
    case 4
    then obtain c t1 t2 t3 where c: "bs = [c, t1, t2, t3]" "unat c = 0xF0 + x" "unat t1 = 0x80 + k mod 64"
       "unat t2 = 0x80 + m mod 64" "unat t3 = 0x80 + n mod 64"
      using bs(2) by (auto simp: utf8_nat_def m_def k_def x_def div64_twice)
    have k: "x < 5" "x = 0 \<Longrightarrow> 0x10 \<le> k mod 64" "x = 4 \<Longrightarrow> k mod 64 < 0x10"
      using 4 d r lt(1) by linarith+
    then have b: "0xF0 \<le> c" "c < 0xF5" "is_trail t1" "is_trail t2" "is_trail t3" "c = 0xF0 \<longrightarrow> 0x90 \<le> t1" "c = 0xF4 \<longrightarrow> t1 \<le> 0x8F"
      using c r by (auto simp: word_nat_cmp is_trail_def word_unat_eq_iff)
    then have "valid_seq c [t1, t2, t3]" by (simp add: valid_seq_def)
    moreover have "unat (seq_value c [t1, t2, t3]) = ((x * 64 + k mod 64) * 64 + m mod 64) * 64 + n mod 64"
      using unat_seq_value(4)[OF b(1-5)] c by simp
    then have "unat (seq_value c [t1, t2, t3]) = n" by (simp only: d[symmetric])
    ultimately show ?thesis using fin c(1) by blast
  qed
qed


lemma decode_scalar:
  assumes "is_scalar u" "njs_utf8_encode u = Some bs" "need ctx = 0"
  shows "\<exists>ctx'. njs_utf8_decode ctx (bs @ rest) = Some (u, ctx', rest) \<and> need ctx' = 0 \<and> lower ctx' = lower ctx"
  using encode_seq[OF assms(1)] assms(2) utf8_decode_ok[OF _ assms(3)] by fastforce

lemma decode_canonical:
  assumes "njs_utf8_decode ctx bs = Some (u, ctx', rest)" "u \<le> NJS_UNICODE_MAX_CODEPOINT" "need ctx = 0"
  shows "is_scalar u \<and> (\<exists>cs. njs_utf8_encode u = Some cs \<and> bs = cs @ rest)"
  using utf8_decode_okD[OF assms] seq_encode by fastforce

subsection \<open>Whole strings\<close>

definition encode_all :: "uint32 list \<Rightarrow> u_char list" where
  "encode_all us = concat (map (\<lambda>u. the (njs_utf8_encode u)) us)"

lemma encode_all_simps [simp]:
  "encode_all [] = []" "encode_all (u # us) = the (njs_utf8_encode u) @ encode_all us"
  by (simp_all add: encode_all_def)

lemma max_cp_consts:
  "NJS_UNICODE_MAX_CODEPOINT < NJS_UNICODE_ERROR" "NJS_UNICODE_MAX_CODEPOINT < NJS_UNICODE_CONTINUE"
  "is_scalar NJS_UNICODE_REPLACEMENT"
  by (simp_all add: unicode_consts is_scalar_def njs_surrogate_any_def)

lemma encode_nonempty: "njs_utf8_encode u = Some bs \<Longrightarrow> bs \<noteq> []"
  by (auto simp: njs_utf8_encode_def split: if_splits)

lemma is_scalar_encode: "is_scalar u \<Longrightarrow> \<exists>bs. njs_utf8_encode u = Some bs"
  using encode_seq by blast

lemma decode_head:
  assumes "list_all is_scalar us" "encode_all us \<noteq> []" "need ctx = 0"
  obtains u us' ctx' where "us = u # us'" "is_scalar u" "list_all is_scalar us'"
    "njs_utf8_decode ctx (encode_all us) = Some (u, ctx', encode_all us')" "need ctx' = 0"
proof -
  from assms(2) obtain u us' where us: "us = u # us'" by (cases us) auto
  then obtain bs where bs: "njs_utf8_encode u = Some bs" using is_scalar_encode assms(1) by auto
  have u: "is_scalar u" using us assms(1) by simp
  from decode_scalar[OF u bs assms(3), of "encode_all us'"] obtain ctx' where
    "njs_utf8_decode ctx (bs @ encode_all us') = Some (u, ctx', encode_all us')" "need ctx' = 0" by blast
  then show thesis using us bs assms(1) u by (intro that[of u us' ctx']) auto
qed

lemma decode_step:
  assumes "njs_utf8_decode ctx p = Some (cp, ctx', p')" "cp \<le> NJS_UNICODE_MAX_CODEPOINT" "need ctx = 0"
  shows "need ctx' = 0" "is_scalar cp" "p = encode_all [cp] @ p'" "lower ctx' = lower ctx"
proof -
  from decode_canonical[OF assms] obtain cs where
    cs: "is_scalar cp" "njs_utf8_encode cp = Some cs" "p = cs @ p'" by auto
  with decode_scalar[OF cs(1,2) assms(3), of p'] assms(1)
  show "need ctx' = 0" "is_scalar cp" "p = encode_all [cp] @ p'" "lower ctx' = lower ctx" by auto
qed

end
