(* ===== verification/Njs_Utf8.thy ===== *)
theory Njs_Utf8
  imports Njs_Utf8_Codec
begin

section \<open>UTF-8 strings and streams\<close>

text \<open>
  Whole buffers: which byte strings \<open>njs_utf8_is_valid\<close> and \<open>njs_utf8_length\<close> accept, the size
  that \<open>njs_utf8_stream_length\<close> announces against the bytes that \<open>njs_utf8_stream_encode\<close>
  writes, and decoding of a stream that arrives in chunks.
\<close>

subsection \<open>Lengths and sizes\<close>


lemma encode_size: "njs_utf8_encode u = Some bs \<Longrightarrow> length bs = njs_utf8_size u"
  by (auto simp: njs_utf8_encode_def njs_utf8_size_def split: if_splits)

lemma encode_le_max: "\<not> NJS_UNICODE_MAX_CODEPOINT < u \<Longrightarrow> \<exists>bs. njs_utf8_encode u = Some bs"
  by (auto simp: njs_utf8_encode_def unicode_consts word_less_nat_alt)

lemma stream_loops_agree:
  "case stream_length_loop fatal ctx p len osize of
     None \<Rightarrow> False
   | Some (Inl c) \<Rightarrow> stream_encode_loop fatal ctx p dst = Some (Inl c)
   | Some (Inr (ctx', len', osize')) \<Rightarrow>
       (\<exists>dst'. stream_encode_loop fatal ctx p dst = Some (Inr (ctx', dst @ dst')) \<and> osize' = osize + length dst')"
proof (induction fatal ctx p len osize arbitrary: dst rule: stream_length_loop.induct)
  case (1 fatal ctx p len osize)
  show ?case
  proof (cases "p = []")
    case True
    then show ?thesis by (simp add: stream_length_loop.simps stream_encode_loop.simps)
  next
    case False
    then obtain cp ctx' p' where d: "njs_utf8_decode ctx p = Some (cp, ctx', p')"
      using utf8_decode_answers[OF False] by (metis not_None_eq prod_cases3)
    obtain rb where rb: "njs_utf8_encode NJS_UNICODE_REPLACEMENT = Some rb"
      using is_scalar_encode max_cp_consts(3) by blast
    note u = stream_length_loop.simps[of fatal ctx p len osize] stream_encode_loop.simps[of fatal ctx p dst]
    consider (stop) "NJS_UNICODE_MAX_CODEPOINT < cp" "cp = NJS_UNICODE_CONTINUE \<or> fatal"
      | (bad) "NJS_UNICODE_MAX_CODEPOINT < cp" "cp \<noteq> NJS_UNICODE_CONTINUE" "\<not> fatal"
      | (ok) "\<not> NJS_UNICODE_MAX_CODEPOINT < cp" by blast
    then show ?thesis
    proof cases
      case stop
      then show ?thesis unfolding u using False d by (cases "cp = NJS_UNICODE_CONTINUE") simp_all
    next
      case bad
      have "stream_length_loop fatal ctx p len osize =
            stream_length_loop fatal ctx' p' (len + 1) (osize + njs_utf8_size NJS_UNICODE_REPLACEMENT)"
        "stream_encode_loop fatal ctx p dst = stream_encode_loop fatal ctx' p' (dst @ rb)"
        unfolding u using False d bad rb by simp_all
      with "1.IH"(1)[OF False d refl refl bad, of "dst @ rb"] encode_size[OF rb] show ?thesis
        by (auto split: option.splits sum.splits)
    next
      case ok
      then obtain bs where bs: "njs_utf8_encode cp = Some bs" using encode_le_max by blast
      have "stream_length_loop fatal ctx p len osize =
            stream_length_loop fatal ctx' p' (len + 1) (osize + njs_utf8_size cp)"
        "stream_encode_loop fatal ctx p dst = stream_encode_loop fatal ctx' p' (dst @ bs)"
        unfolding u using False d ok bs by simp_all
      with "1.IH"(2)[OF False d refl refl ok, of "dst @ bs"] encode_size[OF bs] show ?thesis
        by (auto split: option.splits sum.splits)
    qed
  qed
qed


lemma decode_trail_stops:
  assumes "decode_trail ctx n p = (cp, ctx', r)" "0 < n" "need ctx = 0"
  shows "need ctx' \<noteq> 0 \<and> cp = NJS_UNICODE_CONTINUE \<and> r = []
       \<or> need ctx' = 0 \<and> cp = NJS_UNICODE_ERROR
       \<or> need ctx' = 0 \<and> (\<exists>ts. p = ts @ r \<and> list_all is_trail ts \<and> length ts = n \<and> cp = foldl add_trail (codepoint ctx) ts)"
  using assms
proof (induction ctx n p rule: decode_trail.induct)
  case (1 ctx n)
  then show ?case by auto
next
  case (2 ctx n c cs)
  show ?case
  proof (cases "c < 0x80 \<or> 0xBF < c")
    case True
    then show ?thesis using "2.prems" by (auto simp: decode_failed_def)
  next
    case False
    then have t: "is_trail c" by (auto simp: is_trail_def)
    let ?ctx = "ctx\<lparr>codepoint := add_trail (codepoint ctx) c\<rparr>"
    show ?thesis
    proof (cases "n - 1 = 0")
      case True
      then have "n = 1" "cp = add_trail (codepoint ctx) c" "ctx' = ?ctx" "r = cs"
        using "2.prems" False by (auto simp: Let_def)
      then have "need ctx' = 0" "c # cs = [c] @ r \<and> list_all is_trail [c] \<and> length [c] = n \<and>
          cp = foldl add_trail (codepoint ctx) [c]" using t "2.prems"(3) by simp_all
      then show ?thesis by blast
    next
      case n: False
      then have d: "decode_trail ?ctx (n - 1) cs = (cp, ctx', r)" using "2.prems" False by (simp add: Let_def)
      have "need ctx' \<noteq> 0 \<and> cp = NJS_UNICODE_CONTINUE \<and> r = []
       \<or> need ctx' = 0 \<and> cp = NJS_UNICODE_ERROR
       \<or> need ctx' = 0 \<and> (\<exists>ts. cs = ts @ r \<and> list_all is_trail ts \<and> length ts = n - 1 \<and>
            cp = foldl add_trail (codepoint ?ctx) ts)"
        by (rule "2.IH"[OF False refl n d]) (use n "2.prems"(3) in simp_all)
      then show ?thesis
      proof (elim disjE conjE exE)
        fix ts assume "cs = ts @ r" "list_all is_trail ts" "length ts = n - 1" "need ctx' = 0"
          "cp = foldl add_trail (codepoint ?ctx) ts"
        then have "c # cs = (c # ts) @ r \<and> list_all is_trail (c # ts) \<and> length (c # ts) = n \<and>
            cp = foldl add_trail (codepoint ctx) (c # ts)" using t "2.prems"(2) by simp
        then show ?thesis using \<open>need ctx' = 0\<close> by blast
      qed auto
    qed
  qed
qed

lemma decode_lead_stops:
  assumes "decode_lead ctx c n first second lo up cs = Some (cp, ctx', r)" "1 < n" "need ctx = 0"
    "0x80 \<le> lo" "up \<le> 0xBF" "first \<noteq> second"
  shows "need ctx' \<noteq> 0 \<and> cp = NJS_UNICODE_CONTINUE \<and> r = []
       \<or> need ctx' = 0 \<and> cp = NJS_UNICODE_ERROR
       \<or> need ctx' = 0 \<and> (\<exists>ts. list_all is_trail ts \<and> length ts = n \<and> cp = foldl add_trail (codepoint ctx) ts
           \<and> (c = first \<longrightarrow> lo \<le> hd ts) \<and> (c = second \<longrightarrow> hd ts \<le> up))"
proof (cases cs)
  case Nil
  then show ?thesis using assms by (auto simp: decode_lead_def)
next
  case (Cons t cs')
  let ?ctx = "ctx\<lparr>codepoint := add_trail (codepoint ctx) t\<rparr>"
  show ?thesis
  proof (cases "c = first \<or> c = second")
    case True
    consider "cp = NJS_UNICODE_ERROR" "need ctx' = 0"
      | "is_trail t" "c = first \<longrightarrow> lo \<le> t" "c = second \<longrightarrow> t \<le> up" "decode_trail ?ctx (n - 1) cs' = (cp, ctx', r)"
      using True assms Cons
      by (auto simp: decode_lead_def njs_utf8_boundary_def is_trail_def decode_failed_def
          not_less simp del: decode_trail.simps split: if_splits)
    then show ?thesis
    proof cases
      case 1
      then show ?thesis by blast
    next
      case 2
      have "1 < n \<Longrightarrow> 0 < n - 1" "need ?ctx = 0" using assms(3) by simp_all
      from decode_trail_stops[OF 2(4) this(1)[OF assms(2)] this(2)] show ?thesis
      proof (elim disjE conjE exE)
        fix ts assume "list_all is_trail ts" "length ts = n - 1" "need ctx' = 0"
          "cp = foldl add_trail (codepoint ?ctx) ts"
        then have "list_all is_trail (t # ts) \<and> length (t # ts) = n \<and>
          cp = foldl add_trail (codepoint ctx) (t # ts) \<and> (c = first \<longrightarrow> lo \<le> hd (t # ts)) \<and> (c = second \<longrightarrow> hd (t # ts) \<le> up)"
          using 2 assms(2) by simp
        then show ?thesis using \<open>need ctx' = 0\<close> by blast
      qed auto
    qed
  next
    case False
    with assms Cons have "decode_trail ctx n cs = (cp, ctx', r)"
      by (auto simp: decode_lead_def simp del: decode_trail.simps)
    from decode_trail_stops[OF this] assms False show ?thesis by auto
  qed
qed

lemma seq_not_max: "valid_seq c ts \<Longrightarrow> \<not> NJS_UNICODE_MAX_CODEPOINT < seq_value c ts"
  using seq_encode by (auto simp: is_scalar_def not_less)

lemma decode_idle_stops:
  assumes "njs_utf8_decode ctx p = Some (cp, ctx', r)" "need ctx = 0" "NJS_UNICODE_MAX_CODEPOINT < cp"
  shows "need ctx' \<noteq> 0 \<and> cp = NJS_UNICODE_CONTINUE \<and> r = [] \<or> need ctx' = 0 \<and> cp = NJS_UNICODE_ERROR"
proof (cases p)
  case Nil
  then show ?thesis using assms by (simp add: njs_utf8_decode_def)
next
  case (Cons c cs)
  consider (1) "c < 0x80" | (bad) "\<not> c < 0x80" "c \<le> 0xDF" "c < 0xC2" | (2) "\<not> c < 0x80" "c \<le> 0xDF" "\<not> c < 0xC2"
    | (3) "\<not> c < 0x80" "\<not> c \<le> 0xDF" "c < 0xF0" | (4) "\<not> c < 0x80" "\<not> c \<le> 0xDF" "\<not> c < 0xF0" "c < 0xF5"
    | (bad2) "\<not> c < 0x80" "\<not> c \<le> 0xDF" "\<not> c < 0xF0" "\<not> c < 0xF5" by blast
  then show ?thesis
  proof cases
    case 1
    then have "valid_seq c []" "cp = seq_value c []" using assms Cons
      by (auto simp: njs_utf8_decode_def valid_seq_def seq_value_def lead_bits_def)
    then show ?thesis using seq_not_max[of c "[]"] assms(3) by blast
  next
    case 2
    then have "decode_trail (ctx\<lparr>codepoint := ucast (c AND 0x1F)\<rparr>) 1 cs = (cp, ctx', r)"
      using assms Cons by (simp add: njs_utf8_decode_def)
    from decode_trail_stops[OF this] assms(2)
    have "need ctx' \<noteq> 0 \<and> cp = NJS_UNICODE_CONTINUE \<and> r = []
       \<or> need ctx' = 0 \<and> cp = NJS_UNICODE_ERROR
       \<or> need ctx' = 0 \<and> (\<exists>ts. list_all is_trail ts \<and> length ts = 1 \<and>
            cp = foldl add_trail (codepoint (ctx\<lparr>codepoint := ucast (c AND 0x1F)\<rparr>)) ts)" by auto
    then show ?thesis
    proof (elim disjE conjE exE)
      fix ts assume "list_all is_trail ts" "length ts = 1"
        "cp = foldl add_trail (codepoint (ctx\<lparr>codepoint := ucast (c AND 0x1F)\<rparr>)) ts"
      then have "valid_seq c ts" "cp = seq_value c ts" using 2
        by (auto simp: valid_seq_def seq_value_def lead_bits_def not_less)
      then show ?thesis using seq_not_max[of c ts] assms(3) by blast
    qed auto
  next
    case 3
    then have "decode_lead (ctx\<lparr>codepoint := ucast (c AND 0x0F)\<rparr>) c 2 0xE0 0xED 0xA0 0x9F cs = Some (cp, ctx', r)"
      using assms Cons by (simp add: njs_utf8_decode_def)
    from decode_lead_stops[OF this] assms(2)
    have "need ctx' \<noteq> 0 \<and> cp = NJS_UNICODE_CONTINUE \<and> r = []
       \<or> need ctx' = 0 \<and> cp = NJS_UNICODE_ERROR
       \<or> need ctx' = 0 \<and> (\<exists>ts. list_all is_trail ts \<and> length ts = 2 \<and>
            cp = foldl add_trail (codepoint (ctx\<lparr>codepoint := ucast (c AND 0x0F)\<rparr>)) ts
           \<and> (c = 0xE0 \<longrightarrow> 0xA0 \<le> hd ts) \<and> (c = 0xED \<longrightarrow> hd ts \<le> 0x9F))" by simp
    then show ?thesis
    proof (elim disjE conjE exE)
      fix ts assume "list_all is_trail ts" "length ts = 2"
        "cp = foldl add_trail (codepoint (ctx\<lparr>codepoint := ucast (c AND 0x0F)\<rparr>)) ts"
        "c = 0xE0 \<longrightarrow> 0xA0 \<le> hd ts" "c = 0xED \<longrightarrow> hd ts \<le> 0x9F"
      moreover have "0xE0 \<le> c" using 3 by (auto simp: word_nat_cmp)
      ultimately have "valid_seq c ts" "cp = seq_value c ts" using 3
        by (auto simp: valid_seq_def seq_value_def lead_bits_def)
      then show ?thesis using seq_not_max[of c ts] assms(3) by blast
    qed auto
  next
    case 4
    then have "decode_lead (ctx\<lparr>codepoint := ucast (c AND 0x07)\<rparr>) c 3 0xF0 0xF4 0x90 0x8F cs = Some (cp, ctx', r)"
      using assms Cons by (simp add: njs_utf8_decode_def)
    from decode_lead_stops[OF this] assms(2)
    have "need ctx' \<noteq> 0 \<and> cp = NJS_UNICODE_CONTINUE \<and> r = []
       \<or> need ctx' = 0 \<and> cp = NJS_UNICODE_ERROR
       \<or> need ctx' = 0 \<and> (\<exists>ts. list_all is_trail ts \<and> length ts = 3 \<and>
            cp = foldl add_trail (codepoint (ctx\<lparr>codepoint := ucast (c AND 0x07)\<rparr>)) ts
           \<and> (c = 0xF0 \<longrightarrow> 0x90 \<le> hd ts) \<and> (c = 0xF4 \<longrightarrow> hd ts \<le> 0x8F))" by simp
    then show ?thesis
    proof (elim disjE conjE exE)
      fix ts assume "list_all is_trail ts" "length ts = 3"
        "cp = foldl add_trail (codepoint (ctx\<lparr>codepoint := ucast (c AND 0x07)\<rparr>)) ts"
        "c = 0xF0 \<longrightarrow> 0x90 \<le> hd ts" "c = 0xF4 \<longrightarrow> hd ts \<le> 0x8F"
      moreover have "0xF0 \<le> c" using 4 by (auto simp: not_less)
      ultimately have "valid_seq c ts" "cp = seq_value c ts" using 4
        by (auto simp: valid_seq_def seq_value_def lead_bits_def)
      then show ?thesis using seq_not_max[of c ts] assms(3) by blast
    qed auto
  qed (use assms Cons in \<open>simp_all add: njs_utf8_decode_def\<close>)
qed

definition valid_utf8 :: "u_char list \<Rightarrow> bool" where
  "valid_utf8 p \<longleftrightarrow> (\<exists>us. list_all is_scalar us \<and> p = encode_all us)"

lemma valid_utf8_Nil: "valid_utf8 []"
  by (auto simp: valid_utf8_def intro: exI[of _ "[]"])

lemma valid_utf8_step:
  assumes "njs_utf8_decode ctx p = Some (cp, ctx', p')" "need ctx = 0" "p \<noteq> []"
  shows "valid_utf8 p \<longleftrightarrow> cp \<le> NJS_UNICODE_MAX_CODEPOINT \<and> valid_utf8 p'"
proof
  assume "valid_utf8 p"
  then obtain us where "list_all is_scalar us" "p = encode_all us" by (auto simp: valid_utf8_def)
  with assms(2,3) obtain u us' c' where "is_scalar u" "list_all is_scalar us'"
     "njs_utf8_decode ctx p = Some (u, c', encode_all us')" by (metis decode_head)
  with assms(1) show "cp \<le> NJS_UNICODE_MAX_CODEPOINT \<and> valid_utf8 p'"
    by (auto simp: is_scalar_def valid_utf8_def)
next
  assume v: "cp \<le> NJS_UNICODE_MAX_CODEPOINT \<and> valid_utf8 p'"
  then obtain us where "list_all is_scalar us" "p' = encode_all us" by (auto simp: valid_utf8_def)
  with decode_step[OF assms(1) _ assms(2)] v show "valid_utf8 p"
    unfolding valid_utf8_def by (intro exI[of _ "cp # us"]) simp
qed

lemma is_valid_loop_iff: "need ctx = 0 \<Longrightarrow> is_valid_loop ctx p = Some (valid_utf8 p)"
proof (induction ctx p rule: is_valid_loop.induct)
  case (1 ctx p)
  show ?case
  proof (cases "p = []")
    case True
    then show ?thesis by (simp add: is_valid_loop.simps valid_utf8_Nil)
  next
    case False
    then obtain cp ctx' p' where d: "njs_utf8_decode ctx p = Some (cp, ctx', p')"
      using utf8_decode_answers[OF False] by (metis not_None_eq prod_cases3)
    have "is_valid_loop ctx p = (if NJS_UNICODE_MAX_CODEPOINT < cp then Some False else is_valid_loop ctx' p')"
      using False d by (subst is_valid_loop.simps) simp
    then show ?thesis using "1.IH"[OF False d refl refl] decode_step(1)[OF d _ "1.prems"]
        valid_utf8_step[OF d "1.prems" False] by (auto simp: not_less)
  qed
qed

lemma length_loop_fatal:
  "need ctx = 0 \<Longrightarrow>
   (if valid_utf8 p
    then \<exists>us ctx'. list_all is_scalar us \<and> p = encode_all us \<and> need ctx' = 0 \<and>
           stream_length_loop True ctx p len osize = Some (Inr (ctx', len + length us, osize + length p))
    else (\<exists>c. stream_length_loop True ctx p len osize = Some (Inl c)) \<or>
         (\<exists>ctx' l s. stream_length_loop True ctx p len osize = Some (Inr (ctx', l, s)) \<and> need ctx' \<noteq> 0))"
proof (induction True ctx p len osize rule: stream_length_loop.induct)
  case (1 ctx p len osize)
  show ?case
  proof (cases "p = []")
    case True
    then show ?thesis using "1.prems"
      by (auto simp: stream_length_loop.simps valid_utf8_Nil intro: exI[of _ "[]"])
  next
    case False
    then obtain cp ctx' p' where d: "njs_utf8_decode ctx p = Some (cp, ctx', p')"
      using utf8_decode_answers[OF False] by (metis not_None_eq prod_cases3)
    note u = stream_length_loop.simps[of True ctx p len osize]
    show ?thesis
    proof (cases "NJS_UNICODE_MAX_CODEPOINT < cp")
      case True
      then have "\<not> valid_utf8 p" using valid_utf8_step[OF d "1.prems" False] by (auto simp: not_le)
      moreover have "stream_length_loop True ctx p len osize =
          (if cp = NJS_UNICODE_CONTINUE then Some (Inr (ctx', len, osize)) else Some (Inl ctx'))"
        unfolding u using True False d by simp
      ultimately show ?thesis using decode_idle_stops[OF d "1.prems" True]
        by (auto simp: unicode_consts)
    next
      case ok: False
      then have c: "cp \<le> NJS_UNICODE_MAX_CODEPOINT" by simp
      note st = decode_step[OF d c "1.prems"]
      obtain bs where bs: "njs_utf8_encode cp = Some bs" using is_scalar_encode[OF st(2)] by blast
      have e: "stream_length_loop True ctx p len osize =
            stream_length_loop True ctx' p' (len + 1) (osize + length bs)"
        unfolding u using False d ok encode_size[OF bs] by simp
      note IH = "1.hyps"(2)[OF False d refl refl ok st(1)]
      show ?thesis
      proof (cases "valid_utf8 p'")
        case True
        with IH encode_size[OF bs] obtain us c2 where "list_all is_scalar us" "p' = encode_all us" "need c2 = 0"
          "stream_length_loop True ctx' p' (len + 1) (osize + length bs) =
             Some (Inr (c2, len + 1 + length us, osize + length bs + length p'))" by auto
        then have "list_all is_scalar (cp # us) \<and> p = encode_all (cp # us) \<and> need c2 = 0 \<and>
          stream_length_loop True ctx p len osize = Some (Inr (c2, len + length (cp # us), osize + length p))"
          using e st bs by simp
        moreover have "valid_utf8 p" using True c valid_utf8_step[OF d "1.prems" False] by simp
        ultimately show ?thesis by (simp only: if_True) blast
      next
        case nv: False
        then show ?thesis using IH e encode_size[OF bs] valid_utf8_step[OF d "1.prems" False] by simp
      qed
    qed
  qed
qed

lemma encode_all_length_unique:
  assumes "list_all is_scalar us" "list_all is_scalar vs" "encode_all us = encode_all vs"
  shows "us = vs"
  using assms
proof (induction us arbitrary: vs)
  case Nil
  show ?case
  proof (cases vs)
    case (Cons v vs')
    then obtain bs where "njs_utf8_encode v = Some bs" using Nil.prems(2) is_scalar_encode by auto
    then show ?thesis using Cons Nil.prems(3) encode_nonempty by auto
  qed simp
next
  case (Cons u us)
  then obtain bs where bs: "njs_utf8_encode u = Some bs" using is_scalar_encode by auto
  then have ne: "encode_all (u # us) \<noteq> []" using encode_nonempty by auto
  define c0 where "c0 = \<lparr>codepoint = 0, need = 0, lower = 0, upper = 0\<rparr>"
  have c0: "need c0 = 0" by (simp add: c0_def)
  have u: "is_scalar u" "list_all is_scalar us" using Cons.prems(1) by simp_all
  obtain c1 where 1: "njs_utf8_decode c0 (encode_all (u # us)) = Some (u, c1, encode_all us)"
    using decode_scalar[OF u(1) bs c0, of "encode_all us"] bs by auto
  have ne': "encode_all vs \<noteq> []" using ne unfolding Cons.prems(3) .
  obtain v vs1 c2 where 2: "vs = v # vs1" "list_all is_scalar vs1"
     "njs_utf8_decode c0 (encode_all vs) = Some (v, c2, encode_all vs1)"
    by (rule decode_head[OF Cons.prems(2) ne' c0])
  from 1 2(3) have "u = v" "encode_all us = encode_all vs1" unfolding Cons.prems(3) by simp_all
  then show ?case using Cons.IH[OF u(2) 2(2)] 2(1) by simp
qed

text \<open>The number of characters, or -1.\<close>

lemma utf8_length_text:
  assumes us: "list_all is_scalar us"
  shows "njs_utf8_length (encode_all us) = Some (Inr (length us))"
proof -
  let ?c = "\<lparr>codepoint = 0, need = 0, lower = 0, upper = 0\<rparr> :: njs_unicode_decode"
  have n: "need ?c = 0" by simp
  have v: "valid_utf8 (encode_all us)" using us by (auto simp: valid_utf8_def)
  from length_loop_fatal[OF n, of "encode_all us" 0 0] v obtain vs c where
    vs: "list_all is_scalar vs" "encode_all us = encode_all vs" "need c = 0"
    "stream_length_loop True ?c (encode_all us) 0 0 = Some (Inr (c, length vs, length (encode_all us)))" by auto
  then have "us = vs" using encode_all_length_unique[OF us vs(1,2)] by simp
  then show ?thesis using vs by (simp add: njs_utf8_length_def njs_utf8_stream_length_def)
qed

lemma utf8_length_invalid: "\<not> valid_utf8 p \<Longrightarrow> njs_utf8_length p = Some (Inl ())"
  using length_loop_fatal[of "\<lparr>codepoint = 0, need = 0, lower = 0, upper = 0\<rparr>" p 0 0]
  by (auto simp: njs_utf8_length_def njs_utf8_stream_length_def)

end
