(* ===== verification/Njs_Utf8_Stream.thy ===== *)
theory Njs_Utf8_Stream
  imports Njs_Utf8
begin

section \<open>UTF-8 streams that arrive in chunks\<close>

text \<open>
  The decoder context carries a character that a chunk boundary cuts.  A pending context behaves
  like the idle context it came from with the pending bytes given again, so the passes over a
  stream are independent of the cuts.  The end of the theory holds the properties of the UTF-8
  component.
\<close>

subsection \<open>Decoding in chunks\<close>

text \<open>
  The field \<open>upper\<close> matters only together with \<open>lower\<close>; \<open>norm_ctx\<close> clears it otherwise.
\<close>

definition norm_ctx :: "njs_unicode_decode \<Rightarrow> njs_unicode_decode" where
  "norm_ctx ctx = (if lower ctx = 0 then ctx\<lparr>upper := 0\<rparr> else ctx)"

definition norm_answer ::
    "uint32 \<times> njs_unicode_decode \<times> u_char list \<Rightarrow> uint32 \<times> njs_unicode_decode \<times> u_char list" where
  "norm_answer = (\<lambda>(cp, ctx, r). (cp, norm_ctx ctx, r))"

lemma norm_answer_tuple [simp]: "norm_answer (cp, ctx, r) = (cp, norm_ctx ctx, r)"
  by (simp add: norm_answer_def)

lemma norm_ctx_simps [simp]:
  "need (norm_ctx ctx) = need ctx" "lower (norm_ctx ctx) = lower ctx"
  "codepoint (norm_ctx ctx) = codepoint ctx" "lower ctx \<noteq> 0 \<Longrightarrow> upper (norm_ctx ctx) = upper ctx"
  "norm_ctx (norm_ctx ctx) = norm_ctx ctx"
  "norm_ctx (ctx\<lparr>need := n\<rparr>) = norm_ctx ctx\<lparr>need := n\<rparr>"
  "norm_ctx (ctx\<lparr>codepoint := n'\<rparr>) = norm_ctx ctx\<lparr>codepoint := n'\<rparr>"
  by (simp_all add: norm_ctx_def)

lemma norm_ctx_eqI:
  assumes "need a = need b" "lower a = lower b" "codepoint a = codepoint b" "lower a \<noteq> 0 \<Longrightarrow> upper a = upper b"
  shows "norm_ctx a = norm_ctx b"
  using assms by (cases "lower a = 0") (simp_all add: norm_ctx_def)

lemma ctx_updates:
  "need ctx = 0 \<Longrightarrow> ctx\<lparr>need := 0\<rparr> = ctx"
  "ctx\<lparr>upper := u, codepoint := c\<rparr> = ctx\<lparr>codepoint := c, upper := u\<rparr>"
  by simp_all

lemma decode_trail_upper:
  "decode_trail (ctx\<lparr>upper := u\<rparr>) n p = (case decode_trail ctx n p of (cp, c, r) \<Rightarrow> (cp, c\<lparr>upper := u\<rparr>, r))"
  by (induction ctx n p rule: decode_trail.induct) (auto simp: decode_failed_def Let_def ctx_updates)

lemma decode_trail_lower:
  "lower ctx = 0 \<Longrightarrow> decode_trail ctx n p = (cp, ctx', r) \<Longrightarrow> lower ctx' = 0"
  by (induction ctx n p rule: decode_trail.induct) (auto simp: decode_failed_def Let_def split: if_splits)

lemma decode_trail_ctx:
  assumes "lower ctx = 0" "lower ctx2 = 0" "need ctx = need ctx2" "codepoint ctx = codepoint ctx2"
  shows "norm_answer (decode_trail ctx n p) = norm_answer (decode_trail ctx2 n p)"
proof -
  have "ctx2 = ctx\<lparr>upper := upper ctx2\<rparr>" using assms by simp
  then have "decode_trail ctx2 n p = (case decode_trail ctx n p of (cp, c, r) \<Rightarrow> (cp, c\<lparr>upper := upper ctx2\<rparr>, r))"
    using decode_trail_upper by metis
  then show ?thesis using decode_trail_lower[OF assms(1), of n p]
    by (cases "decode_trail ctx n p") (auto simp: norm_answer_def norm_ctx_def)
qed

lemma decode_trail_chunk:
  assumes "decode_trail ctx n p = (cp, ctx', r)" "need ctx' \<noteq> 0" "need ctx = 0" "0 < n"
  shows "cp = NJS_UNICODE_CONTINUE \<and> r = [] \<and> lower ctx' = lower ctx \<and>
         decode_trail ctx n (p @ q) = decode_trail (ctx'\<lparr>need := 0\<rparr>) (need ctx') q"
  using assms
  by (induction ctx n p rule: decode_trail.induct)
     (auto simp: decode_failed_def Let_def ctx_updates split: if_splits)

lemma decode_trail_local:
  assumes "decode_trail ctx n p = (cp, ctx', r)" "need ctx' = 0" "need ctx = 0" "0 < n"
  shows "decode_trail ctx n (p @ q) = (cp, ctx', r @ q) \<and> (lower ctx = 0 \<longrightarrow> lower ctx' = 0)"
  using assms
  by (induction ctx n p rule: decode_trail.induct)
     (auto simp: decode_failed_def Let_def split: if_splits)

lemma decode_lead_chunk:
  assumes d: "decode_lead ctx c n a b lo up p = Some (cp, ctx', r)" and nd: "need ctx' \<noteq> 0"
    and i: "need ctx = 0" "lower ctx = 0" and n: "1 < n" and lo: "lo \<noteq> 0" and q: "q \<noteq> []"
  shows "cp = NJS_UNICODE_CONTINUE \<and> r = [] \<and>
     map_option norm_answer (decode_lead ctx c n a b lo up (p @ q)) = map_option norm_answer (njs_utf8_decode ctx' q)"
proof (cases p)
  case Nil
  then have ctx': "cp = NJS_UNICODE_CONTINUE" "r = []" "ctx' = (njs_utf8_boundary_set ctx c a b lo up)\<lparr>need := n\<rparr>"
    using d by (auto simp: decode_lead_def)
  obtain t q' where q': "q = t # q'" using q by (cases q) auto
  show ?thesis
  proof (cases "c = a \<or> c = b")
    case True
    then show ?thesis using Nil ctx' i n lo q'
      by (auto simp: decode_lead_def njs_utf8_decode_def njs_utf8_boundary_set_def njs_utf8_boundary_def
            decode_failed_def norm_answer_def norm_ctx_def simp del: decode_trail.simps
            intro!: decode_trail_ctx[unfolded norm_answer_def norm_ctx_def])
  next
    case False
    then show ?thesis using Nil ctx' i n q' decode_trail_ctx[of ctx "ctx" n q]
      by (auto simp: decode_lead_def njs_utf8_decode_def njs_utf8_boundary_set_def Let_def ctx_updates
          simp del: decode_trail.simps)
  qed
next
  case (Cons t p')
  let ?ctx = "ctx\<lparr>codepoint := add_trail (codepoint ctx) t\<rparr>"
  have *: "cp = NJS_UNICODE_CONTINUE \<and> r = [] \<and> Some (decode_trail c0 m (s @ q)) = njs_utf8_decode ctx' q"
    if "decode_trail c0 m s = (cp, ctx', r)" "need c0 = 0" "lower c0 = 0" "0 < m" for c0 m s
    using decode_trail_chunk[OF that(1) nd that(2,4), of q] that(3) nd by (simp add: njs_utf8_decode_def Let_def)
  show ?thesis
  proof (cases "c = a \<or> c = b")
    case True
    then have "decode_trail ?ctx (n - 1) p' = (cp, ctx', r)"
      "decode_lead ctx c n a b lo up (p @ q) = Some (decode_trail ?ctx (n - 1) (p' @ q))"
      using d Cons nd by (auto simp: decode_lead_def njs_utf8_boundary_def decode_failed_def
          simp del: decode_trail.simps split: if_splits)
    then show ?thesis using *[of ?ctx "n - 1" p'] i n by simp
  next
    case False
    then show ?thesis using d Cons i n *[of ctx n p]
      by (simp add: decode_lead_def del: decode_trail.simps)
  qed
qed

lemma decode_lead_local:
  assumes d: "decode_lead ctx c n a b lo up p = Some (cp, ctx', r)" and nd: "need ctx' = 0"
    and i: "need ctx = 0" "lower ctx = 0" and n: "1 < n"
  shows "decode_lead ctx c n a b lo up (p @ q) = Some (cp, ctx', r @ q) \<and> lower ctx' = 0"
proof (cases p)
  case Nil
  then show ?thesis using d nd n by (auto simp: decode_lead_def)
next
  case (Cons t p')
  let ?ctx = "ctx\<lparr>codepoint := add_trail (codepoint ctx) t\<rparr>"
  show ?thesis
  proof (cases "c = a \<or> c = b")
    case True
    then show ?thesis using d Cons i n nd decode_trail_local[of ?ctx "n - 1" p' cp ctx' r q]
      by (auto simp: decode_lead_def njs_utf8_boundary_def decode_failed_def
          simp del: decode_trail.simps split: if_splits)
  next
    case False
    then show ?thesis using d Cons i n nd decode_trail_local[of ctx n p cp ctx' r q]
      by (simp add: decode_lead_def del: decode_trail.simps)
  qed
qed

definition idle :: "njs_unicode_decode \<Rightarrow> bool" where
  "idle ctx \<longleftrightarrow> need ctx = 0 \<and> lower ctx = 0"

text \<open>The contexts that arise when a stream is decoded from an idle one.\<close>

definition stream_ctx :: "njs_unicode_decode \<Rightarrow> bool" where
  "stream_ctx ctx \<longleftrightarrow> idle ctx \<or>
     need ctx \<noteq> 0 \<and> (\<exists>c0 p0 c1. idle c0 \<and> p0 \<noteq> [] \<and>
       njs_utf8_decode c0 p0 = Some (NJS_UNICODE_CONTINUE, c1, []) \<and> norm_ctx c1 = norm_ctx ctx)"

lemma decode_idle_chunk:
  assumes d: "njs_utf8_decode ctx p = Some (cp, ctx', r)" and nd: "need ctx' \<noteq> 0"
    and i: "idle ctx" and q: "q \<noteq> []" and p: "p \<noteq> []"
  shows "cp = NJS_UNICODE_CONTINUE \<and> r = [] \<and>
     map_option norm_answer (njs_utf8_decode ctx (p @ q)) = map_option norm_answer (njs_utf8_decode ctx' q)"
proof -
  obtain c cs where p: "p = c # cs" using p by (cases p) auto
  have i': "need ctx = 0" "lower ctx = 0" using i by (simp_all add: idle_def)
  consider (1) "c < 0x80 \<or> \<not> c < 0x80 \<and> c \<le> 0xDF \<and> c < 0xC2 \<or> \<not> c < 0x80 \<and> \<not> c \<le> 0xDF \<and> \<not> c < 0xF5"
    | (2) "\<not> c < 0x80" "c \<le> 0xDF" "\<not> c < 0xC2" | (3) "\<not> c < 0x80" "\<not> c \<le> 0xDF" "c < 0xF0"
    | (4) "\<not> c < 0x80" "\<not> c \<le> 0xDF" "\<not> c < 0xF0" "c < 0xF5" by blast
  then show ?thesis
  proof cases
    case 1
    then have "ctx' = ctx" using d i' p
      by (elim disjE conjE) (auto simp: njs_utf8_decode_def word_nat_cmp split: if_splits)
    then show ?thesis using nd i' by simp
  next
    case 2
    let ?ctx = "ctx\<lparr>codepoint := ucast (c AND 0x1F)\<rparr>"
    have "decode_trail ?ctx 1 cs = (cp, ctx', r)" using 2 d i' p by (simp add: njs_utf8_decode_def)
    from decode_trail_chunk[OF this nd, of q] show ?thesis using 2 i' p nd
      by (simp add: njs_utf8_decode_def Let_def)
  next
    case 3
    let ?ctx = "ctx\<lparr>codepoint := ucast (c AND 0x0F)\<rparr>"
    have "decode_lead ?ctx c 2 0xE0 0xED 0xA0 0x9F cs = Some (cp, ctx', r)"
      using 3 d i' p by (simp add: njs_utf8_decode_def)
    from decode_lead_chunk[OF this nd _ _ _ _ q] show ?thesis using 3 i' p
      by (simp add: njs_utf8_decode_def[of ctx])
  next
    case 4
    let ?ctx = "ctx\<lparr>codepoint := ucast (c AND 0x07)\<rparr>"
    have "decode_lead ?ctx c 3 0xF0 0xF4 0x90 0x8F cs = Some (cp, ctx', r)"
      using 4 d i' p by (simp add: njs_utf8_decode_def)
    from decode_lead_chunk[OF this nd _ _ _ _ q] show ?thesis using 4 i' p
      by (simp add: njs_utf8_decode_def[of ctx])
  qed
qed

lemma decode_idle_local:
  assumes d: "njs_utf8_decode ctx p = Some (cp, ctx', r)" and nd: "need ctx' = 0"
    and i: "idle ctx" and p: "p \<noteq> []"
  shows "njs_utf8_decode ctx (p @ q) = Some (cp, ctx', r @ q) \<and> lower ctx' = 0"
proof -
  obtain c cs where p: "p = c # cs" using p by (cases p) auto
  have i': "need ctx = 0" "lower ctx = 0" using i by (simp_all add: idle_def)
  show ?thesis using d nd i' p
      decode_trail_local[of "ctx\<lparr>codepoint := ucast (c AND 0x1F)\<rparr>" 1 cs cp ctx' r q]
      decode_lead_local[of "ctx\<lparr>codepoint := ucast (c AND 0x0F)\<rparr>" c 2 "0xE0" "0xED" "0xA0" "0x9F" cs cp ctx' r q]
      decode_lead_local[of "ctx\<lparr>codepoint := ucast (c AND 0x07)\<rparr>" c 3 "0xF0" "0xF4" "0x90" "0x8F" cs cp ctx' r q]
    by (simp add: njs_utf8_decode_def split: if_splits; fastforce?)
qed

lemma norm_ctx_eqD: "norm_ctx a = norm_ctx b \<Longrightarrow> need a = need b \<and> lower a = lower b \<and> codepoint a = codepoint b"
  by (metis norm_ctx_simps(1,2,3))

lemma decode_lead_upper:
  assumes "lower ctx = 0"
  shows "map_option norm_answer (decode_lead (ctx\<lparr>upper := u\<rparr>) c n a b lo up p) =
         map_option norm_answer (decode_lead ctx c n a b lo up p)"
proof -
  have t: "norm_answer (decode_trail (ctx\<lparr>upper := u\<rparr>) m s) = norm_answer (decode_trail ctx m s)"
    "norm_answer (decode_trail (ctx\<lparr>upper := u, codepoint := x\<rparr>) m s) = norm_answer (decode_trail (ctx\<lparr>codepoint := x\<rparr>) m s)"
    for m s x by (rule decode_trail_ctx; simp add: assms)+
  show ?thesis using assms
    by (cases p) (simp_all add: decode_lead_def njs_utf8_boundary_def njs_utf8_boundary_set_def t
       decode_failed_def norm_ctx_def del: decode_trail.simps)
qed

lemma decode_ctx:
  assumes "norm_ctx a = norm_ctx b"
  shows "map_option norm_answer (njs_utf8_decode a p) = map_option norm_answer (njs_utf8_decode b p)"
proof (cases "lower a = 0")
  case False
  then have "a = b" using assms by (auto simp: norm_ctx_def split: if_splits)
  then show ?thesis by simp
next
  case True
  then have b: "a = b\<lparr>upper := upper a\<rparr>" "lower b = 0" using assms norm_ctx_eqD[OF assms] by simp_all
  have t: "norm_answer (decode_trail (b\<lparr>upper := u, codepoint := x\<rparr>) m s) = norm_answer (decode_trail (b\<lparr>codepoint := x\<rparr>) m s)"
     "norm_answer (decode_trail (b\<lparr>upper := u, need := x'\<rparr>) m s) = norm_answer (decode_trail (b\<lparr>need := x'\<rparr>) m s)"
    for m s x x' u by (rule decode_trail_ctx; simp add: b(2))+
  have l: "map_option norm_answer (decode_lead (b\<lparr>upper := u, codepoint := x\<rparr>) c n d e lo up p') =
     map_option norm_answer (decode_lead (b\<lparr>codepoint := x\<rparr>) c n d e lo up p')" for u x c n d e lo up p'
    using decode_lead_upper[of "b\<lparr>codepoint := x\<rparr>" u c n d e lo up p'] b(2) by (simp add: ctx_updates)
  have "map_option norm_answer (njs_utf8_decode (b\<lparr>upper := u\<rparr>) p) = map_option norm_answer (njs_utf8_decode b p)" for u
    by (cases p) (simp_all add: njs_utf8_decode_def b(2) Let_def t l norm_ctx_def
        del: decode_trail.simps)
  then show ?thesis using b(1) by metis
qed

text \<open>A pending context behaves like the idle one it came from, given the bytes again.\<close>

lemma stream_ctx_pending:
  assumes "stream_ctx ctx" "need ctx \<noteq> 0"
  obtains c0 p0 where "idle c0" "p0 \<noteq> []"
    "\<And>q. q \<noteq> [] \<Longrightarrow> map_option norm_answer (njs_utf8_decode c0 (p0 @ q)) = map_option norm_answer (njs_utf8_decode ctx q)"
proof -
  from assms obtain c0 p0 c1 where c: "idle c0" "p0 \<noteq> []"
    "njs_utf8_decode c0 p0 = Some (NJS_UNICODE_CONTINUE, c1, [])" "norm_ctx c1 = norm_ctx ctx"
    by (auto simp: stream_ctx_def idle_def)
  then have "need c1 \<noteq> 0" using norm_ctx_eqD[OF c(4)] assms(2) by simp
  then have "map_option norm_answer (njs_utf8_decode c0 (p0 @ q)) = map_option norm_answer (njs_utf8_decode ctx q)"
    if "q \<noteq> []" for q using decode_idle_chunk[OF c(3) _ c(1) that c(2)] decode_ctx[OF c(4)] by simp
  with c(1,2) that show thesis by blast
qed

lemma norm_SomeD:
  assumes "map_option norm_answer x = map_option norm_answer (Some (cp, c, r))"
  obtains c2 where "x = Some (cp, c2, r)" "norm_ctx c2 = norm_ctx c"
  using assms by (cases x) auto

lemma idle_answer:
  assumes d: "njs_utf8_decode ctx p = Some (cp, ctx', r)" and i: "idle ctx" and p: "p \<noteq> []"
  shows "cp = NJS_UNICODE_CONTINUE \<longleftrightarrow> need ctx' \<noteq> 0"
proof (cases "NJS_UNICODE_MAX_CODEPOINT < cp")
  case True
  then show ?thesis using decode_idle_stops[OF d _ True] i by (auto simp: idle_def unicode_consts)
next
  case False
  then show ?thesis using decode_step(1)[OF d] i max_cp_consts(2) by (auto simp: idle_def not_less)
qed

lemma stream_answer:
  assumes d: "njs_utf8_decode ctx p = Some (cp, ctx', r)" and s: "stream_ctx ctx" and p: "p \<noteq> []"
  shows "cp = NJS_UNICODE_CONTINUE \<longleftrightarrow> need ctx' \<noteq> 0" "stream_ctx ctx'" "need ctx' \<noteq> 0 \<Longrightarrow> r = []"
    "need ctx' \<noteq> 0 \<Longrightarrow> q \<noteq> [] \<Longrightarrow>
       map_option norm_answer (njs_utf8_decode ctx (p @ q)) = map_option norm_answer (njs_utf8_decode ctx' q)"
    "need ctx' = 0 \<Longrightarrow>
       map_option norm_answer (njs_utf8_decode ctx (p @ q)) = map_option norm_answer (Some (cp, ctx', r @ q))"
proof -
  have "\<exists>c0 p0 c2. idle c0 \<and> p0 \<noteq> [] \<and> njs_utf8_decode c0 p0 = Some (cp, c2, r) \<and> norm_ctx c2 = norm_ctx ctx' \<and>
     (\<forall>q. map_option norm_answer (njs_utf8_decode c0 (p0 @ q)) = map_option norm_answer (njs_utf8_decode ctx (p @ q)))"
  proof (cases "need ctx = 0")
    case True
    then have "idle ctx" using s by (auto simp: stream_ctx_def)
    then show ?thesis using d p by blast
  next
    case False
    then obtain c0 p0 where c: "idle c0" "p0 \<noteq> []"
      "\<And>q. q \<noteq> [] \<Longrightarrow> map_option norm_answer (njs_utf8_decode c0 (p0 @ q)) = map_option norm_answer (njs_utf8_decode ctx q)"
      using stream_ctx_pending[OF s] by metis
    from norm_SomeD[OF c(3)[OF p, unfolded d]] obtain c2 where
      "njs_utf8_decode c0 (p0 @ p) = Some (cp, c2, r)" "norm_ctx c2 = norm_ctx ctx'" .
    moreover have "map_option norm_answer (njs_utf8_decode c0 ((p0 @ p) @ q)) = map_option norm_answer (njs_utf8_decode ctx (p @ q))" for q
      using c(3)[of "p @ q"] p by simp
    ultimately show ?thesis using c(1,2) by blast
  qed
  then obtain c0 p0 c2 where c: "idle c0" "p0 \<noteq> []" "njs_utf8_decode c0 p0 = Some (cp, c2, r)" "norm_ctx c2 = norm_ctx ctx'"
    "\<And>q. map_option norm_answer (njs_utf8_decode c0 (p0 @ q)) = map_option norm_answer (njs_utf8_decode ctx (p @ q))"
    by blast
  have n: "need c2 = need ctx'" "lower c2 = lower ctx'" using norm_ctx_eqD[OF c(4)] by simp_all
  show 1: "cp = NJS_UNICODE_CONTINUE \<longleftrightarrow> need ctx' \<noteq> 0" using idle_answer[OF c(3,1,2)] n by simp
  show 2: "need ctx' \<noteq> 0 \<Longrightarrow> r = []" using decode_idle_chunk[OF c(3) _ c(1) _ c(2), of "[0]"] n by simp
  show "stream_ctx ctx'"
  proof (cases "need ctx' = 0")
    case True
    then show ?thesis using decode_idle_local[OF c(3) _ c(1,2), of "[]"] n by (simp add: stream_ctx_def idle_def)
  next
    case False
    then show ?thesis using c 1 2 by (auto simp: stream_ctx_def)
  qed
  show "map_option norm_answer (njs_utf8_decode ctx (p @ q)) = map_option norm_answer (njs_utf8_decode ctx' q)"
    if "need ctx' \<noteq> 0" "q \<noteq> []"
    using decode_idle_chunk[OF c(3) _ c(1) that(2) c(2)] that(1) n c(5)[of q] decode_ctx[OF c(4), of q] by simp
  show "map_option norm_answer (njs_utf8_decode ctx (p @ q)) = map_option norm_answer (Some (cp, ctx', r @ q))"
    if "need ctx' = 0"
    using decode_idle_local[OF c(3) _ c(1,2), of q] that n c(5)[of q] c(4) by (simp add: norm_answer_def)
qed

definition norm_stream ::
    "njs_unicode_decode + njs_unicode_decode \<times> u_char list \<Rightarrow> njs_unicode_decode + njs_unicode_decode \<times> u_char list" where
  "norm_stream = map_sum norm_ctx (map_prod norm_ctx id)"

lemma stream_encode_step:
  "p \<noteq> [] \<Longrightarrow> njs_utf8_decode ctx p = Some (cp, ctx', p') \<Longrightarrow>
   stream_encode_loop fatal ctx p dst =
     (if cp = NJS_UNICODE_CONTINUE then Some (Inr (ctx', dst))
      else if NJS_UNICODE_MAX_CODEPOINT < cp \<and> fatal then Some (Inl ctx')
      else stream_encode_loop fatal ctx' p' (dst @ the (njs_utf8_encode
             (if NJS_UNICODE_MAX_CODEPOINT < cp then NJS_UNICODE_REPLACEMENT else cp))))"
  using max_cp_consts(2) encode_le_max[of cp] is_scalar_encode[OF max_cp_consts(3)]
  by (subst stream_encode_loop.simps) auto

lemma stream_encode_ctx:
  "norm_ctx a = norm_ctx b \<Longrightarrow>
   map_option norm_stream (stream_encode_loop fatal a p dst) = map_option norm_stream (stream_encode_loop fatal b p dst)"
proof (induction "length p + (if need a = 0 then 0 else 1) + length p" arbitrary: a b p dst rule: less_induct)
  case less
  show ?case
  proof (cases "p = []")
    case True
    then show ?thesis using less.prems by (simp add: stream_encode_loop.simps norm_stream_def)
  next
    case False
    then obtain cp b' p' where d: "njs_utf8_decode b p = Some (cp, b', p')"
      using utf8_decode_answers[OF False] by (metis not_None_eq prod_cases3)
    from norm_SomeD[OF decode_ctx[OF less.prems, of p, unfolded d]] obtain a' where
      a: "njs_utf8_decode a p = Some (cp, a', p')" "norm_ctx a' = norm_ctx b'" .
    have "length p' + (if need a' = 0 then 0 else 1) + length p' < length p + (if need a = 0 then 0 else 1) + length p"
      using utf8_decode_pending[OF a(1) False] by (simp add: pending_def)
    from less.hyps[OF this a(2)] show ?thesis
      using a(2) by (simp add: stream_encode_step[OF False a(1)] stream_encode_step[OF False d] norm_stream_def)
  qed
qed

lemma stream_encode_chunk:
  "stream_ctx ctx \<Longrightarrow> stream_encode_loop fatal ctx p dst = Some (Inr (ctx', dst')) \<Longrightarrow>
   map_option norm_stream (stream_encode_loop fatal ctx (p @ q) dst) =
   map_option norm_stream (stream_encode_loop fatal ctx' q dst') \<and> stream_ctx ctx'"
proof (induction fatal ctx p dst rule: stream_encode_loop.induct)
  case (1 fatal ctx p dst)
  show ?case
  proof (cases "p = []")
    case True
    then show ?thesis using "1.prems" by (simp add: stream_encode_loop.simps[of _ _ "[]"])
  next
    case False
    then obtain cp c1 p1 where d: "njs_utf8_decode ctx p = Some (cp, c1, p1)"
      using utf8_decode_answers[OF False] by (metis not_None_eq prod_cases3)
    note sa = stream_answer[OF d "1.prems"(1) False]
    note st = stream_encode_step[OF False d]
    show ?thesis
    proof (cases "cp = NJS_UNICODE_CONTINUE")
      case True
      then have c: "ctx' = c1" "dst' = dst" "need c1 \<noteq> 0" using "1.prems"(2) st sa(1) by simp_all
      show ?thesis
      proof (cases "q = []")
        case True
        then show ?thesis using c "1.prems"(2) sa(2) by (simp add: stream_encode_loop.simps[of _ _ "[]"])
      next
        case q: False
        then obtain cp2 c2 p2 where d2: "njs_utf8_decode c1 q = Some (cp2, c2, p2)"
          using utf8_decode_answers[OF q] by (metis not_None_eq prod_cases3)
        have pq: "p @ q \<noteq> []" using q by simp
        from norm_SomeD[OF sa(4)[OF c(3) q, unfolded d2]] obtain c3 where
          d3: "njs_utf8_decode ctx (p @ q) = Some (cp2, c3, p2)" and n: "norm_ctx c3 = norm_ctx c2" .
        show ?thesis
          using stream_encode_ctx[OF n, of fatal p2] n c sa(2)
          by (simp add: stream_encode_step[OF pq d3] stream_encode_step[OF q d2] norm_stream_def)
      qed
    next
      case ncont: False
      let ?e = "dst @ the (njs_utf8_encode (if NJS_UNICODE_MAX_CODEPOINT < cp then NJS_UNICODE_REPLACEMENT else cp))"
      have nf: "\<not> (NJS_UNICODE_MAX_CODEPOINT < cp \<and> fatal)" and
        l: "stream_encode_loop fatal c1 p1 ?e = Some (Inr (ctx', dst'))"
        using "1.prems"(2) st ncont by (auto split: if_splits)
      have n1: "need c1 = 0" using sa(1) ncont by simp
      obtain bs where bs: "njs_utf8_encode (if NJS_UNICODE_MAX_CODEPOINT < cp then NJS_UNICODE_REPLACEMENT else cp) = Some bs"
        using encode_le_max[of cp] is_scalar_encode[OF max_cp_consts(3)]
        by (cases "NJS_UNICODE_MAX_CODEPOINT < cp") auto
      have IH: "map_option norm_stream (stream_encode_loop fatal c1 (p1 @ q) ?e) =
          map_option norm_stream (stream_encode_loop fatal ctx' q dst') \<and> stream_ctx ctx'"
        using "1.IH"[OF False d refl refl _ nf bs sa(2)] ncont l bs by simp
      have pq: "p @ q \<noteq> []" using False by simp
      from norm_SomeD[OF sa(5)[OF n1, of q]] obtain c3 where
        d3: "njs_utf8_decode ctx (p @ q) = Some (cp, c3, p1 @ q)" and n: "norm_ctx c3 = norm_ctx c1" .
      have "stream_encode_loop fatal ctx (p @ q) dst = stream_encode_loop fatal c3 (p1 @ q) ?e"
        using stream_encode_step[OF pq d3, of fatal dst] ncont nf by simp
      then show ?thesis using IH stream_encode_ctx[OF n, of fatal "p1 @ q" ?e] by simp
    qed
  qed
qed

lemma stream_encode_dst:
  "stream_encode_loop fatal ctx p dst = map_option (map_sum id (map_prod id ((@) dst))) (stream_encode_loop fatal ctx p [])"
proof (induction "length p + (if need ctx = 0 then 0 else 1) + length p" arbitrary: ctx p dst rule: less_induct)
  case less
  show ?case
  proof (cases "p = []")
    case True
    then show ?thesis by (simp add: stream_encode_loop.simps)
  next
    case False
    then obtain cp a p' where a: "njs_utf8_decode ctx p = Some (cp, a, p')"
      using utf8_decode_answers[OF False] by (metis not_None_eq prod_cases3)
    have lt: "length p' + (if need a = 0 then 0 else 1) + length p' < length p + (if need ctx = 0 then 0 else 1) + length p"
      using utf8_decode_pending[OF a(1) False] by (simp add: pending_def)
    let ?e = "the (njs_utf8_encode (if NJS_UNICODE_MAX_CODEPOINT < cp then NJS_UNICODE_REPLACEMENT else cp))"
    have "map_option (map_sum id (map_prod id ((@) (dst @ ?e)))) x = 
       map_option (map_sum id (map_prod id ((@) dst))) (map_option (map_sum id (map_prod id ((@) ?e))) x)" for x :: "(njs_unicode_decode + njs_unicode_decode \<times> u_char list) option"
      by (cases x) (auto simp: map_sum.compositionality o_def id_def map_prod_def split_def)
    then show ?thesis using less.hyps[OF lt, of "dst @ ?e"] less.hyps[OF lt, of ?e]
      by (simp only: stream_encode_step[OF False a] append_Nil) simp
  qed
qed

subsection \<open>The properties\<close>

definition ctx0 :: njs_unicode_decode where
  "ctx0 = \<lparr>codepoint = 0, need = 0, lower = 0, upper = 0\<rparr>"

text \<open>
  C18. Encoding then decoding: the decoder, started on the bytes that \<open>njs_utf8_encode\<close> wrote for a
  Unicode scalar value, answers that value and stops exactly behind its bytes, with nothing
  pending.
\<close>

theorem utf8_decode_encode:
  assumes "is_scalar u" "need ctx = 0"
  shows "\<exists>bs ctx'. njs_utf8_encode u = Some bs \<and> length bs = njs_utf8_size u \<and>
           njs_utf8_decode ctx (bs @ rest) = Some (u, ctx', rest) \<and> need ctx' = 0"
proof -
  obtain bs where bs: "njs_utf8_encode u = Some bs" using is_scalar_encode[OF assms(1)] by blast
  then show ?thesis using encode_size[OF bs] decode_scalar[OF assms(1) bs assms(2), of rest] by blast
qed

theorem utf8_decode_encode_witness:
  "\<exists>bs ctx'. njs_utf8_encode 0x1F600 = Some bs \<and> length bs = njs_utf8_size 0x1F600 \<and>
           njs_utf8_decode ctx0 (bs @ [0x41]) = Some (0x1F600, ctx', [0x41]) \<and> need ctx' = 0"
  by (rule utf8_decode_encode) (simp_all add: is_scalar_def unicode_consts njs_surrogate_any_def ctx0_def)

text \<open>
  C5. The decoder accepts nothing else: whenever it answers a code point from an idle context, the
  value is a scalar value (no surrogate, at most 10FFFF) and the bytes consumed are exactly its
  encoding, so overlong forms, surrogates and stray bytes are all rejected.
\<close>

theorem utf8_decode_only_canonical:
  assumes "njs_utf8_decode ctx p = Some (cp, ctx', rest)" "cp \<le> NJS_UNICODE_MAX_CODEPOINT" "need ctx = 0"
  shows "is_scalar cp \<and> (\<exists>bs. njs_utf8_encode cp = Some bs \<and> p = bs @ rest)"
  by (rule decode_canonical[OF assms])

theorem utf8_decode_only_canonical_witness:
  "is_scalar 0x20AC \<and> (\<exists>bs. njs_utf8_encode 0x20AC = Some bs \<and> [0xE2, 0x82, 0xAC, 0x41] = bs @ [0x41])"
proof (rule utf8_decode_only_canonical)
  show "njs_utf8_decode ctx0 [0xE2, 0x82, 0xAC, 0x41] = Some (0x20AC, ctx0\<lparr>codepoint := 0x20AC\<rparr>, [0x41])"
    by code_simp
qed (simp_all add: ctx0_def unicode_consts)

text \<open>
  C9. \<open>njs_utf8_is_valid\<close> always answers, and it answers true exactly for the concatenations of
  encodings of scalar values; \<open>njs_utf8_length\<close> then answers their number and otherwise -1.
\<close>

theorem utf8_valid_and_length:
  "njs_utf8_is_valid p = Some (valid_utf8 p) \<and>
   (list_all is_scalar us \<longrightarrow> njs_utf8_length (encode_all us) = Some (Inr (length us))) \<and>
   (\<not> valid_utf8 p \<longrightarrow> njs_utf8_length p = Some (Inl ()))"
  using is_valid_loop_iff[of "\<lparr>codepoint = 0, need = 0, lower = 0, upper = 0\<rparr>" p] utf8_length_text[of us] utf8_length_invalid[of p]
  by (simp add: njs_utf8_is_valid_def)

theorem utf8_valid_and_length_witness:
  "njs_utf8_is_valid [0xC3, 0x28] = Some (valid_utf8 [0xC3, 0x28]) \<and> \<not> valid_utf8 [0xC3, 0x28] \<and>
   njs_utf8_length (encode_all [0x41, 0x20AC]) = Some (Inr 2) \<and> njs_utf8_length [0xC3, 0x28] = Some (Inl ())"
proof -
  have s: "list_all is_scalar [0x41, 0x20AC]" by (simp add: is_scalar_def unicode_consts njs_surrogate_any_def)
  note t = utf8_valid_and_length[of "[0xC3, 0x28]" "[0x41, 0x20AC]"]
  have "njs_utf8_is_valid [0xC3, 0x28] = Some False" by code_simp
  then have "\<not> valid_utf8 [0xC3, 0x28]" using t by simp
  then show ?thesis using t s by simp
qed

text \<open>
  The two passes over a stream agree: \<open>njs_utf8_stream_length\<close>, which the callers use to size
  the buffer, always answers; when it answers -1 the encoder fails too, and otherwise
  \<open>njs_utf8_stream_encode\<close> writes exactly the announced number of bytes and leaves the same
  context.
\<close>

theorem utf8_stream_size:
  "case njs_utf8_stream_length ctx p is_last fatal of
     None \<Rightarrow> False
   | Some (Inl c) \<Rightarrow> njs_utf8_stream_encode ctx p is_last fatal = Some (Inl c)
   | Some (Inr (c, len, osize)) \<Rightarrow>
       (\<exists>dst. njs_utf8_stream_encode ctx p is_last fatal = Some (Inr (c, dst)) \<and> length dst = osize)"
proof -
  obtain rb where rb: "njs_utf8_encode NJS_UNICODE_REPLACEMENT = Some rb"
    using is_scalar_encode max_cp_consts(3) by blast
  note agree = stream_loops_agree[where fatal = fatal and ctx = ctx and p = p and len = 0 and osize = 0 and dst = "[]"]
  show ?thesis
  proof (cases "stream_length_loop fatal ctx p 0 0")
    case None
    then show ?thesis using agree by simp
  next
    case (Some r)
    show ?thesis
    proof (cases r)
      case (Inl c)
      then show ?thesis using agree Some
        by (simp add: njs_utf8_stream_length_def njs_utf8_stream_encode_def)
    next
      case (Inr t)
      obtain c len osize where t: "t = (c, len, osize)" by (cases t)
      with agree Some Inr obtain dst where "stream_encode_loop fatal ctx p [] = Some (Inr (c, dst))" "osize = length dst"
        by auto
      then show ?thesis using Some Inr t rb encode_size[OF rb]
        by (cases "is_last \<and> need c \<noteq> 0"; cases fatal)
           (auto simp: njs_utf8_stream_length_def njs_utf8_stream_encode_def)
    qed
  qed
qed

text \<open>
  C13. Decoding a stream in chunks: after a chunk \<open>p\<close> that is not the last one, encoding the next
  chunk \<open>q\<close> with the context that the first call left gives exactly what one call on \<open>p\<close> followed
  by \<open>q\<close> gives, wherever the boundary cuts a character.  The contexts agree in every field
  that a later call reads.
\<close>

theorem utf8_stream_chunks:
  assumes "stream_ctx ctx" "njs_utf8_stream_encode ctx p False fatal = Some (Inr (ctx', dst))"
  shows "stream_ctx ctx' \<and>
    map_option norm_stream (njs_utf8_stream_encode ctx (p @ q) is_last fatal) =
    map_option (norm_stream \<circ> map_sum id (map_prod id ((@) dst))) (njs_utf8_stream_encode ctx' q is_last fatal)"
proof -
  have l: "stream_encode_loop fatal ctx p [] = Some (Inr (ctx', dst))"
    using assms(2) by (auto simp: njs_utf8_stream_encode_def split: option.splits sum.splits)
  note c = stream_encode_chunk[OF assms(1) l, of q]
  obtain rb where rb: "njs_utf8_encode NJS_UNICODE_REPLACEMENT = Some rb"
    using is_scalar_encode max_cp_consts(3) by blast
  have e: "map_option norm_stream (stream_encode_loop fatal ctx (p @ q) []) =
     map_option norm_stream (map_option (map_sum id (map_prod id ((@) dst))) (stream_encode_loop fatal ctx' q []))"
    using c stream_encode_dst[of fatal ctx' q dst] by simp
  show ?thesis
  proof (cases "stream_encode_loop fatal ctx' q []")
    case None
    then show ?thesis using c e by (simp add: njs_utf8_stream_encode_def)
  next
    case (Some r)
    with e obtain r' where r': "stream_encode_loop fatal ctx (p @ q) [] = Some r'"
      "norm_stream r' = norm_stream (map_sum id (map_prod id ((@) dst)) r)" by auto
    have sc: "stream_ctx ctx'" using c by simp
    show ?thesis
    proof (cases r)
      case (Inl a)
      then obtain b where "r' = Inl b" "norm_ctx b = norm_ctx a" using r'(2) by (cases r') (auto simp: norm_stream_def)
      then show ?thesis using sc r'(1) Some Inl by (simp add: njs_utf8_stream_encode_def norm_stream_def)
    next
      case (Inr t)
      obtain a d where t: "t = (a, d)" by (cases t)
      then obtain b where b: "r' = Inr (b, dst @ d)" "norm_ctx b = norm_ctx a"
        using r'(2) Inr by (cases r') (auto simp: norm_stream_def)
      have "need b = need a" using norm_ctx_eqD[OF b(2)] by simp
      then show ?thesis using sc r'(1) Some Inr t b rb by (simp add: njs_utf8_stream_encode_def norm_stream_def)
    qed
  qed
qed

theorem utf8_stream_chunks_witness:
  "stream_ctx ctx0 \<and>
   map_option norm_stream (njs_utf8_stream_encode ctx0 ([0x41, 0xE2, 0x82] @ [0xAC]) True False) =
   Some (Inr (ctx0\<lparr>codepoint := 0x20AC\<rparr>, [0x41, 0xE2, 0x82, 0xAC]))"
proof -
  have 1: "stream_ctx ctx0" by (simp add: stream_ctx_def idle_def ctx0_def)
  have 2: "njs_utf8_stream_encode ctx0 [0x41, 0xE2, 0x82] False False =
      Some (Inr (ctx0\<lparr>codepoint := 0x82, need := 1\<rparr>, [0x41]))" by code_simp
  have 3: "njs_utf8_stream_encode (ctx0\<lparr>codepoint := 0x82, need := 1\<rparr>) [0xAC] True False =
      Some (Inr (ctx0\<lparr>codepoint := 0x20AC\<rparr>, [0xE2, 0x82, 0xAC]))" by code_simp
  show ?thesis using utf8_stream_chunks[OF 1 2, of "[0xAC]" True] 1 3 by (simp add: norm_stream_def norm_ctx_def ctx0_def)
qed

text \<open>
  The error exit of \<open>njs_utf8_casecmp\<close> is dead: invalid bytes decode to the error code of the
  decoder, not to the all-ones value that the comparison tests, so two different strings of
  invalid lead bytes compare as equal as long as the tables leave the error code alone.
\<close>

theorem casecmp_invalid_bytes_equal:
  assumes "max_case tabs < NJS_UNICODE_ERROR" "0xF5 \<le> b" "0xF5 \<le> c"
  shows "njs_utf8_casecmp tabs [b] [c] = Some 0"
proof -
  have l: "njs_utf8_lower_case tabs [x] = Some (NJS_UNICODE_ERROR, [])" if "0xF5 \<le> x" for x
  proof -
    have "\<not> x < 0x80" "\<not> x \<le> 0xDF" "\<not> x < 0xF0" "\<not> x < 0xF5" using that by (simp_all add: word_nat_cmp)
    moreover have "\<not> NJS_UNICODE_ERROR \<le> max_case tabs" using assms(1) by (simp add: not_le)
    ultimately show ?thesis by (simp add: njs_utf8_lower_case_def njs_utf8_decode_def)
  qed
  show ?thesis unfolding njs_utf8_casecmp.simps[of tabs "[b]"] l[OF assms(2)] l[OF assms(3)]
    by (simp add: njs_utf8_casecmp.simps[of tabs "[]"] unicode_consts)
qed

theorem casecmp_invalid_bytes_equal_witness:
  "njs_utf8_casecmp \<lparr>block_000 = [], blocks = (\<lambda>_. None), block_size = 128, max_case = 0x1E943\<rparr> [0xFF] [0xFE] = Some 0"
  by (rule casecmp_invalid_bytes_equal) (simp_all add: unicode_consts)

end
