(* ===== verification/Njs_Utf16.thy ===== *)
theory Njs_Utf16
  imports Njs_Utf8
begin

section \<open>UTF-16 and String.fromCharCode (src/src/njs_utf16.c, njs_string.c)\<close>

text \<open>
  The UTF-16 codec on scalar values and on split units, and its client
  \<open>njs_string_from_char_code\<close>, which builds a UTF-8 string from code units.
\<close>

lemma unat_utf16_unit:
  "unat (push_bit 8 (ucast (b :: u_char)) + ucast (a :: u_char) :: uint32) = unat b * 256 + unat a"
proof -
  have "unat a < 256" "unat b < 256" using unsigned_less[of a] unsigned_less[of b] by simp_all
  then show ?thesis
    by (simp add: unat_word_ariths unat_byte_ucast push_bit_eq_mult unat_mult_lem)
qed

lemma utf16_unit_write:
  assumes "cp < 0x10000"
  shows "push_bit 8 (ucast (njs_utf16_encode_write cp ! 1)) + ucast (njs_utf16_encode_write cp ! 0) = cp"
proof -
  have "unat cp < 0x10000" using assms by (simp add: word_less_nat_alt)
  then have "unat (push_bit 8 (ucast (njs_utf16_encode_write cp ! 1)) + ucast (njs_utf16_encode_write cp ! 0) :: uint32) = unat cp"
    unfolding unat_utf16_unit by (simp add: njs_utf16_encode_write_def unat_bits unat_ucast_byte)
  then show ?thesis by (simp only: word_unat_eq_iff)
qed

lemma surrogate_unat:
  "njs_surrogate_any cp \<longleftrightarrow> 0xD800 \<le> unat cp \<and> unat cp \<le> 0xDFFF"
  "njs_surrogate_trailing cp \<longleftrightarrow> 0xDC00 \<le> unat cp \<and> unat cp \<le> 0xDFFF"
  unfolding njs_surrogate_any_def njs_surrogate_trailing_def by (unat_arith; simp)+


text \<open>The surrogate pair of a code point beyond the basic plane.\<close>

definition high_unit :: "uint32 \<Rightarrow> uint32" where
  "high_unit u = 0xD800 OR drop_bit 10 (u - 0x10000)"

definition low_unit :: "uint32 \<Rightarrow> uint32" where
  "low_unit u = 0xDC00 OR ((u - 0x10000) AND 0x03FF)"

definition utf16_units :: "uint32 \<Rightarrow> uint32 list" where
  "utf16_units u = (if u < 0x10000 then [u] else [high_unit u, low_unit u])"

lemma plane_mod: "0x10000 \<le> n \<Longrightarrow> (n - 0x10000) mod 1024 = (n :: nat) mod 1024"
proof -
  assume "0x10000 \<le> n"
  then have "n = (n - 0x10000) + 64 * 1024" by simp
  then show ?thesis by (metis mod_mult_self3 add.commute)
qed

lemma unat_units:
  assumes "0x10000 \<le> u" "u < 0x110000"
  shows "unat (high_unit u) = 0xD800 + (unat u - 0x10000) div 1024"
    "unat (low_unit u) = 0xDC00 + unat u mod 1024"
    "unat (high_unit u) < 0xDC00" "unat (low_unit u) \<le> 0xDFFF"
proof -
  have u: "0x10000 \<le> unat u" "unat u < 0x110000" using assms by (simp_all add: word_nat_cmp)
  have s: "unat (u - 0x10000) = unat u - 0x10000" using assms(1) by (simp add: unat_sub)
  have d: "(unat u - 0x10000) div 1024 < 1024" using u by linarith
  note m = plane_mod[OF u(1)]
  show h: "unat (high_unit u) = 0xD800 + (unat u - 0x10000) div 1024"
    using d by (simp add: high_unit_def unsigned_or_eq unat_drop s nat_ors)
  show l: "unat (low_unit u) = 0xDC00 + unat u mod 1024"
    by (simp add: low_unit_def unsigned_or_eq unsigned_and_eq nat_masks s nat_ors m)
  show "unat (high_unit u) < 0xDC00" using h d by simp
  have "unat u mod 1024 < 1024" by simp
  then show "unat (low_unit u) \<le> 0xDFFF" using l by linarith
qed

lemma unat_push10: "unat x * 1024 \<le> 1048575 \<Longrightarrow> unat (push_bit 10 (x :: uint32)) = unat x * 1024"
  by (simp add: push_bit_eq_mult unat_word_ariths mult.commute)

lemma unat_add3:
  "unat a + unat b + unat c < 2 ^ 32 \<Longrightarrow> unat (a + b + c :: uint32) = unat a + unat b + unat c"
  by (simp add: unat_word_ariths)

lemma unit_pair:
  assumes "0x10000 \<le> u" "u < 0x110000"
  shows "njs_surrogate_pair (high_unit u) (low_unit u) = u"
proof -
  let ?h = "(unat u - 0x10000) div 1024" and ?l = "unat u mod 1024"
  have u: "0x10000 \<le> unat u" "unat u < 0x110000" using assms by (simp_all add: word_nat_cmp)
  have h: "unat (high_unit u - 0xD800) = ?h"
    using unat_units(1)[OF assms] by (simp add: unat_sub word_nat_cmp)
  have l: "unat (low_unit u - 0xDC00) = ?l"
    using unat_units(2)[OF assms] by (simp add: unat_sub word_nat_cmp)
  have dm: "?h * 1024 + ?l = unat u - 0x10000"
  proof -
    have "(unat u - 0x10000) mod 1024 = ?l" by (rule plane_mod[OF u(1)])
    then show ?thesis using div_mult_mod_eq[of "unat u - 0x10000" 1024] by simp
  qed
  have b: "?h * 1024 \<le> 1048575" "?l < 1024" using u by linarith+
  have "unat (push_bit 10 (high_unit u - 0xD800)) = ?h * 1024"
    using b h unat_push10[of "high_unit u - 0xD800"] by simp
  then have "unat (njs_surrogate_pair (high_unit u) (low_unit u)) = 0x10000 + ?h * 1024 + ?l"
    using b unat_add3[of "0x10000" "push_bit 10 (high_unit u - 0xD800)" "low_unit u - 0xDC00"]
    unfolding njs_surrogate_pair_def l by simp
  then have "unat (njs_surrogate_pair (high_unit u) (low_unit u)) = unat u" using dm u by linarith
  then show ?thesis by (simp only: word_unat_eq_iff)
qed

lemma write_bytes: "njs_utf16_encode_write cp = [a, b] \<longleftrightarrow> a = ucast (cp AND 0xFF) \<and> b = ucast (drop_bit 8 cp)"
  by (auto simp: njs_utf16_encode_write_def)

lemma decode_unit:
  assumes "unat cp < 0x10000" "upper ctx = 0"
  shows "njs_utf16_decode ctx (njs_utf16_encode_write cp @ rest) =
     (if codepoint ctx \<noteq> 0 then
        (if njs_surrogate_trailing cp then
           Some (njs_surrogate_pair (codepoint ctx) cp, ctx\<lparr>codepoint := 0\<rparr>, rest)
         else Some (NJS_UNICODE_ERROR, ctx\<lparr>upper := ucast cp + 1, codepoint := 0\<rparr>, ucast (drop_bit 8 cp) # rest))
      else if njs_surrogate_any cp then
        (if njs_surrogate_trailing cp then Some (NJS_UNICODE_ERROR, ctx, rest)
         else if rest = [] then Some (NJS_UNICODE_CONTINUE, ctx\<lparr>codepoint := cp\<rparr>, [])
         else utf16_pair_state (ctx\<lparr>codepoint := cp\<rparr>) rest)
      else Some (cp, ctx, rest))"
proof -
  have u: "push_bit 8 (ucast (ucast (drop_bit 8 cp) :: u_char)) + ucast (ucast (cp AND 0xFF) :: u_char) = cp"
    using utf16_unit_write[of cp] assms(1) by (simp add: njs_utf16_encode_write_def word_nat_cmp)
  have c: "(ucast (cp AND 0xFF) :: u_char) = ucast cp"
    by (rule word_unat_eq_iff[THEN iffD2]) (simp add: unat_bits unat_ucast_byte)
  show ?thesis
    using assms(2) u c by (simp add: njs_utf16_decode_def njs_utf16_encode_write_def utf16_pair_state.simps[of ctx]
        utf16_lead_state.simps Let_def)
qed

lemma utf16_scalar_roundtrip:
  assumes "is_scalar u" "upper ctx = 0" "codepoint ctx = 0" "4 \<le> room"
  shows "\<exists>bs. njs_utf16_encode u room = Some bs \<and> length bs = 2 * length (utf16_units u) \<and> njs_utf16_decode ctx (bs @ rest) = Some (u, ctx, rest)"
proof -
  have s: "unat u < 0x110000" "\<not> njs_surrogate_any u" using assms(1) by (auto simp: is_scalar_unat surrogate_unat)
  show ?thesis
  proof (cases "u < 0x10000")
    case True
    then have "unat u < 0x10000" by (simp add: word_nat_cmp)
    from decode_unit[OF this assms(2), of rest] show ?thesis using True assms(3,4) s(2)
      by (auto simp: njs_utf16_encode_def utf16_units_def njs_utf16_encode_write_def)
  next
    case False
    then have u: "0x10000 \<le> u" "u < 0x110000" using s(1) by (simp_all add: not_less word_nat_cmp)
    note w = unat_units[OF u]
    have h: "unat (high_unit u) < 0x10000" "njs_surrogate_any (high_unit u)" "\<not> njs_surrogate_trailing (high_unit u)"
        "high_unit u \<noteq> 0"
      using w by (auto simp: surrogate_unat word_unat_eq_iff)
    have l: "unat (low_unit u) < 0x10000" "njs_surrogate_trailing (low_unit u)"
      using w by (auto simp: surrogate_unat)
    let ?c = "ctx\<lparr>codepoint := high_unit u\<rparr>"
    have "njs_utf16_decode ctx (njs_utf16_encode_write (high_unit u) @ njs_utf16_encode_write (low_unit u) @ rest) =
       njs_utf16_decode ?c (njs_utf16_encode_write (low_unit u) @ rest)"
      unfolding decode_unit[OF h(1) assms(2)] using h assms(2,3) by (simp add: njs_utf16_decode_def njs_utf16_encode_write_def)
    also have "\<dots> = Some (u, ctx, rest)"
      using decode_unit[OF l(1), of ?c rest] l(2) h(4) assms(2,3) unit_pair[OF u] by simp
    finally show ?thesis using False assms(4) u
      by (auto simp: njs_utf16_encode_def utf16_units_def Let_def high_unit_def low_unit_def njs_utf16_encode_write_def)
  qed
qed

subsection \<open>String.fromCharCode\<close>

text \<open>
  The two passes of \<open>njs_string_from_char_code\<close> over the converted arguments: the first computes
  the size and the length of the result, the second writes it.  Each argument goes through a
  four byte buffer of its own; what the decoder leaves in the buffer is dropped.
\<close>

definition code_unit_step :: "njs_unicode_decode \<Rightarrow> uint32 \<Rightarrow> (uint32 \<times> njs_unicode_decode) option" where
  "code_unit_step ctx code =
     (case njs_utf16_encode code 4 of
        None \<Rightarrow> None
      | Some buf \<Rightarrow> map_option (\<lambda>(cp, ctx', _). (cp, ctx')) (njs_utf16_decode ctx buf))"

fun char_code_size :: "njs_unicode_decode \<Rightarrow> uint32 \<Rightarrow> nat \<Rightarrow> nat \<Rightarrow> uint32 list \<Rightarrow> (nat \<times> nat) option" where
  "char_code_size ctx cp sz len [] =
     Some (if cp = NJS_UNICODE_CONTINUE then (sz + njs_utf8_size NJS_UNICODE_REPLACEMENT, len + 1) else (sz, len))"
| "char_code_size ctx cp sz len (code # codes) =
     (case code_unit_step ctx code of
        None \<Rightarrow> None
      | Some (cp', ctx') \<Rightarrow>
          (if NJS_UNICODE_MAX_CODEPOINT < cp' then
             (if cp' = NJS_UNICODE_CONTINUE then char_code_size ctx' cp' sz len codes
              else char_code_size ctx' NJS_UNICODE_REPLACEMENT
                     (sz + njs_utf8_size NJS_UNICODE_REPLACEMENT) (len + 1) codes)
           else char_code_size ctx' cp' (sz + njs_utf8_size cp') (len + 1) codes))"

fun char_code_write :: "njs_unicode_decode \<Rightarrow> u_char list \<Rightarrow> uint32 list \<Rightarrow> u_char list option" where
  "char_code_write ctx p [] = Some p"
| "char_code_write ctx p (code # codes) =
     (case code_unit_step ctx code of
        None \<Rightarrow> None
      | Some (cp, ctx') \<Rightarrow>
          (if NJS_UNICODE_MAX_CODEPOINT < cp \<and> cp = NJS_UNICODE_CONTINUE \<and> codes \<noteq> []
           then char_code_write ctx' p codes
           else
             (case njs_utf8_encode (if NJS_UNICODE_MAX_CODEPOINT < cp then NJS_UNICODE_REPLACEMENT else cp) of
                None \<Rightarrow> None
              | Some bytes \<Rightarrow> char_code_write ctx' (p @ bytes) codes)))"

text \<open>The size and length passed to \<open>njs_string_alloc\<close>, and the bytes written.\<close>

definition njs_string_from_char_code :: "uint32 list \<Rightarrow> ((nat \<times> nat) \<times> u_char list) option" where
  "njs_string_from_char_code codes =
     (let ctx = njs_utf16_decode_init \<lparr>codepoint = 0, need = 0, lower = 0, upper = 0\<rparr>
      in case (char_code_size ctx 0 0 0 codes, char_code_write ctx [] codes) of
           (Some sl, Some p) \<Rightarrow> Some (sl, p)
         | _ \<Rightarrow> None)"

lemma utf16_states_answer:
  "(start \<noteq> [] \<longrightarrow> utf16_pair_state ctx start \<noteq> None)"
  "(start \<noteq> [] \<longrightarrow> utf16_lead_state ctx lead start \<noteq> None)"
proof (induction ctx start and ctx lead start rule: utf16_pair_state_utf16_lead_state.induct)
  case (1 ctx start)
  then show ?case by (cases start) (simp_all add: utf16_pair_state.simps del: not_None_eq)
next
  case (2 ctx lead start)
  then show ?case by (cases start) (simp_all add: utf16_lead_state.simps Let_def del: not_None_eq)
qed

lemma utf16_encode_answers: "\<exists>a bs. njs_utf16_encode code 4 = Some (a # bs)"
  by (simp add: njs_utf16_encode_def njs_utf16_encode_write_def Let_def)

lemma code_unit_step_answers: "\<exists>cp ctx'. code_unit_step ctx code = Some (cp, ctx')"
proof -
  obtain a bs where e: "njs_utf16_encode code 4 = Some (a # bs)" using utf16_encode_answers by blast
  then have "njs_utf16_decode ctx (a # bs) \<noteq> None"
    using utf16_states_answer[of "a # bs"] by (simp add: njs_utf16_decode_def del: not_None_eq)
  then show ?thesis using e by (auto simp: code_unit_step_def)
qed

lemma char_code_passes:
  "\<exists>bytes n. char_code_write ctx p codes = Some (p @ bytes) \<and>
     (codes = [] \<and> bytes = [] \<or>
      codes \<noteq> [] \<and> char_code_size ctx cp sz len codes = Some (sz + length bytes, len + n))"
proof (induction codes arbitrary: ctx p cp sz len)
  case Nil
  then show ?case by simp
next
  case (Cons code codes)
  obtain u ctx' where u: "code_unit_step ctx code = Some (u, ctx')" using code_unit_step_answers by blast
  define v where "v = (if NJS_UNICODE_MAX_CODEPOINT < u then NJS_UNICODE_REPLACEMENT else u)"
  obtain bs where bs: "njs_utf8_encode v = Some bs"
    using encode_le_max[of u] is_scalar_encode[OF max_cp_consts(3)] unfolding v_def
    by (cases "NJS_UNICODE_MAX_CODEPOINT < u") auto
  show ?case
  proof (cases "u = NJS_UNICODE_CONTINUE \<and> codes \<noteq> []")
    case True
    with Cons.IH[of ctx' p u sz len] u show ?thesis using max_cp_consts(2) by auto
  next
    case False
    from Cons.IH[of ctx' "p @ bs" v "sz + length bs" "len + 1"] obtain bytes n where
      ih: "char_code_write ctx' (p @ bs) codes = Some (p @ bs @ bytes)"
      "codes = [] \<and> bytes = [] \<or> codes \<noteq> [] \<and>
         char_code_size ctx' v (sz + length bs) (len + 1) codes = Some (sz + length bs + length bytes, len + 1 + n)"
      by auto
    have w: "char_code_write ctx p (code # codes) = Some (p @ (bs @ bytes))"
      using u False bs ih(1) by (auto simp: v_def)
    have z: "char_code_size ctx cp sz len (code # codes) =
        (if u = NJS_UNICODE_CONTINUE then char_code_size ctx' u sz len codes
         else char_code_size ctx' v (sz + length bs) (len + 1) codes)"
      using u encode_size[OF bs] max_cp_consts(2) by (auto simp: v_def)
    have rv: "v \<noteq> NJS_UNICODE_CONTINUE" using max_cp_consts(2) by (auto simp: v_def unicode_consts)
    have "\<exists>n. char_code_size ctx cp sz len (code # codes) = Some (sz + length (bs @ bytes), len + n)"
      using z ih(2) False rv encode_size[OF bs] max_cp_consts(2)
      by (cases "u = NJS_UNICODE_CONTINUE") (auto simp: v_def intro: exI[of _ 1] exI[of _ "1 + n"])
    then show ?thesis using w by blast
  qed
qed

lemma step_unit:
  assumes "unat cp < 0x10000" "upper ctx = 0" "codepoint ctx = 0" "\<not> njs_surrogate_any cp"
  shows "code_unit_step ctx cp = Some (cp, ctx)"
  using decode_unit[OF assms(1,2), of "[]"] assms
  by (simp add: code_unit_step_def njs_utf16_encode_def word_nat_cmp)

lemma step_high:
  assumes "unat cp < 0x10000" "upper ctx = 0" "codepoint ctx = 0" "njs_surrogate_any cp" "\<not> njs_surrogate_trailing cp"
  shows "code_unit_step ctx cp = Some (NJS_UNICODE_CONTINUE, ctx\<lparr>codepoint := cp\<rparr>)"
  using decode_unit[OF assms(1,2), of "[]"] assms
  by (simp add: code_unit_step_def njs_utf16_encode_def word_nat_cmp)

lemma step_low:
  assumes "unat cp < 0x10000" "upper ctx = 0" "codepoint ctx \<noteq> 0" "njs_surrogate_trailing cp"
  shows "code_unit_step ctx cp = Some (njs_surrogate_pair (codepoint ctx) cp, ctx\<lparr>codepoint := 0\<rparr>)"
  using decode_unit[OF assms(1,2), of "[]"] assms
  by (simp add: code_unit_step_def njs_utf16_encode_def word_nat_cmp)

lemma char_code_text:
  assumes "list_all is_scalar us" "upper ctx = 0" "codepoint ctx = 0"
  shows "char_code_write ctx p (concat (map utf16_units us)) = Some (p @ encode_all us) \<and>
    (cp \<noteq> NJS_UNICODE_CONTINUE \<longrightarrow>
      char_code_size ctx cp sz len (concat (map utf16_units us)) = Some (sz + length (encode_all us), len + length us))"
  using assms
proof (induction us arbitrary: ctx p cp sz len)
  case Nil
  then show ?case by simp
next
  case (Cons u us)
  obtain bs where bs: "njs_utf8_encode u = Some bs" using Cons.prems(1) is_scalar_encode by auto
  have s: "unat u < 0x110000" "\<not> njs_surrogate_any u" "\<not> NJS_UNICODE_MAX_CODEPOINT < u" "u \<noteq> NJS_UNICODE_CONTINUE"
    using Cons.prems(1) by (auto simp: is_scalar_unat surrogate_unat unicode_consts word_nat_cmp)
  note ih = Cons.IH[of ctx "p @ bs" u "sz + length bs" "len + 1"]
  show ?case
  proof (cases "u < 0x10000")
    case True
    then have "unat u < 0x10000" by (simp add: word_nat_cmp)
    note st = step_unit[OF this Cons.prems(2,3) s(2)]
    show ?thesis using True Cons.prems ih st s bs encode_size[OF bs] by (simp add: utf16_units_def)
  next
    case False
    then have u: "0x10000 \<le> u" "u < 0x110000" using s(1) by (simp_all add: not_less word_nat_cmp)
    note w = unat_units[OF u]
    have h: "unat (high_unit u) < 0x10000" "njs_surrogate_any (high_unit u)" "\<not> njs_surrogate_trailing (high_unit u)"
        "high_unit u \<noteq> 0" using w by (auto simp: surrogate_unat word_unat_eq_iff)
    have l: "unat (low_unit u) < 0x10000" "njs_surrogate_trailing (low_unit u)" using w by (auto simp: surrogate_unat)
    have st: "code_unit_step ctx (high_unit u) = Some (NJS_UNICODE_CONTINUE, ctx\<lparr>codepoint := high_unit u\<rparr>)"
      by (rule step_high[OF h(1) Cons.prems(2,3) h(2,3)])
    have st2: "code_unit_step (ctx\<lparr>codepoint := high_unit u\<rparr>) (low_unit u) = Some (u, ctx)"
      using step_low[OF l(1), of "ctx\<lparr>codepoint := high_unit u\<rparr>"] l(2) h(4) Cons.prems(2,3) unit_pair[OF u] by simp
    show ?thesis using False Cons.prems ih st st2 s bs encode_size[OF bs] max_cp_consts(2) by (simp add: utf16_units_def)
  qed
qed

subsection \<open>The properties\<close>

text \<open>
  A Unicode scalar value written by \<open>njs_utf16_encode\<close> (two or four bytes, a surrogate pair
  beyond the basic plane) is read back by \<open>njs_utf16_decode\<close>, which stops behind its bytes and
  leaves the context as it was.
\<close>

theorem utf16_decode_encode:
  assumes "is_scalar u" "upper ctx = 0" "codepoint ctx = 0" "4 \<le> room"
  shows "\<exists>bs. njs_utf16_encode u room = Some bs \<and> length bs = 2 * length (utf16_units u) \<and>
           njs_utf16_decode ctx (bs @ rest) = Some (u, ctx, rest)"
  by (rule utf16_scalar_roundtrip[OF assms])

theorem utf16_decode_encode_witness:
  "\<exists>bs. njs_utf16_encode 0x1F4A9 4 = Some bs \<and> length bs = 2 * length (utf16_units 0x1F4A9) \<and>
     njs_utf16_decode \<lparr>codepoint = 0, need = 0, lower = 0, upper = 0\<rparr> (bs @ [0x41, 0]) =
       Some (0x1F4A9, \<lparr>codepoint = 0, need = 0, lower = 0, upper = 0\<rparr>, [0x41, 0])"
  by (rule utf16_decode_encode) (simp_all add: is_scalar_def unicode_consts njs_surrogate_any_def)

text \<open>
  A UTF-16 unit cut by a chunk boundary: after a chunk that ends in its low byte the decoder
  asks for more and then decodes the unit as if it had arrived whole, unless the low byte is FF:
  the context keeps the byte plus one in eight bits, the sum wraps to zero, the context is as it
  was before the chunk and the byte is lost.
\<close>

theorem utf16_split_unit:
  assumes "upper ctx = 0"
  shows "\<exists>ctx'. njs_utf16_decode ctx [a] = Some (NJS_UNICODE_CONTINUE, ctx', []) \<and>
     (if a = 0xFF then ctx' = ctx
      else njs_utf16_decode ctx' (b # rest) = njs_utf16_decode ctx (a # b # rest))"
proof -
  have "a \<noteq> 0xFF \<Longrightarrow> a + 1 \<noteq> 0" using eq_neg_iff_add_eq_0[of a 1] by auto
  moreover have u: "ctx\<lparr>upper := 0\<rparr> = ctx" using assms by simp
  ultimately show ?thesis using assms
    by (simp add: njs_utf16_decode_def utf16_pair_state.simps u)
qed

theorem utf16_split_unit_witness:
  "\<exists>ctx'. njs_utf16_decode (njs_utf16_decode_init \<lparr>codepoint = 5, need = 0, lower = 0, upper = 3\<rparr>) [0xAC] =
       Some (NJS_UNICODE_CONTINUE, ctx', []) \<and>
     njs_utf16_decode ctx' [0x20] =
       njs_utf16_decode (njs_utf16_decode_init \<lparr>codepoint = 5, need = 0, lower = 0, upper = 3\<rparr>) [0xAC, 0x20]"
  using utf16_split_unit[of "njs_utf16_decode_init \<lparr>codepoint = 5, need = 0, lower = 0, upper = 3\<rparr>" "0xAC" "0x20" "[]"]
  by (simp add: njs_utf16_decode_init_def)

text \<open>
  C12. \<open>String.fromCharCode\<close> and \<open>String.fromCodePoint\<close> on well-formed text: for the code units of
  any sequence of scalar values (surrogate pairs beyond the basic plane) the result is the UTF-8
  encoding of the sequence, and its length is the number of characters.
\<close>

theorem from_char_code_text:
  assumes "list_all is_scalar us"
  shows "njs_string_from_char_code (concat (map utf16_units us)) =
    Some ((length (encode_all us), length us), encode_all us)"
  using char_code_text[OF assms, of "njs_utf16_decode_init \<lparr>codepoint = 0, need = 0, lower = 0, upper = 0\<rparr>" "[]" 0 0 0]
  by (simp add: njs_string_from_char_code_def njs_utf16_decode_init_def unicode_consts)

theorem from_char_code_text_witness:
  "njs_string_from_char_code (concat (map utf16_units [0x41, 0x1F4A9])) =
    Some ((length (encode_all [0x41, 0x1F4A9]), 2), encode_all [0x41, 0x1F4A9])"
  using from_char_code_text[of "[0x41, 0x1F4A9]"]
  by (simp add: is_scalar_def unicode_consts njs_surrogate_any_def)

text \<open>
  Memory safety of \<open>njs_string_from_char_code\<close>: for every sequence of codes, lone surrogates
  included, the second pass writes exactly as many bytes as the first pass allocates.
\<close>

theorem from_char_code_fits:
  "\<exists>size len p. njs_string_from_char_code codes = Some ((size, len), p) \<and> length p = size"
  using char_code_passes[of "njs_utf16_decode_init \<lparr>codepoint = 0, need = 0, lower = 0, upper = 0\<rparr>" "[]" codes 0 0 0]
  by (auto simp: njs_string_from_char_code_def unicode_consts)

text \<open>
  A lone high surrogate corrupts the text behind it: the decoder gives back the high byte of
  the following unit by moving \<open>start\<close>, but the caller resets \<open>start\<close> for each argument, so the
  low byte of that unit is glued to the low byte of the next.  \<open>String.fromCharCode(0xD800,
  0x41, 0x42)\<close> is U+FFFD U+4241 instead of U+FFFD followed by AB.
\<close>

theorem from_char_code_lone_surrogate:
  "njs_string_from_char_code [0xD800, 0x41, 0x42] = Some ((6, 2), encode_all [0xFFFD, 0x4241])"
  by code_simp

end
