(* ===== verification/Njs_Hash.thy ===== *)
theory Njs_Hash
  imports Njs_Prelude
begin

section \<open>Hash functions (src/src/njs_djb_hash.c, njs_murmur_hash.c)\<close>

text \<open>
  The string hash of the atom and object tables and the MurmurHash2 variants.  Data is the list
  of its bytes, a hash a 32-bit word whose arithmetic wraps.
\<close>

definition njs_lower_case :: "u_char \<Rightarrow> u_char" where
  "njs_lower_case c = (if 65 \<le> c \<and> c \<le> 90 then c OR 0x20 else c)"

definition njs_upper_case :: "u_char \<Rightarrow> u_char" where
  "njs_upper_case c = (if 97 \<le> c \<and> c \<le> 122 then c AND 0xDF else c)"

definition NJS_DJB_HASH_INIT :: uint32 where "NJS_DJB_HASH_INIT = 5381"

definition njs_djb_hash_add :: "uint32 \<Rightarrow> u_char \<Rightarrow> uint32" where
  "njs_djb_hash_add hash val = (push_bit 5 hash + hash) XOR ucast val"

definition njs_djb_hash :: "u_char list \<Rightarrow> uint32" where
  "njs_djb_hash data = foldl njs_djb_hash_add NJS_DJB_HASH_INIT data"

definition njs_djb_hash_lowcase :: "u_char list \<Rightarrow> uint32" where
  "njs_djb_hash_lowcase data =
     foldl (\<lambda>hash c. njs_djb_hash_add hash (njs_lower_case c)) NJS_DJB_HASH_INIT data"

definition murmur_m :: uint32 where "murmur_m = 0x5bd1e995"

text \<open>Four bytes, little endian.\<close>

definition murmur_word :: "u_char \<Rightarrow> u_char \<Rightarrow> u_char \<Rightarrow> u_char \<Rightarrow> uint32" where
  "murmur_word a b c d =
     ucast a OR push_bit 8 (ucast b) OR push_bit 16 (ucast c) OR push_bit 24 (ucast d)"

definition murmur_mix :: "uint32 \<Rightarrow> uint32" where
  "murmur_mix k = (let k = k * murmur_m; k = k XOR drop_bit 24 k in k * murmur_m)"

definition murmur_final :: "uint32 \<Rightarrow> uint32" where
  "murmur_final h = (let h = h XOR drop_bit 13 h; h = h * murmur_m in h XOR drop_bit 15 h)"

text \<open>The body loop, and the switch over the one to three bytes left.\<close>

fun murmur_loop :: "uint32 \<Rightarrow> u_char list \<Rightarrow> uint32" where
  "murmur_loop h (a # b # c # d # p) = murmur_loop (h * murmur_m XOR murmur_mix (murmur_word a b c d)) p"
| "murmur_loop h [a, b, c] = (h XOR push_bit 16 (ucast c) XOR push_bit 8 (ucast b) XOR ucast a) * murmur_m"
| "murmur_loop h [a, b] = (h XOR push_bit 8 (ucast b) XOR ucast a) * murmur_m"
| "murmur_loop h [a] = (h XOR ucast a) * murmur_m"
| "murmur_loop h [] = h"

definition njs_murmur_hash2 :: "u_char list \<Rightarrow> uint32" where
  "njs_murmur_hash2 data = murmur_final (murmur_loop (0 XOR of_nat (length data)) data)"

text \<open>The variant for four bytes; reading a shorter buffer is outside of its contract.\<close>

fun njs_murmur_hash2_uint32 :: "u_char list \<Rightarrow> uint32 option" where
  "njs_murmur_hash2_uint32 (a # b # c # d # _) =
     (let k = murmur_mix (murmur_word a b c d); h = (0 XOR 4) * murmur_m XOR k in Some (murmur_final h))"
| "njs_murmur_hash2_uint32 _ = None"

text \<open>
  The MurmurHash2 variant for four bytes computes the general function on its four bytes, so
  that tables filled through either agree.
\<close>

theorem murmur_uint32_agrees:
  "length data = 4 \<longrightarrow> njs_murmur_hash2_uint32 data = Some (njs_murmur_hash2 data)"
proof
  assume "length data = 4"
  then obtain a b c d where "data = [a, b, c, d]"
    by (auto simp: length_Suc_conv eval_nat_numeral)
  then show "njs_murmur_hash2_uint32 data = Some (njs_murmur_hash2 data)"
    by (simp add: njs_murmur_hash2_def Let_def)
qed

theorem murmur_uint32_agrees_witness:
  "njs_murmur_hash2_uint32 [0x61, 0x62, 0x63, 0x64] = Some (njs_murmur_hash2 [0x61, 0x62, 0x63, 0x64])"
  using murmur_uint32_agrees[of "[0x61, 0x62, 0x63, 0x64]"] by simp

text \<open>The hash without case is the hash of the lower-cased data.\<close>

lemma djb_hash_lowcase_map: "njs_djb_hash_lowcase data = njs_djb_hash (map njs_lower_case data)"
  by (simp add: njs_djb_hash_lowcase_def njs_djb_hash_def foldl_map)

end
