(* ===== verification/Njs_Atom.thy ===== *)
theory Njs_Atom
  imports Njs_Flathsh_Map Njs_Hash
begin

section \<open>Atoms (src/src/njs_atom.c, njs_atom.h)\<close>

text \<open>
  Every property key is an atom: a 32-bit id that stands for an interned string, for a symbol or,
  with bit 31 set, for an array index.  Strings and symbols live in two flat hashes, one shared
  between the VMs cloned from a parent and one of the VM's own; an id is the position of the
  element in insertion order, counted through the shared table first.

  The tables use the flat hash with a test of the key (strings) and with unique hashes (symbols),
  kept apart by bit 31 of the hash.  \<open>vm->atom_hash_current\<close> points to one of the two tables:
  \<open>cur_shared\<close> says to which.  The conversions between numbers and strings that
  \<open>njs_atom_atomize_key\<close> calls (\<open>njs_key_to_index\<close>, \<open>njs_number_to_string\<close>, \<open>njs_dtoa\<close>) are floating
  point code: they are the fields of the record \<open>atom_env\<close>, with the allocator of the VM's pool.
\<close>

subsection \<open>Data\<close>

datatype 'n njs_value =
    NJS_STRING (str_bytes: "u_char list") (str_atom: uint32) (str_token: nat)
  | NJS_SYMBOL (sym_atom: uint32) (sym_descr: "u_char list")
  | NJS_NUMBER (num_value: 'n) (num_atom: uint32)

definition NJS_ATOM_STRING_unknown :: uint32 where "NJS_ATOM_STRING_unknown = 0"
definition NJS_KEYWORD_TYPE_UNDEF :: nat where "NJS_KEYWORD_TYPE_UNDEF = 0"

definition njs_atom_is_number :: "uint32 \<Rightarrow> bool" where
  "njs_atom_is_number aid \<longleftrightarrow> aid AND 0x80000000 \<noteq> 0"

definition njs_atom_number :: "uint32 \<Rightarrow> uint32" where
  "njs_atom_number aid = aid AND 0x7FFFFFFF"

definition njs_number_atom :: "uint32 \<Rightarrow> uint32" where
  "njs_number_atom n = n OR 0x80000000"

definition njs_atom_symbol_key :: "uint32 \<Rightarrow> uint32" where
  "njs_atom_symbol_key hash = hash OR 0x80000000"

definition njs_atom_string_key :: "uint32 \<Rightarrow> uint32" where
  "njs_atom_string_key hash = hash AND 0x7FFFFFFF"

record 'n atom_env =
  key_to_index :: "u_char list \<Rightarrow> uint32 option"
  num_to_index :: "'n \<Rightarrow> uint32 option"
  number_to_string :: "'n \<Rightarrow> u_char list \<times> uint32"
  index_to_string :: "uint32 \<Rightarrow> u_char list"
  pool_alloc :: "nat \<Rightarrow> bool"

record 'n njs_vm =
  atom_hash :: "'n njs_value njs_flathsh"
  atom_hash_shared :: "'n njs_value njs_flathsh"
  cur_shared :: bool
  shared_atom_count :: uint32
  atom_id_generator :: uint32

definition atom_hash_current :: "'n njs_vm \<Rightarrow> 'n njs_value njs_flathsh" where
  "atom_hash_current vm = (if cur_shared vm then atom_hash_shared vm else atom_hash vm)"

definition set_current :: "'n njs_value njs_flathsh \<Rightarrow> 'n njs_vm \<Rightarrow> 'n njs_vm" where
  "set_current fh vm = (if cur_shared vm then vm\<lparr>atom_hash_shared := fh\<rparr> else vm\<lparr>atom_hash := fh\<rparr>)"

subsection \<open>Operations\<close>

text \<open>The test asserts that the element is a string; other elements are never tested.\<close>

definition njs_lexer_hash_test :: "u_char list \<Rightarrow> 'n njs_value option \<Rightarrow> bool" where
  "njs_lexer_hash_test k data =
     (case data of Some (NJS_STRING s _ _) \<Rightarrow> length k = length s \<and> s = k | _ \<Rightarrow> False)"

definition atom_query :: "'n atom_env \<Rightarrow> uint32 \<Rightarrow> u_char list \<Rightarrow> (u_char list, 'n njs_value) njs_flathsh_query" where
  "atom_query env kh k =
     \<lparr>key_hash = kh, key = k, replace = False, fhq_test = njs_lexer_hash_test, fhq_alloc = pool_alloc env\<rparr>"

definition elt_at :: "'n njs_value njs_flathsh \<Rightarrow> nat \<Rightarrow> 'n njs_value option" where
  "elt_at fh i =
     (case fh of
        None \<Rightarrow> None
      | Some h \<Rightarrow> if i < elts_count h then elt_value (elts h ! i) else None)"

text \<open>The outer option is a list walk that does not return; \<open>Some None\<close> is the NULL answer.\<close>

definition njs_atom_find ::
    "'n atom_env \<Rightarrow> 'n njs_vm \<Rightarrow> u_char list \<Rightarrow> uint32 \<Rightarrow> 'n njs_value option option" where
  "njs_atom_find env vm k hash =
     (let fhq = atom_query env (njs_atom_string_key hash) k
      in case njs_flathsh_find (atom_hash_current vm) fhq of
           None \<Rightarrow> None
         | Some (NJS_OK, Some i) \<Rightarrow> Some (elt_at (atom_hash_current vm) i)
         | Some _ \<Rightarrow>
             (case njs_flathsh_find (atom_hash_shared vm) fhq of
                None \<Rightarrow> None
              | Some (NJS_OK, Some i) \<Rightarrow> Some (elt_at (atom_hash_shared vm) i)
              | Some _ \<Rightarrow> Some None))"

text \<open>
  \<open>njs_atom_add\<close> stores the value with the next id.  The error \<open>too many atoms\<close> comes after the
  insertion and the increment.
\<close>

definition njs_atom_add ::
    "'n atom_env \<Rightarrow> 'n njs_vm \<Rightarrow> 'n njs_value \<Rightarrow> uint32 \<Rightarrow> ('n njs_value option \<times> 'n njs_vm) option" where
  "njs_atom_add env vm value hash =
     (case njs_flathsh_insert (atom_hash_current vm)
             (atom_query env (njs_atom_string_key hash) (str_bytes value)) of
        Some (NJS_OK, Some i, fh) \<Rightarrow>
          (let aid = atom_id_generator vm;
               toomany = njs_atom_is_number aid;
               v = NJS_STRING (str_bytes value) aid
                     (if toomany then str_token value else NJS_KEYWORD_TYPE_UNDEF);
               vm = (set_current (store_value i v fh) vm)\<lparr>atom_id_generator := aid + 1\<rparr>
           in Some (if toomany then None else Some v, vm))
      | Some (_, _, fh) \<Rightarrow> Some (None, set_current fh vm)
      | None \<Rightarrow> None)"

definition njs_atom_symbol_add ::
    "'n atom_env \<Rightarrow> 'n njs_vm \<Rightarrow> 'n njs_value \<Rightarrow> (njs_ret \<times> 'n njs_value \<times> 'n njs_vm) option" where
  "njs_atom_symbol_add env vm value =
     (let aid = atom_id_generator vm; value = NJS_SYMBOL aid (sym_descr value)
      in case njs_flathsh_unique_insert (atom_hash_current vm)
                (atom_query env (njs_atom_symbol_key aid) []) of
           Some (NJS_OK, Some i, fh) \<Rightarrow>
             (if 0x80000000 \<le> aid + 1 then
                Some (NJS_ERROR, value, (set_current fh vm)\<lparr>atom_id_generator := aid + 1\<rparr>)
              else
                Some (NJS_OK, value,
                  (set_current (store_value i value fh) vm)\<lparr>atom_id_generator := aid + 1\<rparr>))
         | Some (_, _, fh) \<Rightarrow> Some (NJS_ERROR, value, set_current fh vm)
         | None \<Rightarrow> None)"

text \<open>
  The initial table from the list \<open>njs_atom\<close> of \<open>njs_atom_defs.h\<close>; \<open>None\<close> in the second component
  is the answer 0xffffffff.
\<close>

fun atom_init_loop ::
    "'n atom_env \<Rightarrow> 'n njs_value list \<Rightarrow> 'n njs_value njs_flathsh \<Rightarrow>
     ('n njs_value njs_flathsh \<times> bool) option" where
  "atom_init_loop env [] fh = Some (fh, True)"
| "atom_init_loop env (value # vs) fh =
     (case (case value of
              NJS_SYMBOL aid _ \<Rightarrow> njs_flathsh_unique_insert fh (atom_query env (njs_atom_symbol_key aid) [])
            | NJS_STRING s _ _ \<Rightarrow>
                njs_flathsh_insert fh (atom_query env (njs_atom_string_key (njs_djb_hash s)) s)
            | NJS_NUMBER _ _ \<Rightarrow> Some (NJS_ERROR, None, fh)) of
        Some (NJS_OK, Some i, fh') \<Rightarrow> atom_init_loop env vs (store_value i value fh')
      | Some (_, _, fh') \<Rightarrow> Some (fh', False)
      | None \<Rightarrow> None)"

definition njs_atom_hash_init ::
    "'n atom_env \<Rightarrow> 'n njs_value list \<Rightarrow> 'n njs_vm \<Rightarrow> (uint32 \<times> 'n njs_vm) option" where
  "njs_atom_hash_init env njs_atom vm =
     (case atom_init_loop env njs_atom None of
        None \<Rightarrow> None
      | Some (fh, False) \<Rightarrow> Some (0xFFFFFFFF, vm\<lparr>atom_hash_shared := fh\<rparr>)
      | Some (fh, True) \<Rightarrow> Some (of_nat (length njs_atom), vm\<lparr>atom_hash_shared := fh, cur_shared := True\<rparr>))"

text \<open>Interning a string: the tail that the string and number cases of \<open>njs_atom_atomize_key\<close> share.\<close>

definition intern ::
    "'n atom_env \<Rightarrow> 'n njs_vm \<Rightarrow> 'n njs_value \<Rightarrow> ('n njs_value option \<times> 'n njs_vm) option" where
  "intern env vm value =
     (let hash_id = njs_djb_hash (str_bytes value)
      in case njs_atom_find env vm (str_bytes value) hash_id of
           None \<Rightarrow> None
         | Some (Some entry) \<Rightarrow> Some (Some entry, vm)
         | Some None \<Rightarrow> njs_atom_add env vm value hash_id)"

definition njs_atom_atomize_key ::
    "'n atom_env \<Rightarrow> 'n njs_vm \<Rightarrow> 'n njs_value \<Rightarrow> (njs_ret \<times> 'n njs_value \<times> 'n njs_vm) option" where
  "njs_atom_atomize_key env vm value =
     (case value of
        NJS_STRING s _ t \<Rightarrow>
          (case key_to_index env s of
             Some u32 \<Rightarrow> Some (NJS_OK, NJS_STRING s (njs_number_atom u32) t, vm)
           | None \<Rightarrow>
               map_option (\<lambda>(e, vm). case e of None \<Rightarrow> (NJS_ERROR, value, vm) | Some e \<Rightarrow> (NJS_OK, e, vm))
                 (intern env vm value))
      | NJS_NUMBER n _ \<Rightarrow>
          (case num_to_index env n of
             Some u32 \<Rightarrow> Some (NJS_OK, NJS_NUMBER n (njs_number_atom u32), vm)
           | None \<Rightarrow>
               (let (s, aid) = number_to_string env n
                in if aid = NJS_ATOM_STRING_unknown then
                     map_option (\<lambda>(e, vm). case e of
                         None \<Rightarrow> (NJS_ERROR, value, vm)
                       | Some e \<Rightarrow> (NJS_OK, NJS_NUMBER n (str_atom e), vm)) 
                         (intern env vm (NJS_STRING s NJS_ATOM_STRING_unknown 0))
                   else Some (NJS_OK, NJS_NUMBER n aid, vm)))
      | NJS_SYMBOL _ _ \<Rightarrow> Some (NJS_OK, value, vm))"

text \<open>
  The value of an atom.  \<open>None\<close> is an id outside of the tables, which the code asserts away, or an
  element that was never written.
\<close>

definition njs_atom_to_value :: "'n atom_env \<Rightarrow> 'n njs_vm \<Rightarrow> uint32 \<Rightarrow> 'n njs_value option" where
  "njs_atom_to_value env vm aid =
     (if njs_atom_is_number aid then Some (NJS_STRING (index_to_string env (njs_atom_number aid)) aid 0)
      else if aid < shared_atom_count vm then elt_at (atom_hash_shared vm) (unat aid)
      else elt_at (atom_hash_current vm) (unat (aid - shared_atom_count vm)))"

text \<open>The part of \<open>njs_vm_clone\<close> that concerns atoms.\<close>

definition clone_atoms :: "'n njs_vm \<Rightarrow> 'n njs_vm" where
  "clone_atoms vm =
     vm\<lparr>shared_atom_count := atom_id_generator vm, atom_hash := None, cur_shared := False\<rparr>"

end
