(* ===== verification/Njs_Atom_Props.thy ===== *)
theory Njs_Atom_Props
  imports Njs_Atom
begin

section \<open>Atoms identify keys\<close>

text \<open>
  The two tables of a VM are one list of values, in which an atom id is a position.  The
  operations only append to it; a string occurs at most once.  The proofs rest on the flat
  hash through the interpretations \<open>by_test\<close> (strings, found by content) and \<open>by_hash\<close>
  (symbols, found by their unique hash) of the locale \<open>flathsh_match\<close>.
\<close>

subsection \<open>Tables that only grow\<close>

text \<open>
  Atoms are never deleted, so positions in the element array are positions in the list of
  entries.
\<close>

definition dense :: "'v njs_flathsh \<Rightarrow> bool" where
  "dense fh \<longleftrightarrow> fh_inv fh \<and> entry_count fh = length (entries fh) \<and> (\<forall>e \<in> set (entries fh). elt_value e \<noteq> None)"

lemma dense_elts:
  assumes "dense (Some h)"
  shows "map strip (elts h) = entries (Some h)" "elts_count h = length (elts h)"
proof -
  have h: "flathsh_inv h" using assms by (simp add: dense_def fh_inv_def)
  then show c: "elts_count h = length (elts h)" by (simp add: flathsh_inv_def)
  have "length (filter (\<lambda>e. \<not> is_free e) (elts h)) = length (elts h)"
    using assms c by (simp add: dense_def entries_def live_elts_def entry_count_def)
  then have "filter (\<lambda>e. \<not> is_free e) (elts h) = elts h" by (metis length_filter_less less_irrefl filter_True)
  then show "map strip (elts h) = entries (Some h)" by (simp add: entries_def live_elts_def)
qed

lemma elt_at_entries:
  assumes "dense fh"
  shows "elt_at fh i = (if i < length (entries fh) then elt_value (entries fh ! i) else None)"
proof (cases fh)
  case None
  then show ?thesis by (simp add: elt_at_def entries_def)
next
  case (Some h)
  with dense_elts[of h] assms have d: "map strip (elts h) = entries fh" "elts_count h = length (elts h)" by simp_all
  have "length (entries fh) = length (elts h)" using d(1) by (metis length_map)
  moreover have "elt_value (entries fh ! i) = elt_value (elts h ! i)" if "i < length (elts h)"
    using that by (simp flip: d(1))
  ultimately show ?thesis using Some d(2) by (simp add: elt_at_def)
qed

lemma valid_elt_at:
  assumes "dense fh" "valid_elt fh i e"
  shows "i < length (entries fh)" "entries fh ! i = e"
proof -
  from assms(2) obtain h where h: "fh = Some h" "i < length (elts h)" "strip (elts h ! i) = e"
    by (auto simp: valid_elt_def)
  with dense_elts[of h] assms(1) have d: "map strip (elts h) = entries fh" by simp
  show "i < length (entries fh)" "entries fh ! i = e" unfolding d[symmetric] using h by simp_all
qed

context flathsh_match
begin

lemma append_entry:
  assumes "dense fh" "entry_count fh < 2 ^ 26" "\<forall>e \<in> set (entries fh). \<not> m fhq e" "\<not> replace fhq"
  obtains (added) fh' where "insert_by m fh fhq = Some (NJS_OK, Some (entry_count fh), fh')"
      "\<And>v. dense (store_value (entry_count fh) v fh') \<and>
        entries (store_value (entry_count fh) v fh') = entries fh @ [(fresh_elt (key_hash fhq))\<lparr>elt_value := Some v\<rparr>]"
  | (failed) fh' where "insert_by m fh fhq = Some (NJS_ERROR, None, fh')" "dense fh'" "entries fh' = entries fh"
      "\<exists>n. \<not> fhq_alloc fhq n"
proof -
  have i: "fh_inv fh" using assms(1) by (simp add: dense_def)
  show thesis
  proof (cases rule: insert_by_correct[OF i assms(2), of fhq, case_names replaced declined added failed])
    case (added fh')
    have "dense (store_value (entry_count fh) v fh') \<and>
        entries (store_value (entry_count fh) v fh') = entries fh @ [(fresh_elt (key_hash fhq))\<lparr>elt_value := Some v\<rparr>]" for v
    proof -
      from added(3,5) obtain pre post where p: "entries fh' = pre @ fresh_elt (key_hash fhq) # post"
        "entries (store_value (entry_count fh) v fh') = pre @ (fresh_elt (key_hash fhq))\<lparr>elt_value := Some v\<rparr> # post"
        "fh_inv (store_value (entry_count fh) v fh')" "entry_count (store_value (entry_count fh) v fh') = entry_count fh'"
        by (rule store_value_correct)
      have "fresh_elt (key_hash fhq) \<notin> set (entries fh)" using assms(1) by (force simp: dense_def)
      then have "pre = entries fh" "post = []"
        using p(1) added(4) by (auto simp: append_eq_append_conv2 append_eq_Cons_conv Cons_eq_append_conv)
      then show ?thesis using p(2,3,4) added(6) assms(1) by (auto simp: dense_def)
    qed
    then show thesis using that(1)[OF added(1)] by blast
  next
    case (failed fh')
    then show thesis using that(2)[of fh'] assms(1) by (auto simp: dense_def)
  qed (use assms(3,4) in auto)
qed

end

lemma find_cases:
  assumes "fh_inv fh"
  obtains (found) i e where "njs_flathsh_find fh fhq = Some (NJS_OK, Some i)" "valid_elt fh i e" "query_match fhq e"
  | (missing) "njs_flathsh_find fh fhq = Some (NJS_DECLINED, None)" "\<forall>e \<in> set (entries fh). \<not> query_match fhq e"
proof (cases fh)
  case None
  then show thesis by (intro missing) (simp_all add: njs_flathsh_find_def entries_def)
next
  case (Some h)
  with assms have h: "flathsh_inv h" by (simp add: fh_inv_def)
  let ?r = "List.find (\<lambda>i. query_match fhq (elts h ! i))
       (bucket (hash_mask h) (elts h) (cell_num (key_hash fhq) (hash_mask h)))"
  show thesis
  proof (cases ?r)
    case None
    then show thesis using Some by_test.find_loop_inv[OF h, of fhq] by_test.not_found[OF None]
      by (intro missing) (auto simp: njs_flathsh_find_def entries_def)
  next
    case S: (Some i)
    note f = by_test.found_elt[OF S]
    have "query_match fhq (strip (elts h ! i))" using f(3) by (simp add: query_match_def)
    then show thesis using Some S by_test.find_loop_inv[OF h, of fhq] f
      by (intro found [of i "strip (elts h ! i)"]) (auto simp: njs_flathsh_find_def valid_elt_def)
  qed
qed

subsection \<open>The invariant of the atom tables\<close>

text \<open>The abstract state is one list of values; an atom id is a position in it.\<close>

fun atom_id :: "'n njs_value \<Rightarrow> uint32" where
  "atom_id (NJS_STRING _ a _) = a"
| "atom_id (NJS_SYMBOL a _) = a"
| "atom_id (NJS_NUMBER _ a) = a"

fun atom_key :: "'n njs_value \<Rightarrow> uint32" where
  "atom_key (NJS_STRING s _ _) = njs_atom_string_key (njs_djb_hash s)"
| "atom_key (NJS_SYMBOL a _) = njs_atom_symbol_key a"
| "atom_key (NJS_NUMBER _ _) = 0"

definition values_of :: "'n njs_value njs_flathsh \<Rightarrow> 'n njs_value list" where
  "values_of fh = map (the \<circ> elt_value) (entries fh)"

definition own_values :: "'n njs_vm \<Rightarrow> 'n njs_value list" where
  "own_values vm = (if cur_shared vm then [] else values_of (atom_hash vm))"

definition atom_list :: "'n njs_vm \<Rightarrow> 'n njs_value list" where
  "atom_list vm = values_of (atom_hash_shared vm) @ own_values vm"

definition keyed :: "'n njs_value njs_flathsh \<Rightarrow> bool" where
  "keyed fh \<longleftrightarrow> dense fh \<and> (\<forall>e \<in> set (entries fh). elt_key_hash e = atom_key (the (elt_value e)))"

definition string_at :: "'n njs_value list \<Rightarrow> nat \<Rightarrow> u_char list \<Rightarrow> bool" where
  "string_at vs i s \<longleftrightarrow> i < length vs \<and> (\<exists>a t. vs ! i = NJS_STRING s a t)"

definition well_numbered :: "'n njs_value list \<Rightarrow> bool" where
  "well_numbered vs \<longleftrightarrow>
     (\<forall>i < length vs. atom_id (vs ! i) = of_nat i \<and> \<not> is_NJS_NUMBER (vs ! i)) \<and>
     (\<forall>i j s. string_at vs i s \<longrightarrow> string_at vs j s \<longrightarrow> i = j)"

definition atoms_inv :: "'n njs_vm \<Rightarrow> bool" where
  "atoms_inv vm \<longleftrightarrow> keyed (atom_hash_shared vm) \<and> (cur_shared vm \<or> keyed (atom_hash vm)) \<and>
     well_numbered (atom_list vm) \<and>
     unat (atom_id_generator vm) = length (atom_list vm) \<and> length (atom_list vm) \<le> 2 ^ 26 \<and>
     unat (shared_atom_count vm) = (if cur_shared vm then 0 else length (values_of (atom_hash_shared vm)))"

lemma bit31_consts: "(0x80000000 :: uint32) = 2 ^ 31" "(0x7FFFFFFF :: uint32) = mask 31"
  by (simp_all add: mask_eq_exp_minus_1)

lemma take31: "a < 2 ^ 31 \<Longrightarrow> take_bit 31 (a :: uint32) = a"
  by (metis less_mask_eq take_bit_eq_mask)

lemma bit31: "a < 2 ^ 31 \<Longrightarrow> \<not> bit (a :: uint32) 31"
  by (metis take31 bit_take_bit_iff less_irrefl)

lemma take_bit_exp_eq_0': "take_bit 31 (2 ^ 31 :: uint32) = 0"
  by (simp add: take_bit_eq_mod)

lemma is_number_bit: "njs_atom_is_number a \<longleftrightarrow> bit a 31"
  unfolding njs_atom_is_number_def bit31_consts by (metis and_exp_eq_0_iff_not_bit)

lemma atom_bits:
  "njs_atom_is_number (njs_number_atom n)" "n < 2 ^ 31 \<Longrightarrow> njs_atom_number (njs_number_atom n) = n"
  "a < 2 ^ 31 \<Longrightarrow> \<not> njs_atom_is_number a" "njs_atom_string_key a \<noteq> njs_atom_symbol_key b"
proof -
  show "njs_atom_is_number (njs_number_atom n)"
    unfolding is_number_bit njs_number_atom_def bit31_consts(1)
    by (simp only: bit_or_iff bit_exp_iff) simp
  show "n < 2 ^ 31 \<Longrightarrow> njs_atom_number (njs_number_atom n) = n"
    unfolding njs_atom_number_def njs_number_atom_def bit31_consts
    using bit31[of n] take31[of n] by (simp only: take_bit_eq_mask[symmetric] take_bit_or take_bit_exp_eq_0' or.right_neutral)
  show "a < 2 ^ 31 \<Longrightarrow> \<not> njs_atom_is_number a" by (simp add: is_number_bit bit31)
  have "\<not> bit (njs_atom_string_key a) 31" "bit (njs_atom_symbol_key b) 31"
    unfolding njs_atom_string_key_def njs_atom_symbol_key_def bit31_consts
    by (simp_all only: bit_and_iff bit_or_iff bit_mask_iff bit_exp_iff) simp_all
  then show "njs_atom_string_key a \<noteq> njs_atom_symbol_key b" by metis
qed

lemma values_nth: "dense fh \<Longrightarrow> elt_at fh i = (if i < length (values_of fh) then Some (values_of fh ! i) else None)"
  by (auto simp: elt_at_entries values_of_def dense_def)

lemma atom_list_bound: "atoms_inv vm \<Longrightarrow> i < length (atom_list vm) \<Longrightarrow> of_nat i < (2 ^ 31 :: uint32) \<and> unat (of_nat i :: uint32) = i"
  by (auto simp: atoms_inv_def word_less_nat_alt unat_of_nat)

text \<open>Reading an atom is reading a position of the abstract list.\<close>

lemma atom_to_value_nth:
  assumes "atoms_inv vm" "a < 2 ^ 31"
  shows "njs_atom_to_value env vm a = (if unat a < length (atom_list vm) then Some (atom_list vm ! unat a) else None)"
proof -
  let ?n = "length (values_of (atom_hash_shared vm))"
  have k: "dense (atom_hash_shared vm)" "\<not> cur_shared vm \<Longrightarrow> dense (atom_hash vm)"
    using assms(1) by (auto simp: atoms_inv_def keyed_def)
  have sc: "unat (shared_atom_count vm) = (if cur_shared vm then 0 else ?n)" using assms(1) by (simp add: atoms_inv_def)
  show ?thesis
  proof (cases "cur_shared vm")
    case True
    then have "shared_atom_count vm = 0" using sc by (simp add: unat_eq_0)
    then show ?thesis using True atom_bits(3)[OF assms(2)] values_nth[OF k(1)]
      by (simp add: njs_atom_to_value_def atom_hash_current_def atom_list_def own_values_def)
  next
    case False
    then have n: "a < shared_atom_count vm \<longleftrightarrow> unat a < ?n" using sc by (simp add: word_less_nat_alt)
    have "\<not> unat a < ?n \<Longrightarrow> unat (a - shared_atom_count vm) = unat a - ?n"
      using sc False by (simp add: unat_sub word_le_nat_alt)
    then show ?thesis using False atom_bits(3)[OF assms(2)] values_nth[OF k(1)] values_nth[OF k(2)[OF False]] n
      by (auto simp: njs_atom_to_value_def atom_hash_current_def atom_list_def own_values_def nth_append)
  qed
qed

lemma query_match_string:
  assumes "e \<in> set (entries fh)" "keyed fh"
  shows "query_match (atom_query env (njs_atom_string_key (njs_djb_hash s)) s) e \<longleftrightarrow>
    (\<exists>a t. the (elt_value e) = NJS_STRING s a t)"
proof -
  obtain v where v: "elt_value e = Some v" "elt_key_hash e = atom_key v"
    using assms by (auto simp: keyed_def dense_def)
  then show ?thesis
    by (cases v) (auto simp: query_match_def atom_query_def njs_lexer_hash_test_def)
qed

lemma find_in_table:
  assumes "keyed fh"
  obtains (found) i where "njs_flathsh_find fh (atom_query env (njs_atom_string_key (njs_djb_hash s)) s) = Some (NJS_OK, Some i)"
      "string_at (values_of fh) i s"
  | (missing) "njs_flathsh_find fh (atom_query env (njs_atom_string_key (njs_djb_hash s)) s) = Some (NJS_DECLINED, None)"
      "\<forall>i. \<not> string_at (values_of fh) i s"
      "\<forall>e \<in> set (entries fh). \<not> query_match (atom_query env (njs_atom_string_key (njs_djb_hash s)) s) e"
proof -
  have d: "dense fh" "fh_inv fh" using assms by (auto simp: keyed_def dense_def)
  show thesis
  proof (cases rule: find_cases[OF d(2), where fhq = "atom_query env (njs_atom_string_key (njs_djb_hash s)) s", case_names found missing])
    case (found i e)
    note v = valid_elt_at[OF d(1) found(2)]
    have "e \<in> set (entries fh)" using v by (metis nth_mem)
    with found(3) query_match_string[OF this assms] v show thesis
      by (intro that(1)[OF found(1)]) (auto simp: string_at_def values_of_def)
  next
    case missing
    have "\<not> string_at (values_of fh) i s" for i
      using missing(2) query_match_string[OF nth_mem assms, of i env s] by (auto simp: string_at_def values_of_def)
    then show thesis using missing that(2) by blast
  qed
qed

lemma string_at_append:
  "string_at (xs @ ys) i s \<longleftrightarrow> string_at xs i s \<or> length xs \<le> i \<and> string_at ys (i - length xs) s"
  by (auto simp: string_at_def nth_append)

lemma atom_find_cases:
  assumes "atoms_inv vm"
  obtains (found) i where "njs_atom_find env vm s (njs_djb_hash s) = Some (Some (atom_list vm ! i))"
      "string_at (atom_list vm) i s"
  | (missing) "njs_atom_find env vm s (njs_djb_hash s) = Some None" "\<forall>i. \<not> string_at (atom_list vm) i s"
     "\<forall>e \<in> set (entries (atom_hash_current vm)). \<not> query_match (atom_query env (njs_atom_string_key (njs_djb_hash s)) s) e"
proof -
  let ?sh = "atom_hash_shared vm" and ?cu = "atom_hash_current vm"
  have k: "keyed ?sh" "keyed ?cu" using assms by (auto simp: atoms_inv_def atom_hash_current_def)
  have d: "dense ?sh" "dense ?cu" using k by (auto simp: keyed_def)
  define off where "off = (if cur_shared vm then 0 else length (values_of ?sh))"
  have cu: "string_at (atom_list vm) (off + i) s \<and> atom_list vm ! (off + i) = values_of ?cu ! i"
    if "string_at (values_of ?cu) i s" for i
    using that by (auto simp: off_def atom_list_def own_values_def atom_hash_current_def string_at_append string_at_def nth_append)
  have sh: "string_at (atom_list vm) i s \<and> atom_list vm ! i = values_of ?sh ! i" if "string_at (values_of ?sh) i s" for i
    using that by (auto simp: atom_list_def string_at_append string_at_def nth_append)
  show thesis
  proof (cases rule: find_in_table[OF k(2), where env = env and s = s, case_names found missing])
    case (found i)
    then have "njs_atom_find env vm s (njs_djb_hash s) = Some (Some (values_of ?cu ! i))"
      using values_nth[OF d(2), of i] by (simp add: njs_atom_find_def string_at_def)
    then show thesis using cu[OF found(2)] that(1)[of "off + i"] by simp
  next
    case cm: missing
    show thesis
    proof (cases rule: find_in_table[OF k(1), where env = env and s = s, case_names found missing])
      case (found i)
      then have "njs_atom_find env vm s (njs_djb_hash s) = Some (Some (values_of ?sh ! i))"
        using cm values_nth[OF d(1), of i] by (simp add: njs_atom_find_def string_at_def)
      then show thesis using sh[OF found(2)] that(1)[of i] by simp
    next
      case missing
      have "\<forall>i. \<not> string_at (atom_list vm) i s"
        using missing(2) cm(2) by (auto simp: atom_list_def own_values_def atom_hash_current_def string_at_append string_at_def[of "[]"] split: if_splits)
      then show thesis using cm missing by (intro that(2)) (simp_all add: njs_atom_find_def)
    qed
  qed
qed

text \<open>Appending a value with the next id to the current table.\<close>

lemma well_numbered_append:
  assumes "well_numbered vs" "atom_id v = of_nat (length vs)" "\<not> is_NJS_NUMBER v"
    "\<And>s a t. v = NJS_STRING s a t \<Longrightarrow> \<forall>i. \<not> string_at vs i s"
  shows "well_numbered (vs @ [v])"
proof -
  have "string_at (vs @ [v]) i s \<Longrightarrow> string_at vs i s \<or> i = length vs \<and> (\<exists>a t. v = NJS_STRING s a t)" for i s
    by (auto simp: string_at_def nth_append less_Suc_eq split: if_splits)
  then have "i = j" if "string_at (vs @ [v]) i s" "string_at (vs @ [v]) j s" for i j s
    using that assms(1,4) by (metis well_numbered_def)
  then show ?thesis using assms(1-3) by (auto simp: well_numbered_def nth_append less_Suc_eq)
qed

lemma push_atom:
  assumes inv: "atoms_inv vm" and room: "length (atom_list vm) < 2 ^ 26"
    and d: "dense fh" and e: "entries fh = entries (atom_hash_current vm) @ [(fresh_elt kh)\<lparr>elt_value := Some v\<rparr>]"
    and k: "kh = atom_key v" "atom_id v = atom_id_generator vm" "\<not> is_NJS_NUMBER v"
    and s: "\<And>s a t. v = NJS_STRING s a t \<Longrightarrow> \<forall>i. \<not> string_at (atom_list vm) i s"
  shows "atoms_inv ((set_current fh vm)\<lparr>atom_id_generator := atom_id_generator vm + 1\<rparr>)"
    "atom_list ((set_current fh vm)\<lparr>atom_id_generator := atom_id_generator vm + 1\<rparr>) = atom_list vm @ [v]"
proof -
  let ?vm = "(set_current fh vm)\<lparr>atom_id_generator := atom_id_generator vm + 1\<rparr>"
  have kc: "keyed (atom_hash_current vm)" using inv by (auto simp: atoms_inv_def atom_hash_current_def)
  then have kf: "keyed fh" using d e k(1) by (auto simp: keyed_def)
  have vf: "values_of fh = values_of (atom_hash_current vm) @ [v]" using e by (simp add: values_of_def)
  show l: "atom_list ?vm = atom_list vm @ [v]"
    using vf by (simp add: atom_list_def own_values_def set_current_def atom_hash_current_def)
  have g: "unat (atom_id_generator vm) = length (atom_list vm)" using inv by (simp add: atoms_inv_def)
  then have g': "unat (atom_id_generator vm + 1) = length (atom_list vm) + 1" "atom_id_generator vm = of_nat (length (atom_list vm))"
    using room by (simp_all add: unat_word_ariths flip: g)
  have "well_numbered (atom_list ?vm)" unfolding l
    using inv k(2,3) s g'(2) by (intro well_numbered_append) (auto simp: atoms_inv_def)
  moreover have "keyed (atom_hash_shared ?vm)" "cur_shared ?vm \<or> keyed (atom_hash ?vm)"
    using kf inv by (auto simp: set_current_def atoms_inv_def)
  moreover have "unat (atom_id_generator ?vm) = length (atom_list ?vm)" using g'(1) l by simp
  moreover have "length (atom_list ?vm) \<le> 2 ^ 26" using l room by simp
  moreover have "unat (shared_atom_count ?vm) = (if cur_shared ?vm then 0 else length (values_of (atom_hash_shared ?vm)))"
    using inv by (auto simp: set_current_def atoms_inv_def)
  ultimately show "atoms_inv ?vm" unfolding atoms_inv_def by blast
qed

lemma set_current_same:
  assumes "atoms_inv vm" "dense fh" "entries fh = entries (atom_hash_current vm)"
  shows "atoms_inv (set_current fh vm)" "atom_list (set_current fh vm) = atom_list vm"
proof -
  have v: "values_of fh = values_of (atom_hash_current vm)" using assms(3) by (simp add: values_of_def)
  show l: "atom_list (set_current fh vm) = atom_list vm"
    using v by (simp add: atom_list_def own_values_def set_current_def atom_hash_current_def)
  have "keyed fh" using assms by (auto simp: atoms_inv_def atom_hash_current_def keyed_def)
  then show "atoms_inv (set_current fh vm)"
    using assms(1) l v by (auto simp: atoms_inv_def set_current_def atom_hash_current_def)
qed

lemma current_dense:
  assumes "atoms_inv vm"
  shows "dense (atom_hash_current vm)" "entry_count (atom_hash_current vm) \<le> length (atom_list vm)"
  using assms by (auto simp: atoms_inv_def atom_hash_current_def keyed_def dense_def atom_list_def own_values_def values_of_def)

lemma generator_small:
  assumes "atoms_inv vm"
  shows "atom_id_generator vm < 2 ^ 31" "atom_id_generator vm + 1 < 2 ^ 31" "\<not> njs_atom_is_number (atom_id_generator vm)"
proof -
  have g: "unat (atom_id_generator vm) \<le> 2 ^ 26" using assms by (simp add: atoms_inv_def)
  then have "unat (atom_id_generator vm + 1) \<le> 2 ^ 26 + 1" by (simp add: unat_word_ariths)
  then show g1: "atom_id_generator vm < 2 ^ 31" "atom_id_generator vm + 1 < 2 ^ 31" using g by (simp_all add: word_less_nat_alt)
  show "\<not> njs_atom_is_number (atom_id_generator vm)" using atom_bits(3)[OF g1(1)] .
qed

lemma intern_cases:
  assumes inv: "atoms_inv vm" and room: "length (atom_list vm) < 2 ^ 26" and s: "str_bytes value = s"
  obtains (found) i where "intern env vm value = Some (Some (atom_list vm ! i), vm)" "string_at (atom_list vm) i s"
  | (added) v vm' where "intern env vm value = Some (Some v, vm')" "v = NJS_STRING s (atom_id_generator vm) NJS_KEYWORD_TYPE_UNDEF"
      "atoms_inv vm'" "atom_list vm' = atom_list vm @ [v]" "\<forall>i. \<not> string_at (atom_list vm) i s"
  | (failed) vm' where "intern env vm value = Some (None, vm')" "atoms_inv vm'" "atom_list vm' = atom_list vm"
      "\<exists>n. \<not> pool_alloc env n"
proof (cases rule: atom_find_cases[OF inv, where env = env and s = s, case_names found missing])
  case (found i)
  then show thesis using s by (intro that(1)) (auto simp: intern_def)
next
  case missing
  let ?q = "atom_query env (njs_atom_string_key (njs_djb_hash s)) s"
  let ?v = "NJS_STRING s (atom_id_generator vm) NJS_KEYWORD_TYPE_UNDEF"
  have i: "intern env vm value = njs_atom_add env vm value (njs_djb_hash s)"
    using missing(1) s by (simp add: intern_def)
  have q: "\<not> replace ?q" "key_hash ?q = njs_atom_string_key (njs_djb_hash s)" "fhq_alloc ?q = pool_alloc env"
    by (simp_all add: atom_query_def)
  note c = current_dense[OF inv]
  have ec: "entry_count (atom_hash_current vm) < 2 ^ 26" using c(2) room by simp
  note g = generator_small[OF inv]
  show thesis
  proof (cases rule: by_test.append_entry[OF c(1) ec missing(3) q(1), case_names added failed])
    case (added fh)
    let ?fh = "store_value (entry_count (atom_hash_current vm)) ?v fh"
    let ?vm = "(set_current ?fh vm)\<lparr>atom_id_generator := atom_id_generator vm + 1\<rparr>"
    have "intern env vm value = Some (Some ?v, ?vm)"
      using i s added(1) g(3) by (simp add: njs_atom_add_def njs_flathsh_insert_def Let_def)
    moreover have d: "dense ?fh" "entries ?fh = entries (atom_hash_current vm) @
        [(fresh_elt (njs_atom_string_key (njs_djb_hash s)))\<lparr>elt_value := Some ?v\<rparr>]"
      using added(2)[of ?v] q(2) by simp_all
    have "atoms_inv ?vm" "atom_list ?vm = atom_list vm @ [?v]"
      by (rule push_atom[OF inv room d]; use missing(2) in simp)+
    ultimately show thesis using that(2) missing(2) by blast
  next
    case (failed fh)
    then have "intern env vm value = Some (None, set_current fh vm)"
      using i s by (simp add: njs_atom_add_def njs_flathsh_insert_def)
    then show thesis using that(3) set_current_same[OF inv failed(2,3)] failed(4) q(3) by simp
  qed
qed

lemma string_at_id:
  assumes "atoms_inv vm" "string_at (atom_list vm) i s"
  obtains t where "atom_list vm ! i = NJS_STRING s (of_nat i) t" "i < length (atom_list vm)"
  using assms by (auto simp: atoms_inv_def well_numbered_def string_at_def)

subsection \<open>Interning\<close>

text \<open>
  What a VM promises of an atomized string: the answer is a string with the same bytes, reading
  its id gives it back, and every id handed out before still denotes the same value.
\<close>

lemma intern_string:
  assumes inv: "atoms_inv vm" and room: "length (atom_list vm) < 2 ^ 26" and s: "str_bytes value = s"
    and r: "intern env vm value = Some (Some v, vm')"
  shows "atoms_inv vm' \<and> str_bytes v = s \<and> (\<exists>i t. i < length (atom_list vm') \<and> atom_list vm' ! i = v \<and> v = NJS_STRING s (of_nat i) t) \<and>
    (\<exists>ws. atom_list vm' = atom_list vm @ ws)"
proof (cases rule: intern_cases[OF inv room s, where env = env, case_names found added failed])
  case (found i)
  obtain t where t: "atom_list vm ! i = NJS_STRING s (of_nat i) t" "i < length (atom_list vm)"
    using string_at_id[OF inv found(2)] .
  have "v = atom_list vm ! i" "vm' = vm" using r found(1) by auto
  then show ?thesis using t inv by auto
next
  case (added w vm2)
  have e: "v = w" "vm2 = vm'" using r added(1) by simp_all
  have "unat (atom_id_generator vm) = length (atom_list vm)" using inv by (simp add: atoms_inv_def)
  then have g: "atom_id_generator vm = of_nat (length (atom_list vm))" by (simp flip: \<open>unat _ = _\<close>)
  show ?thesis using e added(2,3,4) g by (auto intro!: exI[of _ "length (atom_list vm)"])
qed (use r in simp)

lemma current_value:
  assumes "atoms_inv vm" "e \<in> set (entries (atom_hash_current vm))"
  obtains i v where "elt_value e = Some v" "elt_key_hash e = atom_key v" "i < length (atom_list vm)" "atom_list vm ! i = v"
    "atom_id v = of_nat i" "\<not> is_NJS_NUMBER v"
proof -
  have k: "keyed (atom_hash_current vm)" using assms(1) by (auto simp: atoms_inv_def atom_hash_current_def)
  obtain v where v: "elt_value e = Some v" "elt_key_hash e = atom_key v"
    using k assms(2) by (auto simp: keyed_def dense_def)
  then have "v \<in> set (values_of (atom_hash_current vm))" using assms(2) by (force simp: values_of_def)
  then have "v \<in> set (atom_list vm)" by (auto simp: atom_list_def own_values_def atom_hash_current_def split: if_splits)
  then obtain i where i: "i < length (atom_list vm)" "atom_list vm ! i = v" by (metis in_set_conv_nth)
  then show thesis using that[OF v i] assms(1) by (auto simp: atoms_inv_def well_numbered_def)
qed

lemma symbol_unmatched:
  assumes inv: "atoms_inv vm"
  shows "\<forall>e \<in> set (entries (atom_hash_current vm)).
           \<not> unique_match (atom_query env (njs_atom_symbol_key (atom_id_generator vm)) []) e"
proof
  fix e assume e: "e \<in> set (entries (atom_hash_current vm))"
  obtain i v where "elt_value e = Some v" and v: "elt_key_hash e = atom_key v" "i < length (atom_list vm)" "atom_id v = of_nat i" "\<not> is_NJS_NUMBER v"
    by (rule current_value[OF inv e]) blast
  have b: "of_nat i < (2 ^ 31 :: uint32)" "unat (of_nat i :: uint32) = i" using atom_list_bound[OF inv v(2)] by simp_all
  have "njs_atom_symbol_key a \<noteq> njs_atom_symbol_key b" if "a < 2 ^ 31" "b < 2 ^ 31" "a \<noteq> b" for a b
    using that atom_bits(2) by (metis njs_atom_symbol_key_def njs_number_atom_def)
  moreover have "of_nat i \<noteq> atom_id_generator vm" using v(2) b(2) inv by (auto simp: atoms_inv_def)
  ultimately show "\<not> unique_match (atom_query env (njs_atom_symbol_key (atom_id_generator vm)) []) e"
    using v b(1) generator_small(1)[OF inv] atom_bits(4)
    by (cases v) (auto simp: unique_match_def atom_query_def)
qed

lemma string_unmatched:
  assumes inv: "atoms_inv vm" and "\<forall>i. \<not> string_at (atom_list vm) i s"
  shows "\<forall>e \<in> set (entries (atom_hash_current vm)).
           \<not> query_match (atom_query env (njs_atom_string_key (njs_djb_hash s)) s) e"
proof
  fix e assume e: "e \<in> set (entries (atom_hash_current vm))"
  obtain i v where v: "elt_value e = Some v" "i < length (atom_list vm)" "atom_list vm ! i = v"
    by (rule current_value[OF inv e]) blast
  have "keyed (atom_hash_current vm)" using inv by (auto simp: atoms_inv_def atom_hash_current_def)
  from query_match_string[OF e this] v assms(2)
  show "\<not> query_match (atom_query env (njs_atom_string_key (njs_djb_hash s)) s) e" by (auto simp: string_at_def)
qed

lemma symbol_add_cases:
  assumes inv: "atoms_inv vm" and room: "length (atom_list vm) < 2 ^ 26"
  obtains (added) v vm' where "njs_atom_symbol_add env vm sm = Some (NJS_OK, v, vm')"
      "v = NJS_SYMBOL (atom_id_generator vm) (sym_descr sm)" "atoms_inv vm'" "atom_list vm' = atom_list vm @ [v]"
  | (failed) v vm' where "njs_atom_symbol_add env vm sm = Some (NJS_ERROR, v, vm')" "atoms_inv vm'" "atom_list vm' = atom_list vm"
      "\<exists>n. \<not> pool_alloc env n"
proof -
  let ?q = "atom_query env (njs_atom_symbol_key (atom_id_generator vm)) []"
  let ?v = "NJS_SYMBOL (atom_id_generator vm) (sym_descr sm)"
  have q: "\<not> replace ?q" "key_hash ?q = njs_atom_symbol_key (atom_id_generator vm)" "fhq_alloc ?q = pool_alloc env"
    by (simp_all add: atom_query_def)
  note c = current_dense[OF inv]
  have ec: "entry_count (atom_hash_current vm) < 2 ^ 26" using c(2) room by simp
  note g = generator_small[OF inv]
  note fresh = symbol_unmatched[OF inv, of env]
  show thesis
  proof (cases rule: by_hash.append_entry[OF c(1) ec fresh q(1), case_names added failed])
    case (added fh)
    let ?fh = "store_value (entry_count (atom_hash_current vm)) ?v fh"
    let ?vm = "(set_current ?fh vm)\<lparr>atom_id_generator := atom_id_generator vm + 1\<rparr>"
    have "njs_atom_symbol_add env vm sm = Some (NJS_OK, ?v, ?vm)"
      using added(1) g(2) by (simp add: njs_atom_symbol_add_def njs_flathsh_unique_insert_def Let_def not_le)
    moreover have d: "dense ?fh" "entries ?fh = entries (atom_hash_current vm) @
        [(fresh_elt (njs_atom_symbol_key (atom_id_generator vm)))\<lparr>elt_value := Some ?v\<rparr>]"
      using added(2)[of ?v] q(2) by simp_all
    have "atoms_inv ?vm" "atom_list ?vm = atom_list vm @ [?v]"
      by (rule push_atom[OF inv room d]; simp)+
    ultimately show thesis using that(1) by blast
  next
    case (failed fh)
    then have "njs_atom_symbol_add env vm sm = Some (NJS_ERROR, ?v, set_current fh vm)"
      by (simp add: njs_atom_symbol_add_def njs_flathsh_unique_insert_def Let_def)
    then show thesis using that(2) set_current_same[OF inv failed(2,3)] failed(4) q(3) by simp
  qed
qed

subsection \<open>Initialisation and cloning\<close>

definition init_vm :: "'n njs_value njs_flathsh \<Rightarrow> nat \<Rightarrow> 'n njs_vm" where
  "init_vm fh n = \<lparr>atom_hash = None, atom_hash_shared = fh, cur_shared = True, shared_atom_count = 0,
                   atom_id_generator = of_nat n\<rparr>"

lemma atom_list_init: "atom_list (init_vm fh n) = values_of fh"
  by (simp add: init_vm_def atom_list_def own_values_def)

lemma init_loop_inv:
  assumes "atoms_inv (init_vm fh n)" "n = length (values_of fh)" "well_numbered (values_of fh @ vs)"
    "length (values_of fh) + length vs \<le> 2 ^ 26"
  shows "\<exists>fh' ok. atom_init_loop env vs fh = Some (fh', ok) \<and>
    (ok \<longrightarrow> atoms_inv (init_vm fh' (n + length vs)) \<and> values_of fh' = values_of fh @ vs) \<and>
    (\<not> ok \<longrightarrow> (\<exists>m. \<not> pool_alloc env m))"
  using assms
proof (induction vs arbitrary: fh n)
  case Nil
  then show ?case by (intro exI[of _ fh] exI[of _ True]) simp
next
  case (Cons v vs)
  let ?vm = "init_vm fh n"
  note inv = Cons.prems(1)
  have cur: "atom_hash_current ?vm = fh" "atom_id_generator ?vm = of_nat n" by (simp_all add: atom_hash_current_def init_vm_def)
  have room: "length (atom_list ?vm) < 2 ^ 26" using Cons.prems(4) by (simp add: atom_list_init)
  have num: "atom_id v = of_nat n" "\<not> is_NJS_NUMBER v"
    using Cons.prems(2,3) by (auto simp: well_numbered_def nth_append dest: spec[of _ "length (values_of fh)"])
  have fr: "\<forall>i. \<not> string_at (atom_list ?vm) i s" if "v = NJS_STRING s a t" for s a t
  proof (intro allI notI)
    fix i assume "string_at (atom_list ?vm) i s"
    then have "string_at (values_of fh @ v # vs) i s" "i < n" using Cons.prems(2)
      by (auto simp: atom_list_init string_at_def nth_append)
    moreover have "string_at (values_of fh @ v # vs) n s" using that Cons.prems(2) by (simp add: string_at_def)
    ultimately show False using Cons.prems(3) by (auto simp: well_numbered_def)
  qed
  define kh where "kh = atom_key v"
  have step: "\<exists>fh' r i. (case v of
              NJS_SYMBOL aid _ \<Rightarrow> njs_flathsh_unique_insert fh (atom_query env (njs_atom_symbol_key aid) [])
            | NJS_STRING s _ _ \<Rightarrow>
                njs_flathsh_insert fh (atom_query env (njs_atom_string_key (njs_djb_hash s)) s)
            | NJS_NUMBER _ _ \<Rightarrow> Some (NJS_ERROR, None, fh)) = Some (r, i, fh') \<and>
       (r = NJS_ERROR \<and> i = None \<and> (\<exists>m. \<not> pool_alloc env m) \<or>
        r = NJS_OK \<and> i = Some (entry_count fh) \<and> dense (store_value (entry_count fh) v fh') \<and>
        entries (store_value (entry_count fh) v fh') = entries fh @ [(fresh_elt kh)\<lparr>elt_value := Some v\<rparr>])"
  proof -
    have d: "dense fh" and ec: "entry_count fh < 2 ^ 26" using current_dense[OF inv] room cur by simp_all
    show ?thesis
    proof (cases v)
      case (NJS_STRING s a t)
      let ?q = "atom_query env (njs_atom_string_key (njs_djb_hash s)) s"
      have um: "\<forall>e \<in> set (entries fh). \<not> query_match ?q e"
        using string_unmatched[OF inv fr[OF NJS_STRING], of env] cur by simp
      have r: "\<not> replace ?q" "key_hash ?q = kh" "fhq_alloc ?q = pool_alloc env"
        using NJS_STRING by (simp_all add: atom_query_def kh_def)
      show ?thesis
        by (cases rule: by_test.append_entry[OF d ec um r(1), case_names added failed])
           (use NJS_STRING r in \<open>auto simp: njs_flathsh_insert_def\<close>)
    next
      case (NJS_SYMBOL a ds)
      let ?q = "atom_query env (njs_atom_symbol_key a) []"
      have a: "a = atom_id_generator ?vm" using NJS_SYMBOL num cur by simp
      have um: "\<forall>e \<in> set (entries fh). \<not> unique_match ?q e"
        using symbol_unmatched[OF inv, of env] cur a by simp
      have r: "\<not> replace ?q" "key_hash ?q = kh" "fhq_alloc ?q = pool_alloc env"
        using NJS_SYMBOL by (simp_all add: atom_query_def kh_def)
      show ?thesis
        by (cases rule: by_hash.append_entry[OF d ec um r(1), case_names added failed])
           (use NJS_SYMBOL r in \<open>auto simp: njs_flathsh_unique_insert_def\<close>)
    qed (use num(2) in simp)
  qed
  then obtain fh' r i where st: "(case v of
              NJS_SYMBOL aid _ \<Rightarrow> njs_flathsh_unique_insert fh (atom_query env (njs_atom_symbol_key aid) [])
            | NJS_STRING s _ _ \<Rightarrow>
                njs_flathsh_insert fh (atom_query env (njs_atom_string_key (njs_djb_hash s)) s)
            | NJS_NUMBER _ _ \<Rightarrow> Some (NJS_ERROR, None, fh)) = Some (r, i, fh')"
    and alt: "r = NJS_ERROR \<and> i = None \<and> (\<exists>m. \<not> pool_alloc env m) \<or>
        r = NJS_OK \<and> i = Some (entry_count fh) \<and> dense (store_value (entry_count fh) v fh') \<and>
        entries (store_value (entry_count fh) v fh') = entries fh @ [(fresh_elt kh)\<lparr>elt_value := Some v\<rparr>]" by blast
  from alt show ?case
  proof (elim disjE conjE)
    assume "r = NJS_ERROR" "i = None" "\<exists>m. \<not> pool_alloc env m"
    then show ?thesis using st by auto
  next
    assume add: "dense (store_value (entry_count fh) v fh')"
      "entries (store_value (entry_count fh) v fh') = entries fh @ [(fresh_elt kh)\<lparr>elt_value := Some v\<rparr>]"
      and ri: "r = NJS_OK" "i = Some (entry_count fh)"
    let ?fh = "store_value (entry_count fh) v fh'"
    have "(set_current ?fh ?vm)\<lparr>atom_id_generator := atom_id_generator ?vm + 1\<rparr> = init_vm ?fh (Suc n)"
      by (simp add: set_current_def init_vm_def add.commute)
    with push_atom[OF inv room add(1), where kh = kh and v = v] add(2) cur num fr kh_def
    have p: "atoms_inv (init_vm ?fh (Suc n))" "values_of ?fh = values_of fh @ [v]"
      by (auto simp: atom_list_init)
    have "\<exists>fh' ok. atom_init_loop env vs ?fh = Some (fh', ok) \<and>
      (ok \<longrightarrow> atoms_inv (init_vm fh' (Suc n + length vs)) \<and> values_of fh' = values_of ?fh @ vs) \<and>
      (\<not> ok \<longrightarrow> (\<exists>m. \<not> pool_alloc env m))"
      by (rule Cons.IH[OF p(1)]) (use p(2) Cons.prems in simp_all)
    then show ?thesis using st ri p(2) by simp
  qed
qed

lemma atom_hash_init_cases:
  assumes "well_numbered defs" "length defs \<le> 2 ^ 26"
  obtains (ok) fh where "njs_atom_hash_init env defs vm = Some (of_nat (length defs), vm\<lparr>atom_hash_shared := fh, cur_shared := True\<rparr>)"
      "atoms_inv (init_vm fh (length defs))" "atom_list (init_vm fh (length defs)) = defs"
  | (failed) fh where "njs_atom_hash_init env defs vm = Some (0xFFFFFFFF, vm\<lparr>atom_hash_shared := fh\<rparr>)"
      "\<exists>m. \<not> pool_alloc env m"
proof -
  have k: "keyed (None :: 'a njs_value njs_flathsh)"
    by (simp add: keyed_def dense_def fh_inv_def entries_def entry_count_def)
  have "atoms_inv (init_vm None 0 :: 'a njs_vm)" using k
    by (simp add: atoms_inv_def atom_list_init init_vm_def atom_list_def own_values_def)
       (simp add: values_of_def entries_def well_numbered_def string_at_def)
  from init_loop_inv[OF this, of defs env] assms obtain fh' ok where
    "atom_init_loop env defs None = Some (fh', ok)"
    "ok \<longrightarrow> atoms_inv (init_vm fh' (length defs)) \<and> values_of fh' = defs" "\<not> ok \<longrightarrow> (\<exists>m. \<not> pool_alloc env m)"
    by (auto simp: values_of_def entries_def)
  then show thesis
    by (cases ok) (auto simp: njs_atom_hash_init_def atom_list_init intro: that)
qed

lemma not_number_small: "\<not> njs_atom_is_number a \<Longrightarrow> a < 2 ^ 31"
proof -
  assume "\<not> njs_atom_is_number a"
  then have "\<not> bit a 31" by (simp add: is_number_bit)
  then have "take_bit 31 a = a"
    by (intro bit_word_eqI) (auto simp: bit_take_bit_iff less_Suc_eq numeral_eq_Suc)
  then have "a AND mask 31 = a" by (simp add: take_bit_eq_mask)
  then show "a < 2 ^ 31" using and_mask_less'[of 31 a] by simp
qed

lemma clone_inv:
  assumes "atoms_inv vm" "cur_shared vm"
  shows "atoms_inv (clone_atoms vm)" "atom_list (clone_atoms vm) = atom_list vm"
proof -
  have k: "keyed (None :: 'a njs_value njs_flathsh)"
    by (simp add: keyed_def dense_def fh_inv_def entries_def entry_count_def)
  have v: "values_of (None :: 'a njs_value njs_flathsh) = []" by (simp add: values_of_def entries_def)
  show l: "atom_list (clone_atoms vm) = atom_list vm"
    using assms(2) v by (simp add: clone_atoms_def atom_list_def own_values_def)
  show "atoms_inv (clone_atoms vm)" using assms k l
    by (simp add: atoms_inv_def clone_atoms_def) (simp add: atom_list_def own_values_def v)
qed

lemma ids_kept:
  assumes "atoms_inv vm" "atoms_inv vm'" "atom_list vm' = atom_list vm @ ws"
  shows "\<forall>b w. njs_atom_to_value env vm b = Some w \<longrightarrow> njs_atom_to_value env vm' b = Some w"
proof (intro allI impI)
  fix b w assume w: "njs_atom_to_value env vm b = Some w"
  show "njs_atom_to_value env vm' b = Some w"
  proof (cases "njs_atom_is_number b")
    case True
    then show ?thesis using w by (simp add: njs_atom_to_value_def)
  next
    case False
    then have "b < 2 ^ 31" by (rule not_number_small)
    then show ?thesis using w atom_to_value_nth[OF assms(2)] atom_to_value_nth[OF assms(1)] assms(3)
      by (auto simp: nth_append split: if_splits)
  qed
qed

text \<open>What the number conversions promise: only a canonical decimal is an index, and it is its name.\<close>

definition canonical_index :: "'n atom_env \<Rightarrow> bool" where
  "canonical_index env \<longleftrightarrow> (\<forall>s n. key_to_index env s = Some n \<longrightarrow> n < 2 ^ 31 \<and> index_to_string env n = s)"

lemma atomize_means:
  assumes "atoms_inv vm" "length (atom_list vm) < 2 ^ 26" "canonical_index env"
    "njs_atom_atomize_key env vm (NJS_STRING s a t) = Some (NJS_OK, v, vm')"
  shows "atoms_inv vm' \<and> (\<exists>w. njs_atom_to_value env vm' (str_atom v) = Some w \<and> str_bytes w = s) \<and>
    (\<exists>ws. atom_list vm' = atom_list vm @ ws) \<and>
    (key_to_index env s = None \<longrightarrow> (\<exists>i. string_at (atom_list vm') i s \<and> str_atom v = of_nat i))"
proof (cases "key_to_index env s")
  case (Some n)
  then have n: "n < 2 ^ 31" "index_to_string env n = s" using assms(3) by (auto simp: canonical_index_def)
  have v: "str_atom v = njs_number_atom n" "vm' = vm" using assms(4) Some by (auto simp: njs_atom_atomize_key_def)
  have "njs_atom_to_value env vm' (str_atom v) = Some (NJS_STRING s (str_atom v) 0)"
    using v n(2) atom_bits(1)[of n] atom_bits(2)[OF n(1)] by (simp add: njs_atom_to_value_def)
  then show ?thesis using v(2) assms(1) Some by auto
next
  case None
  then have i: "intern env vm (NJS_STRING s a t) = Some (Some v, vm')"
    using assms(4) by (auto simp: njs_atom_atomize_key_def split: option.splits)
  from intern_string[OF assms(1,2) _ i, of s] obtain k u ws where
    r: "atoms_inv vm'" "k < length (atom_list vm')" "atom_list vm' ! k = v" "v = NJS_STRING s (of_nat k) u"
      "atom_list vm' = atom_list vm @ ws" by auto
  have tv: "njs_atom_to_value env vm' (str_atom v) = Some v"
    using atom_to_value_nth[OF r(1)] atom_list_bound[OF r(1,2)] r(2,3,4) by simp
  have "str_bytes v = s" "string_at (atom_list vm') k s \<and> str_atom v = of_nat k"
    using r(2,3,4) by (simp_all add: string_at_def)
  then show ?thesis using tv r(1,5) by blast
qed

subsection \<open>The properties\<close>

text \<open>A small VM for the witnesses: two built-in atoms, digits as the only indices.\<close>

definition sample_env :: "nat atom_env" where
  "sample_env =
     \<lparr>key_to_index = (\<lambda>s. if s = [0x30] then Some 0 else if s = [0x31] then Some 1 else None),
      num_to_index = (\<lambda>n. if n < 2 then Some (of_nat n) else None),
      number_to_string = (\<lambda>n. ([0x6E], 0)), index_to_string = (\<lambda>n. if n = 0 then [0x30] else [0x31]),
      pool_alloc = (\<lambda>_. True)\<rparr>"

definition sample_atoms :: "nat njs_value list" where
  "sample_atoms = [NJS_STRING [0xFF, 0xFF] 0 0, NJS_SYMBOL 1 [0x69]]"

definition sample_vm :: "nat njs_vm" where
  "sample_vm = (case njs_atom_hash_init sample_env sample_atoms (init_vm None 2) of Some (_, vm) \<Rightarrow> vm | None \<Rightarrow> init_vm None 0)"

lemma sample_atoms: "well_numbered sample_atoms"
proof -
  have "i = 0" if "string_at sample_atoms i s" for i s
    using that by (cases i) (auto simp: sample_atoms_def string_at_def less_Suc_eq)
  then show ?thesis by (auto simp: well_numbered_def sample_atoms_def less_Suc_eq)
qed

lemma sample_vm: "atoms_inv sample_vm" "length (atom_list sample_vm) = 2"
proof -
  have l: "length sample_atoms \<le> 2 ^ 26" by (simp add: sample_atoms_def)
  have "atoms_inv sample_vm \<and> atom_list sample_vm = sample_atoms"
  proof (cases rule: atom_hash_init_cases[OF sample_atoms l, where env = sample_env and vm = "init_vm None 2", case_names ok failed])
    case (ok fh)
    then have "sample_vm = init_vm fh (length sample_atoms)" by (simp add: sample_vm_def init_vm_def sample_atoms_def)
    then show ?thesis using ok by simp
  qed (simp add: sample_env_def)
  then show "atoms_inv sample_vm" "length (atom_list sample_vm) = 2" by (simp_all add: sample_atoms_def)
qed

lemma sample_canonical: "canonical_index sample_env"
  by (auto simp: canonical_index_def sample_env_def split: if_splits)

lemma atomize_succeeds:
  assumes "atoms_inv vm" "length (atom_list vm) < 2 ^ 26" "key_to_index env s = None" "\<forall>n. pool_alloc env n"
  shows "\<exists>v vm'. njs_atom_atomize_key env vm (NJS_STRING s a t) = Some (NJS_OK, v, vm') \<and> atoms_inv vm' \<and>
           length (atom_list vm') \<le> length (atom_list vm) + 1"
proof -
  have sb: "str_bytes (NJS_STRING s a t :: 'a njs_value) = s" by simp
  show ?thesis
    by (cases rule: intern_cases[OF assms(1,2) sb, where env = env, case_names found added failed])
       (use assms in \<open>auto simp: njs_atom_atomize_key_def\<close>)
qed

text \<open>
  C19. Interning: on a consistent VM with room, \<open>njs_atom_atomize_key\<close> of a string that is not an
  array index always returns.  If it succeeds, the key it answers has the same bytes, reading its
  id with \<open>njs_atom_to_value\<close> gives the key back, and every id handed out before keeps its
  meaning.  If it fails, the allocator failed and no atom has changed.
\<close>

theorem atomize_string:
  assumes "atoms_inv vm" "length (atom_list vm) < 2 ^ 26" "key_to_index env s = None"
  shows "\<exists>r v vm'. njs_atom_atomize_key env vm (NJS_STRING s a t) = Some (r, v, vm') \<and> atoms_inv vm' \<and>
     (r = NJS_OK \<longrightarrow> str_bytes v = s \<and> njs_atom_to_value env vm' (str_atom v) = Some v) \<and>
     (r \<noteq> NJS_OK \<longrightarrow> r = NJS_ERROR \<and> (\<exists>n. \<not> pool_alloc env n)) \<and>
     (\<forall>b w. njs_atom_to_value env vm b = Some w \<longrightarrow> njs_atom_to_value env vm' b = Some w)"
proof -
  have sb: "str_bytes (NJS_STRING s a t :: 'a njs_value) = s" by simp
  note keep = ids_kept[OF assms(1)]
  show ?thesis
  proof (cases "intern env vm (NJS_STRING s a t)")
    case None
    then show ?thesis
      by (cases rule: intern_cases[OF assms(1,2) sb, where env = env]) simp_all
  next
    case (Some p)
    obtain e vm' where p: "p = (e, vm')" by (cases p)
    show ?thesis
    proof (cases e)
      case None
      then have "atoms_inv vm'" "atom_list vm' = atom_list vm" "\<exists>n. \<not> pool_alloc env n"
        using Some p by (cases rule: intern_cases[OF assms(1,2) sb, where env = env]; simp)+
      then show ?thesis using keep[of vm' "[]"] Some p None assms(3) by (simp add: njs_atom_atomize_key_def)
    next
      case v: (Some v)
      from intern_string[OF assms(1,2) sb] Some p v obtain i u ws where
        r: "atoms_inv vm'" "i < length (atom_list vm')" "atom_list vm' ! i = v" "v = NJS_STRING s (of_nat i) u"
          "atom_list vm' = atom_list vm @ ws" by blast
      have "njs_atom_to_value env vm' (of_nat i) = Some v"
        using atom_to_value_nth[OF r(1)] atom_list_bound[OF r(1,2)] r(2,3) by simp
      then show ?thesis using keep[OF r(1,5)] Some p v r assms(3) by (simp add: njs_atom_atomize_key_def)
    qed
  qed
qed

theorem atomize_string_witness:
  "\<exists>r v vm'. njs_atom_atomize_key sample_env sample_vm (NJS_STRING [0x61] 0 0) = Some (r, v, vm') \<and> atoms_inv vm' \<and>
     (r = NJS_OK \<longrightarrow> str_bytes v = [0x61] \<and> njs_atom_to_value sample_env vm' (str_atom v) = Some v) \<and>
     (r \<noteq> NJS_OK \<longrightarrow> r = NJS_ERROR \<and> (\<exists>n. \<not> pool_alloc sample_env n)) \<and>
     (\<forall>b w. njs_atom_to_value sample_env sample_vm b = Some w \<longrightarrow> njs_atom_to_value sample_env vm' b = Some w)"
  by (rule atomize_string) (simp_all add: sample_vm sample_env_def)

text \<open>
  C7. Atom ids identify keys: when two keys are atomized one after the other in a VM, in any state
  of its tables, the two ids are equal exactly when the keys have the same bytes, be they array
  indices or interned strings.  Property lookup compares ids only.  The conversions of numbers
  are assumed canonical: a string is an index only if it is the decimal name of that index.
\<close>

theorem atom_ids_identify:
  assumes "atoms_inv vm" "length (atom_list vm) + 1 < 2 ^ 26" "canonical_index env"
    "njs_atom_atomize_key env vm (NJS_STRING s a t) = Some (NJS_OK, v, vm1)"
    "njs_atom_atomize_key env vm1 (NJS_STRING s' a' t') = Some (NJS_OK, v', vm2)"
    "length (atom_list vm1) < 2 ^ 26"
  shows "str_atom v = str_atom v' \<longleftrightarrow> s = s'"
proof -
  have room: "length (atom_list vm) < 2 ^ 26" using assms(2) by simp
  from atomize_means[OF assms(1) room assms(3,4)] obtain w where
    1: "atoms_inv vm1" "njs_atom_to_value env vm1 (str_atom v) = Some w" "str_bytes w = s"
     "key_to_index env s = None \<longrightarrow> (\<exists>i. string_at (atom_list vm1) i s \<and> str_atom v = of_nat i)" by (elim conjE exE) (rule that)
  from atomize_means[OF 1(1) assms(6,3,5)] obtain w' ws where
    2: "atoms_inv vm2" "njs_atom_to_value env vm2 (str_atom v') = Some w'" "str_bytes w' = s'"
      "atom_list vm2 = atom_list vm1 @ ws"
      "key_to_index env s' = None \<longrightarrow> (\<exists>i. string_at (atom_list vm2) i s' \<and> str_atom v' = of_nat i)" by (elim conjE exE) (rule that)
  have "njs_atom_to_value env vm2 (str_atom v) = Some w" using ids_kept[OF 1(1) 2(1,4)] 1(2) by blast
  moreover have "str_atom v = str_atom v'" if eq: "s = s'"
  proof (cases "key_to_index env s")
    case (Some n)
    then show ?thesis using assms(4,5) eq by (auto simp: njs_atom_atomize_key_def)
  next
    case None
    then obtain i j where ij: "string_at (atom_list vm1) i s" "str_atom v = of_nat i"
      "string_at (atom_list vm2) j s" "str_atom v' = of_nat j" using 1(4) 2(5) eq by auto
    then have "string_at (atom_list vm2) i s" using 2(4) by (simp add: string_at_append)
    then show ?thesis using ij 2(1) by (auto simp: atoms_inv_def well_numbered_def)
  qed
  ultimately show ?thesis using 2(2,3) 1(3) by auto
qed

text \<open>
  \<open>njs_atom_symbol_add\<close> gives a symbol an id that nothing had before: reading the id afterwards
  answers the symbol, older ids keep their meaning, and a failure comes from the allocator
  only.
\<close>

theorem symbol_add_fresh:
  assumes "atoms_inv vm" "length (atom_list vm) < 2 ^ 26"
  shows "\<exists>r v vm'. njs_atom_symbol_add env vm (NJS_SYMBOL 0 descr) = Some (r, v, vm') \<and> atoms_inv vm' \<and>
     (r = NJS_OK \<longrightarrow> v = NJS_SYMBOL (sym_atom v) descr \<and> njs_atom_to_value env vm (sym_atom v) = None \<and>
        njs_atom_to_value env vm' (sym_atom v) = Some v) \<and>
     (r \<noteq> NJS_OK \<longrightarrow> r = NJS_ERROR \<and> (\<exists>n. \<not> pool_alloc env n)) \<and>
     (\<forall>b w. njs_atom_to_value env vm b = Some w \<longrightarrow> njs_atom_to_value env vm' b = Some w)"
proof (cases rule: symbol_add_cases[OF assms, where env = env and sm = "NJS_SYMBOL 0 descr", case_names added failed])
  case (added v vm')
  have g: "unat (atom_id_generator vm) = length (atom_list vm)" using assms(1) by (simp add: atoms_inv_def)
  note gs = generator_small(1)[OF assms(1)]
  have "njs_atom_to_value env vm (sym_atom v) = None" "njs_atom_to_value env vm' (sym_atom v) = Some v"
    using atom_to_value_nth[OF assms(1) gs] atom_to_value_nth[OF added(3) gs] added(2,4) g by simp_all
  then show ?thesis using added ids_kept[OF assms(1) added(3,4)] by auto
next
  case (failed v vm')
  then show ?thesis using ids_kept[OF assms(1) failed(2), of "[]"] by simp
qed

theorem symbol_add_fresh_witness:
  "\<exists>r v vm'. njs_atom_symbol_add sample_env sample_vm (NJS_SYMBOL 0 [0x78]) = Some (r, v, vm') \<and> atoms_inv vm' \<and>
     (r = NJS_OK \<longrightarrow> v = NJS_SYMBOL (sym_atom v) [0x78] \<and> njs_atom_to_value sample_env sample_vm (sym_atom v) = None \<and>
        njs_atom_to_value sample_env vm' (sym_atom v) = Some v) \<and>
     (r \<noteq> NJS_OK \<longrightarrow> r = NJS_ERROR \<and> (\<exists>n. \<not> pool_alloc sample_env n)) \<and>
     (\<forall>b w. njs_atom_to_value sample_env sample_vm b = Some w \<longrightarrow> njs_atom_to_value sample_env vm' b = Some w)"
  by (rule symbol_add_fresh) (simp_all add: sample_vm)

text \<open>
  A VM created from the built-in atoms and then cloned: initialisation fills the shared table
  with the built-in atoms under their own numbers (or reports a failed allocation), and the
  clone, whose own table starts empty, reads every id of the parent as the parent did.
\<close>

theorem init_then_clone:
  assumes "well_numbered defs" "length defs \<le> 2 ^ 26"
  shows "\<exists>g fh. njs_atom_hash_init env defs vm0 = Some (g, vm0\<lparr>atom_hash_shared := fh, cur_shared := cur_shared vm0 \<or> g \<noteq> 0xFFFFFFFF\<rparr>) \<and>
     (if g = 0xFFFFFFFF then (\<exists>m. \<not> pool_alloc env m)
      else g = of_nat (length defs) \<and>
        atoms_inv (clone_atoms (init_vm fh (length defs))) \<and>
        (\<forall>i < length defs. njs_atom_to_value env (clone_atoms (init_vm fh (length defs))) (of_nat i) = Some (defs ! i)))"
  using assms
proof (cases rule: atom_hash_init_cases[OF assms, where env = env and vm = vm0, case_names ok failed])
  case (ok fh)
  have c: "cur_shared (init_vm fh (length defs))" by (simp add: init_vm_def)
  note cl = clone_inv[OF ok(2) c]
  have "of_nat (length defs) \<noteq> (0xFFFFFFFF :: uint32)"
  proof
    assume "of_nat (length defs) = (0xFFFFFFFF :: uint32)"
    then have "unat (of_nat (length defs) :: uint32) = unat (0xFFFFFFFF :: uint32)" by simp
    then show False using assms(2) by (simp add: unat_of_nat)
  qed
  moreover have "njs_atom_to_value env (clone_atoms (init_vm fh (length defs))) (of_nat i) = Some (defs ! i)"
    if "i < length defs" for i
  proof -
    have i: "i < length (atom_list (clone_atoms (init_vm fh (length defs))))" using that cl(2) ok(3) by simp
    have b: "of_nat i < (2 ^ 31 :: uint32)" "unat (of_nat i :: uint32) = i" using atom_list_bound[OF cl(1) i] by simp_all
    show ?thesis using atom_to_value_nth[OF cl(1) b(1)] b(2) i cl(2) ok(3) by simp
  qed
  ultimately show ?thesis using ok(1) cl(1)
    by (intro exI[of _ "of_nat (length defs)"] exI[of _ fh]) simp
next
  case (failed fh)
  then show ?thesis by (intro exI[of _ "0xFFFFFFFF"] exI[of _ fh]) simp
qed

theorem init_then_clone_witness:
  "\<exists>g fh. njs_atom_hash_init sample_env sample_atoms sample_vm = Some (g, sample_vm\<lparr>atom_hash_shared := fh, cur_shared := cur_shared sample_vm \<or> g \<noteq> 0xFFFFFFFF\<rparr>) \<and>
     (if g = 0xFFFFFFFF then (\<exists>m. \<not> pool_alloc sample_env m)
      else g = of_nat (length sample_atoms) \<and>
        atoms_inv (clone_atoms (init_vm fh (length sample_atoms))) \<and>
        (\<forall>i < length sample_atoms. njs_atom_to_value sample_env (clone_atoms (init_vm fh (length sample_atoms))) (of_nat i) =
           Some (sample_atoms ! i)))"
  by (rule init_then_clone) (rule sample_atoms, simp add: sample_atoms_def)

theorem atom_ids_identify_witness:
  "\<exists>v vm1 v' vm2.
     njs_atom_atomize_key sample_env sample_vm (NJS_STRING [0x61] 0 0) = Some (NJS_OK, v, vm1) \<and>
     njs_atom_atomize_key sample_env vm1 (NJS_STRING [0x62] 0 0) = Some (NJS_OK, v', vm2) \<and>
     (str_atom v = str_atom v' \<longleftrightarrow> [0x61 :: u_char] = [0x62])"
proof -
  have e: "key_to_index sample_env [0x61] = None" "key_to_index sample_env [0x62] = None" "\<forall>n. pool_alloc sample_env n"
    by (simp_all add: sample_env_def)
  have r: "length (atom_list sample_vm) < 2 ^ 26" using sample_vm(2) by simp
  obtain v vm1 where 1: "njs_atom_atomize_key sample_env sample_vm (NJS_STRING [0x61] 0 0) = Some (NJS_OK, v, vm1)"
    "atoms_inv vm1" "length (atom_list vm1) \<le> 3"
    using atomize_succeeds[OF sample_vm(1) r e(1,3), of 0 0] sample_vm(2) by auto
  have r1: "length (atom_list vm1) < 2 ^ 26" using 1(3) by simp
  obtain v' vm2 where 2: "njs_atom_atomize_key sample_env vm1 (NJS_STRING [0x62] 0 0) = Some (NJS_OK, v', vm2)"
    using atomize_succeeds[OF 1(2) r1 e(2,3), of 0 0] by auto
  have r0: "length (atom_list sample_vm) + 1 < 2 ^ 26" using sample_vm(2) by simp
  show ?thesis using atom_ids_identify[OF sample_vm(1) r0 sample_canonical 1(1) 2 r1] 1(1) 2 by blast
qed

end
