(* ===== verification/Njs_Qsort.thy ===== *)
theory Njs_Qsort
  imports Njs_Prelude "HOL-Library.Multiset"
begin

section \<open>Sorting (src/src/njs_utils.c)\<close>

text \<open>
  \<open>njs_qsort\<close> sorts every JavaScript array and typed array: a three-way quicksort with an explicit
  stack of 16 segments, heap sort when the stack is full, and insertion sort for segments of at
  most six elements.  The array is a list; a position is an index, where the code has a byte
  offset that is a multiple of the element size.  The comparison function, with its context, is
  the argument \<open>cmp\<close>; it may be the user's and need not be an order.
\<close>

type_synonym 'a sort_cmp = "'a \<Rightarrow> 'a \<Rightarrow> int"

subsection \<open>Swapping\<close>

definition swap :: "'a list \<Rightarrow> nat \<Rightarrow> nat \<Rightarrow> 'a list" where
  "swap xs i j = xs[i := xs ! j, j := xs ! i]"

text \<open>
  The swap functions on memory: \<open>njs_swap_bytes\<close> exchanges byte by byte; the others exchange units
  of one to eight bytes or pairs of 64-bit words, reading both before they write.
\<close>

definition swap_unit :: "nat \<Rightarrow> u_char list \<Rightarrow> nat \<Rightarrow> nat \<Rightarrow> u_char list" where
  "swap_unit k mem a b =
     (let u = take k (drop a mem);
          mem = take a mem @ take k (drop b mem) @ drop (a + k) mem
      in take b mem @ u @ drop (b + k) mem)"

definition njs_swap_u8 :: "u_char list \<Rightarrow> nat \<Rightarrow> nat \<Rightarrow> nat \<Rightarrow> u_char list" where
  "njs_swap_u8 mem a b sz = swap_unit 1 mem a b"

definition njs_swap_u16 :: "u_char list \<Rightarrow> nat \<Rightarrow> nat \<Rightarrow> nat \<Rightarrow> u_char list" where
  "njs_swap_u16 mem a b sz = swap_unit 2 mem a b"

definition njs_swap_u32 :: "u_char list \<Rightarrow> nat \<Rightarrow> nat \<Rightarrow> nat \<Rightarrow> u_char list" where
  "njs_swap_u32 mem a b sz = swap_unit 4 mem a b"

definition njs_swap_u64 :: "u_char list \<Rightarrow> nat \<Rightarrow> nat \<Rightarrow> nat \<Rightarrow> u_char list" where
  "njs_swap_u64 mem a b sz = swap_unit 8 mem a b"

definition njs_swap_u128 :: "u_char list \<Rightarrow> nat \<Rightarrow> nat \<Rightarrow> nat \<Rightarrow> u_char list" where
  "njs_swap_u128 mem a b sz = swap_unit 16 mem a b"

function njs_swap_u128x :: "u_char list \<Rightarrow> nat \<Rightarrow> nat \<Rightarrow> nat \<Rightarrow> u_char list" where
  "njs_swap_u128x mem a b sz =
     (let mem = swap_unit 16 mem a b; sz' = sz - 16
      in if sz' = 0 then mem else njs_swap_u128x mem (a + 16) (b + 16) sz')"
  by pat_completeness auto
termination
  by (relation "measure (\<lambda>(mem, a, b, sz). sz)") auto

declare njs_swap_u128x.simps [simp del]

fun njs_swap_bytes :: "u_char list \<Rightarrow> nat \<Rightarrow> nat \<Rightarrow> nat \<Rightarrow> u_char list" where
  "njs_swap_bytes mem a b 0 = mem"
| "njs_swap_bytes mem a b (Suc sz) = njs_swap_bytes (swap mem a b) (a + 1) (b + 1) sz"

definition njs_choose_swap :: "nat \<Rightarrow> u_char list \<Rightarrow> nat \<Rightarrow> nat \<Rightarrow> nat \<Rightarrow> u_char list" where
  "njs_choose_swap sz =
     (if sz = 2 then njs_swap_u16 else if sz = 4 then njs_swap_u32
      else if sz = 8 then njs_swap_u64 else if sz = 16 then njs_swap_u128
      else if sz mod 16 = 0 then njs_swap_u128x else if sz = 1 then njs_swap_u8
      else njs_swap_bytes)"

subsection \<open>Heap sort\<close>

text \<open>The child that \<open>m\<close> moves to in one turn of \<open>njs_sift_down\<close>.\<close>

definition sift_child :: "'a sort_cmp \<Rightarrow> 'a list \<Rightarrow> nat \<Rightarrow> nat \<Rightarrow> nat \<Rightarrow> nat" where
  "sift_child cmp xs base n i =
     (let m = i; c = 2 * i + 1;
          m = (if c < n \<and> cmp (xs ! (base + m)) (xs ! (base + c)) < 0 then c else m);
          c = c + 1
      in if c < n \<and> cmp (xs ! (base + m)) (xs ! (base + c)) < 0 then c else m)"

lemma sift_child_bounds: "sift_child cmp xs base n i \<noteq> i \<Longrightarrow> i < sift_child cmp xs base n i \<and> sift_child cmp xs base n i < n"
  by (auto simp: sift_child_def Let_def split: if_splits)

function njs_sift_down :: "'a sort_cmp \<Rightarrow> 'a list \<Rightarrow> nat \<Rightarrow> nat \<Rightarrow> nat \<Rightarrow> 'a list" where
  "njs_sift_down cmp xs base n i =
     (let m = sift_child cmp xs base n i
      in if m = i then xs else njs_sift_down cmp (swap xs (base + i) (base + m)) base n m)"
  by pat_completeness auto
termination
  by (relation "measure (\<lambda>(cmp, xs, base, n, i). n - i)") (auto dest: sift_child_bounds)

declare njs_sift_down.simps [simp del]

fun heapify :: "'a sort_cmp \<Rightarrow> 'a list \<Rightarrow> nat \<Rightarrow> nat \<Rightarrow> nat \<Rightarrow> 'a list" where
  "heapify cmp xs base n 0 = njs_sift_down cmp xs base n 0"
| "heapify cmp xs base n (Suc i) = heapify cmp (njs_sift_down cmp xs base n (Suc i)) base n i"

fun heap_extract :: "'a sort_cmp \<Rightarrow> 'a list \<Rightarrow> nat \<Rightarrow> nat \<Rightarrow> 'a list" where
  "heap_extract cmp xs base 0 = xs"
| "heap_extract cmp xs base (Suc n) =
     (if n = 0 then xs
      else heap_extract cmp (njs_sift_down cmp (swap xs base (base + n)) base n 0) base n)"

definition njs_heapsort :: "'a sort_cmp \<Rightarrow> 'a list \<Rightarrow> nat \<Rightarrow> nat \<Rightarrow> 'a list" where
  "njs_heapsort cmp xs base n = heap_extract cmp (heapify cmp xs base n (n div 2)) base n"

subsection \<open>Quicksort\<close>

definition njs_pivot :: "'a sort_cmp \<Rightarrow> 'a list \<Rightarrow> nat \<Rightarrow> nat \<Rightarrow> nat \<Rightarrow> nat" where
  "njs_pivot cmp xs a b c =
     (if cmp (xs ! a) (xs ! c) < 0 then
        (if cmp (xs ! b) (xs ! c) < 0 then (if cmp (xs ! a) (xs ! b) < 0 then b else a) else c)
      else if cmp (xs ! b) (xs ! a) < 0 then (if cmp (xs ! b) (xs ! c) < 0 then c else b)
      else a)"

definition NJS_MAX_DEPTH :: nat where "NJS_MAX_DEPTH = 16"

function partition_loop :: "'a sort_cmp \<Rightarrow> 'a list \<Rightarrow> nat \<Rightarrow> nat \<Rightarrow> nat \<Rightarrow> 'a list \<times> nat \<times> nat" where
  "partition_loop cmp xs lt p gt =
     (if p < gt then
        (let r = cmp (xs ! p) (xs ! lt)
         in if r \<le> 0 then
              (if r < 0 then partition_loop cmp (swap xs lt p) (lt + 1) (p + 1) gt
               else partition_loop cmp xs lt (p + 1) gt)
            else partition_loop cmp (swap xs (gt - 1) p) lt p (gt - 1))
      else (xs, lt, gt))"
  by pat_completeness auto
termination
  by (relation "measure (\<lambda>(cmp, xs, lt, p, gt). gt - p)") auto

declare partition_loop.simps [simp del]

text \<open>Whatever \<open>cmp\<close> answers, the pivot stays between the two parts, so the parts are smaller.\<close>

lemma partition_bounds:
  assumes "partition_loop cmp xs lt p gt = (xs', lt', gt')" "lt < p" "p \<le> gt"
  shows "lt \<le> lt' \<and> lt' < gt' \<and> gt' \<le> gt"
  using assms
proof (induction cmp xs lt p gt rule: partition_loop.induct)
  case (1 cmp xs lt p gt)
  let ?r = "cmp (xs ! p) (xs ! lt)"
  show ?case
  proof (cases "p < gt")
    case False
    then show ?thesis using "1.prems" by (simp add: partition_loop.simps)
  next
    case p: True
    consider "?r < 0" | "?r = 0" | "?r > 0" by linarith
    then show ?thesis
    proof cases
      case 1
      then show ?thesis using "1.IH"(1)[OF p refl] "1.prems" p partition_loop.simps[of cmp xs lt p gt] by simp
    next
      case 2
      then show ?thesis using "1.IH"(2)[OF p refl] "1.prems" p partition_loop.simps[of cmp xs lt p gt] by simp
    next
      case 3
      have e: "partition_loop cmp (swap xs (gt - 1) p) lt p (gt - 1) = (xs', lt', gt')"
        using 3 "1.prems"(1) p by (simp add: partition_loop.simps[of cmp xs lt p gt])
      have "lt \<le> lt' \<and> lt' < gt' \<and> gt' \<le> gt - 1"
        by (rule "1.IH"(3)[OF p refl _ e "1.prems"(2)]) (use 3 p in simp_all)
      then show ?thesis by linarith
    qed
  qed
qed

definition partition_step :: "'a sort_cmp \<Rightarrow> 'a list \<Rightarrow> nat \<Rightarrow> nat \<Rightarrow> 'a list \<times> nat \<times> nat" where
  "partition_step cmp xs base n =
     (let m4 = n div 4;
          p = njs_pivot cmp xs (base + m4) (base + 2 * m4) (base + 3 * m4);
          xs = swap xs base p
      in partition_loop cmp xs base (base + 1) (base + n))"

lemma partition_step_bounds:
  assumes "partition_step cmp xs base n = (xs', lt, gt)" "0 < n"
  shows "base \<le> lt \<and> lt < gt \<and> gt \<le> base + n"
  using partition_bounds[of cmp "swap xs base (njs_pivot cmp xs (base + n div 4) (base + 2 * (n div 4)) (base + 3 * (n div 4)))"
      base "base + 1" "base + n" xs' lt gt] assms
  by (auto simp: partition_step_def Let_def)

text \<open>
  The loop over one segment: it pushes the larger part and goes on with the smaller one.  The
  list \<open>stk\<close> holds the segments below \<open>sp\<close>, the top first; its answer is the segment left for
  insertion sort.
\<close>

function segment_loop ::
    "'a sort_cmp \<Rightarrow> 'a list \<Rightarrow> (nat \<times> nat) list \<Rightarrow> nat \<Rightarrow> nat \<Rightarrow>
     'a list \<times> (nat \<times> nat) list \<times> nat \<times> nat" where
  "segment_loop cmp xs stk base n =
     (if 6 < n then
        (if length stk = NJS_MAX_DEPTH - 1 then (njs_heapsort cmp xs base n, stk, base, base)
         else
           (case partition_step cmp xs base n of
              (xs', lt, gt) \<Rightarrow>
                (if (base + n) - gt < lt - base then
                   segment_loop cmp xs' ((base, lt - base) # stk) gt (base + n - gt)
                 else segment_loop cmp xs' ((gt, base + n - gt) # stk) base (lt - base))))
      else (xs, stk, base, base + n))"
  by pat_completeness auto
termination
  by (relation "measure (\<lambda>(cmp, xs, stk, base, n). n)") (auto dest!: partition_step_bounds[OF sym])

declare segment_loop.simps [simp del]

fun insert_down :: "'a sort_cmp \<Rightarrow> 'a list \<Rightarrow> nat \<Rightarrow> nat \<Rightarrow> 'a list" where
  "insert_down cmp xs base 0 = xs"
| "insert_down cmp xs base (Suc c) =
     (if base < Suc c \<and> cmp (xs ! Suc c) (xs ! c) < 0 then insert_down cmp (swap xs (Suc c) c) base c else xs)"

function insertion_sort :: "'a sort_cmp \<Rightarrow> 'a list \<Rightarrow> nat \<Rightarrow> nat \<Rightarrow> nat \<Rightarrow> 'a list" where
  "insertion_sort cmp xs base p endp =
     (if p < endp then insertion_sort cmp (insert_down cmp xs base p) base (p + 1) endp else xs)"
  by pat_completeness auto
termination
  by (relation "measure (\<lambda>(cmp, xs, base, p, endp). endp - p)") auto

declare insertion_sort.simps [simp del]

definition stack_size :: "(nat \<times> nat) list \<Rightarrow> nat" where
  "stack_size stk = sum_list (map (\<lambda>(_, n). n + 1) stk)"

lemma stack_size_Cons [simp]: "stack_size ((b, n) # stk) = n + 1 + stack_size stk"
  by (simp add: stack_size_def)

lemma segment_loop_stack:
  assumes "segment_loop cmp xs stk base n = (xs', stk', base', endp)"
  shows "stack_size stk' < stack_size stk + n + 1"
  using assms
proof (induction cmp xs stk base n rule: segment_loop.induct)
  case (1 cmp xs stk base n)
  show ?case
  proof (cases "6 < n \<and> length stk \<noteq> NJS_MAX_DEPTH - 1")
    case False
    then show ?thesis using "1.prems" segment_loop.simps[of cmp xs stk base n] by (auto split: if_splits)
  next
    case True
    obtain ys lt gt where p: "partition_step cmp xs base n = (ys, lt, gt)" by (cases "partition_step cmp xs base n")
    have b: "base \<le> lt" "lt < gt" "gt \<le> base + n" using partition_step_bounds[OF p] True by simp_all
    show ?thesis
    proof (cases "base + n - gt < lt - base")
      case c: True
      have "segment_loop cmp ys ((base, lt - base) # stk) gt (base + n - gt) = (xs', stk', base', endp)"
        using "1.prems" True p c by (simp add: segment_loop.simps[of cmp xs stk base n])
      from "1.IH"(1)[OF _ _ p[symmetric] refl c this] True b show ?thesis by simp
    next
      case c: False
      have "segment_loop cmp ys ((gt, base + n - gt) # stk) base (lt - base) = (xs', stk', base', endp)"
        using "1.prems" True p c by (simp add: segment_loop.simps[of cmp xs stk base n])
      from "1.IH"(2)[OF _ _ p[symmetric] refl c this] True b show ?thesis by simp
    qed
  qed
qed

function qsort_loop :: "'a sort_cmp \<Rightarrow> 'a list \<Rightarrow> (nat \<times> nat) list \<Rightarrow> 'a list" where
  "qsort_loop cmp xs stk =
     (case stk of
        [] \<Rightarrow> xs
      | (base, n) # stk' \<Rightarrow>
          (case segment_loop cmp xs stk' base n of
             (xs', stk'', base', endp) \<Rightarrow>
               qsort_loop cmp (insertion_sort cmp xs' base' (base' + 1) endp) stk''))"
  by pat_completeness auto
termination
  by (relation "measure (\<lambda>(cmp, xs, stk). stack_size stk)")
     (auto dest!: segment_loop_stack[OF sym])

declare qsort_loop.simps [simp del]

definition njs_qsort :: "'a sort_cmp \<Rightarrow> 'a list \<Rightarrow> 'a list" where
  "njs_qsort cmp arr = (if length arr < 2 then arr else qsort_loop cmp arr [(0, length arr)])"

subsection \<open>Comparison functions of typed arrays (src/src/njs_typed_array.c)\<close>

definition njs_typed_array_compare_i8 :: "u_char sort_cmp" where
  "njs_typed_array_compare_i8 a b = sint a - sint b"

definition njs_typed_array_compare_u8 :: "u_char sort_cmp" where
  "njs_typed_array_compare_u8 a b = uint a - uint b"

definition njs_typed_array_compare_i16 :: "uint16 sort_cmp" where
  "njs_typed_array_compare_i16 a b = sint a - sint b"

definition njs_typed_array_compare_u16 :: "uint16 sort_cmp" where
  "njs_typed_array_compare_u16 a b = uint a - uint b"

definition njs_typed_array_compare_i32 :: "uint32 sort_cmp" where
  "njs_typed_array_compare_i32 a b = of_bool (sint b < sint a) - of_bool (sint a < sint b)"

definition njs_typed_array_compare_u32 :: "uint32 sort_cmp" where
  "njs_typed_array_compare_u32 a b = of_bool (b < a) - of_bool (a < b)"

lemmas typed_array_compare_defs =
  njs_typed_array_compare_i8_def njs_typed_array_compare_u8_def njs_typed_array_compare_i16_def
  njs_typed_array_compare_u16_def njs_typed_array_compare_i32_def njs_typed_array_compare_u32_def

end
