(* ===== verification/Njs_Qsort_Props.thy ===== *)
theory Njs_Qsort_Props
  imports Njs_Qsort
begin

section \<open>Correctness of the sort\<close>

text \<open>
  Every pass permutes its own segment only, whatever the comparison answers.  The contract of a
  comparison is the locale \<open>comparator\<close>, in which insertion sort, heap sort and the partition
  are proved; it is interpreted on the comparison functions of the integer typed arrays.
\<close>

subsection \<open>Permutations of a segment\<close>

definition perm_in :: "nat \<Rightarrow> nat \<Rightarrow> 'a list \<Rightarrow> 'a list \<Rightarrow> bool" where
  "perm_in b n xs ys \<longleftrightarrow> mset ys = mset xs \<and> (\<forall>i < length xs. i < b \<or> b + n \<le> i \<longrightarrow> ys ! i = xs ! i)"

lemma perm_in_length: "perm_in b n xs ys \<Longrightarrow> length ys = length xs"
  by (auto simp: perm_in_def dest: mset_eq_length)

lemma perm_in_refl [simp, intro]: "perm_in b n xs xs"
  by (simp add: perm_in_def)

lemma perm_in_trans: "perm_in b n xs ys \<Longrightarrow> perm_in b n ys zs \<Longrightarrow> perm_in b n xs zs"
  using perm_in_length[of b n xs ys] by (auto simp: perm_in_def)

lemma perm_in_mono: "perm_in b n xs ys \<Longrightarrow> b' \<le> b \<Longrightarrow> b + n \<le> b' + n' \<Longrightarrow> perm_in b' n' xs ys"
  by (auto simp: perm_in_def)

lemma length_swap [simp]: "length (swap xs i j) = length xs"
  by (simp add: swap_def)

lemma nth_swap:
  "i < length xs \<Longrightarrow> j < length xs \<Longrightarrow> k < length xs \<Longrightarrow>
   swap xs i j ! k = (if k = i then xs ! j else if k = j then xs ! i else xs ! k)"
  by (auto simp: swap_def nth_list_update)

lemma perm_swap:
  assumes "i < length xs" "j < length xs" "b \<le> i" "i < b + n" "b \<le> j" "j < b + n"
  shows "perm_in b n xs (swap xs i j)"
proof -
  have "mset (swap xs i j) = mset xs" unfolding swap_def using assms by (simp add: mset_swap)
  then show ?thesis using assms by (auto simp: perm_in_def nth_swap)
qed

text \<open>The elements of a permuted segment are the elements it had before.\<close>

lemma perm_in_elems:
  assumes "perm_in b n xs ys" "b + n \<le> length xs" "b \<le> i" "i < b + n"
  obtains j where "b \<le> j" "j < b + n" "ys ! i = xs ! j"
proof -
  have l: "length ys = length xs" by (rule perm_in_length[OF assms(1)])
  have t: "take b ys = take b xs" "drop (b + n) ys = drop (b + n) xs"
    using assms(1,2) l by (auto simp: perm_in_def intro!: nth_equalityI)
  have s: "zs = take b zs @ take n (drop b zs) @ drop (b + n) zs" for zs :: "'a list"
    by (metis append_take_drop_id drop_drop add.commute)
  have "mset (take b xs) + mset (take n (drop b ys)) + mset (drop (b + n) xs) = mset ys"
    using s[of ys] t by (metis mset_append union_assoc)
  moreover have "mset (take b xs) + mset (take n (drop b xs)) + mset (drop (b + n) xs) = mset xs"
    using s[of xs] by (metis mset_append union_assoc)
  moreover have "mset ys = mset xs" using assms(1) by (simp add: perm_in_def)
  ultimately have m: "mset (take n (drop b ys)) = mset (take n (drop b xs))"
    by (metis add_left_cancel add_right_cancel)
  have "ys ! i \<in> set (take n (drop b ys))"
    using assms l by (auto simp: in_set_conv_nth intro!: exI[of _ "i - b"])
  then have "ys ! i \<in> set (take n (drop b xs))" using m by (metis set_mset_mset)
  then obtain k where "k < n" "ys ! i = xs ! (b + k)" using assms(2) by (auto simp: in_set_conv_nth)
  then show thesis using that[of "b + k"] by simp
qed

lemma sift_down_perm:
  "base + n \<le> length xs \<Longrightarrow> i < n \<or> n \<le> 2 * i \<Longrightarrow> perm_in base n xs (njs_sift_down cmp xs base n i)"
proof (induction cmp xs base n i rule: njs_sift_down.induct)
  case (1 cmp xs base n i)
  let ?m = "sift_child cmp xs base n i"
  show ?case
  proof (cases "?m = i")
    case True
    then show ?thesis by (simp add: njs_sift_down.simps[of cmp xs])
  next
    case False
    note b = sift_child_bounds[OF False]
    have p: "perm_in base n xs (swap xs (base + i) (base + ?m))" using b "1.prems" by (intro perm_swap) auto
    have "perm_in base n (swap xs (base + i) (base + ?m)) (njs_sift_down cmp (swap xs (base + i) (base + ?m)) base n ?m)"
      using "1.IH"[OF refl False] "1.prems" b by simp
    then show ?thesis using perm_in_trans[OF p] False by (simp add: njs_sift_down.simps[of cmp xs] Let_def)
  qed
qed

lemma heapify_perm: "base + n \<le> length xs \<Longrightarrow> i \<le> n \<Longrightarrow> perm_in base n xs (heapify cmp xs base n i)"
proof (induction i arbitrary: xs)
  case 0
  then show ?case using sift_down_perm[of base n xs 0 cmp] by (cases "n = 0") auto
next
  case (Suc i)
  have p: "perm_in base n xs (njs_sift_down cmp xs base n (Suc i))"
    by (rule sift_down_perm) (use Suc.prems in auto)
  show ?case using perm_in_trans[OF p] Suc.IH[of "njs_sift_down cmp xs base n (Suc i)"] Suc.prems perm_in_length[OF p] by simp
qed

lemma heap_extract_perm: "base + n \<le> length xs \<Longrightarrow> perm_in base n xs (heap_extract cmp xs base n)"
proof (induction n arbitrary: xs)
  case (Suc n)
  show ?case
  proof (cases "n = 0")
    case False
    let ?s = "swap xs base (base + n)"
    have 1: "perm_in base (Suc n) xs ?s" using Suc.prems False by (intro perm_swap) auto
    have 2: "perm_in base n ?s (njs_sift_down cmp ?s base n 0)"
      using Suc.prems False by (intro sift_down_perm) auto
    have 3: "perm_in base n (njs_sift_down cmp ?s base n 0) (heap_extract cmp (njs_sift_down cmp ?s base n 0) base n)"
      using Suc.prems perm_in_length[OF 2] by (intro Suc.IH) simp
    show ?thesis using perm_in_trans[OF 1 perm_in_mono[OF perm_in_trans[OF 2 3]]] False by simp
  qed simp
qed simp

lemma heapsort_perm: "base + n \<le> length xs \<Longrightarrow> perm_in base n xs (njs_heapsort cmp xs base n)"
  using heapify_perm[of base n xs "n div 2" cmp] perm_in_length[OF heapify_perm[of base n xs "n div 2" cmp]]
  by (auto simp: njs_heapsort_def intro!: perm_in_trans[OF _ heap_extract_perm])

lemma partition_loop_perm:
  assumes "partition_loop cmp xs lt p gt = (ys, lt', gt')" "lt < p" "p \<le> gt" "gt \<le> length xs" "b \<le> lt" "gt \<le> b + n"
  shows "perm_in b n xs ys"
  using assms
proof (induction cmp xs lt p gt rule: partition_loop.induct)
  case (1 cmp xs lt p gt)
  let ?r = "cmp (xs ! p) (xs ! lt)"
  note u = partition_loop.simps[of cmp xs lt p gt]
  show ?case
  proof (cases "p < gt")
    case False
    then show ?thesis using "1.prems"(1) u by simp
  next
    case p: True
    consider (l) "?r < 0" | (e) "?r = 0" | (g) "?r > 0" by linarith
    then show ?thesis
    proof cases
      case l
      have s: "perm_in b n xs (swap xs lt p)" using "1.prems" p by (intro perm_swap) auto
      have "partition_loop cmp (swap xs lt p) (lt + 1) (p + 1) gt = (ys, lt', gt')" using l p "1.prems"(1) u by simp
      from "1.IH"(1)[OF p refl _ l this] l "1.prems" p have "perm_in b n (swap xs lt p) ys" by simp
      then show ?thesis by (rule perm_in_trans[OF s])
    next
      case e
      have "partition_loop cmp xs lt (p + 1) gt = (ys, lt', gt')" using e p "1.prems"(1) u by simp
      from "1.IH"(2)[OF p refl _ _ this] e "1.prems" p show ?thesis by simp
    next
      case g
      have s: "perm_in b n xs (swap xs (gt - 1) p)" using "1.prems" p by (intro perm_swap) auto
      have "partition_loop cmp (swap xs (gt - 1) p) lt p (gt - 1) = (ys, lt', gt')" using g p "1.prems"(1) u by simp
      from "1.IH"(3)[OF p refl _ this] g "1.prems" p have "perm_in b n (swap xs (gt - 1) p) ys" by simp
      then show ?thesis by (rule perm_in_trans[OF s])
    qed
  qed
qed

lemma pivot_cases: "njs_pivot cmp xs a b c \<in> {a, b, c}"
  by (simp add: njs_pivot_def)

lemma pivot_bounds:
  assumes "4 \<le> n"
  shows "base < njs_pivot cmp xs (base + n div 4) (base + 2 * (n div 4)) (base + 3 * (n div 4))"
    "njs_pivot cmp xs (base + n div 4) (base + 2 * (n div 4)) (base + 3 * (n div 4)) < base + n"
  using pivot_cases[of cmp xs "base + n div 4" "base + 2 * (n div 4)" "base + 3 * (n div 4)"] assms by auto

lemma partition_step_perm:
  assumes "partition_step cmp xs base n = (ys, lt, gt)" "4 \<le> n" "base + n \<le> length xs"
  shows "perm_in base n xs ys"
proof -
  let ?p = "njs_pivot cmp xs (base + n div 4) (base + 2 * (n div 4)) (base + 3 * (n div 4))"
  have s: "perm_in base n xs (swap xs base ?p)"
    using assms pivot_bounds[OF assms(2), where base = base and cmp = cmp and xs = xs] by (intro perm_swap) auto
  have l: "partition_loop cmp (swap xs base ?p) base (base + 1) (base + n) = (ys, lt, gt)"
    using assms(1) by (simp add: partition_step_def Let_def)
  have "perm_in base n (swap xs base ?p) ys"
    by (rule partition_loop_perm[OF l]) (use assms in simp_all)
  then show ?thesis by (rule perm_in_trans[OF s])
qed

lemma insert_down_perm:
  "base \<le> c \<Longrightarrow> c < base + n \<Longrightarrow> c < length xs \<Longrightarrow> perm_in base n xs (insert_down cmp xs base c)"
proof (induction c arbitrary: xs)
  case (Suc c)
  have "perm_in base n xs (swap xs (Suc c) c)" if "base < Suc c" using Suc.prems that by (intro perm_swap) auto
  then show ?case using Suc.IH[of "swap xs (Suc c) c"] Suc.prems by (auto intro: perm_in_trans)
qed simp

lemma insertion_sort_perm:
  "base \<le> p \<Longrightarrow> base + n \<le> length xs \<Longrightarrow> perm_in base n xs (insertion_sort cmp xs base p (base + n))"
proof (induction "base + n - p" arbitrary: xs p)
  case 0
  then show ?case by (simp add: insertion_sort.simps[of cmp xs])
next
  case (Suc k)
  have d: "perm_in base n xs (insert_down cmp xs base p)" using Suc by (intro insert_down_perm) auto
  have "perm_in base n (insert_down cmp xs base p) (insertion_sort cmp (insert_down cmp xs base p) base (p + 1) (base + n))"
    using Suc perm_in_length[OF d] by (intro Suc.hyps(1)) auto
  then show ?case using perm_in_trans[OF d] Suc.hyps(2) by (simp add: insertion_sort.simps[of cmp xs])
qed

definition sorted_in :: "'a sort_cmp \<Rightarrow> nat \<Rightarrow> nat \<Rightarrow> 'a list \<Rightarrow> bool" where
  "sorted_in cmp b n xs \<longleftrightarrow> (\<forall>i j. b \<le> i \<longrightarrow> i < j \<longrightarrow> j < b + n \<longrightarrow> cmp (xs ! i) (xs ! j) \<le> 0)"

definition node_ok :: "'a sort_cmp \<Rightarrow> 'a list \<Rightarrow> nat \<Rightarrow> nat \<Rightarrow> nat \<Rightarrow> bool" where
  "node_ok cmp xs base n j \<longleftrightarrow> (\<forall>c \<in> {2 * j + 1, 2 * j + 2}. c < n \<longrightarrow> cmp (xs ! (base + c)) (xs ! (base + j)) \<le> 0)"

subsection \<open>What a comparison function promises\<close>

text \<open>
  The callers of \<open>njs_qsort\<close> pass a comparison whose sign is that of a total preorder.
\<close>

locale comparator =
  fixes cmp :: "'a sort_cmp"
  assumes cmp_sym: "cmp x y < 0 \<longleftrightarrow> 0 < cmp y x"
    and cmp_trans: "cmp x y \<le> 0 \<Longrightarrow> cmp y z \<le> 0 \<Longrightarrow> cmp x z \<le> 0"
begin

lemma cmp_refl: "cmp x x = 0"
  using cmp_sym[of x x] by linarith

lemma cmp_total: "\<not> cmp x y \<le> 0 \<Longrightarrow> cmp y x < 0"
  using cmp_sym[of y x] by linarith

lemma cmp_nless: "\<not> cmp x y < 0 \<Longrightarrow> cmp y x \<le> 0"
  using cmp_sym[of x y] by linarith

lemma cmp_eq_sym: "cmp x y = 0 \<Longrightarrow> cmp y x = 0"
  using cmp_sym[of x y] cmp_sym[of y x] by linarith

lemma cmp_less_trans: "cmp x y < 0 \<Longrightarrow> cmp y z \<le> 0 \<Longrightarrow> cmp x z < 0"
proof -
  assume a: "cmp x y < 0" "cmp y z \<le> 0"
  show "cmp x z < 0"
  proof (rule ccontr)
    assume "\<not> cmp x z < 0"
    then have "cmp z x \<le> 0" using cmp_sym[of z x] cmp_total[of z x] by linarith
    then have "cmp y x \<le> 0" using cmp_trans[OF a(2)] by blast
    then show False using a(1) cmp_sym[of x y] by linarith
  qed
qed

lemma cmp_eq_cong: "cmp y z = 0 \<Longrightarrow> (cmp x y < 0 \<longleftrightarrow> cmp x z < 0) \<and> (cmp x y = 0 \<longleftrightarrow> cmp x z = 0) \<and> (0 < cmp x y \<longleftrightarrow> 0 < cmp x z)"
proof -
  assume e: "cmp y z = 0"
  then have e': "cmp z y = 0" by (rule cmp_eq_sym)
  have 1: "cmp x y < 0 \<longleftrightarrow> cmp x z < 0" using cmp_less_trans[of x y z] cmp_less_trans[of x z y] e e' by auto
  have 2: "cmp x y \<le> 0 \<longleftrightarrow> cmp x z \<le> 0" using cmp_trans[of x y z] cmp_trans[of x z y] e e' by auto
  show ?thesis using 1 2 by linarith
qed

text \<open>Insertion: everything but the element at \<open>c\<close> is in order, and it is not too far left.\<close>

lemma insert_down_sorted:
  assumes "base \<le> c" "c < base + n" "base + n \<le> length xs"
    "\<And>i j. base \<le> i \<Longrightarrow> i < j \<Longrightarrow> j < base + n \<Longrightarrow> i \<noteq> c \<Longrightarrow> j \<noteq> c \<Longrightarrow> cmp (xs ! i) (xs ! j) \<le> 0"
    "\<And>j. c < j \<Longrightarrow> j < base + n \<Longrightarrow> cmp (xs ! c) (xs ! j) \<le> 0"
  shows "sorted_in cmp base n (insert_down cmp xs base c)"
  using assms
proof (induction c arbitrary: xs)
  case 0
  then show ?case by (simp add: sorted_in_def) (metis gr_zeroI less_irrefl_nat)
next
  case (Suc c)
  show ?case
  proof (cases "base < Suc c \<and> cmp (xs ! Suc c) (xs ! c) < 0")
    case True
    let ?s = "swap xs (Suc c) c"
    have n: "?s ! k = (if k = Suc c then xs ! c else if k = c then xs ! Suc c else xs ! k)" if "k < base + n" for k
      using that Suc.prems True by (intro nth_swap) auto
    have "sorted_in cmp base n (insert_down cmp ?s base c)"
    proof (rule Suc.IH)
      fix i j assume ij: "base \<le> i" "i < j" "j < base + n" "i \<noteq> c" "j \<noteq> c"
      show "cmp (?s ! i) (?s ! j) \<le> 0"
      proof (cases "i = Suc c")
        case True
        then show ?thesis using ij n Suc.prems(4)[of c j] \<open>base < Suc c \<and> _\<close> by auto
      next
        case False
        then show ?thesis using ij n Suc.prems(4)[of i j] Suc.prems(4)[of i c] by (cases "j = Suc c") auto
      qed
    next
      fix j assume j: "c < j" "j < base + n"
      show "cmp (?s ! c) (?s ! j) \<le> 0"
        using j n Suc.prems(5)[of j] True Suc.prems(2) by (cases "j = Suc c") auto
    qed (use Suc.prems True in auto)
    then show ?thesis using True by simp
  next
    case False
    have "cmp (xs ! i) (xs ! j) \<le> 0" if ij: "base \<le> i" "i < j" "j < base + n" for i j
    proof (cases "j = Suc c")
      case True
      then have c: "cmp (xs ! c) (xs ! Suc c) \<le> 0" using False ij cmp_sym[of "xs ! Suc c" "xs ! c"] by linarith
      show ?thesis
      proof (cases "i = c")
        case True
        then show ?thesis using c \<open>j = Suc c\<close> by simp
      next
        case False
        then show ?thesis using Suc.prems(4)[of i c] ij \<open>j = Suc c\<close> c cmp_trans by simp
      qed
    next
      case False
      then show ?thesis using ij Suc.prems(4)[of i j] Suc.prems(5)[of j] by (cases "i = Suc c") auto
    qed
    then show ?thesis using False by (auto simp: sorted_in_def)
  qed
qed

lemma insertion_sort_sorted:
  "base < p \<Longrightarrow> base + n \<le> length xs \<Longrightarrow> sorted_in cmp base (p - base) xs \<Longrightarrow>
   sorted_in cmp base n (insertion_sort cmp xs base p (base + n))"
proof (induction "base + n - p" arbitrary: xs p)
  case 0
  then show ?case by (simp add: insertion_sort.simps[of cmp xs] sorted_in_def)
next
  case (Suc k)
  let ?d = "insert_down cmp xs base p"
  have "perm_in base n xs ?d" using Suc by (intro insert_down_perm) auto
  then have l: "length ?d = length xs" by (rule perm_in_length)
  have "sorted_in cmp base (Suc p - base) ?d"
    using Suc.prems Suc.hyps(2) by (intro insert_down_sorted) (auto simp: sorted_in_def)
  then have "sorted_in cmp base n (insertion_sort cmp ?d base (p + 1) (base + n))"
    using Suc l by (intro Suc.hyps(1)) (auto simp: Suc_diff_le)
  moreover have "p < base + n" using Suc.hyps(2) by linarith
  ultimately show ?case by (simp add: insertion_sort.simps[of cmp xs])
qed

subsubsection \<open>Heaps\<close>

lemma sift_child_stop: "sift_child cmp xs base n i = i \<Longrightarrow> node_ok cmp xs base n i"
  by (auto simp: sift_child_def node_ok_def Let_def split: if_splits intro: cmp_nless)

lemma sift_child_max:
  assumes "sift_child cmp xs base n i = m" "m \<noteq> i"
  shows "m = 2 * i + 1 \<or> m = 2 * i + 2" "m < n" "cmp (xs ! (base + i)) (xs ! (base + m)) \<le> 0"
    "\<And>c. c \<in> {2 * i + 1, 2 * i + 2} \<Longrightarrow> c < n \<Longrightarrow> cmp (xs ! (base + c)) (xs ! (base + m)) \<le> 0"
proof -
  let ?v = "\<lambda>k. xs ! (base + k)"
  show "m = 2 * i + 1 \<or> m = 2 * i + 2" "m < n" using assms by (auto simp: sift_child_def Let_def split: if_splits)
  show le: "cmp (?v i) (?v m) \<le> 0"
    using assms cmp_trans[of "?v i" "?v (2 * i + 1)" "?v (2 * i + 2)"]
    by (auto simp: sift_child_def Let_def split: if_splits)
  fix c assume c: "c \<in> {2 * i + 1, 2 * i + 2}" "c < n"
  show "cmp (?v c) (?v m) \<le> 0"
    using c assms le cmp_refl[of "?v c"] cmp_nless[of "?v i" "?v c"] cmp_nless[of "?v (2 * i + 1)" "?v c"]
      cmp_trans[of "?v c" "?v i" "?v m"]
    by (auto simp: sift_child_def Let_def split: if_splits)
qed

text \<open>
  Sifting: every node from \<open>k\<close> on is in order but \<open>i\<close>, and the children of \<open>i\<close> fit below its
  parent.
\<close>

lemma sift_down_heap:
  assumes "base + n \<le> length xs" "i < n"
    "\<And>j. k \<le> j \<Longrightarrow> j \<noteq> i \<Longrightarrow> node_ok cmp xs base n j"
    "\<And>p c. k \<le> p \<Longrightarrow> i \<in> {2 * p + 1, 2 * p + 2} \<Longrightarrow> c \<in> {2 * i + 1, 2 * i + 2} \<Longrightarrow> c < n \<Longrightarrow>
        cmp (xs ! (base + c)) (xs ! (base + p)) \<le> 0"
    "k \<le> j"
  shows "node_ok cmp (njs_sift_down cmp xs base n i) base n j"
  using assms
proof (induction "n - i" arbitrary: xs i rule: less_induct)
  case less
  let ?m = "sift_child cmp xs base n i"
  show ?case
  proof (cases "?m = i")
    case True
    then have "node_ok cmp xs base n j" using sift_child_stop[OF True] less.prems by (cases "j = i") auto
    then show ?thesis using True by (simp add: njs_sift_down.simps[of cmp xs])
  next
    case False
    note m = sift_child_max[OF refl False]
    note b = sift_child_bounds[OF False]
    let ?s = "swap xs (base + i) (base + ?m)"
    have v: "?s ! (base + c) = (if c = i then xs ! (base + ?m) else if c = ?m then xs ! (base + i) else xs ! (base + c))"
      if "c < n" for c using that less.prems b by (subst nth_swap) auto
    have "node_ok cmp (njs_sift_down cmp ?s base n ?m) base n j"
    proof (rule less.hyps)
      fix l assume l: "k \<le> l" "l \<noteq> ?m"
      show "node_ok cmp ?s base n l"
      proof (cases "l = i")
        case True
        have "cmp (?s ! (base + c)) (?s ! (base + i)) \<le> 0" if c: "c \<in> {2 * i + 1, 2 * i + 2}" "c < n" for c
        proof -
          have "c \<noteq> i" using c(1) by auto
          then show ?thesis using m(3) m(4)[OF c] v[OF c(2)] v[OF less.prems(2)] by simp
        qed
        then show ?thesis using True by (simp add: node_ok_def)
      next
        case False
        have "cmp (?s ! (base + c)) (?s ! (base + l)) \<le> 0" if c: "c \<in> {2 * l + 1, 2 * l + 2}" "c < n" for c
        proof -
          have "l < n" using c by auto
          then have sl: "?s ! (base + l) = xs ! (base + l)" using v False l by simp
          have nm: "c \<noteq> ?m" using c(1) m(1) False by auto
          show ?thesis
          proof (cases "c = i")
            case True
            then show ?thesis using less.prems(4)[of l ?m] l(1) c m(1) b v sl by auto
          next
            case ci: False
            then show ?thesis using less.prems(3)[OF l(1) False] c nm v sl by (auto simp: node_ok_def)
          qed
        qed
        then show ?thesis by (simp add: node_ok_def)
      qed
    next
      fix p c assume p: "k \<le> p" "?m \<in> {2 * p + 1, 2 * p + 2}" "c \<in> {2 * ?m + 1, 2 * ?m + 2}" "c < n"
      have "p = i" using p(2) m(1) by auto
      have ci: "c \<noteq> i" "c \<noteq> ?m" using p(3) b by auto
      have "node_ok cmp xs base n ?m" using less.prems(3)[of ?m] False p(1) \<open>p = i\<close> b by auto
      then have "cmp (xs ! (base + c)) (xs ! (base + ?m)) \<le> 0" using p(3,4) by (auto simp: node_ok_def)
      then show "cmp (?s ! (base + c)) (?s ! (base + p)) \<le> 0" using \<open>p = i\<close> v ci p(4) less.prems(2) by simp
    qed (use b less.prems in auto)
    then show ?thesis using False by (simp add: njs_sift_down.simps[of cmp xs] Let_def)
  qed
qed

lemma heapify_heap:
  assumes "base + n \<le> length xs" "i < n" "\<And>j. i < j \<Longrightarrow> node_ok cmp xs base n j"
  shows "node_ok cmp (heapify cmp xs base n i) base n j"
  using assms
proof (induction i arbitrary: xs)
  case 0
  then show ?case by (auto intro!: sift_down_heap[where k = 0])
next
  case (Suc i)
  let ?s = "njs_sift_down cmp xs base n (Suc i)"
  have l: "length ?s = length xs" using Suc.prems by (intro perm_in_length[OF sift_down_perm]) auto
  have "node_ok cmp ?s base n l" if "i < l" for l
    by (rule sift_down_heap[where k = "Suc i"]) (use Suc.prems that in auto)
  then show ?case using Suc.IH[of ?s] Suc.prems l by simp
qed

lemma heap_root:
  assumes "\<And>j. node_ok cmp xs base n j" "j < n"
  shows "cmp (xs ! (base + j)) (xs ! base) \<le> 0"
  using assms(2)
proof (induction j rule: less_induct)
  case (less j)
  show ?case
  proof (cases "j = 0")
    case True
    then show ?thesis using cmp_refl by simp
  next
    case False
    define p where "p = (j - 1) div 2"
    have "p < j" "j \<in> {2 * p + 1, 2 * p + 2}" using False by (auto simp: p_def)
    then have "cmp (xs ! (base + j)) (xs ! (base + p)) \<le> 0" using assms(1)[of p] less.prems by (auto simp: node_ok_def)
    then show ?thesis using less.IH[OF \<open>p < j\<close>] less.prems \<open>p < j\<close> cmp_trans by simp
  qed
qed

text \<open>Extraction: a heap followed by a sorted rest that no element of the heap exceeds.\<close>

lemma heap_extract_sorted:
  assumes "base + N \<le> length xs" "n \<le> N" "\<And>j. node_ok cmp xs base n j"
    "\<And>i j. n \<le> i \<Longrightarrow> i < j \<Longrightarrow> j < N \<Longrightarrow> cmp (xs ! (base + i)) (xs ! (base + j)) \<le> 0"
    "\<And>i j. i < n \<Longrightarrow> n \<le> j \<Longrightarrow> j < N \<Longrightarrow> cmp (xs ! (base + i)) (xs ! (base + j)) \<le> 0"
  shows "sorted_in cmp base N (heap_extract cmp xs base n)"
  using assms
proof (induction n arbitrary: xs)
  case 0
  have "cmp (xs ! i) (xs ! j) \<le> 0" if "base \<le> i" "i < j" "j < base + N" for i j
    using 0(4)[of "i - base" "j - base"] that by simp
  then show ?case by (simp add: sorted_in_def)
next
  case (Suc n)
  have len: "base + Suc n \<le> length xs" using Suc.prems by simp
  show ?case
  proof (cases "n = 0")
    case True
    have "cmp (xs ! i) (xs ! j) \<le> 0" if "base \<le> i" "i < j" "j < base + N" for i j
      using Suc.prems(4)[of "i - base" "j - base"] Suc.prems(5)[of "i - base" "j - base"] that True
      by (cases "i = base") simp_all
    then show ?thesis using True by (simp add: sorted_in_def)
  next
    case False
    let ?s = "swap xs base (base + n)"
    let ?t = "njs_sift_down cmp ?s base n 0"
    have v: "?s ! (base + c) = (if c = 0 then xs ! (base + n) else if c = n then xs ! base else xs ! (base + c))"
      if "c < N" for c using that Suc.prems False by (subst nth_swap) auto
    have root: "cmp (xs ! (base + j)) (xs ! base) \<le> 0" if "j \<le> n" for j
      using heap_root[OF Suc.prems(3)] that by simp
    have ok: "node_ok cmp ?t base n j" for j
    proof (rule sift_down_heap[where k = 0])
      fix l assume "l \<noteq> (0::nat)"
      then show "node_ok cmp ?s base n l" using Suc.prems(2) Suc.prems(3)[of l] v by (auto simp: node_ok_def)
    qed (use Suc.prems False len in auto)
    have pm: "perm_in base n ?s ?t" using len False by (intro sift_down_perm) auto
    have t_out: "?t ! (base + j) = ?s ! (base + j)" if "n \<le> j" "j < N" for j
      using pm that Suc.prems(1) by (auto simp: perm_in_def)
    have t_in: "\<exists>k \<le> n. ?t ! (base + j) = xs ! (base + k)" if j: "j < n" for j
    proof -
      obtain k where "base \<le> k" "k < base + n" "?t ! (base + j) = ?s ! k"
        using perm_in_elems[OF pm, of "base + j"] len j by auto
      then show ?thesis using v[of "k - base"] Suc.prems(2) by (auto split: if_splits intro: exI[of _ "k - base"])
    qed
    have "sorted_in cmp base N (heap_extract cmp ?t base n)"
    proof (rule Suc.IH)
      fix i j assume "n \<le> i" "i < j" "j < N"
      then show "cmp (?t ! (base + i)) (?t ! (base + j)) \<le> 0"
        using t_out[of i] t_out[of j] v[of i] v[of j] False Suc.prems(4)[of i j] Suc.prems(5)[of 0 j] by (cases "i = n") auto
    next
      fix i j assume ij: "i < n" "n \<le> j" "j < N"
      obtain k where k: "k \<le> n" "?t ! (base + i) = xs ! (base + k)" using t_in[OF ij(1)] by blast
      show "cmp (?t ! (base + i)) (?t ! (base + j)) \<le> 0"
        using k root[OF k(1)] t_out[OF ij(2,3)] v[OF ij(3)] False Suc.prems(5)[of k j] ij by (cases "j = n") auto
    qed (use Suc.prems ok perm_in_length[OF pm] in auto)
    then show ?thesis using False by simp
  qed
qed

lemma heapsort_sorted:
  assumes "base + n \<le> length xs" "0 < n"
  shows "sorted_in cmp base n (njs_heapsort cmp xs base n)"
proof -
  let ?h = "heapify cmp xs base n (n div 2)"
  have "perm_in base n xs ?h" using assms by (intro heapify_perm) auto
  then have l: "length ?h = length xs" by (rule perm_in_length)
  have "node_ok cmp ?h base n j" for j
    by (rule heapify_heap) (use assms in \<open>auto simp: node_ok_def\<close>)
  then show ?thesis unfolding njs_heapsort_def by (intro heap_extract_sorted) (use assms l in auto)
qed

subsubsection \<open>Partitioning\<close>

lemma partition_loop_parts:
  assumes "partition_loop cmp xs lt p gt = (ys, lt', gt')" "lt < p" "p \<le> gt" "gt \<le> e" "e \<le> length xs" "b \<le> lt"
    "\<And>i. b \<le> i \<Longrightarrow> i < lt \<Longrightarrow> cmp (xs ! i) v < 0" "\<And>i. lt \<le> i \<Longrightarrow> i < p \<Longrightarrow> cmp (xs ! i) v = 0"
    "\<And>i. gt \<le> i \<Longrightarrow> i < e \<Longrightarrow> 0 < cmp (xs ! i) v"
  shows "(\<forall>i. b \<le> i \<longrightarrow> i < lt' \<longrightarrow> cmp (ys ! i) v < 0) \<and> (\<forall>i. lt' \<le> i \<longrightarrow> i < gt' \<longrightarrow> cmp (ys ! i) v = 0) \<and>
    (\<forall>i. gt' \<le> i \<longrightarrow> i < e \<longrightarrow> 0 < cmp (ys ! i) v)"
  using assms
proof (induction "gt - p" arbitrary: xs lt p gt rule: less_induct)
  case less
  note u = partition_loop.simps[of cmp xs lt p gt]
  show ?case
  proof (cases "p < gt")
    case False
    then have "ys = xs" "lt' = lt" "gt' = gt" using less.prems(1) u by simp_all
    then show ?thesis using less.prems False by simp
  next
    case p: True
    have pv: "cmp (xs ! lt) v = 0" using less.prems(2) less.prems(8)[of lt] by simp
    let ?r = "cmp (xs ! p) (xs ! lt)"
    have r: "(?r < 0 \<longleftrightarrow> cmp (xs ! p) v < 0) \<and> (?r = 0 \<longleftrightarrow> cmp (xs ! p) v = 0) \<and> (0 < ?r \<longleftrightarrow> 0 < cmp (xs ! p) v)"
      by (rule cmp_eq_cong[OF pv])
    have sw: "swap xs i j ! k = (if k = i then xs ! j else if k = j then xs ! i else xs ! k)"
      if "i < e" "j < e" "k < e" for i j k using that less.prems(5) by (intro nth_swap) auto
    consider (l) "?r < 0" | (e) "?r = 0" | (g) "?r > 0" by linarith
    then show ?thesis
    proof cases
      case l
      have "partition_loop cmp (swap xs lt p) (lt + 1) (p + 1) gt = (ys, lt', gt')" using l p less.prems(1) u by simp
      then show ?thesis
        by (rule less.hyps[rotated]) (use less.prems p l r pv sw in \<open>auto simp: less_Suc_eq\<close>)
    next
      case e
      have "partition_loop cmp xs lt (p + 1) gt = (ys, lt', gt')" using e p less.prems(1) u by simp
      then show ?thesis
        by (rule less.hyps[rotated]) (use less.prems p e r in \<open>auto simp: less_Suc_eq\<close>)
    next
      case g
      have gl: "partition_loop cmp (swap xs (gt - 1) p) lt p (gt - 1) = (ys, lt', gt')" using g p less.prems(1) u by simp
      have gt: "0 < cmp (swap xs (gt - 1) p ! i) v" if "gt - 1 \<le> i" "i < e" for i
        using that sw[of "gt - 1" p i] less.prems(4,9) p g r by (cases "i = gt - 1") auto
      show ?thesis
        by (rule less.hyps[OF _ gl]) (use less.prems p sw gt in auto)
    qed
  qed
qed

lemma partition_step_parts:
  assumes "partition_step cmp xs base n = (ys, lt, gt)" "4 \<le> n" "base + n \<le> length xs"
  obtains v where "\<And>i. base \<le> i \<Longrightarrow> i < lt \<Longrightarrow> cmp (ys ! i) v < 0"
    "\<And>i. lt \<le> i \<Longrightarrow> i < gt \<Longrightarrow> cmp (ys ! i) v = 0" "\<And>i. gt \<le> i \<Longrightarrow> i < base + n \<Longrightarrow> 0 < cmp (ys ! i) v"
proof -
  let ?p = "njs_pivot cmp xs (base + n div 4) (base + 2 * (n div 4)) (base + 3 * (n div 4))"
  let ?s = "swap xs base ?p"
  have l: "partition_loop cmp ?s base (base + 1) (base + n) = (ys, lt, gt)"
    using assms(1) by (simp add: partition_step_def Let_def)
  have "(\<forall>i. base \<le> i \<longrightarrow> i < lt \<longrightarrow> cmp (ys ! i) (?s ! base) < 0) \<and> (\<forall>i. lt \<le> i \<longrightarrow> i < gt \<longrightarrow> cmp (ys ! i) (?s ! base) = 0) \<and>
    (\<forall>i. gt \<le> i \<longrightarrow> i < base + n \<longrightarrow> 0 < cmp (ys ! i) (?s ! base))"
    by (rule partition_loop_parts[OF l]) (use assms cmp_refl in \<open>auto simp: less_Suc_eq\<close>)
  then show thesis using that[of "?s ! base"] by blast
qed

text \<open>Sorting the two outer parts of a partition sorts the segment.\<close>

lemma sorted_parts:
  assumes b: "base \<le> lt" "lt < gt" "gt \<le> base + n"
    and s: "sorted_in cmp base (lt - base) ws" "sorted_in cmp gt (base + n - gt) ws"
    and e: "\<And>i. base \<le> i \<Longrightarrow> i < lt \<Longrightarrow> \<exists>j. base \<le> j \<and> j < lt \<and> ws ! i = ys ! j"
      "\<And>i. lt \<le> i \<Longrightarrow> i < gt \<Longrightarrow> ws ! i = ys ! i"
      "\<And>i. gt \<le> i \<Longrightarrow> i < base + n \<Longrightarrow> \<exists>j. gt \<le> j \<and> j < base + n \<and> ws ! i = ys ! j"
    and v: "\<And>i. base \<le> i \<Longrightarrow> i < lt \<Longrightarrow> cmp (ys ! i) v < 0"
    "\<And>i. lt \<le> i \<Longrightarrow> i < gt \<Longrightarrow> cmp (ys ! i) v = 0" "\<And>i. gt \<le> i \<Longrightarrow> i < base + n \<Longrightarrow> 0 < cmp (ys ! i) v"
  shows "sorted_in cmp base n ws"
proof -
  have w1: "cmp (ws ! i) v < 0" if "base \<le> i" "i < lt" for i using e(1)[OF that] v(1) by auto
  have w2: "cmp (ws ! i) v = 0" if "lt \<le> i" "i < gt" for i using e(2)[OF that] v(2)[OF that] by simp
  have w3: "0 < cmp (ws ! i) v" if "gt \<le> i" "i < base + n" for i using e(3)[OF that] v(3) by auto
  have lo: "cmp (ws ! i) v \<le> 0" if "base \<le> i" "i < gt" for i using w1[of i] w2[of i] that by (cases "i < lt") auto
  have hi: "cmp v (ws ! i) \<le> 0" if "lt \<le> i" "i < base + n" for i
    using w2[of i] w3[of i] that cmp_eq_sym[of "ws ! i" v] cmp_nless[of "ws ! i" v] by (cases "i < gt") auto
  show ?thesis unfolding sorted_in_def
  proof (intro allI impI)
    fix i j assume ij: "base \<le> i" "i < j" "j < base + n"
    consider "j < lt" | "lt \<le> j" "i < gt" | "gt \<le> i" by linarith
    then show "cmp (ws ! i) (ws ! j) \<le> 0"
    proof cases
      case 1
      then show ?thesis using s(1) ij b by (auto simp: sorted_in_def)
    next
      case 2
      then show ?thesis using lo[of i] hi[of j] ij cmp_trans by blast
    next
      case 3
      then show ?thesis using s(2) ij b by (auto simp: sorted_in_def)
    qed
  qed
qed

end

subsection \<open>The whole sort\<close>

lemma qsort_loop_small:
  "n \<le> 6 \<Longrightarrow> qsort_loop cmp xs ((base, n) # stk) = qsort_loop cmp (insertion_sort cmp xs base (base + 1) (base + n)) stk"
  by (simp add: qsort_loop.simps[of cmp xs] segment_loop.simps[of cmp xs])

lemma qsort_loop_full:
  "6 < n \<Longrightarrow> length stk = NJS_MAX_DEPTH - 1 \<Longrightarrow>
   qsort_loop cmp xs ((base, n) # stk) = qsort_loop cmp (njs_heapsort cmp xs base n) stk"
  by (simp add: qsort_loop.simps[of cmp xs] segment_loop.simps[of cmp xs] insertion_sort.simps)

lemma qsort_loop_push:
  "6 < n \<Longrightarrow> length stk \<noteq> NJS_MAX_DEPTH - 1 \<Longrightarrow> partition_step cmp xs base n = (ys, lt, gt) \<Longrightarrow>
   qsort_loop cmp xs ((base, n) # stk) =
     (if (base + n) - gt < lt - base then qsort_loop cmp ys ((gt, base + n - gt) # (base, lt - base) # stk)
      else qsort_loop cmp ys ((base, lt - base) # (gt, base + n - gt) # stk))"
  by (simp add: qsort_loop.simps[of cmp xs] qsort_loop.simps[of cmp ys] segment_loop.simps[of cmp xs])

text \<open>Permuting two disjoint segments one after the other.\<close>

lemma perm_two:
  assumes "perm_in a n xs ys" "perm_in b m ys zs" "a + n \<le> b \<or> b + m \<le> a" "a + n \<le> length xs" "b + m \<le> length xs"
  shows "\<And>i. a \<le> i \<Longrightarrow> i < a + n \<Longrightarrow> \<exists>j. a \<le> j \<and> j < a + n \<and> zs ! i = xs ! j"
    "\<And>i. b \<le> i \<Longrightarrow> i < b + m \<Longrightarrow> \<exists>j. b \<le> j \<and> j < b + m \<and> zs ! i = xs ! j"
    "\<And>i. i < length xs \<Longrightarrow> i < a \<or> a + n \<le> i \<Longrightarrow> i < b \<or> b + m \<le> i \<Longrightarrow> zs ! i = xs ! i"
    "\<And>i. a \<le> i \<Longrightarrow> i < a + n \<Longrightarrow> zs ! i = ys ! i"
proof -
  have l: "length ys = length xs" by (rule perm_in_length[OF assms(1)])
  show k: "zs ! i = ys ! i" if "a \<le> i" "i < a + n" for i using assms that l by (auto simp: perm_in_def)
  show "\<exists>j. a \<le> j \<and> j < a + n \<and> zs ! i = xs ! j" if i: "a \<le> i" "i < a + n" for i
    using perm_in_elems[OF assms(1,4) i] k[OF i] by metis
  show "\<exists>j. b \<le> j \<and> j < b + m \<and> zs ! i = xs ! j" if i: "b \<le> i" "i < b + m" for i
  proof -
    obtain j where j: "b \<le> j" "j < b + m" "zs ! i = ys ! j" using perm_in_elems[OF assms(2) _ i] assms(5) l by auto
    then have "ys ! j = xs ! j" using assms(1,3,5) by (auto simp: perm_in_def)
    then show ?thesis using j by auto
  qed
  show "zs ! i = xs ! i" if "i < length xs" "i < a \<or> a + n \<le> i" "i < b \<or> b + m \<le> i" for i
    using assms(1,2) that l by (auto simp: perm_in_def)
qed

text \<open>
  One segment on top of the stack: the loop goes on with the rest of the stack after permuting
  the segment only, and after sorting it if the comparison is one.
\<close>

lemma qsort_loop_segment:
  "base + n \<le> length xs \<Longrightarrow>
   \<exists>ys. qsort_loop cmp xs ((base, n) # stk) = qsort_loop cmp ys stk \<and> perm_in base n xs ys \<and>
     (comparator cmp \<longrightarrow> sorted_in cmp base n ys)"
proof (induction n arbitrary: base xs stk rule: less_induct)
  case (less n)
  consider (small) "n \<le> 6" | (full) "6 < n" "length stk = NJS_MAX_DEPTH - 1"
    | (push) "6 < n" "length stk \<noteq> NJS_MAX_DEPTH - 1" by linarith
  then show ?case
  proof cases
    case small
    have s: "sorted_in cmp base n (insertion_sort cmp xs base (base + 1) (base + n))" if c: "comparator cmp"
      by (rule comparator.insertion_sort_sorted[OF c]) (use less.prems in \<open>simp_all add: sorted_in_def\<close>)
    have "perm_in base n xs (insertion_sort cmp xs base (base + 1) (base + n))"
      by (rule insertion_sort_perm) (use less.prems in simp_all)
    then show ?thesis using s qsort_loop_small[OF small, of cmp xs base stk] by blast
  next
    case full
    have n: "0 < n" using full(1) by simp
    have s: "sorted_in cmp base n (njs_heapsort cmp xs base n)" if c: "comparator cmp"
      by (rule comparator.heapsort_sorted[OF c less.prems n])
    then show ?thesis using heapsort_perm[OF less.prems, of cmp] qsort_loop_full[OF full, of cmp xs base] by blast
  next
    case push
    obtain ys lt gt where p: "partition_step cmp xs base n = (ys, lt, gt)" by (cases "partition_step cmp xs base n")
    have n4: "4 \<le> n" "0 < n" using push(1) by simp_all
    note py = partition_step_perm[OF p n4(1) less.prems]
    have b: "base \<le> lt" "lt < gt" "gt \<le> base + n" using partition_step_bounds[OF p n4(2)] by simp_all
    have l: "length ys = length xs" by (rule perm_in_length[OF py])
    let ?A = "(base, lt - base)" and ?B = "(gt, base + n - gt)"
    have ab: "lt - base < n" "base + n - gt < n" "base + (lt - base) \<le> length ys" "gt + (base + n - gt) \<le> length ys"
      using b less.prems l by simp_all
    have fin: "perm_in base n xs ws \<and> (comparator cmp \<longrightarrow> sorted_in cmp base n ws)"
      if e: "\<And>i. base \<le> i \<Longrightarrow> i < lt \<Longrightarrow> \<exists>j. base \<le> j \<and> j < lt \<and> ws ! i = ys ! j"
        "\<And>i. lt \<le> i \<Longrightarrow> i < gt \<Longrightarrow> ws ! i = ys ! i"
        "\<And>i. gt \<le> i \<Longrightarrow> i < base + n \<Longrightarrow> \<exists>j. gt \<le> j \<and> j < base + n \<and> ws ! i = ys ! j"
        and pw: "perm_in base n ys ws"
        and s: "comparator cmp \<Longrightarrow> sorted_in cmp base (lt - base) ws \<and> sorted_in cmp gt (base + n - gt) ws" for ws
    proof (intro conjI impI)
      show "perm_in base n xs ws" by (rule perm_in_trans[OF py pw])
      assume c: "comparator cmp"
      obtain v where v: "\<And>i. base \<le> i \<Longrightarrow> i < lt \<Longrightarrow> cmp (ys ! i) v < 0"
        "\<And>i. lt \<le> i \<Longrightarrow> i < gt \<Longrightarrow> cmp (ys ! i) v = 0" "\<And>i. gt \<le> i \<Longrightarrow> i < base + n \<Longrightarrow> 0 < cmp (ys ! i) v"
        using comparator.partition_step_parts[OF c p n4(1) less.prems] by blast
      show "sorted_in cmp base n ws"
        by (rule comparator.sorted_parts[OF c b _ _ e v]) (use s[OF c] in simp_all)
    qed
    show ?thesis
    proof (cases "base + n - gt < lt - base")
      case True
      obtain zs where z: "qsort_loop cmp ys (?B # ?A # stk) = qsort_loop cmp zs (?A # stk)"
        "perm_in gt (base + n - gt) ys zs" "comparator cmp \<longrightarrow> sorted_in cmp gt (base + n - gt) zs"
        using less.IH[OF ab(2) ab(4), of "?A # stk"] by blast
      obtain ws where w: "qsort_loop cmp zs (?A # stk) = qsort_loop cmp ws stk"
        "perm_in base (lt - base) zs ws" "comparator cmp \<longrightarrow> sorted_in cmp base (lt - base) ws"
        using less.IH[OF ab(1), of base zs stk] ab(3) perm_in_length[OF z(2)] by auto
      note t = perm_two[OF z(2) w(2) _ ab(4) ab(3)]
      have "perm_in base n ys ws" using perm_in_trans[OF perm_in_mono[OF z(2)] perm_in_mono[OF w(2)], of base n] b by simp
      moreover have "sorted_in cmp gt (base + n - gt) ws" if "comparator cmp"
        using z(3) that t(4) b by (simp add: sorted_in_def)
      ultimately have "perm_in base n xs ws \<and> (comparator cmp \<longrightarrow> sorted_in cmp base n ws)"
        using w(3) t(1,2,3) b less.prems l by (intro fin) auto
      then show ?thesis using qsort_loop_push[OF push p] True z(1) w(1) by auto
    next
      case False
      obtain zs where z: "qsort_loop cmp ys (?A # ?B # stk) = qsort_loop cmp zs (?B # stk)"
        "perm_in base (lt - base) ys zs" "comparator cmp \<longrightarrow> sorted_in cmp base (lt - base) zs"
        using less.IH[OF ab(1) ab(3), of "?B # stk"] by blast
      obtain ws where w: "qsort_loop cmp zs (?B # stk) = qsort_loop cmp ws stk"
        "perm_in gt (base + n - gt) zs ws" "comparator cmp \<longrightarrow> sorted_in cmp gt (base + n - gt) ws"
        using less.IH[OF ab(2), of gt zs stk] ab(4) perm_in_length[OF z(2)] by auto
      note t = perm_two[OF z(2) w(2) _ ab(3) ab(4)]
      have "perm_in base n ys ws" using perm_in_trans[OF perm_in_mono[OF z(2)] perm_in_mono[OF w(2)], of base n] b by simp
      moreover have "sorted_in cmp base (lt - base) ws" if "comparator cmp"
        using z(3) that t(4) b by (simp add: sorted_in_def)
      ultimately have "perm_in base n xs ws \<and> (comparator cmp \<longrightarrow> sorted_in cmp base n ws)"
        using w(3) t(1,2,3) b less.prems l by (intro fin) auto
      then show ?thesis using qsort_loop_push[OF push p] False z(1) w(1) by auto
    qed
  qed
qed

interpretation i8: comparator njs_typed_array_compare_i8
  by unfold_locales (auto simp: typed_array_compare_defs)

interpretation u8: comparator njs_typed_array_compare_u8
  by unfold_locales (auto simp: typed_array_compare_defs)

interpretation i16: comparator njs_typed_array_compare_i16
  by unfold_locales (auto simp: typed_array_compare_defs)

interpretation u16: comparator njs_typed_array_compare_u16
  by unfold_locales (auto simp: typed_array_compare_defs)

interpretation i32: comparator njs_typed_array_compare_i32
  by unfold_locales (auto simp: typed_array_compare_defs of_bool_def split: if_splits)

interpretation u32: comparator njs_typed_array_compare_u32
  by unfold_locales (auto simp: typed_array_compare_defs of_bool_def split: if_splits)

subsection \<open>Swapping memory\<close>

definition exchanged :: "u_char list \<Rightarrow> nat \<Rightarrow> nat \<Rightarrow> nat \<Rightarrow> u_char list \<Rightarrow> bool" where
  "exchanged mem a b sz mem' \<longleftrightarrow> length mem' = length mem \<and>
     (\<forall>i < length mem. mem' ! i =
        (if a \<le> i \<and> i < a + sz then mem ! (b + (i - a))
         else if b \<le> i \<and> i < b + sz then mem ! (a + (i - b)) else mem ! i))"

definition put :: "nat \<Rightarrow> u_char list \<Rightarrow> u_char list \<Rightarrow> u_char list" where
  "put a v mem = take a mem @ v @ drop (a + length v) mem"

lemma put_props:
  assumes "a + length v \<le> length mem"
  shows "length (put a v mem) = length mem"
    "i < length mem \<Longrightarrow> put a v mem ! i = (if a \<le> i \<and> i < a + length v then v ! (i - a) else mem ! i)"
  using assms by (auto simp: put_def nth_append min_def)

lemma swap_unit_exchanged:
  assumes "a + k \<le> b \<or> b + k \<le> a \<or> a = b" "a + k \<le> length mem" "b + k \<le> length mem"
  shows "exchanged mem a b k (swap_unit k mem a b)"
proof -
  let ?u = "take k (drop a mem)" and ?v = "take k (drop b mem)"
  have lu: "length ?u = k" "length ?v = k" using assms by simp_all
  have e: "swap_unit k mem a b = put b ?u (put a ?v mem)"
    using lu by (simp add: swap_unit_def put_def Let_def)
  have 1: "a + length ?v \<le> length mem" "b + length ?u \<le> length (put a ?v mem)"
    using assms lu put_props(1)[of a ?v mem] by simp_all
  have n: "?u ! i = mem ! (a + i)" "?v ! i = mem ! (b + i)" if "i < k" for i using that assms by simp_all
  show ?thesis unfolding exchanged_def e
  proof (intro conjI allI impI)
    show "length (put b ?u (put a ?v mem)) = length mem" using put_props(1)[OF 1(1)] put_props(1)[OF 1(2)] by simp
    fix i assume i: "i < length mem"
    have "put b ?u (put a ?v mem) ! i = (if b \<le> i \<and> i < b + k then ?u ! (i - b) else put a ?v mem ! i)"
      using put_props(2)[OF 1(2), of i] i put_props(1)[OF 1(1)] lu by simp
    also have "\<dots> = (if b \<le> i \<and> i < b + k then ?u ! (i - b) else if a \<le> i \<and> i < a + k then ?v ! (i - a) else mem ! i)"
      using put_props(2)[OF 1(1) i] lu by simp
    finally show "put b ?u (put a ?v mem) ! i = (if a \<le> i \<and> i < a + k then mem ! (b + (i - a))
         else if b \<le> i \<and> i < b + k then mem ! (a + (i - b)) else mem ! i)"
      using n[of "i - b"] n[of "i - a"] assms(1) by (auto simp: less_diff_conv2)
  qed
qed

lemma exchanged_append:
  assumes "exchanged mem a b k mem1" "exchanged mem1 (a + k) (b + k) l mem2"
    "a + k + l \<le> b \<or> b + k + l \<le> a \<or> a = b"
    "a + k + l \<le> length mem" "b + k + l \<le> length mem"
  shows "exchanged mem a b (k + l) mem2"
  unfolding exchanged_def
proof (intro conjI allI impI)
  have len: "length mem1 = length mem" "length mem2 = length mem" using assms(1,2) by (auto simp: exchanged_def)
  then show "length mem2 = length mem" by simp
  fix i assume i: "i < length mem"
  have 1: "mem1 ! j = (if a \<le> j \<and> j < a + k then mem ! (b + (j - a))
         else if b \<le> j \<and> j < b + k then mem ! (a + (j - b)) else mem ! j)" if "j < length mem" for j
    using assms(1) that by (simp add: exchanged_def)
  have 2: "mem2 ! i = (if a + k \<le> i \<and> i < a + k + l then mem1 ! (b + k + (i - (a + k)))
         else if b + k \<le> i \<and> i < b + k + l then mem1 ! (a + k + (i - (b + k))) else mem1 ! i)"
    using assms(2) i len by (simp add: exchanged_def)
  consider (a1) "a \<le> i" "i < a + k" | (a2) "a + k \<le> i" "i < a + k + l"
    | (b1) "b \<le> i" "i < b + k" "\<not> (a \<le> i \<and> i < a + k + l)" | (b2) "b + k \<le> i" "i < b + k + l" "\<not> (a \<le> i \<and> i < a + k + l)"
    | (n) "\<not> (a \<le> i \<and> i < a + k + l)" "\<not> (b \<le> i \<and> i < b + k + l)" by linarith
  then show "mem2 ! i = (if a \<le> i \<and> i < a + (k + l) then mem ! (b + (i - a))
         else if b \<le> i \<and> i < b + (k + l) then mem ! (a + (i - b)) else mem ! i)"
  proof cases
    case a1
    then show ?thesis using 2 1[OF i] assms(3) by auto
  next
    case a2
    then have e: "b + k + (i - (a + k)) = b + (i - a)" by simp
    then show ?thesis using a2 2 1[of "b + (i - a)"] assms(3,4,5) i by auto
  next
    case b1
    then show ?thesis using 2 1[OF i] assms(3) by auto
  next
    case b2
    then have e: "a + k + (i - (b + k)) = a + (i - b)" by simp
    then show ?thesis using b2 2 1[of "a + (i - b)"] assms(3,4,5) i by auto
  next
    case n
    then show ?thesis using 2 1[OF i] by auto
  qed
qed

lemma swap_u128x_exchanged:
  "a + sz \<le> b \<or> b + sz \<le> a \<or> a = b \<Longrightarrow> a + sz \<le> length mem \<Longrightarrow> b + sz \<le> length mem \<Longrightarrow> sz mod 16 = 0 \<Longrightarrow> 0 < sz \<Longrightarrow>
   exchanged mem a b sz (njs_swap_u128x mem a b sz)"
proof (induction mem a b sz rule: njs_swap_u128x.induct)
  case (1 mem a b sz)
  have sz: "16 \<le> sz" "(sz - 16) mod 16 = 0" using "1.prems"(4,5) by (auto simp: le_mod_geq[symmetric] intro: ccontr)
  have u: "exchanged mem a b 16 (swap_unit 16 mem a b)" using "1.prems" sz by (intro swap_unit_exchanged) auto
  then have l: "length (swap_unit 16 mem a b) = length mem" by (simp add: exchanged_def)
  show ?case
  proof (cases "sz - 16 = 0")
    case True
    then have "sz = 16" using sz by simp
    then show ?thesis using u by (simp add: njs_swap_u128x.simps[of mem])
  next
    case False
    have "exchanged (swap_unit 16 mem a b) (a + 16) (b + 16) (sz - 16)
        (njs_swap_u128x (swap_unit 16 mem a b) (a + 16) (b + 16) (sz - 16))"
      by (rule "1.IH"[OF refl refl False]) (use "1.prems" sz l False in auto)
    then have "exchanged mem a b (16 + (sz - 16)) (njs_swap_u128x (swap_unit 16 mem a b) (a + 16) (b + 16) (sz - 16))"
      using "1.prems" sz by (intro exchanged_append[OF u]) auto
    then show ?thesis using False sz by (simp add: njs_swap_u128x.simps[of mem] Let_def)
  qed
qed

lemma swap_bytes_exchanged:
  "a + sz \<le> b \<or> b + sz \<le> a \<or> a = b \<Longrightarrow> a + sz \<le> length mem \<Longrightarrow> b + sz \<le> length mem \<Longrightarrow>
   exchanged mem a b sz (njs_swap_bytes mem a b sz)"
proof (induction sz arbitrary: mem a b)
  case 0
  then show ?case by (auto simp: exchanged_def)
next
  case (Suc sz)
  have u: "exchanged mem a b 1 (swap mem a b)" using Suc.prems by (auto simp: exchanged_def nth_swap less_Suc_eq)
  have "exchanged (swap mem a b) (a + 1) (b + 1) sz (njs_swap_bytes (swap mem a b) (a + 1) (b + 1) sz)"
    using Suc.prems by (intro Suc.IH) auto
  from exchanged_append[OF u this] show ?case using Suc.prems by auto
qed

subsection \<open>The properties\<close>

lemma qsort_all:
  "perm_in 0 (length arr) arr (njs_qsort cmp arr) \<and> (comparator cmp \<longrightarrow> sorted_in cmp 0 (length arr) (njs_qsort cmp arr))"
proof (cases "length arr < 2")
  case True
  then show ?thesis by (auto simp: njs_qsort_def sorted_in_def)
next
  case False
  obtain ys where y: "qsort_loop cmp arr [(0, length arr)] = qsort_loop cmp ys []" "perm_in 0 (length arr) arr ys"
    "comparator cmp \<longrightarrow> sorted_in cmp 0 (length arr) ys"
    using qsort_loop_segment[of 0 "length arr" arr cmp "[]"] by auto
  have "njs_qsort cmp arr = ys" using False y(1) by (simp add: njs_qsort_def qsort_loop.simps[of cmp ys])
  then show ?thesis using y(2,3) by simp
qed

text \<open>
  C6. \<open>njs_qsort\<close> terminates and permutes its array for every comparison function, also for one
  that is no order; and for a comparison that is a total preorder the result is sorted.
\<close>

theorem qsort_sorts:
  "mset (njs_qsort cmp arr) = mset arr \<and>
   (comparator cmp \<longrightarrow> sorted_wrt (\<lambda>x y. cmp x y \<le> 0) (njs_qsort cmp arr))"
  using qsort_all[of arr cmp] perm_in_length[of 0 "length arr" arr "njs_qsort cmp arr"]
  by (auto simp: perm_in_def sorted_in_def sorted_wrt_iff_nth_less)

theorem qsort_sorts_witness:
  "mset (njs_qsort njs_typed_array_compare_i8 [3, 0xFF, 0, 7, 5, 0x80, 1, 3]) = mset [3, 0xFF, 0, 7, 5, 0x80, 1, 3] \<and>
   sorted_wrt (\<lambda>x y. njs_typed_array_compare_i8 x y \<le> 0) (njs_qsort njs_typed_array_compare_i8 [3, 0xFF, 0, 7, 5, 0x80, 1, 3])"
  using qsort_sorts[of njs_typed_array_compare_i8 "[3, 0xFF, 0, 7, 5, 0x80, 1, 3]"] i8.comparator_axioms by blast

text \<open>
  Typed arrays come out in numeric order: with the comparison functions of the integer typed
  arrays the result of \<open>njs_qsort\<close> is the ascending sequence of the element values, signed for
  the signed element types.
\<close>

theorem typed_array_sort:
  "map sint (njs_qsort njs_typed_array_compare_i8 a1) = sort (map sint a1) \<and>
   map uint (njs_qsort njs_typed_array_compare_u8 a1) = sort (map uint a1) \<and>
   map sint (njs_qsort njs_typed_array_compare_i16 a2) = sort (map sint a2) \<and>
   map uint (njs_qsort njs_typed_array_compare_u16 a2) = sort (map uint a2) \<and>
   map sint (njs_qsort njs_typed_array_compare_i32 a4) = sort (map sint a4) \<and>
   map uint (njs_qsort njs_typed_array_compare_u32 a4) = sort (map uint a4)"
proof -
  have s: "map f (njs_qsort cmp a) = sort (map f a)"
    if c: "comparator cmp" and k: "\<And>x y. cmp x y \<le> 0 \<longleftrightarrow> (f x :: int) \<le> f y" for f cmp and a :: "'x list"
  proof (rule properties_for_sort[symmetric])
    note q = qsort_all[of a cmp]
    show "mset (map f (njs_qsort cmp a)) = mset (map f a)" using q by (simp add: perm_in_def)
    show "sorted (map f (njs_qsort cmp a))"
      using q c k perm_in_length[of 0 "length a" a "njs_qsort cmp a"]
      by (auto simp: sorted_in_def sorted_wrt_iff_nth_less)
  qed
  show ?thesis
    by (intro conjI s i8.comparator_axioms u8.comparator_axioms i16.comparator_axioms u16.comparator_axioms
        i32.comparator_axioms u32.comparator_axioms)
       (auto simp: typed_array_compare_defs of_bool_def word_less_def)
qed

text \<open>
  The swap function chosen for an element size exchanges two elements of an array and nothing
  else, for every element size and also when the two are the same.
\<close>

theorem choose_swap_exchanges:
  assumes "0 < sz" "(i + 1) * sz \<le> length mem" "(j + 1) * sz \<le> length mem"
  shows "exchanged mem (i * sz) (j * sz) sz (njs_choose_swap sz mem (i * sz) (j * sz) sz)"
proof -
  have d: "i * sz + sz \<le> j * sz \<or> j * sz + sz \<le> i * sz \<or> i * sz = j * sz"
  proof -
    consider "i < j" | "j < i" | "i = j" by linarith
    then show ?thesis
    proof cases
      case 1
      then have "(i + 1) * sz \<le> j * sz" by (intro mult_le_mono1) simp
      then show ?thesis by simp
    next
      case 2
      then have "(j + 1) * sz \<le> i * sz" by (intro mult_le_mono1) simp
      then show ?thesis by simp
    qed simp
  qed
  have l: "i * sz + sz \<le> length mem" "j * sz + sz \<le> length mem" using assms(2,3) by simp_all
  note u = swap_unit_exchanged[OF d l] and x = swap_u128x_exchanged[OF d l _ assms(1)] and b = swap_bytes_exchanged[OF d l]
  consider (unit) "sz \<in> {1, 2, 4, 8, 16}" | (x) "sz mod 16 = 0" "sz \<notin> {1, 2, 4, 8, 16}" | (bytes) "sz mod 16 \<noteq> 0" "sz \<notin> {1, 2, 4, 8, 16}"
    by blast
  then show ?thesis
  proof cases
    case unit
    then have "njs_choose_swap sz mem (i * sz) (j * sz) sz = swap_unit sz mem (i * sz) (j * sz)"
      by (auto simp: njs_choose_swap_def njs_swap_u8_def njs_swap_u16_def njs_swap_u32_def njs_swap_u64_def njs_swap_u128_def)
    then show ?thesis using u by simp
  next
    case x
    then have "njs_choose_swap sz = njs_swap_u128x" by (simp add: njs_choose_swap_def)
    then show ?thesis using swap_u128x_exchanged[OF d l x(1) assms(1)] by simp
  next
    case bytes
    then have "njs_choose_swap sz = njs_swap_bytes" by (simp add: njs_choose_swap_def)
    then show ?thesis using b by simp
  qed
qed

theorem choose_swap_exchanges_witness:
  "exchanged [1, 2, 3, 4, 5, 6] (0 * 3) (1 * 3) 3 (njs_choose_swap 3 [1, 2, 3, 4, 5, 6] (0 * 3) (1 * 3) 3)"
  by (rule choose_swap_exchanges) simp_all

text \<open>
  C20. The explicit stack of 16 segments never overflows: a turn of the loop that starts with at
  most 15 segments below its own ends with at most 15, because a full stack makes it fall back
  to heap sort.
\<close>

theorem qsort_stack_bounded:
  assumes "segment_loop cmp xs stk base n = (ys, stk', base', endp)" "length stk < NJS_MAX_DEPTH"
  shows "length stk' < NJS_MAX_DEPTH"
  using assms
proof (induction cmp xs stk base n rule: segment_loop.induct)
  case (1 cmp xs stk base n)
  show ?case
  proof (cases "6 < n \<and> length stk \<noteq> NJS_MAX_DEPTH - 1")
    case False
    then show ?thesis using "1.prems" segment_loop.simps[of cmp xs stk base n] by (auto split: if_splits)
  next
    case True
    obtain zs lt gt where p: "partition_step cmp xs base n = (zs, lt, gt)" by (cases "partition_step cmp xs base n")
    show ?thesis
    proof (cases "base + n - gt < lt - base")
      case c: True
      have "segment_loop cmp zs ((base, lt - base) # stk) gt (base + n - gt) = (ys, stk', base', endp)"
        using "1.prems"(1) True p c by (simp add: segment_loop.simps[of cmp xs stk base n])
      then show ?thesis using "1.IH"(1)[OF _ _ p[symmetric] refl c] True "1.prems"(2) by (simp add: NJS_MAX_DEPTH_def)
    next
      case c: False
      have "segment_loop cmp zs ((gt, base + n - gt) # stk) base (lt - base) = (ys, stk', base', endp)"
        using "1.prems"(1) True p c by (simp add: segment_loop.simps[of cmp xs stk base n])
      then show ?thesis using "1.IH"(2)[OF _ _ p[symmetric] refl c] True "1.prems"(2) by (simp add: NJS_MAX_DEPTH_def)
    qed
  qed
qed

theorem qsort_stack_bounded_witness:
  "length (fst (snd (segment_loop njs_typed_array_compare_u8 [9, 8, 7, 6, 5, 4, 3, 2] [] 0 8))) < NJS_MAX_DEPTH"
proof -
  obtain ys stk' b e where r: "segment_loop njs_typed_array_compare_u8 [9, 8, 7, 6, 5, 4, 3, 2] [] 0 8 = (ys, stk', b, e)"
    by (metis prod_cases4)
  show ?thesis using qsort_stack_bounded[OF r] by (simp add: r NJS_MAX_DEPTH_def)
qed

end
