(* ===== verification/Ngx_Js_Http.thy ===== *)
theory Ngx_Js_Http
  imports Njs_Prelude
begin

section \<open>The HTTP client's response parsers (src/nginx/ngx_js_http.c)\<close>

text \<open>
  \<open>ngx.fetch()\<close> parses a response as it arrives: the status line and the header lines are byte
  driven state machines that are resumed with every buffer, the body is either plain or
  chunked.

  A pointer into the buffer is an index into its bytes; NULL is \<open>None\<close>.  The field \<open>hp->state\<close>
  serves the status line and the header parser in turn, each of which leaves it 0, its first
  state, when it hands over: it is two fields here.  A parser sees the bytes from \<open>b->pos\<close> to
  \<open>b->last\<close>.
\<close>

datatype status_state =
    sl_start | sl_H | sl_HT | sl_HTT | sl_HTTP | sl_first_major_digit | sl_major_digit
  | sl_first_minor_digit | sl_minor_digit | sl_status | sl_space_after_status | sl_status_text
  | sl_almost_done

datatype header_state =
    hl_start | hl_name | hl_space_before_value | hl_value | hl_space_after_value
  | hl_almost_done | hl_header_almost_done

record ngx_js_http_parse =
  hp_status_state :: status_state
  hp_header_state :: header_state
  http_major :: nat
  http_minor :: nat
  http_version :: nat
  code :: nat
  status_text :: "nat option"
  status_text_end :: "nat option"
  count :: nat
  header_name_start :: nat
  header_name_end :: nat
  header_start :: nat
  header_end :: nat

definition ngx_js_http_version :: "nat \<Rightarrow> nat \<Rightarrow> nat" where
  "ngx_js_http_version major minor = major * 1000 + minor"

definition CR :: u_char where "CR = 13"
definition LF :: u_char where "LF = 10"

definition is_digit :: "u_char \<Rightarrow> bool" where
  "is_digit ch \<longleftrightarrow> 48 \<le> ch \<and> ch \<le> 57"

definition digit :: "u_char \<Rightarrow> nat" where
  "digit ch = unat ch - 48"

text \<open>One turn of a parser's loop: go on, or leave with a return code.\<close>

datatype 'h outcome = Next 'h | Leave ngx_rc 'h

fun parse_loop :: "('h \<Rightarrow> nat \<Rightarrow> u_char \<Rightarrow> 'h outcome) \<Rightarrow> 'h \<Rightarrow> nat \<Rightarrow> u_char list \<Rightarrow> ngx_rc \<times> 'h \<times> nat" where
  "parse_loop step h p [] = (NGX_AGAIN, h, p)"
| "parse_loop step h p (ch # bs) =
     (case step h p ch of
        Next h' \<Rightarrow> parse_loop step h' (p + 1) bs
      | Leave rc h' \<Rightarrow> (rc, h', p + 1))"

subsection \<open>The status line\<close>

definition expect_char :: "u_char \<Rightarrow> status_state \<Rightarrow> ngx_js_http_parse \<Rightarrow> u_char \<Rightarrow> ngx_js_http_parse outcome" where
  "expect_char c s hp ch = (if ch = c then Next (hp\<lparr>hp_status_state := s\<rparr>) else Leave NGX_ERROR hp)"

definition status_done :: "ngx_js_http_parse \<Rightarrow> ngx_js_http_parse outcome" where
  "status_done hp =
     Leave NGX_OK (hp\<lparr>hp_status_state := sl_start,
                     http_version := ngx_js_http_version (http_major hp) (http_minor hp)\<rparr>)"

definition status_step :: "ngx_js_http_parse \<Rightarrow> nat \<Rightarrow> u_char \<Rightarrow> ngx_js_http_parse outcome" where
  "status_step hp p ch =
     (case hp_status_state hp of
        sl_start \<Rightarrow> expect_char 0x48 sl_H hp ch
      | sl_H \<Rightarrow> expect_char 0x54 sl_HT hp ch
      | sl_HT \<Rightarrow> expect_char 0x54 sl_HTT hp ch
      | sl_HTT \<Rightarrow> expect_char 0x50 sl_HTTP hp ch
      | sl_HTTP \<Rightarrow> expect_char 0x2F sl_first_major_digit hp ch
      | sl_first_major_digit \<Rightarrow>
          (if ch < 49 \<or> 57 < ch then Leave NGX_ERROR hp
           else
             (let hp = hp\<lparr>http_major := digit ch\<rparr>
              in if 1 < http_major hp then Leave NGX_ERROR hp
                 else Next (hp\<lparr>hp_status_state := sl_major_digit\<rparr>)))
      | sl_major_digit \<Rightarrow>
          (if ch = 0x2E then Next (hp\<lparr>hp_status_state := sl_first_minor_digit\<rparr>)
           else if \<not> is_digit ch then Leave NGX_ERROR hp
           else
             (let hp = hp\<lparr>http_major := http_major hp * 10 + digit ch\<rparr>
              in if 1 < http_major hp then Leave NGX_ERROR hp else Next hp))
      | sl_first_minor_digit \<Rightarrow>
          (if \<not> is_digit ch then Leave NGX_ERROR hp
           else Next (hp\<lparr>http_minor := digit ch, hp_status_state := sl_minor_digit\<rparr>))
      | sl_minor_digit \<Rightarrow>
          (if ch = 0x20 then Next (hp\<lparr>hp_status_state := sl_status\<rparr>)
           else if \<not> is_digit ch then Leave NGX_ERROR hp
           else if 99 < http_minor hp then Leave NGX_ERROR hp
           else Next (hp\<lparr>http_minor := http_minor hp * 10 + digit ch\<rparr>))
      | sl_status \<Rightarrow>
          (if ch = 0x20 then Next hp
           else if \<not> is_digit ch then Leave NGX_ERROR hp
           else
             (let hp = hp\<lparr>code := code hp * 10 + digit ch, count := count hp + 1\<rparr>
              in Next (if count hp = 3 then hp\<lparr>hp_status_state := sl_space_after_status\<rparr> else hp)))
      | sl_space_after_status \<Rightarrow>
          (if ch = 0x20 \<or> ch = 0x2E then Next (hp\<lparr>hp_status_state := sl_status_text\<rparr>)
           else if ch = CR then Next hp
           else if ch = LF then status_done hp
           else Leave NGX_ERROR hp)
      | sl_status_text \<Rightarrow>
          (if ch = LF then status_done (hp\<lparr>status_text_end := Some p\<rparr>)
           else
             (let hp = (if ch = CR then hp\<lparr>status_text_end := Some p, hp_status_state := sl_almost_done\<rparr> else hp)
              in Next (if status_text hp = None then hp\<lparr>status_text := Some p\<rparr> else hp)))
      | sl_almost_done \<Rightarrow> (if ch = LF then status_done hp else Leave NGX_ERROR hp))"

text \<open>An error leaves \<open>b->pos\<close> and \<open>hp->state\<close> as they were.\<close>

definition ngx_js_http_parse_status_line ::
    "ngx_js_http_parse \<Rightarrow> nat \<Rightarrow> u_char list \<Rightarrow> ngx_rc \<times> ngx_js_http_parse \<times> nat" where
  "ngx_js_http_parse_status_line hp p bs =
     (case parse_loop status_step hp p bs of
        (NGX_ERROR, hp', _) \<Rightarrow> (NGX_ERROR, hp'\<lparr>hp_status_state := hp_status_state hp\<rparr>, p)
      | r \<Rightarrow> r)"

subsection \<open>Header lines\<close>

definition is_alpha :: "u_char \<Rightarrow> bool" where
  "is_alpha ch \<longleftrightarrow> (let c = ch OR 0x20 in 97 \<le> c \<and> c \<le> 122)"

definition header_step :: "ngx_js_http_parse \<Rightarrow> nat \<Rightarrow> u_char \<Rightarrow> ngx_js_http_parse outcome" where
  "header_step hp p ch =
     (let done = (\<lambda>hp. Leave NGX_OK (hp\<lparr>hp_header_state := hl_start\<rparr>));
          header_done = (\<lambda>hp. Leave NGX_DONE (hp\<lparr>hp_header_state := hl_start\<rparr>))
      in case hp_header_state hp of
        hl_start \<Rightarrow>
          (if ch = CR then Next (hp\<lparr>header_end := p, hp_header_state := hl_header_almost_done\<rparr>)
           else if ch = LF then header_done (hp\<lparr>header_end := p\<rparr>)
           else
             (let hp = hp\<lparr>hp_header_state := hl_name, header_name_start := p\<rparr>
              in if is_alpha ch \<or> is_digit ch then Next hp else Leave NGX_ERROR hp))
      | hl_name \<Rightarrow>
          (if is_alpha ch then Next hp
           else if ch = 0x3A then Next (hp\<lparr>header_name_end := p, hp_header_state := hl_space_before_value\<rparr>)
           else if ch = 0x2D \<or> ch = 0x5F then Next hp
           else if is_digit ch then Next hp
           else if ch = CR then
             Next (hp\<lparr>header_name_end := p, header_start := p, header_end := p, hp_header_state := hl_almost_done\<rparr>)
           else if ch = LF then done (hp\<lparr>header_name_end := p, header_start := p, header_end := p\<rparr>)
           else Leave NGX_ERROR hp)
      | hl_space_before_value \<Rightarrow>
          (if ch = 0x20 then Next hp
           else if ch = CR then Next (hp\<lparr>header_start := p, header_end := p, hp_header_state := hl_almost_done\<rparr>)
           else if ch = LF then done (hp\<lparr>header_start := p, header_end := p\<rparr>)
           else Next (hp\<lparr>header_start := p, hp_header_state := hl_value\<rparr>))
      | hl_value \<Rightarrow>
          (if ch = 0x20 then Next (hp\<lparr>header_end := p, hp_header_state := hl_space_after_value\<rparr>)
           else if ch = CR then Next (hp\<lparr>header_end := p, hp_header_state := hl_almost_done\<rparr>)
           else if ch = LF then done (hp\<lparr>header_end := p\<rparr>)
           else Next hp)
      | hl_space_after_value \<Rightarrow>
          (if ch = 0x20 then Next hp
           else if ch = CR then Next (hp\<lparr>hp_header_state := hl_almost_done\<rparr>)
           else if ch = LF then done hp
           else Next (hp\<lparr>hp_header_state := hl_value\<rparr>))
      | hl_almost_done \<Rightarrow> (if ch = LF then done hp else Leave NGX_ERROR hp)
      | hl_header_almost_done \<Rightarrow> (if ch = LF then header_done hp else Leave NGX_ERROR hp))"

definition ngx_js_http_parse_header_line ::
    "ngx_js_http_parse \<Rightarrow> nat \<Rightarrow> u_char list \<Rightarrow> ngx_rc \<times> ngx_js_http_parse \<times> nat" where
  "ngx_js_http_parse_header_line hp p bs =
     (case parse_loop header_step hp p bs of
        (NGX_ERROR, hp', _) \<Rightarrow> (NGX_ERROR, hp'\<lparr>hp_header_state := hp_header_state hp\<rparr>, p)
      | r \<Rightarrow> r)"

subsection \<open>Chunked bodies\<close>

datatype chunk_state =
    ch_start | ch_chunk_size | ch_chunk_size_linefeed | ch_chunk_end_newline | ch_chunk_end_linefeed
  | ch_chunk

record ngx_js_http_chunk_parse =
  hcp_state :: chunk_state
  chunk_size :: uint64
  hcp_last :: bool

definition ngx_size_is_sufficient :: "uint64 \<Rightarrow> bool" where
  "ngx_size_is_sufficient cs \<longleftrightarrow> cs < push_bit 60 1"

datatype chunk_buffer_rc = NGX_JS_HTTP_CHUNK_MIDDLE | NGX_JS_HTTP_CHUNK_ON_BORDER | NGX_JS_HTTP_CHUNK_END

text \<open>The bytes are those from \<open>hcp->pos\<close> on; the answer has the bytes appended and the rest.\<close>

definition ngx_js_http_chunk_buffer ::
    "ngx_js_http_chunk_parse \<Rightarrow> u_char list \<Rightarrow>
     chunk_buffer_rc \<times> ngx_js_http_chunk_parse \<times> u_char list \<times> u_char list" where
  "ngx_js_http_chunk_buffer hcp bs =
     (let sz = length bs
      in if unat (chunk_size hcp) < sz then
           (NGX_JS_HTTP_CHUNK_END, hcp, take (unat (chunk_size hcp)) bs, drop (unat (chunk_size hcp)) bs)
         else
           (let hcp = hcp\<lparr>chunk_size := chunk_size hcp - of_nat sz\<rparr>
            in (if chunk_size hcp = 0 then NGX_JS_HTTP_CHUNK_ON_BORDER else NGX_JS_HTTP_CHUNK_MIDDLE,
                hcp, bs, [])))"

text \<open>The switch, for the states other than \<open>sw_chunk\<close>.\<close>

definition chunk_step :: "ngx_js_http_chunk_parse \<Rightarrow> u_char \<Rightarrow> ngx_js_http_chunk_parse outcome" where
  "chunk_step hcp ch =
     (case hcp_state hcp of
        ch_start \<Rightarrow>
          (if ch - 48 \<le> 9 then Next (hcp\<lparr>hcp_state := ch_chunk_size, chunk_size := ucast (ch - 48)\<rparr>)
           else
             (let c = (ch OR 0x20) - 97
              in if c \<le> 5 then Next (hcp\<lparr>hcp_state := ch_chunk_size, chunk_size := 0x0A + ucast c\<rparr>)
                 else Leave NGX_ERROR hcp))
      | ch_chunk_size \<Rightarrow>
          (let c = ch - 48; l = (ch OR 0x20) - 97;
               add = (\<lambda>c :: u_char.
                 if ngx_size_is_sufficient (chunk_size hcp)
                 then Next (hcp\<lparr>chunk_size := push_bit 4 (chunk_size hcp) + ucast c\<rparr>)
                 else Leave NGX_ERROR hcp)
           in if c \<le> 9 then add c
              else if l \<le> 5 then add (l + 0x0A)
              else if ch = CR then Next (hcp\<lparr>hcp_state := ch_chunk_size_linefeed\<rparr>)
              else Leave NGX_ERROR hcp)
      | ch_chunk_size_linefeed \<Rightarrow>
          (if ch = LF then
             (if chunk_size hcp \<noteq> 0 then Next (hcp\<lparr>hcp_state := ch_chunk\<rparr>)
              else Next (hcp\<lparr>hcp_last := True, hcp_state := ch_chunk_end_newline\<rparr>))
           else Leave NGX_ERROR hcp)
      | ch_chunk_end_newline \<Rightarrow>
          (if ch = CR then Next (hcp\<lparr>hcp_state := ch_chunk_end_linefeed\<rparr>) else Leave NGX_ERROR hcp)
      | ch_chunk_end_linefeed \<Rightarrow>
          (if ch = LF then
             (if \<not> hcp_last hcp then Next (hcp\<lparr>hcp_state := ch_start\<rparr>) else Leave NGX_OK hcp)
           else Leave NGX_ERROR hcp)
      | ch_chunk \<Rightarrow> Next hcp)"

text \<open>
  The loop; the answer has the parser, the chain and the bytes not consumed.
\<close>

function chunked_loop ::
    "ngx_js_http_chunk_parse \<Rightarrow> u_char list \<Rightarrow> u_char list \<Rightarrow>
     ngx_rc \<times> ngx_js_http_chunk_parse \<times> u_char list \<times> u_char list" where
  "chunked_loop hcp chain bs =
     (if bs = [] then (NGX_AGAIN, hcp, chain, [])
      else
        (case (if hcp_state hcp = ch_chunk then ngx_js_http_chunk_buffer hcp bs
               else (NGX_JS_HTTP_CHUNK_END, hcp, [], bs)) of
           (NGX_JS_HTTP_CHUNK_MIDDLE, hcp', app, rest) \<Rightarrow> (NGX_AGAIN, hcp', chain @ app, rest)
         | (NGX_JS_HTTP_CHUNK_ON_BORDER, hcp', app, rest) \<Rightarrow>
             (NGX_AGAIN, hcp'\<lparr>hcp_state := ch_chunk_end_newline\<rparr>, chain @ app, rest)
         | (NGX_JS_HTTP_CHUNK_END, hcp', app, rest) \<Rightarrow>
             (let hcp' = (if hcp_state hcp = ch_chunk then hcp'\<lparr>hcp_state := ch_chunk_end_newline\<rparr> else hcp')
              in case rest of
                   [] \<Rightarrow> (NGX_AGAIN, hcp', chain @ app, [])
                 | ch # rest' \<Rightarrow>
                     (case chunk_step hcp' ch of
                        Next hcp'' \<Rightarrow> chunked_loop hcp'' (chain @ app) rest'
                      | Leave rc hcp'' \<Rightarrow> (rc, hcp'', chain @ app, rest')))))"
  by pat_completeness auto
termination
  by (relation "measure (\<lambda>(hcp, chain, bs). length bs)")
     (auto simp: ngx_js_http_chunk_buffer_def Let_def split: if_splits dest!: arg_cong[where f = length])

declare chunked_loop.simps [simp del]

text \<open>The local variable \<open>state\<close> is stored back into \<open>hcp\<close> only with \<open>NGX_AGAIN\<close>.\<close>

definition ngx_js_http_parse_chunked ::
    "ngx_js_http_chunk_parse \<Rightarrow> u_char list \<Rightarrow> u_char list \<Rightarrow>
     ngx_rc \<times> ngx_js_http_chunk_parse \<times> u_char list \<times> u_char list" where
  "ngx_js_http_parse_chunked hcp chain bs =
     (case chunked_loop hcp chain bs of
        (NGX_AGAIN, hcp', chain', rest) \<Rightarrow> (NGX_AGAIN, hcp', chain', rest)
      | (rc, hcp', chain', rest) \<Rightarrow> (rc, hcp'\<lparr>hcp_state := hcp_state hcp\<rparr>, chain', rest))"

subsection \<open>Header values\<close>

definition ngx_js_http_whitespace :: "u_char \<Rightarrow> bool" where
  "ngx_js_http_whitespace c \<longleftrightarrow> c \<in> {0x09, 0x0A, 0x0D, 0x20}"

definition trim_char :: "bool \<Rightarrow> u_char \<Rightarrow> bool" where
  "trim_char c0 c \<longleftrightarrow> ngx_js_http_whitespace c \<or> c0 \<and> c \<le> 0x20"

text \<open>The loop from the front, and the loop from the back on the reversed bytes.\<close>

fun trim_front :: "(u_char \<Rightarrow> bool) \<Rightarrow> u_char list \<Rightarrow> u_char list" where
  "trim_front t [] = []"
| "trim_front t (c # cs) = (if t c then trim_front t cs else c # cs)"

definition ngx_js_http_trim :: "u_char list \<Rightarrow> bool \<Rightarrow> u_char list" where
  "ngx_js_http_trim v c0 = rev (trim_front (trim_char c0) (rev (trim_front (trim_char c0) v)))"

definition ngx_js_http_trim_ows :: "u_char list \<Rightarrow> u_char list" where
  "ngx_js_http_trim_ows v =
     (let t = (\<lambda>c. c = 0x20 \<or> c = 0x09) in rev (trim_front t (rev (trim_front t v))))"

definition token_map :: "uint32 list" where
  "token_map = [0x00000000, 0x03ff6cfa, 0xc7fffffe, 0x57ffffff, 0, 0, 0, 0]"

definition ngx_is_token :: "u_char \<Rightarrow> bool" where
  "ngx_is_token byte \<longleftrightarrow> token_map ! unat (drop_bit 5 byte) AND push_bit (unat (byte AND 0x1F)) 1 \<noteq> 0"

definition ngx_js_check_header_name :: "u_char list \<Rightarrow> ngx_rc" where
  "ngx_js_check_header_name name = (if list_all ngx_is_token name then NGX_OK else NGX_ERROR)"

definition ngx_js_check_request_line_component :: "u_char list \<Rightarrow> ngx_rc" where
  "ngx_js_check_request_line_component v =
     (if list_ex (\<lambda>c. c \<le> 0x20 \<or> c = 0x7F) v then NGX_ERROR else NGX_OK)"

definition ngx_js_check_header_value :: "u_char list \<Rightarrow> ngx_rc" where
  "ngx_js_check_header_value v =
     (if list_ex (\<lambda>c. c \<le> 0x08 \<or> 0x0A \<le> c \<and> c \<le> 0x1F \<or> c = 0x7F) v then NGX_ERROR else NGX_OK)"

subsection \<open>Processing a response\<close>

text \<open>
  The buffer: its bytes up to \<open>b->last\<close>, the position and its size.  Functions of nginx
  (\<open>ngx_atoof\<close>, \<open>ngx_strncasecmp\<close>), the callback \<open>append_headers\<close> and the allocator are the record
  \<open>http_env\<close>.  \<open>ngx_js_http_error\<close> hands the message to the error handler: here it is stored.
\<close>

record http_buf =
  buf_mem :: "u_char list"
  buf_pos :: nat
  buf_size :: nat

record http_env =
  atoof :: "u_char list \<Rightarrow> int option"
  strncasecmp :: "u_char list \<Rightarrow> string \<Rightarrow> int"
  append_headers :: "(u_char list \<times> u_char list) list \<Rightarrow> u_char list \<Rightarrow> u_char list \<Rightarrow> (u_char list \<times> u_char list) list option"
  pool_ok :: bool
  list_ok :: bool

datatype http_process = process_status_line | process_headers | process_body

record ngx_js_http =
  http_parse :: ngx_js_http_parse
  http_chunk_parse :: ngx_js_http_chunk_parse
  process :: http_process
  buffer :: http_buf
  buffer_size :: nat
  has_chunk_buffer :: bool
  header_list_ready :: bool
  max_response_body_size :: int
  header_only :: bool
  chunked :: bool
  keepalive :: bool
  content_length_n :: int
  http_done :: bool
  response_code :: nat
  response_status_text :: "nat option \<times> nat option"
  response_headers :: "(u_char list \<times> u_char list) list"
  response_chain :: "u_char list"
  ready :: bool
  http_err :: "string option"

definition unread :: "http_buf \<Rightarrow> u_char list" where
  "unread b = drop (buf_pos b) (buf_mem b)"

definition slice :: "u_char list \<Rightarrow> nat \<Rightarrow> nat \<Rightarrow> u_char list" where
  "slice mem a b = take (b - a) (drop a mem)"

definition http_fail :: "string \<Rightarrow> ngx_js_http \<Rightarrow> ngx_rc \<times> ngx_js_http" where
  "http_fail msg http = (NGX_ERROR, http\<lparr>http_err := Some msg\<rparr>)"

text \<open>The tail of \<open>ngx_js_http_process_body\<close>: a buffer read to its end is replaced or rewound.\<close>

definition recycle_buffer :: "http_env \<Rightarrow> ngx_rc \<Rightarrow> ngx_js_http \<Rightarrow> ngx_rc \<times> ngx_js_http" where
  "recycle_buffer env rc http =
     (if buf_pos (buffer http) = buf_size (buffer http) then
        (if \<not> has_chunk_buffer http then
           (if pool_ok env then
              (rc, http\<lparr>buffer := \<lparr>buf_mem = [], buf_pos = 0, buf_size = buffer_size http\<rparr>, has_chunk_buffer := True\<rparr>)
            else http_fail ''memory error'' http)
         else (rc, http\<lparr>buffer := (buffer http)\<lparr>buf_mem := [], buf_pos := 0\<rparr>\<rparr>))
      else (rc, http))"

definition ngx_js_http_process_body :: "http_env \<Rightarrow> ngx_js_http \<Rightarrow> ngx_rc \<times> ngx_js_http" where
  "ngx_js_http_process_body env http =
     (let sz = int (length (response_chain http))
      in if http_done http then
           (if \<not> header_only http \<and> chunked http \<and> content_length_n http = -1 then
              http_fail ''invalid http chunked response'' http
            else if header_only http \<or> content_length_n http = -1 \<or> sz = content_length_n http then
              (NGX_DONE, http\<lparr>ready := True\<rparr>)
            else if sz < content_length_n http then (NGX_AGAIN, http)
            else http_fail ''http trailing data'' http)
         else if chunked http then
           (case ngx_js_http_parse_chunked (http_chunk_parse http) (response_chain http) (unread (buffer http)) of
              (rc, hcp, chain, rest) \<Rightarrow>
                (let http' = http\<lparr>http_chunk_parse := hcp, response_chain := chain\<rparr>
                 in if rc = NGX_ERROR then http_fail ''invalid http chunked response'' http'
                    else
                      (let http' = (if rc = NGX_OK then http'\<lparr>content_length_n := int (length chain)\<rparr> else http')
                       in if max_response_body_size http * 10 < int (length chain) then
                            http_fail ''very large http chunked response'' http'
                          else
                            recycle_buffer env rc
                              (http'\<lparr>buffer := (buffer http)\<lparr>buf_pos := length (buf_mem (buffer http)) - length rest\<rparr>\<rparr>))))
         else
           (let need = (if header_only http then 0
                        else if content_length_n http = -1 then max_response_body_size http - sz
                        else content_length_n http - sz);
                chsize = min need (int (length (unread (buffer http))))
            in if max_response_body_size http < sz + chsize then
                 http_fail ''http response body is too large'' http
               else
                 recycle_buffer env (if chsize < need then NGX_AGAIN else NGX_DONE)
                   (if 0 < chsize then
                      http\<lparr>response_chain := response_chain http @ take (nat chsize) (unread (buffer http)),
                           buffer := (buffer http)\<lparr>buf_pos := buf_pos (buffer http) + nat chsize\<rparr>\<rparr>
                    else http)))"

text \<open>
  The header loop.  Every turn that goes on has consumed a line, so the loop ends; \<open>Inl\<close> is an
  early return, \<open>Inr\<close> the break at the end of the header.
\<close>

definition header_is :: "http_env \<Rightarrow> u_char list \<Rightarrow> string \<Rightarrow> bool" where
  "header_is env v literal \<longleftrightarrow> length v = length literal \<and> strncasecmp env v literal = 0"

definition add_header :: "http_env \<Rightarrow> ngx_js_http \<Rightarrow> (ngx_rc \<times> ngx_js_http) + ngx_js_http" where
  "add_header env http =
     (let hp = http_parse http; mem = buf_mem (buffer http);
          name = slice mem (header_name_start hp) (header_name_end hp);
          v = slice mem (header_start hp) (header_end hp)
      in case append_headers env (response_headers http) name v of
           None \<Rightarrow> Inl (http_fail ''cannot add respose header'' http)
         | Some hs \<Rightarrow>
             (let http = http\<lparr>response_headers := hs\<rparr>;
                  http = (if header_is env name ''Transfer-Encoding'' \<and> header_is env v ''chunked''
                          then http\<lparr>chunked := True\<rparr> else http);
                  http = (if header_is env name ''Connection'' \<and> header_is env v ''close''
                          then http\<lparr>keepalive := False\<rparr> else http)
              in if header_is env name ''Content-Length'' then
                   (case atoof env v of
                      None \<Rightarrow> Inl (http_fail ''invalid http content length'' (http\<lparr>content_length_n := -1\<rparr>))
                    | Some n \<Rightarrow>
                        (let http = http\<lparr>content_length_n := n\<rparr>
                         in if \<not> header_only http \<and> max_response_body_size http < n then
                              Inl (http_fail ''http content length is too large'' http)
                            else Inr http))
                 else Inr http))"

lemma parse_loop_consumes:
  assumes "parse_loop step h p bs = (rc, h', p')" "rc \<noteq> NGX_AGAIN"
  shows "p < p' \<and> p' \<le> p + length bs"
  using assms by (induction step h p bs rule: parse_loop.induct) (force split: outcome.splits)+

lemma parse_header_consumes:
  assumes "ngx_js_http_parse_header_line hp p bs = (NGX_OK, hp', p')"
  shows "p < p' \<and> p' \<le> p + length bs"
proof -
  obtain rc h q where r: "parse_loop header_step hp p bs = (rc, h, q)" by (cases "parse_loop header_step hp p bs")
  then have "rc = NGX_OK" "q = p'" using assms by (cases rc; auto simp: ngx_js_http_parse_header_line_def)+
  then show ?thesis using parse_loop_consumes[OF r] by simp
qed

lemma add_header_buffer: "add_header env http = Inr http' \<Longrightarrow> buffer http' = buffer http"
  by (auto simp: add_header_def Let_def split: option.splits if_splits)

function header_loop :: "http_env \<Rightarrow> ngx_js_http \<Rightarrow> (ngx_rc \<times> ngx_js_http) + ngx_js_http" where
  "header_loop env http =
     (case ngx_js_http_parse_header_line (http_parse http) (buf_pos (buffer http)) (unread (buffer http)) of
        (rc, hp, p) \<Rightarrow>
          (let http' = http\<lparr>http_parse := hp, buffer := (buffer http)\<lparr>buf_pos := p\<rparr>\<rparr>
           in case rc of
                NGX_OK \<Rightarrow>
                  (case add_header env http' of
                     Inl r \<Rightarrow> Inl r
                   | Inr http'' \<Rightarrow> header_loop env http'')
              | NGX_DONE \<Rightarrow> Inr http'
              | NGX_AGAIN \<Rightarrow> Inl (NGX_AGAIN, http')
              | _ \<Rightarrow> Inl (http_fail ''invalid http header'' http')))"
  by pat_completeness auto
termination
  by (relation "measure (\<lambda>(env, http). length (unread (buffer http)))")
     (auto simp: unread_def dest!: add_header_buffer parse_header_consumes[OF sym])

declare header_loop.simps [simp del]

definition ngx_js_http_process_headers :: "http_env \<Rightarrow> ngx_js_http \<Rightarrow> ngx_rc \<times> ngx_js_http" where
  "ngx_js_http_process_headers env http =
     (if \<not> header_list_ready http \<and> \<not> list_ok env then http_fail ''alloc failed'' http
      else
        (case header_loop env (http\<lparr>header_list_ready := True\<rparr>) of
           Inl r \<Rightarrow> r
         | Inr http' \<Rightarrow> ngx_js_http_process_body env (http'\<lparr>process := process_body\<rparr>)))"

definition ngx_js_http_process_status_line :: "http_env \<Rightarrow> ngx_js_http \<Rightarrow> ngx_rc \<times> ngx_js_http" where
  "ngx_js_http_process_status_line env http =
     (case ngx_js_http_parse_status_line (http_parse http) (buf_pos (buffer http)) (unread (buffer http)) of
        (rc, hp, p) \<Rightarrow>
          (let http = http\<lparr>http_parse := hp, buffer := (buffer http)\<lparr>buf_pos := p\<rparr>\<rparr>
           in case rc of
                NGX_OK \<Rightarrow>
                  ngx_js_http_process_headers env
                    (http\<lparr>response_code := code hp, response_status_text := (status_text hp, status_text_end hp),
                         process := process_headers,
                         keepalive := keepalive http \<and> ngx_js_http_version 1 1 \<le> http_version hp\<rparr>)
              | NGX_AGAIN \<Rightarrow> (NGX_AGAIN, http)
              | _ \<Rightarrow> http_fail ''invalid http status line'' http))"

definition run_process :: "http_env \<Rightarrow> ngx_js_http \<Rightarrow> ngx_rc \<times> ngx_js_http" where
  "run_process env http =
     (case process http of
        process_status_line \<Rightarrow> ngx_js_http_process_status_line env http
      | process_headers \<Rightarrow> ngx_js_http_process_headers env http
      | process_body \<Rightarrow> ngx_js_http_process_body env http)"

text \<open>
  The turns of \<open>ngx_js_http_read_handler\<close>: \<open>n > 0\<close> bytes from \<open>recv\<close>, and the end of the connection,
  after which an unfinished response is an error.
\<close>

definition http_eof :: "http_env \<Rightarrow> ngx_js_http \<Rightarrow> ngx_js_http" where
  "http_eof env http =
     (case run_process env (http\<lparr>http_done := True\<rparr>) of
        (NGX_AGAIN, http') \<Rightarrow> snd (http_fail ''prematurely closed connection'' http')
      | (_, http') \<Rightarrow> http')"

definition http_recv :: "http_env \<Rightarrow> u_char list \<Rightarrow> ngx_js_http \<Rightarrow> ngx_rc \<times> ngx_js_http" where
  "http_recv env bytes http =
     (case run_process env (http\<lparr>buffer := (buffer http)\<lparr>buf_mem := buf_mem (buffer http) @ bytes\<rparr>\<rparr>) of
        (NGX_DONE, http') \<Rightarrow> (NGX_DONE, http_eof env http')
      | r \<Rightarrow> r)"

end
