(* ===== verification/Ngx_Js_Http_Props.thy ===== *)
theory Ngx_Js_Http_Props
  imports Ngx_Js_Http
begin

section \<open>Correctness of the HTTP response parsers\<close>

text \<open>
  What the parsers of \<open>Ngx_Js_Http\<close> compute, independently of how the network cuts the stream.  The
  two line parsers are instances of one locale of resumable parsers; the chunked parser is
  related to the list of chunks it encodes, first on one buffer, then on any division of it; the
  body limits and the turn of the read handler are stated over the whole response state.
\<close>

subsection \<open>Resuming a parser\<close>

text \<open>
  A parser whose steps never leave with \<open>NGX_AGAIN\<close> can be cut anywhere: the bytes of two buffers
  in turn give what they give in one.
\<close>

locale resumable =
  fixes step :: "'h \<Rightarrow> nat \<Rightarrow> u_char \<Rightarrow> 'h outcome"
  assumes no_again: "step h p ch = Leave rc h' \<Longrightarrow> rc \<noteq> NGX_AGAIN"
begin

lemma parse_loop_append:
  "parse_loop step h p (xs @ ys) =
     (case parse_loop step h p xs of
        (NGX_AGAIN, h', p') \<Rightarrow> parse_loop step h' p' ys
      | r \<Rightarrow> r)"
proof (induction xs arbitrary: h p)
  case (Cons x xs)
  show ?case
  proof (cases "step h p x")
    case (Leave rc h')
    then show ?thesis using no_again[OF Leave] by (cases rc) simp_all
  qed (simp add: Cons.IH)
qed simp

lemma again_position: "parse_loop step h p xs = (NGX_AGAIN, h', p') \<Longrightarrow> p' = p + length xs"
proof (induction xs arbitrary: h p)
  case (Cons x xs)
  then show ?case using no_again by (fastforce split: outcome.splits)
qed simp

end

lemma status_step_leaves: "status_step hp p ch = Leave rc hp' \<Longrightarrow> rc \<noteq> NGX_AGAIN"
  by (auto simp: status_step_def expect_char_def status_done_def Let_def split: status_state.splits if_splits)

lemma header_step_leaves: "header_step hp p ch = Leave rc hp' \<Longrightarrow> rc \<noteq> NGX_AGAIN"
  by (auto simp: header_step_def Let_def split: header_state.splits if_splits)

interpretation status_line: resumable status_step
  by unfold_locales (rule status_step_leaves)

interpretation header_line: resumable header_step
  by unfold_locales (rule header_step_leaves)

subsection \<open>The chunked parser in steps\<close>

lemma chunked_step:
  "hcp_state hcp \<noteq> ch_chunk \<Longrightarrow>
   chunked_loop hcp chain (ch # bs) =
     (case chunk_step hcp ch of
        Next hcp' \<Rightarrow> chunked_loop hcp' chain bs
      | Leave rc hcp' \<Rightarrow> (rc, hcp', chain, bs))"
  by (simp add: chunked_loop.simps[of hcp] cong: outcome.case_cong)

lemma chunked_again: "chunked_loop hcp chain [] = (NGX_AGAIN, hcp, chain, [])"
  by (simp add: chunked_loop.simps[of hcp])

text \<open>Inside a chunk, the loop takes what the buffer has of it.\<close>

lemma chunked_data:
  assumes "hcp_state hcp = ch_chunk" "unat (chunk_size hcp) = n" "0 < n"
  shows "length bs < n \<Longrightarrow> bs \<noteq> [] \<Longrightarrow>
      chunked_loop hcp chain bs = (NGX_AGAIN, hcp\<lparr>chunk_size := of_nat (n - length bs)\<rparr>, chain @ bs, [])"
    "length bs = n \<Longrightarrow>
      chunked_loop hcp chain bs = (NGX_AGAIN, hcp\<lparr>chunk_size := 0, hcp_state := ch_chunk_end_newline\<rparr>, chain @ bs, [])"
    "n < length bs \<Longrightarrow>
      chunked_loop hcp chain bs = chunked_loop (hcp\<lparr>hcp_state := ch_chunk_end_newline\<rparr>) (chain @ take n bs) (drop n bs)"
proof -
  have cs: "chunk_size hcp = of_nat n" using assms(2) by (simp flip: assms(2))
  have sub: "chunk_size hcp - of_nat (length bs) = of_nat (n - length bs)" if "length bs \<le> n"
    using that cs by (simp add: of_nat_diff)
  have nz: "(of_nat (n - length bs) :: uint64) \<noteq> 0" if "length bs < n"
  proof
    assume z: "(of_nat (n - length bs) :: uint64) = 0"
    have "n < 2 ^ 64" using unsigned_less[of "chunk_size hcp", where ?'a = nat] assms(2) by simp
    then have "unat (of_nat (n - length bs) :: uint64) = n - length bs" by (simp add: unat_of_nat)
    then show False using z that by simp
  qed
  show "chunked_loop hcp chain bs = (NGX_AGAIN, hcp\<lparr>chunk_size := of_nat (n - length bs)\<rparr>, chain @ bs, [])"
    if "length bs < n" "bs \<noteq> []"
    using that assms sub nz by (simp add: chunked_loop.simps[of hcp] ngx_js_http_chunk_buffer_def Let_def)
  show "chunked_loop hcp chain bs = (NGX_AGAIN, hcp\<lparr>chunk_size := 0, hcp_state := ch_chunk_end_newline\<rparr>, chain @ bs, [])"
    if "length bs = n"
    using that assms sub by (auto simp: chunked_loop.simps[of hcp] ngx_js_http_chunk_buffer_def Let_def)
  show "chunked_loop hcp chain bs = chunked_loop (hcp\<lparr>hcp_state := ch_chunk_end_newline\<rparr>) (chain @ take n bs) (drop n bs)"
    if nb: "n < length bs"
  proof -
    obtain c cs' where d: "drop n bs = c # cs'" using nb by (cases "drop n bs") auto
    have "bs \<noteq> []" using nb by auto
    then show ?thesis using nb assms d
      by (simp add: chunked_loop.simps[of hcp] chunked_step ngx_js_http_chunk_buffer_def Let_def)
  qed
qed

lemma chunk_step_leaves: "chunk_step hcp ch = Leave rc hcp' \<Longrightarrow> rc \<noteq> NGX_AGAIN"
  by (auto simp: chunk_step_def Let_def split: chunk_state.splits if_splits)

text \<open>The size of a chunk is positive while its data is read.\<close>

definition hcp_ok :: "ngx_js_http_chunk_parse \<Rightarrow> bool" where
  "hcp_ok hcp \<longleftrightarrow> (hcp_state hcp = ch_chunk \<longrightarrow> chunk_size hcp \<noteq> 0)"

lemma chunk_step_ok: "chunk_step hcp ch = Next hcp' \<Longrightarrow> hcp_state hcp \<noteq> ch_chunk \<Longrightarrow> hcp_ok hcp'"
  by (auto simp: chunk_step_def hcp_ok_def Let_def split: chunk_state.splits if_splits)

text \<open>Between chunks the size left over from the last one is dead.\<close>

definition size_dead :: "chunk_state \<Rightarrow> bool" where
  "size_dead s \<longleftrightarrow> s \<in> {ch_start, ch_chunk_end_newline, ch_chunk_end_linefeed}"

definition norm_hcp :: "ngx_js_http_chunk_parse \<Rightarrow> ngx_js_http_chunk_parse" where
  "norm_hcp hcp = (if size_dead (hcp_state hcp) then hcp\<lparr>chunk_size := 0\<rparr> else hcp)"

fun norm_chunked :: "ngx_rc \<times> ngx_js_http_chunk_parse \<times> u_char list \<times> u_char list \<Rightarrow>
    ngx_rc \<times> ngx_js_http_chunk_parse \<times> u_char list \<times> u_char list" where
  "norm_chunked (rc, hcp, chain, rest) = (rc, norm_hcp hcp, chain, rest)"

lemma chunk_step_dead:
  assumes "size_dead (hcp_state hcp)"
  shows "(case chunk_step (hcp\<lparr>chunk_size := s\<rparr>) ch of Next h \<Rightarrow> Next (norm_hcp h) | Leave rc h \<Rightarrow> Leave rc (norm_hcp h)) =
         (case chunk_step hcp ch of Next h \<Rightarrow> Next (norm_hcp h) | Leave rc h \<Rightarrow> Leave rc (norm_hcp h))"
  using assms by (auto simp: size_dead_def chunk_step_def norm_hcp_def Let_def)

lemma norm_hcp_size: "size_dead (hcp_state hcp) \<Longrightarrow> norm_hcp (hcp\<lparr>chunk_size := s\<rparr>) = norm_hcp hcp"
  by (simp add: norm_hcp_def)

lemma norm_hcp_eq:
  assumes "norm_hcp h1 = norm_hcp h2"
  obtains "h1 = h2" | s where "size_dead (hcp_state h2)" "h1 = h2\<lparr>chunk_size := s\<rparr>"
proof -
  have st: "hcp_state h1 = hcp_state h2" using assms by (auto simp: norm_hcp_def split: if_splits dest!: arg_cong[where f = hcp_state])
  show thesis
  proof (cases "size_dead (hcp_state h2)")
    case True
    then have "h1\<lparr>chunk_size := 0\<rparr> = h2\<lparr>chunk_size := 0\<rparr>" using assms st by (simp add: norm_hcp_def)
    then have "h1 = h2\<lparr>chunk_size := chunk_size h1\<rparr>" by (cases h1; cases h2) simp
    then show thesis using True that(2) by blast
  next
    case False
    then show thesis using assms st that(1) by (simp add: norm_hcp_def)
  qed
qed

lemma chunked_norm:
  "norm_hcp h1 = norm_hcp h2 \<Longrightarrow> norm_chunked (chunked_loop h1 chain bs) = norm_chunked (chunked_loop h2 chain bs)"
proof (induction bs arbitrary: h1 h2)
  case Nil
  then show ?case by (simp add: chunked_again)
next
  case (Cons ch bs)
  from Cons.prems show ?case
  proof (rule norm_hcp_eq)
    fix s assume d: "size_dead (hcp_state h2)" "h1 = h2\<lparr>chunk_size := s\<rparr>"
    then have nc: "hcp_state h2 \<noteq> ch_chunk" "hcp_state h1 \<noteq> ch_chunk" by (auto simp: size_dead_def)
    have e: "(case chunk_step h1 ch of Next h \<Rightarrow> Next (norm_hcp h) | Leave rc h \<Rightarrow> Leave rc (norm_hcp h)) =
         (case chunk_step h2 ch of Next h \<Rightarrow> Next (norm_hcp h) | Leave rc h \<Rightarrow> Leave rc (norm_hcp h))"
      using chunk_step_dead[OF d(1), of s ch] d(2) by simp
    show ?thesis
    proof (cases "chunk_step h1 ch")
      case (Next a)
      then obtain b where b: "chunk_step h2 ch = Next b" "norm_hcp a = norm_hcp b"
        using e by (cases "chunk_step h2 ch") simp_all
      show ?thesis unfolding chunked_step[OF nc(1)] chunked_step[OF nc(2)] Next b(1)
        using Cons.IH[OF b(2)] by simp
    next
      case (Leave rc a)
      then obtain b where b: "chunk_step h2 ch = Leave rc b" "norm_hcp a = norm_hcp b"
        using e by (cases "chunk_step h2 ch") simp_all
      then show ?thesis using Leave by (simp add: chunked_step[OF nc(1)] chunked_step[OF nc(2)])
    qed
  qed simp
qed

lemma hcp_upd: "hcp\<lparr>chunk_size := s, hcp_state := t\<rparr> = hcp\<lparr>hcp_state := t, chunk_size := s\<rparr>"
  by simp

lemma chunked_append:
  "hcp_ok hcp \<Longrightarrow>
   norm_chunked (chunked_loop hcp chain (xs @ ys)) =
   norm_chunked (case chunked_loop hcp chain xs of
      (NGX_AGAIN, hcp', chain', rest) \<Rightarrow> chunked_loop hcp' chain' ys
    | (rc, hcp', chain', rest) \<Rightarrow> (rc, hcp', chain', rest @ ys))"
proof (induction "length xs" arbitrary: hcp chain xs rule: less_induct)
  case less
  show ?case
  proof (cases "hcp_state hcp = ch_chunk")
    case False
    show ?thesis
    proof (cases xs)
      case (Cons x xs')
      show ?thesis
      proof (cases "chunk_step hcp x")
        case (Next hcp')
        then show ?thesis using less.hyps[of xs' hcp' chain] chunk_step_ok[OF Next False] Cons
          by (simp add: chunked_step[OF False])
      next
        case (Leave rc hcp')
        then show ?thesis using chunk_step_leaves[OF Leave] Cons
          by (cases rc) (simp_all add: chunked_step[OF False])
      qed
    qed (simp add: chunked_again)
  next
    case st: True
    define n where "n = unat (chunk_size hcp)"
    have "chunk_size hcp \<noteq> 0" using less.prems st by (simp add: hcp_ok_def)
    then have n: "0 < n" by (simp add: n_def unat_gt_0)
    note d = chunked_data[OF st n_def[symmetric] n]
    have n64: "n < 2 ^ 64" using unsigned_less[of "chunk_size hcp", where ?'a = nat] by (simp add: n_def)
    let ?e = "hcp\<lparr>hcp_state := ch_chunk_end_newline\<rparr>"
    have dead: "norm_hcp (?e\<lparr>chunk_size := s\<rparr>) = norm_hcp ?e" for s
      by (rule norm_hcp_size) (simp add: size_dead_def)
    consider (lt) "length xs < n" | (eq) "length xs = n" | (gt) "n < length xs" by linarith
    then show ?thesis
    proof cases
      case gt
      have "hcp_ok ?e" by (simp add: hcp_ok_def)
      with less.hyps[of "drop n xs" ?e "chain @ take n xs"] gt n d(3)[of "xs @ ys"] d(3)[of xs] show ?thesis by simp
    next
      case eq
      show ?thesis
      proof (cases "ys = []")
        case False
        have "chunked_loop hcp chain (xs @ ys) = chunked_loop ?e (chain @ xs) ys"
          using d(3)[of "xs @ ys" chain] eq False by simp
        moreover have "hcp\<lparr>chunk_size := 0, hcp_state := ch_chunk_end_newline\<rparr> = ?e\<lparr>chunk_size := 0\<rparr>" by simp
        ultimately show ?thesis using d(2)[OF eq, of chain] chunked_norm[OF dead[of 0], of "chain @ xs" ys] by (simp add: hcp_upd)
      qed (simp add: d(2)[OF eq] chunked_again)
    next
      case lt
      show ?thesis
      proof (cases "xs = [] \<or> ys = []")
        case True
        then show ?thesis using d(1)[OF lt] by (cases "xs = []") (simp_all add: chunked_again)
      next
        case False
        let ?h = "hcp\<lparr>chunk_size := of_nat (n - length xs)\<rparr>"
        have u: "unat (chunk_size ?h) = n - length xs" using n64 by (simp add: unat_of_nat)
        have h: "hcp_state ?h = ch_chunk" "0 < n - length xs" using st lt by simp_all
        note g = chunked_data[OF h(1) u h(2)]
        consider (l) "length ys < n - length xs" | (e) "length ys = n - length xs" | (g) "n - length xs < length ys" by linarith
        then have "norm_chunked (chunked_loop hcp chain (xs @ ys)) = norm_chunked (chunked_loop ?h (chain @ xs) ys)"
        proof cases
          case l
          then show ?thesis using d(1)[of "xs @ ys" chain] g(1)[OF l, of "chain @ xs"] False lt by simp
        next
          case e
          then show ?thesis using d(2)[of "xs @ ys" chain] g(2)[OF e, of "chain @ xs"] lt by simp
        next
          case g': g
          have "?h\<lparr>hcp_state := ch_chunk_end_newline\<rparr> = ?e\<lparr>chunk_size := of_nat (n - length xs)\<rparr>" by simp
          then show ?thesis using d(3)[of "xs @ ys" chain] g(3)[OF g', of "chain @ xs"] lt g'
              chunked_norm[OF dead[of "of_nat (n - length xs)"], of "chain @ xs @ take (n - length xs) ys" "drop (n - length xs) ys"] by (simp add: hcp_upd)
        qed
        then show ?thesis using d(1)[OF lt] False by simp
      qed
    qed
  qed
qed

lemma chunked_again_ok:
  "hcp_ok hcp \<Longrightarrow> chunked_loop hcp chain bs = (NGX_AGAIN, hcp', chain', rest) \<Longrightarrow> hcp_ok hcp'"
proof (induction "length bs" arbitrary: hcp chain bs rule: less_induct)
  case less
  show ?case
  proof (cases "bs = []")
    case True
    then show ?thesis using less.prems by (simp add: chunked_again)
  next
    case ne: False
    show ?thesis
    proof (cases "hcp_state hcp = ch_chunk")
      case False
      obtain b bs' where b: "bs = b # bs'" using ne by (cases bs) auto
      show ?thesis
      proof (cases "chunk_step hcp b")
        case (Next h)
        then show ?thesis using less.hyps[of bs' h chain] less.prems chunk_step_ok[OF Next False] b
          by (simp add: chunked_step[OF False])
      next
        case (Leave rc h)
        then show ?thesis using chunk_step_leaves[OF Leave] less.prems b by (simp add: chunked_step[OF False])
      qed
    next
      case st: True
      define n where "n = unat (chunk_size hcp)"
      have "chunk_size hcp \<noteq> 0" using less.prems st by (simp add: hcp_ok_def)
      then have n: "0 < n" by (simp add: n_def unat_gt_0)
      note d = chunked_data[OF st n_def[symmetric] n]
      have n64: "n < 2 ^ 64" using unsigned_less[of "chunk_size hcp", where ?'a = nat] by (simp add: n_def)
      consider (lt) "length bs < n" | (eq) "length bs = n" | (gt) "n < length bs" by linarith
      then show ?thesis
      proof cases
        case lt
        define m where "m = n - length bs"
        have m: "m < 2 ^ 64" "m \<noteq> 0" using n64 lt by (simp_all add: m_def)
        then have "unat (of_nat m :: uint64) = m" by (simp add: unat_of_nat)
        then have "(of_nat (n - length bs) :: uint64) \<noteq> 0" using m(2) by (metis unat_0 m_def)
        moreover have "hcp' = hcp\<lparr>chunk_size := of_nat (n - length bs)\<rparr>" using d(1)[OF lt ne, of chain] less.prems(2) by simp
        ultimately show ?thesis using st by (simp add: hcp_ok_def)
      next
        case eq
        then have "hcp' = hcp\<lparr>chunk_size := 0, hcp_state := ch_chunk_end_newline\<rparr>" using d(2)[OF eq, of chain] less.prems(2) by simp
        then show ?thesis by (simp add: hcp_ok_def)
      next
        case gt
        show ?thesis
        proof (rule less.hyps)
          show "length (drop n bs) < length bs" using n gt by simp
          show "hcp_ok (hcp\<lparr>hcp_state := ch_chunk_end_newline\<rparr>)" by (simp add: hcp_ok_def)
          show "chunked_loop (hcp\<lparr>hcp_state := ch_chunk_end_newline\<rparr>) (chain @ take n bs) (drop n bs) = (NGX_AGAIN, hcp', chain', rest)"
            using d(3)[OF gt, of chain] less.prems(2) by simp
        qed
      qed
    qed
  qed
qed

subsection \<open>A body that arrives in buffers\<close>

text \<open>The calls that \<open>ngx_js_http_process_body\<close> makes, one for each buffer, until the parser leaves.\<close>

fun feed_chunked :: "ngx_js_http_chunk_parse \<Rightarrow> u_char list \<Rightarrow> u_char list list \<Rightarrow> ngx_rc \<times> u_char list \<times> u_char list" where
  "feed_chunked hcp chain [] = (NGX_AGAIN, chain, [])"
| "feed_chunked hcp chain (b # bs) =
     (case ngx_js_http_parse_chunked hcp chain b of
        (NGX_AGAIN, hcp', chain', rest) \<Rightarrow> feed_chunked hcp' chain' bs
      | (rc, hcp', chain', rest) \<Rightarrow> (rc, chain', rest @ concat bs))"

fun forget :: "ngx_rc \<times> ngx_js_http_chunk_parse \<times> u_char list \<times> u_char list \<Rightarrow> ngx_rc \<times> u_char list \<times> u_char list" where
  "forget (rc, hcp, chain, rest) = (rc, chain, rest)"

lemma forget_norm: "norm_chunked r = norm_chunked r' \<Longrightarrow> forget r = forget r'"
  by (cases r; cases r') simp

lemma feed_chunked_loop: "hcp_ok hcp \<Longrightarrow> feed_chunked hcp chain bufs = forget (chunked_loop hcp chain (concat bufs))"
proof (induction bufs arbitrary: hcp chain)
  case Nil
  then show ?case by (simp add: chunked_again)
next
  case (Cons b bs)
  have f: "forget (chunked_loop hcp chain (b @ concat bs)) =
      forget (case chunked_loop hcp chain b of
        (NGX_AGAIN, hcp', chain', rest) \<Rightarrow> chunked_loop hcp' chain' (concat bs)
      | (rc, hcp', chain', rest) \<Rightarrow> (rc, hcp', chain', rest @ concat bs))"
    by (rule forget_norm[OF chunked_append[OF Cons.prems]])
  obtain rc h c r where p: "chunked_loop hcp chain b = (rc, h, c, r)" by (cases "chunked_loop hcp chain b")
  show ?case
  proof (cases "rc = NGX_AGAIN")
    case True
    then show ?thesis using f p Cons.IH[of h c] chunked_again_ok[OF Cons.prems, of chain b h c r]
      by (simp add: ngx_js_http_parse_chunked_def)
  next
    case False
    then show ?thesis using f p by (cases rc) (simp_all add: ngx_js_http_parse_chunked_def)
  qed
qed

subsection \<open>Chunk sizes\<close>

definition hex_digit :: "u_char \<Rightarrow> nat option" where
  "hex_digit c =
     (if 48 \<le> c \<and> c \<le> 57 then Some (unat c - 48)
      else if 97 \<le> c \<and> c \<le> 102 then Some (unat c - 87)
      else if 65 \<le> c \<and> c \<le> 70 then Some (unat c - 55) else None)"

definition is_hex :: "u_char list \<Rightarrow> bool" where
  "is_hex ds \<longleftrightarrow> list_all (\<lambda>c. hex_digit c \<noteq> None) ds"

definition hex_value :: "nat \<Rightarrow> u_char list \<Rightarrow> nat" where
  "hex_value = foldl (\<lambda>a c. a * 16 + the (hex_digit c))"

lemma all_bytes:
  assumes "list_all (\<lambda>k. P (of_nat k :: u_char)) [0..<256]"
  shows "P ch"
proof -
  have "unat ch < 256" using unsigned_less[of ch, where ?'a = nat] by simp
  moreover have "\<forall>k < 256. P (of_nat k)" using assms by (auto simp: list_all_iff)
  ultimately have "P (of_nat (unat ch))" by blast
  then show ?thesis by simp
qed

definition code_hex :: "u_char \<Rightarrow> u_char option" where
  "code_hex ch =
     (if ch - 48 \<le> 9 then Some (ch - 48)
      else if (ch OR 0x20) - 97 \<le> 5 then Some ((ch OR 0x20) - 97 + 0x0A) else None)"

lemma code_hex_digit: "map_option unat (code_hex ch) = hex_digit ch"
  by (rule all_bytes) code_simp

lemma hex_not_cr: "hex_digit ch = None \<or> ch \<noteq> CR"
  by (rule all_bytes) code_simp

lemma unat_ucast_64: "unat (ucast (x :: u_char) :: uint64) = unat x"
  using unsigned_less[of x, where ?'a = nat] by (simp add: unsigned_ucast_eq take_bit_eq_mod)

lemma hex_digit_le: "hex_digit c = Some d \<Longrightarrow> d < 16"
  by (auto simp: hex_digit_def word_le_nat_alt split: if_splits)

lemma ucast_letter: "y - 97 \<le> 5 \<Longrightarrow> (ucast ((y :: u_char) - 87) :: uint64) = 10 + ucast (y - 97)"
proof -
  assume l: "y - 97 \<le> 5"
  then have "unat (y - 97) \<le> 5" by (simp add: word_le_nat_alt)
  moreover have "y - 87 = (y - 97) + 10" by simp
  ultimately have "unat (y - 87) = unat (y - 97) + 10" by (simp only: unat_word_ariths) simp
  then show "(ucast (y - 87) :: uint64) = 10 + ucast (y - 97)"
    using \<open>unat (y - 97) \<le> 5\<close> by (simp add: word_unat_eq_iff unat_word_ariths unat_ucast_64)
qed

lemma chunk_start_digit:
  assumes "hcp_state hcp = ch_start" "hex_digit ch = Some d"
  shows "chunk_step hcp ch = Next (hcp\<lparr>hcp_state := ch_chunk_size, chunk_size := of_nat d\<rparr>)"
proof -
  obtain c where c: "code_hex ch = Some c" "unat c = d" using assms(2) code_hex_digit[of ch] by (cases "code_hex ch") auto
  have "(of_nat d :: uint64) = ucast c"
    using hex_digit_le[OF assms(2)] by (simp add: word_unat_eq_iff unat_ucast_64 c(2) unat_of_nat)
  then show ?thesis using c(1) assms(1) ucast_letter[of "ch OR 0x20"]
    by (auto simp: chunk_step_def code_hex_def Let_def split: if_splits)
qed

lemma chunk_size_digit:
  assumes "hcp_state hcp = ch_chunk_size" "hex_digit ch = Some d"
  shows "chunk_step hcp ch =
     (if unat (chunk_size hcp) < 2 ^ 60
      then Next (hcp\<lparr>chunk_size := of_nat (unat (chunk_size hcp) * 16 + d)\<rparr>) else Leave NGX_ERROR hcp)"
proof -
  obtain c where c: "code_hex ch = Some c" "unat c = d" using assms(2) code_hex_digit[of ch] by (cases "code_hex ch") auto
  have suff: "ngx_size_is_sufficient (chunk_size hcp) \<longleftrightarrow> unat (chunk_size hcp) < 2 ^ 60"
    by (simp add: ngx_size_is_sufficient_def word_less_nat_alt)
  have "(of_nat d :: uint64) = ucast c"
    using hex_digit_le[OF assms(2)] by (simp add: word_unat_eq_iff unat_ucast_64 c(2) unat_of_nat)
  then have "push_bit 4 (chunk_size hcp) + ucast c = of_nat (unat (chunk_size hcp) * 16 + d)"
    by (simp add: push_bit_eq_mult)
  then show ?thesis using c(1) assms(1) suff
    by (auto simp: chunk_step_def code_hex_def Let_def split: if_splits)
qed

lemma unat_of_nat_64: "n < 2 ^ 64 \<Longrightarrow> unat (of_nat n :: uint64) = n"
  by (simp add: unat_of_nat)

lemma hex_value_ge: "a \<le> hex_value a ds"
proof (induction ds arbitrary: a)
  case (Cons c ds)
  have "a \<le> a * 16 + the (hex_digit c)" by simp
  also have "\<dots> \<le> hex_value (a * 16 + the (hex_digit c)) ds" by (rule Cons.IH)
  finally show ?case by (simp add: hex_value_def)
qed (simp add: hex_value_def)

text \<open>The digits after the first: the size is exact, or the parser reports an error.\<close>

lemma chunk_size_digits:
  assumes "hcp_state hcp = ch_chunk_size" "unat (chunk_size hcp) = a" "is_hex ds"
  shows "if hex_value a ds < 2 ^ 64
         then chunked_loop hcp chain (ds @ rest) = chunked_loop (hcp\<lparr>chunk_size := of_nat (hex_value a ds)\<rparr>) chain rest
         else fst (chunked_loop hcp chain (ds @ rest)) = NGX_ERROR"
  using assms
proof (induction ds arbitrary: hcp a)
  case Nil
  have "a < 2 ^ 64" using Nil(2) unsigned_less[of "chunk_size hcp", where ?'a = nat] by simp
  moreover have "hcp\<lparr>chunk_size := of_nat a\<rparr> = hcp" using Nil(2) by (simp flip: Nil(2))
  ultimately show ?case by (simp add: hex_value_def)
next
  case (Cons c ds)
  obtain d where d: "hex_digit c = Some d" "is_hex ds" using Cons.prems(3) by (auto simp: is_hex_def)
  have d16: "d < 16" by (rule hex_digit_le[OF d(1)])
  have v: "hex_value a (c # ds) = hex_value (a * 16 + d) ds" using d(1) by (simp add: hex_value_def)
  note st = chunk_size_digit[OF Cons.prems(1) d(1)]
  have nc: "hcp_state hcp \<noteq> ch_chunk" using Cons.prems(1) by simp
  show ?case
  proof (cases "a < 2 ^ 60")
    case True
    let ?h = "hcp\<lparr>chunk_size := of_nat (a * 16 + d)\<rparr>"
    have "a * 16 + d < 2 ^ 64" using True d16 by simp
    then have u: "unat (chunk_size ?h) = a * 16 + d" using unat_of_nat_64[of "a * 16 + d"] by simp
    have l: "chunked_loop hcp chain ((c # ds) @ rest) = chunked_loop ?h chain (ds @ rest)"
      using st True Cons.prems(2) by (simp add: chunked_step[OF nc])
    have "hcp_state ?h = ch_chunk_size" using Cons.prems(1) by simp
    from Cons.IH[OF this u d(2)] show ?thesis unfolding l v by (simp split: if_splits)
  next
    case False
    have "a * 16 + d \<le> hex_value (a * 16 + d) ds" by (rule hex_value_ge)
    then have "\<not> hex_value a (c # ds) < 2 ^ 64" using False v by simp
    then show ?thesis using st False Cons.prems(2) by (simp add: chunked_step[OF nc])
  qed
qed

lemma chunk_size_line:
  assumes "hcp_state hcp = ch_start" "is_hex ds" "ds \<noteq> []"
  shows "if hex_value 0 ds < 2 ^ 64
         then chunked_loop hcp chain (ds @ rest) =
                chunked_loop (hcp\<lparr>hcp_state := ch_chunk_size, chunk_size := of_nat (hex_value 0 ds)\<rparr>) chain rest
         else fst (chunked_loop hcp chain (ds @ rest)) = NGX_ERROR"
proof -
  obtain c ds' where ds: "ds = c # ds'" using assms(3) by (cases ds) auto
  obtain d where d: "hex_digit c = Some d" "is_hex ds'" using assms(2) ds by (auto simp: is_hex_def)
  let ?h = "hcp\<lparr>hcp_state := ch_chunk_size, chunk_size := of_nat d\<rparr>"
  have u: "unat (chunk_size ?h) = d" using hex_digit_le[OF d(1)] by (simp add: unat_of_nat)
  have nc: "hcp_state hcp \<noteq> ch_chunk" using assms(1) by simp
  have l: "chunked_loop hcp chain (ds @ rest) = chunked_loop ?h chain (ds' @ rest)"
    using chunk_start_digit[OF assms(1) d(1)] ds by (simp add: chunked_step[OF nc])
  have v: "hex_value 0 ds = hex_value d ds'" using ds d(1) by (simp add: hex_value_def)
  have "hcp_state ?h = ch_chunk_size" by simp
  from chunk_size_digits[OF this u d(2), of chain rest] show ?thesis unfolding l v by (simp split: if_splits)
qed

text \<open>A chunk: its size in hexadecimal, its data and the line ends.\<close>

definition chunk_bytes :: "u_char list \<times> u_char list \<Rightarrow> u_char list" where
  "chunk_bytes = (\<lambda>(ds, d). ds @ [CR, LF] @ d @ [CR, LF])"

definition chunk_ok :: "u_char list \<times> u_char list \<Rightarrow> bool" where
  "chunk_ok = (\<lambda>(ds, d). is_hex ds \<and> ds \<noteq> [] \<and> d \<noteq> [] \<and> length d < 2 ^ 64 \<and> hex_value 0 ds = length d)"

lemma cr_lf: "CR \<noteq> LF" "\<not> CR - 48 \<le> 9" "\<not> (CR OR 0x20) - 97 \<le> 5"
  by (simp_all add: CR_def LF_def)

lemma cr_lf_loop:
  "hcp_state hcp = ch_chunk_size \<Longrightarrow> chunk_size hcp \<noteq> 0 \<Longrightarrow>
   chunked_loop hcp chain (CR # LF # rest) = chunked_loop (hcp\<lparr>hcp_state := ch_chunk\<rparr>) chain rest"
  "hcp_state hcp = ch_chunk_size \<Longrightarrow> chunk_size hcp = 0 \<Longrightarrow>
   chunked_loop hcp chain (CR # LF # rest) = chunked_loop (hcp\<lparr>hcp_last := True, hcp_state := ch_chunk_end_newline\<rparr>) chain rest"
  "hcp_state hcp = ch_chunk_end_newline \<Longrightarrow> \<not> hcp_last hcp \<Longrightarrow>
   chunked_loop hcp chain (CR # LF # rest) = chunked_loop (hcp\<lparr>hcp_state := ch_start\<rparr>) chain rest"
  "hcp_state hcp = ch_chunk_end_newline \<Longrightarrow> hcp_last hcp \<Longrightarrow>
   chunked_loop hcp chain (CR # LF # rest) = (NGX_OK, hcp\<lparr>hcp_state := ch_chunk_end_linefeed\<rparr>, chain, rest)"
  using cr_lf by (simp_all add: chunked_step chunk_step_def Let_def)

lemma chunk_parsed:
  assumes "chunk_ok (ds, d)" "hcp_state hcp = ch_start" "\<not> hcp_last hcp"
  shows "\<exists>hcp'. chunked_loop hcp chain (chunk_bytes (ds, d) @ rest) = chunked_loop hcp' (chain @ d) rest \<and>
           hcp_state hcp' = ch_start \<and> \<not> hcp_last hcp'"
proof -
  have ok: "is_hex ds" "ds \<noteq> []" "d \<noteq> []" "length d < 2 ^ 64" "hex_value 0 ds = length d"
    using assms(1) by (simp_all add: chunk_ok_def)
  let ?h = "hcp\<lparr>hcp_state := ch_chunk_size, chunk_size := of_nat (length d)\<rparr>"
  have u: "unat (of_nat (length d) :: uint64) = length d" using ok(4) by (simp add: unat_of_nat)
  then have nz: "(of_nat (length d) :: uint64) \<noteq> 0" using ok(3) by (metis unat_0 length_0_conv)
  let ?c = "?h\<lparr>hcp_state := ch_chunk\<rparr>"
  have "chunked_loop hcp chain (chunk_bytes (ds, d) @ rest) = chunked_loop ?h chain (CR # LF # d @ CR # LF # rest)"
    using chunk_size_line[OF assms(2) ok(1,2), of chain "CR # LF # d @ CR # LF # rest"] ok(4,5)
    by (simp add: chunk_bytes_def)
  also have "\<dots> = chunked_loop ?c chain (d @ CR # LF # rest)" using nz by (simp add: cr_lf_loop(1))
  also have "\<dots> = chunked_loop (?c\<lparr>hcp_state := ch_chunk_end_newline\<rparr>) (chain @ d) (CR # LF # rest)"
    using chunked_data(3)[of ?c "length d" "d @ CR # LF # rest" chain] u ok(3) by simp
  also have "\<dots> = chunked_loop (?c\<lparr>hcp_state := ch_start\<rparr>) (chain @ d) rest"
    using assms(3) by (simp add: cr_lf_loop(3))
  finally show ?thesis using assms(3) by auto
qed

lemma body_parsed:
  assumes "list_all chunk_ok cs" "is_hex zs" "zs \<noteq> []" "hex_value 0 zs = 0" "hcp_state hcp = ch_start" "\<not> hcp_last hcp"
  shows "forget (chunked_loop hcp chain (concat (map chunk_bytes cs) @ zs @ [CR, LF, CR, LF] @ rest)) =
    (NGX_OK, chain @ concat (map snd cs), rest)"
  using assms
proof (induction cs arbitrary: hcp chain)
  case Nil
  let ?h = "hcp\<lparr>hcp_state := ch_chunk_size, chunk_size := 0\<rparr>"
  have "chunked_loop hcp chain (zs @ CR # LF # CR # LF # rest) = chunked_loop ?h chain (CR # LF # CR # LF # rest)"
    using chunk_size_line[OF Nil(5,2,3), of chain "CR # LF # CR # LF # rest"] Nil(4) by simp
  then show ?case by (simp add: cr_lf_loop(2,4))
next
  case (Cons c cs)
  obtain ds d where c: "c = (ds, d)" by (cases c)
  have "chunk_ok (ds, d)" using Cons.prems(1) c by simp
  from chunk_parsed[OF this Cons.prems(5,6), of chain "concat (map chunk_bytes cs) @ zs @ [CR, LF, CR, LF] @ rest"]
  obtain h where "chunked_loop hcp chain (chunk_bytes (ds, d) @ concat (map chunk_bytes cs) @ zs @ [CR, LF, CR, LF] @ rest) =
      chunked_loop h (chain @ d) (concat (map chunk_bytes cs) @ zs @ [CR, LF, CR, LF] @ rest)"
    "hcp_state h = ch_start" "\<not> hcp_last h" by blast
  then show ?case using Cons.IH[of h "chain @ d"] Cons.prems c by simp
qed

subsection \<open>Status lines\<close>

definition hp0 :: ngx_js_http_parse where
  "hp0 = \<lparr>hp_status_state = sl_start, hp_header_state = hl_start, http_major = 0, http_minor = 0, http_version = 0,
          code = 0, status_text = None, status_text_end = None, count = 0, header_name_start = 0,
          header_name_end = 0, header_start = 0, header_end = 0\<rparr>"

lemma status_text_loop:
  assumes "hp_status_state hp = sl_status_text" "status_text hp = Some q" "CR \<notin> set t" "LF \<notin> set t"
  shows "parse_loop status_step hp p (t @ CR # LF # rest) =
    (NGX_OK, hp\<lparr>status_text_end := Some (p + length t), hp_status_state := sl_start,
       http_version := ngx_js_http_version (http_major hp) (http_minor hp)\<rparr>, p + length t + 2)"
  using assms
proof (induction t arbitrary: p)
  case Nil
  then show ?case using cr_lf(1) by (simp add: status_step_def status_done_def Let_def)
next
  case (Cons c t)
  then have "status_step hp p c = Next hp" by (auto simp: status_step_def Let_def)
  then show ?case using Cons by simp
qed

definition http_prefix :: "u_char list" where
  "http_prefix = [0x48, 0x54, 0x54, 0x50, 0x2F, 0x31, 0x2E]"

lemma digit_facts:
  assumes "is_digit c"
  shows "c \<noteq> 0x20" "c \<noteq> 0x2E"
  using assms by (auto simp: is_digit_def)

lemma nat_13: "(13 :: nat) = Suc (Suc (Suc (Suc (Suc (Suc (Suc (Suc (Suc (Suc (Suc (Suc (Suc 0))))))))))))"
  by simp

lemma status_line_loop:
  assumes "is_digit m" "is_digit a" "is_digit b" "is_digit c" "CR \<notin> set t" "LF \<notin> set t" "t \<noteq> []"
  shows "parse_loop status_step hp0 0 (http_prefix @ [m, 0x20, a, b, c, 0x20] @ t @ [CR, LF] @ rest) =
    (NGX_OK, hp0\<lparr>http_major := 1, http_minor := digit m, http_version := ngx_js_http_version 1 (digit m),
        code := (digit a * 10 + digit b) * 10 + digit c, count := 3,
        status_text := Some 13, status_text_end := Some (13 + length t)\<rparr>, 15 + length t)"
proof -
  obtain x t' where t: "t = x # t'" "x \<noteq> CR" "x \<noteq> LF" "CR \<notin> set t'" "LF \<notin> set t'" using assms(5-7) by (cases t) auto
  let ?h = "hp0\<lparr>hp_status_state := sl_status_text, http_major := 1, http_minor := digit m,
       code := (digit a * 10 + digit b) * 10 + digit c, count := 3\<rparr>"
  have "parse_loop status_step hp0 0 (http_prefix @ [m, 0x20, a, b, c, 0x20] @ s) = parse_loop status_step ?h 13 s" for s
    using assms(1-4) digit_facts[OF assms(2)] digit_facts[OF assms(3)] digit_facts[OF assms(4)]
    by (simp add: http_prefix_def hp0_def status_step_def expect_char_def digit_def Let_def numeral_3_eq_3 nat_13)
  moreover have "parse_loop status_step ?h 13 (t @ [CR, LF] @ rest) =
      parse_loop status_step (?h\<lparr>status_text := Some 13\<rparr>) 14 (t' @ CR # LF # rest)"
    using t by (simp add: status_step_def hp0_def Let_def)
  ultimately show ?thesis
    using status_text_loop[of "?h\<lparr>status_text := Some 13\<rparr>" 13 t' 14 rest] t by (simp add: hp0_def)
qed

subsection \<open>The properties\<close>

text \<open>
  C3. A chunked body decodes to the concatenation of its chunks, however the network cuts it: for
  chunks whose sizes are given in hexadecimal of either case with any number of leading zeros,
  closed by an empty chunk, and for every division of the bytes into buffers, the parser answers
  \<open>NGX_OK\<close> with exactly the data of the chunks, and leaves what follows unread.
\<close>

theorem chunked_body_decoded:
  assumes "list_all chunk_ok cs" "is_hex zs" "zs \<noteq> []" "hex_value 0 zs = 0"
    "concat bufs = concat (map chunk_bytes cs) @ zs @ [CR, LF, CR, LF] @ rest"
  shows "feed_chunked \<lparr>hcp_state = ch_start, chunk_size = 0, hcp_last = False\<rparr> [] bufs =
    (NGX_OK, concat (map snd cs), rest)"
proof -
  let ?h = "\<lparr>hcp_state = ch_start, chunk_size = 0, hcp_last = False\<rparr>"
  have "hcp_ok ?h" by (simp add: hcp_ok_def)
  from feed_chunked_loop[OF this, of "[]" bufs] body_parsed[OF assms(1-4), of ?h "[]" rest] assms(5)
  show ?thesis by simp
qed

theorem chunked_body_decoded_witness:
  "feed_chunked \<lparr>hcp_state = ch_start, chunk_size = 0, hcp_last = False\<rparr> []
     [[0x33, 13], [10, 97, 98], [99, 13, 10, 0x30], [13, 10, 13, 10]] = (NGX_OK, [97, 98, 99], [])"
proof -
  have "feed_chunked \<lparr>hcp_state = ch_start, chunk_size = 0, hcp_last = False\<rparr> []
     [[0x33, 13], [10, 97, 98], [99, 13, 10, 0x30], [13, 10, 13, 10]] =
    (NGX_OK, concat (map snd [([0x33 :: u_char], [97 :: u_char, 98, 99])]), [])"
    by (rule chunked_body_decoded[where zs = "[0x30]"])
       (simp_all add: chunk_ok_def is_hex_def hex_digit_def hex_value_def chunk_bytes_def CR_def LF_def)
  then show ?thesis by simp
qed

text \<open>
  Chunk sizes never wrap: for any string of hexadecimal digits the parser arrives at exactly
  its value when that fits 64 bits, and otherwise answers \<open>NGX_ERROR\<close>.
\<close>

theorem chunk_size_exact:
  assumes "is_hex ds" "ds \<noteq> []" "hcp_state hcp = ch_start"
  shows "if hex_value 0 ds < 2 ^ 64
         then \<exists>hcp'. ngx_js_http_parse_chunked hcp chain ds = (NGX_AGAIN, hcp', chain, []) \<and>
                unat (chunk_size hcp') = hex_value 0 ds
         else fst (ngx_js_http_parse_chunked hcp chain ds) = NGX_ERROR"
proof -
  note l = chunk_size_line[OF assms(3,1,2), of chain "[]"]
  show ?thesis
  proof (cases "hex_value 0 ds < 2 ^ 64")
    case True
    then show ?thesis using l unat_of_nat_64[OF True] by (simp add: ngx_js_http_parse_chunked_def chunked_again)
  next
    case False
    then have "fst (chunked_loop hcp chain ds) = NGX_ERROR" using l by simp
    then show ?thesis using False by (cases "chunked_loop hcp chain ds") (simp add: ngx_js_http_parse_chunked_def)
  qed
qed

theorem chunk_size_exact_witness:
  "fst (ngx_js_http_parse_chunked \<lparr>hcp_state = ch_start, chunk_size = 0, hcp_last = False\<rparr> []
     [0x46, 0x46, 0x46, 0x46, 0x46, 0x46, 0x46, 0x46, 0x46, 0x46, 0x46, 0x46, 0x46, 0x46, 0x46, 0x46, 0x46]) = NGX_ERROR"
proof -
  have h: "is_hex [0x46, 0x46, 0x46, 0x46, 0x46, 0x46, 0x46, 0x46, 0x46, 0x46, 0x46, 0x46, 0x46, 0x46, 0x46, 0x46, 0x46]" "[0x46, 0x46, 0x46, 0x46, 0x46, 0x46, 0x46, 0x46, 0x46, 0x46, 0x46, 0x46, 0x46, 0x46, 0x46, 0x46, 0x46] \<noteq> []"
    by (simp_all add: is_hex_def hex_digit_def)
  have "\<not> hex_value 0 [0x46, 0x46, 0x46, 0x46, 0x46, 0x46, 0x46, 0x46, 0x46, 0x46, 0x46, 0x46, 0x46, 0x46, 0x46, 0x46, 0x46] < 2 ^ 64"
    by (simp add: hex_value_def hex_digit_def)
  then show ?thesis
    using chunk_size_exact[OF h, of "\<lparr>hcp_state = ch_start, chunk_size = 0, hcp_last = False\<rparr>" "[]"] by simp
qed



text \<open>
  A well-formed status line: for a version 1.\<open>m\<close>, three digits and a reason without line ends,
  the parser answers the version, the status code and the exact position of the reason.
\<close>

theorem status_line_parsed:
  assumes "is_digit m" "is_digit a" "is_digit b" "is_digit c" "CR \<notin> set t" "LF \<notin> set t" "t \<noteq> []"
  shows "\<exists>hp. ngx_js_http_parse_status_line hp0 0 (http_prefix @ [m, 0x20, a, b, c, 0x20] @ t @ [CR, LF] @ rest) =
      (NGX_OK, hp, 15 + length t) \<and>
    http_version hp = 1000 + digit m \<and> code hp = (digit a * 10 + digit b) * 10 + digit c \<and>
    (\<exists>i j. status_text hp = Some i \<and> status_text_end hp = Some j \<and>
       slice (http_prefix @ [m, 0x20, a, b, c, 0x20] @ t @ [CR, LF] @ rest) i j = t)"
proof -
  have "slice (http_prefix @ [m, 0x20, a, b, c, 0x20] @ t @ [CR, LF] @ rest) 13 (13 + length t) = t"
    by (simp add: slice_def http_prefix_def)
  then show ?thesis using status_line_loop[OF assms, of rest]
    by (simp add: ngx_js_http_parse_status_line_def ngx_js_http_version_def hp0_def)
qed

theorem status_line_parsed_witness:
  "\<exists>hp. ngx_js_http_parse_status_line hp0 0 (http_prefix @ [49, 0x20, 50, 48, 48, 0x20] @ [79, 75] @ [CR, LF] @ []) =
      (NGX_OK, hp, 15 + length [79 :: u_char, 75]) \<and>
    http_version hp = 1000 + digit 49 \<and> code hp = (digit 50 * 10 + digit 48) * 10 + digit 48 \<and>
    (\<exists>i j. status_text hp = Some i \<and> status_text_end hp = Some j \<and>
       slice (http_prefix @ [49, 0x20, 50, 48, 48, 0x20] @ [79, 75] @ [CR, LF] @ []) i j = [79, 75])"
  by (rule status_line_parsed) (simp_all add: is_digit_def CR_def LF_def)

text \<open>
  A status line that ends in a bare line feed directly after the space, \<open>HTTP/1.1 200 \<close> with an
  empty reason, is accepted with the end of the reason set and its start still NULL, so that the
  length computed as their difference is the address itself.
\<close>

theorem status_line_empty_reason:
  "\<exists>hp. ngx_js_http_parse_status_line hp0 0 (http_prefix @ [49, 0x20, 50, 48, 48, 0x20, LF]) = (NGX_OK, hp, 14) \<and>
     status_text hp = None \<and> status_text_end hp = Some 13"
proof -
  have "ngx_js_http_parse_status_line hp0 0 (http_prefix @ [49, 0x20, 50, 48, 48, 0x20, LF]) =
    (NGX_OK, hp0\<lparr>http_major := 1, http_minor := 1, http_version := 1001, code := 200, count := 3, status_text_end := Some 13\<rparr>, 14)"
    by code_simp
  then show ?thesis by (simp add: hp0_def)
qed

lemma recycle_chain:
  assumes "recycle_buffer env rc http = (rc', http')" "rc' \<noteq> NGX_ERROR"
  shows "response_chain http' = response_chain http \<and> rc' = rc"
  using assms by (auto simp: recycle_buffer_def http_fail_def split: if_splits)


definition demo_env :: http_env where
  "demo_env = \<lparr>atoof = (\<lambda>v. Some (int (digit (hd v)))), strncasecmp = (\<lambda>v s. if map unat v = map of_char s then 0 else 1),
     append_headers = (\<lambda>hs n v. Some (hs @ [(n, v)])), pool_ok = True, list_ok = True\<rparr>"

definition demo_http :: "u_char list \<Rightarrow> ngx_js_http" where
  "demo_http bs =
     \<lparr>http_parse = hp0, http_chunk_parse = \<lparr>hcp_state = ch_start, chunk_size = 0, hcp_last = False\<rparr>,
      process = process_body, buffer = \<lparr>buf_mem = bs, buf_pos = 0, buf_size = 16\<rparr>, buffer_size = 16,
      has_chunk_buffer = False, header_list_ready = True, max_response_body_size = 8, header_only = False,
      chunked = False, keepalive = False, content_length_n = 3, http_done = False, response_code = 200,
      response_status_text = (None, None), response_headers = [], response_chain = [], ready = False, http_err = None\<rparr>"



lemma parse_chunked_ok:
  assumes "forget (chunked_loop hcp chain bs) = (NGX_OK, data, rest)"
  shows "\<exists>hcp'. ngx_js_http_parse_chunked hcp chain bs = (NGX_OK, hcp', data, rest)"
  using assms by (cases "chunked_loop hcp chain bs") (simp add: ngx_js_http_parse_chunked_def)



definition tchar :: "u_char \<Rightarrow> bool" where
  "tchar c \<longleftrightarrow> is_digit c \<or> (65 \<le> c \<and> c \<le> 90) \<or> (97 \<le> c \<and> c \<le> 122) \<or>
     c \<in> set [0x21, 0x23, 0x24, 0x25, 0x26, 0x27, 0x2A, 0x2B, 0x2D, 0x2E, 0x5E, 0x5F, 0x60, 0x7C, 0x7E]"

lemma is_token_tchar: "ngx_is_token c \<longleftrightarrow> tchar c"
  by (rule all_bytes) code_simp

text \<open>
  What the header checks let through: a name passes exactly when it consists of the token
  characters of RFC 7230; a value passes exactly when it has no control character other than the
  tab, hence no line end that could start another header; a component of the request line exactly
  when it has no control character and no space.
\<close>

theorem header_checks:
  "(ngx_js_check_header_name name = NGX_OK \<longleftrightarrow> list_all tchar name) \<and>
   (ngx_js_check_header_value v = NGX_OK \<longleftrightarrow> set v \<inter> ({..<0x20} - {0x09} \<union> {0x7F}) = {}) \<and>
   (ngx_js_check_request_line_component v = NGX_OK \<longleftrightarrow> set v \<inter> ({..0x20} \<union> {0x7F}) = {})"
proof (intro conjI)
  show "ngx_js_check_header_name name = NGX_OK \<longleftrightarrow> list_all tchar name"
    by (simp add: ngx_js_check_header_name_def is_token_tchar list_all_iff)
  have "(c \<le> 0x08 \<or> 0x0A \<le> c \<and> c \<le> 0x1F \<or> c = 0x7F) \<longleftrightarrow> c < 0x20 \<and> c \<noteq> 0x09 \<or> c = 0x7F" for c :: u_char
    by (rule all_bytes) code_simp
  then show "ngx_js_check_header_value v = NGX_OK \<longleftrightarrow> set v \<inter> ({..<0x20} - {0x09} \<union> {0x7F}) = {}"
    by (auto simp: ngx_js_check_header_value_def list_ex_iff)
  show "ngx_js_check_request_line_component v = NGX_OK \<longleftrightarrow> set v \<inter> ({..0x20} \<union> {0x7F}) = {}"
    by (auto simp: ngx_js_check_request_line_component_def list_ex_iff)
qed

lemma trim_front_split: "\<exists>a. v = a @ trim_front t v \<and> list_all t a"
proof (induction v)
  case (Cons c v)
  then obtain a where a: "v = a @ trim_front t v" "list_all t a" by blast
  show ?case
  proof (cases "t c")
    case True
    then show ?thesis using a by (intro exI[of _ "c # a"]) simp
  qed simp
qed simp

lemma trim_front_hd: "trim_front t v \<noteq> [] \<Longrightarrow> \<not> t (hd (trim_front t v))"
  by (induction v) auto

lemma trim_both:
  assumes "w = rev (trim_front t (rev (trim_front t v)))"
  shows "\<exists>a b. v = a @ w @ b \<and> list_all t a \<and> list_all t b \<and> (w \<noteq> [] \<longrightarrow> \<not> t (hd w) \<and> \<not> t (last w))"
proof -
  obtain a where a: "v = a @ trim_front t v" "list_all t a" using trim_front_split[of v t] by blast
  obtain b where b: "rev (trim_front t v) = b @ trim_front t (rev (trim_front t v))" "list_all t b"
    using trim_front_split[of "rev (trim_front t v)" t] by blast
  have f: "trim_front t v = w @ rev b" using b(1) assms by (metis rev_append rev_rev_ident)
  have h: "\<not> t (hd w)" if "w \<noteq> []"
    using trim_front_hd[of t v] f that by auto
  have l: "\<not> t (last w)" if "w \<noteq> []"
    using trim_front_hd[of t "rev (trim_front t v)"] assms that by (auto simp: last_rev)
  show ?thesis using a f b(2) h l
    by (intro exI[of _ a] exI[of _ "rev b"]) (auto simp: list_all_iff)
qed

text \<open>
  Trimming header values: both functions remove bytes only at the two ends, only those they are
  meant to remove, and all of those.
\<close>

theorem trim_exact:
  "(\<exists>a b. v = a @ ngx_js_http_trim v c0 @ b \<and> list_all (trim_char c0) a \<and> list_all (trim_char c0) b \<and>
      (ngx_js_http_trim v c0 \<noteq> [] \<longrightarrow>
         \<not> trim_char c0 (hd (ngx_js_http_trim v c0)) \<and> \<not> trim_char c0 (last (ngx_js_http_trim v c0)))) \<and>
   (\<exists>a b. v = a @ ngx_js_http_trim_ows v @ b \<and> set a \<union> set b \<subseteq> {0x20, 0x09} \<and>
      (ngx_js_http_trim_ows v \<noteq> [] \<longrightarrow>
         hd (ngx_js_http_trim_ows v) \<notin> {0x20, 0x09} \<and> last (ngx_js_http_trim_ows v) \<notin> {0x20, 0x09}))"
proof (intro conjI)
  show "\<exists>a b. v = a @ ngx_js_http_trim v c0 @ b \<and> list_all (trim_char c0) a \<and> list_all (trim_char c0) b \<and>
      (ngx_js_http_trim v c0 \<noteq> [] \<longrightarrow>
         \<not> trim_char c0 (hd (ngx_js_http_trim v c0)) \<and> \<not> trim_char c0 (last (ngx_js_http_trim v c0)))"
    by (rule trim_both) (simp only: ngx_js_http_trim_def)
  obtain a b where "v = a @ ngx_js_http_trim_ows v @ b" "list_all (\<lambda>c. c = 0x20 \<or> c = 0x09) a" "list_all (\<lambda>c. c = 0x20 \<or> c = 0x09) b"
    "ngx_js_http_trim_ows v \<noteq> [] \<longrightarrow> \<not> (hd (ngx_js_http_trim_ows v) = 0x20 \<or> hd (ngx_js_http_trim_ows v) = 0x09) \<and>
       \<not> (last (ngx_js_http_trim_ows v) = 0x20 \<or> last (ngx_js_http_trim_ows v) = 0x09)"
    using trim_both[of "ngx_js_http_trim_ows v" "\<lambda>c. c = 0x20 \<or> c = 0x09" v] unfolding ngx_js_http_trim_ows_def Let_def by blast
  then show "\<exists>a b. v = a @ ngx_js_http_trim_ows v @ b \<and> set a \<union> set b \<subseteq> {0x20, 0x09} \<and>
      (ngx_js_http_trim_ows v \<noteq> [] \<longrightarrow>
         hd (ngx_js_http_trim_ows v) \<notin> {0x20, 0x09} \<and> last (ngx_js_http_trim_ows v) \<notin> {0x20, 0x09})"
    by (intro exI[of _ a] exI[of _ b]) (auto simp: list_all_iff)
qed

theorem trim_exact_witness:
  "\<exists>a b. [0x20, 0x61, 0x0D] = a @ ngx_js_http_trim [0x20, 0x61, 0x0D] False @ b \<and> list_all (trim_char False) a \<and> list_all (trim_char False) b"
  using trim_exact[of "[0x20, 0x61, 0x0D]" False] by blast

end
