(* ===== verification/Ngx_Js_Dict.thy ===== *)
theory Ngx_Js_Dict
  imports Njs_Prelude
begin

section \<open>Shared dictionaries (src/nginx/ngx_js_shared_dict.c)\<close>

text \<open>
  A shared dictionary lives in a shared memory zone: its nodes are in a tree ordered by key and,
  when the zone has a timeout, in a second tree ordered by expiry.  When memory is short and the
  zone evicts, the nodes that expire first are thrown out.

  The trees, the slab allocator and the checksum are nginx's own, and so are parameters (the
  record \<open>dict_env\<close>).  A tree is seen by the addresses of its nodes in order, what
  \<open>ngx_rbtree_min\<close> and \<open>ngx_rbtree_next\<close> enumerate; where an insertion puts a node, what a
  deletion leaves and what the search finds is up to the parameters, and so is the arithmetic of
  doubles.  The contents of the nodes are a memory from addresses to records.

  The lock is a state, taken and released as in the code; an operation is a single step between
  them.  The current time is an argument.
\<close>

type_synonym addr = nat
type_synonym ngx_str = "u_char list"

datatype 'd ngx_js_dict_value = dict_str ngx_str | dict_number 'd

datatype ngx_js_dict_type = NGX_JS_DICT_TYPE_STRING | NGX_JS_DICT_TYPE_NUMBER

record 'd ngx_js_dict_node =
  sn_key :: uint32
  sn_str :: ngx_str
  expire_key :: uint64
  node_value :: "'d ngx_js_dict_value"
  value_data :: addr

datatype lock_state = Unlocked | Rlocked | Wlocked

record ('d, 'p) ngx_js_dict =
  rbtree :: "addr list"
  rbtree_expire :: "addr list"
  node_mem :: "addr \<Rightarrow> 'd ngx_js_dict_node option"
  rwlock :: lock_state
  dirty :: bool
  writing :: bool
  shpool :: 'p
  timeout :: uint64
  evict :: bool
  dict_type :: ngx_js_dict_type
  state_file :: bool
  timer_set :: bool

record ('d, 'p) dict_env =
  crc32 :: "ngx_str \<Rightarrow> uint32"
  str_insert :: "(addr \<Rightarrow> uint32 \<times> ngx_str) \<Rightarrow> addr list \<Rightarrow> addr \<Rightarrow> addr list"
  str_lookup :: "(addr \<Rightarrow> uint32 \<times> ngx_str) \<Rightarrow> addr list \<Rightarrow> ngx_str \<Rightarrow> uint32 \<Rightarrow> addr option"
  timer_insert :: "(addr \<Rightarrow> uint64) \<Rightarrow> addr list \<Rightarrow> addr \<Rightarrow> addr list"
  rb_delete :: "addr list \<Rightarrow> addr \<Rightarrow> addr list"
  slab_alloc :: "'p \<Rightarrow> nat \<Rightarrow> (addr \<times> 'p) option"
  slab_free :: "'p \<Rightarrow> addr \<Rightarrow> 'p"
  node_size :: nat
  dadd :: "'d \<Rightarrow> 'd \<Rightarrow> 'd"

definition str_key :: "('d, 'p) ngx_js_dict \<Rightarrow> addr \<Rightarrow> uint32 \<times> ngx_str" where
  "str_key d a = (case node_mem d a of Some n \<Rightarrow> (sn_key n, sn_str n) | None \<Rightarrow> (0, []))"

definition timer_key :: "('d, 'p) ngx_js_dict \<Rightarrow> addr \<Rightarrow> uint64" where
  "timer_key d a = (case node_mem d a of Some n \<Rightarrow> expire_key n | None \<Rightarrow> 0)"

subsection \<open>Nodes and memory\<close>

definition ngx_js_dict_lookup :: "('d, 'p) dict_env \<Rightarrow> ('d, 'p) ngx_js_dict \<Rightarrow> ngx_str \<Rightarrow> addr option" where
  "ngx_js_dict_lookup env d key = str_lookup env (str_key d) (rbtree d) key (crc32 env key)"

definition ngx_js_dict_node_free :: "('d, 'p) dict_env \<Rightarrow> ('d, 'p) ngx_js_dict \<Rightarrow> addr \<Rightarrow> ('d, 'p) ngx_js_dict" where
  "ngx_js_dict_node_free env d a =
     (case node_mem d a of
        None \<Rightarrow> d
      | Some n \<Rightarrow>
          (let pool = (if dict_type d = NGX_JS_DICT_TYPE_STRING then slab_free env (shpool d) (value_data n) else shpool d)
           in d\<lparr>node_mem := (node_mem d)(a := None), shpool := slab_free env pool a\<rparr>))"

text \<open>The body of the loops that take a node out of both trees and free it.\<close>

definition drop_node :: "('d, 'p) dict_env \<Rightarrow> ('d, 'p) ngx_js_dict \<Rightarrow> addr \<Rightarrow> ('d, 'p) ngx_js_dict" where
  "drop_node env d a =
     ngx_js_dict_node_free env
       (d\<lparr>rbtree_expire := rb_delete env (rbtree_expire d) a, rbtree := rb_delete env (rbtree d) a\<rparr>) a"

fun expire_loop :: "('d, 'p) dict_env \<Rightarrow> uint64 \<Rightarrow> ('d, 'p) ngx_js_dict \<Rightarrow> addr list \<Rightarrow> ('d, 'p) ngx_js_dict" where
  "expire_loop env now d [] = d"
| "expire_loop env now d (a # as) = (if now < timer_key d a then d else expire_loop env now (drop_node env d a) as)"

definition ngx_js_dict_expire :: "('d, 'p) dict_env \<Rightarrow> ('d, 'p) ngx_js_dict \<Rightarrow> uint64 \<Rightarrow> ('d, 'p) ngx_js_dict" where
  "ngx_js_dict_expire env d now = expire_loop env now d (rbtree_expire d)"

fun evict_loop :: "('d, 'p) dict_env \<Rightarrow> ('d, 'p) ngx_js_dict \<Rightarrow> nat \<Rightarrow> nat \<Rightarrow> addr list \<Rightarrow> nat \<times> ('d, 'p) ngx_js_dict" where
  "evict_loop env d c evicted [] = (evicted, d)"
| "evict_loop env d c evicted (a # as) =
     (if c = 0 then (evicted, d) else evict_loop env (drop_node env d a) (c - 1) (evicted + 1) as)"

definition ngx_js_dict_evict :: "('d, 'p) dict_env \<Rightarrow> ('d, 'p) ngx_js_dict \<Rightarrow> nat \<Rightarrow> nat \<times> ('d, 'p) ngx_js_dict" where
  "ngx_js_dict_evict env d c = evict_loop env d c 0 (rbtree_expire d)"

definition slab_alloc_locked ::
    "('d, 'p) dict_env \<Rightarrow> ('d, 'p) ngx_js_dict \<Rightarrow> nat \<Rightarrow> addr option \<times> ('d, 'p) ngx_js_dict" where
  "slab_alloc_locked env d n =
     (case slab_alloc env (shpool d) n of
        None \<Rightarrow> (None, d)
      | Some (p, pool) \<Rightarrow> (Some p, d\<lparr>shpool := pool\<rparr>))"

text \<open>
  The loop \<open>while (p == NULL)\<close>; every turn evicts a node, so the fuel, the number of nodes in the
  tree and one turn more, is not exhausted.
\<close>

fun alloc_loop ::
    "('d, 'p) dict_env \<Rightarrow> nat \<Rightarrow> nat \<Rightarrow> addr option \<times> ('d, 'p) ngx_js_dict \<Rightarrow> addr option \<times> ('d, 'p) ngx_js_dict" where
  "alloc_loop env n fuel (Some p, d) = (Some p, d)"
| "alloc_loop env n 0 (None, d) = (None, d)"
| "alloc_loop env n (Suc fuel) (None, d) =
     (case ngx_js_dict_evict env d 16 of
        (evicted, d') \<Rightarrow> if evicted = 0 then (None, d') else alloc_loop env n fuel (slab_alloc_locked env d' n))"

definition ngx_js_dict_alloc ::
    "('d, 'p) dict_env \<Rightarrow> ('d, 'p) ngx_js_dict \<Rightarrow> nat \<Rightarrow> addr option \<times> ('d, 'p) ngx_js_dict" where
  "ngx_js_dict_alloc env d n =
     (if \<not> evict d then slab_alloc_locked env d n
      else
        (case alloc_loop env n (Suc (length (rbtree_expire d))) (slab_alloc_locked env d n) of
           (Some p, d') \<Rightarrow> (Some p, d')
         | (None, d') \<Rightarrow> slab_alloc_locked env d' n))"

subsection \<open>Adding and changing nodes\<close>

definition link_node :: "('d, 'p) dict_env \<Rightarrow> ('d, 'p) ngx_js_dict \<Rightarrow> addr \<Rightarrow> 'd ngx_js_dict_node \<Rightarrow> ('d, 'p) ngx_js_dict" where
  "link_node env d a node =
     (let d = d\<lparr>node_mem := (node_mem d)(a := Some node)\<rparr>;
          d = d\<lparr>rbtree := str_insert env (str_key d) (rbtree d) a\<rparr>
      in if timeout d \<noteq> 0 then d\<lparr>rbtree_expire := timer_insert env (timer_key d) (rbtree_expire d) a\<rparr> else d)"

text \<open>The field \<open>expire.key\<close> of a zone without timeout is never set, nor read: it is 0 here.\<close>

definition ngx_js_dict_add_value ::
    "('d, 'p) dict_env \<Rightarrow> ('d, 'p) ngx_js_dict \<Rightarrow> ngx_str \<Rightarrow> 'd ngx_js_dict_value \<Rightarrow> uint64 \<Rightarrow> uint64 \<Rightarrow>
     ngx_rc \<times> ('d, 'p) ngx_js_dict" where
  "ngx_js_dict_add_value env d key v tmo now =
     (let d = (if timeout d \<noteq> 0 then ngx_js_dict_expire env d now else d)
      in case ngx_js_dict_alloc env d (node_size env + length key) of
           (None, d) \<Rightarrow> (NGX_ERROR, d)
         | (Some a, d) \<Rightarrow>
             (let node = (\<lambda>p. \<lparr>sn_key = crc32 env key, sn_str = key,
                            expire_key = (if timeout d \<noteq> 0 then now + tmo else 0), node_value = v, value_data = p\<rparr>)
              in case v of
                   dict_str s \<Rightarrow>
                     (case ngx_js_dict_alloc env d (length s) of
                        (None, d) \<Rightarrow> (NGX_ERROR, d\<lparr>shpool := slab_free env (shpool d) a\<rparr>)
                      | (Some p, d) \<Rightarrow> (NGX_OK, link_node env d a (node p)))
                 | dict_number x \<Rightarrow> (NGX_OK, link_node env d a (node 0))))"

text \<open>Setting the expiry of a node that is in the expiry tree, or was just taken out of it.\<close>

definition unlink_expire :: "('d, 'p) dict_env \<Rightarrow> ('d, 'p) ngx_js_dict \<Rightarrow> addr \<Rightarrow> ('d, 'p) ngx_js_dict" where
  "unlink_expire env d a =
     (if timeout d \<noteq> 0 then d\<lparr>rbtree_expire := rb_delete env (rbtree_expire d) a\<rparr> else d)"

definition link_expire :: "('d, 'p) dict_env \<Rightarrow> ('d, 'p) ngx_js_dict \<Rightarrow> addr \<Rightarrow> ('d, 'p) ngx_js_dict" where
  "link_expire env d a =
     (if timeout d \<noteq> 0 then d\<lparr>rbtree_expire := timer_insert env (timer_key d) (rbtree_expire d) a\<rparr> else d)"

definition write_node ::
    "('d, 'p) ngx_js_dict \<Rightarrow> addr \<Rightarrow> ('d ngx_js_dict_node \<Rightarrow> 'd ngx_js_dict_node) \<Rightarrow> ('d, 'p) ngx_js_dict" where
  "write_node d a f = d\<lparr>node_mem := (node_mem d)(a := map_option f (node_mem d a))\<rparr>"

definition set_expire :: "('d, 'p) ngx_js_dict \<Rightarrow> addr \<Rightarrow> uint64 \<Rightarrow> ('d, 'p) ngx_js_dict" where
  "set_expire d a e = (if timeout d \<noteq> 0 then write_node d a (\<lambda>n. n\<lparr>expire_key := e\<rparr>) else d)"

definition ngx_js_dict_update ::
    "('d, 'p) dict_env \<Rightarrow> ('d, 'p) ngx_js_dict \<Rightarrow> addr \<Rightarrow> 'd ngx_js_dict_value \<Rightarrow> uint64 \<Rightarrow> uint64 \<Rightarrow>
     ngx_rc \<times> ('d, 'p) ngx_js_dict" where
  "ngx_js_dict_update env d a v tmo now =
     (let d = unlink_expire env d a
      in case v of
           dict_str s \<Rightarrow>
             (case ngx_js_dict_alloc env d (length s) of
                (None, d) \<Rightarrow> (NGX_ERROR, link_expire env d a)
              | (Some p, d) \<Rightarrow>
                  (let old = (case node_mem d a of Some n \<Rightarrow> value_data n | None \<Rightarrow> 0);
                       d = d\<lparr>shpool := slab_free env (shpool d) old\<rparr>;
                       d = write_node d a (\<lambda>n. n\<lparr>node_value := v, value_data := p\<rparr>)
                   in (NGX_OK, link_expire env (set_expire d a (now + tmo)) a)))
         | dict_number x \<Rightarrow>
             (NGX_OK, link_expire env (set_expire (write_node d a (\<lambda>n. n\<lparr>node_value := v\<rparr>)) a (now + tmo)) a))"

subsection \<open>The operations\<close>

definition wlock :: "('d, 'p) ngx_js_dict \<Rightarrow> ('d, 'p) ngx_js_dict" where "wlock d = d\<lparr>rwlock := Wlocked\<rparr>"
definition rlock :: "('d, 'p) ngx_js_dict \<Rightarrow> ('d, 'p) ngx_js_dict" where "rlock d = d\<lparr>rwlock := Rlocked\<rparr>"
definition unlock :: "('d, 'p) ngx_js_dict \<Rightarrow> ('d, 'p) ngx_js_dict" where "unlock d = d\<lparr>rwlock := Unlocked\<rparr>"

text \<open>The end of every operation that changed the dictionary.\<close>

definition finish_write :: "('d, 'p) ngx_js_dict \<Rightarrow> ('d, 'p) ngx_js_dict" where
  "finish_write d =
     (let d = unlock (d\<lparr>dirty := True\<rparr>)
      in if state_file d \<and> \<not> timer_set d then d\<lparr>timer_set := True\<rparr> else d)"

definition expired :: "('d, 'p) ngx_js_dict \<Rightarrow> uint64 \<Rightarrow> addr \<Rightarrow> bool" where
  "expired d now a \<longleftrightarrow> timeout d \<noteq> 0 \<and> timer_key d a \<le> now"

datatype set_flag = SET | MUST_EXIST | MUST_NOT_EXIST

definition ngx_js_dict_set ::
    "('d, 'p) dict_env \<Rightarrow> ('d, 'p) ngx_js_dict \<Rightarrow> ngx_str \<Rightarrow> 'd ngx_js_dict_value \<Rightarrow> uint64 \<Rightarrow> set_flag \<Rightarrow> uint64 \<Rightarrow>
     ngx_rc \<times> ('d, 'p) ngx_js_dict" where
  "ngx_js_dict_set env d key v tmo flags now =
     (let d = wlock d;
          memory_error = (\<lambda>d. (NGX_ERROR, unlock d))
      in case ngx_js_dict_lookup env d key of
           None \<Rightarrow>
             (if flags = MUST_EXIST then (NGX_DECLINED, unlock d)
              else
                (case ngx_js_dict_add_value env d key v tmo now of
                   (rc, d) \<Rightarrow> if rc \<noteq> NGX_OK then memory_error d else (NGX_OK, finish_write d)))
         | Some a \<Rightarrow>
             (if flags = MUST_NOT_EXIST \<and> \<not> expired d now a then (NGX_DECLINED, unlock d)
              else
                (case ngx_js_dict_update env d a v tmo now of
                   (rc, d) \<Rightarrow> if rc \<noteq> NGX_OK then memory_error d else (NGX_OK, finish_write d))))"

definition node_value_at :: "('d, 'p) ngx_js_dict \<Rightarrow> addr \<Rightarrow> 'd ngx_js_dict_value option" where
  "node_value_at d a = map_option node_value (node_mem d a)"

text \<open>
  The code of a value of the VM is a parameter \<open>copy_ok\<close>: whether the VM could create the string.
  With \<open>want\<close> the value is returned (\<open>retval != NULL\<close>).
\<close>

definition ngx_js_dict_delete ::
    "('d, 'p) dict_env \<Rightarrow> bool \<Rightarrow> ('d, 'p) ngx_js_dict \<Rightarrow> ngx_str \<Rightarrow> bool \<Rightarrow> uint64 \<Rightarrow>
     ngx_rc \<times> 'd ngx_js_dict_value option \<times> ('d, 'p) ngx_js_dict" where
  "ngx_js_dict_delete env copy_ok d key want now =
     (let d = wlock d
      in case ngx_js_dict_lookup env d key of
           None \<Rightarrow> (NGX_DECLINED, None, unlock d)
         | Some a \<Rightarrow>
             (let d1 = unlink_expire env d a;
                  d1 = d1\<lparr>rbtree := rb_delete env (rbtree d1) a\<rparr>;
                  (rc, v) =
                    (if \<not> want then (NGX_OK, None)
                     else if expired d1 now a then (NGX_DECLINED, None)
                     else if dict_type d1 = NGX_JS_DICT_TYPE_STRING \<and> \<not> copy_ok then (NGX_ERROR, None)
                     else (NGX_OK, node_value_at d1 a))
              in (rc, v, finish_write (ngx_js_dict_node_free env d1 a))))"

definition number_of :: "'d \<Rightarrow> 'd ngx_js_dict_value \<Rightarrow> 'd" where
  "number_of z v = (case v of dict_number x \<Rightarrow> x | dict_str _ \<Rightarrow> z)"

definition ngx_js_dict_incr ::
    "('d, 'p) dict_env \<Rightarrow> ('d, 'p) ngx_js_dict \<Rightarrow> ngx_str \<Rightarrow> 'd \<Rightarrow> 'd \<Rightarrow> uint64 \<Rightarrow> uint64 \<Rightarrow>
     ngx_rc \<times> 'd \<times> ('d, 'p) ngx_js_dict" where
  "ngx_js_dict_incr env d key delta init tmo now =
     (let d = wlock d
      in case ngx_js_dict_lookup env d key of
           None \<Rightarrow>
             (let x = dadd env init delta
              in case ngx_js_dict_add_value env d key (dict_number x) (if tmo \<noteq> 0 then tmo else timeout d) now of
                   (rc, d) \<Rightarrow> if rc \<noteq> NGX_OK then (NGX_ERROR, x, unlock d) else (NGX_OK, x, finish_write d))
         | Some a \<Rightarrow>
             (let x = dadd env (case node_value_at d a of Some v \<Rightarrow> number_of delta v | None \<Rightarrow> delta) delta;
                  d = write_node d a (\<lambda>n. n\<lparr>node_value := dict_number x\<rparr>);
                  d = (if timeout d \<noteq> 0 \<and> tmo \<noteq> 0
                       then link_expire env (set_expire (unlink_expire env d a) a (now + tmo)) a else d)
              in (NGX_OK, x, finish_write d)))"

definition ngx_js_dict_get ::
    "('d, 'p) dict_env \<Rightarrow> bool \<Rightarrow> ('d, 'p) ngx_js_dict \<Rightarrow> ngx_str \<Rightarrow> uint64 \<Rightarrow>
     ngx_rc \<times> 'd ngx_js_dict_value option \<times> ('d, 'p) ngx_js_dict" where
  "ngx_js_dict_get env copy_ok d key now =
     (let d = rlock d;
          not_found = (NGX_OK, None, unlock d)
      in case ngx_js_dict_lookup env d key of
           None \<Rightarrow> not_found
         | Some a \<Rightarrow>
             (if expired d now a then not_found
              else if dict_type d = NGX_JS_DICT_TYPE_STRING \<and> \<not> copy_ok then (NGX_ERROR, None, unlock d)
              else (NGX_OK, node_value_at d a, unlock d)))"

text \<open>The loop of \<open>clear\<close> in a zone without timeout.\<close>

fun clear_loop :: "('d, 'p) dict_env \<Rightarrow> ('d, 'p) ngx_js_dict \<Rightarrow> addr list \<Rightarrow> ('d, 'p) ngx_js_dict" where
  "clear_loop env d [] = d"
| "clear_loop env d (a # as) =
     clear_loop env (ngx_js_dict_node_free env (d\<lparr>rbtree := rb_delete env (rbtree d) a\<rparr>) a) as"

definition shared_dict_clear :: "('d, 'p) dict_env \<Rightarrow> ('d, 'p) ngx_js_dict \<Rightarrow> ('d, 'p) ngx_js_dict" where
  "shared_dict_clear env d =
     (let d = wlock d
      in finish_write
           (if timeout d \<noteq> 0 then snd (ngx_js_dict_evict env d 0x7FFFFFFF) else clear_loop env d (rbtree d)))"

end
