(* ===== verification/Ngx_Js_Dict_Api.thy ===== *)
theory Ngx_Js_Dict_Api
  imports Ngx_Js_Dict
begin

section \<open>The methods of a shared dictionary in both engines (src/nginx/ngx_js_shared_dict.c)\<close>

text \<open>
  nginx runs scripts in njs or in QuickJS, and every method of a shared dictionary is written
  twice.  The conversions of the two engines are a parameter, the record \<open>js_conv\<close>: strings and
  numbers of values (\<open>ngx_js_ngx_string\<close>, \<open>JS_ToCStringLen\<close>, \<open>JS_ToFloat64\<close>), integers
  (\<open>ngx_js_integer\<close>, \<open>JS_ToUint32\<close>), the cast of a double to milliseconds, the doubles of integers, and whether
  the engine can allocate the \<open>i\<close>-th element of a result.

  A method takes the arguments after \<open>this\<close>; \<open>this\<close> itself is only asked whether it is a shared
  dictionary.  A missing argument is undefined.
\<close>

datatype 'd js_value =
    js_undefined | js_bool bool | js_number 'd | js_string ngx_str | js_this | js_object
  | js_array "'d js_value list"

datatype js_error = TypeError string | RangeError string | SharedMemoryError | Error string | Pending

record ('d, 'p) js_conv =
  to_str :: "'d js_value \<Rightarrow> ngx_str option"
  to_float64 :: "'d js_value \<Rightarrow> 'd option"
  to_integer :: "'d js_value \<Rightarrow> int option"
  to_uint32 :: "'d js_value \<Rightarrow> uint32 option"
  to_msec :: "'d \<Rightarrow> uint64"
  of_u64 :: "uint64 \<Rightarrow> 'd"
  of_int32 :: "32 word \<Rightarrow> 'd"
  zero_d :: 'd
  string_ok :: bool
  elem_ok :: "nat \<Rightarrow> bool"
  free_bytes :: "'p \<Rightarrow> uint64"

type_synonym 'd js_result = "js_error + 'd js_value"

definition arg :: "'d js_value list \<Rightarrow> nat \<Rightarrow> 'd js_value" where
  "arg args i = (if i < length args then args ! i else js_undefined)"

definition not_a_dict :: string where "not_a_dict = ''\"this\" is not a shared dict''"
definition need_timeout :: string where "need_timeout = ''shared dict must be declared with timeout''"
definition small_timeout :: string where "small_timeout = ''timeout must be greater than or equal to 1''"

fun is_number :: "'d js_value \<Rightarrow> bool" where
  "is_number (js_number _) = True"
| "is_number _ = False"

fun is_string :: "'d js_value \<Rightarrow> bool" where
  "is_string (js_string _) = True"
| "is_string _ = False"

fun number_value_of :: "'d \<Rightarrow> 'd js_value \<Rightarrow> 'd" where
  "number_value_of z (js_number x) = x"
| "number_value_of z _ = z"

fun js_of_value :: "'d ngx_js_dict_value option \<Rightarrow> 'd js_value" where
  "js_of_value (Some (dict_str s)) = js_string s"
| "js_of_value (Some (dict_number x)) = js_number x"
| "js_of_value None = js_undefined"

text \<open>
  The loops over the tree of \<open>keys\<close>, \<open>items\<close> and \<open>size\<close>.  The limit is signed in njs, where a
  negative one means no limit, and unsigned in QuickJS.
\<close>

fun list_loop ::
    "('d, 'p) js_conv \<Rightarrow> (addr \<Rightarrow> 'd js_value) \<Rightarrow> ('d, 'p) ngx_js_dict \<Rightarrow> uint64 \<Rightarrow> 'm :: {zero, one, minus} \<Rightarrow> nat \<Rightarrow>
     addr list \<Rightarrow> js_error + 'd js_value list" where
  "list_loop cv emit d now mx i [] = Inr []"
| "list_loop cv emit d now mx i (a # as) =
     (if expired d now a then list_loop cv emit d now mx i as
      else if mx = 0 then Inr []
      else if \<not> elem_ok cv i then Inl Pending
      else
        (case list_loop cv emit d now (mx - 1) (Suc i) as of
           Inl e \<Rightarrow> Inl e
         | Inr xs \<Rightarrow> Inr (emit a # xs)))"

definition emit_key :: "('d, 'p) ngx_js_dict \<Rightarrow> addr \<Rightarrow> 'd js_value" where
  "emit_key d a = js_string (snd (str_key d a))"

definition emit_item :: "('d, 'p) ngx_js_dict \<Rightarrow> addr \<Rightarrow> 'd js_value" where
  "emit_item d a = js_array [emit_key d a, js_of_value (node_value_at d a)]"

fun size_loop :: "('d, 'p) ngx_js_dict \<Rightarrow> uint64 \<Rightarrow> addr list \<Rightarrow> nat" where
  "size_loop d now [] = 0"
| "size_loop d now (a # as) = (if expired d now a then 0 else 1) + size_loop d now as"

definition has_loop :: "('d, 'p) dict_env \<Rightarrow> ('d, 'p) ngx_js_dict \<Rightarrow> ngx_str \<Rightarrow> uint64 \<Rightarrow> bool" where
  "has_loop env d key now =
     (case ngx_js_dict_lookup env d key of
        None \<Rightarrow> False
      | Some a \<Rightarrow> \<not> (timeout d \<noteq> 0 \<and> timer_key d a \<le> now))"

subsection \<open>njs\<close>

definition njs_js_ext_shared_dict_clear ::
    "('d, 'p) dict_env \<Rightarrow> bool \<Rightarrow> ('d, 'p) ngx_js_dict \<Rightarrow> 'd js_result \<times> ('d, 'p) ngx_js_dict" where
  "njs_js_ext_shared_dict_clear env this d =
     (if \<not> this then (Inl (TypeError not_a_dict), d) else (Inr js_undefined, shared_dict_clear env d))"

definition njs_js_ext_shared_dict_free_space ::
    "('d, 'p) js_conv \<Rightarrow> bool \<Rightarrow> ('d, 'p) ngx_js_dict \<Rightarrow> 'd js_result \<times> ('d, 'p) ngx_js_dict" where
  "njs_js_ext_shared_dict_free_space cv this d =
     (if \<not> this then (Inl (TypeError not_a_dict), d)
      else (let d = rlock d; bytes = free_bytes cv (shpool d); d = unlock d in (Inr (js_number (of_u64 cv bytes)), d)))"

definition njs_js_ext_shared_dict_delete ::
    "('d, 'p) dict_env \<Rightarrow> ('d, 'p) js_conv \<Rightarrow> bool \<Rightarrow> ('d, 'p) ngx_js_dict \<Rightarrow> 'd js_value list \<Rightarrow> uint64 \<Rightarrow>
     'd js_result \<times> ('d, 'p) ngx_js_dict" where
  "njs_js_ext_shared_dict_delete env cv this d args now =
     (if \<not> this then (Inl (TypeError not_a_dict), d)
      else
        (case to_str cv (arg args 0) of
           None \<Rightarrow> (Inl Pending, d)
         | Some key \<Rightarrow>
             (case ngx_js_dict_delete env (string_ok cv) d key False now of
                (rc, _, d) \<Rightarrow> (Inr (js_bool (rc = NGX_OK)), d))))"

definition njs_js_ext_shared_dict_get ::
    "('d, 'p) dict_env \<Rightarrow> ('d, 'p) js_conv \<Rightarrow> bool \<Rightarrow> ('d, 'p) ngx_js_dict \<Rightarrow> 'd js_value list \<Rightarrow> uint64 \<Rightarrow>
     'd js_result \<times> ('d, 'p) ngx_js_dict" where
  "njs_js_ext_shared_dict_get env cv this d args now =
     (if \<not> this then (Inl (TypeError not_a_dict), d)
      else
        (case to_str cv (arg args 0) of
           None \<Rightarrow> (Inl Pending, d)
         | Some key \<Rightarrow>
             (case ngx_js_dict_get env (string_ok cv) d key now of
                (rc, v, d) \<Rightarrow>
                  if rc = NGX_ERROR then (Inl (Error ''failed to get value from shared dict''), d)
                  else (Inr (js_of_value v), d))))"

definition njs_js_ext_shared_dict_has ::
    "('d, 'p) dict_env \<Rightarrow> ('d, 'p) js_conv \<Rightarrow> bool \<Rightarrow> ('d, 'p) ngx_js_dict \<Rightarrow> 'd js_value list \<Rightarrow> uint64 \<Rightarrow>
     'd js_result \<times> ('d, 'p) ngx_js_dict" where
  "njs_js_ext_shared_dict_has env cv this d args now =
     (if \<not> this then (Inl (TypeError not_a_dict), d)
      else
        (case to_str cv (arg args 0) of
           None \<Rightarrow> (Inl Pending, d)
         | Some key \<Rightarrow> (let d = rlock d; r = has_loop env d key now in (Inr (js_bool r), unlock d))))"

definition max_count_arg :: "('d, 'p) js_conv \<Rightarrow> 'd js_value list \<Rightarrow> int option" where
  "max_count_arg cv args = (if args \<noteq> [] then to_integer cv (arg args 0) else Some 1024)"

definition njs_list ::
    "('d, 'p) js_conv \<Rightarrow> (('d, 'p) ngx_js_dict \<Rightarrow> addr \<Rightarrow> 'd js_value) \<Rightarrow> bool \<Rightarrow> ('d, 'p) ngx_js_dict \<Rightarrow> 'd js_value list \<Rightarrow> uint64 \<Rightarrow>
     'd js_result \<times> ('d, 'p) ngx_js_dict" where
  "njs_list cv emit this d args now =
     (if \<not> this then (Inl (TypeError not_a_dict), d)
      else
        (case max_count_arg cv args of
           None \<Rightarrow> (Inl Pending, d)
         | Some mx \<Rightarrow>
             (let d = rlock d
              in case list_loop cv (emit d) d now mx 0 (rbtree d) of
                   Inl e \<Rightarrow> (Inl e, unlock d)
                 | Inr xs \<Rightarrow> (Inr (js_array xs), unlock d))))"

definition njs_js_ext_shared_dict_keys ::
    "('d, 'p) js_conv \<Rightarrow> bool \<Rightarrow> ('d, 'p) ngx_js_dict \<Rightarrow> 'd js_value list \<Rightarrow> uint64 \<Rightarrow> 'd js_result \<times> ('d, 'p) ngx_js_dict" where
  "njs_js_ext_shared_dict_keys cv = njs_list cv emit_key"

definition njs_js_ext_shared_dict_items ::
    "('d, 'p) js_conv \<Rightarrow> bool \<Rightarrow> ('d, 'p) ngx_js_dict \<Rightarrow> 'd js_value list \<Rightarrow> uint64 \<Rightarrow> 'd js_result \<times> ('d, 'p) ngx_js_dict" where
  "njs_js_ext_shared_dict_items cv = njs_list cv emit_item"

text \<open>The check of a timeout argument; \<open>Inr None\<close> when there is none.\<close>

definition njs_timeout :: "('d, 'p) js_conv \<Rightarrow> ('d, 'p) ngx_js_dict \<Rightarrow> 'd js_value \<Rightarrow> js_error + uint64 option" where
  "njs_timeout cv d timeo =
     (if timeo = js_undefined then Inr None
      else if \<not> is_number timeo then Inl (TypeError ''timeout is not a number'')
      else if timeout d = 0 then Inl (TypeError need_timeout)
      else
        (let tmo = to_msec cv (number_value_of (zero_d cv) timeo)
         in if tmo < 1 then Inl (TypeError small_timeout) else Inr (Some tmo)))"

definition njs_js_ext_shared_dict_incr ::
    "('d, 'p) dict_env \<Rightarrow> ('d, 'p) js_conv \<Rightarrow> bool \<Rightarrow> ('d, 'p) ngx_js_dict \<Rightarrow> 'd js_value list \<Rightarrow> uint64 \<Rightarrow>
     'd js_result \<times> ('d, 'p) ngx_js_dict" where
  "njs_js_ext_shared_dict_incr env cv this d args now =
     (if \<not> this then (Inl (TypeError not_a_dict), d)
      else if dict_type d \<noteq> NGX_JS_DICT_TYPE_NUMBER then (Inl (TypeError ''shared dict is not a number dict''), d)
      else
        (case to_str cv (arg args 0) of
           None \<Rightarrow> (Inl Pending, d)
         | Some key \<Rightarrow>
             (if \<not> is_number (arg args 1) then (Inl (TypeError ''delta is not a number''), d)
              else if \<not> is_number (arg args 2) \<and> arg args 2 \<noteq> js_undefined then (Inl (TypeError ''init value is not a number''), d)
              else
                (case njs_timeout cv d (arg args 3) of
                   Inl e \<Rightarrow> (Inl e, d)
                 | Inr tmo \<Rightarrow>
                     (case ngx_js_dict_incr env d key (number_value_of (zero_d cv) (arg args 1))
                             (number_value_of (zero_d cv) (arg args 2)) (case tmo of Some t \<Rightarrow> t | None \<Rightarrow> 0) now of
                        (rc, x, d) \<Rightarrow>
                          if rc = NGX_ERROR then (Inl (Error ''failed to increment value in shared dict''), d)
                          else (Inr (js_number x), d))))))"

definition njs_js_ext_shared_dict_pop ::
    "('d, 'p) dict_env \<Rightarrow> ('d, 'p) js_conv \<Rightarrow> bool \<Rightarrow> ('d, 'p) ngx_js_dict \<Rightarrow> 'd js_value list \<Rightarrow> uint64 \<Rightarrow>
     'd js_result \<times> ('d, 'p) ngx_js_dict" where
  "njs_js_ext_shared_dict_pop env cv this d args now =
     (if \<not> this then (Inl (TypeError not_a_dict), d)
      else
        (case to_str cv (arg args 0) of
           None \<Rightarrow> (Inl Pending, d)
         | Some key \<Rightarrow>
             (case ngx_js_dict_delete env (string_ok cv) d key True now of
                (rc, v, d) \<Rightarrow>
                  if rc = NGX_ERROR then (Inl Pending, d)
                  else (Inr (if rc = NGX_DECLINED then js_undefined else js_of_value v), d))))"

definition value_of_js :: "'d js_value \<Rightarrow> 'd \<Rightarrow> 'd ngx_js_dict_value" where
  "value_of_js v z = (case v of js_string s \<Rightarrow> dict_str s | _ \<Rightarrow> dict_number (number_value_of z v))"

definition wrong_type :: "('d, 'p) ngx_js_dict \<Rightarrow> 'd js_value \<Rightarrow> js_error option" where
  "wrong_type d v =
     (if dict_type d = NGX_JS_DICT_TYPE_STRING
      then (if is_string v then None else Some (TypeError ''string value is expected''))
      else (if is_number v then None else Some (TypeError ''number value is expected'')))"

definition njs_js_ext_shared_dict_set ::
    "('d, 'p) dict_env \<Rightarrow> ('d, 'p) js_conv \<Rightarrow> bool \<Rightarrow> ('d, 'p) ngx_js_dict \<Rightarrow> 'd js_value list \<Rightarrow> set_flag \<Rightarrow> uint64 \<Rightarrow>
     'd js_result \<times> ('d, 'p) ngx_js_dict" where
  "njs_js_ext_shared_dict_set env cv this d args flags now =
     (if \<not> this then (Inl (TypeError not_a_dict), d)
      else
        (case to_str cv (arg args 0) of
           None \<Rightarrow> (Inl Pending, d)
         | Some key \<Rightarrow>
             (case wrong_type d (arg args 1) of
                Some e \<Rightarrow> (Inl e, d)
              | None \<Rightarrow>
                  (case njs_timeout cv d (arg args 2) of
                     Inl e \<Rightarrow> (Inl e, d)
                   | Inr tmo \<Rightarrow>
                       (case ngx_js_dict_set env d key (value_of_js (arg args 1) (zero_d cv))
                               (case tmo of Some t \<Rightarrow> t | None \<Rightarrow> timeout d) flags now of
                          (rc, d) \<Rightarrow>
                            if rc = NGX_ERROR then (Inl SharedMemoryError, d)
                            else (Inr (if flags \<noteq> SET then js_bool (rc = NGX_OK) else js_this), d))))))"

definition njs_js_ext_shared_dict_size ::
    "('d, 'p) js_conv \<Rightarrow> bool \<Rightarrow> ('d, 'p) ngx_js_dict \<Rightarrow> uint64 \<Rightarrow> 'd js_result \<times> ('d, 'p) ngx_js_dict" where
  "njs_js_ext_shared_dict_size cv this d now =
     (if \<not> this then (Inl (TypeError not_a_dict), d)
      else (let d = rlock d in (Inr (js_number (of_u64 cv (of_nat (size_loop d now (rbtree d))))), unlock d)))"

definition njs_js_ext_shared_dict_ttl ::
    "('d, 'p) dict_env \<Rightarrow> ('d, 'p) js_conv \<Rightarrow> bool \<Rightarrow> ('d, 'p) ngx_js_dict \<Rightarrow> 'd js_value list \<Rightarrow> uint64 \<Rightarrow>
     'd js_result \<times> ('d, 'p) ngx_js_dict" where
  "njs_js_ext_shared_dict_ttl env cv this d args now =
     (if \<not> this then (Inl (TypeError not_a_dict), d)
      else if timeout d = 0 then (Inl (TypeError need_timeout), d)
      else
        (case to_str cv (arg args 0) of
           None \<Rightarrow> (Inl Pending, d)
         | Some key \<Rightarrow>
             (let d = rlock d
              in case ngx_js_dict_lookup env d key of
                   Some a \<Rightarrow>
                     (if now < timer_key d a then (Inr (js_number (of_u64 cv (timer_key d a - now))), unlock d)
                      else (Inr js_undefined, unlock d))
                 | None \<Rightarrow> (Inr js_undefined, unlock d))))"

subsection \<open>QuickJS\<close>

definition ngx_qjs_dict_add ::
    "('d, 'p) dict_env \<Rightarrow> ('d, 'p) js_conv \<Rightarrow> ('d, 'p) ngx_js_dict \<Rightarrow> ngx_str \<Rightarrow> 'd js_value \<Rightarrow> uint64 \<Rightarrow> uint64 \<Rightarrow>
     ngx_rc \<times> ('d, 'p) ngx_js_dict" where
  "ngx_qjs_dict_add env cv d key v tmo now =
     (if dict_type d = NGX_JS_DICT_TYPE_STRING then
        (case to_str cv v of
           None \<Rightarrow> (NGX_ERROR, d)
         | Some s \<Rightarrow> ngx_js_dict_add_value env d key (dict_str s) tmo now)
      else
        (case to_float64 cv v of
           None \<Rightarrow> (NGX_ERROR, d)
         | Some x \<Rightarrow> ngx_js_dict_add_value env d key (dict_number x) tmo now))"

text \<open>A failed conversion puts the node back into the expiry tree.\<close>

definition ngx_qjs_dict_update ::
    "('d, 'p) dict_env \<Rightarrow> ('d, 'p) js_conv \<Rightarrow> ('d, 'p) ngx_js_dict \<Rightarrow> addr \<Rightarrow> 'd js_value \<Rightarrow> uint64 \<Rightarrow> uint64 \<Rightarrow>
     ngx_rc \<times> ('d, 'p) ngx_js_dict" where
  "ngx_qjs_dict_update env cv d a v tmo now =
     (if dict_type d = NGX_JS_DICT_TYPE_STRING then
        (case to_str cv v of
           None \<Rightarrow> (NGX_ERROR, link_expire env (unlink_expire env d a) a)
         | Some s \<Rightarrow>
             (case ngx_js_dict_alloc env (unlink_expire env d a) (length s) of
                (None, d) \<Rightarrow> (NGX_ERROR, link_expire env d a)
              | (Some p, d) \<Rightarrow>
                  (let old = (case node_mem d a of Some n \<Rightarrow> value_data n | None \<Rightarrow> 0);
                       d = d\<lparr>shpool := slab_free env (shpool d) old\<rparr>;
                       d = write_node d a (\<lambda>n. n\<lparr>node_value := dict_str s, value_data := p\<rparr>)
                   in (NGX_OK, link_expire env (set_expire d a (now + tmo)) a))))
      else
        (case to_float64 cv v of
           None \<Rightarrow> (NGX_ERROR, link_expire env (unlink_expire env d a) a)
         | Some x \<Rightarrow>
             (NGX_OK,
              link_expire env (set_expire (write_node (unlink_expire env d a) a (\<lambda>n. n\<lparr>node_value := dict_number x\<rparr>)) a (now + tmo)) a)))"

definition ngx_qjs_dict_set ::
    "('d, 'p) dict_env \<Rightarrow> ('d, 'p) js_conv \<Rightarrow> ('d, 'p) ngx_js_dict \<Rightarrow> ngx_str \<Rightarrow> 'd js_value \<Rightarrow> uint64 \<Rightarrow> set_flag \<Rightarrow> uint64 \<Rightarrow>
     'd js_result \<times> ('d, 'p) ngx_js_dict" where
  "ngx_qjs_dict_set env cv d key v tmo flags now =
     (let d = wlock d;
          memory_error = (\<lambda>d. (Inl SharedMemoryError, unlock d))
      in case ngx_js_dict_lookup env d key of
           None \<Rightarrow>
             (if flags = MUST_EXIST then (Inr (js_bool False), unlock d)
              else
                (case ngx_qjs_dict_add env cv d key v tmo now of
                   (rc, d) \<Rightarrow> if rc \<noteq> NGX_OK then memory_error d else (Inr (js_bool True), finish_write d)))
         | Some a \<Rightarrow>
             (if flags = MUST_NOT_EXIST \<and> \<not> expired d now a then (Inr (js_bool False), unlock d)
              else
                (case ngx_qjs_dict_update env cv d a v tmo now of
                   (rc, d) \<Rightarrow> if rc \<noteq> NGX_OK then memory_error d else (Inr (js_bool True), finish_write d))))"

text \<open>\<open>JS_NewStringLen\<close> of a value may fail, and the exception is what the method returns.\<close>

definition ngx_qjs_dict_copy_value_locked :: "('d, 'p) js_conv \<Rightarrow> ('d, 'p) ngx_js_dict \<Rightarrow> addr \<Rightarrow> 'd js_result" where
  "ngx_qjs_dict_copy_value_locked cv d a =
     (if dict_type d = NGX_JS_DICT_TYPE_STRING \<and> \<not> string_ok cv then Inl Pending else Inr (js_of_value (node_value_at d a)))"

definition ngx_qjs_dict_delete ::
    "('d, 'p) dict_env \<Rightarrow> ('d, 'p) js_conv \<Rightarrow> ('d, 'p) ngx_js_dict \<Rightarrow> ngx_str \<Rightarrow> bool \<Rightarrow> uint64 \<Rightarrow> 'd js_result \<times> ('d, 'p) ngx_js_dict" where
  "ngx_qjs_dict_delete env cv d key retval now =
     (let d = wlock d
      in case ngx_js_dict_lookup env d key of
           None \<Rightarrow> (Inr js_undefined, unlock d)
         | Some a \<Rightarrow>
             (let d1 = unlink_expire env d a;
                  d1 = d1\<lparr>rbtree := rb_delete env (rbtree d1) a\<rparr>;
                  ret =
                    (if retval
                     then (if \<not> expired d1 now a then ngx_qjs_dict_copy_value_locked cv d1 a else Inr js_undefined)
                     else Inr (js_bool True))
              in (ret, finish_write (ngx_js_dict_node_free env d1 a))))"

definition ngx_qjs_dict_get ::
    "('d, 'p) dict_env \<Rightarrow> ('d, 'p) js_conv \<Rightarrow> ('d, 'p) ngx_js_dict \<Rightarrow> ngx_str \<Rightarrow> uint64 \<Rightarrow> 'd js_result \<times> ('d, 'p) ngx_js_dict" where
  "ngx_qjs_dict_get env cv d key now =
     (let d = rlock d
      in case ngx_js_dict_lookup env d key of
           None \<Rightarrow> (Inr js_undefined, unlock d)
         | Some a \<Rightarrow>
             (if expired d now a then (Inr js_undefined, unlock d)
              else (ngx_qjs_dict_copy_value_locked cv d a, unlock d)))"

definition ngx_qjs_dict_incr ::
    "('d, 'p) dict_env \<Rightarrow> ('d, 'p) js_conv \<Rightarrow> ('d, 'p) ngx_js_dict \<Rightarrow> ngx_str \<Rightarrow> 'd \<Rightarrow> 'd \<Rightarrow> uint64 \<Rightarrow> uint64 \<Rightarrow>
     'd js_result \<times> ('d, 'p) ngx_js_dict" where
  "ngx_qjs_dict_incr env cv d key delta init tmo now =
     (let d = wlock d
      in case ngx_js_dict_lookup env d key of
           None \<Rightarrow>
             (let v = js_number (dadd env init delta)
              in case ngx_qjs_dict_add env cv d key v (if tmo \<noteq> 0 then tmo else timeout d) now of
                   (rc, d) \<Rightarrow> if rc \<noteq> NGX_OK then (Inl SharedMemoryError, unlock d) else (Inr v, finish_write d))
         | Some a \<Rightarrow>
             (let x = dadd env (case node_value_at d a of Some v \<Rightarrow> number_of delta v | None \<Rightarrow> delta) delta;
                  d = write_node d a (\<lambda>n. n\<lparr>node_value := dict_number x\<rparr>);
                  d = (if timeout d \<noteq> 0 \<and> tmo \<noteq> 0
                       then link_expire env (set_expire (unlink_expire env d a) a (now + tmo)) a else d)
              in (Inr (js_number x), finish_write d)))"

definition qjs_keyed ::
    "('d, 'p) js_conv \<Rightarrow> bool \<Rightarrow> ('d, 'p) ngx_js_dict \<Rightarrow> 'd js_value list \<Rightarrow>
     (ngx_str \<Rightarrow> 'd js_result \<times> ('d, 'p) ngx_js_dict) \<Rightarrow> 'd js_result \<times> ('d, 'p) ngx_js_dict" where
  "qjs_keyed cv this d args f =
     (if \<not> this then (Inl (TypeError not_a_dict), d)
      else (case to_str cv (arg args 0) of None \<Rightarrow> (Inl Pending, d) | Some key \<Rightarrow> f key))"

definition ngx_qjs_ext_shared_dict_clear ::
    "('d, 'p) dict_env \<Rightarrow> bool \<Rightarrow> ('d, 'p) ngx_js_dict \<Rightarrow> 'd js_result \<times> ('d, 'p) ngx_js_dict" where
  "ngx_qjs_ext_shared_dict_clear env this d =
     (if \<not> this then (Inl (TypeError not_a_dict), d) else (Inr js_undefined, shared_dict_clear env d))"

definition ngx_qjs_ext_shared_dict_free_space ::
    "('d, 'p) js_conv \<Rightarrow> bool \<Rightarrow> ('d, 'p) ngx_js_dict \<Rightarrow> 'd js_result \<times> ('d, 'p) ngx_js_dict" where
  "ngx_qjs_ext_shared_dict_free_space cv this d =
     (if \<not> this then (Inl (TypeError not_a_dict), d)
      else (let d = rlock d; bytes = free_bytes cv (shpool d); d = unlock d in (Inr (js_number (of_int32 cv (ucast bytes))), d)))"

definition ngx_qjs_ext_shared_dict_delete ::
    "('d, 'p) dict_env \<Rightarrow> ('d, 'p) js_conv \<Rightarrow> bool \<Rightarrow> ('d, 'p) ngx_js_dict \<Rightarrow> 'd js_value list \<Rightarrow> uint64 \<Rightarrow>
     'd js_result \<times> ('d, 'p) ngx_js_dict" where
  "ngx_qjs_ext_shared_dict_delete env cv this d args now =
     qjs_keyed cv this d args (\<lambda>key. ngx_qjs_dict_delete env cv d key False now)"

definition ngx_qjs_ext_shared_dict_pop ::
    "('d, 'p) dict_env \<Rightarrow> ('d, 'p) js_conv \<Rightarrow> bool \<Rightarrow> ('d, 'p) ngx_js_dict \<Rightarrow> 'd js_value list \<Rightarrow> uint64 \<Rightarrow>
     'd js_result \<times> ('d, 'p) ngx_js_dict" where
  "ngx_qjs_ext_shared_dict_pop env cv this d args now =
     qjs_keyed cv this d args (\<lambda>key. ngx_qjs_dict_delete env cv d key True now)"

definition ngx_qjs_ext_shared_dict_get ::
    "('d, 'p) dict_env \<Rightarrow> ('d, 'p) js_conv \<Rightarrow> bool \<Rightarrow> ('d, 'p) ngx_js_dict \<Rightarrow> 'd js_value list \<Rightarrow> uint64 \<Rightarrow>
     'd js_result \<times> ('d, 'p) ngx_js_dict" where
  "ngx_qjs_ext_shared_dict_get env cv this d args now =
     qjs_keyed cv this d args (\<lambda>key. ngx_qjs_dict_get env cv d key now)"

definition ngx_qjs_ext_shared_dict_has ::
    "('d, 'p) dict_env \<Rightarrow> ('d, 'p) js_conv \<Rightarrow> bool \<Rightarrow> ('d, 'p) ngx_js_dict \<Rightarrow> 'd js_value list \<Rightarrow> uint64 \<Rightarrow>
     'd js_result \<times> ('d, 'p) ngx_js_dict" where
  "ngx_qjs_ext_shared_dict_has env cv this d args now =
     qjs_keyed cv this d args (\<lambda>key. let d = rlock d; r = has_loop env d key now in (Inr (js_bool r), unlock d))"

text \<open>
  The timeout of \<open>incr\<close> counts when the argument is present, of \<open>set\<close> when it is not undefined; in
  both it is a 32-bit integer, and so is the copy of the zone's own timeout in \<open>set\<close>.
\<close>

definition ngx_qjs_ext_shared_dict_incr ::
    "('d, 'p) dict_env \<Rightarrow> ('d, 'p) js_conv \<Rightarrow> bool \<Rightarrow> ('d, 'p) ngx_js_dict \<Rightarrow> 'd js_value list \<Rightarrow> uint64 \<Rightarrow>
     'd js_result \<times> ('d, 'p) ngx_js_dict" where
  "ngx_qjs_ext_shared_dict_incr env cv this d args now =
     (if \<not> this then (Inl (TypeError not_a_dict), d)
      else if dict_type d \<noteq> NGX_JS_DICT_TYPE_NUMBER then (Inl (TypeError ''shared dict is not a number dict''), d)
      else
        (case to_float64 cv (arg args 1) of
           None \<Rightarrow> (Inl Pending, d)
         | Some delta \<Rightarrow>
             (case (if arg args 2 = js_undefined then Some (zero_d cv) else to_float64 cv (arg args 2)) of
                None \<Rightarrow> (Inl Pending, d)
              | Some init \<Rightarrow>
                  (let go = (\<lambda>tmo :: uint32.
                         case to_str cv (arg args 0) of
                           None \<Rightarrow> (Inl Pending, d)
                         | Some key \<Rightarrow> ngx_qjs_dict_incr env cv d key delta init (ucast tmo) now)
                   in if length args \<le> 3 then go 0
                      else
                        (case to_uint32 cv (arg args 3) of
                           None \<Rightarrow> (Inl Pending, d)
                         | Some tmo \<Rightarrow>
                             if timeout d = 0 then (Inl (TypeError need_timeout), d)
                             else if tmo < 1 then (Inl (RangeError small_timeout), d)
                             else go tmo)))))"

definition qjs_max_count :: "('d, 'p) js_conv \<Rightarrow> 'd js_value list \<Rightarrow> uint32 option" where
  "qjs_max_count cv args = (if args \<noteq> [] then to_uint32 cv (arg args 0) else Some 1024)"

definition qjs_list ::
    "('d, 'p) js_conv \<Rightarrow> (('d, 'p) ngx_js_dict \<Rightarrow> addr \<Rightarrow> 'd js_value) \<Rightarrow> bool \<Rightarrow> ('d, 'p) ngx_js_dict \<Rightarrow> 'd js_value list \<Rightarrow> uint64 \<Rightarrow>
     'd js_result \<times> ('d, 'p) ngx_js_dict" where
  "qjs_list cv emit this d args now =
     (if \<not> this then (Inl (TypeError not_a_dict), d)
      else
        (case qjs_max_count cv args of
           None \<Rightarrow> (Inl Pending, d)
         | Some mx \<Rightarrow>
             (let d = rlock d
              in case list_loop cv (emit d) d now mx 0 (rbtree d) of
                   Inl e \<Rightarrow> (Inl e, unlock d)
                 | Inr xs \<Rightarrow> (Inr (js_array xs), unlock d))))"

definition ngx_qjs_ext_shared_dict_keys ::
    "('d, 'p) js_conv \<Rightarrow> bool \<Rightarrow> ('d, 'p) ngx_js_dict \<Rightarrow> 'd js_value list \<Rightarrow> uint64 \<Rightarrow> 'd js_result \<times> ('d, 'p) ngx_js_dict" where
  "ngx_qjs_ext_shared_dict_keys cv = qjs_list cv emit_key"

definition ngx_qjs_ext_shared_dict_items ::
    "('d, 'p) js_conv \<Rightarrow> bool \<Rightarrow> ('d, 'p) ngx_js_dict \<Rightarrow> 'd js_value list \<Rightarrow> uint64 \<Rightarrow> 'd js_result \<times> ('d, 'p) ngx_js_dict" where
  "ngx_qjs_ext_shared_dict_items cv = qjs_list cv emit_item"

definition ngx_qjs_ext_shared_dict_set ::
    "('d, 'p) dict_env \<Rightarrow> ('d, 'p) js_conv \<Rightarrow> bool \<Rightarrow> ('d, 'p) ngx_js_dict \<Rightarrow> 'd js_value list \<Rightarrow> set_flag \<Rightarrow> uint64 \<Rightarrow>
     'd js_result \<times> ('d, 'p) ngx_js_dict" where
  "ngx_qjs_ext_shared_dict_set env cv this d args flags now =
     (if \<not> this then (Inl (TypeError not_a_dict), d)
      else
        (case wrong_type d (arg args 1) of
           Some e \<Rightarrow> (Inl e, d)
         | None \<Rightarrow>
             (let go = (\<lambda>tmo :: uint32.
                    case to_str cv (arg args 0) of
                      None \<Rightarrow> (Inl Pending, d)
                    | Some key \<Rightarrow>
                        (case ngx_qjs_dict_set env cv d key (arg args 1) (ucast tmo) flags now of
                           (Inl e, d) \<Rightarrow> (Inl e, d)
                         | (Inr r, d) \<Rightarrow> (Inr (if flags \<noteq> SET then r else js_this), d)))
              in if arg args 2 = js_undefined then go (ucast (timeout d))
                 else if \<not> is_number (arg args 2) then (Inl (TypeError ''timeout is not a number''), d)
                 else if timeout d = 0 then (Inl (TypeError need_timeout), d)
                 else
                   (case to_uint32 cv (arg args 2) of
                      None \<Rightarrow> (Inl Pending, d)
                    | Some tmo \<Rightarrow> if tmo < 1 then (Inl (TypeError small_timeout), d) else go tmo))))"

definition ngx_qjs_ext_shared_dict_size ::
    "('d, 'p) js_conv \<Rightarrow> bool \<Rightarrow> ('d, 'p) ngx_js_dict \<Rightarrow> uint64 \<Rightarrow> 'd js_result \<times> ('d, 'p) ngx_js_dict" where
  "ngx_qjs_ext_shared_dict_size cv this d now =
     (if \<not> this then (Inl (TypeError not_a_dict), d)
      else (let d = rlock d in (Inr (js_number (of_int32 cv (of_nat (size_loop d now (rbtree d))))), unlock d)))"

definition ngx_qjs_ext_shared_dict_ttl ::
    "('d, 'p) dict_env \<Rightarrow> ('d, 'p) js_conv \<Rightarrow> bool \<Rightarrow> ('d, 'p) ngx_js_dict \<Rightarrow> 'd js_value list \<Rightarrow> uint64 \<Rightarrow>
     'd js_result \<times> ('d, 'p) ngx_js_dict" where
  "ngx_qjs_ext_shared_dict_ttl env cv this d args now =
     (if \<not> this then (Inl (TypeError not_a_dict), d)
      else if timeout d = 0 then (Inl (TypeError need_timeout), d)
      else
        (case to_str cv (arg args 0) of
           None \<Rightarrow> (Inl Pending, d)
         | Some key \<Rightarrow>
             (let d = rlock d
              in case ngx_js_dict_lookup env d key of
                   Some a \<Rightarrow>
                     (if now < timer_key d a then (Inr (js_number (of_u64 cv (timer_key (unlock d) a - now))), unlock d)
                      else (Inr js_undefined, unlock d))
                 | None \<Rightarrow> (Inr js_undefined, unlock d))))"

end
