(* ===== verification/Ngx_Js_Dict_Inv.thy ===== *)
theory Ngx_Js_Dict_Inv
  imports Ngx_Js_Dict
begin

section \<open>The invariant of a shared dictionary\<close>

text \<open>
  What the dictionary of \<open>src/nginx/ngx_js_shared_dict.c\<close> relies on of nginx's trees and of its slab
  allocator, the invariant that ties the two trees, the nodes and the allocated blocks together,
  and that the steps the operations consist of keep it: dropping, adding and changing a node.
\<close>

subsection \<open>What the code relies on\<close>

text \<open>
  The order of nginx's string tree: by hash, then by length, then bytewise.  The documented
  behaviour of the trees and of the slab allocator, \<open>live\<close> being the blocks that are allocated.
\<close>

fun bytes_less :: "ngx_str \<Rightarrow> ngx_str \<Rightarrow> bool" where
  "bytes_less (x # xs) (y # ys) \<longleftrightarrow> x < y \<or> x = y \<and> bytes_less xs ys"
| "bytes_less _ _ \<longleftrightarrow> False"

fun str_less :: "uint32 \<times> ngx_str \<Rightarrow> uint32 \<times> ngx_str \<Rightarrow> bool" where
  "str_less (h, s) (g, t) \<longleftrightarrow>
     h < g \<or> h = g \<and> (length s < length t \<or> length s = length t \<and> bytes_less s t)"

definition str_tree_ok :: "('d, 'p) dict_env \<Rightarrow> bool" where
  "str_tree_ok env \<longleftrightarrow>
     (\<forall>k t a. sorted_wrt str_less (map k t) \<and> k a \<notin> k ` set t \<longrightarrow>
        (\<exists>xs ys. t = xs @ ys \<and> str_insert env k t a = xs @ a # ys) \<and>
        sorted_wrt str_less (map k (str_insert env k t a))) \<and>
     (\<forall>k t s h. sorted_wrt str_less (map k t) \<longrightarrow>
        (case str_lookup env k t s h of
           None \<Rightarrow> (h, s) \<notin> k ` set t
         | Some a \<Rightarrow> a \<in> set t \<and> k a = (h, s)))"

text \<open>nginx compares timers by the sign of their difference, which is their order below this limit.\<close>

definition msec_limit :: uint64 where "msec_limit = 2 ^ 63"

definition timer_tree_ok :: "('d, 'p) dict_env \<Rightarrow> bool" where
  "timer_tree_ok env \<longleftrightarrow>
     (\<forall>k t a. sorted (map k t) \<and> (\<forall>b \<in> insert a (set t). k b < msec_limit) \<longrightarrow>
        (\<exists>xs ys. t = xs @ ys \<and> timer_insert env k t a = xs @ a # ys) \<and> sorted (map k (timer_insert env k t a)))"

definition delete_ok :: "('d, 'p) dict_env \<Rightarrow> bool" where
  "delete_ok env \<longleftrightarrow> (\<forall>t a. distinct t \<and> a \<in> set t \<longrightarrow> rb_delete env t a = filter (\<lambda>b. b \<noteq> a) t)"

definition slab_ok :: "('d, 'p) dict_env \<Rightarrow> ('p \<Rightarrow> addr set) \<Rightarrow> bool" where
  "slab_ok env live \<longleftrightarrow>
     (\<forall>p n a p'. slab_alloc env p n = Some (a, p') \<longrightarrow> a \<notin> live p \<and> live p' = insert a (live p)) \<and>
     (\<forall>p a. a \<in> live p \<longrightarrow> live (slab_free env p a) = live p - {a})"

definition nginx_ok :: "('d, 'p) dict_env \<Rightarrow> ('p \<Rightarrow> addr set) \<Rightarrow> bool" where
  "nginx_ok env live \<longleftrightarrow> str_tree_ok env \<and> timer_tree_ok env \<and> delete_ok env \<and> slab_ok env live"

subsection \<open>The invariant\<close>

text \<open>
  \<open>base\<close> are blocks allocated for other purposes (a node not yet in a tree, for one), \<open>out\<close> the
  nodes that are out of the expiry tree for the moment.
\<close>

definition blocks :: "('d, 'p) ngx_js_dict \<Rightarrow> addr set" where
  "blocks d = dom (node_mem d) \<union>
     (if dict_type d = NGX_JS_DICT_TYPE_STRING then value_data ` ran (node_mem d) else {})"

definition own_ok :: "ngx_js_dict_type \<Rightarrow> (addr \<Rightarrow> 'd ngx_js_dict_node option) \<Rightarrow> bool" where
  "own_ok ty m \<longleftrightarrow>
     (ty = NGX_JS_DICT_TYPE_STRING \<longrightarrow>
        (\<forall>a n. m a = Some n \<longrightarrow> value_data n \<notin> dom m) \<and>
        (\<forall>a b n k. m a = Some n \<and> m b = Some k \<and> value_data n = value_data k \<longrightarrow> a = b))"

definition mem_ok :: "('p \<Rightarrow> addr set) \<Rightarrow> addr set \<Rightarrow> ('d, 'p) ngx_js_dict \<Rightarrow> bool" where
  "mem_ok live base d \<longleftrightarrow>
     live (shpool d) = base \<union> blocks d \<and> base \<inter> blocks d = {} \<and> own_ok (dict_type d) (node_mem d)"

definition value_ok :: "ngx_js_dict_type \<Rightarrow> 'd ngx_js_dict_value \<Rightarrow> bool" where
  "value_ok ty v \<longleftrightarrow>
     (case v of dict_str _ \<Rightarrow> ty = NGX_JS_DICT_TYPE_STRING | dict_number _ \<Rightarrow> ty = NGX_JS_DICT_TYPE_NUMBER)"

definition tree_ok :: "('d, 'p) dict_env \<Rightarrow> ('d, 'p) ngx_js_dict \<Rightarrow> bool" where
  "tree_ok env d \<longleftrightarrow>
     distinct (rbtree d) \<and> set (rbtree d) = dom (node_mem d) \<and> sorted_wrt str_less (map (str_key d) (rbtree d)) \<and>
     (\<forall>a n. node_mem d a = Some n \<longrightarrow> sn_key n = crc32 env (sn_str n) \<and> value_ok (dict_type d) (node_value n))"

definition expire_ok :: "addr set \<Rightarrow> ('d, 'p) ngx_js_dict \<Rightarrow> bool" where
  "expire_ok out d \<longleftrightarrow>
     (if timeout d = 0 then rbtree_expire d = [] \<and> \<not> evict d
      else distinct (rbtree_expire d) \<and> set (rbtree_expire d) = dom (node_mem d) - out \<and>
        sorted (map (timer_key d) (rbtree_expire d)) \<and> (\<forall>a \<in> dom (node_mem d) - out. timer_key d a < msec_limit))"

definition dict_inv ::
    "('d, 'p) dict_env \<Rightarrow> ('p \<Rightarrow> addr set) \<Rightarrow> addr set \<Rightarrow> addr set \<Rightarrow> ('d, 'p) ngx_js_dict \<Rightarrow> bool" where
  "dict_inv env live base out d \<longleftrightarrow> tree_ok env d \<and> expire_ok out d \<and> mem_ok live base d"

lemma bytes_less_irrefl: "\<not> bytes_less s s"
  by (induction s) auto

lemma str_less_irrefl: "\<not> str_less x x"
  using bytes_less_irrefl by (cases x) auto

lemma sorted_keys_inj:
  assumes "sorted_wrt str_less (map k t)" "a \<in> set t" "b \<in> set t" "k a = k b"
  shows "a = b"
proof -
  obtain i j where ij: "i < length t" "j < length t" "t ! i = a" "t ! j = b" using assms(2,3) by (auto simp: in_set_conv_nth)
  have less: "str_less (k (t ! x)) (k (t ! y))" if "x < y" "y < length t" for x y
    using that assms(1) by (simp add: sorted_wrt_iff_nth_less)
  have "\<not> i < j" "\<not> j < i"
    using less[of i j] less[of j i] ij assms(4) str_less_irrefl by metis+
  then show ?thesis using ij by simp
qed

subsection \<open>Dropping a node\<close>

text \<open>What stays the same while nodes are freed.\<close>

definition same_config :: "('d, 'p) ngx_js_dict \<Rightarrow> ('d, 'p) ngx_js_dict \<Rightarrow> bool" where
  "same_config d d' \<longleftrightarrow> rwlock d' = rwlock d \<and> dirty d' = dirty d \<and> writing d' = writing d \<and> timeout d' = timeout d \<and>
     evict d' = evict d \<and> dict_type d' = dict_type d \<and> state_file d' = state_file d \<and> timer_set d' = timer_set d"

lemma same_config_refl [simp]: "same_config d d" by (simp add: same_config_def)

lemma same_config_trans: "same_config d d' \<Longrightarrow> same_config d' d'' \<Longrightarrow> same_config d d''"
  by (simp add: same_config_def)

lemma free_node_mem:
  assumes "slab_ok env live" "mem_ok live base d" "node_mem d a = Some n"
  shows "mem_ok live base (ngx_js_dict_node_free env d a)"
    "node_mem (ngx_js_dict_node_free env d a) = (node_mem d)(a := None)"
    "same_config d (ngx_js_dict_node_free env d a)"
    "rbtree (ngx_js_dict_node_free env d a) = rbtree d"
    "rbtree_expire (ngx_js_dict_node_free env d a) = rbtree_expire d"
proof -
  let ?d = "ngx_js_dict_node_free env d a"
  show nm: "node_mem ?d = (node_mem d)(a := None)" and sc: "same_config d ?d" and "rbtree ?d = rbtree d" "rbtree_expire ?d = rbtree_expire d"
    using assms(3) by (simp_all add: ngx_js_dict_node_free_def Let_def same_config_def)
  have ty: "dict_type ?d = dict_type d" using sc by (simp add: same_config_def)
  have free: "live (slab_free env p b) = live p - {b}" if "b \<in> live p" for p b
    using assms(1) that by (simp add: slab_ok_def)
  have a: "a \<in> blocks d" using assms(3) by (auto simp: blocks_def)
  show "mem_ok live base ?d"
  proof (cases "dict_type d = NGX_JS_DICT_TYPE_STRING")
    case True
    have n: "value_data n \<in> blocks d" using assms(3) True by (auto simp: blocks_def ran_def)
    have vn: "value_data n \<notin> dom (node_mem d)" using assms(2,3) True unfolding mem_ok_def own_ok_def by blast
    then have na: "value_data n \<noteq> a" using assms(3) by blast
    have lb: "live (shpool d) = base \<union> blocks d" "base \<inter> blocks d = {}" using assms(2) by (simp_all add: mem_ok_def)
    have L: "live (shpool ?d) = live (shpool d) - {value_data n} - {a}"
      using assms(2,3) True a n na free by (auto simp: ngx_js_dict_node_free_def Let_def mem_ok_def)
    have B: "blocks ?d = blocks d - {value_data n} - {a}"
    proof -
      have "ran (node_mem d) = insert n (ran ((node_mem d)(a := None)))"
        using ran_map_upd[of "(node_mem d)(a := None)" a n] assms(3) by (simp add: map_upd_triv)
      then have "value_data ` ran (node_mem d) = insert (value_data n) (value_data ` ran ((node_mem d)(a := None)))" by simp
      moreover have "value_data n \<notin> value_data ` ran ((node_mem d)(a := None))"
      proof
        assume "value_data n \<in> value_data ` ran ((node_mem d)(a := None))"
        then obtain b m where "b \<noteq> a" "node_mem d b = Some m" "value_data n = value_data m" by (auto simp: ran_def split: if_splits)
        then show False using assms(2,3) True unfolding mem_ok_def own_ok_def by blast
      qed
      moreover have "a \<notin> value_data ` ran (node_mem d)"
      proof
        assume "a \<in> value_data ` ran (node_mem d)"
        then obtain b m where "node_mem d b = Some m" "a = value_data m" by (auto simp: ran_def)
        then show False using assms(2,3) True unfolding mem_ok_def own_ok_def by blast
      qed
      ultimately show ?thesis using True nm ty vn by (auto simp: blocks_def)
    qed
    have "live (shpool ?d) = base \<union> blocks ?d" "base \<inter> blocks ?d = {}"
      unfolding L B lb using lb(2) a n by blast+
    moreover have "value_data m \<notin> dom (node_mem ?d)" if "node_mem ?d b = Some m" for b m
      using that assms(2) True nm unfolding mem_ok_def own_ok_def by (auto split: if_splits)
    moreover have "b = c" if "node_mem ?d b = Some m" "node_mem ?d c = Some k" "value_data m = value_data k" for b c m k
      using that assms(2) True nm unfolding mem_ok_def own_ok_def by (metis fun_upd_other fun_upd_same option.distinct(1))
    ultimately show ?thesis unfolding mem_ok_def own_ok_def by blast
  next
    case False
    then have "live (shpool ?d) = live (shpool d) - {a}"
      using assms(2,3) a free by (simp add: ngx_js_dict_node_free_def Let_def mem_ok_def)
    then show ?thesis using assms(2) a False nm ty by (auto simp: mem_ok_def own_ok_def blocks_def)
  qed
qed


lemma key_update [simp]:
  "str_key (d\<lparr>shpool := p\<rparr>) = str_key d" "timer_key (d\<lparr>shpool := p\<rparr>) = timer_key d"
  "str_key (d\<lparr>rbtree := t\<rparr>) = str_key d" "timer_key (d\<lparr>rbtree := t\<rparr>) = timer_key d"
  "str_key (d\<lparr>rbtree_expire := t\<rparr>) = str_key d" "timer_key (d\<lparr>rbtree_expire := t\<rparr>) = timer_key d"
  "str_key (d\<lparr>rwlock := l\<rparr>) = str_key d" "timer_key (d\<lparr>rwlock := l\<rparr>) = timer_key d"
  "str_key (d\<lparr>dirty := b\<rparr>) = str_key d" "timer_key (d\<lparr>dirty := b\<rparr>) = timer_key d"
  "str_key (d\<lparr>timer_set := b\<rparr>) = str_key d" "timer_key (d\<lparr>timer_set := b\<rparr>) = timer_key d"
  by (simp_all add: fun_eq_iff str_key_def timer_key_def)

lemma timer_key_cong: "node_mem d a = node_mem d' a \<Longrightarrow> timer_key d a = timer_key d' a"
  by (simp add: timer_key_def)

lemma str_key_cong: "node_mem d a = node_mem d' a \<Longrightarrow> str_key d a = str_key d' a"
  by (simp add: str_key_def)

lemma tree_ok_remove:
  assumes "tree_ok env d" "node_mem d' = (node_mem d)(a := None)" "rbtree d' = filter (\<lambda>b. b \<noteq> a) (rbtree d)"
    "dict_type d' = dict_type d"
  shows "tree_ok env d'"
proof -
  have "map (str_key d') (rbtree d') = map (str_key d) (rbtree d')"
    using assms(2,3) by (auto simp: str_key_def)
  moreover have "sorted_wrt str_less (map (str_key d) (filter (\<lambda>b. b \<noteq> a) (rbtree d)))"
    using assms(1) by (simp add: tree_ok_def sorted_wrt_map sorted_wrt_filter)
  ultimately have "sorted_wrt str_less (map (str_key d') (rbtree d'))" unfolding assms(3) by metis
  then show ?thesis using assms by (auto simp: tree_ok_def split: if_splits)
qed

lemma mem_ok_cong:
  assumes "node_mem d' = node_mem d" "shpool d' = shpool d" "dict_type d' = dict_type d"
  shows "mem_ok live base d' = mem_ok live base d"
  using assms by (simp add: mem_ok_def blocks_def)

lemma drop_node:
  assumes "nginx_ok env live" "dict_inv env live base out d" "a \<in> set (rbtree_expire d)"
  shows "dict_inv env live base out (drop_node env d a)"
    "node_mem (drop_node env d a) = (node_mem d)(a := None)"
    "rbtree_expire (drop_node env d a) = filter (\<lambda>b. b \<noteq> a) (rbtree_expire d)"
    "same_config d (drop_node env d a)"
proof -
  have t: "timeout d \<noteq> 0" "a \<in> dom (node_mem d)" "distinct (rbtree_expire d)"
    using assms(2,3) by (auto simp: dict_inv_def expire_ok_def split: if_splits)
  then obtain n where n: "node_mem d a = Some n" by blast
  let ?m = "d\<lparr>rbtree_expire := filter (\<lambda>b. b \<noteq> a) (rbtree_expire d), rbtree := filter (\<lambda>b. b \<noteq> a) (rbtree d)\<rparr>"
  have tr: "distinct (rbtree d)" "a \<in> set (rbtree d)" using assms(2) t(2) by (auto simp: dict_inv_def tree_ok_def)
  have eq: "drop_node env d a = ngx_js_dict_node_free env ?m a"
    using assms(1,3) t(3) tr by (simp add: drop_node_def nginx_ok_def delete_ok_def)
  have mo: "mem_ok live base ?m" using assms(2) mem_ok_cong[of ?m d live base] by (simp add: dict_inv_def)
  have sl: "slab_ok env live" using assms(1) by (simp add: nginx_ok_def)
  note f = free_node_mem[OF sl mo, of a n] 
  show nm: "node_mem (drop_node env d a) = (node_mem d)(a := None)" and
    re: "rbtree_expire (drop_node env d a) = filter (\<lambda>b. b \<noteq> a) (rbtree_expire d)" and
    sc: "same_config d (drop_node env d a)"
    using f n eq by (simp_all add: same_config_def)
  have rb: "rbtree (drop_node env d a) = filter (\<lambda>b. b \<noteq> a) (rbtree d)" using f n eq by simp
  have "tree_ok env (drop_node env d a)"
    by (rule tree_ok_remove[OF _ nm rb]) (use assms(2) sc in \<open>auto simp: dict_inv_def same_config_def\<close>)
  moreover have "expire_ok out (drop_node env d a)"
  proof -
    have k: "timer_key (drop_node env d a) b = timer_key d b" if "b \<noteq> a" for b using nm that by (simp add: timer_key_def)
    have "map (timer_key (drop_node env d a)) (rbtree_expire (drop_node env d a)) =
        map (timer_key d) (filter (\<lambda>b. b \<noteq> a) (rbtree_expire d))" using k re by auto
    moreover have "sorted (map (timer_key d) (filter (\<lambda>b. b \<noteq> a) (rbtree_expire d)))"
      using assms(2) t(1) by (simp add: dict_inv_def expire_ok_def sorted_filter)
    ultimately have "sorted (map (timer_key (drop_node env d a)) (rbtree_expire (drop_node env d a)))" by simp
    then show ?thesis using assms(2) t(1) sc k unfolding dict_inv_def expire_ok_def same_config_def re nm by auto
  qed
  ultimately show "dict_inv env live base out (drop_node env d a)" using f(1) n eq by (simp add: dict_inv_def)
qed

lemma restrict_upd_none: "(\<lambda>b. if b = a then None else m b) |` (- S) = m |` (- insert a S)"
  by (auto simp: restrict_map_def fun_eq_iff)

lemma evict_loop:
  assumes "nginx_ok env live" "dict_inv env live base out d" "rbtree_expire d = as"
  shows "case evict_loop env d c e as of (e', d') \<Rightarrow>
    dict_inv env live base out d' \<and> same_config d d' \<and> e' = e + min c (length as) \<and>
    rbtree_expire d' = drop c as \<and> node_mem d' = (node_mem d) |` (- set (take c as))"
  using assms(2,3)
proof (induction as arbitrary: d c e)
  case (Cons a as)
  show ?case
  proof (cases c)
    case (Suc m)
    have a: "a \<in> set (rbtree_expire d)" using Cons.prems by simp
    note dn = drop_node[OF assms(1) Cons.prems(1) a]
    have "distinct (a # as)" using Cons.prems by (auto simp: dict_inv_def expire_ok_def split: if_splits)
    then have "rbtree_expire (drop_node env d a) = as" using dn(3) Cons.prems(2) by (simp add: filter_neq_notin)
    note ih = Cons.IH[OF dn(1) this, where c = m and e = "e + 1"]
    obtain e' d' where r: "evict_loop env (drop_node env d a) m (e + 1) as = (e', d')" by (metis surj_pair)
    then have "node_mem d' = node_mem d |` (- set (take c (a # as)))"
      using ih dn(2) Suc by (simp add: restrict_upd_none)
    then show ?thesis using ih r same_config_trans[OF dn(4)] Suc by simp
  qed (use Cons.prems in \<open>simp add: restrict_map_def\<close>)
qed (simp add: restrict_map_def)

lemma expire_loop:
  assumes "nginx_ok env live" "dict_inv env live base out d" "rbtree_expire d = as"
  shows "dict_inv env live base out (expire_loop env now d as) \<and> same_config d (expire_loop env now d as) \<and>
    node_mem (expire_loop env now d as) = (node_mem d) |` (- set (takeWhile (\<lambda>a. timer_key d a \<le> now) as))"
  using assms(2,3)
proof (induction as arbitrary: d)
  case (Cons a as)
  have a: "a \<in> set (rbtree_expire d)" using Cons.prems by simp
  note dn = drop_node[OF assms(1) Cons.prems(1) a]
  have da: "distinct (a # as)" using Cons.prems by (auto simp: dict_inv_def expire_ok_def split: if_splits)
  then have "rbtree_expire (drop_node env d a) = as" using dn(3) Cons.prems(2) by (simp add: filter_neq_notin)
  note ih = Cons.IH[OF dn(1) this]
  have "takeWhile (\<lambda>b. timer_key (drop_node env d a) b \<le> now) as = takeWhile (\<lambda>b. timer_key d b \<le> now) as"
    using da dn(2) by (intro takeWhile_cong) (auto simp: timer_key_def)
  then have "node_mem (expire_loop env now (drop_node env d a) as) =
      node_mem d |` (- insert a (set (takeWhile (\<lambda>b. timer_key d b \<le> now) as)))"
    using ih dn(2) by (simp add: restrict_upd_none)
  moreover have "\<not> now < timer_key d a" if "timer_key d a \<le> now" using that by simp
  ultimately show ?case using ih same_config_trans[OF dn(4)] Cons.prems
    by (cases "timer_key d a \<le> now") (simp_all add: not_le restrict_map_def)
qed (simp add: restrict_map_def)


text \<open>What allocation may do to the dictionary: throw out nodes of the expiry tree.\<close>

definition shrunk :: "('d, 'p) ngx_js_dict \<Rightarrow> ('d, 'p) ngx_js_dict \<Rightarrow> bool" where
  "shrunk d d' \<longleftrightarrow> same_config d d' \<and> node_mem d' \<subseteq>\<^sub>m node_mem d \<and> (\<not> evict d \<longrightarrow> node_mem d' = node_mem d)"

lemma shrunk_refl [simp]: "shrunk d d" by (simp add: shrunk_def)

lemma shrunk_trans: "shrunk d d' \<Longrightarrow> shrunk d' d'' \<Longrightarrow> shrunk d d''"
  by (auto simp: shrunk_def same_config_def intro: map_le_trans)

lemma restrict_le: "m |` S \<subseteq>\<^sub>m m"
  by (auto simp: map_le_def restrict_map_def)

lemma slab_alloc_locked:
  assumes "slab_ok env live" "dict_inv env live base out d"
  shows "case slab_alloc_locked env d n of
      (None, d') \<Rightarrow> d' = d
    | (Some p, d') \<Rightarrow> dict_inv env live (insert p base) out d' \<and> (\<exists>pool. d' = d\<lparr>shpool := pool\<rparr>) \<and> p \<notin> live (shpool d)"
proof (cases "slab_alloc env (shpool d) n")
  case (Some r)
  obtain p pool where r: "r = (p, pool)" by (cases r)
  have l: "p \<notin> live (shpool d)" "live pool = insert p (live (shpool d))"
    using assms(1) Some r by (auto simp: slab_ok_def)
  have b: "blocks (d\<lparr>shpool := pool\<rparr>) = blocks d" by (simp add: blocks_def)
  have "live (shpool d) = base \<union> blocks d" "base \<inter> blocks d = {}" using assms(2) by (simp_all add: dict_inv_def mem_ok_def)
  then have "mem_ok live (insert p base) (d\<lparr>shpool := pool\<rparr>)"
    using assms(2) l unfolding dict_inv_def mem_ok_def b by simp
  moreover have "tree_ok env (d\<lparr>shpool := pool\<rparr>)" "expire_ok out (d\<lparr>shpool := pool\<rparr>)"
    using assms(2) unfolding dict_inv_def tree_ok_def expire_ok_def by simp_all
  ultimately show ?thesis using Some r l by (auto simp: slab_alloc_locked_def dict_inv_def)
qed (simp add: slab_alloc_locked_def)

text \<open>The result of an allocation: a fresh block, or NULL with nothing left to evict.\<close>

definition allocated ::
    "('d, 'p) dict_env \<Rightarrow> ('p \<Rightarrow> addr set) \<Rightarrow> addr set \<Rightarrow> addr set \<Rightarrow> ('d, 'p) ngx_js_dict \<Rightarrow>
     addr option \<times> ('d, 'p) ngx_js_dict \<Rightarrow> bool" where
  "allocated env live base out d r \<longleftrightarrow>
     shrunk d (snd r) \<and> out \<inter> dom (node_mem d) \<subseteq> dom (node_mem (snd r)) \<and>
     (case fst r of
        None \<Rightarrow> dict_inv env live base out (snd r)
      | Some p \<Rightarrow> dict_inv env live (insert p base) out (snd r) \<and> p \<notin> base)"

lemma allocated_slab:
  assumes "nginx_ok env live" "dict_inv env live base out d"
  shows "allocated env live base out d (slab_alloc_locked env d n)"
proof -
  have sl: "slab_ok env live" using assms(1) by (simp add: nginx_ok_def)
  obtain p d' where r: "slab_alloc_locked env d n = (p, d')" by (metis surj_pair)
  have base: "base \<subseteq> live (shpool d)" using assms(2) by (auto simp: dict_inv_def mem_ok_def)
  show ?thesis
  proof (cases p)
    case None
    then show ?thesis using slab_alloc_locked[OF sl assms(2), of n] r assms(2) by (simp add: allocated_def)
  next
    case (Some q)
    then obtain pool where *: "dict_inv env live (insert q base) out d'" "d' = d\<lparr>shpool := pool\<rparr>" "q \<notin> live (shpool d)"
      using slab_alloc_locked[OF sl assms(2), of n] r by auto
    have "shrunk d d'" "node_mem d' = node_mem d"
      unfolding *(2) by (simp_all add: shrunk_def same_config_def)
    then show ?thesis using r Some *(1,3) base by (auto simp: allocated_def)
  qed
qed

lemma allocated_after:
  assumes "shrunk d d'" "out \<inter> dom (node_mem d) \<subseteq> dom (node_mem d')" "allocated env live base out d' r"
  shows "allocated env live base out d r"
  using assms shrunk_trans[of d d' "snd r"] by (auto simp: allocated_def split: option.splits)

lemma evict_shrunk:
  assumes "nginx_ok env live" "dict_inv env live base out d" "evict d" "ngx_js_dict_evict env d c = (e, d')"
  shows "dict_inv env live base out d'" "shrunk d d'" "out \<inter> dom (node_mem d) \<subseteq> dom (node_mem d')"
    "rbtree_expire d' = drop c (rbtree_expire d)" "e = min c (length (rbtree_expire d))"
proof -
  note l = evict_loop[OF assms(1,2) refl, where c = c and e = 0]
  have ex: "set (rbtree_expire d) \<subseteq> - out"
    using assms(2) by (auto simp: dict_inv_def expire_ok_def split: if_splits)
  show "dict_inv env live base out d'" "rbtree_expire d' = drop c (rbtree_expire d)" "e = min c (length (rbtree_expire d))"
    using l assms(4) by (simp_all add: ngx_js_dict_evict_def)
  have m: "node_mem d' = (node_mem d) |` (- set (take c (rbtree_expire d)))" "same_config d d'"
    using l assms(4) by (simp_all add: ngx_js_dict_evict_def)
  then show "shrunk d d'" using assms(3) restrict_le by (simp add: shrunk_def)
  show "out \<inter> dom (node_mem d) \<subseteq> dom (node_mem d')" using m(1) ex set_take_subset[of c "rbtree_expire d"] by auto
qed

lemma alloc_loop:
  assumes "nginx_ok env live" "evict d0" "allocated env live base out d0 r" "length (rbtree_expire (snd r)) < fuel"
  shows "allocated env live base out d0 (alloc_loop env n fuel r) \<and>
    (fst (alloc_loop env n fuel r) = None \<longrightarrow> rbtree_expire (snd (alloc_loop env n fuel r)) = [])"
  using assms(3,4)
proof (induction fuel arbitrary: r)
  case (Suc fuel)
  obtain p d where r: "r = (p, d)" by (cases r)
  show ?case
  proof (cases p)
    case None
    obtain e d' where ev: "ngx_js_dict_evict env d 16 = (e, d')" by (metis surj_pair)
    have d: "dict_inv env live base out d" "shrunk d0 d" "out \<inter> dom (node_mem d0) \<subseteq> dom (node_mem d)"
      using Suc.prems(1) r None by (auto simp: allocated_def)
    have evd: "evict d" using d(2) assms(2) by (simp add: shrunk_def same_config_def)
    note e = evict_shrunk[OF assms(1) d(1) evd ev]
    have s: "shrunk d0 d'" "out \<inter> dom (node_mem d0) \<subseteq> dom (node_mem d')"
      using shrunk_trans[OF d(2) e(2)] d(3) e(3) by auto
    show ?thesis
    proof (cases "e = 0")
      case True
      then have "rbtree_expire d = []" using e(5) by (cases "rbtree_expire d") auto
      then show ?thesis using r None ev True e(1,4) s by (simp add: allocated_def)
    next
      case False
      let ?r = "slab_alloc_locked env d' n"
      have a: "allocated env live base out d0 ?r" by (rule allocated_after[OF s allocated_slab[OF assms(1) e(1)]])
      have "rbtree_expire (snd ?r) = rbtree_expire d'" by (simp add: slab_alloc_locked_def split: option.splits)
      moreover have "length (rbtree_expire d') < fuel" using Suc.prems(2) r False e(4,5) by (cases "rbtree_expire d") auto
      ultimately show ?thesis using Suc.IH[OF a] r None ev False by simp
    qed
  qed (use Suc.prems r in simp)
qed simp

lemma dict_alloc:
  assumes "nginx_ok env live" "dict_inv env live base out d"
  shows "allocated env live base out d (ngx_js_dict_alloc env d n)"
    "fst (ngx_js_dict_alloc env d n) = None \<Longrightarrow> evict d \<Longrightarrow> rbtree_expire (snd (ngx_js_dict_alloc env d n)) = []"
proof -
  let ?s = "slab_alloc_locked env d n"
  let ?l = "alloc_loop env n (Suc (length (rbtree_expire d))) ?s"
  have s: "allocated env live base out d ?s" by (rule allocated_slab[OF assms])
  have len: "length (rbtree_expire (snd ?s)) < Suc (length (rbtree_expire d))"
    by (simp add: slab_alloc_locked_def split: option.splits)
  have again: "allocated env live base out d (slab_alloc_locked env d' n) \<and>
      rbtree_expire (snd (slab_alloc_locked env d' n)) = rbtree_expire d'" if "allocated env live base out d (None, d')" for d'
    using that allocated_after[OF _ _ allocated_slab[OF assms(1), of base out d' n], of d]
    by (auto simp: allocated_def slab_alloc_locked_def split: option.splits)
  show "allocated env live base out d (ngx_js_dict_alloc env d n)"
  proof (cases "evict d")
    case True
    obtain q d' where l: "?l = (q, d')" by (metis surj_pair)
    have "allocated env live base out d (q, d')" using alloc_loop[OF assms(1) True s len, of n] l by simp
    then show ?thesis using again[of d'] True l by (cases q) (simp_all add: ngx_js_dict_alloc_def del: alloc_loop.simps)
  qed (use s in \<open>simp add: ngx_js_dict_alloc_def\<close>)
  show "rbtree_expire (snd (ngx_js_dict_alloc env d n)) = []" if f: "fst (ngx_js_dict_alloc env d n) = None" and e: "evict d"
  proof -
    obtain q d' where l: "?l = (q, d')" by (metis surj_pair)
    have "allocated env live base out d (q, d')" "q = None \<longrightarrow> rbtree_expire d' = []"
      using alloc_loop[OF assms(1) e s len, of n] l by simp_all
    then show ?thesis using again[of d'] e f l by (cases q) (simp_all add: ngx_js_dict_alloc_def del: alloc_loop.simps)
  qed
qed

subsection \<open>Search\<close>

lemma str_key_node: "tree_ok env d \<Longrightarrow> node_mem d a = Some n \<Longrightarrow> str_key d a = (crc32 env (sn_str n), sn_str n)"
  by (simp add: tree_ok_def str_key_def)

lemma str_lookup_cases:
  assumes "nginx_ok env live" "sorted_wrt str_less (map k t)"
  shows "case str_lookup env k t s h of None \<Rightarrow> (h, s) \<notin> k ` set t | Some a \<Rightarrow> a \<in> set t \<and> k a = (h, s)"
proof -
  have "\<forall>k t s h. sorted_wrt str_less (map k t) \<longrightarrow>
        (case str_lookup env k t s h of None \<Rightarrow> (h, s) \<notin> k ` set t | Some a \<Rightarrow> a \<in> set t \<and> k a = (h, s))"
    using assms(1) unfolding nginx_ok_def str_tree_ok_def by (elim conjE)
  then show ?thesis using assms(2) by simp
qed

lemma lookup_Some:
  assumes "nginx_ok env live" "tree_ok env d" "ngx_js_dict_lookup env d key = Some a"
  shows "\<exists>n. node_mem d a = Some n \<and> sn_str n = key"
proof -
  have "a \<in> set (rbtree d) \<and> str_key d a = (crc32 env key, key)"
    using str_lookup_cases[OF assms(1), where k = "str_key d" and t = "rbtree d" and s = key and h = "crc32 env key"] assms(2,3)
    by (simp add: tree_ok_def ngx_js_dict_lookup_def)
  moreover then obtain n where "node_mem d a = Some n" using assms(2) by (auto simp: tree_ok_def)
  ultimately show ?thesis using str_key_node[OF assms(2)] by auto
qed

lemma lookup_None:
  assumes "nginx_ok env live" "tree_ok env d" "ngx_js_dict_lookup env d key = None" "node_mem d a = Some n"
  shows "sn_str n \<noteq> key"
proof
  assume k: "sn_str n = key"
  have "(crc32 env key, key) \<notin> str_key d ` set (rbtree d)"
    using str_lookup_cases[OF assms(1), where k = "str_key d" and t = "rbtree d" and s = key and h = "crc32 env key"] assms(2,3)
    by (simp add: tree_ok_def ngx_js_dict_lookup_def)
  moreover have "a \<in> set (rbtree d)" using assms(2,4) by (auto simp: tree_ok_def)
  ultimately show False using str_key_node[OF assms(2,4)] k by (metis imageI)
qed

lemma key_unique:
  assumes "tree_ok env d" "node_mem d a = Some n" "node_mem d b = Some m" "sn_str n = sn_str m"
  shows "a = b"
proof (rule sorted_keys_inj)
  show "sorted_wrt str_less (map (str_key d) (rbtree d))" "a \<in> set (rbtree d)" "b \<in> set (rbtree d)"
    using assms by (auto simp: tree_ok_def)
  show "str_key d a = str_key d b" using str_key_node[OF assms(1)] assms by simp
qed

subsection \<open>Linking a node\<close>

lemma insert_between: "\<exists>xs ys. t = xs @ ys \<and> r = xs @ a # ys \<Longrightarrow> set r = insert a (set t) \<and> (distinct r \<longleftrightarrow> distinct t \<and> a \<notin> set t)"
  by auto

lemma link_tree_ok:
  assumes "nginx_ok env live" "tree_ok env d" "a \<notin> dom (node_mem d)" "sn_key node = crc32 env (sn_str node)"
    "value_ok (dict_type d) (node_value node)" "\<forall>b n. node_mem d b = Some n \<longrightarrow> sn_str n \<noteq> sn_str node"
    "node_mem d' = (node_mem d)(a := Some node)" "rbtree d' = str_insert env (str_key d') (rbtree d) a" "dict_type d' = dict_type d"
  shows "tree_ok env d'"
proof -
  have k: "str_key d' b = str_key d b" if "b \<in> set (rbtree d)" for b
    using that assms(2,3,7) by (intro str_key_cong) (auto simp: tree_ok_def)
  then have m: "map (str_key d') (rbtree d) = map (str_key d) (rbtree d)" by simp
  have ka: "str_key d' a = (crc32 env (sn_str node), sn_str node)" using assms(4,7) by (simp add: str_key_def)
  have fresh: "str_key d' a \<notin> str_key d' ` set (rbtree d)"
  proof
    assume "str_key d' a \<in> str_key d' ` set (rbtree d)"
    then obtain b where b: "b \<in> set (rbtree d)" "str_key d b = (crc32 env (sn_str node), sn_str node)" using k ka by (metis imageE)
    then obtain n where n: "node_mem d b = Some n" using assms(2) by (auto simp: tree_ok_def)
    then show False using b str_key_node[OF assms(2) n] assms(6) by auto
  qed
  have "sorted_wrt str_less (map (str_key d') (rbtree d))" using assms(2) unfolding tree_ok_def m by blast
  then have ins: "(\<exists>xs ys. rbtree d = xs @ ys \<and> rbtree d' = xs @ a # ys) \<and> sorted_wrt str_less (map (str_key d') (rbtree d'))"
    using assms(1) fresh unfolding nginx_ok_def str_tree_ok_def assms(8) by blast
  have "set (rbtree d') = insert a (set (rbtree d))" "distinct (rbtree d')"
    using insert_between[of "rbtree d" "rbtree d'" a] ins assms(2,3) by (auto simp: tree_ok_def)
  then show ?thesis using assms ins by (auto simp: tree_ok_def split: if_splits)
qed

lemma link_expire_ok:
  assumes "nginx_ok env live" "timeout d' \<noteq> 0" "timeout d \<noteq> 0" "expire_ok out d" "a \<in> out \<or> a \<notin> dom (node_mem d)" "timer_key d' a < msec_limit"
    "\<forall>b. b \<noteq> a \<longrightarrow> node_mem d' b = node_mem d b" "a \<in> dom (node_mem d')"
    "rbtree_expire d' = timer_insert env (timer_key d') (rbtree_expire d) a"
  shows "expire_ok (out - {a}) d'"
proof -
  have ex: "distinct (rbtree_expire d)" "set (rbtree_expire d) = dom (node_mem d) - out" "sorted (map (timer_key d) (rbtree_expire d))"
    "\<forall>a \<in> dom (node_mem d) - out. timer_key d a < msec_limit"
    using assms(3,4) by (simp_all add: expire_ok_def)
  have na: "a \<notin> set (rbtree_expire d)" using ex(2) assms(5) by auto
  have k: "timer_key d' b = timer_key d b" if "b \<noteq> a" for b using that assms(7) by (simp add: timer_key_def)
  then have m: "map (timer_key d') (rbtree_expire d) = map (timer_key d) (rbtree_expire d)"
    using na by (intro map_cong refl) metis
  have lim: "\<forall>b \<in> insert a (set (rbtree_expire d)). timer_key d' b < msec_limit" using assms(6) ex(2,4) k by fastforce
  have "sorted (map (timer_key d') (rbtree_expire d))" using ex(3) unfolding m .
  then have ins: "(\<exists>xs ys. rbtree_expire d = xs @ ys \<and> rbtree_expire d' = xs @ a # ys) \<and> sorted (map (timer_key d') (rbtree_expire d'))"
    using assms(1) lim unfolding nginx_ok_def timer_tree_ok_def assms(9) by blast
  have s: "set (rbtree_expire d') = insert a (set (rbtree_expire d))" "distinct (rbtree_expire d')"
    using insert_between[of "rbtree_expire d" "rbtree_expire d'" a] ins ex(1) na by auto
  have "dom (node_mem d') = insert a (dom (node_mem d))"
  proof (rule set_eqI)
    fix b show "b \<in> dom (node_mem d') \<longleftrightarrow> b \<in> insert a (dom (node_mem d))" using assms(7,8) by (cases "b = a") (auto simp: dom_def)
  qed
  then show ?thesis using assms(2) s ins ex(2) lim by (auto simp: expire_ok_def)
qed

lemma link_mem_ok:
  assumes "mem_ok live base' d" "node_mem d' = (node_mem d)(a := Some node)" "shpool d' = shpool d" "dict_type d' = dict_type d"
    "a \<notin> dom (node_mem d)"
    "base' = insert a (if dict_type d = NGX_JS_DICT_TYPE_STRING then insert (value_data node) base else base)"
    "a \<notin> base" "dict_type d = NGX_JS_DICT_TYPE_STRING \<longrightarrow> value_data node \<notin> base \<and> value_data node \<noteq> a"
  shows "mem_ok live base d'"
proof -
  have b: "blocks d' = blocks d \<union> insert a (if dict_type d = NGX_JS_DICT_TYPE_STRING then {value_data node} else {})"
    using assms(2,4,5) ran_map_upd[of "node_mem d" a node] by (auto simp: blocks_def)
  have l: "live (shpool d) = base' \<union> blocks d" "base' \<inter> blocks d = {}" using assms(1) by (simp_all add: mem_ok_def)
  have "own_ok (dict_type d') (node_mem d')"
  proof (cases "dict_type d = NGX_JS_DICT_TYPE_STRING")
    case True
    have vd: "value_data n \<noteq> a" "value_data n \<noteq> value_data node" if "node_mem d c = Some n" for c n
    proof -
      have "value_data n \<in> blocks d" using that True by (auto simp: blocks_def ran_def)
      then show "value_data n \<noteq> a" "value_data n \<noteq> value_data node" using l(2) assms(6) True by auto
    qed
    have "value_data node \<notin> dom (node_mem d)" using l(2) assms(6) True by (auto simp: blocks_def)
    moreover have "value_data n \<notin> dom (node_mem d)" if "node_mem d c = Some n" for c n
      using that assms(1) True unfolding mem_ok_def own_ok_def by blast
    ultimately have 1: "value_data n \<notin> dom (node_mem d')" if "node_mem d' c = Some n" for c n
      using that vd assms(2,8) True by (auto split: if_splits)
    have "c = e" if "node_mem d c = Some n" "node_mem d e = Some k" "value_data n = value_data k" for c e n k
      using that assms(1) True unfolding mem_ok_def own_ok_def by blast
    then have "c = e" if "node_mem d' c = Some n" "node_mem d' e = Some k" "value_data n = value_data k" for c e n k
      using that vd assms(2) by (metis fun_upd_apply option.inject)
    then show ?thesis using 1 unfolding own_ok_def by blast
  qed (simp add: assms(4) own_ok_def)
  then show ?thesis unfolding mem_ok_def b assms(3) l(1) using l(2) assms(6-8) by (auto split: if_splits)
qed

subsection \<open>Adding a value\<close>

definition alive :: "('d, 'p) ngx_js_dict \<Rightarrow> uint64 \<Rightarrow> addr \<Rightarrow> 'd ngx_js_dict_node option" where
  "alive d now = node_mem d |` {a. \<not> expired d now a}"

lemma takeWhile_sorted: "sorted (map f xs) \<Longrightarrow> set (takeWhile (\<lambda>x. f x \<le> c) xs) = {x \<in> set xs. f x \<le> c}" for c :: "'a :: linorder"
proof (induction xs)
  case (Cons x xs)
  then show ?case by (auto intro: order_trans)
qed simp

lemma dict_expire:
  assumes "nginx_ok env live" "dict_inv env live base {} d" "timeout d \<noteq> 0"
  shows "dict_inv env live base {} (ngx_js_dict_expire env d now)" "same_config d (ngx_js_dict_expire env d now)"
    "node_mem (ngx_js_dict_expire env d now) = alive d now"
proof -
  note l = expire_loop[OF assms(1,2) refl, of now]
  then show "dict_inv env live base {} (ngx_js_dict_expire env d now)" "same_config d (ngx_js_dict_expire env d now)"
    by (simp_all add: ngx_js_dict_expire_def)
  have ex: "sorted (map (timer_key d) (rbtree_expire d))" "set (rbtree_expire d) = dom (node_mem d)"
    using assms(2,3) by (simp_all add: dict_inv_def expire_ok_def)
  have "node_mem d |` (- set (takeWhile (\<lambda>a. timer_key d a \<le> now) (rbtree_expire d))) = alive d now"
    unfolding takeWhile_sorted[OF ex(1)] ex(2) alive_def
    by (auto simp: restrict_map_def fun_eq_iff expired_def assms(3))
  then show "node_mem (ngx_js_dict_expire env d now) = alive d now" using l by (simp add: ngx_js_dict_expire_def)
qed

lemma link_node:
  assumes "nginx_ok env live" "dict_inv env live base' {} d" "a \<notin> dom (node_mem d)" "sn_key node = crc32 env (sn_str node)"
    "value_ok (dict_type d) (node_value node)" "\<forall>b n. node_mem d b = Some n \<longrightarrow> sn_str n \<noteq> sn_str node"
    "base' = insert a (if dict_type d = NGX_JS_DICT_TYPE_STRING then insert (value_data node) base else base)"
    "a \<notin> base" "dict_type d = NGX_JS_DICT_TYPE_STRING \<longrightarrow> value_data node \<notin> base \<and> value_data node \<noteq> a"
    "timeout d \<noteq> 0 \<longrightarrow> expire_key node < msec_limit"
  shows "dict_inv env live base {} (link_node env d a node) \<and> node_mem (link_node env d a node) = (node_mem d)(a := Some node) \<and>
    same_config d (link_node env d a node)"
proof -
  let ?d = "link_node env d a node"
  have nm: "node_mem ?d = (node_mem d)(a := Some node)" and sc: "same_config d ?d" and sh: "shpool ?d = shpool d"
    by (simp_all add: link_node_def Let_def same_config_def)
  have "tree_ok env ?d"
  proof (rule link_tree_ok[OF assms(1) _ assms(3-6)])
    have "str_key (d\<lparr>node_mem := (node_mem d)(a := Some node)\<rparr>) = str_key ?d" by (simp add: fun_eq_iff str_key_def nm)
    then show "rbtree ?d = str_insert env (str_key ?d) (rbtree d) a" by (simp add: link_node_def Let_def)
  qed (use assms(2) nm sc in \<open>simp_all add: dict_inv_def same_config_def\<close>)
  moreover have "expire_ok {} ?d"
  proof (cases "timeout d = 0")
    case True
    then show ?thesis using assms(2) by (simp add: dict_inv_def expire_ok_def link_node_def Let_def)
  next
    case False
    have "expire_ok ({} - {a}) ?d"
    proof (rule link_expire_ok[OF assms(1) _ False])
      have "timer_key (d\<lparr>node_mem := (node_mem d)(a := Some node)\<rparr>) = timer_key ?d" by (simp add: fun_eq_iff timer_key_def nm)
      then show "rbtree_expire ?d = timer_insert env (timer_key ?d) (rbtree_expire d) a"
        using False by (simp add: link_node_def Let_def)
      show "timer_key ?d a < msec_limit" using assms(10) False nm by (simp add: timer_key_def)
    qed (use assms(2,3) nm sc False in \<open>simp_all add: dict_inv_def same_config_def\<close>)
    then show ?thesis by simp
  qed
  moreover have "mem_ok live base ?d"
    using link_mem_ok[OF _ nm sh _ assms(3,7-9)] assms(2) sc by (simp add: dict_inv_def same_config_def)
  ultimately show ?thesis using nm sc by (simp add: dict_inv_def)
qed

lemma free_block:
  assumes "nginx_ok env live" "dict_inv env live (insert a base) out d" "a \<notin> base"
  shows "dict_inv env live base out (d\<lparr>shpool := slab_free env (shpool d) a\<rparr>)"
proof -
  let ?d = "d\<lparr>shpool := slab_free env (shpool d) a\<rparr>"
  have l: "live (shpool d) = insert a base \<union> blocks d" "insert a base \<inter> blocks d = {}"
    using assms(2) by (simp_all add: dict_inv_def mem_ok_def)
  have "live (shpool ?d) = live (shpool d) - {a}" using assms(1) l(1) by (simp add: nginx_ok_def slab_ok_def)
  moreover have b: "blocks ?d = blocks d" by (simp add: blocks_def)
  ultimately have "mem_ok live base ?d" using l assms(2,3) unfolding mem_ok_def dict_inv_def by auto
  moreover have "tree_ok env ?d" "expire_ok out ?d"
    using assms(2) unfolding dict_inv_def tree_ok_def expire_ok_def by simp_all
  ultimately show ?thesis by (simp add: dict_inv_def)
qed

text \<open>The state after an attempt to add: the nodes alive at \<open>now\<close>, less what was evicted.\<close>

definition kept :: "('d, 'p) ngx_js_dict \<Rightarrow> uint64 \<Rightarrow> (addr \<Rightarrow> 'd ngx_js_dict_node option) \<Rightarrow> bool" where
  "kept d now m \<longleftrightarrow> m \<subseteq>\<^sub>m alive d now \<and> (\<not> evict d \<longrightarrow> m = alive d now)"

lemma kept_shrunk: "kept d now (node_mem d1) \<Longrightarrow> same_config d d1 \<Longrightarrow> shrunk d1 d2 \<Longrightarrow> kept d now (node_mem d2)"
  by (auto simp: kept_def shrunk_def same_config_def intro: map_le_trans)

lemma prepare_add:
  assumes "nginx_ok env live" "dict_inv env live base {} d"
    "d0 = (if timeout d \<noteq> 0 then ngx_js_dict_expire env d now else d)"
  shows "dict_inv env live base {} d0" "same_config d d0" "kept d now (node_mem d0)"
proof -
  have "alive d now = node_mem d" if "timeout d = 0"
    using that by (simp add: alive_def restrict_map_def expired_def)
  then show "dict_inv env live base {} d0" "same_config d d0" "kept d now (node_mem d0)"
    using dict_expire[OF assms(1,2), of now] assms(2) by (simp_all add: assms(3) kept_def)
qed

lemma kept_sub: "kept d now m \<Longrightarrow> m b = Some n \<Longrightarrow> node_mem d b = Some n"
  by (auto simp: kept_def map_le_def alive_def restrict_map_def split: if_splits dest: bspec[of _ _ b])

definition new_node :: "('d, 'p) dict_env \<Rightarrow> ('d, 'p) ngx_js_dict \<Rightarrow> ngx_str \<Rightarrow> 'd ngx_js_dict_value \<Rightarrow> uint64 \<Rightarrow> addr \<Rightarrow> 'd ngx_js_dict_node" where
  "new_node env d key v e p =
     \<lparr>sn_key = crc32 env key, sn_str = key, expire_key = (if timeout d \<noteq> 0 then e else 0), node_value = v, value_data = p\<rparr>"

lemma add_value:
  assumes "nginx_ok env live" "dict_inv env live base {} d" "\<forall>b n. node_mem d b = Some n \<longrightarrow> sn_str n \<noteq> key"
    "value_ok (dict_type d) v" "timeout d \<noteq> 0 \<longrightarrow> now + tmo < msec_limit"
    "ngx_js_dict_add_value env d key v tmo now = (rc, d')"
  shows "dict_inv env live base {} d' \<and> same_config d d' \<and>
    (case rc of
       NGX_OK \<Rightarrow> \<exists>a p m. kept d now m \<and> a \<notin> dom m \<and> node_mem d' = m(a := Some (new_node env d key v (now + tmo) p))
     | NGX_ERROR \<Rightarrow> kept d now (node_mem d')
     | _ \<Rightarrow> False)"
proof -
  define d0 where "d0 = (if timeout d \<noteq> 0 then ngx_js_dict_expire env d now else d)"
  note p = prepare_add[OF assms(1,2) d0_def]
  obtain r1 d1 where al: "ngx_js_dict_alloc env d0 (node_size env + length key) = (r1, d1)" by (metis surj_pair)
  note a1 = dict_alloc(1)[OF assms(1) p(1), of "node_size env + length key", unfolded al]
  have sh1: "shrunk d0 d1" using a1 by (simp add: allocated_def)
  have sc1: "same_config d d1" using p(2) sh1 same_config_trans by (auto simp: shrunk_def)
  have k1: "kept d now (node_mem d1)" by (rule kept_shrunk[OF p(3,2) sh1])
  note unf = ngx_js_dict_add_value_def Let_def d0_def[symmetric] al
  show ?thesis
  proof (cases r1)
    case None
    then show ?thesis using a1 sc1 k1 assms(6) by (simp add: unf allocated_def)
  next
    case (Some a)
    have i1: "dict_inv env live (insert a base) {} d1" "a \<notin> base" using a1 Some by (simp_all add: allocated_def)
    have ad: "a \<notin> dom (node_mem d1)" using i1(1) by (auto simp: dict_inv_def mem_ok_def blocks_def)
    have cfg: "timeout d1 = timeout d" "dict_type d1 = dict_type d" "timeout d0 = timeout d" using sc1 p(2) by (simp_all add: same_config_def)
    show ?thesis
    proof (cases v)
      case (dict_number x)
      then have ty: "dict_type d = NGX_JS_DICT_TYPE_NUMBER" using assms(4) by (simp add: value_ok_def)
      have "link_node env d1 a (new_node env d key v (now + tmo) 0) = d'" "rc = NGX_OK"
        using assms(6) Some dict_number cfg by (simp_all add: unf new_node_def)
      moreover have "\<forall>b n. node_mem d1 b = Some n \<longrightarrow> sn_str n \<noteq> key" using kept_sub[OF k1] assms(3) by blast
      ultimately have l: "dict_inv env live base {} d'" "node_mem d' = (node_mem d1)(a := Some (new_node env d key v (now + tmo) 0))"
          "same_config d1 d'"
        using link_node[OF assms(1) i1(1) ad, where base = base and node = "new_node env d key v (now + tmo) 0"] cfg ty i1(2) assms(4,5)
        by (simp_all add: new_node_def)
      then show ?thesis using k1 ad same_config_trans[OF sc1 l(3)] \<open>rc = NGX_OK\<close> by auto
    next
      case (dict_str s)
      then have ty: "dict_type d = NGX_JS_DICT_TYPE_STRING" using assms(4) by (simp add: value_ok_def)
      obtain r2 d2 where al2: "ngx_js_dict_alloc env d1 (length s) = (r2, d2)" by (metis surj_pair)
      note a2 = dict_alloc(1)[OF assms(1) i1(1), of "length s", unfolded al2]
      have sh2: "shrunk d1 d2" using a2 by (simp add: allocated_def)
      have sc2: "same_config d d2" using sc1 sh2 same_config_trans by (auto simp: shrunk_def)
      have k2: "kept d now (node_mem d2)" by (rule kept_shrunk[OF k1 sc1 sh2])
      have cfg2: "timeout d2 = timeout d" "dict_type d2 = dict_type d" using sc2 by (simp_all add: same_config_def)
      show ?thesis
      proof (cases r2)
        case None
        then have i2: "dict_inv env live (insert a base) {} d2" using a2 by (simp add: allocated_def)
        have r: "rc = NGX_ERROR" "d' = d2\<lparr>shpool := slab_free env (shpool d2) a\<rparr>"
          using assms(6) Some dict_str None by (simp_all add: unf al2)
        have "same_config d d'" "kept d now (node_mem d')" using sc2 k2 unfolding r(2) by (simp_all add: same_config_def)
        then show ?thesis using free_block[OF assms(1) i2 i1(2)] r by simp
      next
        case (Some q)
        then have i2: "dict_inv env live (insert q (insert a base)) {} d2" "q \<notin> insert a base" using a2 by (simp_all add: allocated_def)
        have ad2: "a \<notin> dom (node_mem d2)" using i2(1) by (auto simp: dict_inv_def mem_ok_def blocks_def)
        have "link_node env d2 a (new_node env d key v (now + tmo) q) = d'" "rc = NGX_OK"
          using assms(6) \<open>r1 = Some a\<close> Some dict_str cfg cfg2 by (simp_all add: unf al2 new_node_def)
        moreover have "\<forall>b n. node_mem d2 b = Some n \<longrightarrow> sn_str n \<noteq> key" using kept_sub[OF k2] assms(3) by blast
        ultimately have l: "dict_inv env live base {} d'" "node_mem d' = (node_mem d2)(a := Some (new_node env d key v (now + tmo) q))"
            "same_config d2 d'"
          using link_node[OF assms(1) i2(1) ad2, where base = base and node = "new_node env d key v (now + tmo) q"] cfg2 ty i1(2) i2(2) assms(4,5)
          by (simp_all add: new_node_def insert_commute[of q a base])
        then show ?thesis using k2 ad2 same_config_trans[OF sc2 l(3)] \<open>rc = NGX_OK\<close> by auto
      qed
    qed
  qed
qed

subsection \<open>Changing a node\<close>

lemma unlink_expire:
  assumes "nginx_ok env live" "dict_inv env live base {} d" "node_mem d a = Some n"
  shows "dict_inv env live base {a} (unlink_expire env d a)" "node_mem (unlink_expire env d a) = node_mem d"
    "same_config d (unlink_expire env d a)"
proof -
  let ?d = "unlink_expire env d a"
  show nm: "node_mem ?d = node_mem d" and sc: "same_config d ?d" by (simp_all add: unlink_expire_def same_config_def)
  have "tree_ok env ?d" using assms(2) unfolding dict_inv_def tree_ok_def unlink_expire_def by simp
  moreover have "mem_ok live base ?d"
    using mem_ok_cong[of ?d d live base] assms(2) by (simp add: unlink_expire_def dict_inv_def)
  moreover have "expire_ok {a} ?d"
  proof (cases "timeout d = 0")
    case False
    then have ex: "distinct (rbtree_expire d)" "set (rbtree_expire d) = dom (node_mem d)" "sorted (map (timer_key d) (rbtree_expire d))"
      "\<forall>b \<in> dom (node_mem d). timer_key d b < msec_limit"
      using assms(2) by (simp_all add: dict_inv_def expire_ok_def)
    have "a \<in> set (rbtree_expire d)" using ex(2) assms(3) by auto
    then have del: "rb_delete env (rbtree_expire d) a = filter (\<lambda>b. b \<noteq> a) (rbtree_expire d)"
      using assms(1) ex(1) by (simp add: nginx_ok_def delete_ok_def)
    have "sorted (map (timer_key d) (filter (\<lambda>b. b \<noteq> a) (rbtree_expire d)))" using ex(3) by (rule sorted_filter)
    then show ?thesis using ex False unfolding expire_ok_def unlink_expire_def by (auto simp: del)
  qed (use assms(2) in \<open>simp add: dict_inv_def expire_ok_def unlink_expire_def\<close>)
  ultimately show "dict_inv env live base {a} ?d" by (simp add: dict_inv_def)
qed

lemma link_expire:
  assumes "nginx_ok env live" "dict_inv env live base {a} d" "node_mem d a = Some n" "timeout d \<noteq> 0 \<longrightarrow> expire_key n < msec_limit"
  shows "dict_inv env live base {} (link_expire env d a)" "node_mem (link_expire env d a) = node_mem d"
    "same_config d (link_expire env d a)"
proof -
  let ?d = "link_expire env d a"
  show nm: "node_mem ?d = node_mem d" and sc: "same_config d ?d" by (simp_all add: link_expire_def same_config_def)
  have "tree_ok env ?d" using assms(2) unfolding dict_inv_def tree_ok_def link_expire_def by simp
  moreover have "mem_ok live base ?d"
    using mem_ok_cong[of ?d d live base] assms(2) by (simp add: link_expire_def dict_inv_def)
  moreover have "expire_ok {} ?d"
  proof (cases "timeout d = 0")
    case False
    have "expire_ok ({a} - {a}) ?d"
    proof (rule link_expire_ok[OF assms(1) _ False])
      show "rbtree_expire ?d = timer_insert env (timer_key ?d) (rbtree_expire d) a" using False by (simp add: link_expire_def)
      show "timer_key ?d a < msec_limit" using assms(3,4) False nm by (simp add: timer_key_def)
    qed (use assms(2,3) nm sc False in \<open>auto simp: dict_inv_def same_config_def\<close>)
    then show ?thesis by simp
  qed (use assms(2) in \<open>simp add: dict_inv_def expire_ok_def link_expire_def\<close>)
  ultimately show "dict_inv env live base {} ?d" by (simp add: dict_inv_def)
qed

lemma change_node:
  assumes "dict_inv env live base' {a} d" "node_mem d a = Some n" "node_mem d' = (node_mem d)(a := Some n')"
    "sn_key n' = sn_key n" "sn_str n' = sn_str n" "value_ok (dict_type d) (node_value n')"
    "rbtree d' = rbtree d" "rbtree_expire d' = rbtree_expire d" "same_config d d'" "mem_ok live base d'"
  shows "dict_inv env live base {a} d'"
proof -
  have k: "str_key d' = str_key d" using assms(2-5) by (auto simp: str_key_def fun_eq_iff)
  have dm: "dom (node_mem d') = dom (node_mem d)" using assms(2,3) by auto
  have ty: "dict_type d' = dict_type d" "timeout d' = timeout d" "evict d' = evict d" using assms(9) by (simp_all add: same_config_def)
  have "tree_ok env d'"
    using assms(1,2,4-7) ty unfolding dict_inv_def tree_ok_def k dm assms(3) by auto
  moreover have "expire_ok {a} d'"
  proof (cases "timeout d = 0")
    case False
    have t: "timer_key d' b = timer_key d b" if "b \<noteq> a" for b using that assms(3) by (simp add: timer_key_def)
    have "a \<notin> set (rbtree_expire d)" using assms(1) False by (simp add: dict_inv_def expire_ok_def)
    then have m: "map (timer_key d') (rbtree_expire d) = map (timer_key d) (rbtree_expire d)"
      by (intro map_cong refl t) auto
    have "\<forall>b \<in> dom (node_mem d) - {a}. timer_key d' b < msec_limit"
      using assms(1) False t by (simp add: dict_inv_def expire_ok_def)
    then show ?thesis using assms(1) False unfolding dict_inv_def expire_ok_def ty dm assms(8) m by simp
  qed (use assms(1,8) ty in \<open>simp add: dict_inv_def expire_ok_def\<close>)
  ultimately show ?thesis using assms(10) by (simp add: dict_inv_def)
qed

lemma swap_value_mem:
  assumes "nginx_ok env live" "mem_ok live (insert p base) d" "p \<notin> base" "node_mem d a = Some n" "dict_type d = NGX_JS_DICT_TYPE_STRING"
    "node_mem d' = (node_mem d)(a := Some n')" "value_data n' = p" "dict_type d' = dict_type d"
    "shpool d' = slab_free env (shpool d) (value_data n)"
  shows "mem_ok live base d'"
proof -
  have l: "live (shpool d) = insert p base \<union> blocks d" "insert p base \<inter> blocks d = {}" using assms(2) by (simp_all add: mem_ok_def)
  have own: "own_ok (dict_type d) (node_mem d)" using assms(2) by (simp add: mem_ok_def)
  have vn: "value_data n \<in> blocks d" using assms(4,5) by (auto simp: blocks_def ran_def)
  have vd: "value_data k \<noteq> value_data n" "value_data k \<notin> dom (node_mem d)" "value_data k \<noteq> p" if "node_mem d b = Some k" "b \<noteq> a" for b k
  proof -
    have "value_data k \<in> blocks d" using that assms(5) by (auto simp: blocks_def ran_def)
    then show "value_data k \<noteq> p" using l(2) by auto
    show "value_data k \<noteq> value_data n" "value_data k \<notin> dom (node_mem d)"
      using own that assms(4,5) unfolding own_ok_def by blast+
  qed
  have vnd: "value_data n \<notin> dom (node_mem d)" using own assms(4,5) unfolding own_ok_def by blast
  have pd: "p \<notin> dom (node_mem d)" using l(2) by (auto simp: blocks_def)
  have dm: "dom (node_mem d') = dom (node_mem d)" using assms(4,6) by auto
  let ?R = "{value_data k |b k. node_mem d b = Some k \<and> b \<noteq> a}"
  have "value_data ` ran (node_mem d') = insert p ?R" "value_data ` ran (node_mem d) = insert (value_data n) ?R"
    using assms(4,6,7) by (auto simp: ran_def split: if_splits) (metis option.inject)
  moreover have "value_data n \<notin> ?R" using vd(1) by force
  ultimately have b: "blocks d' = insert p (blocks d - {value_data n})"
    unfolding blocks_def dm assms(5,8) using vnd by auto
  have "live (shpool d') = live (shpool d) - {value_data n}"
    using assms(1) l(1) vn unfolding assms(9) by (simp add: nginx_ok_def slab_ok_def)
  then have "live (shpool d') = base \<union> blocks d'" "base \<inter> blocks d' = {}" unfolding b l(1) using l(2) vn assms(3) by auto
  moreover have "own_ok (dict_type d') (node_mem d')"
  proof -
    have 1: "value_data k \<notin> dom (node_mem d')" if "node_mem d' b = Some k" for b k
      using that vd pd assms(6,7) unfolding dm by (auto split: if_splits)
    have "b = c" if "node_mem d b = Some k" "node_mem d c = Some m" "value_data k = value_data m" for b c k m
      using that own assms(5) unfolding own_ok_def by blast
    then have "b = c" if "node_mem d' b = Some k" "node_mem d' c = Some m" "value_data k = value_data m" for b c k m
      using that vd(3) assms(6,7) by (metis fun_upd_apply option.inject)
    then show ?thesis using 1 unfolding own_ok_def by blast
  qed
  ultimately show ?thesis by (simp add: mem_ok_def)
qed

definition changed_node :: "('d, 'p) ngx_js_dict \<Rightarrow> 'd ngx_js_dict_value \<Rightarrow> uint64 \<Rightarrow> addr \<Rightarrow> 'd ngx_js_dict_node \<Rightarrow> 'd ngx_js_dict_node" where
  "changed_node d v e p n =
     n\<lparr>node_value := v, value_data := p, expire_key := (if timeout d \<noteq> 0 then e else expire_key n)\<rparr>"

lemma update_value:
  assumes "nginx_ok env live" "dict_inv env live base {} d" "node_mem d a = Some n"
    "value_ok (dict_type d) v" "timeout d \<noteq> 0 \<longrightarrow> now + tmo < msec_limit"
    "ngx_js_dict_update env d a v tmo now = (rc, d')"
  shows "dict_inv env live base {} d' \<and> same_config d d' \<and>
    (\<exists>m. m \<subseteq>\<^sub>m node_mem d \<and> (\<not> evict d \<longrightarrow> m = node_mem d) \<and> m a = Some n \<and>
     (case rc of
       NGX_OK \<Rightarrow> \<exists>p. node_mem d' = m(a := Some (changed_node d v (now + tmo) p n))
     | NGX_ERROR \<Rightarrow> node_mem d' = m
     | _ \<Rightarrow> False))"
proof -
  let ?u = "unlink_expire env d a"
  note u = unlink_expire[OF assms(1-3)]
  have lim: "timeout d \<noteq> 0 \<longrightarrow> expire_key n < msec_limit"
  proof
    assume "timeout d \<noteq> 0"
    then have "timer_key d a < msec_limit" using assms(2,3) by (auto simp: dict_inv_def expire_ok_def)
    then show "expire_key n < msec_limit" using assms(3) by (simp add: timer_key_def)
  qed
  have cu: "timeout ?u = timeout d" "dict_type ?u = dict_type d" "evict ?u = evict d" using u(3) by (simp_all add: same_config_def)
  show ?thesis
  proof (cases v)
    case (dict_number x)
    then have ty: "dict_type d = NGX_JS_DICT_TYPE_NUMBER" using assms(4) by (simp add: value_ok_def)
    let ?n = "changed_node d v (now + tmo) (value_data n) n"
    let ?d = "set_expire (write_node ?u a (\<lambda>n. n\<lparr>node_value := v\<rparr>)) a (now + tmo)"
    have nm: "node_mem ?d = (node_mem d)(a := Some ?n)"
      using u(2) assms(3) cu by (simp add: set_expire_def write_node_def changed_node_def)
    have sc: "same_config ?u ?d" "rbtree ?d = rbtree ?u" "rbtree_expire ?d = rbtree_expire ?u" "shpool ?d = shpool ?u"
      by (simp_all add: set_expire_def write_node_def same_config_def)
    have "mem_ok live base ?d"
    proof -
      have "blocks ?d = blocks ?u" using nm u(2) sc(1) ty cu(2) assms(3) by (auto simp: blocks_def same_config_def)
      then show ?thesis using u(1) sc ty cu(2) by (simp add: dict_inv_def mem_ok_def own_ok_def same_config_def)
    qed
    then have i: "dict_inv env live base {a} ?d"
      using change_node[OF u(1), of n ?d ?n base] u(2) nm sc assms(3,4) cu by (simp add: changed_node_def)
    note le = link_expire[OF assms(1) i, of ?n]
    have r: "d' = link_expire env ?d a" "rc = NGX_OK" using assms(6) dict_number by (simp_all add: ngx_js_dict_update_def Let_def)
    have e: "timeout ?d \<noteq> 0 \<longrightarrow> expire_key ?n < msec_limit" using sc(1) cu assms(5) by (simp add: changed_node_def same_config_def)
    have "same_config d d'" using same_config_trans[OF u(3) same_config_trans[OF sc(1)]] le(3) nm e r by simp
    then show ?thesis using le nm e r assms(3) by (auto intro!: exI[of _ "node_mem d"])
  next
    case (dict_str s)
    then have ty: "dict_type d = NGX_JS_DICT_TYPE_STRING" using assms(4) by (simp add: value_ok_def)
    obtain r2 d2 where al: "ngx_js_dict_alloc env ?u (length s) = (r2, d2)" by (metis surj_pair)
    note a2 = dict_alloc(1)[OF assms(1) u(1), of "length s", unfolded al]
    have sh: "shrunk ?u d2" using a2 by (simp add: allocated_def)
    have le2: "node_mem d2 \<subseteq>\<^sub>m node_mem d" "\<not> evict d \<longrightarrow> node_mem d2 = node_mem d" using sh u(2) cu by (simp_all add: shrunk_def)
    have "a \<in> dom (node_mem d2)" using a2 assms(3) u(2) by (auto simp: allocated_def)
    then have na: "node_mem d2 a = Some n" using le2(1) assms(3) by (simp add: map_le_def)
    have sc2: "same_config d d2" using same_config_trans[OF u(3)] sh by (simp add: shrunk_def)
    then have c2: "timeout d2 = timeout d" "dict_type d2 = dict_type d" by (simp_all add: same_config_def)
    show ?thesis
    proof (cases r2)
      case None
      then have i2: "dict_inv env live base {a} d2" using a2 by (simp add: allocated_def)
      note le = link_expire[OF assms(1) i2 na]
      have r: "d' = link_expire env d2 a" "rc = NGX_ERROR" using assms(6) dict_str None al by (simp_all add: ngx_js_dict_update_def Let_def)
      then show ?thesis using le lim c2 le2 na same_config_trans[OF sc2] by (auto intro!: exI[of _ "node_mem d2"])
    next
      case (Some p)
      then have i2: "dict_inv env live (insert p base) {a} d2" "p \<notin> base" using a2 by (simp_all add: allocated_def)
      let ?n = "changed_node d v (now + tmo) p n"
      let ?d = "set_expire (write_node (d2\<lparr>shpool := slab_free env (shpool d2) (value_data n)\<rparr>) a
          (\<lambda>n. n\<lparr>node_value := v, value_data := p\<rparr>)) a (now + tmo)"
      have nm: "node_mem ?d = (node_mem d2)(a := Some ?n)"
        using na c2 by (simp add: set_expire_def write_node_def changed_node_def)
      have sc: "same_config d2 ?d" "rbtree ?d = rbtree d2" "rbtree_expire ?d = rbtree_expire d2"
          "shpool ?d = slab_free env (shpool d2) (value_data n)"
        by (simp_all add: set_expire_def write_node_def same_config_def)
      have "mem_ok live base ?d"
        by (rule swap_value_mem[OF assms(1) _ i2(2) na _ nm _ _ sc(4)])
           (use i2(1) ty c2 sc(1) in \<open>simp_all add: dict_inv_def changed_node_def same_config_def\<close>)
      then have i: "dict_inv env live base {a} ?d"
        using change_node[OF i2(1) na nm] sc assms(4) c2 by (simp add: changed_node_def)
      note le = link_expire[OF assms(1) i, of ?n]
      have r: "d' = link_expire env ?d a" "rc = NGX_OK" using assms(6) dict_str Some al na by (simp_all add: ngx_js_dict_update_def Let_def)
      have e: "timeout ?d \<noteq> 0 \<longrightarrow> expire_key ?n < msec_limit" using sc(1) c2 assms(5) by (simp add: changed_node_def same_config_def)
      have "same_config d d'" using same_config_trans[OF sc2 same_config_trans[OF sc(1)]] le(3) nm e r by simp
      then show ?thesis using le nm e r na le2 by (auto intro!: exI[of _ "node_mem d2"])
    qed
  qed
qed

end
