(* ===== verification/Ngx_Js_Dict_Props.thy ===== *)
theory Ngx_Js_Dict_Props
  imports Ngx_Js_Dict_Inv
begin

section \<open>The operations of a shared dictionary\<close>

text \<open>
  The map from keys to values that a script sees at a time (\<open>visible\<close>) and what every operation
  of \<open>src/nginx/ngx_js_shared_dict.c\<close> does to it; the invariant, the locks and the memory are
  accounted for on every path.
\<close>

subsection \<open>The dictionary a script sees\<close>

text \<open>
  The abstraction: what the keys hold with its expiry, and what is still visible of it at a time.
\<close>

definition contents :: "('d, 'p) ngx_js_dict \<Rightarrow> ngx_str \<Rightarrow> ('d ngx_js_dict_value \<times> uint64) option" where
  "contents d key =
     (case List.find (\<lambda>a. snd (str_key d a) = key) (rbtree d) of
        None \<Rightarrow> None
      | Some a \<Rightarrow> map_option (\<lambda>n. (node_value n, expire_key n)) (node_mem d a))"

definition visible :: "('d, 'p) ngx_js_dict \<Rightarrow> uint64 \<Rightarrow> ngx_str \<Rightarrow> 'd ngx_js_dict_value option" where
  "visible d now key =
     (case contents d key of
        None \<Rightarrow> None
      | Some (v, e) \<Rightarrow> if timeout d \<noteq> 0 \<and> e \<le> now then None else Some v)"

lemma contents_node:
  assumes "tree_ok env d" "node_mem d a = Some n"
  shows "contents d (sn_str n) = Some (node_value n, expire_key n)"
proof -
  have a: "a \<in> set (rbtree d)" "snd (str_key d a) = sn_str n"
    using assms str_key_node[OF assms] by (auto simp: tree_ok_def)
  then obtain b where b: "List.find (\<lambda>a. snd (str_key d a) = sn_str n) (rbtree d) = Some b"
    by (metis (mono_tags, lifting) find_None_iff_set not_Some_eq)
  then have "b \<in> set (rbtree d)" "snd (str_key d b) = sn_str n" by (auto simp: find_Some_iff)
  moreover then obtain m where m: "node_mem d b = Some m" using assms(1) by (auto simp: tree_ok_def)
  ultimately have "a = b" using key_unique[OF assms m] str_key_node[OF assms(1) m] by simp
  then show ?thesis using b assms(2) by (simp add: contents_def)
qed

lemma contents_iff:
  assumes "tree_ok env d"
  shows "contents d k = Some (v, e) \<longleftrightarrow> (\<exists>a n. node_mem d a = Some n \<and> sn_str n = k \<and> node_value n = v \<and> expire_key n = e)"
proof
  assume "contents d k = Some (v, e)"
  then obtain a n where a: "List.find (\<lambda>a. snd (str_key d a) = k) (rbtree d) = Some a" "node_mem d a = Some n"
      "node_value n = v" "expire_key n = e"
    by (auto simp: contents_def split: option.splits)
  then have "snd (str_key d a) = k" by (auto simp: find_Some_iff)
  then show "\<exists>a n. node_mem d a = Some n \<and> sn_str n = k \<and> node_value n = v \<and> expire_key n = e"
    using a str_key_node[OF assms a(2)] by auto
qed (use contents_node[OF assms] in auto)

definition vis :: "uint64 \<Rightarrow> (addr \<Rightarrow> 'd ngx_js_dict_node option) \<Rightarrow> uint64 \<Rightarrow> ngx_str \<Rightarrow> 'd ngx_js_dict_value \<Rightarrow> bool" where
  "vis tm m t k w \<longleftrightarrow> (\<exists>a n. m a = Some n \<and> sn_str n = k \<and> node_value n = w \<and> (tm = 0 \<or> t < expire_key n))"

lemma visible_iff:
  assumes "tree_ok env d"
  shows "visible d t k = Some w \<longleftrightarrow> vis (timeout d) (node_mem d) t k w"
proof -
  have "visible d t k = Some w \<longleftrightarrow> (\<exists>e. contents d k = Some (w, e) \<and> (timeout d = 0 \<or> t < e))"
    by (auto simp: visible_def not_le split: option.splits if_splits)
  then show ?thesis using contents_iff[OF assms] by (auto simp: vis_def)
qed

lemma option_ext: "(\<And>w. x = Some w \<longleftrightarrow> y = Some w) \<Longrightarrow> x = y"
  by (cases x; cases y) auto

lemma contents_None: "tree_ok env d \<Longrightarrow> contents d k = None \<longleftrightarrow> (\<forall>a n. node_mem d a = Some n \<longrightarrow> sn_str n \<noteq> k)"
  using contents_iff[of env d k] by (metis (no_types, lifting) not_None_eq surj_pair)

lemma vis_alive:
  assumes "now \<le> t" "kept d now m"
  shows "vis (timeout d) m t k w \<Longrightarrow> vis (timeout d) (node_mem d) t k w"
    "\<not> evict d \<Longrightarrow> vis (timeout d) (node_mem d) t k w \<Longrightarrow> vis (timeout d) m t k w"
proof -
  show "vis (timeout d) m t k w \<Longrightarrow> vis (timeout d) (node_mem d) t k w"
    using kept_sub[OF assms(2)] unfolding vis_def by blast
  assume e: "\<not> evict d" "vis (timeout d) (node_mem d) t k w"
  then obtain a n where n: "node_mem d a = Some n" "sn_str n = k" "node_value n = w" "timeout d = 0 \<or> t < expire_key n"
    by (auto simp: vis_def)
  then have "\<not> expired d now a" using assms(1) by (auto simp: expired_def timer_key_def)
  then have "m a = Some n" using assms(2) e(1) n(1) by (simp add: kept_def alive_def)
  then show "vis (timeout d) m t k w" using n unfolding vis_def by blast
qed

subsection \<open>What the operations do to it\<close>

lemma get_visible:
  assumes "nginx_ok env live" "dict_inv env live base {} d"
  shows "ngx_js_dict_get env copy_ok d key now =
    (if dict_type d = NGX_JS_DICT_TYPE_STRING \<and> \<not> copy_ok \<and> visible d now key \<noteq> None then (NGX_ERROR, None, unlock d)
     else (NGX_OK, visible d now key, unlock d))"
proof -
  have t: "tree_ok env d" using assms(2) by (simp add: dict_inv_def)
  have lk: "ngx_js_dict_lookup env (rlock d) key = ngx_js_dict_lookup env d key"
    by (simp add: ngx_js_dict_lookup_def rlock_def)
  have ul: "unlock (rlock d) = unlock d" by (simp add: rlock_def unlock_def)
  show ?thesis
  proof (cases "ngx_js_dict_lookup env d key")
    case None
    then have "contents d key = None" using lookup_None[OF assms(1) t] contents_None[OF t] by blast
    then show ?thesis using None lk ul by (simp add: ngx_js_dict_get_def visible_def Let_def)
  next
    case (Some a)
    then obtain n where n: "node_mem d a = Some n" "sn_str n = key" using lookup_Some[OF assms(1) t] by blast
    have "contents d key = Some (node_value n, expire_key n)" using contents_node[OF t n(1)] n(2) by simp
    then show ?thesis using Some lk ul n
      by (auto simp: ngx_js_dict_get_def visible_def Let_def expired_def timer_key_def node_value_at_def rlock_def unlock_def)
  qed
qed

text \<open>
  The effect of a change on what is visible: \<open>w\<close> without eviction, and with it \<open>w\<close> less other keys.
\<close>

definition changed_to ::
    "('d, 'p) ngx_js_dict \<Rightarrow> ('d, 'p) ngx_js_dict \<Rightarrow> uint64 \<Rightarrow> ngx_str \<Rightarrow> (ngx_str \<Rightarrow> 'd ngx_js_dict_value option) \<Rightarrow> bool" where
  "changed_to d d' t key w \<longleftrightarrow>
     visible d' t key = w key \<and> visible d' t \<subseteq>\<^sub>m w \<and> (\<not> evict d \<longrightarrow> visible d' t = w)"

lemma changed_toI:
  assumes "\<And>v. visible d' t key = Some v \<longleftrightarrow> w key = Some v"
    "\<And>k v. k \<noteq> key \<Longrightarrow> visible d' t k = Some v \<Longrightarrow> w k = Some v"
    "\<And>k v. k \<noteq> key \<Longrightarrow> \<not> evict d \<Longrightarrow> w k = Some v \<Longrightarrow> visible d' t k = Some v"
  shows "changed_to d d' t key w"
proof -
  have k: "visible d' t key = w key" using assms(1) by (rule option_ext)
  have "visible d' t k' = w k'" if "\<not> evict d" for k'
  proof (cases "k' = key")
    case False
    then show ?thesis using assms(2,3) that by (intro option_ext) blast
  qed (use k in simp)
  moreover have "visible d' t \<subseteq>\<^sub>m w"
  proof (unfold map_le_def, intro ballI)
    fix k' assume "k' \<in> dom (visible d' t)"
    then show "visible d' t k' = w k'" using k assms(2) by (cases "k' = key") auto
  qed
  ultimately show ?thesis using k by (auto simp: changed_to_def)
qed

lemma inv_lock [simp]:
  "dict_inv env live base out (d\<lparr>rwlock := l\<rparr>) = dict_inv env live base out d"
  "dict_inv env live base out (d\<lparr>dirty := b\<rparr>) = dict_inv env live base out d"
  "dict_inv env live base out (d\<lparr>timer_set := b\<rparr>) = dict_inv env live base out d"
  by (simp_all add: dict_inv_def tree_ok_def expire_ok_def mem_ok_def blocks_def)

lemma visible_lock [simp]:
  "visible (d\<lparr>rwlock := l\<rparr>) = visible d" "visible (d\<lparr>dirty := b\<rparr>) = visible d" "visible (d\<lparr>timer_set := b\<rparr>) = visible d"
  by (simp_all add: fun_eq_iff visible_def contents_def cong: option.case_cong)

lemma inv_locks [simp]:
  "dict_inv env live base out (wlock d) = dict_inv env live base out d"
  "dict_inv env live base out (unlock d) = dict_inv env live base out d"
  "dict_inv env live base out (rlock d) = dict_inv env live base out d"
  "dict_inv env live base out (finish_write d) = dict_inv env live base out d"
  "visible (wlock d) = visible d" "visible (unlock d) = visible d" "visible (rlock d) = visible d" "visible (finish_write d) = visible d"
  "rwlock (unlock d) = Unlocked" "rwlock (finish_write d) = Unlocked"
  by (simp_all add: wlock_def unlock_def rlock_def finish_write_def Let_def)

lemma wlock_same [simp]:
  "node_mem (wlock d) = node_mem d" "timeout (wlock d) = timeout d" "evict (wlock d) = evict d" "dict_type (wlock d) = dict_type d"
  "expired (wlock d) = expired d" "ngx_js_dict_lookup env (wlock d) = ngx_js_dict_lookup env d" "kept (wlock d) = kept d"
  by (simp_all add: wlock_def expired_def ngx_js_dict_lookup_def fun_eq_iff kept_def alive_def)

definition set_visible ::
    "('d, 'p) ngx_js_dict \<Rightarrow> uint64 \<Rightarrow> ngx_str \<Rightarrow> 'd ngx_js_dict_value \<Rightarrow> uint64 \<Rightarrow> ngx_str \<Rightarrow> 'd ngx_js_dict_value option" where
  "set_visible d t key v e = (visible d t)(key := if timeout d = 0 \<or> t < e then Some v else None)"

lemma inv_tree: "dict_inv env live base out d \<Longrightarrow> tree_ok env d" by (simp add: dict_inv_def)

lemma vis_upd:
  assumes "vis tm (m(a := Some n')) t k w" "sn_str n' = key"
  shows "k = key \<and> w = node_value n' \<and> (tm = 0 \<or> t < expire_key n') \<or> (\<exists>b n. b \<noteq> a \<and> m b = Some n \<and> sn_str n = k \<and> node_value n = w \<and> (tm = 0 \<or> t < expire_key n))"
  using assms unfolding vis_def by (metis fun_upd_apply option.inject)

lemma add_changed:
  assumes "nginx_ok env live" "dict_inv env live base {} d" "contents d key = None"
    "value_ok (dict_type d) v" "timeout d \<noteq> 0 \<longrightarrow> now + tmo < msec_limit" "now \<le> t"
    "ngx_js_dict_add_value env d key v tmo now = (rc, d')"
  shows "dict_inv env live base {} d' \<and> same_config d d' \<and>
    (rc = NGX_OK \<and> changed_to d d' t key (set_visible d t key v (now + tmo)) \<or> rc = NGX_ERROR \<and> changed_to d d' t key (visible d t))"
proof -
  have tr: "tree_ok env d" using assms(2) by (rule inv_tree)
  have fresh: "\<forall>b n. node_mem d b = Some n \<longrightarrow> sn_str n \<noteq> key" using contents_None[OF tr] assms(3) by blast
  note av = add_value[OF assms(1,2) fresh assms(4,5,7)]
  then have tr': "tree_ok env d'" and tm: "timeout d' = timeout d" by (auto simp: same_config_def intro: inv_tree)
  have nk: "\<not> vis (timeout d) (node_mem d) t key w" for w using fresh by (auto simp: vis_def)
  note vd = visible_iff[OF tr, of t] and vd' = visible_iff[OF tr', of t, unfolded tm]
  from av consider (ok) "rc = NGX_OK" | (err) "rc = NGX_ERROR" by (cases rc) auto
  then show ?thesis
  proof cases
    case ok
    then obtain a p m where m: "kept d now m" "a \<notin> dom m" "node_mem d' = m(a := Some (new_node env d key v (now + tmo) p))"
      using av by auto
    let ?n = "new_node env d key v (now + tmo) p"
    have n: "sn_str ?n = key" "node_value ?n = v" "timeout d \<noteq> 0 \<longrightarrow> expire_key ?n = now + tmo" by (simp_all add: new_node_def)
    have old: "vis (timeout d) (node_mem d') t k w \<longleftrightarrow> vis (timeout d) m t k w" if "k \<noteq> key" for k w
      using that n(1) m(2,3) unfolding vis_def by (metis domI fun_upd_apply option.inject)
    have new: "vis (timeout d) (node_mem d') t key w \<longleftrightarrow> w = v \<and> (timeout d = 0 \<or> t < now + tmo)" for w
    proof
      assume "vis (timeout d) (node_mem d') t key w"
      from vis_upd[OF this[unfolded m(3)] n(1)] show "w = v \<and> (timeout d = 0 \<or> t < now + tmo)"
        using n fresh kept_sub[OF m(1)] by metis
    next
      assume "w = v \<and> (timeout d = 0 \<or> t < now + tmo)"
      then show "vis (timeout d) (node_mem d') t key w" unfolding vis_def m(3) using n by (metis fun_upd_same)
    qed
    have "changed_to d d' t key (set_visible d t key v (now + tmo))"
    proof (rule changed_toI)
      show "visible d' t key = Some w \<longleftrightarrow> set_visible d t key v (now + tmo) key = Some w" for w
        using new vd' by (auto simp: set_visible_def)
      show "set_visible d t key v (now + tmo) k = Some w" if "k \<noteq> key" "visible d' t k = Some w" for k w
        using that old vd vd' vis_alive(1)[OF assms(6) m(1)] by (simp add: set_visible_def)
      show "visible d' t k = Some w" if "k \<noteq> key" "\<not> evict d" "set_visible d t key v (now + tmo) k = Some w" for k w
        using that old vd vd' vis_alive(2)[OF assms(6) m(1)] by (simp add: set_visible_def)
    qed
    then show ?thesis using av ok by simp
  next
    case err
    then have m: "kept d now (node_mem d')" using av by simp
    have "changed_to d d' t key (visible d t)"
    proof (rule changed_toI)
      show "visible d' t key = Some w \<longleftrightarrow> visible d t key = Some w" for w
        using vd vd' vis_alive(1)[OF assms(6) m] nk by blast
    qed (use vd vd' vis_alive[OF assms(6) m] in blast)+
    then show ?thesis using av err by simp
  qed
qed

lemma update_changed:
  assumes "nginx_ok env live" "dict_inv env live base {} d" "node_mem d a = Some n" "sn_str n = key"
    "value_ok (dict_type d) v" "timeout d \<noteq> 0 \<longrightarrow> now + tmo < msec_limit"
    "ngx_js_dict_update env d a v tmo now = (rc, d')"
  shows "dict_inv env live base {} d' \<and> same_config d d' \<and>
    (rc = NGX_OK \<and> changed_to d d' t key (set_visible d t key v (now + tmo)) \<or> rc = NGX_ERROR \<and> changed_to d d' t key (visible d t))"
proof -
  have tr: "tree_ok env d" using assms(2) by (rule inv_tree)
  note uv = update_value[OF assms(1-3,5-7)]
  then have tr': "tree_ok env d'" and tm: "timeout d' = timeout d" by (auto simp: same_config_def intro: inv_tree)
  obtain m where m: "m \<subseteq>\<^sub>m node_mem d" "\<not> evict d \<longrightarrow> m = node_mem d" "m a = Some n"
    "case rc of NGX_OK \<Rightarrow> \<exists>p. node_mem d' = m(a := Some (changed_node d v (now + tmo) p n)) | NGX_ERROR \<Rightarrow> node_mem d' = m | _ \<Rightarrow> False"
    using uv by auto
  have sub: "node_mem d b = Some k" if "m b = Some k" for b k using m(1) that by (metis domI map_le_def)
  have ka: "b = a" if "node_mem d b = Some k" "sn_str k = key" for b k
    using key_unique[OF tr that(1) assms(3)] that(2) assms(4) by simp
  note vd = visible_iff[OF tr, of t] and vd' = visible_iff[OF tr', of t, unfolded tm]
  have up: "vis (timeout d) m t k w \<Longrightarrow> vis (timeout d) (node_mem d) t k w" for k w using sub unfolding vis_def by blast
  from m(4) consider (ok) p where "rc = NGX_OK" "node_mem d' = m(a := Some (changed_node d v (now + tmo) p n))"
    | (err) "rc = NGX_ERROR" "node_mem d' = m" by (cases rc) auto
  then show ?thesis
  proof cases
    case ok
    let ?n = "changed_node d v (now + tmo) p n"
    have n: "sn_str ?n = key" "node_value ?n = v" "timeout d \<noteq> 0 \<longrightarrow> expire_key ?n = now + tmo"
      using assms(4) by (simp_all add: changed_node_def)
    have old: "vis (timeout d) (node_mem d') t k w \<longleftrightarrow> vis (timeout d) m t k w" if "k \<noteq> key" for k w
      using that n(1) m(3) ok(2) assms(4) unfolding vis_def by (metis fun_upd_apply option.inject)
    have new: "vis (timeout d) (node_mem d') t key w \<longleftrightarrow> w = v \<and> (timeout d = 0 \<or> t < now + tmo)" for w
    proof
      assume "vis (timeout d) (node_mem d') t key w"
      from vis_upd[OF this[unfolded ok(2)] n(1)] show "w = v \<and> (timeout d = 0 \<or> t < now + tmo)"
        using n ka sub by metis
    next
      assume "w = v \<and> (timeout d = 0 \<or> t < now + tmo)"
      then show "vis (timeout d) (node_mem d') t key w" unfolding vis_def ok(2) using n by (metis fun_upd_same)
    qed
    have "changed_to d d' t key (set_visible d t key v (now + tmo))"
    proof (rule changed_toI)
      show "visible d' t key = Some w \<longleftrightarrow> set_visible d t key v (now + tmo) key = Some w" for w
        using new vd' by (auto simp: set_visible_def)
      show "set_visible d t key v (now + tmo) k = Some w" if "k \<noteq> key" "visible d' t k = Some w" for k w
        using that old vd vd' up by (simp add: set_visible_def)
      show "visible d' t k = Some w" if "k \<noteq> key" "\<not> evict d" "set_visible d t key v (now + tmo) k = Some w" for k w
        using that old vd vd' m(2) by (simp add: set_visible_def)
    qed
    then show ?thesis using uv ok(1) by simp
  next
    case err
    have "changed_to d d' t key (visible d t)"
    proof (rule changed_toI)
      have "vis (timeout d) m t key w" if "vis (timeout d) (node_mem d) t key w" for w
        using that ka m(3) assms(3) unfolding vis_def by (metis option.inject)
      then show "visible d' t key = Some w \<longleftrightarrow> visible d t key = Some w" for w
        using vd vd' up err(2) by blast
    qed (use vd vd' up m(2) err(2) in auto)
    then show ?thesis using uv err(1) by simp
  qed
qed

text \<open>
  C2. Setting a key of a shared dictionary, in its three forms: \<open>replace\<close> is declined exactly when
  the key has no node, \<open>add\<close> exactly when the key is visible.  In every case the invariant of trees and memory is
  kept and the lock released.  On success the key is visible with the new value until its new
  expiry and the other keys are as before; a failure, which is for lack of memory, leaves the key
  itself as it was.  Only in a zone with eviction may other keys be lost.
\<close>

theorem dict_set_correct:
  assumes "nginx_ok env live" "dict_inv env live base {} d" "value_ok (dict_type d) v"
    "timeout d \<noteq> 0 \<longrightarrow> now + tmo < msec_limit" "now \<le> t"
    "ngx_js_dict_set env d key v tmo flags now = (rc, d')"
  shows "dict_inv env live base {} d' \<and> rwlock d' = Unlocked \<and>
    (rc = NGX_DECLINED \<longleftrightarrow>
       flags = MUST_EXIST \<and> contents d key = None \<or> flags = MUST_NOT_EXIST \<and> visible d now key \<noteq> None) \<and>
    (rc = NGX_OK \<and> changed_to d d' t key (set_visible d t key v (now + tmo)) \<or>
     rc = NGX_ERROR \<and> changed_to d d' t key (visible d t) \<or>
     rc = NGX_DECLINED \<and> visible d' = visible d)"
proof -
  have tr: "tree_ok env d" using assms(2) by (rule inv_tree)
  let ?d = "wlock d"
  have i: "dict_inv env live base {} ?d" "value_ok (dict_type ?d) v" "timeout ?d \<noteq> 0 \<longrightarrow> now + tmo < msec_limit" using assms(2-4) by simp_all
  have ct: "changed_to ?d e t key = changed_to d e t key" "set_visible ?d = set_visible d" for e
    by (simp_all add: changed_to_def set_visible_def fun_eq_iff)
  have un: "changed_to d (unlock e) t key w = changed_to d e t key w" "changed_to d (finish_write e) t key w = changed_to d e t key w" for e w
    by (simp_all add: changed_to_def)
  show ?thesis
  proof (cases "ngx_js_dict_lookup env d key")
    case None
    then have c: "contents d key = None" using lookup_None[OF assms(1) tr] contents_None[OF tr] by blast
    then have c': "contents ?d key = None" by (simp add: contents_def wlock_def cong: option.case_cong)
    have v: "visible d now key = None" using c by (simp add: visible_def)
    show ?thesis
    proof (cases "flags = MUST_EXIST")
      case False
      obtain r e where a: "ngx_js_dict_add_value env ?d key v tmo now = (r, e)" by (metis surj_pair)
      note ac = add_changed[OF assms(1) i(1) c' i(2,3) assms(5) a, unfolded ct]
      then have r: "(rc, d') = (if r \<noteq> NGX_OK then (NGX_ERROR, unlock e) else (NGX_OK, finish_write e))"
        using assms(6) None False a by (simp add: ngx_js_dict_set_def)
      show ?thesis
      proof (cases "r = NGX_OK")
        case True
        then show ?thesis using ac r False v un by simp
      next
        case f: False
        then show ?thesis using ac r False v un by simp
      qed
    qed (use assms(2,6) None c v in \<open>auto simp: ngx_js_dict_set_def Let_def\<close>)
  next
    case (Some a)
    then obtain n where n: "node_mem d a = Some n" "sn_str n = key" using lookup_Some[OF assms(1) tr] by blast
    have c: "contents d key = Some (node_value n, expire_key n)" using contents_node[OF tr n(1)] n(2) by simp
    have ex: "expired d now a \<longleftrightarrow> visible d now key = None"
      using n c by (simp add: expired_def timer_key_def visible_def)
    show ?thesis
    proof (cases "flags = MUST_NOT_EXIST \<and> \<not> expired d now a")
      case True
      then show ?thesis using assms(2,6) Some c ex by (auto simp: ngx_js_dict_set_def Let_def)
    next
      case False
      obtain r e where a: "ngx_js_dict_update env ?d a v tmo now = (r, e)" by (metis surj_pair)
      note uc = update_changed[OF assms(1) i(1) _ n(2) i(2,3) a, unfolded ct, simplified, OF n(1), where t = t]
      then have r: "(rc, d') = (if r \<noteq> NGX_OK then (NGX_ERROR, unlock e) else (NGX_OK, finish_write e))"
        using assms(6) Some False a by (simp add: ngx_js_dict_set_def)
      show ?thesis
      proof (cases "r = NGX_OK")
        case True
        then show ?thesis using uc r False c ex un ct by simp
      next
        case f: False
        then show ?thesis using uc r False c ex un ct by simp
      qed
    qed
  qed
qed

subsection \<open>Removal\<close>

lemma delete_node:
  assumes "nginx_ok env live" "dict_inv env live base {} d" "node_mem d a = Some n"
    "d1 = (unlink_expire env d a)\<lparr>rbtree := rb_delete env (rbtree (unlink_expire env d a)) a\<rparr>"
  shows "dict_inv env live base {} (ngx_js_dict_node_free env d1 a)"
    "node_mem (ngx_js_dict_node_free env d1 a) = (node_mem d)(a := None)"
    "same_config d (ngx_js_dict_node_free env d1 a)" "node_mem d1 = node_mem d" "same_config d d1"
proof -
  let ?u = "unlink_expire env d a" and ?f = "ngx_js_dict_node_free env d1 a"
  note u = unlink_expire[OF assms(1-3)]
  have rb: "rbtree ?u = rbtree d" by (simp add: unlink_expire_def)
  have tr: "tree_ok env d" using assms(2) by (rule inv_tree)
  then have "distinct (rbtree d)" "a \<in> set (rbtree d)" using assms(3) by (auto simp: tree_ok_def)
  then have del: "rbtree d1 = filter (\<lambda>b. b \<noteq> a) (rbtree d)" using assms(1) rb by (simp add: assms(4) nginx_ok_def delete_ok_def)
  show nm1: "node_mem d1 = node_mem d" and sc1: "same_config d d1" using u by (simp_all add: assms(4) same_config_def)
  have mo: "mem_ok live base d1" using u(1) mem_ok_cong[of d1 ?u live base] by (simp add: assms(4) dict_inv_def)
  have sl: "slab_ok env live" using assms(1) by (simp add: nginx_ok_def)
  note f = free_node_mem[OF sl mo, unfolded nm1, OF assms(3)]
  show nm: "node_mem ?f = (node_mem d)(a := None)" by (rule f(2))
  show sc: "same_config d ?f" by (rule same_config_trans[OF sc1 f(3)])
  have "tree_ok env ?f"
    by (rule tree_ok_remove[OF tr nm]) (use f(4) del sc in \<open>simp_all add: same_config_def\<close>)
  moreover have "expire_ok {} ?f"
  proof (cases "timeout d = 0")
    case True
    then show ?thesis using u(1,3) f(5) sc by (simp add: expire_ok_def dict_inv_def assms(4) same_config_def)
  next
    case False
    have re: "rbtree_expire ?f = rbtree_expire ?u" using f(5) by (simp add: assms(4))
    have ex: "distinct (rbtree_expire ?u)" "set (rbtree_expire ?u) = dom (node_mem d) - {a}"
      "sorted (map (timer_key ?u) (rbtree_expire ?u))" "\<forall>b \<in> dom (node_mem d) - {a}. timer_key ?u b < msec_limit"
      using u False by (auto simp: dict_inv_def expire_ok_def same_config_def)
    have t: "timer_key ?f b = timer_key ?u b" if "b \<noteq> a" for b using that nm u(2) by (simp add: timer_key_def)
    have m: "map (timer_key ?f) (rbtree_expire ?u) = map (timer_key ?u) (rbtree_expire ?u)"
      using ex(2) by (intro map_cong refl t) auto
    have "\<forall>b \<in> dom (node_mem ?f). timer_key ?f b < msec_limit" using ex(4) t nm by simp
    then show ?thesis using ex False sc nm unfolding expire_ok_def same_config_def re m by simp
  qed
  moreover have "mem_ok live base ?f" by (rule f(1))
  ultimately show "dict_inv env live base {} ?f" by (simp add: dict_inv_def)
qed

lemma visible_remove:
  assumes "tree_ok env d" "tree_ok env d'" "node_mem d' = (node_mem d)(a := None)" "node_mem d a = Some n" "timeout d' = timeout d"
  shows "visible d' t = (visible d t)(sn_str n := None)"
proof (rule ext, rule option_ext)
  fix k w
  have "vis (timeout d) (node_mem d') t k w \<longleftrightarrow> k \<noteq> sn_str n \<and> vis (timeout d) (node_mem d) t k w"
  proof (cases "k = sn_str n")
    case True
    have "\<not> (b \<noteq> a \<and> node_mem d b = Some m \<and> sn_str m = k)" for b m
      using key_unique[OF assms(1) _ assms(4)] True by blast
    then show ?thesis using True assms(3) unfolding vis_def by (auto split: if_splits)
  next
    case False
    have e: "node_mem d' b = Some m \<and> sn_str m = k \<longleftrightarrow> node_mem d b = Some m \<and> sn_str m = k" for b m
      using assms(3,4) False by auto
    have "vis (timeout d) (node_mem d') t k w \<longleftrightarrow> vis (timeout d) (node_mem d) t k w"
      unfolding vis_def conj_assoc[symmetric] e ..
    then show ?thesis using False by simp
  qed
  then show "visible d' t k = Some w \<longleftrightarrow> ((visible d t)(sn_str n := None)) k = Some w"
    using visible_iff[OF assms(1), of t k w] visible_iff[OF assms(2), of t k w] assms(5) by auto
qed

text \<open>
  \<open>delete\<close> and \<open>pop\<close>: afterwards the key has no node, no other key has changed at any time,
  the node and its string are freed and the lock is released.  \<open>delete\<close> succeeds exactly
  when the key had a node, \<open>pop\<close> answers the value visible at the time.
\<close>

theorem dict_delete_correct:
  assumes "nginx_ok env live" "dict_inv env live base {} d" "ngx_js_dict_delete env copy_ok d key want now = (rc, v, d')"
  shows "dict_inv env live base {} d' \<and> rwlock d' = Unlocked \<and> contents d' key = None \<and>
    visible d' t = (visible d t)(key := None) \<and>
    (if want
     then v = (if rc = NGX_OK then visible d now key else None) \<and> (rc = NGX_DECLINED \<longleftrightarrow> visible d now key = None) \<and>
       (rc = NGX_ERROR \<longrightarrow> \<not> copy_ok)
     else v = None \<and> rc = (if contents d key = None then NGX_DECLINED else NGX_OK))"
proof -
  let ?d = "wlock d"
  have tr: "tree_ok env d" using assms(2) by (rule inv_tree)
  have cl: "contents (unlock ?d) = contents d" by (simp add: fun_eq_iff contents_def wlock_def unlock_def cong: option.case_cong)
  show ?thesis
  proof (cases "ngx_js_dict_lookup env d key")
    case None
    then have c: "contents d key = None" using lookup_None[OF assms(1) tr] contents_None[OF tr] by blast
    then have v: "visible d t' key = None" for t' by (simp add: visible_def)
    have "(visible d t)(key := None) = visible d t" using v by (simp add: fun_upd_idem)
    then show ?thesis using assms(2,3) None c cl v[of now] by (auto simp: ngx_js_dict_delete_def Let_def)
  next
    case (Some a)
    then obtain n where n: "node_mem d a = Some n" "sn_str n = key" using lookup_Some[OF assms(1) tr] by blast
    define d1 where "d1 = (unlink_expire env ?d a)\<lparr>rbtree := rb_delete env (rbtree (unlink_expire env ?d a)) a\<rparr>"
    have i: "dict_inv env live base {} ?d" "node_mem ?d a = Some n" using assms(2) n by simp_all
    note dn = delete_node[OF assms(1) i d1_def]
    let ?f = "ngx_js_dict_node_free env d1 a"
    have tf: "tree_ok env ?f" using dn(1) by (rule inv_tree)
    have c: "contents d key = Some (node_value n, expire_key n)" using contents_node[OF tr n(1)] n(2) by simp
    have ex: "expired d1 now a \<longleftrightarrow> visible d now key = None"
      using n c dn(4,5) by (simp add: expired_def timer_key_def visible_def same_config_def)
    have vv: "visible d now key = (if expired d1 now a then None else node_value_at d1 a)"
      using n c dn(4,5) by (simp add: expired_def timer_key_def visible_def same_config_def node_value_at_def)
    have d': "d' = finish_write ?f" using assms(3) Some by (simp add: ngx_js_dict_delete_def Let_def d1_def[symmetric] split: prod.splits)
    have "sn_str k \<noteq> key" if "node_mem ?f b = Some k" for b k
    proof -
      have "b \<noteq> a" "node_mem d b = Some k" using that dn(2) by (auto split: if_splits)
      then show ?thesis using key_unique[OF tr _ n(1), of b k] n(2) by auto
    qed
    then have "contents ?f key = None" using contents_None[OF tf] by blast
    then have cf: "contents d' key = None"
      unfolding d' by (simp add: contents_def finish_write_def unlock_def Let_def cong: option.case_cong if_cong split: if_splits)
    have "visible ?f t = (visible d t)(key := None)"
      using visible_remove[OF tr tf, of a n t] dn(2,3) n by (simp add: same_config_def)
    moreover have "(rc, v) = (if \<not> want then (NGX_OK, None) else if expired d1 now a then (NGX_DECLINED, None)
        else if dict_type d1 = NGX_JS_DICT_TYPE_STRING \<and> \<not> copy_ok then (NGX_ERROR, None) else (NGX_OK, node_value_at d1 a))"
      using assms(3) Some by (auto simp: ngx_js_dict_delete_def Let_def d1_def[symmetric] split: prod.splits)
    ultimately show ?thesis using dn(1) d' cf ex vv c by (auto split: if_splits)
  qed
qed

subsection \<open>Counters\<close>

lemma number_value: "value_ok NGX_JS_DICT_TYPE_NUMBER v \<Longrightarrow> \<exists>x. v = dict_number x"
  by (cases v) (auto simp: value_ok_def)

lemma write_number:
  assumes "dict_inv env live base {} d" "dict_type d = NGX_JS_DICT_TYPE_NUMBER" "node_mem d a = Some n"
  shows "dict_inv env live base {} (write_node d a (\<lambda>n. n\<lparr>node_value := dict_number x\<rparr>))"
proof -
  let ?d = "write_node d a (\<lambda>n. n\<lparr>node_value := dict_number x\<rparr>)"
  have nm: "node_mem ?d = (node_mem d)(a := Some (n\<lparr>node_value := dict_number x\<rparr>))" using assms(3) by (simp add: write_node_def)
  have k: "str_key ?d = str_key d" "timer_key ?d = timer_key d"
    using assms(3) by (auto simp: fun_eq_iff str_key_def timer_key_def nm)
  have dm: "dom (node_mem ?d) = dom (node_mem d)" using assms(3) nm by auto
  have r: "rbtree ?d = rbtree d" "rbtree_expire ?d = rbtree_expire d" "dict_type ?d = dict_type d" "timeout ?d = timeout d"
    "evict ?d = evict d" "shpool ?d = shpool d" by (simp_all add: write_node_def)
  have "tree_ok env ?d" using assms unfolding dict_inv_def tree_ok_def k dm r by (auto simp: nm value_ok_def)
  moreover have "expire_ok {} ?d" using assms(1) unfolding dict_inv_def expire_ok_def k dm r by simp
  moreover have "mem_ok live base ?d" using assms(1,2) unfolding dict_inv_def mem_ok_def own_ok_def blocks_def dm r by simp
  ultimately show ?thesis by (simp add: dict_inv_def)
qed

lemma relink_expire:
  assumes "nginx_ok env live" "dict_inv env live base {} d" "node_mem d a = Some n" "dict_type d = NGX_JS_DICT_TYPE_NUMBER" "e < msec_limit"
    "timeout d \<noteq> 0"
  shows "dict_inv env live base {} (link_expire env (set_expire (unlink_expire env d a) a e) a)"
    "node_mem (link_expire env (set_expire (unlink_expire env d a) a e) a) = (node_mem d)(a := Some (n\<lparr>expire_key := e\<rparr>))"
    "same_config d (link_expire env (set_expire (unlink_expire env d a) a e) a)"
proof -
  let ?u = "unlink_expire env d a"
  let ?s = "set_expire ?u a e"
  note u = unlink_expire[OF assms(1-3)]
  have tu: "timeout ?u = timeout d" "dict_type ?u = dict_type d" using u(3) by (simp_all add: same_config_def)
  have nm: "node_mem ?s = (node_mem ?u)(a := Some (n\<lparr>expire_key := e\<rparr>))"
    using assms(3,6) u(2) tu by (simp add: set_expire_def write_node_def)
  have sc: "same_config ?u ?s" "rbtree ?s = rbtree ?u" "rbtree_expire ?s = rbtree_expire ?u" "shpool ?s = shpool ?u"
    by (simp_all add: set_expire_def write_node_def same_config_def)
  have dm: "dom (node_mem ?s) = dom (node_mem ?u)" using nm u(2) assms(3) by auto
  have "mem_ok live base ?s"
    using u(1) tu assms(4) sc(1,4) unfolding dict_inv_def mem_ok_def own_ok_def blocks_def same_config_def dm by simp
  moreover have "value_ok (dict_type ?u) (node_value n)" using inv_tree[OF u(1)] u(2) assms(3) by (auto simp: tree_ok_def)
  ultimately have i: "dict_inv env live base {a} ?s"
    using change_node[OF u(1), of n ?s "n\<lparr>expire_key := e\<rparr>" base] u(2) nm sc assms(3) by simp
  note l = link_expire[OF assms(1) i, of "n\<lparr>expire_key := e\<rparr>"]
  show "dict_inv env live base {} (link_expire env ?s a)" "node_mem (link_expire env ?s a) = (node_mem d)(a := Some (n\<lparr>expire_key := e\<rparr>))"
    using l nm assms(5) u(2) by simp_all
  show "same_config d (link_expire env ?s a)" using same_config_trans[OF u(3) same_config_trans[OF sc(1)]] l nm assms(5) by simp
qed

lemma visible_change:
  assumes "tree_ok env d" "tree_ok env d'" "node_mem d' = (node_mem d)(a := Some n')" "node_mem d a = Some n" "sn_str n' = sn_str n"
    "timeout d' = timeout d"
  shows "visible d' t = set_visible d t (sn_str n) (node_value n') (expire_key n')"
proof (rule ext, rule option_ext)
  fix k w
  have "vis (timeout d) (node_mem d') t k w \<longleftrightarrow>
     (if k = sn_str n then w = node_value n' \<and> (timeout d = 0 \<or> t < expire_key n') else vis (timeout d) (node_mem d) t k w)"
  proof (cases "k = sn_str n")
    case True
    have "\<not> (b \<noteq> a \<and> node_mem d b = Some m \<and> sn_str m = k)" for b m
      using key_unique[OF assms(1) _ assms(4)] True by blast
    then show ?thesis using True assms(3,5) unfolding vis_def by auto
  next
    case False
    have e: "node_mem d' b = Some m \<and> sn_str m = k \<longleftrightarrow> node_mem d b = Some m \<and> sn_str m = k" for b m
      using assms(3-5) False by auto
    have "vis (timeout d) (node_mem d') t k w \<longleftrightarrow> vis (timeout d) (node_mem d) t k w"
      unfolding vis_def conj_assoc[symmetric] e ..
    then show ?thesis using False by simp
  qed
  then show "visible d' t k = Some w \<longleftrightarrow> set_visible d t (sn_str n) (node_value n') (expire_key n') k = Some w"
    using visible_iff[OF assms(1), of t k w] visible_iff[OF assms(2), of t k w] assms(6) by (auto simp: set_visible_def)
qed

text \<open>
  C22. \<open>incr\<close>: a key without a node starts from the initial value, with the given timeout or the
  default of the zone, and a key with a node has the delta added to its number, which
  is the answer; its expiry moves only when a timeout is given.  That holds for a node that has expired too:
  the answer counts on from the old number, and without a timeout the key stays invisible.
\<close>

theorem dict_incr_correct:
  assumes "nginx_ok env live" "dict_inv env live base {} d" "dict_type d = NGX_JS_DICT_TYPE_NUMBER"
    "timeout d \<noteq> 0 \<longrightarrow> now + (if tmo \<noteq> 0 then tmo else timeout d) < msec_limit" "now \<le> t"
    "ngx_js_dict_incr env d key delta init tmo now = (rc, x, d')"
  shows "dict_inv env live base {} d' \<and> rwlock d' = Unlocked \<and>
    (case contents d key of
       None \<Rightarrow>
         x = dadd env init delta \<and>
         (rc = NGX_OK \<and> changed_to d d' t key (set_visible d t key (dict_number x) (now + (if tmo \<noteq> 0 then tmo else timeout d))) \<or>
          rc = NGX_ERROR \<and> changed_to d d' t key (visible d t))
     | Some (v, e) \<Rightarrow>
         rc = NGX_OK \<and> (\<exists>y. v = dict_number y \<and> x = dadd env y delta) \<and>
         visible d' t = set_visible d t key (dict_number x) (if tmo \<noteq> 0 then now + tmo else e))"
proof -
  let ?d = "wlock d"
  have tr: "tree_ok env d" using assms(2) by (rule inv_tree)
  have i: "dict_inv env live base {} ?d" "dict_type ?d = NGX_JS_DICT_TYPE_NUMBER" using assms(2,3) by simp_all
  have ct: "changed_to ?d e t key = changed_to d e t key" "set_visible ?d = set_visible d" for e
    by (simp_all add: changed_to_def set_visible_def fun_eq_iff)
  show ?thesis
  proof (cases "ngx_js_dict_lookup env d key")
    case None
    then have c: "contents d key = None" using lookup_None[OF assms(1) tr] contents_None[OF tr] by blast
    then have c': "contents ?d key = None" by (simp add: contents_def wlock_def cong: option.case_cong)
    let ?t = "if tmo \<noteq> 0 then tmo else timeout d"
    obtain r e where a: "ngx_js_dict_add_value env ?d key (dict_number (dadd env init delta)) ?t now = (r, e)" by (metis surj_pair)
    have vo: "value_ok (dict_type ?d) (dict_number (dadd env init delta))" using assms(3) by (simp add: value_ok_def)
    have lim: "timeout ?d \<noteq> 0 \<longrightarrow> now + ?t < msec_limit" using assms(4) by simp
    note ac = add_changed[OF assms(1) i(1) c' vo lim assms(5) a, unfolded ct]
    have r: "x = dadd env init delta" "(rc, d') = (if r \<noteq> NGX_OK then (NGX_ERROR, unlock e) else (NGX_OK, finish_write e))"
      using assms(6) None a by (auto simp: ngx_js_dict_incr_def Let_def split: if_splits)
    have un: "changed_to d (unlock e) t key w = changed_to d e t key w" "changed_to d (finish_write e) t key w = changed_to d e t key w" for w
      by (simp_all add: changed_to_def)
    show ?thesis
    proof (cases "r = NGX_OK")
      case True
      then show ?thesis using ac r c un by simp
    next
      case False
      then show ?thesis using ac r c un by simp
    qed
  next
    case (Some a)
    then obtain n where n: "node_mem d a = Some n" "sn_str n = key" using lookup_Some[OF assms(1) tr] by blast
    have c: "contents d key = Some (node_value n, expire_key n)" using contents_node[OF tr n(1)] n(2) by simp
    have "value_ok NGX_JS_DICT_TYPE_NUMBER (node_value n)" using tr n(1) assms(3) by (metis tree_ok_def)
    then obtain y where y: "node_value n = dict_number y" using number_value by blast
    let ?w = "write_node ?d a (\<lambda>n. n\<lparr>node_value := dict_number (dadd env y delta)\<rparr>)"
    let ?n = "n\<lparr>node_value := dict_number (dadd env y delta)\<rparr>"
    have wi: "dict_inv env live base {} ?w" by (rule write_number[OF i]) (use n in simp)
    have wn: "node_mem ?w = (node_mem d)(a := Some ?n)" "timeout ?w = timeout d" "dict_type ?w = dict_type d" using n by (simp_all add: write_node_def)
    define d2 where "d2 = (if timeout d \<noteq> 0 \<and> tmo \<noteq> 0
        then link_expire env (set_expire (unlink_expire env ?w a) a (now + tmo)) a else ?w)"
    have r: "rc = NGX_OK" "x = dadd env y delta" "d' = finish_write d2"
      using assms(6) Some n y wn(2) by (auto simp: ngx_js_dict_incr_def Let_def node_value_at_def number_of_def d2_def)
    have v2: "dict_inv env live base {} d2 \<and> timeout d2 = timeout d \<and>
        visible d2 t = set_visible d t key (dict_number x) (if tmo \<noteq> 0 then now + tmo else expire_key n)"
    proof (cases "timeout d \<noteq> 0 \<and> tmo \<noteq> 0")
      case True
      have na: "node_mem ?w a = Some ?n" using wn(1) by simp
      have e: "now + tmo < msec_limit" using True assms(4) by simp
      note l = relink_expire[OF assms(1) wi na _ e]
      have d2: "d2 = link_expire env (set_expire (unlink_expire env ?w a) a (now + tmo)) a" using True by (simp add: d2_def)
      have l2: "dict_inv env live base {} d2" "node_mem d2 = (node_mem d)(a := Some (?n\<lparr>expire_key := now + tmo\<rparr>))" "timeout d2 = timeout d"
        using l True wn assms(3) unfolding d2 by (simp_all add: same_config_def)
      show ?thesis using l2 visible_change[OF tr inv_tree[OF l2(1)] l2(2) n(1) _ l2(3), of t] True n(2) r(2) by simp
    next
      case False
      then have d2: "d2 = ?w" by (auto simp: d2_def)
      have "visible ?w t = set_visible d t key (dict_number x) (expire_key n)"
        using visible_change[OF tr inv_tree[OF wi] wn(1) n(1) _ wn(2), of t] n(2) r(2) by simp
      moreover have "set_visible d t key z e1 = set_visible d t key z e2" if "timeout d = 0" for z e1 e2 using that by (simp add: set_visible_def)
      ultimately show ?thesis using d2 wi wn(2) False by auto
    qed
    then show ?thesis using r c y by simp
  qed
qed

subsection \<open>Clearing and evicting\<close>

lemma clear_loop:
  assumes "nginx_ok env live" "dict_inv env live base {} d" "timeout d = 0" "rbtree d = as"
  shows "dict_inv env live base {} (clear_loop env d as) \<and> node_mem (clear_loop env d as) = Map.empty \<and> same_config d (clear_loop env d as)"
  using assms(2-4)
proof (induction as arbitrary: d)
  case Nil
  then show ?case by (auto simp: dict_inv_def tree_ok_def)
next
  case (Cons a as)
  have a: "a \<in> dom (node_mem d)" "distinct (a # as)" using Cons.prems by (auto simp: dict_inv_def tree_ok_def)
  then obtain n where n: "node_mem d a = Some n" by blast
  let ?d1 = "d\<lparr>rbtree := rb_delete env (rbtree d) a\<rparr>"
  have u: "unlink_expire env d a = d" using Cons.prems(2) by (simp add: unlink_expire_def)
  note dn = delete_node[OF assms(1) Cons.prems(1) n, of ?d1, unfolded u, OF refl]
  have "rbtree (ngx_js_dict_node_free env ?d1 a) = as"
    using assms(1) Cons.prems(3) a(2) n by (simp add: ngx_js_dict_node_free_def Let_def nginx_ok_def delete_ok_def filter_neq_notin)
  then show ?case using Cons.IH[OF dn(1)] dn(3) Cons.prems(2,3) same_config_trans[OF dn(3)] by (simp add: same_config_def)
qed

text \<open>
  \<open>clear\<close>: no node is left in either tree, and every block the dictionary held has been given
  back to the allocator; the lock is released and the dictionary marked to be saved.  (A zone
  never has more nodes than the bound of the eviction loop, \<open>INT_MAX\<close>.)
\<close>

theorem dict_clear_correct:
  assumes "nginx_ok env live" "dict_inv env live base {} d" "length (rbtree_expire d) \<le> 0x7FFFFFFF"
  shows "dict_inv env live base {} (shared_dict_clear env d) \<and> rwlock (shared_dict_clear env d) = Unlocked \<and>
    dirty (shared_dict_clear env d) \<and> rbtree (shared_dict_clear env d) = [] \<and> rbtree_expire (shared_dict_clear env d) = [] \<and>
    live (shpool (shared_dict_clear env d)) = base"
proof -
  let ?d = "wlock d" and ?c = "shared_dict_clear env d"
  have i: "dict_inv env live base {} ?d" using assms(2) by simp
  define e where "e = (if timeout d \<noteq> 0 then snd (ngx_js_dict_evict env ?d 0x7FFFFFFF) else clear_loop env ?d (rbtree ?d))"
  have e: "dict_inv env live base {} e \<and> node_mem e = Map.empty"
  proof (cases "timeout d = 0")
    case True
    then show ?thesis using clear_loop[OF assms(1) i _ refl] by (simp add: e_def)
  next
    case False
    have re: "rbtree_expire ?d = rbtree_expire d" by (simp add: wlock_def)
    obtain k e' where r: "evict_loop env ?d 0x7FFFFFFF 0 (rbtree_expire ?d) = (k, e')" by (metis surj_pair)
    have "set (rbtree_expire ?d) = dom (node_mem d)" using assms(2) False by (simp add: dict_inv_def expire_ok_def re)
    moreover have "dict_inv env live base {} e' \<and> node_mem e' = node_mem d |` (- set (rbtree_expire ?d))"
      using evict_loop[OF assms(1) i refl, where c = "0x7FFFFFFF" and e = 0] r assms(3) re by simp
    ultimately show ?thesis using False r by (auto simp: e_def ngx_js_dict_evict_def restrict_map_def fun_eq_iff domIff)
  qed
  have c: "?c = finish_write e" by (simp add: shared_dict_clear_def e_def Let_def)
  have ci: "dict_inv env live base {} ?c" using e c by simp
  have nm: "node_mem ?c = Map.empty" using e c by (simp add: finish_write_def unlock_def Let_def)
  have "rbtree ?c = []" using ci nm by (simp add: dict_inv_def tree_ok_def)
  moreover have "rbtree_expire ?c = []" using ci nm by (auto simp: dict_inv_def expire_ok_def split: if_splits)
  moreover have "live (shpool ?c) = base" using ci nm by (simp add: dict_inv_def mem_ok_def blocks_def)
  moreover have "dirty ?c" by (simp add: c finish_write_def unlock_def Let_def)
  ultimately show ?thesis using ci c by simp
qed

subsection \<open>Which nodes eviction takes\<close>

definition evicted_prefix :: "('d, 'p) ngx_js_dict \<Rightarrow> ('d, 'p) ngx_js_dict \<Rightarrow> nat \<Rightarrow> bool" where
  "evicted_prefix d d' k \<longleftrightarrow>
     node_mem d' = node_mem d |` (- set (take k (rbtree_expire d))) \<and> rbtree_expire d' = drop k (rbtree_expire d)"

lemma slab_same [simp]:
  "node_mem (snd (slab_alloc_locked env d n)) = node_mem d" "rbtree_expire (snd (slab_alloc_locked env d n)) = rbtree_expire d"
  by (simp_all add: slab_alloc_locked_def split: option.splits)

lemma evicted_prefix_trans:
  assumes "evicted_prefix d d' k" "evicted_prefix d' d'' j"
  shows "evicted_prefix d d'' (k + j)"
proof -
  have "set (take (k + j) (rbtree_expire d)) = set (take k (rbtree_expire d)) \<union> set (take j (drop k (rbtree_expire d)))"
    by (simp add: take_add)
  then show ?thesis using assms by (simp add: evicted_prefix_def restrict_map_def fun_eq_iff add.commute)
qed

lemma alloc_loop_prefix:
  assumes "nginx_ok env live" "allocated env live base out d0 r" "evict d0"
  shows "\<exists>k. evicted_prefix (snd r) (snd (alloc_loop env n fuel r)) k"
  using assms(2)
proof (induction fuel arbitrary: r)
  case 0
  then show ?case by (cases r; cases "fst r") (auto simp: evicted_prefix_def restrict_map_def intro!: exI[of _ 0])
next
  case (Suc fuel)
  obtain p d where r: "r = (p, d)" by (cases r)
  show ?case
  proof (cases p)
    case None
    obtain e d' where ev: "ngx_js_dict_evict env d 16 = (e, d')" by (metis surj_pair)
    have d: "dict_inv env live base out d" "shrunk d0 d" "out \<inter> dom (node_mem d0) \<subseteq> dom (node_mem d)"
      using Suc.prems r None by (auto simp: allocated_def)
    have evd: "evict d" using d(2) assms(3) by (simp add: shrunk_def same_config_def)
    note es = evict_shrunk[OF assms(1) d(1) evd ev]
    have s: "shrunk d0 d'" "out \<inter> dom (node_mem d0) \<subseteq> dom (node_mem d')"
      using shrunk_trans[OF d(2) es(2)] d(3) es(3) by auto
    have p1: "evicted_prefix d d' 16"
      using evict_loop[OF assms(1) d(1) refl, where c = 16 and e = 0] ev by (simp add: ngx_js_dict_evict_def evicted_prefix_def)
    show ?thesis
    proof (cases "e = 0")
      case True
      then show ?thesis using r None ev p1 by auto
    next
      case False
      have "allocated env live base out d0 (slab_alloc_locked env d' n)"
        by (rule allocated_after[OF s allocated_slab[OF assms(1) es(1)]])
      then obtain j where "evicted_prefix (snd (slab_alloc_locked env d' n)) (snd (alloc_loop env n fuel (slab_alloc_locked env d' n))) j"
        using Suc.IH by blast
      then have "evicted_prefix d' (snd (alloc_loop env n fuel (slab_alloc_locked env d' n))) j" by (simp add: evicted_prefix_def)
      then show ?thesis using r None ev False evicted_prefix_trans[OF p1] by auto
    qed
  qed (use r in \<open>auto simp: evicted_prefix_def restrict_map_def intro!: exI[of _ 0]\<close>)
qed

text \<open>
  C10. Allocation in a zone with eviction: it throws out nodes in the order of their expiry, never
  one that outlives a node it keeps, and it fails only when no node is left.
\<close>

theorem dict_alloc_evicts_earliest:
  assumes "nginx_ok env live" "dict_inv env live base {} d" "evict d" "ngx_js_dict_alloc env d n = (p, d')"
  shows "(p = None \<longrightarrow> rbtree d' = []) \<and>
    (\<forall>a \<in> set (rbtree d) - set (rbtree d'). \<forall>b \<in> set (rbtree d'). timer_key d a \<le> timer_key d b)"
proof -
  let ?s = "slab_alloc_locked env d n"
  let ?l = "alloc_loop env n (Suc (length (rbtree_expire d))) ?s"
  have al: "allocated env live base {} d (p, d')" using dict_alloc(1)[OF assms(1,2), of n] assms(4) by simp
  then obtain base' where inv: "dict_inv env live base' {} d'" by (cases p) (auto simp: allocated_def)
  have tm: "timeout d \<noteq> 0" using assms(2,3) by (auto simp: dict_inv_def expire_ok_def)
  have tm': "timeout d' \<noteq> 0" using al tm by (simp add: allocated_def shrunk_def same_config_def)
  have "fst (p, d') = None \<Longrightarrow> rbtree_expire d' = []"
    using dict_alloc(2)[OF assms(1,2), of n] assms(3,4) by simp
  moreover have "set (rbtree d') = set (rbtree_expire d')" using inv tm' by (auto simp: dict_inv_def tree_ok_def expire_ok_def)
  ultimately have none: "p = None \<longrightarrow> rbtree d' = []" by auto
  obtain k where "evicted_prefix (snd ?s) (snd ?l) k"
    using alloc_loop_prefix[OF assms(1) allocated_slab[OF assms(1,2), of n] assms(3)] by blast
  then have k: "evicted_prefix d (snd ?l) k" by (simp add: evicted_prefix_def)
  have "node_mem d' = node_mem (snd ?l) \<and> rbtree_expire d' = rbtree_expire (snd ?l)"
  proof (cases "fst ?l")
    case None
    then have "(p, d') = slab_alloc_locked env (snd ?l) n"
      using assms(3,4) by (cases ?l) (simp add: ngx_js_dict_alloc_def del: alloc_loop.simps)
    then show ?thesis by (metis slab_same snd_conv)
  next
    case (Some q)
    then show ?thesis using assms(3,4) by (cases ?l) (simp add: ngx_js_dict_alloc_def del: alloc_loop.simps)
  qed
  then have pre: "node_mem d' = node_mem d |` (- set (take k (rbtree_expire d)))" using k by (simp add: evicted_prefix_def)
  have doms: "set (rbtree d) = set (rbtree_expire d)" "set (rbtree d) = dom (node_mem d)" "set (rbtree d') = dom (node_mem d')"
    and srt: "sorted (map (timer_key d) (rbtree_expire d))"
    using assms(2) inv tm by (auto simp: dict_inv_def tree_ok_def expire_ok_def)
  have "timer_key d a \<le> timer_key d b" if "a \<in> set (rbtree d) - set (rbtree d')" "b \<in> set (rbtree d')" for a b
  proof -
    have a: "a \<in> set (take k (rbtree_expire d))" using that(1) doms pre by auto
    have "b \<in> set (rbtree_expire d)" "b \<notin> set (take k (rbtree_expire d))" using that(2) doms pre by auto
    then have b: "b \<in> set (drop k (rbtree_expire d))" by (metis Un_iff append_take_drop_id set_append)
    have "sorted (map (timer_key d) (take k (rbtree_expire d)) @ map (timer_key d) (drop k (rbtree_expire d)))"
      using srt by (metis append_take_drop_id map_append)
    then show ?thesis using a b by (auto simp: sorted_append)
  qed
  then show ?thesis using none by blast
qed

subsection \<open>An instance\<close>

text \<open>
  Ordered lists for nginx's trees, and a pool of eight blocks: the assumptions on nginx hold of
  them, so that the properties have inputs to be tried on.
\<close>

lemma bytes_less_trans: "length xs = length ys \<Longrightarrow> length ys = length zs \<Longrightarrow> bytes_less xs ys \<Longrightarrow> bytes_less ys zs \<Longrightarrow> bytes_less xs zs"
proof (induction xs ys arbitrary: zs rule: bytes_less.induct)
  case (1 x xs y ys)
  then show ?case by (cases zs) auto
qed auto

lemma bytes_less_total: "length xs = length ys \<Longrightarrow> xs \<noteq> ys \<Longrightarrow> bytes_less xs ys \<or> bytes_less ys xs"
  by (induction xs ys rule: bytes_less.induct) auto

lemma str_less_trans: "str_less x y \<Longrightarrow> str_less y z \<Longrightarrow> str_less x z"
proof (cases x; cases y; cases z)
  fix h s g t i u
  assume "str_less x y" "str_less y z" "x = (h, s)" "y = (g, t)" "z = (i, u)"
  then show "str_less x z" using bytes_less_trans[of s t u] by auto
qed

lemma str_less_total: "x \<noteq> y \<Longrightarrow> str_less x y \<or> str_less y x"
  using bytes_less_total[of "snd x" "snd y"] by (cases x; cases y) (auto simp: neq_iff)

fun place :: "('k \<Rightarrow> 'k \<Rightarrow> bool) \<Rightarrow> (addr \<Rightarrow> 'k) \<Rightarrow> addr list \<Rightarrow> addr \<Rightarrow> addr list" where
  "place lt k [] a = [a]"
| "place lt k (b # t) a = (if lt (k b) (k a) then b # place lt k t a else a # b # t)"

lemma place_split: "\<exists>xs ys. t = xs @ ys \<and> place lt k t a = xs @ a # ys"
proof (induction t)
  case (Cons b t)
  then obtain xs ys where "t = xs @ ys" "place lt k t a = xs @ a # ys" by blast
  then show ?case
    by (cases "lt (k b) (k a)") (auto intro: exI[of _ "b # xs"] exI[of _ "[]"])
qed simp

lemma set_place: "set (place lt k t a) = insert a (set t)"
  by (induction t) auto

lemma place_sorted:
  assumes "sorted_wrt str_less (map k t)" "k a \<notin> k ` set t"
  shows "sorted_wrt str_less (map k (place str_less k t a))"
  using assms
proof (induction t)
  case (Cons b t)
  have "str_less (k a) (k b)" if "\<not> str_less (k b) (k a)" using that str_less_total[of "k a" "k b"] Cons.prems(2) by auto
  moreover have "str_less (k a) (k x)" if "str_less (k a) (k b)" "x \<in> set t" for x
    using that Cons.prems(1) str_less_trans[of "k a" "k b" "k x"] by simp
  ultimately show ?case using Cons by (auto simp: set_place)
qed simp

lemma place_sorted_timer: "sorted (map k t) \<Longrightarrow> sorted (map k (place (<) k t a))" for k :: "addr \<Rightarrow> uint64"
proof (induction t)
  case (Cons b t)
  then show ?case by (auto simp: set_place not_less)
qed simp

definition demo_dict_env :: "(int, addr list) dict_env" where
  "demo_dict_env =
     \<lparr>crc32 = (\<lambda>s. of_nat (length s)), str_insert = place str_less, str_lookup = (\<lambda>k t s h. List.find (\<lambda>a. k a = (h, s)) t),
      timer_insert = place (<), rb_delete = (\<lambda>t a. filter (\<lambda>b. b \<noteq> a) t),
      slab_alloc = (\<lambda>p n. if length p < 8 then Some (Suc (foldr max p 0), Suc (foldr max p 0) # p) else None),
      slab_free = (\<lambda>p a. filter (\<lambda>b. b \<noteq> a) p), node_size = 112, dadd = (+)\<rparr>"

lemma foldr_max: "x \<in> set p \<Longrightarrow> x \<le> foldr max p 0" for x :: nat
  by (induction p) (auto simp: le_max_iff_disj)

lemma demo_nginx_ok: "nginx_ok demo_dict_env set"
proof -
  have "str_tree_ok demo_dict_env"
    unfolding str_tree_ok_def
  proof (intro conjI allI impI)
    fix k :: "addr \<Rightarrow> uint32 \<times> ngx_str" and t a assume "sorted_wrt str_less (map k t) \<and> k a \<notin> k ` set t"
    then show "\<exists>xs ys. t = xs @ ys \<and> str_insert demo_dict_env k t a = xs @ a # ys"
        "sorted_wrt str_less (map k (str_insert demo_dict_env k t a))"
      using place_split[of t str_less k a] place_sorted[of k t a] by (simp_all add: demo_dict_env_def)
  next
    fix k :: "addr \<Rightarrow> uint32 \<times> ngx_str" and t s h assume "sorted_wrt str_less (map k t)"
    show "case str_lookup demo_dict_env k t s h of None \<Rightarrow> (h, s) \<notin> k ` set t | Some a \<Rightarrow> a \<in> set t \<and> k a = (h, s)"
      by (auto simp: demo_dict_env_def find_None_iff find_Some_iff split: option.splits)
  qed
  moreover have "timer_tree_ok demo_dict_env"
    unfolding timer_tree_ok_def
  proof (intro allI impI)
    fix k :: "addr \<Rightarrow> uint64" and t a assume "sorted (map k t) \<and> (\<forall>b \<in> insert a (set t). k b < msec_limit)"
    then show "(\<exists>xs ys. t = xs @ ys \<and> timer_insert demo_dict_env k t a = xs @ a # ys) \<and>
        sorted (map k (timer_insert demo_dict_env k t a))"
      using place_split[of t "(<)" k a] place_sorted_timer[of k t a] by (simp add: demo_dict_env_def)
  qed
  moreover have "delete_ok demo_dict_env" by (simp add: delete_ok_def demo_dict_env_def)
  moreover have "slab_ok demo_dict_env set"
    unfolding slab_ok_def using foldr_max by (fastforce simp: demo_dict_env_def split: if_splits)
  ultimately show ?thesis by (simp add: nginx_ok_def)
qed

definition demo_dict :: "(int, addr list) ngx_js_dict" where
  "demo_dict =
     \<lparr>rbtree = [2, 3], rbtree_expire = [3, 2],
      node_mem = [2 \<mapsto> \<lparr>sn_key = 1, sn_str = [97], expire_key = 500, node_value = dict_number 7, value_data = 0\<rparr>,
                  3 \<mapsto> \<lparr>sn_key = 2, sn_str = [97, 98], expire_key = 100, node_value = dict_number 5, value_data = 0\<rparr>],
      rwlock = Unlocked, dirty = False, writing = False, shpool = [1, 2, 3], timeout = 400, evict = False,
      dict_type = NGX_JS_DICT_TYPE_NUMBER, state_file = True, timer_set = False\<rparr>"

lemma demo_inv: "dict_inv demo_dict_env set {1} {} demo_dict" "dict_inv demo_dict_env set {1} {} (demo_dict\<lparr>evict := True\<rparr>)"
  by (auto simp: dict_inv_def tree_ok_def expire_ok_def mem_ok_def own_ok_def blocks_def demo_dict_def demo_dict_env_def
      str_key_def timer_key_def value_ok_def msec_limit_def split: if_splits)

theorem dict_set_correct_witness:
  "(let (rc, d') = ngx_js_dict_set demo_dict_env demo_dict [99] (dict_number 1) 400 MUST_NOT_EXIST 200 in
      dict_inv demo_dict_env set {1} {} d' \<and> rwlock d' = Unlocked \<and> rc \<noteq> NGX_DECLINED)"
proof -
  obtain rc d' where r: "ngx_js_dict_set demo_dict_env demo_dict [99] (dict_number 1) 400 MUST_NOT_EXIST 200 = (rc, d')" by (metis surj_pair)
  have v: "visible demo_dict 200 [99] = None"
    by (simp add: visible_def contents_def demo_dict_def str_key_def)
  have "value_ok (dict_type demo_dict) (dict_number 1 :: int ngx_js_dict_value)" "timeout demo_dict \<noteq> 0 \<longrightarrow> (200 :: uint64) + 400 < msec_limit"
    by (simp_all add: value_ok_def demo_dict_def msec_limit_def)
  from dict_set_correct[OF demo_nginx_ok demo_inv(1) this order_refl r] v show ?thesis by (simp add: r)
qed

theorem dict_delete_correct_witness:
  "(let (rc, v, d') = ngx_js_dict_delete demo_dict_env True demo_dict [97, 98] True 200 in
      contents d' [97, 98] = None \<and> rc = NGX_DECLINED)"
proof -
  obtain rc v d' where r: "ngx_js_dict_delete demo_dict_env True demo_dict [97, 98] True 200 = (rc, v, d')" by (metis surj_pair)
  have "visible demo_dict 200 [97, 98] = None"
    by (simp add: visible_def contents_def demo_dict_def str_key_def)
  then show ?thesis using dict_delete_correct[OF demo_nginx_ok demo_inv(1) r] by (simp add: r)
qed

theorem dict_incr_correct_witness:
  "(let (rc, x, d') = ngx_js_dict_incr demo_dict_env demo_dict [97, 98] 1 0 0 200 in
      rc = NGX_OK \<and> x = 6 \<and> visible demo_dict 200 [97, 98] = None \<and> visible d' 200 [97, 98] = None)"
proof -
  obtain rc x d' where r: "ngx_js_dict_incr demo_dict_env demo_dict [97, 98] 1 0 0 200 = (rc, x, d')" by (metis surj_pair)
  have c: "contents demo_dict [97, 98] = Some (dict_number 5, 100)"
    by (simp add: contents_def demo_dict_def str_key_def)
  have "dict_type demo_dict = NGX_JS_DICT_TYPE_NUMBER"
    "timeout demo_dict \<noteq> 0 \<longrightarrow> 200 + (if (0 :: uint64) \<noteq> 0 then 0 else timeout demo_dict) < msec_limit"
    by (simp_all add: demo_dict_def msec_limit_def)
  moreover have "timeout demo_dict = 400" "dadd demo_dict_env = (+)" by (simp_all add: demo_dict_def demo_dict_env_def)
  moreover have "visible demo_dict 200 [97, 98] = None" using c by (simp add: visible_def demo_dict_def)
  ultimately show ?thesis using dict_incr_correct[OF demo_nginx_ok demo_inv(1) _ _ order_refl r] c
    by (simp add: r set_visible_def)
qed

theorem dict_clear_correct_witness: "set (shpool (shared_dict_clear demo_dict_env demo_dict)) = {1}"
  using dict_clear_correct[OF demo_nginx_ok demo_inv(1)] by (simp add: demo_dict_def)

theorem dict_alloc_evicts_earliest_witness:
  "(let (p, d') = ngx_js_dict_alloc demo_dict_env (demo_dict\<lparr>evict := True\<rparr>) 4 in
      \<forall>a \<in> set [2, 3] - set (rbtree d'). \<forall>b \<in> set (rbtree d'). timer_key demo_dict a \<le> timer_key demo_dict b)"
proof -
  obtain p d' where r: "ngx_js_dict_alloc demo_dict_env (demo_dict\<lparr>evict := True\<rparr>) 4 = (p, d')" by (metis surj_pair)
  have "timer_key (demo_dict\<lparr>evict := True\<rparr>) = timer_key demo_dict" "rbtree (demo_dict\<lparr>evict := True\<rparr>) = [2, 3]"
    by (simp_all add: fun_eq_iff timer_key_def demo_dict_def)
  then show ?thesis using dict_alloc_evicts_earliest[OF demo_nginx_ok demo_inv(2) _ r] by (simp add: r)
qed

end
