(* ===== verification/Ngx_Js_Dict_Engines.thy ===== *)
theory Ngx_Js_Dict_Engines
  imports Ngx_Js_Dict_Api Ngx_Js_Dict_Props
begin

section \<open>The methods of a shared dictionary in the two engines\<close>

text \<open>
  \<open>src/nginx/ngx_js_shared_dict.c\<close> implements the methods twice, for njs and for QuickJS.  The
  theorems compare them.
\<close>

subsection \<open>The two engines\<close>

text \<open>
  Outcomes agree when the dictionary is left in the same state and the answers are the same value,
  or both an exception.  The conversions are assumed to be the identity on strings and numbers.
\<close>

fun agree :: "'d js_result \<times> ('d, 'p) ngx_js_dict \<Rightarrow> 'd js_result \<times> ('d, 'p) ngx_js_dict \<Rightarrow> bool" where
  "agree (Inr v, d) (Inr w, e) \<longleftrightarrow> v = w \<and> d = e"
| "agree (Inl _, d) (Inl _, e) \<longleftrightarrow> d = e"
| "agree _ _ \<longleftrightarrow> False"

definition conv_ok :: "('d, 'p) js_conv \<Rightarrow> bool" where
  "conv_ok cv \<longleftrightarrow> (\<forall>s. to_str cv (js_string s) = Some s) \<and> (\<forall>x. to_float64 cv (js_number x) = Some x)"

text \<open>A timeout argument that both engines read as the same number of milliseconds.\<close>

definition same_timeout :: "('d, 'p) js_conv \<Rightarrow> 'd js_value \<Rightarrow> bool" where
  "same_timeout cv v \<longleftrightarrow> (\<forall>x. v = js_number x \<longrightarrow> (\<exists>u. to_uint32 cv v = Some u \<and> to_msec cv x = ucast u))"

lemma qjs_add_same:
  assumes "conv_ok cv" "wrong_type d v = None"
  shows "ngx_qjs_dict_add env cv d key v tmo now = ngx_js_dict_add_value env d key (value_of_js v z) tmo now"
  using assms by (cases v) (auto simp: ngx_qjs_dict_add_def wrong_type_def conv_ok_def value_of_js_def split: if_splits)

lemma qjs_update_same:
  assumes "conv_ok cv" "wrong_type d v = None"
  shows "ngx_qjs_dict_update env cv d a v tmo now = ngx_js_dict_update env d a (value_of_js v z) tmo now"
  using assms
  by (cases v) (auto simp: ngx_qjs_dict_update_def ngx_js_dict_update_def wrong_type_def conv_ok_def value_of_js_def Let_def split: if_splits)

lemma qjs_set_same:
  assumes "conv_ok cv" "wrong_type d v = None"
  shows "ngx_qjs_dict_set env cv d key v tmo flags now =
    (case ngx_js_dict_set env d key (value_of_js v z) tmo flags now of
       (rc, d') \<Rightarrow> (if rc = NGX_ERROR then Inl SharedMemoryError else Inr (js_bool (rc = NGX_OK)), d'))"
proof -
  have w: "wrong_type (wlock d) v = None" using assms(2) by (simp add: wrong_type_def wlock_def)
  note same = qjs_add_same[OF assms(1) w, of env key tmo now z] qjs_update_same[OF assms(1) w, of env _ tmo now z]
  show ?thesis
    unfolding ngx_qjs_dict_set_def ngx_js_dict_set_def Let_def same
    by (auto split: option.splits prod.splits)
qed

lemma ucast_timeout: "t < 2 ^ 32 \<Longrightarrow> ucast (ucast t :: uint32) = t" for t :: uint64
proof -
  assume "t < 2 ^ 32"
  then have "unat t < 2 ^ 32" by (simp add: word_less_nat_alt)
  then have "unat (ucast (ucast t :: uint32) :: uint64) = unat t" by (simp add: unsigned_ucast_eq take_bit_eq_mod unat_mod)
  then show ?thesis by (rule word_unat_eq_iff[THEN iffD2])
qed

lemma small_ucast: "(ucast u :: uint64) < 1 \<longleftrightarrow> u < 1" for u :: uint32
proof -
  have "unat u < 4294967296" using unsigned_less[of u, where ?'a = nat] by simp
  then show ?thesis by (simp add: word_less_nat_alt unsigned_ucast_eq take_bit_eq_mod)
qed

lemma set_agrees:
  assumes "conv_ok cv" "to_str cv (arg args 0) = Some key" "same_timeout cv (arg args 2)" "timeout d < 2 ^ 32"
  shows "agree (njs_js_ext_shared_dict_set env cv True d args flags now) (ngx_qjs_ext_shared_dict_set env cv True d args flags now)"
proof (cases "wrong_type d (arg args 1)")
  case None
  define z where "z = zero_d cv"
  have go: "agree
      (case ngx_js_dict_set env d key (value_of_js (arg args 1) z) tmo flags now of
         (rc, d) \<Rightarrow> if rc = NGX_ERROR then (Inl SharedMemoryError, d)
                   else (Inr (if flags \<noteq> SET then js_bool (rc = NGX_OK) else js_this), d))
      (case ngx_qjs_dict_set env cv d key (arg args 1) tmo flags now of
         (Inl e, d) \<Rightarrow> (Inl e, d) | (Inr r, d) \<Rightarrow> (Inr (if flags \<noteq> SET then r else js_this), d))" for tmo
    unfolding qjs_set_same[OF assms(1) None, where z = z] by (auto split: prod.splits)
  show ?thesis
  proof (cases "arg args 2 = js_undefined")
    case True
    then show ?thesis using go[of "timeout d"] None assms(2) ucast_timeout[OF assms(4)]
      by (simp add: njs_js_ext_shared_dict_set_def ngx_qjs_ext_shared_dict_set_def njs_timeout_def Let_def z_def)
  next
    case False
    show ?thesis
    proof (cases "arg args 2")
      case (js_number x)
      then obtain u where u: "to_uint32 cv (js_number x) = Some u" "to_msec cv x = ucast u" using assms(3) by (auto simp: same_timeout_def)
      show ?thesis using go[of "ucast u"] None assms(2) js_number u small_ucast[of u]
        by (auto simp: njs_js_ext_shared_dict_set_def ngx_qjs_ext_shared_dict_set_def njs_timeout_def Let_def z_def)
    qed (use False None assms(2) in \<open>simp_all add: njs_js_ext_shared_dict_set_def ngx_qjs_ext_shared_dict_set_def njs_timeout_def Let_def\<close>)
  qed
qed (use assms(2) in \<open>simp add: njs_js_ext_shared_dict_set_def ngx_qjs_ext_shared_dict_set_def\<close>)

lemma incr_agrees:
  assumes "conv_ok cv" "to_str cv (arg args 0) = Some key" "same_timeout cv (arg args 3)"
    "is_number (arg args 1)" "arg args 2 = js_undefined \<or> is_number (arg args 2)" "length args \<le> 3 \<or> is_number (arg args 3)"
  shows "agree (njs_js_ext_shared_dict_incr env cv True d args now) (ngx_qjs_ext_shared_dict_incr env cv True d args now)"
proof (cases "dict_type d = NGX_JS_DICT_TYPE_NUMBER")
  case ty: True
  obtain delta where de: "arg args 1 = js_number delta" using assms(4) by (cases "arg args 1") auto
  define init where "init = number_value_of (zero_d cv) (arg args 2)"
  have ini: "(if arg args 2 = js_undefined then Some (zero_d cv) else to_float64 cv (arg args 2)) = Some init"
    using assms(1,5) by (cases "arg args 2") (auto simp: init_def conv_ok_def)
  have wt: "wrong_type (wlock d) (js_number x) = None" for x using ty by (simp add: wrong_type_def wlock_def)
  have add: "ngx_qjs_dict_add env cv (wlock d) key (js_number x) tmo now =
      ngx_js_dict_add_value env (wlock d) key (dict_number x) tmo now" for x tmo
    using qjs_add_same[OF assms(1) wt, where z = x] by (simp add: value_of_js_def)
  have go: "agree
      (case ngx_js_dict_incr env d key delta init tmo now of
         (rc, x, d) \<Rightarrow> if rc = NGX_ERROR then (Inl (Error ''failed to increment value in shared dict''), d) else (Inr (js_number x), d))
      (ngx_qjs_dict_incr env cv d key delta init tmo now)" for tmo
    unfolding ngx_js_dict_incr_def ngx_qjs_dict_incr_def Let_def add
    by (auto split: option.splits prod.splits)
  have ar3: "arg args 3 = js_undefined" if "length args \<le> 3" using that by (simp add: arg_def)
  show ?thesis
  proof (cases "length args \<le> 3")
    case True
    then show ?thesis using go[of 0] assms(1,2,4,5) ty de ini ar3
      by (auto simp: njs_js_ext_shared_dict_incr_def ngx_qjs_ext_shared_dict_incr_def njs_timeout_def Let_def init_def[symmetric] conv_ok_def)
  next
    case False
    then obtain x where x: "arg args 3 = js_number x" using assms(6) by (cases "arg args 3") auto
    then obtain u where u: "to_uint32 cv (js_number x) = Some u" "to_msec cv x = ucast u" using assms(3) by (auto simp: same_timeout_def)
    show ?thesis using go[of "ucast u"] assms(1,2,4,5) ty de ini False x u small_ucast[of u]
      by (auto simp: njs_js_ext_shared_dict_incr_def ngx_qjs_ext_shared_dict_incr_def njs_timeout_def Let_def init_def[symmetric] conv_ok_def)
  qed
qed (simp add: njs_js_ext_shared_dict_incr_def ngx_qjs_ext_shared_dict_incr_def)

lemma list_loop_uint:
  "list_loop cv emit d now (uint mx) i as = list_loop cv emit d now mx i as" for mx :: uint32
proof (induction as arbitrary: mx i)
  case (Cons a as)
  have "uint (mx - 1) = uint mx - 1" if "mx \<noteq> 0"
  proof -
    have "unat (mx - 1) = unat mx - 1" "0 < unat mx" using that by (simp_all add: unat_minus_one unat_gt_0)
    then have "int (unat (mx - 1)) = int (unat mx) - 1" by linarith
    then show ?thesis by simp
  qed
  then have "list_loop cv emit d now (uint mx - 1) (Suc i) as = list_loop cv emit d now (mx - 1) (Suc i) as" if "mx \<noteq> 0"
    using Cons.IH[of "mx - 1" "Suc i"] that by simp
  then show ?case using Cons.IH[of mx i] by (simp add: uint_0_iff)
qed simp

lemma list_agrees:
  assumes "args = [] \<or> to_integer cv (arg args 0) = map_option uint (to_uint32 cv (arg args 0))"
  shows "agree (njs_list cv emit True d args now) (qjs_list cv emit True d args now)"
proof -
  have "max_count_arg cv args = map_option uint (qjs_max_count cv args)"
    using assms by (auto simp: max_count_arg_def qjs_max_count_def)
  then show ?thesis
    by (cases "qjs_max_count cv args") (auto simp: njs_list_def qjs_list_def Let_def list_loop_uint split: sum.splits)
qed

lemma keyed_agrees:
  assumes "string_ok cv"
  shows "agree (njs_js_ext_shared_dict_get env cv this d args now) (ngx_qjs_ext_shared_dict_get env cv this d args now)"
    "agree (njs_js_ext_shared_dict_pop env cv this d args now) (ngx_qjs_ext_shared_dict_pop env cv this d args now)"
    "agree (njs_js_ext_shared_dict_has env cv this d args now) (ngx_qjs_ext_shared_dict_has env cv this d args now)"
    "agree (njs_js_ext_shared_dict_ttl env cv this d args now) (ngx_qjs_ext_shared_dict_ttl env cv this d args now)"
    "agree (njs_js_ext_shared_dict_clear env this d) (ngx_qjs_ext_shared_dict_clear env this d)"
proof -
  show "agree (njs_js_ext_shared_dict_get env cv this d args now) (ngx_qjs_ext_shared_dict_get env cv this d args now)"
    using assms by (auto simp: njs_js_ext_shared_dict_get_def ngx_qjs_ext_shared_dict_get_def qjs_keyed_def ngx_js_dict_get_def
        ngx_qjs_dict_get_def ngx_qjs_dict_copy_value_locked_def Let_def split: option.splits)
  show "agree (njs_js_ext_shared_dict_pop env cv this d args now) (ngx_qjs_ext_shared_dict_pop env cv this d args now)"
    using assms by (auto simp: njs_js_ext_shared_dict_pop_def ngx_qjs_ext_shared_dict_pop_def qjs_keyed_def ngx_js_dict_delete_def
        ngx_qjs_dict_delete_def ngx_qjs_dict_copy_value_locked_def Let_def split: option.splits)
  show "agree (njs_js_ext_shared_dict_has env cv this d args now) (ngx_qjs_ext_shared_dict_has env cv this d args now)"
    by (auto simp: njs_js_ext_shared_dict_has_def ngx_qjs_ext_shared_dict_has_def qjs_keyed_def Let_def split: option.splits)
  show "agree (njs_js_ext_shared_dict_ttl env cv this d args now) (ngx_qjs_ext_shared_dict_ttl env cv this d args now)"
    by (auto simp: njs_js_ext_shared_dict_ttl_def ngx_qjs_ext_shared_dict_ttl_def Let_def unlock_def split: option.splits)
  show "agree (njs_js_ext_shared_dict_clear env this d) (ngx_qjs_ext_shared_dict_clear env this d)"
    by (auto simp: njs_js_ext_shared_dict_clear_def ngx_qjs_ext_shared_dict_clear_def)
qed


definition demo_conv :: "(int, addr list) js_conv" where
  "demo_conv =
     \<lparr>to_str = (\<lambda>v. case v of js_string s \<Rightarrow> Some s | _ \<Rightarrow> Some []),
      to_float64 = (\<lambda>v. case v of js_number x \<Rightarrow> Some x | _ \<Rightarrow> None),
      to_integer = (\<lambda>v. case v of js_number x \<Rightarrow> Some x | _ \<Rightarrow> None),
      to_uint32 = (\<lambda>v. case v of js_number x \<Rightarrow> Some (of_int x) | _ \<Rightarrow> None),
      to_msec = of_int, of_u64 = uint, of_int32 = sint, zero_d = 0, string_ok = True, elem_ok = (\<lambda>_. True), free_bytes = (\<lambda>_. 0)\<rparr>"


text \<open>
  Where the engines differ.  Deleting a key that is not there answers false in njs and
  undefined in QuickJS, with the same state.  And in a zone whose timeout does not fit 32 bits, \<open>set\<close> without
  a timeout uses the whole timeout in njs, and its low 32 bits in QuickJS.
\<close>

theorem engines_differ:
  "(let (r, d1) = njs_js_ext_shared_dict_delete env cv True d args now;
        (q, d2) = ngx_qjs_ext_shared_dict_delete env cv True d args now
    in d1 = d2 \<and> q = (if r = Inr (js_bool False) then Inr js_undefined else r)) \<and>
   contents (snd (njs_js_ext_shared_dict_set demo_dict_env demo_conv True (demo_dict\<lparr>timeout := 0x100000001\<rparr>)
      [js_string [97], js_number 3] SET 200)) [97] = Some (dict_number 3, 0x100000001 + 200) \<and>
   contents (snd (ngx_qjs_ext_shared_dict_set demo_dict_env demo_conv True (demo_dict\<lparr>timeout := 0x100000001\<rparr>)
      [js_string [97], js_number 3] SET 200)) [97] = Some (dict_number 3, 201)"
proof (intro conjI)
  show "let (r, d1) = njs_js_ext_shared_dict_delete env cv True d args now;
        (q, d2) = ngx_qjs_ext_shared_dict_delete env cv True d args now
    in d1 = d2 \<and> q = (if r = Inr (js_bool False) then Inr js_undefined else r)"
    by (auto simp: njs_js_ext_shared_dict_delete_def ngx_qjs_ext_shared_dict_delete_def qjs_keyed_def ngx_js_dict_delete_def
        ngx_qjs_dict_delete_def Let_def split: option.splits)
qed code_simp+

end
