(* ===== verification/Ngx_Js_Dict_State.thy ===== *)
theory Ngx_Js_Dict_State
  imports Ngx_Js_Dict Njs_Unicode
begin

section \<open>The state file of a shared dictionary (src/nginx/ngx_js_shared_dict.c)\<close>

text \<open>
  A zone with a state file is written to it as JSON and read back when the zone is created.  The
  chain of buffers the JSON is collected in is its bytes; a pointer into the text to be parsed is the
  list of bytes from there to the end.  An error carries the message and the bytes from the place
  it is reported at.

  The conversions between numbers and text, \<open>strtod\<close>, the format \<open>%.6f\<close> and nginx's \<open>%ui\<close>, are a
  parameter, and so is what an entry holds before it is read: \<open>ngx_array_push\<close> does not clear it.
\<close>

record 'd num_text =
  strtod :: "u_char list \<Rightarrow> 'd \<times> nat"
  fmt_f6 :: "'d \<Rightarrow> u_char list"
  fmt_ui :: "uint64 \<Rightarrow> u_char list"
  msec_of :: "'d \<Rightarrow> uint64"
  junk_expire :: uint64

definition lit :: "string \<Rightarrow> u_char list" where
  "lit s = map of_char s"

subsection \<open>Rendering\<close>

definition hex2char :: "u_char \<Rightarrow> u_char" where
  "hex2char n = (if n < 10 then n + 0x30 else n - 10 + 0x61)"

definition escape_char :: "u_char \<Rightarrow> u_char list" where
  "escape_char c =
     (if c = 0x5C \<or> c = 0x22 then [0x5C, c]
      else if c = 0x0D then [0x5C, 0x72]
      else if c = 0x0A then [0x5C, 0x6E]
      else if c = 0x09 then [0x5C, 0x74]
      else if c = 0x08 then [0x5C, 0x62]
      else if c = 0x0C then [0x5C, 0x66]
      else [0x5C, 0x75, 0x30, 0x30, hex2char (drop_bit 4 (c AND 0xF0)), hex2char (c AND 0x0F)])"

lemma copy_trail_length: "copy_trail dst cs = (out, rest) \<Longrightarrow> length rest \<le> length cs"
  by (induction dst cs rule: copy_trail.induct) (auto split: if_splits)

lemma copy_length: "njs_utf8_copy (c # cs) = Some (out, rest) \<Longrightarrow> length rest \<le> length cs"
  by (auto simp: njs_utf8_copy_def dest: copy_trail_length split: if_splits)

text \<open>
  The loop of \<open>ngx_js_render_string\<close>.  None: a string that ends in the middle of a character, after
  which \<open>njs_utf8_copy\<close> would read a byte outside of it.
\<close>

function render_loop :: "u_char list \<Rightarrow> u_char list option" where
  "render_loop [] = Some []"
| "render_loop (c # cs) =
     (if c < 0x20 \<or> c = 0x5C \<or> c = 0x22 then map_option (\<lambda>r. escape_char c @ r) (render_loop cs)
      else
        (case njs_utf8_copy (c # cs) of
           None \<Rightarrow> None
         | Some (out, rest) \<Rightarrow> map_option (\<lambda>r. out @ r) (render_loop rest)))"
  by pat_completeness auto
termination
  by (relation "measure length") (auto dest: copy_length)

definition ngx_js_render_string :: "u_char list \<Rightarrow> u_char list option" where
  "ngx_js_render_string str = map_option (\<lambda>r. 0x22 # r @ [0x22]) (render_loop str)"

text \<open>\<open>njs_sprintf\<close> stops at the end of the 34 bytes reserved for \<open>"value":\<close> and the number.\<close>

definition render_value :: "'d num_text \<Rightarrow> 'd ngx_js_dict_value \<Rightarrow> u_char list option" where
  "render_value nt v =
     (case v of
        dict_str s \<Rightarrow> map_option (\<lambda>r. lit ''\"value\":'' @ r) (ngx_js_render_string s)
      | dict_number x \<Rightarrow> Some (take 34 (lit ''\"value\":'' @ fmt_f6 nt x)))"

definition render_node :: "'d num_text \<Rightarrow> ('d, 'p) ngx_js_dict \<Rightarrow> 'd ngx_js_dict_node \<Rightarrow> u_char list option" where
  "render_node nt d n =
     (case (ngx_js_render_string (sn_str n), render_value nt (node_value n)) of
        (Some k, Some v) \<Rightarrow>
          Some (k @ lit '':{'' @ v @ (if timeout d \<noteq> 0 then lit '',\"expire\":'' @ fmt_ui nt (expire_key n) else []) @ lit ''}'')
      | _ \<Rightarrow> None)"

fun render_nodes :: "'d num_text \<Rightarrow> ('d, 'p) ngx_js_dict \<Rightarrow> uint64 \<Rightarrow> addr list \<Rightarrow> u_char list option" where
  "render_nodes nt d now [] = Some (lit ''}'')"
| "render_nodes nt d now (a # as) =
     (if expired d now a then render_nodes nt d now as
      else
        (case (case node_mem d a of None \<Rightarrow> None | Some n \<Rightarrow> render_node nt d n, render_nodes nt d now as) of
           (Some e, Some r) \<Rightarrow> Some (e @ (if as \<noteq> [] then lit '','' else []) @ r)
         | _ \<Rightarrow> None))"

definition ngx_js_dict_render_json :: "'d num_text \<Rightarrow> ('d, 'p) ngx_js_dict \<Rightarrow> uint64 \<Rightarrow> u_char list option" where
  "ngx_js_dict_render_json nt d now = map_option (\<lambda>r. lit ''{'' @ r) (render_nodes nt d now (rbtree d))"

subsection \<open>Parsing strings\<close>

definition is_space :: "u_char \<Rightarrow> bool" where
  "is_space c \<longleftrightarrow> c = 0x20 \<or> c = 0x09 \<or> c = 0x0D \<or> c = 0x0A"

definition ngx_js_skip_space :: "u_char list \<Rightarrow> u_char list" where
  "ngx_js_skip_space p = dropWhile is_space p"

definition unicode_digit :: "u_char \<Rightarrow> u_char" where
  "unicode_digit ch = (let c = (ch OR 0x20) - 0x30 in if 9 < c then c + (0x30 - 0x61 + 10) else c)"

definition ngx_js_unicode :: "u_char list \<Rightarrow> uint32" where
  "ngx_js_unicode p = foldl (\<lambda>utf ch. push_bit 4 utf OR ucast (unicode_digit ch)) 0 (take 4 p)"

datatype scan_state = sw_usual | sw_escape | sw_encoded1 | sw_encoded2 | sw_encoded3 | sw_encoded4

type_synonym parse_error = "string \<times> u_char list"

definition is_hex_digit :: "u_char \<Rightarrow> bool" where
  "is_hex_digit ch \<longleftrightarrow> 0x30 \<le> ch \<and> ch \<le> 0x39 \<or> 0x41 \<le> ch \<and> ch \<le> 0x46 \<or> 0x61 \<le> ch \<and> ch \<le> 0x66"

fun next_encoded :: "scan_state \<Rightarrow> scan_state" where
  "next_encoded sw_encoded1 = sw_encoded2"
| "next_encoded sw_encoded2 = sw_encoded3"
| "next_encoded sw_encoded3 = sw_encoded4"
| "next_encoded s = sw_usual"

text \<open>The first pass: the bytes up to the closing quote, the surplus of the escapes and the rest from the quote.\<close>

fun scan_string :: "scan_state \<Rightarrow> nat \<Rightarrow> u_char list \<Rightarrow> u_char list \<Rightarrow> parse_error + u_char list \<times> nat \<times> u_char list" where
  "scan_string st surplus acc [] = Inl (''unexpected end of input'', [])"
| "scan_string st surplus acc (ch # p) =
     (case st of
        sw_usual \<Rightarrow>
          (if ch = 0x22 then Inr (acc, surplus, ch # p)
           else if ch = 0x5C then scan_string sw_escape surplus (acc @ [ch]) p
           else if 0x20 \<le> ch then scan_string sw_usual surplus (acc @ [ch]) p
           else Inl (''Invalid source char'', ch # p))
      | sw_escape \<Rightarrow>
          (if ch \<in> {0x22, 0x5C, 0x2F, 0x6E, 0x72, 0x74, 0x62, 0x66} then scan_string sw_usual (surplus + 1) (acc @ [ch]) p
           else if ch = 0x75 then scan_string sw_encoded1 (surplus + 3) (acc @ [ch]) p
           else Inl (''Invalid escape char'', ch # p))
      | _ \<Rightarrow>
          (if is_hex_digit ch then scan_string (next_encoded st) surplus (acc @ [ch]) p
           else Inl (''Invalid Unicode escape sequence'', ch # p)))"

definition encode_utf :: "uint32 \<Rightarrow> u_char list" where
  "encode_utf u = (case njs_utf8_encode u of Some bs \<Rightarrow> bs | None \<Rightarrow> [])"

text \<open>An escape, after its backslash: the bytes it stands for and what follows.\<close>

definition unescape_one :: "u_char \<Rightarrow> u_char list \<Rightarrow> u_char list \<times> u_char list" where
  "unescape_one ch p =
     (if ch \<in> {0x22, 0x5C, 0x2F} then ([ch], p)
      else if ch = 0x6E then ([0x0A], p)
      else if ch = 0x72 then ([0x0D], p)
      else if ch = 0x74 then ([0x09], p)
      else if ch = 0x62 then ([0x08], p)
      else if ch = 0x66 then ([0x0C], p)
      else
        (let utf = ngx_js_unicode p; p = drop 4 p
         in if njs_surrogate_any utf then
              (if 0xDBFF < utf \<or> take 2 p \<noteq> [0x5C, 0x75] then (encode_utf NJS_UNICODE_REPLACEMENT, p)
               else
                 (let p = drop 2 p; utf_low = ngx_js_unicode p; p = drop 4 p
                  in if njs_surrogate_trailing utf_low then (encode_utf (njs_surrogate_pair utf utf_low), p)
                     else if njs_surrogate_leading utf_low then
                       (encode_utf NJS_UNICODE_REPLACEMENT @ encode_utf NJS_UNICODE_REPLACEMENT, p)
                     else (encode_utf NJS_UNICODE_REPLACEMENT @ encode_utf utf_low, p)))
            else (encode_utf utf, p)))"

lemma unescape_one_length: "length (snd (unescape_one ch p)) \<le> length p"
  by (auto simp: unescape_one_def Let_def split: if_splits)

text \<open>The second pass, over the bytes between the quotes.\<close>

function unescape :: "u_char list \<Rightarrow> u_char list" where
  "unescape [] = []"
| "unescape (ch # p) =
     (if ch \<noteq> 0x5C then ch # unescape p
      else
        (case p of
           [] \<Rightarrow> []
         | e # q \<Rightarrow> fst (unescape_one e q) @ unescape (snd (unescape_one e q))))"
  by pat_completeness auto
termination
  by (relation "measure length") (auto simp: less_Suc_eq_le intro: le_SucI unescape_one_length)

definition ngx_js_dict_parse_string :: "bool \<Rightarrow> u_char list \<Rightarrow> parse_error + u_char list \<times> u_char list" where
  "ngx_js_dict_parse_string pool_ok p =
     (case p of
        [] \<Rightarrow> Inl (''unexpected character, expected quote'', [])
      | ch # q \<Rightarrow>
          (if ch \<noteq> 0x22 then Inl (''unexpected character, expected quote'', p)
           else
             (case scan_string sw_usual 0 [] q of
                Inl e \<Rightarrow> Inl e
              | Inr (body, surplus, quote) \<Rightarrow>
                  (if surplus \<noteq> 0 then
                     (if pool_ok then Inr (unescape body, tl quote) else Inl (''out of memory'', quote))
                   else Inr (body, tl quote)))))"

subsection \<open>Parsing entries\<close>

record 'd ngx_js_dict_entry =
  entry_key :: ngx_str
  entry_value :: "'d ngx_js_dict_value option"
  entry_expire :: uint64

lemma scan_rest: "scan_string st k acc p = Inr (body, s, l) \<Longrightarrow> length l \<le> length p"
  by (induction st k acc p rule: scan_string.induct) (auto split: scan_state.splits if_splits)

lemma parse_string_rest: "ngx_js_dict_parse_string ok p = Inr (s, q) \<Longrightarrow> length q < length p"
  by (auto simp: ngx_js_dict_parse_string_def less_Suc_eq_le dest!: scan_rest split: list.splits if_splits sum.splits prod.splits)

lemma skip_space_length: "length (ngx_js_skip_space p) \<le> length p"
  by (simp add: ngx_js_skip_space_def length_dropWhile_le)

definition expect_colon :: "u_char list \<Rightarrow> parse_error + u_char list" where
  "expect_colon p =
     (case ngx_js_skip_space p of
        [] \<Rightarrow> Inl (''unexpected end of json'', [])
      | c # q \<Rightarrow>
          (if c \<noteq> 0x3A then Inl (''unexpected character, expected colon'', q)
           else
             (let r = ngx_js_skip_space q
              in if r = [] then Inl (''unexpected end of json'', []) else Inr r)))"

text \<open>The value of a member: a string or a number, kept when the member is one of the two known.\<close>

definition parse_member ::
    "'d num_text \<Rightarrow> ngx_js_dict_type \<Rightarrow> bool \<Rightarrow> ngx_str \<Rightarrow> 'd ngx_js_dict_entry \<Rightarrow> u_char list \<Rightarrow>
     parse_error + 'd ngx_js_dict_entry \<times> bool \<times> u_char list" where
  "parse_member nt ty ok key entry p =
     (if take 1 p = [0x22] then
        (case ngx_js_dict_parse_string ok p of
           Inl e \<Rightarrow> Inl e
         | Inr (str, p) \<Rightarrow>
             (if key = lit ''value'' then
                (if ty \<noteq> NGX_JS_DICT_TYPE_STRING then Inl (''expected string value'', p)
                 else Inr (entry\<lparr>entry_value := Some (dict_str str)\<rparr>, True, p))
              else Inr (entry, False, p)))
      else
        (case strtod nt p of
           (x, n) \<Rightarrow>
             (if n = 0 then Inl (''invalid number value'', p)
              else if key = lit ''value'' then
                (if ty = NGX_JS_DICT_TYPE_STRING then Inl (''expected number value'', drop n p)
                 else Inr (entry\<lparr>entry_value := Some (dict_number x)\<rparr>, True, drop n p))
              else if key = lit ''expire'' then Inr (entry\<lparr>entry_expire := msec_of nt x\<rparr>, False, drop n p)
              else Inr (entry, False, drop n p))))"

lemma parse_member_rest: "parse_member nt ty ok key e p = Inr (e', b, q) \<Longrightarrow> length q \<le> length p"
  by (auto simp: parse_member_def split: if_splits sum.splits prod.splits dest: parse_string_rest)

lemma expect_colon_rest: "expect_colon p = Inr q \<Longrightarrow> length q \<le> length p"
  using skip_space_length[of p] skip_space_length[of "tl (ngx_js_skip_space p)"]
  by (auto simp: expect_colon_def Let_def split: list.splits if_splits)

definition skip_comma :: "u_char list \<Rightarrow> parse_error + u_char list" where
  "skip_comma p =
     (case ngx_js_skip_space p of
        [] \<Rightarrow> Inl (''unexpected end of json'', [])
      | c # q \<Rightarrow> Inr (if c = 0x2C then q else c # q))"

lemma skip_comma_rest: "skip_comma p = Inr q \<Longrightarrow> length q \<le> length p"
proof (cases "ngx_js_skip_space p")
  case (Cons c r)
  assume "skip_comma p = Inr q"
  then have "q = r \<or> q = c # r" using Cons by (simp add: skip_comma_def split: if_splits)
  then have "length q \<le> length (ngx_js_skip_space p)" by (auto simp only: Cons list.size)
  then show ?thesis using skip_space_length[of p] by linarith
qed (simp add: skip_comma_def)

function entry_loop ::
    "'d num_text \<Rightarrow> ngx_js_dict_type \<Rightarrow> bool \<Rightarrow> 'd ngx_js_dict_entry \<Rightarrow> bool \<Rightarrow> u_char list \<Rightarrow>
     parse_error + 'd ngx_js_dict_entry \<times> u_char list" where
  "entry_loop nt ty ok entry see_value p =
     (let p = ngx_js_skip_space p
      in if p = [] then Inl (''unexpected end of json'', [])
         else if hd p = 0x7D then (if \<not> see_value then Inl (''missing value'', p) else Inr (entry, tl p))
         else
           (case ngx_js_dict_parse_string ok p of
              Inl e \<Rightarrow> Inl e
            | Inr (key, p1) \<Rightarrow>
                (case expect_colon p1 of
                   Inl e \<Rightarrow> Inl e
                 | Inr p2 \<Rightarrow>
                     (case parse_member nt ty ok key entry p2 of
                        Inl e \<Rightarrow> Inl e
                      | Inr (entry', see, p3) \<Rightarrow>
                          (case skip_comma p3 of
                             Inl e \<Rightarrow> Inl e
                           | Inr p4 \<Rightarrow> entry_loop nt ty ok entry' (see_value \<or> see) p4)))))"
  by pat_completeness auto
termination
proof (relation "measure (\<lambda>(nt, ty, ok, entry, see, p). length p)", simp)
  fix nt :: "'d num_text" and ty ok and entry entry' :: "'d ngx_js_dict_entry" and see_value see
  fix p x x2 key p1 p2 x2a y x2b ya p3 p4
  assume "x = ngx_js_skip_space p" "ngx_js_dict_parse_string ok x = Inr x2" "(key, p1) = x2" "expect_colon p1 = Inr p2"
    "parse_member nt ty ok key entry p2 = Inr x2a" "(entry', y) = x2a" "(see, p3) = y" "skip_comma p3 = Inr p4"
  then show "((nt, ty, ok, entry', see_value \<or> see, p4), nt, ty, ok, entry, see_value, p) \<in> measure (\<lambda>(nt, ty, ok, entry, see, p). length p)"
    using skip_space_length[of p] parse_string_rest[of ok x key p1] expect_colon_rest[of p1 p2]
      parse_member_rest[of nt ty ok key entry p2 entry' see p3] skip_comma_rest[of p3 p4] by auto
qed

declare entry_loop.simps [simp del]

definition ngx_js_dict_parse_entry ::
    "'d num_text \<Rightarrow> ngx_js_dict_type \<Rightarrow> bool \<Rightarrow> 'd ngx_js_dict_entry \<Rightarrow> u_char list \<Rightarrow>
     parse_error + 'd ngx_js_dict_entry \<times> u_char list" where
  "ngx_js_dict_parse_entry nt ty ok entry p =
     (case p of
        [] \<Rightarrow> Inl (''unexpected character, expected brace'', [])
      | c # q \<Rightarrow>
          (if c \<noteq> 0x7B then Inl (''unexpected character, expected brace'', q) else entry_loop nt ty ok entry False q))"

lemma entry_loop_rest: "entry_loop nt ty ok entry see p = Inr (e, q) \<Longrightarrow> length q \<le> length p"
proof (induction nt ty ok entry see p rule: entry_loop.induct)
  case (1 nt ty ok entry see p)
  let ?p = "ngx_js_skip_space p"
  show ?case
  proof (cases "?p = [] \<or> hd ?p = 0x7D")
    case True
    then show ?thesis using "1.prems" skip_space_length[of p]
      by (subst (asm) entry_loop.simps) (cases ?p, auto simp: Let_def split: if_splits)
  next
    case False
    then obtain key p1 p2 entry' s p3 p4 where
      step: "ngx_js_dict_parse_string ok ?p = Inr (key, p1)" "expect_colon p1 = Inr p2"
        "parse_member nt ty ok key entry p2 = Inr (entry', s, p3)" "skip_comma p3 = Inr p4"
      and more: "entry_loop nt ty ok entry' (see \<or> s) p4 = Inr (e, q)"
      using "1.prems" by (subst (asm) entry_loop.simps) (auto simp: Let_def split: sum.splits prod.splits)
    have nil: "?p \<noteq> []" "hd ?p \<noteq> 0x7D" using False by auto
    have "length q \<le> length p4"
      using "1.IH"[OF refl nil step(1) refl step(2) step(3) refl refl step(4) more] .
    then show ?thesis
      using skip_space_length[of p] parse_string_rest[OF step(1)] expect_colon_rest[OF step(2)]
        parse_member_rest[OF step(3)] skip_comma_rest[OF step(4)] by linarith
  qed
qed

lemma parse_entry_rest: "ngx_js_dict_parse_entry nt ty ok entry p = Inr (e, q) \<Longrightarrow> length q \<le> length p"
  by (auto simp: ngx_js_dict_parse_entry_def dest!: entry_loop_rest split: list.splits if_splits)

text \<open>The loop over the entries of the file.  When the array cannot grow nothing is logged: the message is empty.\<close>

function state_loop ::
    "'d num_text \<Rightarrow> ngx_js_dict_type \<Rightarrow> bool \<Rightarrow> 'd ngx_js_dict_entry list \<Rightarrow> u_char list \<Rightarrow>
     parse_error + 'd ngx_js_dict_entry list \<times> u_char list" where
  "state_loop nt ty ok entries p =
     (let p = ngx_js_skip_space p
      in if p = [] then Inl (''unexpected end of json'', [])
         else if hd p = 0x7D then Inr (entries, tl p)
         else if \<not> ok then Inl ([], p)
         else
           (case ngx_js_dict_parse_string ok p of
              Inl e \<Rightarrow> Inl e
            | Inr (key, p1) \<Rightarrow>
                (case expect_colon p1 of
                   Inl e \<Rightarrow> Inl e
                 | Inr p2 \<Rightarrow>
                     (case ngx_js_dict_parse_entry nt ty ok
                             \<lparr>entry_key = key, entry_value = None, entry_expire = junk_expire nt\<rparr> p2 of
                        Inl e \<Rightarrow> Inl e
                      | Inr (entry, p3) \<Rightarrow>
                          (case skip_comma p3 of
                             Inl e \<Rightarrow> Inl e
                           | Inr p4 \<Rightarrow> state_loop nt ty ok (entries @ [entry]) p4)))))"
  by pat_completeness auto
termination
proof (relation "measure (\<lambda>(nt, ty, ok, entries, p). length p)", simp)
  fix nt :: "'d num_text" and ty ok and entries :: "'d ngx_js_dict_entry list" and entry :: "'d ngx_js_dict_entry"
  fix p x x2 key p1 p2 x2a p3 p4
  assume "x = ngx_js_skip_space p" "ngx_js_dict_parse_string ok x = Inr x2" "(key, p1) = x2" "expect_colon p1 = Inr p2"
    "ngx_js_dict_parse_entry nt ty ok \<lparr>entry_key = key, entry_value = None, entry_expire = junk_expire nt\<rparr> p2 = Inr x2a"
    "(entry, p3) = x2a" "skip_comma p3 = Inr p4"
  then show "((nt, ty, ok, entries @ [entry], p4), nt, ty, ok, entries, p) \<in> measure (\<lambda>(nt, ty, ok, entries, p). length p)"
    using skip_space_length[of p] parse_string_rest[of ok x key p1] expect_colon_rest[of p1 p2]
      parse_entry_rest[of nt ty ok "\<lparr>entry_key = key, entry_value = None, entry_expire = junk_expire nt\<rparr>" p2 entry p3]
      skip_comma_rest[of p3 p4] by auto
qed

declare state_loop.simps [simp del]

definition ngx_js_dict_parse_state ::
    "'d num_text \<Rightarrow> ngx_js_dict_type \<Rightarrow> bool \<Rightarrow> u_char list \<Rightarrow> parse_error + 'd ngx_js_dict_entry list" where
  "ngx_js_dict_parse_state nt ty ok buf =
     (case ngx_js_skip_space buf of
        [] \<Rightarrow> Inl (''empty json'', [])
      | c # p \<Rightarrow>
          (if c \<noteq> 0x7B then Inl (''json must start with brace'', p)
           else
             (case state_loop nt ty ok [] p of
                Inl e \<Rightarrow> Inl e
              | Inr (entries, q) \<Rightarrow>
                  (let r = ngx_js_skip_space q
                   in if r \<noteq> [] then Inl (''unexpected character, expected end of json'', r) else Inr entries))))"

subsection \<open>Loading and saving\<close>

text \<open>
  The loop of \<open>ngx_js_dict_load\<close> over the parsed entries.  The values are added with 1 for the
  current time, so that nothing expires meanwhile.
\<close>

fun load_loop ::
    "('d, 'p) dict_env \<Rightarrow> uint64 \<Rightarrow> ('d, 'p) ngx_js_dict \<Rightarrow> 'd ngx_js_dict_entry list \<Rightarrow> ngx_rc \<times> ('d, 'p) ngx_js_dict" where
  "load_loop env now d [] = (NGX_OK, d)"
| "load_loop env now d (e # es) =
     (if timeout d \<noteq> 0 \<and> entry_expire e \<noteq> 0 \<and> entry_expire e \<le> now then load_loop env now (d\<lparr>dirty := True\<rparr>) es
      else
        (let (expire, d) =
               (if timeout d \<noteq> 0
                then (if entry_expire e = 0 then (now + timeout d, d\<lparr>dirty := True\<rparr>) else (entry_expire e, d))
                else (0, d))
         in if ngx_js_dict_lookup env d (entry_key e) \<noteq> None then (NGX_ERROR, d)
            else
              (case entry_value e of
                 None \<Rightarrow> (NGX_ERROR, d)
               | Some v \<Rightarrow>
                   (case ngx_js_dict_add_value env d (entry_key e) v expire 1 of
                      (rc, d) \<Rightarrow> if rc \<noteq> NGX_OK then (NGX_ERROR, d) else load_loop env now d es))))"

text \<open>The file: absent, not readable, or its bytes; what follows a failed read is an error.\<close>

datatype state_file_content = file_missing | file_error | file_bytes "u_char list"

definition ngx_js_dict_load ::
    "('d, 'p) dict_env \<Rightarrow> 'd num_text \<Rightarrow> bool \<Rightarrow> state_file_content \<Rightarrow> uint64 \<Rightarrow> ('d, 'p) ngx_js_dict \<Rightarrow>
     ngx_rc \<times> ('d, 'p) ngx_js_dict" where
  "ngx_js_dict_load env nt ok file now d =
     (if \<not> state_file d then (NGX_OK, d)
      else
        (case file of
           file_missing \<Rightarrow> (NGX_OK, d)
         | file_error \<Rightarrow> (NGX_ERROR, d)
         | file_bytes bs \<Rightarrow>
             (if bs = [] then (NGX_OK, d)
              else if \<not> ok then (NGX_ERROR, d)
              else
                (case ngx_js_dict_parse_state nt (dict_type d) ok bs of
                   Inl _ \<Rightarrow> (NGX_ERROR, d)
                 | Inr entries \<Rightarrow> load_loop env now d entries))))"

text \<open>
  Saving happens in two turns: the dictionary is rendered under the lock and marked as being
  written, then the file is written and renamed, which may fail.
\<close>

definition save_begin ::
    "'d num_text \<Rightarrow> bool \<Rightarrow> uint64 \<Rightarrow> ('d, 'p) ngx_js_dict \<Rightarrow> ngx_rc \<times> u_char list option \<times> ('d, 'p) ngx_js_dict" where
  "save_begin nt pool_ok now d =
     (if \<not> pool_ok then (NGX_ERROR, None, d)
      else
        (let d = wlock d
         in if \<not> dirty d then (NGX_OK, None, unlock d)
            else if writing d then (NGX_AGAIN, None, unlock d)
            else
              (let d = rlock d
               in case ngx_js_dict_render_json nt d now of
                    None \<Rightarrow> (NGX_ERROR, None, unlock d)
                  | Some json \<Rightarrow> (NGX_DONE, Some json, unlock (d\<lparr>writing := True, dirty := False\<rparr>)))))"

definition save_end :: "bool \<Rightarrow> ('d, 'p) ngx_js_dict \<Rightarrow> ngx_rc \<times> ('d, 'p) ngx_js_dict" where
  "save_end written d =
     (if written then (NGX_OK, d\<lparr>writing := False\<rparr>) else (NGX_ERROR, d\<lparr>writing := False, dirty := True\<rparr>))"

text \<open>\<open>ngx_js_dict_save_handler\<close>: a failed or postponed save is tried again by the timer.\<close>

definition ngx_js_dict_save_handler :: "bool \<Rightarrow> ngx_rc \<Rightarrow> ('d, 'p) ngx_js_dict \<Rightarrow> ('d, 'p) ngx_js_dict" where
  "ngx_js_dict_save_handler exiting rc d =
     (if rc = NGX_OK then d
      else if rc = NGX_ERROR \<and> exiting then d
      else d\<lparr>timer_set := True\<rparr>)"

end
