(* ===== verification/Ngx_Js_Dict_State_Props.thy ===== *)
theory Ngx_Js_Dict_State_Props
  imports Ngx_Js_Dict_State Ngx_Js_Dict_Props
begin

section \<open>Saving and loading a shared dictionary\<close>

text \<open>
  Strings, entries and whole dictionaries survive the way to the state file and back, and the
  parser of the state file writes no more than it has allocated.
\<close>

subsection \<open>Strings\<close>

definition plain :: "u_char \<Rightarrow> bool" where
  "plain c \<longleftrightarrow> 0x20 \<le> c \<and> c \<noteq> 0x5C \<and> c \<noteq> 0x22"

lemma scan_plain: "list_all plain xs \<Longrightarrow> scan_string sw_usual k acc (xs @ p) = scan_string sw_usual k (acc @ xs) p"
  by (induction xs arbitrary: acc) (simp_all add: plain_def)

lemma unescape_plain: "list_all plain xs \<Longrightarrow> unescape (xs @ p) = xs @ unescape p"
  by (induction xs) (simp_all add: plain_def)

lemma trail_plain: "c AND 0xC0 = 0x80 \<Longrightarrow> plain c" for c :: u_char
proof -
  assume a: "c AND 0xC0 = 0x80"
  have "c AND 0xC0 \<le> c" by (simp add: word_and_le1 word_and_le2)
  then have "0x80 \<le> c" using a by simp
  then have "0x20 \<le> c" by (rule order_trans[rotated]) simp
  then show ?thesis using \<open>0x80 \<le> c\<close> by (auto simp: plain_def)
qed

lemma copy_trail_split: "copy_trail dst cs = (out, rest) \<Longrightarrow> \<exists>t. out = dst @ t \<and> cs = t @ rest \<and> list_all plain t"
proof (induction dst cs rule: copy_trail.induct)
  case (2 dst c cs)
  then show ?case
  proof (cases "c AND 0xC0 = 0x80")
    case True
    then obtain t where "out = (dst @ [c]) @ t" "cs = t @ rest" "list_all plain t" using 2 by auto
    then show ?thesis using trail_plain[OF True] by (intro exI[of _ "c # t"]) simp
  qed auto
qed simp

lemma copy_split:
  assumes "njs_utf8_copy (c # cs) = Some (out, rest)" "\<not> (c < 0x20 \<or> c = 0x5C \<or> c = 0x22)"
  shows "c # cs = out @ rest" "list_all plain out"
  using assms copy_trail_split[of "[c]" cs out rest]
  by (auto simp: njs_utf8_copy_def plain_def not_less split: if_splits)

lemma below_20: "c < 0x20 \<Longrightarrow> c \<in> set (map word_of_nat [0..<32])" for c :: u_char
proof -
  assume "c < 0x20"
  then have "unat c \<in> set [0..<32]" by (simp add: word_less_nat_alt)
  then have "(word_of_nat (unat c) :: u_char) \<in> word_of_nat ` set [0..<32]" by (rule imageI)
  then show ?thesis by simp
qed

definition escape_ok :: "u_char \<Rightarrow> bool" where
  "escape_ok c \<longleftrightarrow>
     (case escape_char c of
        b # e # t \<Rightarrow> b = 0x5C \<and>
          (t = [] \<and> e \<in> {0x22, 0x5C, 0x2F, 0x6E, 0x72, 0x74, 0x62, 0x66} \<and> unescape_one e [] = ([c], []) \<or>
           e = 0x75 \<and> length t = 4 \<and> list_all is_hex_digit t \<and> encode_utf (ngx_js_unicode t) = [c] \<and>
             \<not> njs_surrogate_any (ngx_js_unicode t))
      | _ \<Rightarrow> False)"

lemma escapes_ok: "list_all escape_ok (map word_of_nat [0..<32])" "escape_ok 0x5C" "escape_ok 0x22"
  by code_simp+

lemma escape_ok: "c < 0x20 \<or> c = 0x5C \<or> c = 0x22 \<Longrightarrow> escape_ok c"
  using escapes_ok below_20[of c] by (auto simp: list_all_iff)

lemma unescape_one_simple: "e \<in> {0x22, 0x5C, 0x2F, 0x6E, 0x72, 0x74, 0x62, 0x66} \<Longrightarrow> unescape_one e p = (fst (unescape_one e []), p)"
  by (auto simp: unescape_one_def)

lemma unescape_one_u:
  "length t = 4 \<Longrightarrow> \<not> njs_surrogate_any (ngx_js_unicode t) \<Longrightarrow> unescape_one 0x75 (t @ p) = (encode_utf (ngx_js_unicode t), p)"
  by (simp add: unescape_one_def ngx_js_unicode_def)

lemma scan_hex4:
  "length t = 4 \<Longrightarrow> list_all is_hex_digit t \<Longrightarrow> scan_string sw_encoded1 k acc (t @ p) = scan_string sw_usual k (acc @ t) p"
  by (auto simp: numeral_eq_Suc length_Suc_conv)

lemma escaped:
  assumes "c < 0x20 \<or> c = 0x5C \<or> c = 0x22"
  shows "unescape (escape_char c @ p) = c # unescape p"
    "\<exists>k'. k' \<noteq> 0 \<and> scan_string sw_usual k acc (escape_char c @ p) = scan_string sw_usual (k + k') (acc @ escape_char c) p"
proof -
  obtain e t where e: "escape_char c = 0x5C # e # t"
    and "t = [] \<and> e \<in> {0x22, 0x5C, 0x2F, 0x6E, 0x72, 0x74, 0x62, 0x66} \<and> unescape_one e [] = ([c], []) \<or>
      e = 0x75 \<and> length t = 4 \<and> list_all is_hex_digit t \<and> encode_utf (ngx_js_unicode t) = [c] \<and>
        \<not> njs_surrogate_any (ngx_js_unicode t)"
    using escape_ok[OF assms] by (auto simp: escape_ok_def split: list.splits)
  then consider (simple) "t = []" "e \<in> {0x22, 0x5C, 0x2F, 0x6E, 0x72, 0x74, 0x62, 0x66}" "unescape_one e [] = ([c], [])"
    | (u) "e = 0x75" "length t = 4" "list_all is_hex_digit t" "encode_utf (ngx_js_unicode t) = [c]"
        "\<not> njs_surrogate_any (ngx_js_unicode t)"
    by blast
  then have "unescape (escape_char c @ p) = c # unescape p \<and>
    (\<exists>k'. k' \<noteq> 0 \<and> scan_string sw_usual k acc (escape_char c @ p) = scan_string sw_usual (k + k') (acc @ escape_char c) p)"
  proof cases
    case simple
    then show ?thesis using unescape_one_simple[OF simple(2), of p]
      by (auto simp: e intro: exI[of _ 1])
  next
    case u
    then show ?thesis using unescape_one_u[OF u(2,5), of p] scan_hex4[OF u(2,3)]
      by (auto simp: e intro!: exI[of _ 3])
  qed
  then show "unescape (escape_char c @ p) = c # unescape p"
    "\<exists>k'. k' \<noteq> 0 \<and> scan_string sw_usual k acc (escape_char c @ p) = scan_string sw_usual (k + k') (acc @ escape_char c) p"
    by blast+
qed

lemma rendered_scan:
  "render_loop s = Some r \<Longrightarrow>
   unescape r = s \<and>
   (\<exists>k'. scan_string sw_usual k acc (r @ 0x22 # rest) = Inr (acc @ r, k + k', 0x22 # rest) \<and> (k' = 0 \<longrightarrow> r = s))"
proof (induction s arbitrary: r k acc rule: render_loop.induct)
  case (2 c cs)
  show ?case
  proof (cases "c < 0x20 \<or> c = 0x5C \<or> c = 0x22")
    case True
    then obtain r' where r: "render_loop cs = Some r'" "r = escape_char c @ r'" using "2.prems" by auto
    obtain k1 where k1: "k1 \<noteq> 0" "scan_string sw_usual k acc (escape_char c @ r' @ 0x22 # rest) =
        scan_string sw_usual (k + k1) (acc @ escape_char c) (r' @ 0x22 # rest)" using escaped(2)[OF True] by blast
    show ?thesis
      using "2.IH"(1)[OF True r(1), of "k + k1" "acc @ escape_char c"] k1 escaped(1)[OF True, of r'] r(2)
      by (auto simp: add.assoc intro: exI[of _ "k1 + _"])
  next
    case False
    obtain out q where o: "njs_utf8_copy (c # cs) = Some (out, q)" "map_option (\<lambda>r. out @ r) (render_loop q) = Some r"
      using "2.prems" False by (auto split: option.splits)
    then obtain r' where r: "render_loop q = Some r'" "r = out @ r'" by auto
    note split = copy_split[OF o(1) False]
    show ?thesis
      using "2.IH"(2)[OF False o(1) refl r(1), of k "acc @ out"] split scan_plain[OF split(2), of k acc] unescape_plain[OF split(2), of r'] r(2)
      by auto
  qed
qed simp

lemma string_roundtrip:
  "ngx_js_render_string s = Some r \<Longrightarrow> ngx_js_dict_parse_string True (r @ rest) = Inr (s, rest)"
proof -
  assume "ngx_js_render_string s = Some r"
  then obtain b where b: "render_loop s = Some b" "r = 0x22 # b @ [0x22]" by (auto simp: ngx_js_render_string_def)
  obtain k where "scan_string sw_usual 0 [] (b @ 0x22 # rest) = Inr (b, k, 0x22 # rest)" "k = 0 \<longrightarrow> b = s" "unescape b = s"
    using rendered_scan[OF b(1), of 0 "[]" rest] by auto
  then show ?thesis by (auto simp: ngx_js_dict_parse_string_def b(2))
qed

subsection \<open>The memory of an unescaped string\<close>

inductive escaped_text :: "u_char list \<Rightarrow> nat \<Rightarrow> bool" where
  empty: "escaped_text [] 0"
| usual: "escaped_text p k \<Longrightarrow> ch \<noteq> 0x5C \<Longrightarrow> escaped_text (ch # p) k"
| simple: "escaped_text p k \<Longrightarrow> e \<in> {0x22, 0x5C, 0x2F, 0x6E, 0x72, 0x74, 0x62, 0x66} \<Longrightarrow> escaped_text (0x5C # e # p) (k + 1)"
| encoded: "escaped_text p k \<Longrightarrow> length t = 4 \<Longrightarrow> list_all is_hex_digit t \<Longrightarrow> escaped_text (0x5C # 0x75 # t @ p) (k + 3)"

lemma scan_encoded_step:
  assumes "scan_string st k acc p = Inr res" "st \<in> {sw_encoded1, sw_encoded2, sw_encoded3, sw_encoded4}"
  obtains h r where "p = h # r" "is_hex_digit h" "scan_string (next_encoded st) k (acc @ [h]) r = Inr res"
  using assms by (cases p) (auto split: if_splits)

lemma scan_encoded:
  assumes "scan_string sw_encoded1 k acc p = Inr res"
  obtains t r where "length t = 4" "list_all is_hex_digit t" "p = t @ r" "scan_string sw_usual k (acc @ t) r = Inr res"
proof -
  obtain h1 r1 where 1: "p = h1 # r1" "is_hex_digit h1" "scan_string sw_encoded2 k (acc @ [h1]) r1 = Inr res"
    using assms by (rule scan_encoded_step) auto
  obtain h2 r2 where 2: "r1 = h2 # r2" "is_hex_digit h2" "scan_string sw_encoded3 k ((acc @ [h1]) @ [h2]) r2 = Inr res"
    using 1(3) by (rule scan_encoded_step) auto
  obtain h3 r3 where 3: "r2 = h3 # r3" "is_hex_digit h3" "scan_string sw_encoded4 k (((acc @ [h1]) @ [h2]) @ [h3]) r3 = Inr res"
    using 2(3) by (rule scan_encoded_step) auto
  obtain h4 r4 where 4: "r3 = h4 # r4" "is_hex_digit h4" "scan_string sw_usual k ((((acc @ [h1]) @ [h2]) @ [h3]) @ [h4]) r4 = Inr res"
    using 3(3) by (rule scan_encoded_step) auto
  show thesis using that[of "[h1, h2, h3, h4]" r4] 1 2 3 4 by simp
qed

lemma scan_escaped_text:
  assumes "scan_string sw_usual k acc p = Inr (body, s, q)"
  shows "\<exists>b k'. body = acc @ b \<and> s = k + k' \<and> p = b @ q \<and> take 1 q = [0x22] \<and> escaped_text b k'"
  using assms
proof (induction "length p" arbitrary: p k acc rule: less_induct)
  case less
  obtain ch p1 where p: "p = ch # p1" using less.prems by (cases p) auto
  consider (quote) "ch = 0x22" | (esc) "ch = 0x5C" | (other) "ch \<noteq> 0x22" "ch \<noteq> 0x5C" "scan_string sw_usual k (acc @ [ch]) p1 = Inr (body, s, q)"
    using less.prems by (auto simp: p split: if_splits)
  then show ?case
  proof cases
    case quote
    then show ?thesis using less.prems empty by (auto simp: p)
  next
    case other
    then show ?thesis using less.hyps[OF _ other(3)] by (force simp: p intro: usual)
  next
    case esc
    then obtain e p2 where p1: "p1 = e # p2" using less.prems by (cases p1) (auto simp: p)
    consider (s) "e \<in> {0x22, 0x5C, 0x2F, 0x6E, 0x72, 0x74, 0x62, 0x66}" "scan_string sw_usual (k + 1) (acc @ [ch, e]) p2 = Inr (body, s, q)"
      | (u) "e = 0x75" "scan_string sw_encoded1 (k + 3) (acc @ [ch, e]) p2 = Inr (body, s, q)"
      using less.prems esc by (auto simp: p p1 split: if_splits)
    then show ?thesis
    proof cases
      case s
      obtain b k' where "body = (acc @ [ch, e]) @ b" "s = k + 1 + k'" "p2 = b @ q" "take 1 q = [0x22]" "escaped_text b k'"
        using less.hyps[OF _ s(2)] by (auto simp: p p1)
      then show ?thesis using simple[OF _ s(1), of b k'] by (intro exI[of _ "ch # e # b"] exI[of _ "k' + 1"]) (simp add: p p1 esc)
    next
      case u
      obtain t r where t: "length t = 4" "list_all is_hex_digit t" "p2 = t @ r" "scan_string sw_usual (k + 3) ((acc @ [ch, e]) @ t) r = Inr (body, s, q)"
        using u(2) by (rule scan_encoded)
      obtain b k' where "body = ((acc @ [ch, e]) @ t) @ b" "s = k + 3 + k'" "r = b @ q" "take 1 q = [0x22]" "escaped_text b k'"
        using less.hyps[OF _ t(4)] by (auto simp: p p1 t(3))
      then show ?thesis using encoded[OF _ t(1,2), of b k']
        by (intro exI[of _ "ch # e # t @ b"] exI[of _ "k' + 3"]) (simp add: p p1 esc u t(3))
    qed
  qed
qed

lemma encode_length: "length (encode_utf u) \<le> 4" "u < 0x10000 \<Longrightarrow> length (encode_utf u) \<le> 3"
  by (auto simp: encode_utf_def njs_utf8_encode_def Let_def split: option.splits if_splits)

lemma below_upto: "c < 0x67 \<Longrightarrow> c \<in> set (map word_of_nat [0..<103])" for c :: u_char
proof -
  assume "c < 0x67"
  then have "unat c \<in> set [0..<103]" by (simp add: word_less_nat_alt)
  then have "(word_of_nat (unat c) :: u_char) \<in> word_of_nat ` set [0..<103]" by (rule imageI)
  then show ?thesis by simp
qed

lemma hex_digit_values: "list_all (\<lambda>h. is_hex_digit h \<longrightarrow> unicode_digit h \<le> 15) (map word_of_nat [0..<103])"
  by code_simp

lemma hex_digit_value: "is_hex_digit h \<Longrightarrow> unicode_digit h \<le> 15"
proof -
  assume a: "is_hex_digit h"
  then have "h < 0x67" unfolding is_hex_digit_def word_less_nat_alt word_le_nat_alt by auto
  then show ?thesis using below_upto[of h] hex_digit_values a by (auto simp: list_all_iff)
qed

lemma push_nibble:
  fixes u :: uint32 and d :: u_char
  assumes "unat u < 2 ^ n" "unat d < 16" "n + 4 \<le> 32"
  shows "unat (push_bit 4 u OR ucast d) < 2 ^ (n + 4)"
proof -
  have "push_bit 4 (unat u) < 2 ^ (n + 4)" using assms(1) by (simp add: push_bit_eq_mult power_add)
  moreover have "unat d < 2 ^ (n + 4)" using assms(2) by (rule less_le_trans) (simp add: power_add)
  ultimately have "push_bit 4 (unat u) OR unat d < 2 ^ (n + 4)"
    by (simp add: take_bit_nat_eq_self_iff[symmetric])
  moreover have "(2 :: nat) ^ (n + 4) \<le> 2 ^ 32" using assms(3) by (intro power_increasing) auto
  moreover have "unat (ucast d :: uint32) = unat d"
    using assms(2) by (simp add: unsigned_ucast_eq take_bit_eq_mod unat_mod)
  moreover have "take_bit 32 (push_bit 4 (unat u)) = push_bit 4 (unat u)"
    by (rule take_bit_nat_eq_self[OF less_le_trans[OF \<open>push_bit 4 (unat u) < 2 ^ (n + 4)\<close> \<open>(2 :: nat) ^ (n + 4) \<le> 2 ^ 32\<close>]])
  ultimately show ?thesis
    by (simp add: unsigned_or_eq unsigned_push_bit_eq)
qed
lemma unicode_below: 
  assumes "length t = 4" "list_all is_hex_digit t"
  shows "ngx_js_unicode t < 0x10000"
proof -
  obtain a b c d where t: "t = [a, b, c, d]" using assms(1) by (auto simp: numeral_eq_Suc length_Suc_conv)
  have h: "unat (unicode_digit x) < 16" if "x \<in> set t" for x
    using hex_digit_value[of x] that assms(2) by (simp add: list_all_iff word_le_nat_alt)
  have d: "unat (unicode_digit a) < 16" "unat (unicode_digit b) < 16" "unat (unicode_digit c) < 16" "unat (unicode_digit d) < 16"
    using h by (simp_all add: t)
  have "unat (0 :: uint32) < 2 ^ 0" by simp
  note s = push_nibble[OF push_nibble[OF push_nibble[OF push_nibble[OF this d(1)] d(2)] d(3)] d(4)]
  show ?thesis unfolding ngx_js_unicode_def t word_less_nat_alt using s by simp
qed

inductive_cases escaped_backslash: "escaped_text (0x5C # p) k"

lemma escaped_u:
  assumes "escaped_text (0x5C # 0x75 # p) k"
  obtains t r j where "length t = 4" "list_all is_hex_digit t" "p = t @ r" "escaped_text r j" "k = j + 3"
  using assms by (auto elim: escaped_backslash)

lemma unescape_one_u_fits:
  assumes "escaped_text p k" "length t = 4" "list_all is_hex_digit t"
  shows "case unescape_one 0x75 (t @ p) of (out, r) \<Rightarrow>
    r = p \<and> length out \<le> 3 \<or> (\<exists>j. escaped_text r j \<and> k = j + 3 \<and> length p = length r + 6 \<and> length out \<le> 6)"
proof -
  have u: "ngx_js_unicode (t @ x) = ngx_js_unicode t" for x using assms(2) by (simp add: ngx_js_unicode_def)
  have rep: "length (encode_utf NJS_UNICODE_REPLACEMENT) = 3" by code_simp
  have s: "length (encode_utf (ngx_js_unicode t)) \<le> 3" using encode_length(2) unicode_below[OF assms(2,3)] by blast
  show ?thesis
  proof (cases "njs_surrogate_any (ngx_js_unicode t) \<and> \<not> (0xDBFF < ngx_js_unicode t \<or> take 2 p \<noteq> [0x5C, 0x75])")
    case False
    then show ?thesis using s rep assms(2) by (auto simp: unescape_one_def u Let_def)
  next
    case True
    then obtain q where q: "p = 0x5C # 0x75 # q" by (cases p; cases "tl p") (auto simp: numeral_2_eq_2)
    obtain t2 r j where r: "length t2 = 4" "list_all is_hex_digit t2" "q = t2 @ r" "escaped_text r j" "k = j + 3"
      using assms(1) unfolding q by (rule escaped_u)
    have u2: "ngx_js_unicode (t2 @ r) = ngx_js_unicode t2" using r(1) by (simp add: ngx_js_unicode_def)
    have s2: "length (encode_utf (ngx_js_unicode t2)) \<le> 3" using encode_length(2) unicode_below[OF r(1,2)] by blast
    have "length (fst (unescape_one 0x75 (t @ p))) \<le> 6 \<and> snd (unescape_one 0x75 (t @ p)) = r"
      using True s2 rep assms(2) r(1) encode_length(1)[of "njs_surrogate_pair (ngx_js_unicode t) (ngx_js_unicode t2)"]
      by (auto simp: unescape_one_def u u2 q r(3) Let_def)
    then show ?thesis using r by (auto simp: q split: prod.splits)
  qed
qed

lemma unescape_fits: "escaped_text b k \<Longrightarrow> length (unescape b) + k \<le> length b"
proof (induction "length b" arbitrary: b k rule: less_induct)
  case less
  from less.prems show ?case
  proof cases
    case (usual p ch)
    then show ?thesis using less.hyps[OF _ usual(2)] by simp
  next
    case (simple p j e)
    have "length (fst (unescape_one e [])) = 1" using simple(4) by (auto simp: unescape_one_def)
    then show ?thesis using less.hyps[OF _ simple(3)] unescape_one_simple[OF simple(4), of p] by (simp add: simple)
  next
    case (encoded p j t)
    obtain out r where o: "unescape_one 0x75 (t @ p) = (out, r)" by (metis surj_pair)
    have b: "length (unescape b) = length out + length (unescape r)" by (simp add: encoded o)
    have l: "length b = 6 + length p" "k = j + 3" using encoded(4) by (simp_all add: encoded(1,2))
    from unescape_one_u_fits[OF encoded(3-5)] consider "r = p" "length out \<le> 3"
      | i where "escaped_text r i" "j = i + 3" "length p = length r + 6" "length out \<le> 6" by (auto simp: o)
    then show ?thesis
    proof cases
      case 1
      then show ?thesis using less.hyps[OF _ encoded(3)] b l by simp
    next
      case 2
      then show ?thesis using less.hyps[OF _ 2(1)] b l by simp
    qed
  qed simp
qed

text \<open>
  C8.  The second pass over a string of the state file writes into the block that the first pass
  measured: the bytes between the quotes less the surplus of the escapes.  So whatever
  \<open>\uXXXX\<close> sequences the file has, lone and paired surrogates among them, the unescaped string
  fits; and the first pass finds the closing quote that the second one stops at.
\<close>

theorem dict_string_fits:
  assumes "scan_string sw_usual 0 [] p = Inr (body, surplus, q)"
  shows "p = body @ q \<and> take 1 q = [0x22] \<and> surplus \<le> length body \<and> length (unescape body) \<le> length body - surplus"
  using scan_escaped_text[OF assms] unescape_fits by fastforce

theorem dict_string_fits_witness:
  "length (unescape [0x5C, 0x75, 0x64, 0x38, 0x33, 0x64, 0x5C, 0x75, 0x64, 0x65, 0x30, 0x30, 0x5C, 0x75, 0x64, 0x38, 0x30, 0x30, 0x5C, 0x6E])
   \<le> 20 - 10"
proof -
  have "scan_string sw_usual 0 [] [0x5C, 0x75, 0x64, 0x38, 0x33, 0x64, 0x5C, 0x75, 0x64, 0x65, 0x30, 0x30, 0x5C, 0x75, 0x64, 0x38, 0x30, 0x30, 0x5C, 0x6E, 0x22] =
      Inr ([0x5C, 0x75, 0x64, 0x38, 0x33, 0x64, 0x5C, 0x75, 0x64, 0x65, 0x30, 0x30, 0x5C, 0x75, 0x64, 0x38, 0x30, 0x30, 0x5C, 0x6E], 10, [0x22])"
    by code_simp
  from dict_string_fits[OF this] show ?thesis by simp
qed

subsection \<open>The file as a whole\<close>

text \<open>
  What the round trip relies on of the conversions of numbers: \<open>strtod\<close> reads a text back as the
  number it was printed from and stops at the comma or brace that follows it.  For the values this
  holds when six decimals and 26 characters are enough to print them, for the expiry times when
  they are doubles.
\<close>

definition text_of_number :: "'d num_text \<Rightarrow> u_char list \<Rightarrow> 'd \<Rightarrow> bool" where
  "text_of_number nt bs x \<longleftrightarrow>
     bs \<noteq> [] \<and> \<not> is_space (hd bs) \<and> hd bs \<noteq> 0x22 \<and>
     (\<forall>c rest. c \<in> {0x2C, 0x7D} \<longrightarrow> strtod nt (bs @ c # rest) = (x, length bs))"

definition numbers_ok :: "'d num_text \<Rightarrow> ('d, 'p) ngx_js_dict \<Rightarrow> bool" where
  "numbers_ok nt d \<longleftrightarrow>
     (\<forall>a n. node_mem d a = Some n \<longrightarrow>
        (\<forall>x. node_value n = dict_number x \<longrightarrow> text_of_number nt (fmt_f6 nt x) x \<and> length (fmt_f6 nt x) \<le> 26) \<and>
        (timeout d \<noteq> 0 \<longrightarrow> (\<exists>y. text_of_number nt (fmt_ui nt (expire_key n)) y \<and> msec_of nt y = expire_key n)))"

text \<open>The entry a node should come back as.\<close>

definition entry_of :: "'d num_text \<Rightarrow> ('d, 'p) ngx_js_dict \<Rightarrow> addr \<Rightarrow> 'd ngx_js_dict_entry" where
  "entry_of nt d a =
     (case node_mem d a of
        Some n \<Rightarrow> \<lparr>entry_key = sn_str n, entry_value = Some (node_value n),
                   entry_expire = (if timeout d \<noteq> 0 then expire_key n else junk_expire nt)\<rparr>
      | None \<Rightarrow> \<lparr>entry_key = [], entry_value = None, entry_expire = 0\<rparr>)"

lemma skip_none: "p = [] \<or> \<not> is_space (hd p) \<Longrightarrow> ngx_js_skip_space p = p"
  by (cases p) (auto simp: ngx_js_skip_space_def)

lemma space_simps [simp]: "\<not> is_space 0x22" "\<not> is_space 0x2C" "\<not> is_space 0x7D" "\<not> is_space 0x3A" "\<not> is_space 0x7B"
  by (simp_all add: is_space_def)

lemma lit_value: "ngx_js_dict_parse_string True (lit ''\"value\":'' @ p) = Inr (lit ''value'', 0x3A # p)"
  by (simp add: lit_def ngx_js_dict_parse_string_def)

lemma lit_expire: "ngx_js_dict_parse_string True (lit ''\"expire\":'' @ p) = Inr (lit ''expire'', 0x3A # p)"
  by (simp add: lit_def ngx_js_dict_parse_string_def)

lemma expect_colon_at: "p \<noteq> [] \<Longrightarrow> \<not> is_space (hd p) \<Longrightarrow> expect_colon (0x3A # p) = Inr p"
  by (simp add: expect_colon_def skip_none)

definition after_member :: "u_char list \<Rightarrow> u_char list" where
  "after_member p = (if hd p = 0x2C then tl p else p)"

lemma skip_comma_at: "hd p \<in> {0x2C, 0x7D} \<Longrightarrow> p \<noteq> [] \<Longrightarrow> skip_comma p = Inr (after_member p)"
  by (cases p) (auto simp: skip_comma_def skip_none after_member_def)

lemma entry_loop_member:
  assumes "ngx_js_dict_parse_string True p = Inr (key, 0x3A # v)" "take 1 p = [0x22]" "v \<noteq> []" "\<not> is_space (hd v)"
    "parse_member nt ty True key e v = Inr (e', b, q)" "q \<noteq> []" "hd q \<in> {0x2C, 0x7D}"
  shows "entry_loop nt ty True e see p = entry_loop nt ty True e' (see \<or> b) (after_member q)"
proof -
  obtain r where p: "p = 0x22 # r" using assms(2) by (cases p) auto
  show ?thesis
    by (subst entry_loop.simps)
      (use assms in \<open>simp add: p skip_none expect_colon_at skip_comma_at\<close>)
qed

lemma entry_loop_end: "entry_loop nt ty True e True (0x7D # rest) = Inr (e, rest)"
  by (subst entry_loop.simps) (simp add: skip_none)

lemma render_string_quote: "ngx_js_render_string s = Some r \<Longrightarrow> \<exists>t. r = 0x22 # t"
  by (auto simp: ngx_js_render_string_def)

definition value_text :: "'d num_text \<Rightarrow> 'd ngx_js_dict_value \<Rightarrow> u_char list \<Rightarrow> bool" where
  "value_text nt v t \<longleftrightarrow> t \<noteq> [] \<and> \<not> is_space (hd t) \<and>
     (\<forall>ty e c rest. value_ok ty v \<and> c \<in> {0x2C, 0x7D} \<longrightarrow>
        parse_member nt ty True (lit ''value'') e (t @ c # rest) = Inr (e\<lparr>entry_value := Some v\<rparr>, True, c # rest))"

lemma render_value_text:
  assumes "render_value nt v = Some r"
    "\<forall>x. v = dict_number x \<longrightarrow> text_of_number nt (fmt_f6 nt x) x \<and> length (fmt_f6 nt x) \<le> 26"
  shows "\<exists>t. r = lit ''\"value\":'' @ t \<and> value_text nt v t"
proof (cases v)
  case (dict_str s)
  then obtain t where t: "ngx_js_render_string s = Some t" "r = lit ''\"value\":'' @ t" using assms(1) by (auto simp: render_value_def)
  obtain u where "t = 0x22 # u" using render_string_quote[OF t(1)] by blast
  then have "value_text nt v t"
    using string_roundtrip[OF t(1)] by (auto simp: value_text_def parse_member_def value_ok_def dict_str)
  then show ?thesis using t(2) by blast
next
  case (dict_number x)
  have l: "length (lit ''\"value\":'') = 8" by (simp add: lit_def)
  have n: "text_of_number nt (fmt_f6 nt x) x" "length (fmt_f6 nt x) \<le> 26" using assms(2) dict_number by auto
  then have "r = lit ''\"value\":'' @ fmt_f6 nt x" using assms(1) l by (simp add: render_value_def dict_number)
  moreover have "value_text nt v (fmt_f6 nt x)"
    using n(1) by (cases "fmt_f6 nt x") (auto simp: value_text_def text_of_number_def parse_member_def value_ok_def dict_number)
  ultimately show ?thesis by blast
qed

lemma expire_member:
  assumes "text_of_number nt t y" "c \<in> {0x2C, 0x7D}"
  shows "parse_member nt ty True (lit ''expire'') e (t @ c # rest) = Inr (e\<lparr>entry_expire := msec_of nt y\<rparr>, False, c # rest)"
  using assms by (cases t) (auto simp: text_of_number_def parse_member_def lit_def)

lemma render_node_split:
  assumes "render_node nt d n = Some t"
  obtains k v where "ngx_js_render_string (sn_str n) = Some k" "render_value nt (node_value n) = Some v"
    "t = k @ 0x3A # 0x7B # v @ (if timeout d \<noteq> 0 then lit '',\"expire\":'' @ fmt_ui nt (expire_key n) else []) @ [0x7D]"
  using assms by (auto simp: render_node_def lit_def split: option.splits)

lemma parse_entry_back:
  assumes "node_mem d a = Some n" "numbers_ok nt d" "value_ok (dict_type d) (node_value n)" "render_value nt (node_value n) = Some v"
  shows "ngx_js_dict_parse_entry nt (dict_type d) True \<lparr>entry_key = sn_str n, entry_value = None, entry_expire = junk_expire nt\<rparr>
      (0x7B # v @ (if timeout d \<noteq> 0 then lit '',\"expire\":'' @ fmt_ui nt (expire_key n) else []) @ 0x7D # rest)
    = Inr (entry_of nt d a, rest)"
proof -
  let ?e = "\<lparr>entry_key = sn_str n, entry_value = None, entry_expire = junk_expire nt\<rparr>"
  let ?e' = "?e\<lparr>entry_value := Some (node_value n)\<rparr>"
  obtain t where t: "v = lit ''\"value\":'' @ t" "value_text nt (node_value n) t"
    using render_value_text[OF assms(4)] assms(1,2) by (auto simp: numbers_ok_def)
  have member: "entry_loop nt (dict_type d) True ?e False (v @ c # q) = entry_loop nt (dict_type d) True ?e' True (after_member (c # q))"
    if "c \<in> {0x2C, 0x7D}" for c q
    using entry_loop_member[OF lit_value, of "t @ c # q" nt "dict_type d" ?e ?e' True "c # q" False] t assms(3) that
    by (auto simp: value_text_def lit_def)
  show ?thesis
  proof (cases "timeout d = 0")
    case True
    then show ?thesis using member[of "0x7D" rest] assms(1)
      by (simp add: ngx_js_dict_parse_entry_def after_member_def entry_loop_end entry_of_def)
  next
    case False
    let ?x = "fmt_ui nt (expire_key n)"
    obtain y where y: "text_of_number nt ?x y" "msec_of nt y = expire_key n" using assms(1,2) False unfolding numbers_ok_def by blast
    have m: "parse_member nt (dict_type d) True (lit ''expire'') ?e' (?x @ 0x7D # rest) =
        Inr (?e'\<lparr>entry_expire := expire_key n\<rparr>, False, 0x7D # rest)"
      using expire_member[OF y(1)] y(2) by simp
    have "entry_loop nt (dict_type d) True ?e' True (lit ''\"expire\":'' @ ?x @ 0x7D # rest) =
        entry_loop nt (dict_type d) True (?e'\<lparr>entry_expire := expire_key n\<rparr>) True (0x7D # rest)"
      using entry_loop_member[OF lit_expire _ _ _ m, of True] y(1)
      by (cases ?x) (auto simp: text_of_number_def lit_def after_member_def)
    moreover have "lit '',\"expire\":'' = 0x2C # lit ''\"expire\":''" by (simp add: lit_def)
    ultimately show ?thesis using member[of "0x2C" "lit ''\"expire\":'' @ ?x @ 0x7D # rest"] False assms(1)
      by (simp add: ngx_js_dict_parse_entry_def after_member_def entry_loop_end entry_of_def)
  qed
qed

definition state_text_ok :: "('d, 'p) ngx_js_dict \<Rightarrow> bool" where
  "state_text_ok d \<longleftrightarrow> (\<forall>a \<in> set (rbtree d). \<exists>n. node_mem d a = Some n \<and> value_ok (dict_type d) (node_value n))"

lemma state_loop_entry:
  assumes "ngx_js_render_string key = Some k" "p2 \<noteq> []" "hd p2 = 0x7B"
    "ngx_js_dict_parse_entry nt ty True \<lparr>entry_key = key, entry_value = None, entry_expire = junk_expire nt\<rparr> p2 = Inr (e, q)"
    "q \<noteq> []" "hd q \<in> {0x2C, 0x7D}"
  shows "state_loop nt ty True es (k @ 0x3A # p2) = state_loop nt ty True (es @ [e]) (after_member q)"
proof -
  obtain r where k: "k = 0x22 # r" using render_string_quote[OF assms(1)] by blast
  show ?thesis
    by (subst state_loop.simps)
      (use assms string_roundtrip[OF assms(1), of "0x3A # p2"] in \<open>simp add: k skip_none expect_colon_at skip_comma_at\<close>)
qed

lemma state_loop_back:
  assumes "numbers_ok nt d" "\<forall>a \<in> set as. \<exists>n. node_mem d a = Some n \<and> value_ok (dict_type d) (node_value n)"
    "render_nodes nt d now as = Some r"
  shows "state_loop nt (dict_type d) True es r = Inr (es @ map (entry_of nt d) (filter (\<lambda>a. \<not> expired d now a) as), [])"
  using assms(2,3)
proof (induction as arbitrary: es r)
  case Nil
  then show ?case by (subst state_loop.simps) (auto simp: lit_def skip_none)
next
  case (Cons a as)
  show ?case
  proof (cases "expired d now a")
    case False
    obtain n where n: "node_mem d a = Some n" "value_ok (dict_type d) (node_value n)" using Cons.prems(1) by auto
    obtain t r' where t: "render_node nt d n = Some t" "render_nodes nt d now as = Some r'" "r = t @ (if as \<noteq> [] then [0x2C] else []) @ r'"
      using Cons.prems(2) False n by (auto simp: lit_def split: option.splits)
    obtain k v where k: "ngx_js_render_string (sn_str n) = Some k" "render_value nt (node_value n) = Some v"
      "t = k @ 0x3A # 0x7B # v @ (if timeout d \<noteq> 0 then lit '',\"expire\":'' @ fmt_ui nt (expire_key n) else []) @ [0x7D]"
      using t(1) by (rule render_node_split)
    define q where "q = (if as \<noteq> [] then [0x2C] else []) @ r'"
    have "as = [] \<longrightarrow> r' = [0x7D]" using t(2) by (auto simp: lit_def)
    then have q: "q \<noteq> []" "hd q \<in> {0x2C, 0x7D}" "after_member q = r'" by (auto simp: q_def after_member_def)
    have "state_loop nt (dict_type d) True es r = state_loop nt (dict_type d) True (es @ [entry_of nt d a]) r'"
      using state_loop_entry[OF k(1) _ _ parse_entry_back[OF n(1) assms(1) n(2) k(2)] q(1,2), of es] t(3) k(3) q(3)
      by (simp add: q_def)
    then show ?thesis using Cons.IH[OF _ t(2), of "es @ [entry_of nt d a]"] Cons.prems(1) False by simp
  qed (use Cons in simp)
qed

lemma state_roundtrip:
  assumes "numbers_ok nt d" "state_text_ok d" "ngx_js_dict_render_json nt d now = Some j"
  shows "ngx_js_dict_parse_state nt (dict_type d) True j = Inr (map (entry_of nt d) (filter (\<lambda>a. \<not> expired d now a) (rbtree d)))"
proof -
  obtain r where r: "render_nodes nt d now (rbtree d) = Some r" "j = 0x7B # r"
    using assms(3) by (auto simp: ngx_js_dict_render_json_def lit_def)
  show ?thesis using state_loop_back[OF assms(1) _ r(1), of "[]"] assms(2)
    by (simp add: ngx_js_dict_parse_state_def r(2) skip_none state_text_ok_def)
qed

subsection \<open>Loading what was saved\<close>

definition loaded :: "uint64 \<Rightarrow> uint64 \<Rightarrow> 'd ngx_js_dict_entry list \<Rightarrow> (ngx_str \<Rightarrow> 'd ngx_js_dict_value option) \<Rightarrow>
    ngx_str \<Rightarrow> 'd ngx_js_dict_value option" where
  "loaded tm t es w k =
     (case List.find (\<lambda>e. entry_key e = k) es of
        None \<Rightarrow> w k
      | Some e \<Rightarrow> if tm = 0 \<or> t \<le> entry_expire e then entry_value e else None)"

lemma add_value_ok:
  fixes d :: "('d, 'p) ngx_js_dict"
  assumes "\<forall>p n. slab_alloc env p n \<noteq> None" "\<not> evict d" "timeout d = 0 \<or> \<not> evict (ngx_js_dict_expire env d now)"
    "ngx_js_dict_add_value env d key v tmo now = (rc, d')"
  shows "rc = NGX_OK"
proof -
  have alloc: "\<exists>p pool. ngx_js_dict_alloc env d n = (Some p, d\<lparr>shpool := pool\<rparr>)" if "\<not> evict d" for d :: "('d, 'p) ngx_js_dict" and n
    using assms(1) that by (force simp: ngx_js_dict_alloc_def slab_alloc_locked_def split: option.splits prod.splits)
  define d0 where "d0 = (if timeout d \<noteq> 0 then ngx_js_dict_expire env d now else d)"
  have "\<not> evict d0" using assms(2,3) by (auto simp: d0_def)
  obtain a pool where a: "ngx_js_dict_alloc env d0 (node_size env + length key) = (Some a, d0\<lparr>shpool := pool\<rparr>)"
    using alloc[OF \<open>\<not> evict d0\<close>] by blast
  obtain p pool' where p: "ngx_js_dict_alloc env (d0\<lparr>shpool := pool\<rparr>) (case v of dict_str s \<Rightarrow> length s | _ \<Rightarrow> 0) =
      (Some p, d0\<lparr>shpool := pool\<rparr>\<lparr>shpool := pool'\<rparr>)" using alloc[of "d0\<lparr>shpool := pool\<rparr>" "case v of dict_str s \<Rightarrow> length s | _ \<Rightarrow> 0"] \<open>\<not> evict d0\<close> by auto
  show ?thesis
    using assms(4) a p by (cases v) (auto simp: ngx_js_dict_add_value_def d0_def[symmetric] Let_def)
qed

lemma add_contents:
  assumes "nginx_ok env live" "dict_inv env live base {} d" "contents d key = None"
    "value_ok (dict_type d) v" "timeout d \<noteq> 0 \<longrightarrow> now + tmo < msec_limit"
    "ngx_js_dict_add_value env d key v tmo now = (rc, d')" "contents d k = None" "k \<noteq> key"
  shows "contents d' k = None"
proof -
  have tr: "tree_ok env d" using assms(2) by (rule inv_tree)
  have fresh: "\<forall>b n. node_mem d b = Some n \<longrightarrow> sn_str n \<noteq> key" using contents_None[OF tr] assms(3) by blast
  note av = add_value[OF assms(1,2) fresh assms(4,5,6)]
  have other: "\<forall>b n. node_mem d b = Some n \<longrightarrow> sn_str n \<noteq> k" using contents_None[OF tr] assms(7) by blast
  have "\<forall>b n. node_mem d' b = Some n \<longrightarrow> sn_str n \<noteq> k"
  proof (cases rc)
    case NGX_OK
    then obtain a p m where m: "kept d now m" "node_mem d' = m(a := Some (new_node env d key v (now + tmo) p))" using av by auto
    have "m b = Some n \<Longrightarrow> node_mem d b = Some n" for b n using kept_sub[OF m(1)] by blast
    then show ?thesis using other assms(8) by (auto simp: m(2) new_node_def)
  next
    case NGX_ERROR
    then have "kept d now (node_mem d')" using av by simp
    then show ?thesis using other kept_sub by blast
  qed (use av in auto)
  then show ?thesis using contents_None[of env d'] av by (auto intro: inv_tree)
qed

lemma lookup_contents: "nginx_ok env live \<Longrightarrow> dict_inv env live base {} d \<Longrightarrow> contents d key = None \<Longrightarrow> ngx_js_dict_lookup env d key = None"
  using lookup_Some[of env live d key] contents_None[of env d key] by (metis inv_tree not_None_eq)

definition entry_good :: "('d, 'p) ngx_js_dict \<Rightarrow> 'd ngx_js_dict_entry \<Rightarrow> bool" where
  "entry_good d e \<longleftrightarrow> (\<exists>v. entry_value e = Some v \<and> value_ok (dict_type d) v) \<and>
     (timeout d \<noteq> 0 \<longrightarrow> entry_expire e \<noteq> 0 \<and> entry_expire e < msec_limit - 1)"

lemma contents_dirty [simp]: "contents (d\<lparr>dirty := b\<rparr>) = contents d"
  by (simp add: fun_eq_iff contents_def cong: option.case_cong)

lemma expire_evict: "nginx_ok env live \<Longrightarrow> dict_inv env live base {} d \<Longrightarrow> \<not> evict d \<Longrightarrow> timeout d = 0 \<or> \<not> evict (ngx_js_dict_expire env d now)"
  using dict_expire(2)[of env live base d now] by (auto simp: same_config_def)

lemma succ_less: "e < msec_limit - 1 \<Longrightarrow> 1 + e < msec_limit \<and> (t < 1 + e \<longleftrightarrow> t \<le> e)" for e t :: uint64
proof -
  assume "e < msec_limit - 1"
  then have e: "unat e < 0x7FFFFFFFFFFFFFFF" by (simp add: msec_limit_def word_less_nat_alt)
  then have "unat (1 + e) = 1 + unat e" by (simp add: unat_word_ariths)
  then show ?thesis using e by (simp add: msec_limit_def word_less_nat_alt word_le_nat_alt less_Suc_eq_le)
qed

definition load_result ::
    "('d, 'p) dict_env \<Rightarrow> ('p \<Rightarrow> addr set) \<Rightarrow> addr set \<Rightarrow> ('d, 'p) ngx_js_dict \<Rightarrow> uint64 \<Rightarrow> 'd ngx_js_dict_entry list \<Rightarrow>
     ngx_rc \<times> ('d, 'p) ngx_js_dict \<Rightarrow> bool" where
  "load_result env live base d t es r \<longleftrightarrow>
     dict_inv env live base {} (snd r) \<and> fst r \<in> {NGX_OK, NGX_ERROR} \<and>
     ((\<forall>p n. slab_alloc env p n \<noteq> None) \<longrightarrow> fst r = NGX_OK) \<and>
     (fst r = NGX_OK \<longrightarrow> visible (snd r) t = loaded (timeout d) t es (visible d t))"

lemma loaded_Cons:
  "entry_key e \<notin> entry_key ` set es \<Longrightarrow>
   loaded tm t (e # es) w = loaded tm t es (w(entry_key e := if tm = 0 \<or> t \<le> entry_expire e then entry_value e else None))"
proof (rule ext)
  fix k
  assume a: "entry_key e \<notin> entry_key ` set es"
  show "loaded tm t (e # es) w k = loaded tm t es (w(entry_key e := if tm = 0 \<or> t \<le> entry_expire e then entry_value e else None)) k"
  proof (cases "entry_key e = k")
    case True
    then have "List.find (\<lambda>e. entry_key e = k) es = None" using a by (simp add: find_None_iff) (metis imageI)
    then show ?thesis using True by (simp add: loaded_def)
  qed (simp add: loaded_def cong: option.case_cong)
qed

lemma load_loop_back:
  assumes "nginx_ok env live" "dict_inv env live base {} d" "\<not> evict d" "now < t" "1 \<le> now"
    "list_all (entry_good d) es" "distinct (map entry_key es)" "\<forall>e \<in> set es. contents d (entry_key e) = None"
  shows "load_result env live base d t es (load_loop env now d es)"
  using assms(2,3,6-8)
proof (induction es arbitrary: d)
  case Nil
  then show ?case by (simp add: load_result_def loaded_def fun_eq_iff)
next
  case (Cons e es)
  note prems = Cons.prems
  obtain v where v: "entry_value e = Some v" "value_ok (dict_type d) v" using prems(3) by (auto simp: entry_good_def)
  have good: "list_all (entry_good d') es" if "timeout d' = timeout d" "dict_type d' = dict_type d" for d'
    using prems(3) that by (simp add: list_all_iff entry_good_def)
  have key: "entry_key e \<notin> entry_key ` set es" "distinct (map entry_key es)" using prems(4) by auto
  have c: "contents d (entry_key e) = None" using prems(5) by simp
  show ?case
  proof (cases "timeout d \<noteq> 0 \<and> entry_expire e \<le> now")
    case True
    then have z: "entry_expire e \<noteq> 0" "\<not> t \<le> entry_expire e" using prems(3) assms(4) by (auto simp: entry_good_def)
    have "visible d t (entry_key e) = None" using c by (simp add: visible_def)
    then have "loaded (timeout d) t (e # es) (visible d t) = loaded (timeout d) t es (visible d t)"
      using loaded_Cons[OF key(1), of "timeout d" t "visible d t"] True z(2) by (simp add: fun_upd_idem)
    moreover have "load_loop env now d (e # es) = load_loop env now (d\<lparr>dirty := True\<rparr>) es" using True z(1) by simp
    ultimately show ?thesis using Cons.IH[of "d\<lparr>dirty := True\<rparr>"] good[of "d\<lparr>dirty := True\<rparr>"] prems key(2)
      by (simp add: load_result_def)
  next
    case False
    define x where "x = (if timeout d \<noteq> 0 then entry_expire e else 0)"
    obtain rc d' where add: "ngx_js_dict_add_value env d (entry_key e) v x 1 = (rc, d')" by (metis surj_pair)
    have g: "timeout d \<noteq> 0 \<Longrightarrow> entry_expire e \<noteq> 0 \<and> entry_expire e < msec_limit - 1" using prems(3) by (auto simp: entry_good_def)
    have x: "timeout d \<noteq> 0 \<longrightarrow> 1 + x < msec_limit" using succ_less g by (auto simp: x_def)
    have "1 \<le> t" using assms(4,5) by (meson order.strict_implies_order order_trans)
    note ch = add_changed[OF assms(1) prems(1) c v(2) x this add]
    have load: "load_loop env now d (e # es) = (if rc \<noteq> NGX_OK then (NGX_ERROR, d') else load_loop env now d' es)"
      using False g add lookup_contents[OF assms(1) prems(1) c] by (auto simp: x_def v(1))
    have cfg: "timeout d' = timeout d" "dict_type d' = dict_type d" "\<not> evict d'" using ch prems(2) by (auto simp: same_config_def)
    show ?thesis
    proof (cases "rc = NGX_OK")
      case True
      have "visible d' t = (visible d t)(entry_key e := if timeout d = 0 \<or> t \<le> entry_expire e then Some v else None)"
        using ch True prems(2) g succ_less[of "entry_expire e" t] by (auto simp: changed_to_def set_visible_def x_def)
      moreover have "\<forall>e' \<in> set es. contents d' (entry_key e') = None"
        using add_contents[OF assms(1) prems(1) c v(2) x add] prems(5) key(1) by (metis imageI list.set_intros(2))
      ultimately show ?thesis
        using Cons.IH[of d'] ch cfg good[of d'] key(2) loaded_Cons[OF key(1)] True by (simp add: load v(1) load_result_def del: load_loop.simps)
    next
      case err: False
      then have "\<not> (\<forall>p n. slab_alloc env p n \<noteq> None)"
        using add_value_ok[OF _ prems(2) expire_evict[OF assms(1) prems(1,2)] add] by blast
      then show ?thesis using err ch by (simp add: load load_result_def del: load_loop.simps)
    qed
  qed
qed

lemma loaded_iff:
  assumes "distinct (map entry_key es)"
  shows "loaded tm t es Map.empty k = Some w \<longleftrightarrow>
    (\<exists>e \<in> set es. entry_key e = k \<and> (tm = 0 \<or> t \<le> entry_expire e) \<and> entry_value e = Some w)"
  using assms
proof (induction es)
  case (Cons e es)
  show ?case
  proof (cases "entry_key e = k")
    case True
    then have "\<forall>e' \<in> set es. entry_key e' \<noteq> k" using Cons.prems by (auto simp: image_iff)
    then show ?thesis using True by (auto simp: loaded_def)
  qed (use Cons in \<open>auto simp: loaded_def\<close>)
qed (simp add: loaded_def)

definition expiries_ok :: "('d, 'p) ngx_js_dict \<Rightarrow> bool" where
  "expiries_ok d \<longleftrightarrow> (\<forall>a n. node_mem d a = Some n \<longrightarrow> expire_key n < msec_limit - 1)"

lemma entries_good:
  assumes "tree_ok env d" "expiries_ok d" "dict_type d0 = dict_type d" "timeout d0 = timeout d"
  shows "list_all (entry_good d0) (map (entry_of nt d) (filter (\<lambda>a. \<not> expired d now a) (rbtree d)))"
proof -
  have "entry_good d0 (entry_of nt d a)" if "a \<in> set (rbtree d)" "\<not> expired d now a" for a
  proof -
    obtain n where n: "node_mem d a = Some n" using assms(1) \<open>a \<in> set (rbtree d)\<close> by (auto simp: tree_ok_def)
    have "timeout d \<noteq> 0 \<Longrightarrow> now < expire_key n" using that(2) n by (auto simp: expired_def timer_key_def)
    then have "timeout d \<noteq> 0 \<Longrightarrow> expire_key n \<noteq> 0" by fastforce
    then show ?thesis using assms n by (auto simp: entry_good_def entry_of_def tree_ok_def expiries_ok_def)
  qed
  then show ?thesis by (simp add: list_all_iff)
qed

lemma entries_distinct:
  assumes "tree_ok env d"
  shows "distinct (map entry_key (map (entry_of nt d) (filter P (rbtree d))))"
proof -
  have "inj_on (entry_key \<circ> entry_of nt d) (set (filter P (rbtree d)))"
  proof (rule inj_onI)
    fix a b assume ab: "a \<in> set (filter P (rbtree d))" "b \<in> set (filter P (rbtree d))" "(entry_key \<circ> entry_of nt d) a = (entry_key \<circ> entry_of nt d) b"
    obtain n m where n: "node_mem d a = Some n" "node_mem d b = Some m" using ab(1,2) assms by (auto simp: tree_ok_def)
    then have "sn_str n = sn_str m" using ab(3) by (simp add: entry_of_def)
    with assms n show "a = b" by (rule key_unique)
  qed
  then show ?thesis using assms by (simp add: distinct_map tree_ok_def)
qed

lemma loaded_entries:
  assumes "tree_ok env d" "now0 \<le> now" "now < t"
  shows "loaded (timeout d) t (map (entry_of nt d) (filter (\<lambda>a. \<not> expired d now0 a) (rbtree d))) Map.empty =
    visible d (if timeout d = 0 then t else t - 1)"
proof (rule ext, rule option_ext)
  fix k w
  have t: "t - 1 < e \<longleftrightarrow> t \<le> e" for e :: uint64
    using assms(3) by unat_arith
  have "(\<exists>e \<in> set (map (entry_of nt d) (filter (\<lambda>a. \<not> expired d now0 a) (rbtree d))).
      entry_key e = k \<and> (timeout d = 0 \<or> t \<le> entry_expire e) \<and> entry_value e = Some w) \<longleftrightarrow>
    (\<exists>a n. node_mem d a = Some n \<and> sn_str n = k \<and> node_value n = w \<and> (timeout d = 0 \<or> t \<le> expire_key n))" (is "?L \<longleftrightarrow> ?R")
  proof
    assume ?L
    then show ?R using assms(1) by (force simp: entry_of_def tree_ok_def split: if_splits)
  next
    assume ?R
    then obtain a n where n: "node_mem d a = Some n" "sn_str n = k" "node_value n = w" "timeout d = 0 \<or> t \<le> expire_key n" by blast
    have "a \<in> set (rbtree d)" using assms(1) n(1) by (auto simp: tree_ok_def)
    moreover have "\<not> expired d now0 a" using n assms(2,3) by (auto simp: expired_def timer_key_def)
    ultimately have "entry_of nt d a \<in> set (map (entry_of nt d) (filter (\<lambda>a. \<not> expired d now0 a) (rbtree d)))" by simp
    then show ?L using n by (intro bexI[of _ "entry_of nt d a"]) (auto simp: entry_of_def)
  qed
  then show "loaded (timeout d) t (map (entry_of nt d) (filter (\<lambda>a. \<not> expired d now0 a) (rbtree d))) Map.empty k = Some w \<longleftrightarrow>
      visible d (if timeout d = 0 then t else t - 1) k = Some w"
    unfolding loaded_iff[OF entries_distinct[OF assms(1)]] visible_iff[OF assms(1)] vis_def by (simp add: t)
qed

lemma save_begin_render:
  assumes "save_begin nt pool_ok now d = (rc, Some j, d1)"
  shows "ngx_js_dict_render_json nt (rlock (wlock d)) now = Some j"
  using assms by (auto simp: save_begin_def Let_def split: if_splits option.splits)

lemma rlock_same [simp]:
  "node_mem (rlock d) = node_mem d" "timeout (rlock d) = timeout d" "dict_type (rlock d) = dict_type d" "rbtree (rlock d) = rbtree d"
  "rbtree (wlock d) = rbtree d" "visible (rlock d) = visible d" "visible (wlock d) = visible d" "expired (rlock d) = expired d"
  by (simp_all add: rlock_def wlock_def expired_def fun_eq_iff)


subsection \<open>An instance\<close>

text \<open>Whole numbers below ten and expiry times of three digits.\<close>

definition demo_num_text :: "int num_text" where
  "demo_num_text =
     \<lparr>strtod = (\<lambda>p. let ds = takeWhile (\<lambda>c. 0x30 \<le> c \<and> c \<le> 0x39) p
                    in (foldl (\<lambda>a c. 10 * a + uint (c - 0x30)) 0 ds,
                        length ds + (if take 7 (drop (length ds) p) = lit ''.000000'' then 7 else 0))),
      fmt_f6 = (\<lambda>x. (0x30 + word_of_int x) # lit ''.000000''),
      fmt_ui = (\<lambda>e. [0x30 + ucast (e div 100), 0x30 + ucast (e div 10 mod 10), 0x30 + ucast (e mod 10)]),
      msec_of = word_of_int, junk_expire = 12345\<rparr>"

definition demo_zone :: "(int, addr list) ngx_js_dict" where
  "demo_zone = demo_dict\<lparr>rbtree := [], rbtree_expire := [], node_mem := Map.empty, shpool := [1]\<rparr>"

lemma demo_fields:
  "timeout demo_dict = 400" "node_mem demo_zone = Map.empty" "\<not> evict demo_zone" "state_file demo_zone"
  "dict_type demo_zone = dict_type demo_dict" "timeout demo_zone = 400"
  by (simp_all add: demo_dict_def demo_zone_def)

lemma demo_zone_inv: "dict_inv demo_dict_env set {1} {} demo_zone"
  by (simp add: dict_inv_def tree_ok_def expire_ok_def mem_ok_def own_ok_def blocks_def demo_zone_def demo_dict_def)

lemma demo_numbers: "numbers_ok demo_num_text (demo_dict\<lparr>dirty := True\<rparr>)"
proof -
  have "text_of_number demo_num_text (fmt_f6 demo_num_text 7) 7" "text_of_number demo_num_text (fmt_f6 demo_num_text 5) 5"
    "text_of_number demo_num_text (fmt_ui demo_num_text 500) 500" "text_of_number demo_num_text (fmt_ui demo_num_text 100) 100"
    by (auto simp: text_of_number_def demo_num_text_def lit_def is_space_def)
  then show ?thesis
    by (auto simp: numbers_ok_def demo_dict_def lit_def split: if_splits)
      (auto simp: demo_num_text_def lit_def)
qed

lemma demo_save:
  "\<exists>d1. save_begin demo_num_text True 200 (demo_dict\<lparr>dirty := True\<rparr>) =
     (NGX_DONE, Some (lit ''{\"a\":{\"value\":7.000000,\"expire\":500},}''), d1)"
proof -
  have "fst (save_begin demo_num_text True 200 (demo_dict\<lparr>dirty := True\<rparr>)) = NGX_DONE"
    "fst (snd (save_begin demo_num_text True 200 (demo_dict\<lparr>dirty := True\<rparr>))) = Some (lit ''{\"a\":{\"value\":7.000000,\"expire\":500},}'')"
    by code_simp+
  then show ?thesis by (metis prod.collapse)
qed

lemma demo_load:
  "fst (ngx_js_dict_load demo_dict_env demo_num_text True (file_bytes (lit ''{\"a\":{\"value\":7.000000,\"expire\":500},}'')) 300 demo_zone) = NGX_OK"
  by code_simp


end
