(* ===== verification/Njs_Codec.thy ===== *)
theory Njs_Codec
  imports Njs_Unicode
begin

section \<open>Text encodings (src/src/njs_string.c, src/src/qjs_buffer.c)\<close>

text \<open>
  Hex, base64 and URI coding of the strings of a script, and the versions of the QuickJS engine.
  The functions that fill a buffer answer what they write; the size that was allocated for it is
  computed by a function of its own, as in the code.  A read outside of the source is None.

  A string is its bytes in UTF-8 and its number of characters; \<open>alloc\<close> says whether a string of
  a size can be allocated.
\<close>

datatype codec_error = MemoryError | TypeErr string | RangeErr string | URIError string | InternalErr string

record njs_string_prop =
  prop_start :: "u_char list"
  prop_length :: nat

definition prop_size :: "njs_string_prop \<Rightarrow> nat" where
  "prop_size s = length (prop_start s)"

definition njs_is_ascii_string :: "njs_string_prop \<Rightarrow> bool" where
  "njs_is_ascii_string s \<longleftrightarrow> prop_length s = prop_size s"

subsection \<open>Hex\<close>

definition lower_hex :: "u_char list" where
  "lower_hex = [0x30, 0x31, 0x32, 0x33, 0x34, 0x35, 0x36, 0x37, 0x38, 0x39, 0x61, 0x62, 0x63, 0x64, 0x65, 0x66]"

fun njs_encode_hex :: "u_char list \<Rightarrow> u_char list" where
  "njs_encode_hex [] = []"
| "njs_encode_hex (c # s) = lower_hex ! unat (drop_bit 4 c) # lower_hex ! unat (c AND 0x0F) # njs_encode_hex s"

definition njs_encode_hex_length :: "u_char list \<Rightarrow> nat" where
  "njs_encode_hex_length s = length s * 2"

definition njs_string_hex :: "(nat \<Rightarrow> bool) \<Rightarrow> u_char list \<Rightarrow> codec_error + u_char list" where
  "njs_string_hex alloc s = (if alloc (njs_encode_hex_length s) then Inr (njs_encode_hex s) else Inl MemoryError)"

definition njs_char_to_hex :: "u_char \<Rightarrow> int" where
  "njs_char_to_hex c =
     (let c = (c OR 0x20) - 0x30
      in if 9 < c then (let c = c - (0x61 - 0x30) in if 5 < c then - 1 else uint (c + 10)) else uint c)"

fun decode_hex_loop :: "nat \<Rightarrow> int \<Rightarrow> u_char list \<Rightarrow> u_char list" where
  "decode_hex_loop i n [] = []"
| "decode_hex_loop i n (ch # s) =
     (let c = njs_char_to_hex ch
      in if c < 0 then []
         else
           (let n = n * 16 + c
            in if odd i then word_of_int n # decode_hex_loop (i + 1) 0 s else decode_hex_loop (i + 1) n s))"

definition njs_decode_hex :: "u_char list \<Rightarrow> u_char list" where
  "njs_decode_hex s = decode_hex_loop 0 0 s"

definition njs_decode_hex_length :: "u_char list \<Rightarrow> nat" where
  "njs_decode_hex_length s = length s div 2"

definition njs_string_decode_hex :: "(nat \<Rightarrow> bool) \<Rightarrow> u_char list \<Rightarrow> codec_error + u_char list" where
  "njs_string_decode_hex alloc s =
     (let size = njs_decode_hex_length s
      in if size = 0 then Inr [] else if alloc size then Inr (njs_decode_hex s) else Inl MemoryError)"

subsection \<open>Base64\<close>

definition njs_basis64 :: "u_char list" where
  "njs_basis64 =
     replicate 43 77 @ [62, 77, 77, 77, 63] @ [52, 53, 54, 55, 56, 57, 58, 59, 60, 61] @ replicate 7 77 @
     [0, 1, 2, 3, 4, 5, 6, 7, 8, 9, 10, 11, 12, 13, 14, 15, 16, 17, 18, 19, 20, 21, 22, 23, 24, 25] @ replicate 6 77 @
     [26, 27, 28, 29, 30, 31, 32, 33, 34, 35, 36, 37, 38, 39, 40, 41, 42, 43, 44, 45, 46, 47, 48, 49, 50, 51] @
     replicate 133 77"

definition njs_basis64url :: "u_char list" where
  "njs_basis64url =
     replicate 45 77 @ [62, 77, 77] @ [52, 53, 54, 55, 56, 57, 58, 59, 60, 61] @ replicate 7 77 @
     [0, 1, 2, 3, 4, 5, 6, 7, 8, 9, 10, 11, 12, 13, 14, 15, 16, 17, 18, 19, 20, 21, 22, 23, 24, 25] @ [77, 77, 77, 77, 63, 77] @
     [26, 27, 28, 29, 30, 31, 32, 33, 34, 35, 36, 37, 38, 39, 40, 41, 42, 43, 44, 45, 46, 47, 48, 49, 50, 51] @
     replicate 133 77"

definition njs_basis64_enc :: "u_char list" where
  "njs_basis64_enc = map of_char ''ABCDEFGHIJKLMNOPQRSTUVWXYZabcdefghijklmnopqrstuvwxyz0123456789+/''"

definition njs_basis64url_enc :: "u_char list" where
  "njs_basis64url_enc = map of_char ''ABCDEFGHIJKLMNOPQRSTUVWXYZabcdefghijklmnopqrstuvwxyz0123456789-_''"

definition njs_base64_encoded_length :: "nat \<Rightarrow> nat" where
  "njs_base64_encoded_length len = (len + 2) div 3 * 4"

definition njs_base64_decoded_length :: "nat \<Rightarrow> nat \<Rightarrow> nat" where
  "njs_base64_decoded_length len pad = len div 4 * 3 - pad"

fun njs_encode_base64_core :: "u_char list \<Rightarrow> bool \<Rightarrow> u_char list \<Rightarrow> u_char list" where
  "njs_encode_base64_core basis padding (c0 # c1 # c2 # s) =
     [basis ! unat (drop_bit 2 c0),
      basis ! unat (push_bit 4 (c0 AND 0x03) OR drop_bit 4 c1),
      basis ! unat (push_bit 2 (c1 AND 0x0F) OR drop_bit 6 c2),
      basis ! unat (c2 AND 0x3F)] @ njs_encode_base64_core basis padding s"
| "njs_encode_base64_core basis padding [c0, c1] =
     [basis ! unat (drop_bit 2 c0),
      basis ! unat (push_bit 4 (c0 AND 0x03) OR drop_bit 4 c1),
      basis ! unat (push_bit 2 (c1 AND 0x0F))] @ (if padding then [0x3D] else [])"
| "njs_encode_base64_core basis padding [c0] =
     [basis ! unat (drop_bit 2 c0), basis ! unat (push_bit 4 (c0 AND 0x03))] @ (if padding then [0x3D, 0x3D] else [])"
| "njs_encode_base64_core basis padding [] = []"

definition njs_encode_base64 :: "u_char list \<Rightarrow> u_char list" where
  "njs_encode_base64 s = njs_encode_base64_core njs_basis64_enc True s"

definition njs_encode_base64url :: "u_char list \<Rightarrow> u_char list" where
  "njs_encode_base64url s = njs_encode_base64_core njs_basis64url_enc False s"

definition njs_encode_base64_length :: "u_char list \<Rightarrow> nat" where
  "njs_encode_base64_length s = (if length s = 0 then 0 else njs_base64_encoded_length (length s))"

definition njs_string_base64 :: "(nat \<Rightarrow> bool) \<Rightarrow> u_char list \<Rightarrow> codec_error + u_char list" where
  "njs_string_base64 alloc s =
     (let size = njs_encode_base64_length s
      in if size = 0 then Inr [] else if alloc size then Inr (njs_encode_base64 s) else Inl MemoryError)"

definition base64url_size :: "nat \<Rightarrow> nat" where
  "base64url_size len = (let padding = drop_bit (len mod 3) 4 AND 3 in njs_base64_encoded_length len - padding)"

definition njs_string_base64url :: "(nat \<Rightarrow> bool) \<Rightarrow> u_char list \<Rightarrow> codec_error + u_char list" where
  "njs_string_base64url alloc s =
     (if length s = 0 then Inr []
      else if alloc (base64url_size (length s)) then Inr (njs_encode_base64url s) else Inl MemoryError)"

definition njs_decode_base64_length_core :: "u_char list \<Rightarrow> u_char list \<Rightarrow> nat" where
  "njs_decode_base64_length_core s basis =
     (let len = length (takeWhile (\<lambda>c. basis ! unat c \<noteq> 77) s);
          pad = (if len mod 4 \<noteq> 0 then 4 - len mod 4 else 0)
      in njs_base64_decoded_length (len + pad) pad)"

definition njs_decode_base64_length :: "u_char list \<Rightarrow> nat" where
  "njs_decode_base64_length s = njs_decode_base64_length_core s njs_basis64"

definition njs_decode_base64url_length :: "u_char list \<Rightarrow> nat" where
  "njs_decode_base64url_length s = njs_decode_base64_length_core s njs_basis64url"

text \<open>The last bytes, when fewer than three are left to write.\<close>

definition decode_base64_tail :: "u_char list \<Rightarrow> nat \<Rightarrow> u_char list \<Rightarrow> u_char list option" where
  "decode_base64_tail basis len s =
     (let b = (\<lambda>i. basis ! unat (s ! i))
      in if len = 0 then Some []
         else if length s < len + 1 then None
         else Some ((push_bit 2 (b 0) OR drop_bit 4 (b 1)) #
                    (if 2 \<le> len then [push_bit 4 (b 1) OR drop_bit 2 (b 2)] else [])))"

fun decode_base64_core :: "u_char list \<Rightarrow> nat \<Rightarrow> u_char list \<Rightarrow> u_char list option" where
  "decode_base64_core basis (Suc (Suc (Suc len))) s =
     (if length s < 4 then None
      else
        (let b = (\<lambda>i. basis ! unat (s ! i))
         in map_option (\<lambda>r. (push_bit 2 (b 0) OR drop_bit 4 (b 1)) # (push_bit 4 (b 1) OR drop_bit 2 (b 2)) #
                            (push_bit 6 (b 2) OR b 3) # r)
              (decode_base64_core basis len (drop 4 s))))"
| "decode_base64_core basis len s = decode_base64_tail basis len s"

definition njs_decode_base64_core :: "nat \<Rightarrow> u_char list \<Rightarrow> u_char list \<Rightarrow> u_char list option" where
  "njs_decode_base64_core dst_length s basis = decode_base64_core basis dst_length s"

definition njs_string_decode_base64_core ::
    "(nat \<Rightarrow> bool) \<Rightarrow> u_char list \<Rightarrow> bool \<Rightarrow> (codec_error + u_char list) option" where
  "njs_string_decode_base64_core alloc s url =
     (let basis = (if url then njs_basis64url else njs_basis64); size = njs_decode_base64_length_core s basis
      in if size = 0 then Some (Inr [])
         else if \<not> alloc size then Some (Inl MemoryError)
         else map_option Inr (njs_decode_base64_core size s basis))"

definition njs_string_decode_base64 :: "(nat \<Rightarrow> bool) \<Rightarrow> u_char list \<Rightarrow> (codec_error + u_char list) option" where
  "njs_string_decode_base64 alloc s = njs_string_decode_base64_core alloc s False"

definition njs_string_decode_base64url :: "(nat \<Rightarrow> bool) \<Rightarrow> u_char list \<Rightarrow> (codec_error + u_char list) option" where
  "njs_string_decode_base64url alloc s = njs_string_decode_base64_core alloc s True"

subsection \<open>btoa and atob\<close>

definition idle_ctx :: njs_unicode_decode where
  "idle_ctx = njs_utf8_decode_init \<lparr>codepoint = 0, need = 0, lower = 0, upper = 0\<rparr>"

definition above_latin1 :: string where "above_latin1 = ''invalid character (> U+00FF)''"
definition not_base64 :: string where "not_base64 = ''the string to be decoded is not correctly encoded''"

definition enc64 :: "uint32 \<Rightarrow> u_char" where "enc64 i = njs_basis64_enc ! unat i"

text \<open>The end of \<open>njs_string_btoa\<close>, with fewer than three characters left.\<close>

definition btoa_tail :: "nat \<Rightarrow> njs_unicode_decode \<Rightarrow> u_char list \<Rightarrow> (codec_error + u_char list) option" where
  "btoa_tail len ctx p =
     (if len = 0 then Some (Inr [])
      else
        (case njs_utf8_decode ctx p of
           None \<Rightarrow> None
         | Some (cp0, ctx, p) \<Rightarrow>
             (if 0xFF < cp0 then Some (Inl (TypeErr above_latin1))
              else if len = 1 then Some (Inr [enc64 (drop_bit 2 cp0), enc64 (push_bit 4 (cp0 AND 0x03)), 0x3D, 0x3D])
              else
                (case njs_utf8_decode ctx p of
                   None \<Rightarrow> None
                 | Some (cp1, ctx, p) \<Rightarrow>
                     (if 0xFF < cp1 then Some (Inl (TypeErr above_latin1))
                      else Some (Inr [enc64 (drop_bit 2 cp0), enc64 (push_bit 4 (cp0 AND 0x03) OR drop_bit 4 cp1),
                                      enc64 (push_bit 2 (cp1 AND 0x0F)), 0x3D]))))))"

fun btoa_loop :: "nat \<Rightarrow> njs_unicode_decode \<Rightarrow> u_char list \<Rightarrow> (codec_error + u_char list) option" where
  "btoa_loop (Suc (Suc (Suc len))) ctx p =
     (if p = [] then btoa_tail (len + 3) ctx p
      else
        (case njs_utf8_decode ctx p of
           None \<Rightarrow> None
         | Some (cp0, ctx, p) \<Rightarrow>
             (case njs_utf8_decode ctx p of
                None \<Rightarrow> None
              | Some (cp1, ctx, p) \<Rightarrow>
                  (case njs_utf8_decode ctx p of
                     None \<Rightarrow> None
                   | Some (cp2, ctx, p) \<Rightarrow>
                       (if 0xFF < cp0 \<or> 0xFF < cp1 \<or> 0xFF < cp2 then Some (Inl (TypeErr above_latin1))
                        else
                          map_option (map_sum (\<lambda>e. e) (\<lambda>r.
                              [enc64 (drop_bit 2 cp0), enc64 (push_bit 4 (cp0 AND 0x03) OR drop_bit 4 cp1),
                               enc64 (push_bit 2 (cp1 AND 0x0F) OR drop_bit 6 cp2), enc64 (cp2 AND 0x3F)] @ r))
                            (btoa_loop len ctx p))))))"
| "btoa_loop len ctx p = btoa_tail len ctx p"

definition njs_string_btoa :: "(nat \<Rightarrow> bool) \<Rightarrow> njs_string_prop \<Rightarrow> (codec_error + u_char list) option" where
  "njs_string_btoa alloc string =
     (let len = (if prop_length string = 0 then prop_size string else prop_length string)
      in if \<not> alloc (njs_base64_encoded_length len) then Some (Inl MemoryError)
         else btoa_loop len idle_ctx (prop_start string))"

definition atob_space :: "u_char \<Rightarrow> bool" where
  "atob_space c \<longleftrightarrow> c = 0x20 \<or> c = 0x09 \<or> c = 0x0A \<or> c = 0x0C \<or> c = 0x0D"

record atob_state =
  acc :: uint32
  bits :: nat
  total :: nat
  pad :: nat
  out :: "u_char list"

definition write_byte_as_utf8 :: "u_char \<Rightarrow> u_char list" where
  "write_byte_as_utf8 b = the (njs_utf8_encode (ucast b))"

definition atob_step :: "u_char list \<Rightarrow> atob_state \<Rightarrow> u_char \<Rightarrow> atob_state option" where
  "atob_step b64 st c =
     (if atob_space c then Some st
      else if c = 0x3D then Some (st\<lparr>pad := pad st + 1\<rparr>)
      else if 0 < pad st then None
      else
        (let v = b64 ! unat c
         in if v = 77 then None
            else
              (let a = push_bit 6 (acc st) OR ucast v; n = bits st + 6; st = st\<lparr>acc := a, bits := n, total := total st + 1\<rparr>
               in Some (if 8 \<le> n then st\<lparr>bits := n - 8, out := out st @ write_byte_as_utf8 (ucast (drop_bit (n - 8) a AND 0xFF))\<rparr>
                        else st))))"

fun atob_loop :: "u_char list \<Rightarrow> atob_state \<Rightarrow> u_char list \<Rightarrow> atob_state option" where
  "atob_loop b64 st [] = Some st"
| "atob_loop b64 st (c # s) = (case atob_step b64 st c of None \<Rightarrow> None | Some st' \<Rightarrow> atob_loop b64 st' s)"

definition atob_start :: atob_state where
  "atob_start = \<lparr>acc = 0, bits = 0, total = 0, pad = 0, out = []\<rparr>"

definition atob_rejects :: "atob_state \<Rightarrow> bool" where
  "atob_rejects st \<longleftrightarrow> 2 < pad st \<or> (total st + pad st) mod 4 = 1 \<or> (0 < pad st \<and> (total st + pad st) mod 4 \<noteq> 0)"

text \<open>\<open>reserve\<close> stands for the chain and \<open>alloc\<close> for the string made of it.\<close>

definition njs_string_atob :: "(nat \<Rightarrow> bool) \<Rightarrow> (nat \<Rightarrow> bool) \<Rightarrow> u_char list \<Rightarrow> codec_error + u_char list" where
  "njs_string_atob reserve alloc s =
     (if \<not> reserve (length s * 2) then Inl MemoryError
      else
        (case atob_loop njs_basis64 atob_start s of
           None \<Rightarrow> Inl (TypeErr not_base64)
         | Some st \<Rightarrow>
             (if atob_rejects st then Inl (TypeErr not_base64)
              else if total st = 0 then Inr []
              else if alloc (length (out st)) then Inr (out st) else Inl MemoryError)))"

end
