(* ===== verification/Njs_Codec_Props.thy ===== *)
theory Njs_Codec_Props
  imports Njs_Codec Njs_Utf8
begin

section \<open>Text encodings: round trips and bounds\<close>

text \<open>
  Base64 over a locale of alphabets, instantiated with the tables of the code for the usual
  alphabet and the one for URLs; hex; \<open>btoa\<close> and \<open>atob\<close> on strings in UTF-8.
\<close>

subsection \<open>Bits\<close>

lemma byte_eqI:
  fixes x y :: u_char
  assumes "bit x 0 = bit y 0" "bit x 1 = bit y 1" "bit x 2 = bit y 2" "bit x 3 = bit y 3"
    "bit x 4 = bit y 4" "bit x 5 = bit y 5" "bit x 6 = bit y 6" "bit x 7 = bit y 7"
  shows "x = y"
proof (rule bit_word_eqI)
  fix n assume "n < LENGTH(8)"
  then have "n < 8" by simp
  then have "n = 0 \<or> n = 1 \<or> n = 2 \<or> n = 3 \<or> n = 4 \<or> n = 5 \<or> n = 6 \<or> n = 7" by linarith
  then show "bit x n = bit y n" by (elim disjE) (use assms in simp_all)
qed

lemma no_high_bit: "8 \<le> n \<Longrightarrow> \<not> bit c n" for c :: u_char
  using bit_imp_le_length[of c n] by auto

lemma below_64: "\<not> bit w 6 \<Longrightarrow> \<not> bit w 7 \<Longrightarrow> w < 64" for w :: u_char
proof -
  assume a: "\<not> bit w 6" "\<not> bit w 7"
  have "w = take_bit 6 w" by (rule byte_eqI) (use a in \<open>simp_all add: bit_take_bit_iff\<close>)
  then have "unat w = take_bit 6 (unat w)" by (metis unsigned_take_bit_eq)
  then show ?thesis using take_bit_nat_less_exp[of 6 "unat w"] by (simp add: word_less_nat_alt)
qed

lemma quad_bytes:
  fixes c0 c1 c2 :: u_char
  shows "push_bit 2 (drop_bit 2 c0) OR drop_bit 4 (push_bit 4 (c0 AND 0x03) OR drop_bit 4 c1) = c0 \<and>
    push_bit 4 (push_bit 4 (c0 AND 0x03) OR drop_bit 4 c1) OR drop_bit 2 (push_bit 2 (c1 AND 0x0F) OR drop_bit 6 c2) = c1 \<and>
    push_bit 6 (push_bit 2 (c1 AND 0x0F) OR drop_bit 6 c2) OR (c2 AND 0x3F) = c2 \<and>
    push_bit 2 (drop_bit 2 c0) OR drop_bit 4 (push_bit 4 (c0 AND 0x03)) = c0 \<and>
    push_bit 4 (push_bit 4 (c0 AND 0x03) OR drop_bit 4 c1) OR drop_bit 2 (push_bit 2 (c1 AND 0x0F)) = c1"
  by (intro conjI; rule byte_eqI; simp add: bit_simps no_high_bit)

lemma quad_range:
  fixes c0 c1 c2 :: u_char
  shows "drop_bit 2 c0 < 64 \<and> push_bit 4 (c0 AND 0x03) OR drop_bit 4 c1 < 64 \<and>
    push_bit 2 (c1 AND 0x0F) OR drop_bit 6 c2 < 64 \<and> c2 AND 0x3F < 64 \<and> push_bit 4 (c0 AND 0x03) < 64 \<and> push_bit 2 (c1 AND 0x0F) < 64"
  by (intro conjI; rule below_64; simp add: bit_simps no_high_bit)

subsection \<open>Alphabets\<close>

text \<open>What encoder and decoder rely on of their tables: the decoder's is the inverse of the encoder's, and knows no padding.\<close>

locale base64_alphabet =
  fixes enc dec :: "u_char list"
  assumes inverse: "k < 64 \<Longrightarrow> dec ! unat (enc ! k) = word_of_nat k"
    and padding_unknown: "dec ! 0x3D = 77"
begin

lemma inverse_word: "w < 64 \<Longrightarrow> dec ! unat (enc ! unat w) = w" for w :: u_char
  using inverse[of "unat w"] by (simp add: word_less_nat_alt)

lemma known: "w < 64 \<Longrightarrow> dec ! unat (enc ! unat w) \<noteq> 77" for w :: u_char
  using inverse_word[of w] by auto

lemma decode_quad:
  fixes w0 w1 w2 w3 :: u_char
  assumes "w0 < 64" "w1 < 64" "w2 < 64" "w3 < 64"
  shows "decode_base64_core dec (Suc (Suc (Suc n))) ([enc ! unat w0, enc ! unat w1, enc ! unat w2, enc ! unat w3] @ s) =
    map_option (\<lambda>r. (push_bit 2 w0 OR drop_bit 4 w1) # (push_bit 4 w1 OR drop_bit 2 w2) # (push_bit 6 w2 OR w3) # r) (decode_base64_core dec n s)"
  using assms by (simp add: inverse_word Let_def)

lemma decode_triple:
  fixes w0 w1 w2 :: u_char
  assumes "w0 < 64" "w1 < 64" "w2 < 64"
  shows "decode_base64_core dec (Suc (Suc 0)) ([enc ! unat w0, enc ! unat w1, enc ! unat w2] @ s) =
    Some [push_bit 2 w0 OR drop_bit 4 w1, push_bit 4 w1 OR drop_bit 2 w2]"
  using assms by (simp add: inverse_word decode_base64_tail_def Let_def)

lemma decode_pair:
  fixes w0 w1 :: u_char
  assumes "w0 < 64" "w1 < 64"
  shows "decode_base64_core dec (Suc 0) ([enc ! unat w0, enc ! unat w1] @ s) = Some [push_bit 2 w0 OR drop_bit 4 w1]"
  using assms by (simp add: inverse_word decode_base64_tail_def Let_def)

lemma encode_decode: "b = enc \<Longrightarrow> decode_base64_core dec (length s) (njs_encode_base64_core b padding s) = Some s"
proof (induction b padding s rule: njs_encode_base64_core.induct)
  case (1 b padding c0 c1 c2 s)
  note r = quad_range[of c0 c1 c2]
  have q: "decode_base64_core dec (Suc (Suc (Suc (length s)))) (njs_encode_base64_core enc padding (c0 # c1 # c2 # s)) =
      map_option (\<lambda>r. c0 # c1 # c2 # r) (decode_base64_core dec (length s) (njs_encode_base64_core enc padding s))"
    unfolding njs_encode_base64_core.simps using r by (subst decode_quad) (simp_all only: quad_bytes)
  then show ?case using 1 by simp
next
  case (2 b padding c0 c1)
  have "decode_base64_core dec (Suc (Suc 0)) (njs_encode_base64_core enc padding [c0, c1]) = Some [c0, c1]"
    unfolding njs_encode_base64_core.simps using quad_range[of c0 c1 0] by (subst decode_triple) (simp_all only: quad_bytes)
  then show ?case using 2 by simp
next
  case (3 b padding c0)
  have "decode_base64_core dec (Suc 0) (njs_encode_base64_core enc padding [c0]) = Some [c0]"
    unfolding njs_encode_base64_core.simps using quad_range[of c0 0 0] by (subst decode_pair) (simp_all only: quad_bytes)
  then show ?case using 3 by simp
qed (simp add: decode_base64_tail_def)

text \<open>The characters of the alphabet in an encoded string, and its padding.\<close>

lemma takeWhile_known:
  assumes "list_all (\<lambda>w :: u_char. w < 64) ws"
  shows "takeWhile (\<lambda>c. dec ! unat c \<noteq> 77) (map (\<lambda>w. enc ! unat w) ws @ r) = map (\<lambda>w. enc ! unat w) ws @ takeWhile (\<lambda>c. dec ! unat c \<noteq> 77) r"
  using assms known by (induction ws) auto

lemma encode_sextets:
  "b = enc \<Longrightarrow> \<exists>ws. list_all (\<lambda>w :: u_char. w < 64) ws \<and> length ws = (length s * 4 + 2) div 3 \<and>
     njs_encode_base64_core b padding s = map (\<lambda>w. enc ! unat w) ws @ replicate (if padding then (3 - length s mod 3) mod 3 else 0) 0x3D"
proof (induction b padding s rule: njs_encode_base64_core.induct)
  case (1 b padding c0 c1 c2 s)
  then obtain ws where ws: "list_all (\<lambda>w :: u_char. w < 64) ws" "length ws = (length s * 4 + 2) div 3"
    "njs_encode_base64_core b padding s = map (\<lambda>w. enc ! unat w) ws @ replicate (if padding then (3 - length s mod 3) mod 3 else 0) 0x3D" by blast
  have m: "length (c0 # c1 # c2 # s) mod 3 = length s mod 3" "(length (c0 # c1 # c2 # s) * 4 + 2) div 3 = 4 + (length s * 4 + 2) div 3" by simp_all
  have e: "njs_encode_base64_core enc padding s = map (\<lambda>w. enc ! unat w) ws @ replicate (if padding then (3 - length s mod 3) mod 3 else 0) 0x3D"
    using ws(3) "1.prems" by simp
  show ?case unfolding m njs_encode_base64_core.simps "1.prems" e using ws(1,2) quad_range[of c0 c1 c2]
    by (intro exI[of _ "[drop_bit 2 c0, push_bit 4 (c0 AND 0x03) OR drop_bit 4 c1, push_bit 2 (c1 AND 0x0F) OR drop_bit 6 c2, c2 AND 0x3F] @ ws"]) simp
next
  case (2 b padding c0 c1)
  then show ?case using quad_range[of c0 c1 0]
    by (intro exI[of _ "[drop_bit 2 c0, push_bit 4 (c0 AND 0x03) OR drop_bit 4 c1, push_bit 2 (c1 AND 0x0F)]"]) simp
next
  case (3 b padding c0)
  then show ?case using quad_range[of c0 0 0]
    by (intro exI[of _ "[drop_bit 2 c0, push_bit 4 (c0 AND 0x03)]"]) (simp add: numeral_2_eq_2)
qed simp

lemma known_length: "length (takeWhile (\<lambda>c. dec ! unat c \<noteq> 77) (njs_encode_base64_core enc padding s)) = (length s * 4 + 2) div 3"
proof -
  obtain ws where ws: "list_all (\<lambda>w :: u_char. w < 64) ws" "length ws = (length s * 4 + 2) div 3"
    "njs_encode_base64_core enc padding s = map (\<lambda>w. enc ! unat w) ws @ replicate (if padding then (3 - length s mod 3) mod 3 else 0) 0x3D"
    using encode_sextets[OF refl] by blast
  have "takeWhile (\<lambda>c. dec ! unat c \<noteq> 77) (replicate n (0x3D :: u_char)) = []" for n using padding_unknown by (cases n) auto
  then show ?thesis using takeWhile_known[OF ws(1)] ws(2) by (simp add: ws(3))
qed

lemma decoded_length: "njs_decode_base64_length_core (njs_encode_base64_core enc padding s) dec = length s"
proof -
  define n where "n = length s"
  have l: "length (takeWhile (\<lambda>c. dec ! unat c \<noteq> 77) (njs_encode_base64_core enc padding s)) = (n * 4 + 2) div 3"
    using known_length n_def by simp
  obtain q r where n: "n = 3 * q + r" "r < 3" by (metis mult_div_mod_eq pos_mod_bound zero_less_numeral mod_less_divisor)
  then have "r = 0 \<or> r = 1 \<or> r = 2" by auto
  then have "(n * 4 + 2) div 3 = 4 * q + (if r = 0 then 0 else r + 1)" using n by auto
  then show ?thesis using n
    by (auto simp: njs_decode_base64_length_core_def l Let_def njs_base64_decoded_length_def n_def[symmetric])
qed

end

interpretation std64: base64_alphabet njs_basis64_enc njs_basis64
proof
  have "list_all (\<lambda>k. njs_basis64 ! unat (njs_basis64_enc ! k) = word_of_nat k) [0..<64]" by code_simp
  then show "njs_basis64 ! unat (njs_basis64_enc ! k) = word_of_nat k" if "k < 64" for k using that by (simp add: list_all_iff)
  show "njs_basis64 ! 0x3D = 77" by code_simp
qed

interpretation url64: base64_alphabet njs_basis64url_enc njs_basis64url
proof
  have "list_all (\<lambda>k. njs_basis64url ! unat (njs_basis64url_enc ! k) = word_of_nat k) [0..<64]" by code_simp
  then show "njs_basis64url ! unat (njs_basis64url_enc ! k) = word_of_nat k" if "k < 64" for k using that by (simp add: list_all_iff)
  show "njs_basis64url ! 0x3D = 77" by code_simp
qed

subsection \<open>Sizes and reads\<close>

definition quads_needed :: "nat \<Rightarrow> nat" where
  "quads_needed len = len div 3 * 4 + (if len mod 3 = 0 then 0 else len mod 3 + 1)"

lemma quads_needed_Suc3: "quads_needed (Suc (Suc (Suc len))) = 4 + quads_needed len"
proof -
  have "Suc (Suc (Suc len)) div 3 = Suc (len div 3)" "Suc (Suc (Suc len)) mod 3 = len mod 3" by simp_all
  then show ?thesis by (simp only: quads_needed_def) simp
qed

lemma decode_core_total: "quads_needed len \<le> length s \<Longrightarrow> \<exists>r. decode_base64_core basis len s = Some r \<and> length r = len"
proof (induction basis len s rule: decode_base64_core.induct)
  case (1 basis len s)
  have q: "quads_needed (Suc (Suc (Suc len))) = 4 + quads_needed len" by (rule quads_needed_Suc3)
  then have "quads_needed len \<le> length (drop 4 s)" "\<not> length s < 4" using "1.prems" by auto
  then obtain r where "decode_base64_core basis len (drop 4 s) = Some r" "length r = len" using "1.IH"[OF _ refl] by blast
  then show ?case using \<open>\<not> length s < 4\<close> by (simp add: Let_def)
qed (auto simp: decode_base64_tail_def quads_needed_def Let_def)

lemma decode_length_needs: "quads_needed (njs_decode_base64_length_core s basis) \<le> length s"
proof -
  define v where "v = length (takeWhile (\<lambda>c. basis ! unat c \<noteq> 77) s)"
  obtain q r where v: "v = 4 * q + r" "r < 4" by (metis mult_div_mod_eq mod_less_divisor zero_less_numeral)
  then have r: "r = 0 \<or> r = 1 \<or> r = 2 \<or> r = 3" by auto
  have "njs_decode_base64_length_core s basis = 3 * q + (r - 1)"
    using r v by (auto simp: njs_decode_base64_length_core_def Let_def njs_base64_decoded_length_def v_def[symmetric])
  then have "quads_needed (njs_decode_base64_length_core s basis) \<le> v" using r v by (auto simp: quads_needed_def)
  then show ?thesis using length_takeWhile_le[of "\<lambda>c. basis ! unat c \<noteq> 77" s] v_def by linarith
qed

lemma encoded_length_3: "njs_base64_encoded_length (n + 3) = njs_base64_encoded_length n + 4"
proof -
  have "(n + 3 + 2) div 3 = Suc ((n + 2) div 3)" by simp
  then show ?thesis by (simp only: njs_base64_encoded_length_def) simp
qed

lemma base64_encode_length:
  "length (njs_encode_base64_core basis padding s) =
     (if padding then njs_base64_encoded_length (length s) else if length s = 0 then 0 else base64url_size (length s))"
proof (induction basis padding s rule: njs_encode_base64_core.induct)
  case (1 basis padding c0 c1 c2 s)
  have "base64url_size (length s + 3) = base64url_size (length s) + 4"
  proof -
    have "length s mod 3 = 0 \<or> length s mod 3 = 1 \<or> length s mod 3 = 2" by auto
    moreover have "(length s + 3) mod 3 = length s mod 3" "njs_base64_encoded_length (length s + 3) = njs_base64_encoded_length (length s) + 4"
      by (simp, rule encoded_length_3)
    moreover have "length s = 0 \<or> 1 \<le> (length s + 2) div 3" by (cases s) auto
    then have "length s = 0 \<or> 3 \<le> njs_base64_encoded_length (length s)" unfolding njs_base64_encoded_length_def by linarith
    ultimately show ?thesis by (auto simp: base64url_size_def Let_def)
  qed
  moreover have "base64url_size 0 = 0" by (simp add: base64url_size_def njs_base64_encoded_length_def)
  ultimately show ?case using 1 encoded_length_3[of "length s"] by (auto simp: numeral_eq_Suc)
qed (simp_all add: njs_base64_encoded_length_def base64url_size_def)

text \<open>
  Base64.  With memory available, encoding fills exactly the string allocated for it, in the
  usual alphabet with padding and in the one for URLs without, and decoding the result gives
  the bytes back.
\<close>

theorem base64_roundtrip:
  assumes "\<forall>n. alloc n"
  shows "\<exists>r u. njs_string_base64 alloc s = Inr r \<and> length r = njs_encode_base64_length s \<and>
      njs_string_decode_base64 alloc r = Some (Inr s) \<and>
    njs_string_base64url alloc s = Inr u \<and> (s \<noteq> [] \<longrightarrow> length u = base64url_size (length s)) \<and>
      njs_string_decode_base64url alloc u = Some (Inr s)"
proof -
  have z: "njs_encode_base64_length s = 0 \<longleftrightarrow> s = []"
    by (cases s) (auto simp: njs_encode_base64_length_def njs_base64_encoded_length_def)
  have "njs_string_base64 alloc s = Inr (njs_encode_base64 s)" "njs_string_base64url alloc s = Inr (njs_encode_base64url s)"
    using assms z by (auto simp: njs_string_base64_def njs_string_base64url_def njs_encode_base64_def njs_encode_base64url_def Let_def)
  moreover have "length (njs_encode_base64 s) = njs_encode_base64_length s" "s \<noteq> [] \<longrightarrow> length (njs_encode_base64url s) = base64url_size (length s)"
    by (simp_all add: njs_encode_base64_def njs_encode_base64url_def base64_encode_length njs_encode_base64_length_def njs_base64_encoded_length_def)
  moreover have "njs_string_decode_base64 alloc (njs_encode_base64 s) = Some (Inr s)"
    using assms std64.encode_decode[OF refl, of s True]
    by (simp add: njs_string_decode_base64_def njs_string_decode_base64_core_def njs_encode_base64_def std64.decoded_length njs_decode_base64_core_def Let_def)
  moreover have "njs_string_decode_base64url alloc (njs_encode_base64url s) = Some (Inr s)"
    using assms url64.encode_decode[OF refl, of s False]
    by (simp add: njs_string_decode_base64url_def njs_string_decode_base64_core_def njs_encode_base64url_def url64.decoded_length njs_decode_base64_core_def Let_def)
  ultimately show ?thesis by blast
qed

theorem base64_roundtrip_witness:
  "\<exists>r u. njs_string_base64 (\<lambda>n. True) [0xFF, 0, 0x41, 0x7F] = Inr r \<and> length r = njs_encode_base64_length [0xFF, 0, 0x41, 0x7F] \<and>
     njs_string_decode_base64 (\<lambda>n. True) r = Some (Inr [0xFF, 0, 0x41, 0x7F]) \<and>
     njs_string_base64url (\<lambda>n. True) [0xFF, 0, 0x41, 0x7F] = Inr u \<and> length u = base64url_size (Suc (Suc (Suc (Suc 0)))) \<and>
     njs_string_decode_base64url (\<lambda>n. True) u = Some (Inr [0xFF, 0, 0x41, 0x7F])"
  using base64_roundtrip[of "\<lambda>n. True" "[0xFF, 0, 0x41, 0x7F]"] by simp

lemma decode_core_prefix: "quads_needed len \<le> length p \<Longrightarrow> decode_base64_core basis len (p @ x) = decode_base64_core basis len p"
proof (induction basis len p rule: decode_base64_core.induct)
  case (1 basis len p)
  then have "quads_needed len \<le> length (drop 4 p)" "4 \<le> length p" using quads_needed_Suc3[of len] by auto
  then show ?case using "1.IH"[OF _ refl] by (auto simp: Let_def nth_append)
qed (auto simp: decode_base64_tail_def quads_needed_def Let_def nth_append)

text \<open>
  Decoding base64 is safe for every string: the characters from the first unknown one on are
  never read, whatever is left of an incomplete group, and the bytes written are exactly those that
  were allocated.
\<close>

theorem base64_decode_safe:
  "let basis = (if url then njs_basis64url else njs_basis64); known = takeWhile (\<lambda>c. basis ! unat c \<noteq> 77) s
   in \<exists>r. njs_string_decode_base64_core alloc s url = Some r \<and> njs_string_decode_base64_core alloc known url = Some r \<and>
     (r = Inl MemoryError \<or> (\<exists>bs. r = Inr bs \<and> length bs = njs_decode_base64_length_core s basis))"
proof -
  define basis where "basis = (if url then njs_basis64url else njs_basis64)"
  define known where "known = takeWhile (\<lambda>c. basis ! unat c \<noteq> 77) s"
  define len where "len = njs_decode_base64_length_core s basis"
  have l: "njs_decode_base64_length_core known basis = len" by (simp add: known_def len_def njs_decode_base64_length_core_def)
  have n: "quads_needed len \<le> length known" using decode_length_needs[of known basis] l by simp
  obtain bs where bs: "decode_base64_core basis len known = Some bs" "length bs = len" using decode_core_total[OF n] by blast
  obtain rest where "s = known @ rest" unfolding known_def by (metis takeWhile_dropWhile_id)
  then have "decode_base64_core basis len s = Some bs" using decode_core_prefix[OF n] bs(1) by simp
  then have "\<exists>r. njs_string_decode_base64_core alloc s url = Some r \<and> njs_string_decode_base64_core alloc known url = Some r \<and>
      (r = Inl MemoryError \<or> (\<exists>bs. r = Inr bs \<and> length bs = len))"
    using bs l by (simp add: njs_string_decode_base64_core_def basis_def[symmetric] len_def[symmetric] Let_def njs_decode_base64_core_def)
  then show ?thesis by (simp add: Let_def basis_def known_def len_def)
qed

subsection \<open>Hex\<close>

lemma hex_digits: "list_all (\<lambda>k. njs_char_to_hex (lower_hex ! k) = int k) [0..<16]"
  by code_simp

lemma hex_digit: "k < 16 \<Longrightarrow> njs_char_to_hex (lower_hex ! k) = int k"
  using hex_digits by (simp add: list_all_iff)

lemma unat_byte: "unat c < 256" for c :: u_char
proof -
  have "unat c < 2 ^ LENGTH(8)" by (rule unsigned_less)
  then show ?thesis by simp
qed

lemma nibbles: "unat (drop_bit 4 c) < 16" "unat (c AND 0x0F) < 16" "word_of_int (int (unat (drop_bit 4 c)) * 16 + int (unat (c AND 0x0F))) = c"
  for c :: u_char
proof -
  have d: "unat (drop_bit 4 c) = unat c div 16" by (simp only: unat_drop_bit_eq) (simp add: drop_bit_eq_div)
  have "c AND 0x0F = take_bit 4 c" by (simp add: take_bit_eq_mask mask_eq_exp_minus_1)
  then have m: "unat (c AND 0x0F) = unat c mod 16" by (simp add: unsigned_take_bit_eq take_bit_eq_mod unat_mod)
  show "unat (drop_bit 4 c) < 16" using unat_byte[of c] by (simp add: d)
  show "unat (c AND 0x0F) < 16" by (simp add: m)
  have "int (unat c div 16) * 16 + int (unat c mod 16) = int (unat c)" by (metis div_mult_mod_eq of_nat_add of_nat_mult of_nat_numeral)
  then show "word_of_int (int (unat (drop_bit 4 c)) * 16 + int (unat (c AND 0x0F))) = c" by (simp add: d m)
qed

lemma nibble_word: "drop_bit 4 c * 16 + (c AND 0x0F) = c" for c :: u_char
  using nibbles(3)[of c] by simp

lemma decode_encode_hex: "even i \<Longrightarrow> decode_hex_loop i 0 (njs_encode_hex s) = s"
  by (induction s arbitrary: i) (simp_all add: hex_digit nibbles nibble_word Let_def)

lemma decode_hex_length: "length (decode_hex_loop i n s) \<le> (length s + (if odd i then 1 else 0)) div 2"
proof (induction i n s rule: decode_hex_loop.induct)
  case (2 i n ch s)
  then show ?case by (auto simp: Let_def)
qed simp

lemma byte_in_list: "c \<in> set (map word_of_nat [0..<256])" for c :: u_char
proof -
  have "unat c < 256" by (rule unat_byte)
  then have "(word_of_nat (unat c) :: u_char) \<in> word_of_nat ` set [0..<256]" by (intro imageI) simp
  then show ?thesis by simp
qed

lemma hex_chars:
  "list_all (\<lambda>c. (0 \<le> njs_char_to_hex c) = (0x30 \<le> c \<and> c \<le> 0x39 \<or> 0x41 \<le> c \<and> c \<le> 0x46 \<or> 0x61 \<le> c \<and> c \<le> 0x66 \<or> 0x10 \<le> c \<and> c \<le> 0x19))
     (map word_of_nat [0..<256])"
  by code_simp

text \<open>
  Hex.  Decoding what was encoded gives the bytes back, and decoding any string fits the half
  of its length that was allocated.  Which characters count as digits: beside those of hexadecimal
  numbers also the control characters 0x10 to 0x19, because bit 5 is set before the comparison.
\<close>

theorem hex_codec:
  "length (njs_encode_hex s) = njs_encode_hex_length s \<and> njs_decode_hex (njs_encode_hex s) = s \<and>
   length (njs_decode_hex t) \<le> njs_decode_hex_length t \<and>
   (0 \<le> njs_char_to_hex c \<longleftrightarrow>
     0x30 \<le> c \<and> c \<le> 0x39 \<or> 0x41 \<le> c \<and> c \<le> 0x46 \<or> 0x61 \<le> c \<and> c \<le> 0x66 \<or> 0x10 \<le> c \<and> c \<le> 0x19)"
proof (intro conjI)
  show "length (njs_encode_hex s) = njs_encode_hex_length s" by (induction s) (auto simp: njs_encode_hex_length_def)
  show "njs_decode_hex (njs_encode_hex s) = s" using decode_encode_hex[of 0 s] by (simp add: njs_decode_hex_def)
  show "length (njs_decode_hex t) \<le> njs_decode_hex_length t"
    using decode_hex_length[of 0 0 t] by (simp add: njs_decode_hex_def njs_decode_hex_length_def)
  show "0 \<le> njs_char_to_hex c \<longleftrightarrow>
     0x30 \<le> c \<and> c \<le> 0x39 \<or> 0x41 \<le> c \<and> c \<le> 0x46 \<or> 0x61 \<le> c \<and> c \<le> 0x66 \<or> 0x10 \<le> c \<and> c \<le> 0x19"
    using hex_chars byte_in_list[of c] unfolding list_all_iff by blast
qed

subsection \<open>btoa\<close>

lemma decode_one:
  assumes "is_scalar u" "need ctx = 0"
  obtains ctx' where "njs_utf8_decode ctx (the (njs_utf8_encode u) @ rest) = Some (u, ctx', rest)" "need ctx' = 0" "the (njs_utf8_encode u) \<noteq> []"
proof -
  obtain bs where bs: "njs_utf8_encode u = Some bs" using is_scalar_encode[OF assms(1)] by blast
  moreover have "bs \<noteq> []" using encode_size[OF bs] by (auto simp: njs_utf8_size_def split: if_splits)
  ultimately show thesis using decode_scalar[OF assms(1) bs assms(2), of rest] that by auto
qed

lemma mask_forms: "(0x03 :: 'a :: len word) = mask 2" "(0x0F :: 'a word) = mask 4" "(0x3F :: 'a word) = mask 6"
  by (simp_all add: mask_eq_exp_minus_1)

lemma bit_low: "bit c n \<Longrightarrow> n < 8" for c :: u_char
  using bit_imp_le_length[of c n] by simp

lemma ucast_sextets:
  fixes c0 c1 c2 :: u_char
  shows "drop_bit 2 (ucast c0 :: uint32) = ucast (drop_bit 2 c0)"
    "push_bit 4 (ucast c0 AND 0x03) OR drop_bit 4 (ucast c1) = (ucast (push_bit 4 (c0 AND 0x03) OR drop_bit 4 c1) :: uint32)"
    "push_bit 2 (ucast c1 AND 0x0F) OR drop_bit 6 (ucast c2) = (ucast (push_bit 2 (c1 AND 0x0F) OR drop_bit 6 c2) :: uint32)"
    "ucast c2 AND 0x3F = (ucast (c2 AND 0x3F) :: uint32)"
    "push_bit 4 (ucast c0 AND 0x03) = (ucast (push_bit 4 (c0 AND 0x03)) :: uint32)"
    "push_bit 2 (ucast c1 AND 0x0F) = (ucast (push_bit 2 (c1 AND 0x0F)) :: uint32)"
  unfolding mask_forms by (auto intro!: bit_word_eqI simp: bit_simps) (auto dest!: bit_low)

lemma enc64_byte: "enc64 (ucast c) = njs_basis64_enc ! unat c" for c :: u_char
  by (simp add: enc64_def unsigned_ucast_eq take_bit_nat_eq_self less_trans[OF unat_byte])

lemma latin1_byte: "u \<le> 0xFF \<Longrightarrow> u = ucast (ucast u :: u_char)" for u :: uint32
proof -
  assume "u \<le> 0xFF"
  then have "unat u < 256" by (simp add: word_le_nat_alt)
  then have "take_bit 8 (unat u) = unat u" "take_bit 32 (unat u) = unat u" by (simp_all add: take_bit_nat_eq_self)
  then have "unat (ucast (ucast u :: u_char) :: uint32) = unat u" by (simp only: unsigned_ucast_eq) (simp add: unsigned_take_bit_eq)
  then show ?thesis by (metis word_unat_eq_iff)
qed

definition latin1 :: "uint32 list \<Rightarrow> bool" where
  "latin1 us \<longleftrightarrow> list_all (\<lambda>u. u \<le> 0xFF) us"

lemma btoa_quad:
  fixes c0 c1 c2 :: u_char
  shows "[enc64 (drop_bit 2 (ucast c0)), enc64 (push_bit 4 (ucast c0 AND 0x03) OR drop_bit 4 (ucast c1)),
     enc64 (push_bit 2 (ucast c1 AND 0x0F) OR drop_bit 6 (ucast c2)), enc64 (ucast c2 AND 0x3F)] @ njs_encode_base64 s = njs_encode_base64 (c0 # c1 # c2 # s)"
    "[enc64 (drop_bit 2 (ucast c0)), enc64 (push_bit 4 (ucast c0 AND 0x03) OR drop_bit 4 (ucast c1)), enc64 (push_bit 2 (ucast c1 AND 0x0F)), 0x3D] =
       njs_encode_base64 [c0, c1]"
    "[enc64 (drop_bit 2 (ucast c0)), enc64 (push_bit 4 (ucast c0 AND 0x03)), 0x3D, 0x3D] = njs_encode_base64 [c0]"
proof -
  show "[enc64 (drop_bit 2 (ucast c0)), enc64 (push_bit 4 (ucast c0 AND 0x03) OR drop_bit 4 (ucast c1)),
     enc64 (push_bit 2 (ucast c1 AND 0x0F) OR drop_bit 6 (ucast c2)), enc64 (ucast c2 AND 0x3F)] @ njs_encode_base64 s = njs_encode_base64 (c0 # c1 # c2 # s)"
    unfolding ucast_sextets(1-4) enc64_byte njs_encode_base64_def njs_encode_base64_core.simps ..
  show "[enc64 (drop_bit 2 (ucast c0)), enc64 (push_bit 4 (ucast c0 AND 0x03) OR drop_bit 4 (ucast c1)), enc64 (push_bit 2 (ucast c1 AND 0x0F)), 0x3D] =
       njs_encode_base64 [c0, c1]"
    unfolding ucast_sextets(1,2,6) enc64_byte njs_encode_base64_def njs_encode_base64_core.simps by (simp only: if_True append.simps)
  show "[enc64 (drop_bit 2 (ucast c0)), enc64 (push_bit 4 (ucast c0 AND 0x03)), 0x3D, 0x3D] = njs_encode_base64 [c0]"
    unfolding ucast_sextets(1,5) enc64_byte njs_encode_base64_def njs_encode_base64_core.simps by (simp only: if_True append.simps)
qed

lemma btoa_tail_text:
  assumes "list_all is_scalar us" "need ctx = 0" "length us < 3"
  shows "btoa_tail (length us) ctx (encode_all us) =
    Some (if latin1 us then Inr (njs_encode_base64 (map ucast us)) else Inl (TypeErr above_latin1))"
proof -
  consider "us = []" | u where "us = [u]" | u v where "us = [u, v]"
    using assms(3) by (cases us; cases "tl us"; cases "tl (tl us)") auto
  then show ?thesis
  proof cases
    case 1
    then show ?thesis by (simp add: btoa_tail_def latin1_def njs_encode_base64_def)
  next
    case (2 u)
    obtain ctx1 where d: "njs_utf8_decode ctx (the (njs_utf8_encode u) @ []) = Some (u, ctx1, [])" using decode_one assms 2 by (metis list.pred_inject(2))
    show ?thesis
    proof (cases "u \<le> 0xFF")
      case True
      then show ?thesis using d 2 btoa_quad(3)[of "ucast u"] latin1_byte[OF True] by (simp add: btoa_tail_def latin1_def not_less)
    qed (use d 2 in \<open>simp add: btoa_tail_def latin1_def not_le\<close>)
  next
    case (3 u v)
    obtain ctx1 where d: "njs_utf8_decode ctx (the (njs_utf8_encode u) @ the (njs_utf8_encode v)) = Some (u, ctx1, the (njs_utf8_encode v))" "need ctx1 = 0"
      using decode_one assms 3 by (metis list.pred_inject(2))
    obtain ctx2 where e: "njs_utf8_decode ctx1 (the (njs_utf8_encode v) @ []) = Some (v, ctx2, [])" using decode_one assms 3 d(2) by (metis list.pred_inject(2))
    show ?thesis
    proof (cases "u \<le> 0xFF \<and> v \<le> 0xFF")
      case True
      then show ?thesis using d e 3 btoa_quad(2)[of "ucast u" "ucast v"] latin1_byte[of u] latin1_byte[of v]
        by (simp add: btoa_tail_def latin1_def not_less)
    qed (use d e 3 in \<open>auto simp: btoa_tail_def latin1_def not_le\<close>)
  qed
qed

lemma btoa_loop_text:
  assumes "list_all is_scalar us" "need ctx = 0"
  shows "btoa_loop (length us) ctx (encode_all us) =
    Some (if latin1 us then Inr (njs_encode_base64 (map ucast us)) else Inl (TypeErr above_latin1))"
  using assms
proof (induction "length us" arbitrary: us ctx rule: less_induct)
  case less
  show ?case
  proof (cases "length us < 3")
    case True
    then have "btoa_loop (length us) ctx (encode_all us) = btoa_tail (length us) ctx (encode_all us)"
      by (cases us; cases "tl us"; cases "tl (tl us)") auto
    then show ?thesis using btoa_tail_text[OF less.prems True] by simp
  next
    case False
    then obtain u v w us' where us: "us = u # v # w # us'" by (cases us; cases "tl us"; cases "tl (tl us)") auto
    note sc = less.prems(1)[unfolded us]
    obtain c1 where d1: "njs_utf8_decode ctx (the (njs_utf8_encode u) @ encode_all (v # w # us')) = Some (u, c1, encode_all (v # w # us'))" "need c1 = 0"
        "the (njs_utf8_encode u) \<noteq> []"
      using decode_one[of u ctx] sc less.prems(2) by (metis list.pred_inject(2))
    obtain c2 where d2: "njs_utf8_decode c1 (the (njs_utf8_encode v) @ encode_all (w # us')) = Some (v, c2, encode_all (w # us'))" "need c2 = 0"
      using decode_one[of v c1] sc d1(2) by (metis list.pred_inject(2))
    obtain c3 where d3: "njs_utf8_decode c2 (the (njs_utf8_encode w) @ encode_all us') = Some (w, c3, encode_all us')" "need c3 = 0"
      using decode_one[of w c2] sc d2(2) by (metis list.pred_inject(2))
    have ih: "btoa_loop (length us') c3 (encode_all us') =
        Some (if latin1 us' then Inr (njs_encode_base64 (map ucast us')) else Inl (TypeErr above_latin1))"
      using less.hyps[of us' c3] sc d3(2) us by simp
    note steps = d1(1,3) d2(1) d3(1) ih
    show ?thesis
    proof (cases "u \<le> 0xFF \<and> v \<le> 0xFF \<and> w \<le> 0xFF")
      case True
      then show ?thesis
        using steps btoa_quad(1)[of "ucast u" "ucast v" "ucast w" "map ucast us'"] latin1_byte[of u] latin1_byte[of v] latin1_byte[of w]
        by (simp add: us latin1_def not_less)
    qed (use steps in \<open>auto simp: us latin1_def not_le\<close>)
  qed
qed

subsection \<open>atob\<close>

lemma atob_bytes:
  fixes a :: uint32 and v0 v1 v2 v3 :: u_char
  defines "a1 \<equiv> push_bit 6 a OR ucast v0"
  defines "a2 \<equiv> push_bit 6 a1 OR ucast v1"
  defines "a3 \<equiv> push_bit 6 a2 OR ucast v2"
  defines "a4 \<equiv> push_bit 6 a3 OR ucast v3"
  shows "ucast (drop_bit 4 a2 AND 0xFF) = push_bit 2 v0 OR drop_bit 4 v1"
    "ucast (drop_bit 2 a3 AND 0xFF) = push_bit 4 v1 OR drop_bit 2 v2"
    "ucast (drop_bit 0 a4 AND 0xFF) = push_bit 6 v2 OR v3"
proof -
  show "ucast (drop_bit 4 a2 AND 0xFF) = push_bit 2 v0 OR drop_bit 4 v1"
    unfolding a1_def a2_def by (rule byte_eqI; simp add: bit_simps no_high_bit)
  show "ucast (drop_bit 2 a3 AND 0xFF) = push_bit 4 v1 OR drop_bit 2 v2"
    unfolding a1_def a2_def a3_def by (rule byte_eqI; simp add: bit_simps no_high_bit)
  show "ucast (drop_bit 0 a4 AND 0xFF) = push_bit 6 v2 OR v3"
    unfolding a1_def a2_def a3_def a4_def by (rule byte_eqI; simp add: bit_simps no_high_bit)
qed

definition known64 :: "u_char \<Rightarrow> bool" where
  "known64 c \<longleftrightarrow> njs_basis64 ! unat c \<noteq> 77"

lemma unknown_specials: "\<not> known64 0x20" "\<not> known64 0x09" "\<not> known64 0x0A" "\<not> known64 0x0C" "\<not> known64 0x0D" "\<not> known64 0x3D"
  by code_simp+

lemma known64_plain: "known64 c \<Longrightarrow> \<not> atob_space c \<and> c \<noteq> 0x3D"
  using unknown_specials by (auto simp: atob_space_def)

definition atob_add :: "atob_state \<Rightarrow> u_char \<Rightarrow> atob_state" where
  "atob_add st c =
     (let a = push_bit 6 (acc st) OR ucast (njs_basis64 ! unat c); n = bits st + 6
      in if 8 \<le> n then st\<lparr>acc := a, bits := n - 8, total := total st + 1, out := out st @ write_byte_as_utf8 (ucast (drop_bit (n - 8) a AND 0xFF))\<rparr>
         else st\<lparr>acc := a, bits := n, total := total st + 1\<rparr>)"

lemma atob_step_known: "known64 c \<Longrightarrow> pad st = 0 \<Longrightarrow> atob_step njs_basis64 st c = Some (atob_add st c)"
  using known64_plain[of c] by (simp add: atob_step_def known64_def atob_add_def Let_def)

definition decoded64 :: "u_char list \<Rightarrow> u_char list" where
  "decoded64 v = the (decode_base64_core njs_basis64 (njs_decode_base64_length v) v)"

lemma decoded_length_known: "list_all known64 v \<Longrightarrow> njs_decode_base64_length v = length v div 4 * 3 + (length v mod 4 - 1)"
proof -
  assume "list_all known64 v"
  then have t: "takeWhile (\<lambda>c. njs_basis64 ! unat c \<noteq> 77) v = v" by (simp add: takeWhile_eq_all_conv list_all_iff known64_def)
  obtain q r where v: "length v = 4 * q + r" "r < 4" by (metis mult_div_mod_eq mod_less_divisor zero_less_numeral)
  then have "r = 0 \<or> r = 1 \<or> r = 2 \<or> r = 3" by auto
  then show ?thesis using v
    by (auto simp: njs_decode_base64_length_def njs_decode_base64_length_core_def t Let_def njs_base64_decoded_length_def)
qed

lemma list4_cases:
  obtains "length v < 4" | c0 c1 c2 c3 s where "v = c0 # c1 # c2 # c3 # s"
  by (cases v; cases "tl v"; cases "tl (tl v)"; cases "tl (tl (tl v))") auto

lemma decoded64_quad:
  assumes "list_all known64 (c0 # c1 # c2 # c3 # s)"
  defines "b \<equiv> \<lambda>c. njs_basis64 ! unat c"
  shows "decoded64 (c0 # c1 # c2 # c3 # s) =
    (push_bit 2 (b c0) OR drop_bit 4 (b c1)) # (push_bit 4 (b c1) OR drop_bit 2 (b c2)) # (push_bit 6 (b c2) OR b c3) # decoded64 s"
proof -
  have l: "njs_decode_base64_length (c0 # c1 # c2 # c3 # s) = Suc (Suc (Suc (njs_decode_base64_length s)))"
  proof -
    have "Suc (Suc (Suc (Suc (length s)))) div 4 = Suc (length s div 4)" "Suc (Suc (Suc (Suc (length s)))) mod 4 = length s mod 4" by simp_all
    then show ?thesis using decoded_length_known[OF assms(1)] decoded_length_known[of s] assms(1) by simp
  qed
  have "quads_needed (njs_decode_base64_length s) \<le> length s" using decode_length_needs[of s njs_basis64] by (simp add: njs_decode_base64_length_def)
  then obtain r where "decode_base64_core njs_basis64 (njs_decode_base64_length s) s = Some r" using decode_core_total by blast
  then show ?thesis by (simp add: decoded64_def l Let_def b_def)
qed

lemma atob_add_quad:
  assumes "bits st = 0"
  defines "b \<equiv> \<lambda>c. njs_basis64 ! unat c"
  shows "\<exists>a. atob_add (atob_add (atob_add (atob_add st c0) c1) c2) c3 =
    st\<lparr>acc := a, total := total st + 4,
       out := out st @ write_byte_as_utf8 (push_bit 2 (b c0) OR drop_bit 4 (b c1)) @ write_byte_as_utf8 (push_bit 4 (b c1) OR drop_bit 2 (b c2)) @
         write_byte_as_utf8 (push_bit 6 (b c2) OR b c3)\<rparr>"
  using assms(1) atob_bytes(1)[of "acc st" "b c0" "b c1"] atob_bytes(2)[of "acc st" "b c0" "b c1" "b c2"]
    atob_bytes(3)[of "acc st" "b c0" "b c1" "b c2" "b c3"]
  by (intro exI[of _ "acc (atob_add (atob_add (atob_add (atob_add st c0) c1) c2) c3)"]) (simp add: atob_add_def Let_def b_def)

lemma atob_loop_append: "atob_loop b st (xs @ ys) = (case atob_loop b st xs of None \<Rightarrow> None | Some st' \<Rightarrow> atob_loop b st' ys)"
  by (induction xs arbitrary: st) (auto split: option.splits)

lemma atob_skip_space: "atob_loop b st s = atob_loop b st (filter (\<lambda>c. \<not> atob_space c) s)"
  by (induction s arbitrary: st) (auto simp: atob_step_def split: option.splits)

lemma pad_add [simp]: "pad (atob_add st c) = pad st"
  by (simp add: atob_add_def Let_def)

lemma atob_loop_known: "list_all known64 v \<Longrightarrow> pad st = 0 \<Longrightarrow> atob_loop njs_basis64 st v = Some (foldl atob_add st v)"
  by (induction v arbitrary: st) (auto simp: atob_step_known)

definition utf8_of_bytes :: "u_char list \<Rightarrow> u_char list" where
  "utf8_of_bytes bs = concat (map write_byte_as_utf8 bs)"

lemma decoded64_short:
  "known64 c0 \<Longrightarrow> decoded64 [c0] = []" "decoded64 [] = []"
  "known64 c0 \<Longrightarrow> known64 c1 \<Longrightarrow> decoded64 [c0, c1] = [push_bit 2 (njs_basis64 ! unat c0) OR drop_bit 4 (njs_basis64 ! unat c1)]"
  "known64 c0 \<Longrightarrow> known64 c1 \<Longrightarrow> known64 c2 \<Longrightarrow> decoded64 [c0, c1, c2] =
     [push_bit 2 (njs_basis64 ! unat c0) OR drop_bit 4 (njs_basis64 ! unat c1), push_bit 4 (njs_basis64 ! unat c1) OR drop_bit 2 (njs_basis64 ! unat c2)]"
  using decoded_length_known[of "[c0]"] decoded_length_known[of "[]"] decoded_length_known[of "[c0, c1]"] decoded_length_known[of "[c0, c1, c2]"]
  by (simp_all add: decoded64_def decode_base64_tail_def Let_def)

lemma foldl_atob:
  assumes "list_all known64 v" "bits st = 0"
  shows "out (foldl atob_add st v) = out st @ utf8_of_bytes (decoded64 v) \<and> total (foldl atob_add st v) = total st + length v \<and>
    pad (foldl atob_add st v) = pad st"
  using assms
proof (induction "length v" arbitrary: v st rule: less_induct)
  case less
  show ?case
  proof (cases v rule: list4_cases)
    case (2 c0 c1 c2 c3 s)
    let ?b = "\<lambda>c. njs_basis64 ! unat c"
    obtain a where a: "atob_add (atob_add (atob_add (atob_add st c0) c1) c2) c3 =
      st\<lparr>acc := a, total := total st + 4,
         out := out st @ write_byte_as_utf8 (push_bit 2 (?b c0) OR drop_bit 4 (?b c1)) @ write_byte_as_utf8 (push_bit 4 (?b c1) OR drop_bit 2 (?b c2)) @
           write_byte_as_utf8 (push_bit 6 (?b c2) OR ?b c3)\<rparr>" (is "_ = ?st")
      using atob_add_quad[OF less.prems(2)] by blast
    have f: "foldl atob_add st v = foldl atob_add ?st s" unfolding 2 by (simp only: foldl.simps a)
    have k: "list_all known64 s" "bits ?st = 0" using less.prems by (simp_all add: 2)
    have "out (foldl atob_add ?st s) = out ?st @ utf8_of_bytes (decoded64 s) \<and> total (foldl atob_add ?st s) = total ?st + length s \<and>
        pad (foldl atob_add ?st s) = pad ?st"
      by (rule less.hyps[OF _ k]) (simp add: 2)
    moreover have "utf8_of_bytes (decoded64 v) = write_byte_as_utf8 (push_bit 2 (?b c0) OR drop_bit 4 (?b c1)) @
        write_byte_as_utf8 (push_bit 4 (?b c1) OR drop_bit 2 (?b c2)) @ write_byte_as_utf8 (push_bit 6 (?b c2) OR ?b c3) @ utf8_of_bytes (decoded64 s)"
      using decoded64_quad[OF less.prems(1)[unfolded 2]] unfolding 2 by (simp only: utf8_of_bytes_def list.map concat.simps append.assoc)
    moreover have "out ?st = out st @ write_byte_as_utf8 (push_bit 2 (?b c0) OR drop_bit 4 (?b c1)) @
        write_byte_as_utf8 (push_bit 4 (?b c1) OR drop_bit 2 (?b c2)) @ write_byte_as_utf8 (push_bit 6 (?b c2) OR ?b c3)"
      "total ?st = total st + 4" "pad ?st = pad st" by simp_all
    ultimately show ?thesis unfolding f by (simp add: 2)
  next
    case 1
    consider "v = []" | c0 where "v = [c0]" | c0 c1 where "v = [c0, c1]" | c0 c1 c2 where "v = [c0, c1, c2]"
      using 1 by (cases v; cases "tl v"; cases "tl (tl v)"; cases "tl (tl (tl v))") auto
    then show ?thesis
    proof cases
      case (3 c0 c1)
      then show ?thesis using less.prems decoded64_short(3)[of c0 c1] atob_bytes(1)[of "acc st" "njs_basis64 ! unat c0" "njs_basis64 ! unat c1"]
        by (simp add: atob_add_def Let_def utf8_of_bytes_def)
    next
      case (4 c0 c1 c2)
      then show ?thesis using less.prems decoded64_short(4)[of c0 c1 c2] atob_bytes(1)[of "acc st" "njs_basis64 ! unat c0" "njs_basis64 ! unat c1"]
          atob_bytes(2)[of "acc st" "njs_basis64 ! unat c0" "njs_basis64 ! unat c1" "njs_basis64 ! unat c2"]
        by (simp add: atob_add_def Let_def utf8_of_bytes_def)
    qed (use less.prems decoded64_short(1,2) in \<open>auto simp: atob_add_def Let_def utf8_of_bytes_def\<close>)
  qed
qed

lemma atob_padding: "atob_loop njs_basis64 st (replicate p 0x3D) = Some (st\<lparr>pad := pad st + p\<rparr>)"
proof (induction p arbitrary: st)
  case (Suc p)
  have "\<not> atob_space 0x3D" by (simp add: atob_space_def)
  then show ?case using Suc by (simp add: atob_step_def)
qed simp

lemma atob_loop_bad:
  assumes "r \<noteq> []" "\<not> known64 (hd r)" "\<not> set r \<subseteq> {0x3D}" "list_all (\<lambda>c. \<not> atob_space c) r" "pad st = 0"
  shows "atob_loop njs_basis64 st r = None"
proof -
  define p where "p = takeWhile (\<lambda>c. c = 0x3D) r"
  have p: "p = replicate (length p) 0x3D" unfolding p_def by (induction r) auto
  obtain x q where r: "r = p @ x # q" "x \<noteq> 0x3D" "\<not> atob_space x"
  proof -
    have "dropWhile (\<lambda>c. c = 0x3D) r \<noteq> []" using assms(3) by auto
    then obtain x q where q: "dropWhile (\<lambda>c. c = 0x3D) r = x # q" by (cases "dropWhile (\<lambda>c. c = 0x3D) r") auto
    then have "r = p @ x # q" unfolding p_def by (metis takeWhile_dropWhile_id)
    moreover have "x \<noteq> 0x3D" using q by (metis (full_types) dropWhile_eq_Cons_conv)
    ultimately show thesis using that assms(4) by simp
  qed
  have "atob_step njs_basis64 (st\<lparr>pad := length p\<rparr>) x = None"
  proof (cases "p = []")
    case True
    then have "\<not> known64 x" using assms(2) r by simp
    then show ?thesis using r(2,3) by (simp add: atob_step_def known64_def Let_def)
  qed (use r in \<open>simp add: atob_step_def\<close>)
  then show ?thesis using atob_padding[of st "length p"] assms(5) p r(1) by (simp add: atob_loop_append)
qed

lemma write_byte_length: "length (write_byte_as_utf8 b) \<le> 2"
proof -
  have "(ucast b :: uint32) < 0x800"
    using unat_byte[of b] by (simp add: word_less_nat_alt unsigned_ucast_eq take_bit_nat_eq_self)
  then show ?thesis by (simp add: write_byte_as_utf8_def njs_utf8_encode_def)
qed

lemma atob_step_out: "atob_step b64 st c = Some st' \<Longrightarrow> length (out st') \<le> length (out st) + 2"
  using write_byte_length by (auto simp: atob_step_def Let_def split: if_splits)

lemma atob_out_bound: "atob_loop b64 st s = Some st' \<Longrightarrow> length (out st') \<le> length (out st) + 2 * length s"
proof (induction s arbitrary: st)
  case (Cons c s)
  then obtain st1 where "atob_step b64 st c = Some st1" "atob_loop b64 st1 s = Some st'" by (auto split: option.splits)
  then show ?case using Cons.IH[of st1] atob_step_out[of b64 st c st1] by simp
qed simp

definition bad_padding :: "nat \<Rightarrow> nat \<Rightarrow> bool" where
  "bad_padding n p \<longleftrightarrow> 2 < p \<or> (n + p) mod 4 = 1 \<or> (0 < p \<and> (n + p) mod 4 \<noteq> 0)"

text \<open>
  C26.  \<open>atob\<close> is the forgiving base64 decoding of the WHATWG.  White space is dropped; what is
  left has to be characters of the alphabet followed by at most two characters of padding that
  complete the last group of four, or none, and a single character is no group.  The result is the
  bytes of the base64 decoder as characters in UTF-8.  They fit the buffer reserved for
  them, twice the size of the source.
\<close>

theorem atob_forgiving:
  assumes "\<forall>n. reserve n" "\<forall>n. alloc n"
  shows "let t = filter (\<lambda>c. \<not> atob_space c) s; v = takeWhile (\<lambda>c. njs_basis64 ! unat c \<noteq> 77) t; p = drop (length v) t
    in njs_string_atob reserve alloc s =
        (if set p \<subseteq> {0x3D} \<and> \<not> bad_padding (length v) (length p)
         then Inr (concat (map write_byte_as_utf8 (the (njs_decode_base64_core (njs_decode_base64_length v) v njs_basis64))))
         else Inl (TypeErr not_base64)) \<and>
      (\<forall>st. atob_loop njs_basis64 atob_start s = Some st \<longrightarrow> length (out st) \<le> length s * 2)"
proof -
  define t where "t = filter (\<lambda>c. \<not> atob_space c) s"
  define v where "v = takeWhile (\<lambda>c. njs_basis64 ! unat c \<noteq> 77) t"
  define p where "p = drop (length v) t"
  define st where "st = foldl atob_add atob_start v"
  have t: "t = v @ p" unfolding p_def v_def by (metis append_eq_conv_conj takeWhile_dropWhile_id)
  have k: "list_all known64 v" by (auto simp: list_all_iff v_def known64_def dest: set_takeWhileD)
  have st: "out st = utf8_of_bytes (decoded64 v)" "total st = length v" "pad st = 0"
    using foldl_atob[OF k, of atob_start] by (simp_all add: st_def atob_start_def)
  have l: "atob_loop njs_basis64 atob_start s = atob_loop njs_basis64 st p"
    using atob_skip_space[of njs_basis64 atob_start s] atob_loop_known[OF k, of atob_start] t
    by (simp add: t_def[symmetric] atob_loop_append st_def atob_start_def)
  have plain: "list_all (\<lambda>c. \<not> atob_space c) p" using t by (auto simp: list_all_iff t_def[symmetric] dest!: arg_cong[of _ _ set]) (auto simp: t_def)
  have hd: "p \<noteq> [] \<Longrightarrow> \<not> known64 (hd p)"
    unfolding p_def v_def using nth_length_takeWhile[of "\<lambda>c. njs_basis64 ! unat c \<noteq> 77" t] by (auto simp: known64_def hd_drop_conv_nth)
  have "njs_string_atob reserve alloc s =
      (if set p \<subseteq> {0x3D} \<and> \<not> bad_padding (length v) (length p) then Inr (utf8_of_bytes (decoded64 v)) else Inl (TypeErr not_base64))"
  proof (cases "set p \<subseteq> {0x3D}")
    case True
    then have "p = replicate (length p) 0x3D" by (induction p) auto
    then have "atob_loop njs_basis64 st p = Some (st\<lparr>pad := length p\<rparr>)" using atob_padding[of st "length p"] st(3) by simp
    moreover have "length v = 0 \<Longrightarrow> utf8_of_bytes (decoded64 v) = []" by (simp add: utf8_of_bytes_def decoded64_short)
    ultimately show ?thesis using assms True st l by (simp add: njs_string_atob_def atob_rejects_def bad_padding_def)
  next
    case False
    then have "p \<noteq> []" by auto
    then have "atob_loop njs_basis64 st p = None" using atob_loop_bad[OF _ hd False plain st(3)] by blast
    then show ?thesis using assms False l by (simp add: njs_string_atob_def)
  qed
  moreover have "atob_loop njs_basis64 atob_start s = Some st' \<Longrightarrow> length (out st') \<le> length s * 2" for st'
    using atob_out_bound[of njs_basis64 atob_start s st'] by (simp add: atob_start_def)
  ultimately show ?thesis
    unfolding Let_def t_def[symmetric] v_def[symmetric] p_def[symmetric] utf8_of_bytes_def decoded64_def njs_decode_base64_core_def by blast
qed

theorem atob_forgiving_witness:
  "njs_string_atob (\<lambda>n. True) (\<lambda>n. True) [0x59, 0x51, 0x0A, 0x3D, 0x3D] = Inr [0x61]"
proof -
  let ?v = "[0x59, 0x51] :: u_char list"
  have t: "filter (\<lambda>c. \<not> atob_space c) [0x59, 0x51, 0x0A, 0x3D, 0x3D] = ?v @ [0x3D, 0x3D]"
    "takeWhile (\<lambda>c. njs_basis64 ! unat c \<noteq> 77) (?v @ [0x3D, 0x3D]) = ?v" "drop (length ?v) (?v @ [0x3D, 0x3D]) = [0x3D, 0x3D]"
    "concat (map write_byte_as_utf8 (the (njs_decode_base64_core (njs_decode_base64_length ?v) ?v njs_basis64))) = [0x61]"
    by code_simp+
  show ?thesis
    using atob_forgiving[of "\<lambda>n. True" "\<lambda>n. True" "[0x59, 0x51, 0x0A, 0x3D, 0x3D]"] unfolding Let_def t by (simp add: bad_padding_def)
qed

subsection \<open>Round trip of btoa and atob\<close>

lemma encoded_parts:
  obtains v p where "njs_encode_base64 s = v @ replicate p 0x3D" "list_all known64 v" "length v = (length s * 4 + 2) div 3" "p = (3 - length s mod 3) mod 3"
proof -
  obtain ws where ws: "list_all (\<lambda>w :: u_char. w < 64) ws" "length ws = (length s * 4 + 2) div 3"
    "njs_encode_base64_core njs_basis64_enc True s = map (\<lambda>w. njs_basis64_enc ! unat w) ws @ replicate (if True then (3 - length s mod 3) mod 3 else 0) 0x3D"
    using std64.encode_sextets[OF refl] by blast
  have "list_all known64 (map (\<lambda>w. njs_basis64_enc ! unat w) ws)" using ws(1) std64.known by (auto simp: list_all_iff known64_def)
  then show thesis using that[of "map (\<lambda>w. njs_basis64_enc ! unat w) ws"] ws(2,3) by (simp add: njs_encode_base64_def)
qed

lemma good_padding: "\<not> bad_padding ((n * 4 + 2) div 3) ((3 - n mod 3) mod 3)"
proof -
  obtain q r where n: "n = 3 * q + r" "r < 3" by (metis mult_div_mod_eq mod_less_divisor zero_less_numeral)
  then have "r = 0 \<or> r = 1 \<or> r = 2" by auto
  moreover from this have "(n * 4 + 2) div 3 = 4 * q + (if r = 0 then 0 else r + 1)" "n mod 3 = r" using n by auto
  ultimately show ?thesis by (auto simp: bad_padding_def)
qed

lemma decoded64_encoded:
  assumes "njs_encode_base64 s = v @ replicate p 0x3D" "list_all known64 v"
  shows "decoded64 v = s"
proof -
  have "takeWhile (\<lambda>c. njs_basis64 ! unat c \<noteq> 77) (v @ replicate p 0x3D) = takeWhile (\<lambda>c. njs_basis64 ! unat c \<noteq> 77) v"
    using assms(2) unknown_specials(6) by (cases p) (auto simp: list_all_iff known64_def takeWhile_append takeWhile_eq_all_conv[THEN iffD2])
  then have l: "njs_decode_base64_length v = length s"
    using std64.decoded_length[of True s] assms(1)
    by (simp add: njs_decode_base64_length_def njs_decode_base64_length_core_def njs_encode_base64_def)
  have "quads_needed (length s) \<le> length v" using decode_length_needs[of v njs_basis64] l by (simp add: njs_decode_base64_length_def)
  then have "decode_base64_core njs_basis64 (length s) v = decode_base64_core njs_basis64 (length s) (njs_encode_base64 s)"
    using decode_core_prefix assms(1) by simp
  then show ?thesis using std64.encode_decode[OF refl, of s True] by (simp add: decoded64_def l njs_encode_base64_def)
qed

lemma atob_encoded:
  assumes "\<forall>n. reserve n" "\<forall>n. alloc n"
  shows "njs_string_atob reserve alloc (njs_encode_base64 s) = Inr (utf8_of_bytes s)"
proof -
  obtain v p where e: "njs_encode_base64 s = v @ replicate p 0x3D" "list_all known64 v" "length v = (length s * 4 + 2) div 3" "p = (3 - length s mod 3) mod 3"
    by (rule encoded_parts)
  define st where "st = foldl atob_add atob_start v"
  have st: "out st = utf8_of_bytes s" "total st = length v" "pad st = 0"
    using foldl_atob[OF e(2), of atob_start] decoded64_encoded[OF e(1,2)] by (simp_all add: st_def atob_start_def)
  have "atob_loop njs_basis64 atob_start (njs_encode_base64 s) = Some (st\<lparr>pad := p\<rparr>)"
    using atob_loop_known[OF e(2), of atob_start] atob_padding[of st p] st(3) by (simp add: e(1) atob_loop_append st_def atob_start_def)
  moreover have "\<not> bad_padding (length v) p" using good_padding e(3,4) by simp
  moreover have "length v = 0 \<Longrightarrow> s = []" using decoded64_encoded[OF e(1,2)] by (simp add: decoded64_short)
  ultimately show ?thesis using assms st by (auto simp: njs_string_atob_def atob_rejects_def bad_padding_def utf8_of_bytes_def)
qed

lemma latin1_bytes: "latin1 us \<Longrightarrow> utf8_of_bytes (map ucast us) = encode_all us"
  by (induction us) (auto simp: latin1_def utf8_of_bytes_def write_byte_as_utf8_def latin1_byte[symmetric])

lemma btoa_text:
  assumes "list_all is_scalar us" "\<forall>n. alloc n"
  shows "njs_string_btoa alloc \<lparr>prop_start = encode_all us, prop_length = length us\<rparr> =
      Some (if latin1 us then Inr (njs_encode_base64 (map ucast us)) else Inl (TypeErr above_latin1))"
proof -
  have "need idle_ctx = 0" by (simp add: idle_ctx_def njs_utf8_decode_init_def)
  then show ?thesis
    using assms(2) btoa_loop_text[OF assms(1)] by (cases "us = []") (simp_all add: njs_string_btoa_def prop_size_def)
qed

text \<open>
  C25.  \<open>btoa\<close> and \<open>atob\<close>.  For every valid string, \<open>btoa\<close> answers the base64 encoding of its
  characters as bytes, or a TypeError when one of them is above U+00FF, and never reads past the
  string; \<open>atob\<close> of the answer is the string.
\<close>

theorem btoa_atob_roundtrip:
  assumes "list_all is_scalar us" "\<forall>n. reserve n" "\<forall>n. alloc n"
  shows "njs_string_btoa alloc \<lparr>prop_start = encode_all us, prop_length = length us\<rparr> =
      Some (if latin1 us then Inr (njs_encode_base64 (map ucast us)) else Inl (TypeErr above_latin1)) \<and>
    (latin1 us \<longrightarrow> njs_string_atob reserve alloc (njs_encode_base64 (map ucast us)) = Inr (encode_all us))"
  using btoa_text[OF assms(1,3)] atob_encoded[OF assms(2,3), of "map ucast us"] latin1_bytes[of us] by simp

theorem btoa_atob_roundtrip_witness:
  "njs_string_btoa (\<lambda>n. True) \<lparr>prop_start = encode_all [0x61, 0xE9], prop_length = length [0x61, 0xE9 :: uint32]\<rparr> =
      Some (Inr (njs_encode_base64 [0x61, 0xE9])) \<and>
    njs_string_atob (\<lambda>n. True) (\<lambda>n. True) (njs_encode_base64 [0x61, 0xE9]) = Inr (encode_all [0x61, 0xE9])"
proof -
  have a: "list_all is_scalar [0x61, 0xE9]" "\<forall>n. (\<lambda>n. True) n" by (simp_all add: is_scalar_unat)
  have l: "latin1 [0x61, 0xE9]" "map ucast [0x61, 0xE9 :: uint32] = [0x61, 0xE9 :: u_char]" by (simp_all add: latin1_def)
  show ?thesis using btoa_atob_roundtrip[OF a(1) a(2) a(2)] unfolding l(2) using l(1) by (simp del: encode_all_simps)
qed

end
