(* ===== verification/Njs_Uri.thy ===== *)
theory Njs_Uri
  imports Njs_Codec
begin

section \<open>URI coding (njs_string_encode_uri, njs_string_decode_uri of src/src/njs_string.c)\<close>

text \<open>
  The sets of characters are tables of 256 bits in eight words.  Encoding goes over the string twice, to
  measure and to write; decoding collects its result in a chain of buffers.
\<close>

definition bit_in_table :: "uint32 list \<Rightarrow> uint32 \<Rightarrow> bool" where
  "bit_in_table t byte \<longleftrightarrow> t ! unat (drop_bit 5 byte) AND push_bit (unat (byte AND 0x1F)) 1 \<noteq> 0"

definition njs_need_escape :: "uint32 list \<Rightarrow> uint32 \<Rightarrow> bool" where
  "njs_need_escape escape byte = bit_in_table escape byte"

definition njs_reserved :: "uint32 list \<Rightarrow> uint32 \<Rightarrow> bool" where
  "njs_reserved reserve byte = bit_in_table reserve byte"

definition escape_uri :: "uint32 list" where
  "escape_uri = [0xFFFFFFFF, 0x50000025, 0x78000000, 0xB8000001, 0xFFFFFFFF, 0xFFFFFFFF, 0xFFFFFFFF, 0xFFFFFFFF]"

definition escape_uri_component :: "uint32 list" where
  "escape_uri_component = [0xFFFFFFFF, 0xFC00987D, 0x78000001, 0xB8000001, 0xFFFFFFFF, 0xFFFFFFFF, 0xFFFFFFFF, 0xFFFFFFFF]"

definition reserve_uri :: "uint32 list" where
  "reserve_uri = [0, 0xAC009858, 0x00000001, 0, 0, 0, 0, 0]"

definition reserve_uri_component :: "uint32 list" where
  "reserve_uri_component = [0, 0, 0, 0, 0, 0, 0, 0]"

definition upper_hex :: "u_char list" where
  "upper_hex = [0x30, 0x31, 0x32, 0x33, 0x34, 0x35, 0x36, 0x37, 0x38, 0x39, 0x41, 0x42, 0x43, 0x44, 0x45, 0x46]"

fun njs_string_encode :: "uint32 list \<Rightarrow> u_char list \<Rightarrow> u_char list" where
  "njs_string_encode escape [] = []"
| "njs_string_encode escape (byte # src) =
     (if njs_need_escape escape (ucast byte)
      then 0x25 # upper_hex ! unat (drop_bit 4 byte) # upper_hex ! unat (byte AND 0x0F) # njs_string_encode escape src
      else byte # njs_string_encode escape src)"

definition malformed_uri :: codec_error where "malformed_uri = URIError ''malformed URI''"

subsection \<open>Encoding\<close>

definition ascii_size :: "uint32 list \<Rightarrow> u_char list \<Rightarrow> nat" where
  "ascii_size escape src = sum_list (map (\<lambda>b. if njs_need_escape escape (ucast b) then 3 else 1) src)"

text \<open>The first pass over a string that is not ASCII.\<close>

function utf8_size_loop ::
    "uint32 list \<Rightarrow> njs_unicode_decode \<Rightarrow> u_char list \<Rightarrow> nat \<Rightarrow> (codec_error + nat) option" where
  "utf8_size_loop escape ctx src sz =
     (if src = [] then Some (Inr sz)
      else
        (case njs_utf8_decode ctx src of
           None \<Rightarrow> None
         | Some (cp, ctx1, src1) \<Rightarrow>
             (if cp < 0x80 \<and> \<not> njs_need_escape escape cp then utf8_size_loop escape ctx1 src1 (sz + 1)
              else if njs_surrogate_any cp then
                (if src1 = [] then Some (Inl malformed_uri)
                 else if njs_surrogate_leading cp then
                   (case njs_utf8_decode ctx1 src1 of
                      None \<Rightarrow> None
                    | Some (cp_low, ctx2, src2) \<Rightarrow>
                        (if \<not> njs_surrogate_trailing cp_low then Some (Inl malformed_uri)
                         else utf8_size_loop escape ctx2 src2 (sz + njs_utf8_size (njs_surrogate_pair cp cp_low) * 3)))
                 else Some (Inl malformed_uri))
              else utf8_size_loop escape ctx1 src1 (sz + njs_utf8_size cp * 3))))"
  by pat_completeness auto
termination
proof (relation "measure (\<lambda>(escape, ctx, src, sz). pending ctx src)", goal_cases)
  case (3 escape ctx src sz x2 cp y ctx1 src1 x2a cp_low ya ctx2 src2)
  then show ?case
    using utf8_decode_pending[of ctx src cp ctx1 src1] utf8_decode_pending[of ctx1 src1 cp_low ctx2 src2] by auto
qed (auto dest: utf8_decode_pending)

declare utf8_size_loop.simps [simp del]

definition encode_uri_size :: "uint32 list \<Rightarrow> njs_string_prop \<Rightarrow> (codec_error + nat) option" where
  "encode_uri_size escape string =
     (if njs_is_ascii_string string then Some (Inr (ascii_size escape (prop_start string)))
      else utf8_size_loop escape idle_ctx (prop_start string) 0)"

text \<open>
  The second pass.  \<open>njs_utf8_encode\<close> leaves the bytes of its buffer alone when the code point has
  no encoding; the result is None then.
\<close>

lemma utf8_decode_nil: "njs_utf8_decode ctx [] = Some (cp, ctx', r) \<Longrightarrow> r = []"
  by (auto simp: njs_utf8_decode_def njs_utf8_boundary_def decode_failed_def Let_def split: if_splits option.splits sum.splits)

function encode_uri_loop :: "uint32 list \<Rightarrow> njs_unicode_decode \<Rightarrow> u_char list \<Rightarrow> u_char list option" where
  "encode_uri_loop escape ctx src =
     (if src = [] then Some []
      else
        (case njs_utf8_decode ctx src of
           None \<Rightarrow> None
         | Some (cp, ctx1, src1) \<Rightarrow>
             (case (if njs_surrogate_leading cp
                    then map_option (\<lambda>(cp_low, ctx2, src2). (njs_surrogate_pair cp cp_low, ctx2, src2)) (njs_utf8_decode ctx1 src1)
                    else Some (cp, ctx1, src1)) of
                None \<Rightarrow> None
              | Some (cp', ctx', src') \<Rightarrow>
                  (case njs_utf8_encode cp' of
                     None \<Rightarrow> None
                   | Some bs \<Rightarrow> map_option (\<lambda>r. njs_string_encode escape bs @ r) (encode_uri_loop escape ctx' src')))))"
  by pat_completeness auto
termination
proof (relation "measure (\<lambda>(escape, ctx, src). pending ctx src)", goal_cases)
  case (2 escape ctx src x2 cp y ctx1 src1 x2a cp' ya ctx' src' bs)
  then have d: "njs_utf8_decode ctx src = Some (cp, ctx1, src1)" "src \<noteq> []" by auto
  note p = utf8_decode_pending[OF d]
  show ?case
  proof (cases "njs_surrogate_leading cp")
    case True
    then obtain low where l: "njs_utf8_decode ctx1 src1 = Some (low, ctx', src')" using 2 by auto
    show ?thesis
    proof (cases "src1 = []")
      case True
      then have "src' = []" using l utf8_decode_nil by blast
      then show ?thesis using d(2) by (cases src) (auto simp: pending_def)
    next
      case False
      then show ?thesis using utf8_decode_pending[OF l] p by simp
    qed
  qed (use 2 p in auto)
qed simp

declare encode_uri_loop.simps [simp del]

definition njs_string_encode_uri ::
    "(nat \<Rightarrow> bool) \<Rightarrow> bool \<Rightarrow> njs_string_prop \<Rightarrow> (codec_error + u_char list) option" where
  "njs_string_encode_uri alloc component string =
     (let escape = (if component then escape_uri_component else escape_uri)
      in case encode_uri_size escape string of
           None \<Rightarrow> None
         | Some (Inl e) \<Rightarrow> Some (Inl e)
         | Some (Inr sz) \<Rightarrow>
             (if sz = 0 then Some (Inr (prop_start string))
              else if \<not> alloc sz then Some (Inl MemoryError)
              else if njs_is_ascii_string string then Some (Inr (njs_string_encode escape (prop_start string)))
              else map_option Inr (encode_uri_loop escape idle_ctx (prop_start string))))"

subsection \<open>Decoding\<close>

definition uri_hex :: "int list" where
  "uri_hex =
     replicate 48 (- 1) @ [0, 1, 2, 3, 4, 5, 6, 7, 8, 9] @ replicate 7 (- 1) @ [10, 11, 12, 13, 14, 15] @ replicate 26 (- 1) @
     [10, 11, 12, 13, 14, 15] @ replicate 153 (- 1)"

definition njs_string_decode_uri_cp :: "u_char list \<Rightarrow> bool \<Rightarrow> (uint32 \<times> u_char list) option" where
  "njs_string_decode_uri_cp start expect_percent =
     (case njs_utf8_decode idle_ctx start of
        None \<Rightarrow> None
      | Some (cp, _, p) \<Rightarrow>
          Some (if cp \<noteq> 0x25 then (if expect_percent then NJS_UNICODE_ERROR else cp, p)
                else if length p < 2 then (NJS_UNICODE_ERROR, p)
                else
                  (let d0 = uri_hex ! unat (p ! 0); d1 = uri_hex ! unat (p ! 1)
                   in if d0 < 0 \<or> d1 < 0 then (NJS_UNICODE_ERROR, p) else (word_of_int (d0 * 16 + d1), drop 2 p))))"

text \<open>The number of bytes that the lead byte announces.\<close>

lemma push_bit_high: "8 \<le> n \<Longrightarrow> push_bit n cp AND 0x80 = 0" for cp :: uint32
proof -
  assume "8 \<le> n"
  then have "\<not> bit (push_bit n cp) 7" by (simp add: bit_push_bit_iff)
  then show ?thesis using and_exp_eq_0_iff_not_bit[of "push_bit n cp" 7] by simp
qed

function lead_count :: "nat \<Rightarrow> uint32 \<Rightarrow> nat" where
  "lead_count n cp = (if push_bit n cp AND 0x80 \<noteq> 0 then lead_count (n + 1) cp else n)"
  by pat_completeness auto
termination
proof (relation "measure (\<lambda>(n, cp). 8 - n)", goal_cases)
  case (2 n cp)
  then have "n < 8" using push_bit_high[of n cp] by (meson not_le)
  then show ?case by simp
qed simp

declare lead_count.simps [simp del]

fun more_bytes :: "nat \<Rightarrow> u_char list \<Rightarrow> (codec_error + u_char list \<times> u_char list) option" where
  "more_bytes 0 src = Some (Inr ([], src))"
| "more_bytes (Suc n) src =
     (case njs_string_decode_uri_cp src True of
        None \<Rightarrow> None
      | Some (cp, src1) \<Rightarrow>
          (if NJS_UNICODE_MAX_CODEPOINT < cp then Some (Inl malformed_uri)
           else
             (case more_bytes n src1 of
                None \<Rightarrow> None
              | Some (Inl e) \<Rightarrow> Some (Inl e)
              | Some (Inr (bs, src2)) \<Rightarrow> Some (Inr (ucast cp # bs, src2)))))"

definition utf8_bytes :: "uint32 \<Rightarrow> u_char list" where
  "utf8_bytes cp = (case njs_utf8_encode cp of Some bs \<Rightarrow> bs | None \<Rightarrow> [])"

text \<open>A turn of the loop: what is appended, the characters it counts, the rest and the context.\<close>

definition decode_uri_step ::
    "uint32 list \<Rightarrow> njs_unicode_decode \<Rightarrow> u_char list \<Rightarrow>
     (codec_error + u_char list \<times> nat \<times> u_char list \<times> njs_unicode_decode) option" where
  "decode_uri_step reserve ctx src =
     (case njs_string_decode_uri_cp src False of
        None \<Rightarrow> None
      | Some (cp, src1) \<Rightarrow>
          (if NJS_UNICODE_MAX_CODEPOINT < cp then Some (Inl malformed_uri)
           else if hd src \<noteq> 0x25 then Some (Inr (utf8_bytes cp, 1, src1, ctx))
           else if cp < 0x80 then
             (if njs_reserved reserve cp then Some (Inr (take 3 src, 3, src1, ctx)) else Some (Inr ([ucast cp], 1, src1, ctx)))
           else
             (let n = lead_count 2 cp
              in if 4 < n \<or> length src1 < 3 * (n - 1) then Some (Inl malformed_uri)
                 else
                   (case more_bytes (n - 1) src1 of
                      None \<Rightarrow> None
                    | Some (Inl e) \<Rightarrow> Some (Inl e)
                    | Some (Inr (bs, src2)) \<Rightarrow>
                        (case njs_utf8_decode ctx (ucast cp # bs) of
                           None \<Rightarrow> None
                         | Some (cp', ctx', _) \<Rightarrow>
                             (if NJS_UNICODE_MAX_CODEPOINT < cp' then Some (Inl malformed_uri)
                              else Some (Inr (utf8_bytes cp', 1, src2, ctx'))))))))"

lemma utf8_decode_shorter:
  assumes "njs_utf8_decode idle_ctx p = Some (cp, ctx', r)"
  shows "length r < length p"
proof (cases p)
  case Nil
  then show ?thesis using assms by (simp add: njs_utf8_decode_def idle_ctx_def njs_utf8_decode_init_def)
next
  case (Cons c cs)
  then show ?thesis using assms decode_consumes[of idle_ctx c cs cp ctx' r] by (simp add: idle_ctx_def njs_utf8_decode_init_def)
qed

lemma decode_uri_cp_shorter: "njs_string_decode_uri_cp p b = Some (cp, r) \<Longrightarrow> length r < length p"
  by (auto simp: njs_string_decode_uri_cp_def Let_def split: option.splits if_splits dest!: utf8_decode_shorter)

lemma more_bytes_shorter: "more_bytes n p = Some (Inr (bs, r)) \<Longrightarrow> length r \<le> length p"
proof (induction n p arbitrary: bs rule: more_bytes.induct)
  case (2 n src)
  then obtain cp src1 bs' where s: "njs_string_decode_uri_cp src True = Some (cp, src1)" "\<not> NJS_UNICODE_MAX_CODEPOINT < cp"
      "more_bytes n src1 = Some (Inr (bs', r))" by (auto split: option.splits if_splits sum.splits)
  have "length r \<le> length src1" using "2.IH"[OF s(1) refl s(2,3)] .
  then show ?case using decode_uri_cp_shorter[OF s(1)] by linarith
qed simp

lemma decode_uri_step_shorter:
  assumes "decode_uri_step reserve ctx src = Some (Inr (app, k, rest, ctx'))"
  shows "length rest < length src"
proof -
  obtain cp src1 where c: "njs_string_decode_uri_cp src False = Some (cp, src1)"
    using assms by (auto simp: decode_uri_step_def split: option.splits)
  have "length rest \<le> length src1"
    using assms c by (auto simp: decode_uri_step_def Let_def split: option.splits if_splits sum.splits dest!: more_bytes_shorter)
  then show ?thesis using decode_uri_cp_shorter[OF c] by linarith
qed

function decode_uri_loop ::
    "uint32 list \<Rightarrow> njs_unicode_decode \<Rightarrow> u_char list \<Rightarrow> u_char list \<Rightarrow> nat \<Rightarrow> (codec_error + u_char list \<times> nat) option" where
  "decode_uri_loop reserve ctx src chain len =
     (if src = [] then Some (Inr (chain, len))
      else
        (case decode_uri_step reserve ctx src of
           None \<Rightarrow> None
         | Some (Inl e) \<Rightarrow> Some (Inl e)
         | Some (Inr (app, k, rest, ctx')) \<Rightarrow> decode_uri_loop reserve ctx' rest (chain @ app) (len + k)))"
  by pat_completeness auto
termination
  by (relation "measure (\<lambda>(reserve, ctx, src, chain, len). length src)") (auto dest: decode_uri_step_shorter)

declare decode_uri_loop.simps [simp del]

definition njs_string_decode_uri ::
    "(nat \<Rightarrow> bool) \<Rightarrow> bool \<Rightarrow> njs_string_prop \<Rightarrow> (codec_error + njs_string_prop) option" where
  "njs_string_decode_uri alloc component string =
     (let reserve = (if component then reserve_uri_component else reserve_uri)
      in case decode_uri_loop reserve idle_ctx (prop_start string) [] 0 of
           None \<Rightarrow> None
         | Some (Inl e) \<Rightarrow> Some (Inl e)
         | Some (Inr (chain, len)) \<Rightarrow>
             (if chain = [] then Some (Inr string)
              else if alloc (length chain) then Some (Inr \<lparr>prop_start = chain, prop_length = len\<rparr>)
              else Some (Inl MemoryError)))"

end
