(* ===== verification/Njs_Uri_Props.thy ===== *)
theory Njs_Uri_Props
  imports Njs_Uri Njs_Codec_Props
begin

section \<open>URI coding: what is escaped comes back\<close>

text \<open>
  The round trip over a locale of tables, instantiated for whole URIs and for their components, and
  the decoder on every input.
\<close>

lemma list_all_uptD: "list_all P [a..<b] \<Longrightarrow> a \<le> k \<Longrightarrow> k < b \<Longrightarrow> P k"
  by (simp add: list_all_iff)

lemma nibbles_nat: "int (unat (drop_bit 4 b)) * 16 + int (unat (b AND 0x0F)) = int (unat b)" for b :: u_char
proof -
  have "unat (drop_bit 4 b) = unat b div 16" by (simp only: unat_drop_bit_eq) (simp add: drop_bit_eq_div)
  moreover have "unat (b AND 0x0F) = unat b mod 16" by (simp add: unsigned_and_eq nat_masks)
  ultimately show ?thesis by (metis div_mult_mod_eq of_nat_add of_nat_mult of_nat_numeral)
qed

lemma uri_hex_upper: "k < 16 \<Longrightarrow> uri_hex ! unat (upper_hex ! k) = int k"
proof -
  have "list_all (\<lambda>k. uri_hex ! unat (upper_hex ! k) = int k) [0..<16]" by code_simp
  from list_all_uptD[OF this] show "k < 16 \<Longrightarrow> uri_hex ! unat (upper_hex ! k) = int k" by blast
qed

lemma lead_count_lead:
  assumes "0xC0 \<le> unat c" "unat c < 0xF8"
  shows "lead_count 2 (ucast c) = (if unat c < 0xE0 then 2 else if unat c < 0xF0 then 3 else 4)"
proof -
  have "list_all (\<lambda>k. lead_count 2 (word_of_nat k) = (if k < 0xE0 then 2 else if k < 0xF0 then 3 else 4)) [0xC0..<0xF8]" by code_simp
  from list_all_uptD[OF this assms]
  have "lead_count 2 (word_of_nat (unat c)) = (if unat c < 0xE0 then 2 else if unat c < 0xF0 then 3 else 4)" .
  moreover have "word_of_nat (unat c) = ucast c" by simp
  ultimately show ?thesis by simp
qed

lemma encode_high:
  assumes "is_scalar u" "\<not> u < 0x80"
  obtains c ts where "njs_utf8_encode u = Some (c # ts)" "0xC0 \<le> unat c" "unat c < 0xF8" "list_all (\<lambda>b. 0x80 \<le> unat b) ts"
    "length ts + 1 = (if unat c < 0xE0 then 2 else if unat c < 0xF0 then 3 else 4)"
proof -
  have n: "0x80 \<le> unat u" "unat u < 0x110000" using assms by (auto simp: is_scalar_unat word_less_nat_alt)
  obtain bs where bs: "njs_utf8_encode u = Some bs" using is_scalar_encode[OF assms(1)] by blast
  then have m: "map unat bs = utf8_nat (unat u)" using unat_encode[OF n(2)] by simp
  then obtain c ts where c: "bs = c # ts" "unat c # map unat ts = utf8_nat (unat u)" by (cases bs) (auto simp: utf8_nat_def split: if_splits)
  have "0xC0 \<le> unat c \<and> unat c < 0xF8 \<and> (\<forall>n \<in> set (map unat ts). 0x80 \<le> n) \<and>
      length (map unat ts) + 1 = (if unat c < 0xE0 then 2 else if unat c < 0xF0 then 3 else 4)"
    using c(2) n by (auto simp: utf8_nat_def split: if_splits)
  then show thesis using that[of c ts] bs c(1) by (auto simp: list_all_iff)
qed

lemma encode_low: "u < 0x80 \<Longrightarrow> njs_utf8_encode u = Some [ucast u] \<and> ucast (ucast u :: u_char) = u" for u :: uint32
proof
  assume u: "u < 0x80"
  then have n: "unat u < 0x80" by (simp add: word_less_nat_alt)
  then have "map_option (map unat) (njs_utf8_encode u) = Some [unat u]" using unat_encode[of u] by (simp add: utf8_nat_def)
  then obtain b where b: "njs_utf8_encode u = Some [b]" "unat b = unat u" by auto
  moreover have "unat (ucast u :: u_char) = unat u" using n by (simp add: unat_ucast_byte)
  ultimately show "njs_utf8_encode u = Some [ucast u]" by (metis word_unat_eq_iff)
  show "ucast (ucast u :: u_char) = u" using n by (metis \<open>unat (ucast u) = unat u\<close> unat_byte_ucast word_unat_eq_iff)
qed

lemma byte_twice: "ucast (ucast b :: uint32) = b" for b :: u_char
proof -
  have "unat (ucast (ucast b :: uint32) :: u_char) = unat b" using unat_byte[of b] by (simp add: unat_ucast_byte unat_byte_ucast)
  then show ?thesis by (metis word_unat_eq_iff)
qed

lemma scalar_head:
  assumes "list_all is_scalar (u # us)" "need ctx = 0"
  obtains ctx' where "njs_utf8_decode ctx (encode_all (u # us)) = Some (u, ctx', encode_all us)" "need ctx' = 0" "encode_all (u # us) \<noteq> []"
proof -
  obtain bs where bs: "njs_utf8_encode u = Some bs" using is_scalar_encode assms(1) by auto
  then show thesis using decode_scalar[of u bs ctx "encode_all us"] encode_nonempty[OF bs] assms that by auto
qed

lemma scalar_not_leading: "is_scalar u \<Longrightarrow> \<not> njs_surrogate_leading u"
proof -
  assume "is_scalar u"
  then have "\<not> (0xD800 \<le> unat u \<and> unat u \<le> 0xDFFF)" by (simp add: is_scalar_unat)
  then show ?thesis by (simp add: njs_surrogate_leading_def) (unat_arith, auto)
qed

lemma string_encode_append: "njs_string_encode escape (xs @ ys) = njs_string_encode escape xs @ njs_string_encode escape ys"
  by (induction xs) auto

lemma string_encode_size: "length (njs_string_encode escape s) = ascii_size escape s"
  by (induction s) (auto simp: ascii_size_def)

lemma idle: "need idle_ctx = 0"
  by (simp add: idle_ctx_def njs_utf8_decode_init_def)

lemma decode_ascii:
  assumes "unat c < 0x80"
  shows "\<exists>ctx'. njs_utf8_decode idle_ctx (c # rest) = Some (ucast c, ctx', rest)"
proof -
  have u: "(ucast c :: uint32) < 0x80" using assms by (simp add: word_less_nat_alt unat_byte_ucast)
  then have "is_scalar (ucast c)" by (simp add: is_scalar_unat word_less_nat_alt)
  moreover have "njs_utf8_encode (ucast c) = Some [c]" using encode_low[OF u] by (metis encode_low[OF u] unat_byte_ucast unat_ucast_byte mod_less unat_byte word_unat_eq_iff)
  ultimately show ?thesis using decode_scalar[of "ucast c" "[c]" idle_ctx rest] idle by auto
qed

lemma decode_uri_cp_escaped:
  "njs_string_decode_uri_cp (0x25 # upper_hex ! unat (drop_bit 4 b) # upper_hex ! unat (b AND 0x0F) # rest) e = Some (ucast b, rest)"
  for b :: u_char
proof -
  let ?p = "upper_hex ! unat (drop_bit 4 b) # upper_hex ! unat (b AND 0x0F) # rest"
  obtain ctx' where "njs_utf8_decode idle_ctx (0x25 # ?p) = Some (0x25, ctx', ?p)" using decode_ascii[where c = "0x25" and rest = ?p] by auto
  moreover have "int (unat (drop_bit 4 b)) * 16 + int (unat (b AND 0x0F)) = int (unat b)"
    by (simp only: nibbles_nat)
  ultimately show ?thesis using nibbles(1,2)[of b] by (simp add: njs_string_decode_uri_cp_def uri_hex_upper Let_def)
qed


subsection \<open>The tables\<close>

text \<open>
  What the round trip needs of a table of characters to escape and one of characters whose escape
  stays as it is: the bytes of multi-byte characters and the percent sign are escaped, and an
  escaped character is not kept.
\<close>

locale uri_tables =
  fixes escape reserve :: "uint32 list"
  assumes high_escaped: "0x80 \<le> unat b \<Longrightarrow> njs_need_escape escape (ucast (b :: u_char))"
    and percent_escaped: "njs_need_escape escape 0x25"
    and escaped_not_kept: "u < 0x80 \<Longrightarrow> njs_need_escape escape u \<Longrightarrow> \<not> njs_reserved reserve u"
begin

lemma escape_high: "list_all (\<lambda>b. 0x80 \<le> unat b) bs \<Longrightarrow> ascii_size escape bs = 3 * length bs"
  by (induction bs) (auto simp: ascii_size_def high_escaped)

lemma scalar_size:
  assumes "is_scalar u"
  shows "ascii_size escape (the (njs_utf8_encode u)) = (if u < 0x80 \<and> \<not> njs_need_escape escape u then 1 else njs_utf8_size u * 3)"
proof (cases "u < 0x80")
  case True
  then show ?thesis using encode_low[OF True] by (simp add: ascii_size_def njs_utf8_size_def)
next
  case False
  then obtain c ts where e: "njs_utf8_encode u = Some (c # ts)" "0xC0 \<le> unat c" "list_all (\<lambda>b. 0x80 \<le> unat b) ts"
    using encode_high[OF assms] by metis
  then have "ascii_size escape (c # ts) = 3 * length (c # ts)" by (intro escape_high) simp
  then show ?thesis using e encode_size[OF e(1)] False by simp
qed

lemma size_loop_text:
  assumes "list_all is_scalar us" "need ctx = 0"
  shows "utf8_size_loop escape ctx (encode_all us) sz = Some (Inr (sz + ascii_size escape (encode_all us)))"
  using assms
proof (induction us arbitrary: ctx sz)
  case (Cons u us)
  then have u: "is_scalar u" by simp
  obtain ctx' where d: "njs_utf8_decode ctx (encode_all (u # us)) = Some (u, ctx', encode_all us)" "need ctx' = 0" and ne: "encode_all (u # us) \<noteq> []"
    using scalar_head[OF Cons.prems] .
  have sg: "\<not> njs_surrogate_any u" using u by (simp add: is_scalar_def)
  have "ascii_size escape (encode_all (u # us)) = ascii_size escape (the (njs_utf8_encode u)) + ascii_size escape (encode_all us)"
    by (simp add: ascii_size_def)
  then show ?case using Cons.IH[OF _ d(2)] Cons.prems(1) d(1) ne sg scalar_size[OF u]
    by (subst utf8_size_loop.simps) (auto simp: add.assoc)
qed (simp add: utf8_size_loop.simps ascii_size_def)

lemma encode_loop_text:
  assumes "list_all is_scalar us" "need ctx = 0"
  shows "encode_uri_loop escape ctx (encode_all us) = Some (njs_string_encode escape (encode_all us))"
  using assms
proof (induction us arbitrary: ctx)
  case (Cons u us)
  then have u: "is_scalar u" by simp
  obtain bs where bs: "njs_utf8_encode u = Some bs" using is_scalar_encode[OF u] by blast
  obtain ctx' where d: "njs_utf8_decode ctx (encode_all (u # us)) = Some (u, ctx', encode_all us)" "need ctx' = 0" and ne: "encode_all (u # us) \<noteq> []"
    using scalar_head[OF Cons.prems] .
  have sg: "\<not> njs_surrogate_leading u" by (rule scalar_not_leading[OF u])
  show ?case using Cons.IH[OF _ d(2)] Cons.prems(1) d(1) ne sg bs
    by (subst encode_uri_loop.simps) (simp add: string_encode_append)
qed (simp add: encode_uri_loop.simps)

lemma more_bytes_text:
  "list_all (\<lambda>b. 0x80 \<le> unat b) bs \<Longrightarrow> more_bytes (length bs) (njs_string_encode escape bs @ rest) = Some (Inr (bs, rest))"
proof (induction bs)
  case (Cons b bs)
  have "\<not> NJS_UNICODE_MAX_CODEPOINT < (ucast b :: uint32)"
    using unat_byte[of b] by (simp add: unicode_consts word_less_nat_alt unat_byte_ucast)
  then show ?case using Cons high_escaped[of b] by (simp add: decode_uri_cp_escaped byte_twice)
qed simp

lemma step_text:
  assumes "is_scalar u" "need ctx = 0"
  obtains ctx' where "decode_uri_step reserve ctx (njs_string_encode escape (the (njs_utf8_encode u)) @ rest) = Some (Inr (the (njs_utf8_encode u), 1, rest, ctx'))"
    "need ctx' = 0"
proof (cases "u < 0x80")
  case True
  note e = encode_low[OF True]
  have m: "\<not> NJS_UNICODE_MAX_CODEPOINT < u" using assms(1) by (simp add: is_scalar_def not_less)
  show thesis
  proof (cases "njs_need_escape escape u")
    case esc: True
    then have "\<not> njs_reserved reserve u" using escaped_not_kept True by blast
    then have "decode_uri_step reserve ctx (njs_string_encode escape [ucast u] @ rest) = Some (Inr ([ucast u], 1, rest, ctx))"
      using esc True m e by (simp add: decode_uri_step_def decode_uri_cp_escaped)
    then show thesis using that assms(2) e by simp
  next
    case False
    then have ne: "(ucast u :: u_char) \<noteq> 0x25" using percent_escaped e by auto
    have "unat (ucast u :: u_char) < 0x80" using True by (simp add: word_less_nat_alt unat_ucast_byte)
    then have "\<exists>c. njs_utf8_decode idle_ctx (ucast u # rest) = Some (u, c, rest)" using decode_ascii[of "ucast u" rest] e by metis
    moreover have "u \<noteq> 0x25" using False percent_escaped by auto
    ultimately have "njs_string_decode_uri_cp (ucast u # rest) False = Some (u, rest)" by (auto simp: njs_string_decode_uri_cp_def)
    then have "decode_uri_step reserve ctx (njs_string_encode escape [ucast u] @ rest) = Some (Inr ([ucast u], 1, rest, ctx))"
      using False m e ne by (simp add: decode_uri_step_def utf8_bytes_def)
    then show thesis using that assms(2) e by simp
  qed
next
  case False
  obtain c ts where e: "njs_utf8_encode u = Some (c # ts)" "0xC0 \<le> unat c" "unat c < 0xF8" "list_all (\<lambda>b. 0x80 \<le> unat b) ts"
    "length ts + 1 = (if unat c < 0xE0 then 2 else if unat c < 0xF0 then 3 else 4)" using encode_high[OF assms(1) False] .
  define n where "n = length ts + 1"
  have c: "\<not> NJS_UNICODE_MAX_CODEPOINT < (ucast c :: uint32)" "\<not> (ucast c :: uint32) < 0x80"
    using e(2,3) by (simp_all add: unicode_consts word_less_nat_alt unat_byte_ucast)
  have n: "lead_count 2 (ucast c) = n" "\<not> 4 < n" using lead_count_lead[OF e(2,3)] e(5) by (auto simp: n_def)
  have l: "\<not> length (njs_string_encode escape ts @ rest) < 3 * (n - 1)"
    using escape_high[OF e(4)] by (simp add: string_encode_size n_def)
  obtain ctx' where d: "njs_utf8_decode ctx (c # ts) = Some (u, ctx', [])" "need ctx' = 0"
    using decode_scalar[OF assms(1) e(1) assms(2), of "[]"] by auto
  have m: "\<not> NJS_UNICODE_MAX_CODEPOINT < u" using assms(1) by (simp add: is_scalar_def not_less)
  have mb: "more_bytes (n - 1) (njs_string_encode escape ts @ rest) = Some (Inr (ts, rest))"
    using more_bytes_text[OF e(4), of rest] by (simp add: n_def)
  have cp: "njs_string_decode_uri_cp (njs_string_encode escape (c # ts) @ rest) False = Some (ucast c, njs_string_encode escape ts @ rest)"
    and hd: "hd (njs_string_encode escape (c # ts) @ rest) = 0x25"
    using high_escaped[of c] e(2) by (simp_all add: decode_uri_cp_escaped)
  have b: "ucast (ucast c :: uint32) = c" by (rule byte_twice)
  have "decode_uri_step reserve ctx (njs_string_encode escape (c # ts) @ rest) = Some (Inr (c # ts, 1, rest, ctx'))"
    unfolding decode_uri_step_def cp using c n l d(1) m mb b hd by (simp add: utf8_bytes_def e(1) del: njs_string_encode.simps)
  then show thesis using that d(2) e(1) by simp
qed

lemma decode_loop_text:
  assumes "list_all is_scalar us" "need ctx = 0"
  shows "decode_uri_loop reserve ctx (njs_string_encode escape (encode_all us)) chain len = Some (Inr (chain @ encode_all us, len + length us))"
  using assms
proof (induction us arbitrary: ctx chain len)
  case (Cons u us)
  then have u: "is_scalar u" by simp
  obtain bs where bs: "njs_utf8_encode u = Some bs" using is_scalar_encode[OF u] by blast
  obtain ctx' where st: "decode_uri_step reserve ctx (njs_string_encode escape (the (njs_utf8_encode u)) @ njs_string_encode escape (encode_all us)) =
      Some (Inr (the (njs_utf8_encode u), 1, njs_string_encode escape (encode_all us), ctx'))" "need ctx' = 0"
    using step_text[OF u Cons.prems(2)] .
  have "njs_string_encode escape bs \<noteq> []" using encode_nonempty[OF bs] by (cases bs) auto
  then show ?case using Cons.IH[OF _ st(2)] Cons.prems(1) st(1) bs
    by (subst decode_uri_loop.simps) (simp add: string_encode_append)
qed (simp add: decode_uri_loop.simps)

end

lemma high_bits_all:
  assumes "length t = 8" "drop 4 t = replicate 4 0xFFFFFFFF" "0x80 \<le> unat b"
  shows "bit_in_table t (ucast (b :: u_char))"
proof -
  have i: "unat (drop_bit 5 (ucast b :: uint32)) = unat b div 32" by (simp add: unat_drop unat_byte_ucast)
  then have "4 \<le> unat b div 32" "unat b div 32 < 8" using assms(3) unat_byte[of b] by auto
  then have "t ! (unat b div 32) = drop 4 t ! (unat b div 32 - 4)" using assms(1) by simp
  also have "\<dots> = 0xFFFFFFFF" using assms(2) \<open>unat b div 32 < 8\<close> by simp
  finally have t: "t ! unat (drop_bit 5 (ucast b :: uint32)) = mask 32" using i by (simp add: mask_eq_exp_minus_1)
  have "unat ((ucast b :: uint32) AND 0x1F) < 32" by (simp add: unsigned_and_eq nat_masks)
  then have "bit (mask 32 :: uint32) (unat ((ucast b :: uint32) AND 0x1F))" by (simp add: bit_mask_iff)
  then show ?thesis unfolding bit_in_table_def t using and_exp_eq_0_iff_not_bit[of "mask 32 :: uint32"] by simp
qed

lemma uri_disjoint: "list_all (\<lambda>k. \<not> (njs_need_escape escape_uri (word_of_nat k) \<and> njs_reserved reserve_uri (word_of_nat k))) [0..<128]"
  by code_simp

interpretation uri: uri_tables escape_uri reserve_uri
proof
  show "njs_need_escape escape_uri (ucast b)" if "0x80 \<le> unat b" for b :: u_char
    unfolding njs_need_escape_def by (rule high_bits_all[OF _ _ that]) (simp_all add: escape_uri_def numeral_eq_Suc)
  show "njs_need_escape escape_uri 0x25" by code_simp
  show "\<not> njs_reserved reserve_uri u" if "u < 0x80" "njs_need_escape escape_uri u" for u
    using list_all_uptD[OF uri_disjoint, of "unat u"] that by (simp add: word_less_nat_alt)
qed

interpretation uri_component: uri_tables escape_uri_component reserve_uri_component
proof
  show "njs_need_escape escape_uri_component (ucast b)" if "0x80 \<le> unat b" for b :: u_char
    unfolding njs_need_escape_def by (rule high_bits_all[OF _ _ that]) (simp_all add: escape_uri_component_def numeral_eq_Suc)
  show "njs_need_escape escape_uri_component 0x25" by code_simp
  show "\<not> njs_reserved reserve_uri_component u" if "u < 0x80" for u
  proof -
    have "unat (drop_bit 5 u) < 8" using that by (simp add: unat_drop word_less_nat_alt)
    then have "reserve_uri_component ! unat (drop_bit 5 u) = 0" by (simp add: reserve_uri_component_def nth_Cons' split: if_splits)
    then show ?thesis by (simp add: njs_reserved_def bit_in_table_def)
  qed
qed

lemma ascii_size_zero: "ascii_size escape s = 0 \<longleftrightarrow> s = []"
  by (cases s) (auto simp: ascii_size_def)

text \<open>
  C23.  URI coding of valid strings.  \<open>encodeURI\<close> and \<open>encodeURIComponent\<close> write every byte of the
  string as it is or as an escape, exactly as many bytes as the first pass has measured and
  allocated, and raise no error.  \<open>decodeURI\<close> and \<open>decodeURIComponent\<close> give back the string and its
  number of characters.
\<close>

theorem uri_roundtrip:
  assumes "list_all is_scalar us" "\<forall>n. alloc n"
  defines "escape \<equiv> \<lambda>component. if component then escape_uri_component else escape_uri"
  shows "njs_string_encode_uri alloc component \<lparr>prop_start = encode_all us, prop_length = length us\<rparr> =
      Some (Inr (njs_string_encode (escape component) (encode_all us))) \<and>
    encode_uri_size (escape component) \<lparr>prop_start = encode_all us, prop_length = length us\<rparr> =
      Some (Inr (length (njs_string_encode (escape component) (encode_all us)))) \<and>
    njs_string_decode_uri alloc component \<lparr>prop_start = njs_string_encode (escape component) (encode_all us), prop_length = n\<rparr> =
      Some (Inr \<lparr>prop_start = encode_all us, prop_length = (if us = [] then n else length us)\<rparr>)"
proof -
  let ?s = "\<lparr>prop_start = encode_all us, prop_length = length us\<rparr>"
  have size: "encode_uri_size (escape component) ?s = Some (Inr (length (njs_string_encode (escape component) (encode_all us))))"
    using uri.size_loop_text[OF assms(1) idle, of 0] uri_component.size_loop_text[OF assms(1) idle, of 0]
    by (simp add: encode_uri_size_def string_encode_size escape_def)
  have loop: "encode_uri_loop (escape component) idle_ctx (encode_all us) = Some (njs_string_encode (escape component) (encode_all us))"
    using uri.encode_loop_text[OF assms(1) idle] uri_component.encode_loop_text[OF assms(1) idle] by (simp add: escape_def)
  have "njs_string_encode_uri alloc component ?s = Some (Inr (njs_string_encode (escape component) (encode_all us)))"
    using assms(2) size loop by (cases component) (auto simp: njs_string_encode_uri_def escape_def string_encode_size ascii_size_zero)
  moreover have "us \<noteq> [] \<Longrightarrow> encode_all us \<noteq> []"
    using assms(1) encode_nonempty is_scalar_encode by (cases us) fastforce+
  then have "njs_string_decode_uri alloc component \<lparr>prop_start = njs_string_encode (escape component) (encode_all us), prop_length = n\<rparr> =
      Some (Inr \<lparr>prop_start = encode_all us, prop_length = (if us = [] then n else length us)\<rparr>)"
    using assms(2) uri.decode_loop_text[OF assms(1) idle, of "[]" 0] uri_component.decode_loop_text[OF assms(1) idle, of "[]" 0]
    by (auto simp: njs_string_decode_uri_def escape_def)
  ultimately show ?thesis using size by blast
qed

theorem uri_roundtrip_witness:
  "njs_string_encode_uri (\<lambda>n. True) False \<lparr>prop_start = [0x20, 0xC3, 0xA9, 0x23], prop_length = 3\<rparr> = Some (Inr [0x25, 0x32, 0x30, 0x25, 0x43, 0x33, 0x25, 0x41, 0x39, 0x23]) \<and>
   njs_string_decode_uri (\<lambda>n. True) False \<lparr>prop_start = [0x25, 0x32, 0x30, 0x25, 0x43, 0x33, 0x25, 0x41, 0x39, 0x23], prop_length = 10\<rparr> =
     Some (Inr \<lparr>prop_start = [0x20, 0xC3, 0xA9, 0x23], prop_length = 3\<rparr>)"
proof -
  have e: "encode_all [0x20, 0xE9, 0x23] = [0x20, 0xC3, 0xA9, 0x23]" by code_simp
  have n: "njs_string_encode escape_uri [0x20, 0xC3, 0xA9, 0x23] = [0x25, 0x32, 0x30, 0x25, 0x43, 0x33, 0x25, 0x41, 0x39, 0x23]" by code_simp
  have "list_all is_scalar [0x20, 0xE9, 0x23]" by (simp add: is_scalar_unat)
  from uri_roundtrip[OF this, of "\<lambda>n. True" False 10] show ?thesis
    by (simp add: e n numeral_3_eq_3 del: encode_all_simps njs_string_encode.simps)
qed

subsection \<open>Every input\<close>

lemma utf8_decode_total: "need ctx = 0 \<Longrightarrow> p \<noteq> [] \<Longrightarrow> \<exists>cp ctx' r. njs_utf8_decode ctx p = Some (cp, ctx', r)"
proof (cases p)
  case (Cons c cs)
  assume n: "need ctx = 0"
  have l: "decode_lead d c m a b lo up cs \<noteq> None" for d m a b lo up
    by (cases cs) (simp_all add: decode_lead_def njs_utf8_boundary_def del: not_None_eq)
  have "njs_utf8_decode ctx p \<noteq> None" using n l by (simp add: Cons njs_utf8_decode_def del: not_None_eq)
  then show ?thesis by auto
qed simp

lemma decode_uri_cp_total: "p \<noteq> [] \<Longrightarrow> \<exists>cp r. njs_string_decode_uri_cp p e = Some (cp, r)"
  using utf8_decode_total[OF idle, of p] by (auto simp: njs_string_decode_uri_cp_def Let_def)

lemma expect_percent:
  assumes "njs_string_decode_uri_cp p True = Some (cp, r)" "\<not> NJS_UNICODE_MAX_CODEPOINT < cp"
  shows "length p = length r + 3"
proof -
  have bad: "NJS_UNICODE_MAX_CODEPOINT < NJS_UNICODE_ERROR" by (simp add: max_cp_consts)
  obtain cp' c' r' where d: "njs_utf8_decode idle_ctx p = Some (cp', c', r')" "cp' = 0x25" "r = drop 2 r'" "2 \<le> length r'"
    using assms bad by (auto simp: njs_string_decode_uri_cp_def Let_def split: option.splits if_splits)
  then have "p = the (njs_utf8_encode 0x25) @ r'"
    using decode_canonical[OF d(1) _ idle] by (auto simp: unicode_consts)
  then show ?thesis using d(3,4) by (simp add: njs_utf8_encode_def)
qed

lemma more_bytes_total:
  "3 * n \<le> length p \<Longrightarrow> more_bytes n p = Some (Inl malformed_uri) \<or> (\<exists>bs r. more_bytes n p = Some (Inr (bs, r)))"
proof (induction n arbitrary: p)
  case (Suc n)
  then have "p \<noteq> []" by auto
  then obtain cp r where c: "njs_string_decode_uri_cp p True = Some (cp, r)" using decode_uri_cp_total by blast
  show ?case
  proof (cases "NJS_UNICODE_MAX_CODEPOINT < cp")
    case False
    then have "3 * n \<le> length r" using expect_percent[OF c] Suc.prems by simp
    from Suc.IH[OF this] show ?thesis using c False by auto
  qed (use c in auto)
qed simp

lemma uri_digit_ascii: "0 \<le> uri_hex ! unat c \<Longrightarrow> unat c < 0x80" for c :: u_char
proof (rule ccontr)
  assume a: "0 \<le> uri_hex ! unat c" "\<not> unat c < 0x80"
  have "uri_hex ! unat c = replicate 153 (- 1) ! (unat c - 103)"
    using a(2) by (simp add: uri_hex_def nth_append)
  then show False using a unat_byte[of c] by simp
qed

lemma ascii_text: "list_all (\<lambda>c. unat c < 0x80) s \<Longrightarrow> list_all is_scalar (map ucast s :: uint32 list) \<and> encode_all (map ucast s) = s"
proof (induction s)
  case (Cons c s)
  then have "(ucast c :: uint32) < 0x80" by (simp add: word_less_nat_alt unat_byte_ucast)
  then show ?case using Cons encode_low[of "ucast c"] by (simp add: is_scalar_unat word_less_nat_alt byte_twice)
qed simp

lemma utf8_bytes_scalar: "is_scalar u \<Longrightarrow> utf8_bytes u = encode_all [u]"
  using is_scalar_encode[of u] by (auto simp: utf8_bytes_def)

text \<open>A turn of the decoder: an error, or well-formed characters and their number.\<close>

lemma step_wellformed:
  assumes "src \<noteq> []" "need ctx = 0"
  shows "decode_uri_step reserve ctx src = Some (Inl malformed_uri) \<or>
    (\<exists>us r ctx'. decode_uri_step reserve ctx src = Some (Inr (encode_all us, length us, r, ctx')) \<and> list_all is_scalar us \<and> us \<noteq> [] \<and> need ctx' = 0)"
proof -
  obtain cp r where c: "njs_string_decode_uri_cp src False = Some (cp, r)" using decode_uri_cp_total assms(1) by blast
  consider (bad) "NJS_UNICODE_MAX_CODEPOINT < cp" | (plain) "\<not> NJS_UNICODE_MAX_CODEPOINT < cp" "hd src \<noteq> 0x25"
    | (ascii) "\<not> NJS_UNICODE_MAX_CODEPOINT < cp" "hd src = 0x25" "cp < 0x80" | (multi) "\<not> NJS_UNICODE_MAX_CODEPOINT < cp" "hd src = 0x25" "\<not> cp < 0x80"
    by blast
  then show ?thesis
  proof cases
    case plain
    obtain u d q where u: "njs_utf8_decode idle_ctx src = Some (u, d, q)" using utf8_decode_total[OF idle assms(1)] by blast
    have "u \<noteq> 0x25"
    proof
      assume "u = 0x25"
      then have "src = the (njs_utf8_encode 0x25) @ q" using decode_canonical[OF u _ idle] by (auto simp: unicode_consts)
      then show False using plain(2) by (simp add: njs_utf8_encode_def)
    qed
    then have "cp = u" using c u by (simp add: njs_string_decode_uri_cp_def)
    then have s: "is_scalar cp" using decode_canonical[OF u _ idle] plain(1) by (simp add: not_less)
    then have "utf8_bytes cp = encode_all [cp]" by (rule utf8_bytes_scalar)
    then have "decode_uri_step reserve ctx src = Some (Inr (encode_all [cp], length [cp], r, ctx))"
      using c plain by (simp add: decode_uri_step_def del: encode_all_simps)
    then show ?thesis using s assms(2) by (metis list.pred_inject list.distinct(1))
  next
    case ascii
    show ?thesis
    proof (cases "njs_reserved reserve cp")
      case True
      obtain q where src: "src = 0x25 # q" using assms(1) ascii(2) by (cases src) auto
      obtain d where "njs_utf8_decode idle_ctx src = Some (0x25, d, q)" using decode_ascii[where c = "0x25" and rest = q] src by auto
      then have q: "2 \<le> length q" "0 \<le> uri_hex ! unat (q ! 0)" "0 \<le> uri_hex ! unat (q ! 1)"
        using c ascii(1) max_cp_consts by (auto simp: njs_string_decode_uri_cp_def Let_def split: if_splits)
      then obtain a b q' where ab: "q = a # b # q'" by (cases q; cases "tl q") auto
      have "list_all (\<lambda>c. unat c < 0x80) [0x25, a, b]" using q uri_digit_ascii[of a] uri_digit_ascii[of b] by (simp add: ab)
      note t = ascii_text[OF this]
      have "decode_uri_step reserve ctx src = Some (Inr ([0x25, a, b], 3, r, ctx))"
        using c ascii True by (simp add: decode_uri_step_def src ab)
      then have "decode_uri_step reserve ctx src = Some (Inr (encode_all (map ucast [0x25, a, b]), length (map ucast [0x25, a, b] :: uint32 list), r, ctx))"
        using t by simp
      then show ?thesis using t assms(2) by blast
    next
      case False
      have "decode_uri_step reserve ctx src = Some (Inr (encode_all [cp], length [cp], r, ctx))"
        using c ascii False encode_low[OF ascii(3)] by (simp add: decode_uri_step_def)
      moreover have "is_scalar cp" using ascii(3) by (simp add: is_scalar_unat word_less_nat_alt)
      ultimately show ?thesis using assms(2) by (metis list.pred_inject list.distinct(1))
    qed
  next
    case multi
    define n where "n = lead_count 2 cp"
    show ?thesis
    proof (cases "4 < n \<or> length r < 3 * (n - 1)")
      case True
      then show ?thesis using c multi by (simp add: decode_uri_step_def Let_def n_def)
    next
      case False
      from more_bytes_total[of "n - 1" r] False consider "more_bytes (n - 1) r = Some (Inl malformed_uri)" | bs r' where "more_bytes (n - 1) r = Some (Inr (bs, r'))" by auto
      then show ?thesis
      proof cases
        case 1
        then show ?thesis using c multi False by (simp add: decode_uri_step_def Let_def n_def)
      next
        case (2 bs r')
        obtain cp' ctx' q where d: "njs_utf8_decode ctx (ucast cp # bs) = Some (cp', ctx', q)" using utf8_decode_total[OF assms(2)] by blast
        show ?thesis
        proof (cases "NJS_UNICODE_MAX_CODEPOINT < cp'")
          case True
          then show ?thesis using c multi False 2 d by (simp add: decode_uri_step_def Let_def n_def)
        next
          case ok: False
          note s = decode_step[OF d _ assms(2)]
          have "is_scalar cp'" "need ctx' = 0" using s ok by (simp_all add: not_less)
          moreover from this have "utf8_bytes cp' = encode_all [cp']" using utf8_bytes_scalar by blast
          then have "decode_uri_step reserve ctx src = Some (Inr (encode_all [cp'], length [cp'], r', ctx'))"
            using c multi False 2 d ok by (simp add: decode_uri_step_def Let_def n_def del: encode_all_simps)
          ultimately show ?thesis by (metis list.pred_inject list.distinct(1))
        qed
      qed
    qed
  qed (use c in \<open>simp add: decode_uri_step_def\<close>)
qed

lemma decode_loop_wellformed:
  assumes "need ctx = 0"
  shows "decode_uri_loop reserve ctx src chain len = Some (Inl malformed_uri) \<or>
    (\<exists>us. decode_uri_loop reserve ctx src chain len = Some (Inr (chain @ encode_all us, len + length us)) \<and> list_all is_scalar us \<and> (us = [] \<longleftrightarrow> src = []))"
  using assms
proof (induction reserve ctx src chain len rule: decode_uri_loop.induct)
  case (1 reserve ctx src chain len)
  show ?case
  proof (cases "src = []")
    case True
    then show ?thesis by (intro disjI2 exI[of _ "[]"]) (simp add: decode_uri_loop.simps)
  next
    case False
    from step_wellformed[OF False "1.prems", of reserve] show ?thesis
    proof (elim disjE exE conjE)
      assume "decode_uri_step reserve ctx src = Some (Inl malformed_uri)"
      then show ?thesis using False by (simp add: decode_uri_loop.simps)
    next
      fix us r ctx' assume st: "decode_uri_step reserve ctx src = Some (Inr (encode_all us, length us, r, ctx'))" "list_all is_scalar us" "us \<noteq> []" "need ctx' = 0"
      have l: "decode_uri_loop reserve ctx src chain len = decode_uri_loop reserve ctx' r (chain @ encode_all us) (len + length us)"
        using False st(1) by (simp add: decode_uri_loop.simps[of reserve ctx src])
      from "1.IH"[OF False st(1) refl refl refl refl st(4)] show ?thesis unfolding l
      proof (elim disjE exE conjE)
        fix vs assume "decode_uri_loop reserve ctx' r (chain @ encode_all us) (len + length us) =
          Some (Inr ((chain @ encode_all us) @ encode_all vs, len + length us + length vs))" "list_all is_scalar vs"
        then show "decode_uri_loop reserve ctx' r (chain @ encode_all us) (len + length us) = Some (Inl malformed_uri) \<or>
            (\<exists>us'. decode_uri_loop reserve ctx' r (chain @ encode_all us) (len + length us) = Some (Inr (chain @ encode_all us', len + length us')) \<and>
               list_all is_scalar us' \<and> (us' = [] \<longleftrightarrow> src = []))"
          using st(2,3) False by (intro disjI2 exI[of _ "us @ vs"]) (simp add: encode_all_def)
      qed simp
    qed
  qed
qed

text \<open>
  C24.  Decoding a URI gives a string value or an error, whatever the bytes: it always answers,
  never reads past the end, and the string it makes is UTF-8 of exactly the number of characters it
  records.  A percent sign without two digits, an escape that is no UTF-8 and one cut short are URIErrors.
\<close>

theorem decode_uri_wellformed:
  "\<exists>r. njs_string_decode_uri alloc component string = Some r \<and>
     (r = Inl malformed_uri \<or> r = Inl MemoryError \<or> r = Inr string \<and> prop_start string = [] \<or>
      (\<exists>us. r = Inr \<lparr>prop_start = encode_all us, prop_length = length us\<rparr> \<and> list_all is_scalar us \<and> us \<noteq> []))"
proof -
  define reserve where "reserve = (if component then reserve_uri_component else reserve_uri)"
  have r: "njs_string_decode_uri alloc component string =
     (case decode_uri_loop reserve idle_ctx (prop_start string) [] 0 of
           None \<Rightarrow> None
         | Some (Inl e) \<Rightarrow> Some (Inl e)
         | Some (Inr (chain, len)) \<Rightarrow>
             (if chain = [] then Some (Inr string)
              else if alloc (length chain) then Some (Inr \<lparr>prop_start = chain, prop_length = len\<rparr>)
              else Some (Inl MemoryError)))"
    by (simp add: njs_string_decode_uri_def Let_def reserve_def)
  from decode_loop_wellformed[OF idle, of reserve "prop_start string" "[]" 0] show ?thesis
  proof (elim disjE exE conjE)
    fix us assume l: "decode_uri_loop reserve idle_ctx (prop_start string) [] 0 = Some (Inr ([] @ encode_all us, 0 + length us))" "list_all is_scalar us"
      "(us = []) = (prop_start string = [])"
    have "us \<noteq> [] \<Longrightarrow> encode_all us \<noteq> []" using l(2) encode_nonempty is_scalar_encode by (cases us) fastforce+
    then show ?thesis using l by (cases "us = []") (auto simp: r)
  qed (simp add: r)
qed

end
