(* ===== verification/Njs_Codec_Qjs.thy ===== *)
theory Njs_Codec_Qjs
  imports Njs_Codec_Props Njs_Uri_Props
begin

section \<open>Text encodings of the QuickJS engine (src/src/qjs_buffer.c, src/src/qjs.c)\<close>

text \<open>
  The functions that \<open>Buffer\<close>, \<open>btoa\<close> and \<open>atob\<close> use with QuickJS, written apart from those
  of njs.  \<open>new_string\<close> stands for \<open>JS_NewStringLen\<close> and \<open>malloc\<close> for \<open>js_malloc\<close>; small results are built in a buffer of
  1024 bytes on the stack.
\<close>

definition qjs_basis64 :: "u_char list" where
  "qjs_basis64 =
     replicate 43 77 @ [62, 77, 77, 77, 63] @ [52, 53, 54, 55, 56, 57, 58, 59, 60, 61] @ replicate 7 77 @
     [0, 1, 2, 3, 4, 5, 6, 7, 8, 9, 10, 11, 12, 13, 14, 15, 16, 17, 18, 19, 20, 21, 22, 23, 24, 25] @ replicate 6 77 @
     [26, 27, 28, 29, 30, 31, 32, 33, 34, 35, 36, 37, 38, 39, 40, 41, 42, 43, 44, 45, 46, 47, 48, 49, 50, 51] @
     replicate 133 77"

definition qjs_basis64url :: "u_char list" where
  "qjs_basis64url =
     replicate 45 77 @ [62, 77, 77] @ [52, 53, 54, 55, 56, 57, 58, 59, 60, 61] @ replicate 7 77 @
     [0, 1, 2, 3, 4, 5, 6, 7, 8, 9, 10, 11, 12, 13, 14, 15, 16, 17, 18, 19, 20, 21, 22, 23, 24, 25] @ [77, 77, 77, 77, 63, 77] @
     [26, 27, 28, 29, 30, 31, 32, 33, 34, 35, 36, 37, 38, 39, 40, 41, 42, 43, 44, 45, 46, 47, 48, 49, 50, 51] @
     replicate 133 77"

definition qjs_basis64_enc :: "u_char list" where
  "qjs_basis64_enc = map of_char ''ABCDEFGHIJKLMNOPQRSTUVWXYZabcdefghijklmnopqrstuvwxyz0123456789+/''"

definition qjs_basis64url_enc :: "u_char list" where
  "qjs_basis64url_enc = map of_char ''ABCDEFGHIJKLMNOPQRSTUVWXYZabcdefghijklmnopqrstuvwxyz0123456789-_''"

text \<open>The loop of \<open>qjs_base64_encode_core\<close> over groups of three bytes and what follows it.\<close>

definition qjs_base64_encode_tail :: "u_char list \<Rightarrow> bool \<Rightarrow> u_char list \<Rightarrow> u_char list" where
  "qjs_base64_encode_tail basis padding s =
     (if length s > 0 then
        basis ! unat (drop_bit 2 (s ! 0)) #
        (if length s = 1 then
           basis ! unat (push_bit 4 (s ! 0 AND 0x03)) # (if padding then [0x3D, 0x3D] else [])
         else
           basis ! unat (push_bit 4 (s ! 0 AND 0x03) OR drop_bit 4 (s ! 1)) # basis ! unat (push_bit 2 (s ! 1 AND 0x0F)) #
           (if padding then [0x3D] else []))
      else [])"

function qjs_base64_encode_core :: "u_char list \<Rightarrow> bool \<Rightarrow> u_char list \<Rightarrow> u_char list" where
  "qjs_base64_encode_core basis padding s =
     (if length s > 2 then
        basis ! unat (drop_bit 2 (s ! 0)) # basis ! unat (push_bit 4 (s ! 0 AND 0x03) OR drop_bit 4 (s ! 1)) #
        basis ! unat (push_bit 2 (s ! 1 AND 0x0F) OR drop_bit 6 (s ! 2)) # basis ! unat (s ! 2 AND 0x3F) #
        qjs_base64_encode_core basis padding (drop 3 s)
      else qjs_base64_encode_tail basis padding s)"
  by pat_completeness auto
termination by (relation "measure (\<lambda>(basis, padding, s). length s)") auto

declare qjs_base64_encode_core.simps [simp del]

definition qjs_base64_encode :: "u_char list \<Rightarrow> u_char list" where
  "qjs_base64_encode src = qjs_base64_encode_core qjs_basis64_enc True src"

definition qjs_base64_encode_length :: "u_char list \<Rightarrow> nat" where
  "qjs_base64_encode_length src = (length src + 2) div 3 * 4"

definition qjs_base64url_encode :: "u_char list \<Rightarrow> u_char list" where
  "qjs_base64url_encode src = qjs_base64_encode_core qjs_basis64url_enc False src"

text \<open>The decoder writes as many bytes as the destination holds; a read past the source is None.\<close>

function qjs_base64_decode_core :: "nat \<Rightarrow> u_char list \<Rightarrow> u_char list \<Rightarrow> u_char list option" where
  "qjs_base64_decode_core len s basis =
     (let b = (\<lambda>i. basis ! unat (s ! i))
      in if len \<ge> 3 then
           (if length s < 4 then None
            else map_option (\<lambda>r. (push_bit 2 (b 0) OR drop_bit 4 (b 1)) # (push_bit 4 (b 1) OR drop_bit 2 (b 2)) # (push_bit 6 (b 2) OR b 3) # r)
                   (qjs_base64_decode_core (len - 3) (drop 4 s) basis))
         else if len \<ge> 1 \<and> length s < len + 1 then None
         else Some ((if len \<ge> 1 then [push_bit 2 (b 0) OR drop_bit 4 (b 1)] else []) @
                    (if len \<ge> 2 then [push_bit 4 (b 1) OR drop_bit 2 (b 2)] else [])))"
  by pat_completeness auto
termination by (relation "measure (\<lambda>(len, s, basis). len)") auto

declare qjs_base64_decode_core.simps [simp del]

fun known_prefix :: "u_char list \<Rightarrow> u_char list \<Rightarrow> nat" where
  "known_prefix basis [] = 0"
| "known_prefix basis (c # s) = (if basis ! unat c = 77 then 0 else known_prefix basis s + 1)"

definition qjs_base64_decode_length_core :: "u_char list \<Rightarrow> u_char list \<Rightarrow> nat" where
  "qjs_base64_decode_length_core src basis =
     (let len = known_prefix basis src; pad = (if len mod 4 \<noteq> 0 then 4 - len mod 4 else 0)
      in (len + pad) div 4 * 3 - pad)"

definition qjs_base64_decode :: "nat \<Rightarrow> u_char list \<Rightarrow> u_char list option" where
  "qjs_base64_decode len src = qjs_base64_decode_core len src qjs_basis64"

definition qjs_base64_decode_length :: "u_char list \<Rightarrow> nat" where
  "qjs_base64_decode_length src = qjs_base64_decode_length_core src qjs_basis64"

definition qjs_base64url_decode :: "nat \<Rightarrow> u_char list \<Rightarrow> u_char list option" where
  "qjs_base64url_decode len src = qjs_base64_decode_core len src qjs_basis64url"

definition qjs_base64url_decode_length :: "u_char list \<Rightarrow> nat" where
  "qjs_base64url_decode_length src = qjs_base64_decode_length_core src qjs_basis64url"

subsection \<open>Hex\<close>

definition qjs_char_to_hex :: "u_char \<Rightarrow> int" where
  "qjs_char_to_hex c =
     (let c = (c OR 0x20) - 0x30
      in if 9 < c then (let c = c - (0x61 - 0x30) in if 5 < c then - 1 else uint (c + 10)) else uint c)"

fun qjs_hex_decode_loop :: "nat \<Rightarrow> int \<Rightarrow> u_char list \<Rightarrow> u_char list" where
  "qjs_hex_decode_loop i n [] = []"
| "qjs_hex_decode_loop i n (ch # s) =
     (let c = qjs_char_to_hex ch
      in if c < 0 then []
         else
           (let n = n * 16 + c
            in if odd i then word_of_int n # qjs_hex_decode_loop (i + 1) 0 s else qjs_hex_decode_loop (i + 1) n s))"

definition qjs_hex_decode :: "u_char list \<Rightarrow> u_char list" where
  "qjs_hex_decode src = qjs_hex_decode_loop 0 0 src"

definition qjs_hex_decode_length :: "u_char list \<Rightarrow> nat" where
  "qjs_hex_decode_length src = length (takeWhile (\<lambda>c. \<not> qjs_char_to_hex c < 0) src) div 2"

fun qjs_hex_encode :: "u_char list \<Rightarrow> u_char list" where
  "qjs_hex_encode [] = []"
| "qjs_hex_encode (c # s) = lower_hex ! unat (drop_bit 4 c) # lower_hex ! unat (c AND 0x0F) # qjs_hex_encode s"

definition qjs_hex_encode_length :: "u_char list \<Rightarrow> nat" where
  "qjs_hex_encode_length src = length src * 2"

subsection \<open>Strings\<close>

definition qjs_string_hex :: "(nat \<Rightarrow> bool) \<Rightarrow> (u_char list \<Rightarrow> 'v) \<Rightarrow> u_char list \<Rightarrow> codec_error + 'v" where
  "qjs_string_hex malloc new_string src =
     (if length src = 0 then Inr (new_string [])
      else if qjs_hex_encode_length src \<le> 1024 \<or> malloc (qjs_hex_encode_length src) then Inr (new_string (qjs_hex_encode src))
      else Inl MemoryError)"

definition qjs_string_base64 :: "(nat \<Rightarrow> bool) \<Rightarrow> (u_char list \<Rightarrow> 'v) \<Rightarrow> u_char list \<Rightarrow> codec_error + 'v" where
  "qjs_string_base64 malloc new_string src =
     (if length src = 0 then Inr (new_string [])
      else if qjs_base64_encode_length src \<le> 1024 \<or> malloc (qjs_base64_encode_length src) then Inr (new_string (qjs_base64_encode src))
      else Inl MemoryError)"

definition qjs_string_base64url :: "(nat \<Rightarrow> bool) \<Rightarrow> (u_char list \<Rightarrow> 'v) \<Rightarrow> u_char list \<Rightarrow> codec_error + 'v" where
  "qjs_string_base64url malloc new_string src =
     (if length src = 0 then Inr (new_string [])
      else
        (let padding = drop_bit (length src mod 3) 4 AND 3; len = qjs_base64_encode_length src - padding
         in if len \<le> 1024 \<or> malloc len then Inr (new_string (qjs_base64url_encode src)) else Inl MemoryError))"

function qjs_btoa_loop :: "njs_unicode_decode \<Rightarrow> u_char list \<Rightarrow> (codec_error + u_char list) option" where
  "qjs_btoa_loop ctx p =
     (if p = [] then Some (Inr [])
      else
        (case njs_utf8_decode ctx p of
           None \<Rightarrow> None
         | Some (cp, ctx1, p1) \<Rightarrow>
             (if 0xFF < cp then Some (Inl (TypeErr above_latin1))
              else map_option (map_sum (\<lambda>e. e) (\<lambda>b. ucast cp # b)) (qjs_btoa_loop ctx1 p1))))"
  by pat_completeness auto
termination by (relation "measure (\<lambda>(ctx, p). pending ctx p)") (auto dest: utf8_decode_pending)

declare qjs_btoa_loop.simps [simp del]

definition qjs_string_btoa :: "(nat \<Rightarrow> bool) \<Rightarrow> (u_char list \<Rightarrow> 'v) \<Rightarrow> u_char list \<Rightarrow> (codec_error + 'v) option" where
  "qjs_string_btoa malloc new_string src =
     (if length src = 0 then Some (Inr (new_string []))
      else if \<not> malloc (length src) then Some (Inl MemoryError)
      else
        (case qjs_btoa_loop idle_ctx src of
           None \<Rightarrow> None
         | Some (Inl e) \<Rightarrow> Some (Inl e)
         | Some (Inr bin) \<Rightarrow> Some (qjs_string_base64 malloc new_string bin)))"

text \<open>The chain has no limit of its own; joining refuses 4 GB and more.\<close>

definition qjs_string_create_chb :: "(nat \<Rightarrow> bool) \<Rightarrow> (u_char list \<Rightarrow> 'v) \<Rightarrow> u_char list \<Rightarrow> codec_error + 'v" where
  "qjs_string_create_chb malloc new_string chain =
     (if length chain < 4294967295 \<and> malloc (length chain) then Inr (new_string chain)
      else Inl (InternalErr ''failed to create string''))"

definition qjs_string_atob :: "(nat \<Rightarrow> bool) \<Rightarrow> (u_char list \<Rightarrow> 'v) \<Rightarrow> u_char list \<Rightarrow> codec_error + 'v" where
  "qjs_string_atob malloc new_string src =
     (if \<not> malloc (length src * 2) then Inl MemoryError
      else
        (case atob_loop qjs_basis64 atob_start src of
           None \<Rightarrow> Inl (TypeErr not_base64)
         | Some st \<Rightarrow>
             (if atob_rejects st then Inl (TypeErr not_base64)
              else if total st = 0 then Inr (new_string [])
              else qjs_string_create_chb malloc new_string (out st))))"

section \<open>The engines agree\<close>

lemma tables_agree:
  "qjs_basis64 = njs_basis64" "qjs_basis64url = njs_basis64url" "qjs_basis64_enc = njs_basis64_enc" "qjs_basis64url_enc = njs_basis64url_enc"
  by (simp_all add: qjs_basis64_def njs_basis64_def qjs_basis64url_def njs_basis64url_def qjs_basis64_enc_def njs_basis64_enc_def
      qjs_basis64url_enc_def njs_basis64url_enc_def)

lemma encode_core_agree: "qjs_base64_encode_core basis padding s = njs_encode_base64_core basis padding s"
  by (induction basis padding s rule: njs_encode_base64_core.induct; subst qjs_base64_encode_core.simps)
     (simp_all add: qjs_base64_encode_tail_def)

lemma decode_core_agree: "qjs_base64_decode_core len s basis = decode_base64_core basis len s"
proof (induction basis len s rule: decode_base64_core.induct)
  case (1 basis len s)
  then show ?case by (subst qjs_base64_decode_core.simps) (auto simp: Let_def)
qed (subst qjs_base64_decode_core.simps, auto simp: Let_def decode_base64_tail_def)+

lemma known_prefix_agree: "known_prefix basis s = length (takeWhile (\<lambda>c. basis ! unat c \<noteq> 77) s)"
  by (induction s) auto

lemma decode_length_agree: "qjs_base64_decode_length_core s basis = njs_decode_base64_length_core s basis"
  by (simp add: qjs_base64_decode_length_core_def njs_decode_base64_length_core_def known_prefix_agree njs_base64_decoded_length_def Let_def)

lemma char_to_hex_agree: "qjs_char_to_hex c = njs_char_to_hex c"
  by (simp add: qjs_char_to_hex_def njs_char_to_hex_def)

lemma hex_agree: "qjs_hex_encode s = njs_encode_hex s" "qjs_hex_decode s = njs_decode_hex s"
proof -
  show "qjs_hex_encode s = njs_encode_hex s" by (induction s) auto
  have "qjs_hex_decode_loop i n s = decode_hex_loop i n s" for i n
    by (induction i n s rule: decode_hex_loop.induct) (auto simp: char_to_hex_agree Let_def)
  then show "qjs_hex_decode s = njs_decode_hex s" by (simp add: qjs_hex_decode_def njs_decode_hex_def)
qed

lemma hex_decode_fits: "length (decode_hex_loop i n s) \<le> (length (takeWhile (\<lambda>c. \<not> njs_char_to_hex c < 0) s) + (if odd i then 1 else 0)) div 2"
proof (induction i n s rule: decode_hex_loop.induct)
  case (2 i n ch s)
  then show ?case by (auto simp: Let_def)
qed simp

lemma qjs_btoa_text:
  assumes "list_all is_scalar us" "need ctx = 0"
  shows "qjs_btoa_loop ctx (encode_all us) = Some (if latin1 us then Inr (map ucast us) else Inl (TypeErr above_latin1))"
  using assms
proof (induction us arbitrary: ctx)
  case (Cons u us)
  obtain ctx' where d: "njs_utf8_decode ctx (encode_all (u # us)) = Some (u, ctx', encode_all us)" "need ctx' = 0" "encode_all (u # us) \<noteq> []"
    using scalar_head[OF Cons.prems] .
  show ?case using Cons.IH[OF _ d(2)] Cons.prems(1) d(1,3)
    by (subst qjs_btoa_loop.simps) (auto simp: latin1_def not_less not_le)
qed (simp add: qjs_btoa_loop.simps latin1_def)



end
