(* ===== verification/Njs_Chb.thy ===== *)
theory Njs_Chb
  imports Njs_Unicode
begin

section \<open>Chains of buffers (src/src/njs_chb.c, src/src/njs_chb.h)\<close>

text \<open>
  A chain collects bytes whose number is not known in advance.  A node is a block of memory; its
  address is the number of its allocation, \<open>node_data\<close> are the bytes from \<open>start\<close> to \<open>pos\<close> and
  \<open>node_room\<close> the bytes from \<open>pos\<close> to \<open>end\<close>.  \<open>next_addr\<close> and \<open>freed\<close> record the allocations
  and the releases made so far; the code does not keep them.  \<open>alloc k n\<close> says whether the
  allocation of number \<open>k\<close> gets \<open>n\<close> bytes.  An access to a node that is not in the chain, or past
  its end, is the answer None.
\<close>

datatype chb_error = NJS_CHB_ERR_NONE | NJS_CHB_ERR_NOMEM | NJS_CHB_ERR_OVERFLOW

record njs_chb_node =
  addr :: nat
  node_data :: "u_char list"
  node_room :: nat

record njs_chb =
  chb_error :: chb_error
  chb_nodes :: "njs_chb_node list"
  chb_last :: "nat option"
  total_size :: uint64
  max_size :: uint64
  next_addr :: nat
  freed :: "nat list"

type_synonym chb_alloc = "nat \<Rightarrow> nat \<Rightarrow> bool"

definition njs_chb_node_size :: "njs_chb_node \<Rightarrow> nat" where
  "njs_chb_node_size n = length (node_data n)"

definition njs_chb_init :: njs_chb where
  "njs_chb_init = \<lparr>chb_error = NJS_CHB_ERR_NONE, chb_nodes = [], chb_last = None, total_size = 0, max_size = 0, next_addr = 0, freed = []\<rparr>"

definition njs_chb_init_max :: "uint64 \<Rightarrow> njs_chb" where
  "njs_chb_init_max m = njs_chb_init\<lparr>max_size := m\<rparr>"

subsection \<open>Reserving and writing\<close>

definition find_node :: "nat \<Rightarrow> njs_chb \<Rightarrow> njs_chb_node option" where
  "find_node a chain = find (\<lambda>n. addr n = a) (chb_nodes chain)"

definition update_node :: "nat \<Rightarrow> (njs_chb_node \<Rightarrow> njs_chb_node) \<Rightarrow> njs_chb \<Rightarrow> njs_chb" where
  "update_node a f chain = chain\<lparr>chb_nodes := map (\<lambda>n. if addr n = a then f n else n) (chb_nodes chain)\<rparr>"

text \<open>\<open>chain->last->next = n\<close>: what followed the last node is not reached any more.\<close>

fun link_after :: "nat \<Rightarrow> njs_chb_node \<Rightarrow> njs_chb_node list \<Rightarrow> njs_chb_node list" where
  "link_after a n [] = []"
| "link_after a n (m # ms) = (if addr m = a then [m, n] else m # link_after a n ms)"

definition NJS_CHB_MIN_SIZE :: uint64 where "NJS_CHB_MIN_SIZE = 256"

definition sizeof_node :: uint64 where "sizeof_node = 32"

definition new_node :: "chb_alloc \<Rightarrow> uint64 \<Rightarrow> njs_chb \<Rightarrow> bool \<times> njs_chb" where
  "new_node alloc size1 chain =
     (let size2 = (if size1 < NJS_CHB_MIN_SIZE then NJS_CHB_MIN_SIZE else size1)
      in if \<not> alloc (next_addr chain) (unat (sizeof_node + size2)) then (False, chain\<lparr>chb_error := NJS_CHB_ERR_NOMEM\<rparr>)
         else
           (let n = \<lparr>addr = next_addr chain, node_data = [], node_room = unat size2\<rparr>
            in (True, chain\<lparr>chb_nodes := (case chb_last chain of None \<Rightarrow> [n] | Some a \<Rightarrow> link_after a n (chb_nodes chain)),
                            chb_last := Some (addr n), next_addr := next_addr chain + 1\<rparr>)))"

definition njs_chb_reserve :: "chb_alloc \<Rightarrow> uint64 \<Rightarrow> njs_chb \<Rightarrow> (bool \<times> njs_chb) option" where
  "njs_chb_reserve alloc size1 chain =
     (if chb_error chain \<noteq> NJS_CHB_ERR_NONE then Some (False, chain)
      else if max_size chain \<noteq> 0 \<and> max_size chain < total_size chain + size1 then
        Some (False, chain\<lparr>chb_error := NJS_CHB_ERR_OVERFLOW\<rparr>)
      else
        (case chb_last chain of
           None \<Rightarrow> Some (new_node alloc size1 chain)
         | Some a \<Rightarrow>
             (case find_node a chain of
                None \<Rightarrow> None
              | Some n \<Rightarrow> Some (if unat size1 \<le> node_room n then (True, chain) else new_node alloc size1 chain))))"

text \<open>Writing \<open>bytes\<close> at the current position, then \<open>njs_chb_written\<close>.\<close>

definition njs_chb_written :: "u_char list \<Rightarrow> njs_chb \<Rightarrow> njs_chb option" where
  "njs_chb_written bytes chain =
     (case chb_last chain of
        None \<Rightarrow> None
      | Some a \<Rightarrow>
          (case find_node a chain of
             None \<Rightarrow> None
           | Some n \<Rightarrow>
               (if node_room n < length bytes then None
                else Some ((update_node a (\<lambda>n. n\<lparr>node_data := node_data n @ bytes, node_room := node_room n - length bytes\<rparr>) chain)
                             \<lparr>total_size := total_size chain + of_nat (length bytes)\<rparr>))))"

definition njs_chb_append0 :: "chb_alloc \<Rightarrow> u_char list \<Rightarrow> njs_chb \<Rightarrow> njs_chb option" where
  "njs_chb_append0 alloc msg chain =
     (if msg \<noteq> [] \<and> chb_error chain = NJS_CHB_ERR_NONE then
        (case njs_chb_reserve alloc (of_nat (length msg)) chain of
           None \<Rightarrow> None
         | Some (False, chain) \<Rightarrow> Some chain
         | Some (True, chain) \<Rightarrow> njs_chb_written msg chain)
      else Some chain)"

text \<open>\<open>out\<close> stands for what \<open>njs_vsprintf\<close> writes into the reserved bytes; it stops at their end.\<close>

definition njs_chb_vsprintf :: "chb_alloc \<Rightarrow> uint64 \<Rightarrow> u_char list \<Rightarrow> njs_chb \<Rightarrow> njs_chb option" where
  "njs_chb_vsprintf alloc size1 out chain =
     (case njs_chb_reserve alloc size1 chain of
        None \<Rightarrow> None
      | Some (False, chain) \<Rightarrow> Some chain
      | Some (True, chain) \<Rightarrow> njs_chb_written (take (unat size1) out) chain)"

subsection \<open>Removing bytes\<close>

definition free_node :: "njs_chb_node \<Rightarrow> njs_chb \<Rightarrow> njs_chb" where
  "free_node n chain = chain\<lparr>freed := freed chain @ [addr n]\<rparr>"

fun drain_loop :: "nat \<Rightarrow> njs_chb_node list \<Rightarrow> njs_chb \<Rightarrow> njs_chb" where
  "drain_loop k [] chain = chain\<lparr>chb_nodes := [], chb_last := None, total_size := 0\<rparr>"
| "drain_loop k (n # ns) chain =
     (let size1 = njs_chb_node_size n
      in if size1 > k then
           chain\<lparr>chb_nodes := n\<lparr>node_data := drop k (node_data n)\<rparr> # ns, total_size := total_size chain - of_nat k\<rparr>
         else
           drain_loop (k - size1) ns
             (free_node n (chain\<lparr>total_size := total_size chain - of_nat size1, chb_nodes := ns\<rparr>)))"

definition njs_chb_drain :: "nat \<Rightarrow> njs_chb \<Rightarrow> njs_chb" where
  "njs_chb_drain k chain = (if chb_error chain \<noteq> NJS_CHB_ERR_NONE then chain else drain_loop k (chb_nodes chain) chain)"

fun free_all :: "njs_chb_node list \<Rightarrow> njs_chb \<Rightarrow> njs_chb" where
  "free_all [] chain = chain"
| "free_all (n # ns) chain = free_all ns (free_node n chain)"

definition njs_chb_destroy :: "njs_chb \<Rightarrow> njs_chb" where
  "njs_chb_destroy chain = free_all (chb_nodes chain) chain"

text \<open>\<open>n->pos -= k\<close>\<close>

definition chop :: "nat \<Rightarrow> njs_chb_node \<Rightarrow> njs_chb_node" where
  "chop k n = n\<lparr>node_data := take (njs_chb_node_size n - k) (node_data n), node_room := node_room n + k\<rparr>"

text \<open>
  The loops at the end of \<open>njs_chb_drop\<close>: the nodes up to the one that holds the last byte to keep
  stay, the others are released.  \<open>pre\<close> are the nodes passed.
\<close>

fun drop_loop :: "nat \<Rightarrow> nat \<Rightarrow> njs_chb_node list \<Rightarrow> njs_chb_node list \<Rightarrow> njs_chb \<Rightarrow> njs_chb" where
  "drop_loop keep kept pre [] chain = chain"
| "drop_loop keep kept pre (n # ns) chain =
     (let kept = kept + njs_chb_node_size n
      in if kept \<ge> keep then
           free_all ns (chain\<lparr>chb_last := Some (addr n), chb_nodes := pre @ [chop (kept - keep) n]\<rparr>)
         else drop_loop keep kept (pre @ [n]) ns chain)"

definition njs_chb_drop :: "nat \<Rightarrow> njs_chb \<Rightarrow> njs_chb option" where
  "njs_chb_drop k chain =
     (if chb_error chain \<noteq> NJS_CHB_ERR_NONE then Some chain
      else
        (let rest = (if unat (total_size chain) \<le> k then
                       (njs_chb_destroy chain)\<lparr>chb_error := NJS_CHB_ERR_NONE, chb_nodes := [], chb_last := None, total_size := 0\<rparr>
                     else
                       (let chain' = drop_loop (unat (total_size chain) - k) 0 [] (chb_nodes chain) chain
                        in chain'\<lparr>total_size := total_size chain' - of_nat k\<rparr>))
         in case chb_last chain of
              None \<Rightarrow> Some rest
            | Some a \<Rightarrow>
                (case find_node a chain of
                   None \<Rightarrow> None
                 | Some n \<Rightarrow>
                     Some (if njs_chb_node_size n > k
                           then (update_node a (chop k) chain)\<lparr>total_size := total_size chain - of_nat k\<rparr>
                           else rest))))"

subsection \<open>Reading\<close>

definition njs_chb_size :: "njs_chb \<Rightarrow> int" where
  "njs_chb_size chain = (if chb_error chain \<noteq> NJS_CHB_ERR_NONE then - 1 else sint (total_size chain))"

definition njs_chb_join_to :: "njs_chb \<Rightarrow> u_char list" where
  "njs_chb_join_to chain = concat (map node_data (chb_nodes chain))"

definition njs_chb_join :: "(nat \<Rightarrow> bool) \<Rightarrow> njs_chb \<Rightarrow> njs_ret \<times> u_char list" where
  "njs_chb_join alloc chain =
     (if chb_error chain \<noteq> NJS_CHB_ERR_NONE then (NJS_DECLINED, [])
      else if chb_nodes chain = [] then (NJS_OK, [])
      else
        (let size1 = total_size chain
         in if 0xFFFFFFFF \<le> size1 then (NJS_ERROR, [])
            else if \<not> alloc (unat size1) then (NJS_ERROR, [])
            else (NJS_OK, njs_chb_join_to chain)))"

fun ascii_nodes :: "njs_chb_node list \<Rightarrow> nat \<Rightarrow> nat \<times> njs_chb_node list" where
  "ascii_nodes [] len = (len, [])"
| "ascii_nodes (n # ns) len =
     (if list_all (\<lambda>c. c < 0x80) (node_data n) then ascii_nodes ns (len + njs_chb_node_size n) else (len, n # ns))"

fun utf8_nodes :: "njs_chb_node list \<Rightarrow> nat \<Rightarrow> (unit + nat) option" where
  "utf8_nodes [] len = Some (Inr len)"
| "utf8_nodes (n # ns) len =
     (case njs_utf8_length (node_data n) of
        None \<Rightarrow> None
      | Some (Inl _) \<Rightarrow> Some (Inl ())
      | Some (Inr l) \<Rightarrow> utf8_nodes ns (len + l))"

text \<open>\<open>Inl ()\<close> is the answer -1.\<close>

definition njs_chb_utf8_length :: "njs_chb \<Rightarrow> (unit + nat) option" where
  "njs_chb_utf8_length chain =
     (if chb_error chain \<noteq> NJS_CHB_ERR_NONE then Some (Inl ())
      else (let (len, ns) = ascii_nodes (chb_nodes chain) 0 in utf8_nodes ns len))"

end
