(* ===== verification/Njs_Chb_Props.thy ===== *)
theory Njs_Chb_Props
  imports Njs_Chb Njs_Utf8
begin

section \<open>Chains of buffers: a chain is its bytes\<close>

text \<open>
  The invariant of a chain, with what it says of memory: every block ever allocated is either a
  node of the chain or was released once.  Every operation refines an operation on the list of the
  bytes, which the locale states once; the operations of the code interpret it.
\<close>

definition chb_inv :: "njs_chb \<Rightarrow> bool" where
  "chb_inv chain \<longleftrightarrow>
     distinct (map addr (chb_nodes chain) @ freed chain) \<and>
     set (map addr (chb_nodes chain) @ freed chain) = {..<next_addr chain} \<and>
     chb_last chain = (if chb_nodes chain = [] then None else Some (addr (last (chb_nodes chain)))) \<and>
     unat (total_size chain) = length (njs_chb_join_to chain)"

abbreviation chb_ok :: "njs_chb \<Rightarrow> bool" where
  "chb_ok chain \<equiv> chb_error chain = NJS_CHB_ERR_NONE"

lemma init_inv: "chb_inv (njs_chb_init_max m)" "chb_ok (njs_chb_init_max m)" "njs_chb_join_to (njs_chb_init_max m) = []"
  by (auto simp: chb_inv_def njs_chb_init_max_def njs_chb_init_def njs_chb_join_to_def)

lemma error_update [simp]:
  "chb_inv (c\<lparr>chb_error := e\<rparr>) = chb_inv c" "njs_chb_join_to (c\<lparr>chb_error := e\<rparr>) = njs_chb_join_to c"
  by (simp_all add: chb_inv_def njs_chb_join_to_def)

lemma nodes_snoc:
  assumes "chb_inv chain" "chb_last chain = Some a"
  obtains ns n where "chb_nodes chain = ns @ [n]" "addr n = a" "a \<notin> addr ` set ns"
proof -
  have "chb_nodes chain \<noteq> []" using assms by (auto simp: chb_inv_def split: if_splits)
  then obtain ns n where "chb_nodes chain = ns @ [n]" by (metis rev_exhaust)
  then show thesis using assms that[of ns n] by (auto simp: chb_inv_def)
qed

lemma find_snoc: "addr n = a \<Longrightarrow> a \<notin> addr ` set ns \<Longrightarrow> find (\<lambda>n. addr n = a) (ns @ [n]) = Some n"
  by (induction ns) auto

lemma map_snoc: "a \<notin> addr ` set ns \<Longrightarrow> map (\<lambda>n. if addr n = a then f n else n) ns = ns"
  by (induction ns) auto

lemma link_snoc: "addr n = a \<Longrightarrow> a \<notin> addr ` set ns \<Longrightarrow> link_after a m (ns @ [n]) = ns @ [n, m]"
  by (induction ns) auto

lemma find_last: "chb_inv chain \<Longrightarrow> chb_last chain = Some a \<Longrightarrow> find_node a chain = Some (last (chb_nodes chain))"
  by (erule (1) nodes_snoc) (simp add: find_node_def find_snoc)

lemma update_last:
  assumes "chb_inv chain" "chb_last chain = Some a"
  shows "update_node a f chain = chain\<lparr>chb_nodes := butlast (chb_nodes chain) @ [f (last (chb_nodes chain))]\<rparr>"
proof -
  obtain ns n where n: "chb_nodes chain = ns @ [n]" "addr n = a" "a \<notin> addr ` set ns" using nodes_snoc[OF assms] .
  show ?thesis unfolding update_node_def n(1) map_append map_snoc[OF n(3)] using n(2) by simp
qed

lemma link_last: "chb_inv chain \<Longrightarrow> chb_last chain = Some a \<Longrightarrow> link_after a m (chb_nodes chain) = chb_nodes chain @ [m]"
  by (erule (1) nodes_snoc) (simp add: link_snoc)

lemma last_None: "chb_inv chain \<Longrightarrow> chb_last chain = None \<longleftrightarrow> chb_nodes chain = []"
  by (simp add: chb_inv_def)

lemma nodes_last: "chb_inv chain \<Longrightarrow> chb_last chain = Some a \<Longrightarrow> chb_nodes chain = butlast (chb_nodes chain) @ [last (chb_nodes chain)]"
  by (metis append_butlast_last_id last_None option.distinct(1))

subsection \<open>Reserving\<close>

text \<open>A reservation that succeeds leaves room at the end and changes no byte.\<close>

definition reserved :: "nat \<Rightarrow> njs_chb \<Rightarrow> njs_chb \<Rightarrow> bool" where
  "reserved k chain chain' \<longleftrightarrow>
     chb_inv chain' \<and> chb_ok chain' \<and> njs_chb_join_to chain' = njs_chb_join_to chain \<and>
     chb_nodes chain' \<noteq> [] \<and> k \<le> node_room (last (chb_nodes chain')) \<and>
     total_size chain' = total_size chain \<and> max_size chain' = max_size chain"

definition refused :: "chb_alloc \<Rightarrow> nat \<Rightarrow> njs_chb \<Rightarrow> njs_chb \<Rightarrow> bool" where
  "refused alloc k chain chain' \<longleftrightarrow>
     (\<exists>e. chain' = chain\<lparr>chb_error := e\<rparr> \<and>
       (e = NJS_CHB_ERR_OVERFLOW \<and> max_size chain \<noteq> 0 \<and> unat (max_size chain) < length (njs_chb_join_to chain) + k \<or>
        e = NJS_CHB_ERR_NOMEM \<and> \<not> (\<forall>a n. alloc a n)))"

lemma new_node_reserved:
  assumes "chb_inv chain" "chb_ok chain" "new_node alloc s chain = (True, chain')"
  shows "reserved (unat s) chain chain'"
proof -
  define s2 where "s2 = (if s < NJS_CHB_MIN_SIZE then NJS_CHB_MIN_SIZE else s)"
  define n where "n = \<lparr>addr = next_addr chain, node_data = [], node_room = unat s2\<rparr>"
  have "(case chb_last chain of None \<Rightarrow> [n] | Some a \<Rightarrow> link_after a n (chb_nodes chain)) = chb_nodes chain @ [n]"
    using link_last[OF assms(1)] last_None[OF assms(1)] by (auto split: option.split)
  then have c: "chain' = chain\<lparr>chb_nodes := chb_nodes chain @ [n], chb_last := Some (addr n), next_addr := next_addr chain + 1\<rparr>"
    using assms(3)[unfolded new_node_def Let_def s2_def[symmetric] n_def[symmetric]] by (simp split: if_splits)
  have "unat s \<le> unat s2" by (auto simp: s2_def word_less_nat_alt)
  moreover have "chb_inv chain'" using assms(1) unfolding c chb_inv_def
    by (auto simp: n_def njs_chb_join_to_def lessThan_Suc)
  ultimately show ?thesis using assms(2) by (simp add: reserved_def c njs_chb_join_to_def n_def)
qed

lemma reserve_cases:
  assumes "chb_inv chain" "chb_ok chain" "length (njs_chb_join_to chain) + unat s < 2 ^ 64"
  obtains (room) chain' where "njs_chb_reserve alloc s chain = Some (True, chain')" "reserved (unat s) chain chain'"
  | (refused) chain' where "njs_chb_reserve alloc s chain = Some (False, chain')" "refused alloc (unat s) chain chain'"
proof -
  have sum: "unat (total_size chain + s) = length (njs_chb_join_to chain) + unat s"
    using assms(1,3) by (subst unat_add_lem[THEN iffD1]) (simp_all add: chb_inv_def)
  have new: thesis if r: "njs_chb_reserve alloc s chain = Some (new_node alloc s chain)"
  proof (cases "fst (new_node alloc s chain)")
    case True
    then show thesis using room[of "snd (new_node alloc s chain)"] new_node_reserved[OF assms(1,2)] r by (metis prod.collapse)
  next
    case False
    then have "refused alloc (unat s) chain (snd (new_node alloc s chain))"
      by (auto simp: new_node_def refused_def Let_def split: if_splits)
    then show thesis using refused[of "snd (new_node alloc s chain)"] False r by (metis prod.collapse)
  qed
  show thesis
  proof (cases "max_size chain \<noteq> 0 \<and> max_size chain < total_size chain + s")
    case True
    then show thesis using refused[of "chain\<lparr>chb_error := NJS_CHB_ERR_OVERFLOW\<rparr>"] assms(2) sum
      by (auto simp: njs_chb_reserve_def refused_def word_less_nat_alt)
  next
    case small: False
    show thesis
    proof (cases "chb_last chain")
      case None
      then show thesis using new small assms(2) by (simp add: njs_chb_reserve_def)
    next
      case (Some a)
      note f = find_last[OF assms(1) Some]
      show thesis
      proof (cases "unat s \<le> node_room (last (chb_nodes chain))")
        case True
        then have "njs_chb_reserve alloc s chain = Some (True, chain)" using small assms(2) Some f by (simp add: njs_chb_reserve_def)
        moreover have "chb_nodes chain \<noteq> []" using Some last_None[OF assms(1)] by auto
        ultimately show thesis using room[of chain] True assms by (simp add: reserved_def)
      next
        case False
        then show thesis using new small assms(2) Some f by (simp add: njs_chb_reserve_def)
      qed
    qed
  qed
qed

lemma unat_size: "n < 2 ^ 64 \<Longrightarrow> unat (of_nat n :: uint64) = n"
  by (simp add: unsigned_of_nat take_bit_nat_eq_self)

lemma written_reserved:
  assumes "reserved k chain0 chain" "length bytes \<le> k" "length (njs_chb_join_to chain0) + length bytes < 2 ^ 64"
  obtains chain' where "njs_chb_written bytes chain = Some chain'" "chb_inv chain'" "chb_ok chain'"
    "njs_chb_join_to chain' = njs_chb_join_to chain0 @ bytes" "max_size chain' = max_size chain0"
proof -
  have r: "chb_inv chain" "chb_ok chain" "njs_chb_join_to chain = njs_chb_join_to chain0" "chb_nodes chain \<noteq> []"
    "k \<le> node_room (last (chb_nodes chain))" "max_size chain = max_size chain0" using assms(1) by (auto simp: reserved_def)
  then obtain a where a: "chb_last chain = Some a" by (simp add: chb_inv_def)
  obtain ns n where n: "chb_nodes chain = ns @ [n]" "addr n = a" using nodes_snoc[OF r(1) a] .
  define n' where "n' = n\<lparr>node_data := node_data n @ bytes, node_room := node_room n - length bytes\<rparr>"
  define chain' where "chain' = chain\<lparr>chb_nodes := ns @ [n'], total_size := total_size chain + of_nat (length bytes)\<rparr>"
  have w: "njs_chb_written bytes chain = Some chain'"
    using r(5) assms(2) n a find_last[OF r(1) a] update_last[OF r(1) a]
    by (simp add: njs_chb_written_def chain'_def n'_def)
  have j: "njs_chb_join_to chain' = njs_chb_join_to chain @ bytes" by (simp add: njs_chb_join_to_def chain'_def n n'_def)
  have "unat (total_size chain + of_nat (length bytes)) = unat (total_size chain) + length bytes"
    using r(1,3) assms(3) by (subst unat_add_lem[THEN iffD1]) (simp_all add: unat_size chb_inv_def)
  then have "chb_inv chain'" using r(1) j n a by (auto simp: chb_inv_def chain'_def n'_def)
  then show thesis using that w j r(2,3,6) by (simp add: chain'_def)
qed

subsection \<open>Operations on the bytes\<close>

text \<open>
  What every operation promises.  On a chain without an error it does to the bytes what \<open>spec\<close> says,
  or it records an error and changes no byte; an error can only come from the limit of the chain or from
  the allocator, and after it nothing changes any more.
\<close>

locale chb_operation =
  fixes step :: "chb_alloc \<Rightarrow> njs_chb \<Rightarrow> njs_chb option" and spec :: "u_char list \<Rightarrow> u_char list" and grows :: nat
  assumes succeeds: "chb_inv c \<Longrightarrow> chb_ok c \<Longrightarrow> length (njs_chb_join_to c) + grows < 2 ^ 64 \<Longrightarrow>
      \<exists>c'. step alloc c = Some c' \<and> chb_inv c' \<and> max_size c' = max_size c \<and>
        (chb_ok c' \<and> njs_chb_join_to c' = spec (njs_chb_join_to c) \<or>
         \<not> chb_ok c' \<and> njs_chb_join_to c' = njs_chb_join_to c \<and> (max_size c \<noteq> 0 \<or> \<not> (\<forall>a n. alloc a n)))"
    and failed: "\<not> chb_ok c \<Longrightarrow> step alloc c = Some c"
    and growth: "length (spec bs) \<le> length bs + grows"
begin

lemma keeps:
  assumes "chb_inv c" "length (njs_chb_join_to c) + grows + k < 2 ^ 64"
  shows "\<exists>c'. step alloc c = Some c' \<and> chb_inv c' \<and> max_size c' = max_size c \<and> length (njs_chb_join_to c') + k < 2 ^ 64 \<and>
    (chb_ok c' \<longrightarrow> chb_ok c \<and> njs_chb_join_to c' = spec (njs_chb_join_to c)) \<and>
    (chb_ok c \<and> max_size c = 0 \<and> (\<forall>a n. alloc a n) \<longrightarrow> chb_ok c')"
proof (cases "chb_ok c")
  case True
  then obtain c' where c: "step alloc c = Some c'" "chb_inv c'" "max_size c' = max_size c"
    "chb_ok c' \<and> njs_chb_join_to c' = spec (njs_chb_join_to c) \<or>
     \<not> chb_ok c' \<and> njs_chb_join_to c' = njs_chb_join_to c \<and> (max_size c \<noteq> 0 \<or> \<not> (\<forall>a n. alloc a n))"
    using succeeds[OF assms(1)] assms(2) by fastforce
  then have "length (njs_chb_join_to c') + k < 2 ^ 64" using growth[of "njs_chb_join_to c"] assms(2) by auto
  then show ?thesis using c True by blast
next
  case False
  then show ?thesis using failed assms by simp
qed

end

interpretation append_op: chb_operation "\<lambda>alloc. njs_chb_append0 alloc msg" "\<lambda>bs. bs @ msg" "length msg"
  for msg
proof
  fix c alloc
  assume c: "chb_inv c" "chb_ok c" "length (njs_chb_join_to c) + length msg < 2 ^ 64"
  then have u: "unat (of_nat (length msg) :: uint64) = length msg" by (simp add: unat_size)
  show "\<exists>c'. njs_chb_append0 alloc msg c = Some c' \<and> chb_inv c' \<and> max_size c' = max_size c \<and>
        (chb_ok c' \<and> njs_chb_join_to c' = njs_chb_join_to c @ msg \<or>
         \<not> chb_ok c' \<and> njs_chb_join_to c' = njs_chb_join_to c \<and> (max_size c \<noteq> 0 \<or> \<not> (\<forall>a n. alloc a n)))"
  proof (cases "msg = []")
    case False
    show ?thesis
    proof (rule reserve_cases[OF c(1,2), of "of_nat (length msg)" alloc])
      show "length (njs_chb_join_to c) + unat (of_nat (length msg) :: uint64) < 2 ^ 64" using c(3) u by simp
    next
      fix c1 assume "njs_chb_reserve alloc (of_nat (length msg)) c = Some (True, c1)" "reserved (unat (of_nat (length msg) :: uint64)) c c1"
      moreover from this obtain c2 where "njs_chb_written msg c1 = Some c2" "chb_inv c2" "chb_ok c2"
          "njs_chb_join_to c2 = njs_chb_join_to c @ msg" "max_size c2 = max_size c"
        using written_reserved[of "length msg" c c1 msg] c(3) u by auto
      ultimately show ?thesis using c False by (simp add: njs_chb_append0_def)
    next
      fix c1 assume "njs_chb_reserve alloc (of_nat (length msg)) c = Some (False, c1)" "refused alloc (unat (of_nat (length msg) :: uint64)) c c1"
      then show ?thesis using c False by (auto simp: njs_chb_append0_def refused_def)
    qed
  qed (use c in \<open>simp add: njs_chb_append0_def\<close>)
qed (simp_all add: njs_chb_append0_def)

interpretation vsprintf_op: chb_operation "\<lambda>alloc. njs_chb_vsprintf alloc s out" "\<lambda>bs. bs @ take (unat s) out" "unat s"
  for s out
proof
  fix c alloc
  assume c: "chb_inv c" "chb_ok c" "length (njs_chb_join_to c) + unat s < 2 ^ 64"
  show "\<exists>c'. njs_chb_vsprintf alloc s out c = Some c' \<and> chb_inv c' \<and> max_size c' = max_size c \<and>
        (chb_ok c' \<and> njs_chb_join_to c' = njs_chb_join_to c @ take (unat s) out \<or>
         \<not> chb_ok c' \<and> njs_chb_join_to c' = njs_chb_join_to c \<and> (max_size c \<noteq> 0 \<or> \<not> (\<forall>a n. alloc a n)))"
  proof (rule reserve_cases[OF c, of alloc])
    fix c1 assume "njs_chb_reserve alloc s c = Some (True, c1)" "reserved (unat s) c c1"
    moreover have "length (take (unat s) out) \<le> unat s" "length (njs_chb_join_to c) + length (take (unat s) out) < 2 ^ 64" using c(3) by auto
    ultimately show ?thesis using written_reserved[of "unat s" c c1 "take (unat s) out"] by (fastforce simp: njs_chb_vsprintf_def)
  next
    fix c1 assume "njs_chb_reserve alloc s c = Some (False, c1)" "refused alloc (unat s) c c1"
    then show ?thesis using c by (auto simp: njs_chb_vsprintf_def refused_def)
  qed
qed (simp_all add: njs_chb_vsprintf_def njs_chb_reserve_def)

subsection \<open>Draining from the front\<close>

lemma drain_loop_correct:
  assumes "distinct (map addr ns @ freed c)" "set (map addr ns @ freed c) = {..<next_addr c}"
    "unat (total_size c) = length (concat (map node_data ns))" "chb_last c = (if ns = [] then chb_last c else Some (addr (last ns)))"
  shows "chb_inv (drain_loop k ns c) \<and> njs_chb_join_to (drain_loop k ns c) = drop k (concat (map node_data ns)) \<and>
    chb_error (drain_loop k ns c) = chb_error c \<and> max_size (drain_loop k ns c) = max_size c"
  using assms
proof (induction k ns c rule: drain_loop.induct)
  case (1 k c)
  then show ?case by (simp add: chb_inv_def njs_chb_join_to_def)
next
  case (2 k n ns c)
  define l where "l = length (concat (map node_data ns))"
  have total: "unat (total_size c) = length (node_data n) + l" using "2.prems"(3) by (simp add: l_def)
  have minus: "unat (total_size c - of_nat j) = length (node_data n) + l - j" if "j \<le> length (node_data n)" for j
  proof -
    have "length (node_data n) + l < 2 ^ 64" using total unsigned_less[of "total_size c", where ?'a = nat] by simp
    then have "unat (of_nat j :: uint64) = j" using that by (intro unat_size) simp
    then show ?thesis using total that by (simp add: unat_sub word_le_nat_alt)
  qed
  show ?case
  proof (cases "njs_chb_node_size n > k")
    case True
    then have "unat (total_size c - of_nat k) = length (node_data n) + l - k" using minus by (simp add: njs_chb_node_size_def)
    then show ?thesis using True "2.prems" by (auto simp: chb_inv_def njs_chb_join_to_def Let_def njs_chb_node_size_def l_def)
  next
    case False
    define c1 where "c1 = free_node n (c\<lparr>total_size := total_size c - of_nat (njs_chb_node_size n), chb_nodes := ns\<rparr>)"
    have "distinct (map addr ns @ freed c1)" "set (map addr ns @ freed c1) = {..<next_addr c1}"
      using "2.prems"(1,2) by (auto simp: c1_def free_node_def)
    moreover have "unat (total_size c1) = length (concat (map node_data ns))"
      using minus[of "length (node_data n)"] by (simp add: c1_def free_node_def njs_chb_node_size_def l_def)
    moreover have "chb_last c1 = (if ns = [] then chb_last c1 else Some (addr (last ns)))"
      using "2.prems"(4) by (simp add: c1_def free_node_def)
    ultimately have ih: "chb_inv (drain_loop (k - njs_chb_node_size n) ns c1) \<and>
        njs_chb_join_to (drain_loop (k - njs_chb_node_size n) ns c1) = drop (k - njs_chb_node_size n) (concat (map node_data ns)) \<and>
        chb_error (drain_loop (k - njs_chb_node_size n) ns c1) = chb_error c1 \<and> max_size (drain_loop (k - njs_chb_node_size n) ns c1) = max_size c1"
      using "2.IH"[OF refl False] unfolding c1_def[symmetric] by blast
    moreover have "drain_loop k (n # ns) c = drain_loop (k - njs_chb_node_size n) ns c1" using False by (simp add: Let_def c1_def)
    ultimately show ?thesis using False by (simp add: c1_def free_node_def njs_chb_node_size_def)
  qed
qed

interpretation drain_op: chb_operation "\<lambda>alloc c. Some (njs_chb_drain k c)" "\<lambda>bs. drop k bs" 0
  for k
proof
  fix c and alloc :: chb_alloc
  assume "chb_inv c" "chb_ok c"
  then show "\<exists>c'. Some (njs_chb_drain k c) = Some c' \<and> chb_inv c' \<and> max_size c' = max_size c \<and>
        (chb_ok c' \<and> njs_chb_join_to c' = drop k (njs_chb_join_to c) \<or>
         \<not> chb_ok c' \<and> njs_chb_join_to c' = njs_chb_join_to c \<and> (max_size c \<noteq> 0 \<or> \<not> (\<forall>a n. alloc a n)))"
    using drain_loop_correct[of "chb_nodes c" c k] by (simp add: njs_chb_drain_def chb_inv_def njs_chb_join_to_def)
qed (simp_all add: njs_chb_drain_def)

subsection \<open>Dropping from the end\<close>

lemma free_all_fields [simp]:
  "chb_nodes (free_all ns c) = chb_nodes c" "chb_last (free_all ns c) = chb_last c" "chb_error (free_all ns c) = chb_error c"
  "total_size (free_all ns c) = total_size c" "max_size (free_all ns c) = max_size c" "next_addr (free_all ns c) = next_addr c"
  "freed (free_all ns c) = freed c @ map addr ns"
  by (induction ns arbitrary: c) (auto simp: free_node_def)

lemma chop_fields [simp]: "addr (chop k n) = addr n" "node_data (chop k n) = take (length (node_data n) - k) (node_data n)"
  by (simp_all add: chop_def njs_chb_node_size_def)

lemma drop_loop_fields [simp]:
  "total_size (drop_loop keep kept pre ns c) = total_size c" "max_size (drop_loop keep kept pre ns c) = max_size c"
  "chb_error (drop_loop keep kept pre ns c) = chb_error c" "next_addr (drop_loop keep kept pre ns c) = next_addr c"
  by (induction keep kept pre ns c rule: drop_loop.induct) (auto simp: Let_def)

lemma drop_loop_correct:
  assumes "kept + length (concat (map node_data ns)) \<ge> keep" "kept < keep" "kept = length (concat (map node_data pre))"
  shows "\<exists>pre' n ns'. ns = pre' @ n # ns' \<and> chb_nodes (drop_loop keep kept pre ns c) = pre @ pre' @ [chop (length (concat (map node_data (pre @ pre' @ [n]))) - keep) n] \<and>
    chb_last (drop_loop keep kept pre ns c) = Some (addr n) \<and> freed (drop_loop keep kept pre ns c) = freed c @ map addr ns' \<and>
    njs_chb_join_to (drop_loop keep kept pre ns c) = take keep (concat (map node_data (pre @ ns)))"
  using assms
proof (induction keep kept pre ns c rule: drop_loop.induct)
  case (2 keep kept pre n ns c)
  define k where "k = kept + njs_chb_node_size n"
  show ?case
  proof (cases "k \<ge> keep")
    case True
    have "take keep (concat (map node_data (pre @ n # ns))) = concat (map node_data pre) @ take (keep - kept) (node_data n)"
      using "2.prems" True by (simp add: k_def njs_chb_node_size_def)
    moreover have "length (node_data n) - (k - keep) = keep - kept" using "2.prems"(2) True by (simp add: k_def njs_chb_node_size_def)
    ultimately show ?thesis using True "2.prems"(3)
      by (intro exI[of _ "[]"] exI[of _ n] exI[of _ ns]) (simp add: k_def njs_chb_join_to_def Let_def njs_chb_node_size_def)
  next
    case False
    have s: "drop_loop keep kept pre (n # ns) c = drop_loop keep k (pre @ [n]) ns c" using False by (simp add: k_def Let_def)
    have p: "k + length (concat (map node_data ns)) \<ge> keep" "k < keep" "k = length (concat (map node_data (pre @ [n])))"
      using "2.prems" False by (simp_all add: k_def njs_chb_node_size_def)
    obtain pre' m ns' where "ns = pre' @ m # ns'"
        "chb_nodes (drop_loop keep k (pre @ [n]) ns c) = (pre @ [n]) @ pre' @ [chop (length (concat (map node_data ((pre @ [n]) @ pre' @ [m]))) - keep) m]"
        "chb_last (drop_loop keep k (pre @ [n]) ns c) = Some (addr m)" "freed (drop_loop keep k (pre @ [n]) ns c) = freed c @ map addr ns'"
        "njs_chb_join_to (drop_loop keep k (pre @ [n]) ns c) = take keep (concat (map node_data ((pre @ [n]) @ ns)))"
      using "2.IH"[OF k_def] False p by (metis (no_types, lifting))
    then show ?thesis unfolding s by (intro exI[of _ "n # pre'"] exI[of _ m] exI[of _ ns']) simp
  qed
qed simp

lemma total_minus:
  assumes "chb_inv c" "k \<le> length (njs_chb_join_to c)"
  shows "unat (total_size c - of_nat k) = length (njs_chb_join_to c) - k"
proof -
  have t: "unat (total_size c) = length (njs_chb_join_to c)" using assms(1) by (simp add: chb_inv_def)
  have "unat (total_size c) < 2 ^ 64" using unsigned_less[of "total_size c", where ?'a = nat] by simp
  then have "unat (of_nat k :: uint64) = k" using t assms(2) by (intro unat_size) simp
  then show ?thesis using t assms(2) by (simp add: unat_sub word_le_nat_alt)
qed

text \<open>The three ways out of \<open>njs_chb_drop\<close>: within the last node, the whole chain, and in between.\<close>

lemma drop_within_last:
  assumes "chb_inv c" "chb_nodes c = ns @ [n]" "k < njs_chb_node_size n"
  defines "c' \<equiv> c\<lparr>chb_nodes := ns @ [chop k n], total_size := total_size c - of_nat k\<rparr>"
  shows "chb_inv c' \<and> njs_chb_join_to c' = take (length (njs_chb_join_to c) - k) (njs_chb_join_to c)"
proof -
  have j: "njs_chb_join_to c = concat (map node_data ns) @ node_data n" using assms(2) by (simp add: njs_chb_join_to_def)
  have k: "k \<le> length (njs_chb_join_to c)" using assms(3) by (simp add: j njs_chb_node_size_def)
  have j': "njs_chb_join_to c' = take (length (njs_chb_join_to c) - k) (njs_chb_join_to c)"
    unfolding j using assms(3) by (simp add: c'_def njs_chb_join_to_def njs_chb_node_size_def)
  moreover have "chb_inv c'" using assms(1,2) total_minus[OF assms(1) k] j' by (auto simp: chb_inv_def c'_def)
  ultimately show ?thesis by blast
qed

lemma drop_everything:
  assumes "chb_inv c"
  defines "c' \<equiv> (njs_chb_destroy c)\<lparr>chb_error := NJS_CHB_ERR_NONE, chb_nodes := [], chb_last := None, total_size := 0\<rparr>"
  shows "chb_inv c' \<and> njs_chb_join_to c' = []"
  using assms(1) by (auto simp: c'_def njs_chb_destroy_def chb_inv_def njs_chb_join_to_def)

lemma drop_between:
  assumes "chb_inv c" "k < length (njs_chb_join_to c)"
  defines "d \<equiv> drop_loop (length (njs_chb_join_to c) - k) 0 [] (chb_nodes c) c"
  shows "chb_inv (d\<lparr>total_size := total_size d - of_nat k\<rparr>) \<and> njs_chb_join_to (d\<lparr>total_size := total_size d - of_nat k\<rparr>) = take (length (njs_chb_join_to c) - k) (njs_chb_join_to c)"
proof -
  define keep where "keep = length (njs_chb_join_to c) - k"
  have a: "keep \<le> 0 + length (concat (map node_data (chb_nodes c)))" "0 < keep" "0 = length (concat (map node_data []))"
    using assms(2) by (simp_all add: keep_def njs_chb_join_to_def)
  from drop_loop_correct[OF a, of c] obtain pre n ns where p: "chb_nodes c = pre @ n # ns"
      "chb_nodes d = [] @ pre @ [chop (length (concat (map node_data ([] @ pre @ [n]))) - keep) n]" "chb_last d = Some (addr n)"
      "freed d = freed c @ map addr ns" "njs_chb_join_to d = take keep (concat (map node_data ([] @ chb_nodes c)))"
    unfolding d_def keep_def[symmetric] by blast
  let ?d = "d\<lparr>total_size := total_size d - of_nat k\<rparr>"
  have j: "njs_chb_join_to ?d = take keep (njs_chb_join_to c)" using p(5) by (simp add: njs_chb_join_to_def)
  have "total_size d = total_size c" "next_addr d = next_addr c" by (simp_all add: d_def)
  then have "unat (total_size d - of_nat k) = length (take keep (njs_chb_join_to c))"
    using total_minus[OF assms(1)] assms(2) by (simp add: keep_def)
  then have "chb_inv ?d" using assms(1) j p(1-4) \<open>next_addr d = next_addr c\<close> unfolding chb_inv_def by auto
  then show ?thesis using j by (simp add: keep_def)
qed

interpretation drop_op: chb_operation "\<lambda>alloc c. njs_chb_drop k c" "\<lambda>bs. take (length bs - k) bs" 0
  for k
proof
  fix c and alloc :: chb_alloc
  assume c: "chb_inv c" "chb_ok c"
  have t: "unat (total_size c) = length (njs_chb_join_to c)" using c(1) by (simp add: chb_inv_def)
  define rest where "rest = (if unat (total_size c) \<le> k then
       (njs_chb_destroy c)\<lparr>chb_error := NJS_CHB_ERR_NONE, chb_nodes := [], chb_last := None, total_size := 0\<rparr>
     else (let c' = drop_loop (unat (total_size c) - k) 0 [] (chb_nodes c) c in c'\<lparr>total_size := total_size c' - of_nat k\<rparr>))"
  have rest: "chb_inv rest \<and> njs_chb_join_to rest = take (length (njs_chb_join_to c) - k) (njs_chb_join_to c) \<and> chb_ok rest \<and> max_size rest = max_size c"
    using drop_everything[OF c(1)] drop_between[OF c(1), of k] c(2) by (auto simp: rest_def t Let_def njs_chb_destroy_def)
  have "\<exists>c'. njs_chb_drop k c = Some c' \<and> chb_inv c' \<and> max_size c' = max_size c \<and> chb_ok c' \<and>
      njs_chb_join_to c' = take (length (njs_chb_join_to c) - k) (njs_chb_join_to c)"
  proof (cases "chb_last c")
    case None
    then show ?thesis using rest c(2) by (simp add: njs_chb_drop_def rest_def[symmetric])
  next
    case (Some a)
    obtain ns n where n: "chb_nodes c = ns @ [n]" "addr n = a" using nodes_snoc[OF c(1) Some] .
    show ?thesis
    proof (cases "k < njs_chb_node_size n")
      case True
      then show ?thesis using drop_within_last[OF c(1) n(1) True] c(2) Some n find_last[OF c(1) Some] update_last[OF c(1) Some]
        by (simp add: njs_chb_drop_def)
    next
      case False
      then show ?thesis using rest c(2) Some n(1) find_last[OF c(1) Some] by (simp add: njs_chb_drop_def rest_def[symmetric])
    qed
  qed
  then show "\<exists>c'. njs_chb_drop k c = Some c' \<and> chb_inv c' \<and> max_size c' = max_size c \<and>
        (chb_ok c' \<and> njs_chb_join_to c' = take (length (njs_chb_join_to c) - k) (njs_chb_join_to c) \<or>
         \<not> chb_ok c' \<and> njs_chb_join_to c' = njs_chb_join_to c \<and> (max_size c \<noteq> 0 \<or> \<not> (\<forall>a n. alloc a n)))" by blast
qed (simp_all add: njs_chb_drop_def)

subsection \<open>Sequences of operations\<close>

datatype chb_op = Append "u_char list" | Sprintf uint64 "u_char list" | Drain nat | Drop nat

fun chb_step :: "chb_alloc \<Rightarrow> chb_op \<Rightarrow> njs_chb \<Rightarrow> njs_chb option" where
  "chb_step alloc (Append msg) c = njs_chb_append0 alloc msg c"
| "chb_step alloc (Sprintf s out) c = njs_chb_vsprintf alloc s out c"
| "chb_step alloc (Drain k) c = Some (njs_chb_drain k c)"
| "chb_step alloc (Drop k) c = njs_chb_drop k c"

fun chb_run :: "chb_alloc \<Rightarrow> chb_op list \<Rightarrow> njs_chb \<Rightarrow> njs_chb option" where
  "chb_run alloc [] c = Some c"
| "chb_run alloc (op # ops) c = (case chb_step alloc op c of None \<Rightarrow> None | Some c' \<Rightarrow> chb_run alloc ops c')"

fun bytes_step :: "u_char list \<Rightarrow> chb_op \<Rightarrow> u_char list" where
  "bytes_step bs (Append msg) = bs @ msg"
| "bytes_step bs (Sprintf s out) = bs @ take (unat s) out"
| "bytes_step bs (Drain k) = drop k bs"
| "bytes_step bs (Drop k) = take (length bs - k) bs"

fun op_growth :: "chb_op \<Rightarrow> nat" where
  "op_growth (Append msg) = length msg"
| "op_growth (Sprintf s out) = unat s"
| "op_growth (Drain k) = 0"
| "op_growth (Drop k) = 0"

lemma step_keeps:
  assumes "chb_inv c" "length (njs_chb_join_to c) + op_growth op + k < 2 ^ 64"
  shows "\<exists>c'. chb_step alloc op c = Some c' \<and> chb_inv c' \<and> max_size c' = max_size c \<and> length (njs_chb_join_to c') + k < 2 ^ 64 \<and>
    (chb_ok c' \<longrightarrow> chb_ok c \<and> njs_chb_join_to c' = bytes_step (njs_chb_join_to c) op) \<and>
    (chb_ok c \<and> max_size c = 0 \<and> (\<forall>a n. alloc a n) \<longrightarrow> chb_ok c')"
proof (cases op)
  case (Append msg)
  show ?thesis unfolding Append chb_step.simps bytes_step.simps by (rule append_op.keeps) (use assms Append in simp_all)
next
  case (Sprintf s out)
  show ?thesis unfolding Sprintf chb_step.simps bytes_step.simps by (rule vsprintf_op.keeps) (use assms Sprintf in simp_all)
next
  case (Drain j)
  show ?thesis unfolding Drain chb_step.simps bytes_step.simps by (rule drain_op.keeps) (use assms Drain in simp_all)
next
  case (Drop j)
  show ?thesis unfolding Drop chb_step.simps bytes_step.simps by (rule drop_op.keeps) (use assms Drop in simp_all)
qed

lemma run_keeps:
  assumes "chb_inv c" "length (njs_chb_join_to c) + sum_list (map op_growth ops) < 2 ^ 64"
  shows "\<exists>c'. chb_run alloc ops c = Some c' \<and> chb_inv c' \<and> max_size c' = max_size c \<and>
    (chb_ok c' \<longrightarrow> chb_ok c \<and> njs_chb_join_to c' = foldl bytes_step (njs_chb_join_to c) ops) \<and>
    (chb_ok c \<and> max_size c = 0 \<and> (\<forall>a n. alloc a n) \<longrightarrow> chb_ok c')"
  using assms
proof (induction ops arbitrary: c)
  case (Cons op ops)
  then have "length (njs_chb_join_to c) + op_growth op + sum_list (map op_growth ops) < 2 ^ 64" by simp
  from step_keeps[OF Cons.prems(1) this, of alloc] obtain c1 where c1: "chb_step alloc op c = Some c1" "chb_inv c1" "max_size c1 = max_size c"
    "length (njs_chb_join_to c1) + sum_list (map op_growth ops) < 2 ^ 64"
    "chb_ok c1 \<longrightarrow> chb_ok c \<and> njs_chb_join_to c1 = bytes_step (njs_chb_join_to c) op"
    "chb_ok c \<and> max_size c = 0 \<and> (\<forall>a n. alloc a n) \<longrightarrow> chb_ok c1" by blast
  from Cons.IH[OF c1(2,4)] show ?case using c1(1,3,5,6) by fastforce
qed simp

subsection \<open>Reading\<close>



lemma ascii_node:
  "list_all (\<lambda>c. c < 0x80) s \<Longrightarrow> list_all is_scalar (map ucast s :: uint32 list) \<and> encode_all (map ucast s) = s"
proof (induction s)
  case (Cons c s)
  then have n: "unat c < 0x80" by (simp add: word_less_nat_alt)
  have u: "unat (ucast c :: uint32) = unat c" by (rule unat_byte_ucast)
  then have "map_option (map unat) (njs_utf8_encode (ucast c)) = Some [unat c]" using unat_encode[of "ucast c"] n by (simp add: utf8_nat_def)
  then have "njs_utf8_encode (ucast c) = Some [c]" by (auto simp: word_unat_eq_iff)
  then show ?case using Cons n u by (simp add: is_scalar_unat)
qed simp

lemma utf8_nodes_text:
  assumes "list_all (\<lambda>n. valid_utf8 (node_data n)) ns"
  shows "\<exists>us. list_all is_scalar us \<and> concat (map node_data ns) = encode_all us \<and> utf8_nodes ns len = Some (Inr (len + length us))"
  using assms
proof (induction ns arbitrary: len)
  case (Cons n ns)
  obtain us where us: "list_all is_scalar us" "node_data n = encode_all us" using Cons.prems by (auto simp: valid_utf8_def)
  obtain vs where "list_all is_scalar vs" "concat (map node_data ns) = encode_all vs" "utf8_nodes ns (len + length us) = Some (Inr (len + length us + length vs))"
    using Cons.IH[of "len + length us"] Cons.prems by auto
  then show ?case using us utf8_length_text[OF us(1)] by (intro exI[of _ "us @ vs"]) (simp add: encode_all_def)
qed (simp add: exI[of _ "[]"])

lemma utf8_nodes_invalid: "\<not> list_all (\<lambda>n. valid_utf8 (node_data n)) ns \<Longrightarrow> utf8_nodes ns len = Some (Inl ())"
proof (induction ns arbitrary: len)
  case (Cons n ns)
  show ?case
  proof (cases "valid_utf8 (node_data n)")
    case True
    then obtain us where "list_all is_scalar us" "node_data n = encode_all us" by (auto simp: valid_utf8_def)
    then show ?thesis using utf8_length_text[of us] Cons True by simp
  qed (simp add: utf8_length_invalid)
qed simp

lemma ascii_nodes_split:
  "\<exists>pre. ns = pre @ snd (ascii_nodes ns len) \<and> fst (ascii_nodes ns len) = len + length (concat (map node_data pre)) \<and>
     list_all (\<lambda>n. list_all (\<lambda>c. c < 0x80) (node_data n)) pre"
proof (induction ns arbitrary: len)
  case (Cons n ns)
  show ?case
  proof (cases "list_all (\<lambda>c. c < 0x80) (node_data n)")
    case True
    obtain pre where "ns = pre @ snd (ascii_nodes ns (len + njs_chb_node_size n))" "fst (ascii_nodes ns (len + njs_chb_node_size n)) =
        len + njs_chb_node_size n + length (concat (map node_data pre))" "list_all (\<lambda>n. list_all (\<lambda>c. c < 0x80) (node_data n)) pre"
      using Cons.IH by blast
    then show ?thesis using True by (intro exI[of _ "n # pre"]) (simp add: njs_chb_node_size_def)
  qed (auto intro: exI[of _ "[]"])
qed simp

text \<open>
  The number of characters of a chain.  It is that of the joined text when every node holds whole
  characters, and -1 otherwise: also for a valid text of which a character lies across two nodes.
\<close>

theorem chb_utf8_length_nodes:
  assumes "chb_ok c"
  shows "if list_all (\<lambda>n. valid_utf8 (node_data n)) (chb_nodes c)
    then (\<exists>us. list_all is_scalar us \<and> njs_chb_join_to c = encode_all us \<and> njs_chb_utf8_length c = Some (Inr (length us)))
    else njs_chb_utf8_length c = Some (Inl ())"
proof -
  obtain pre where pre: "chb_nodes c = pre @ snd (ascii_nodes (chb_nodes c) 0)" "fst (ascii_nodes (chb_nodes c) 0) = length (concat (map node_data pre))"
      "list_all (\<lambda>n. list_all (\<lambda>c. c < 0x80) (node_data n)) pre" using ascii_nodes_split[of "chb_nodes c" 0] by auto
  define ns where "ns = snd (ascii_nodes (chb_nodes c) 0)"
  have len: "njs_chb_utf8_length c = utf8_nodes ns (length (concat (map node_data pre)))"
    using assms pre(2) by (simp add: njs_chb_utf8_length_def ns_def case_prod_beta)
  have valid: "list_all (\<lambda>n. valid_utf8 (node_data n)) pre"
    using pre(3) ascii_node unfolding valid_utf8_def list_all_iff by metis
  define us where "us = (map ucast (concat (map node_data pre)) :: uint32 list)"
  have "list_all (\<lambda>c. c < 0x80) (concat (map node_data pre))" using pre(3) by (auto simp: list_all_iff)
  note us = ascii_node[OF this, folded us_def]
  show ?thesis
  proof (cases "list_all (\<lambda>n. valid_utf8 (node_data n)) ns")
    case True
    obtain vs where vs: "list_all is_scalar vs" "concat (map node_data ns) = encode_all vs"
        "utf8_nodes ns (length (concat (map node_data pre))) = Some (Inr (length (concat (map node_data pre)) + length vs))"
      using utf8_nodes_text[OF True] by blast
    have "\<exists>us. list_all is_scalar us \<and> njs_chb_join_to c = encode_all us \<and> njs_chb_utf8_length c = Some (Inr (length us))"
      using us vs pre(1) len unfolding njs_chb_join_to_def ns_def[symmetric]
      by (intro exI[of _ "us @ vs"]) (simp add: encode_all_def us_def)
    moreover have "list_all (\<lambda>n. valid_utf8 (node_data n)) (chb_nodes c)" using True valid pre(1) ns_def by (metis list_all_append)
    ultimately show ?thesis by (simp only: if_True)
  next
    case False
    then have "\<not> list_all (\<lambda>n. valid_utf8 (node_data n)) (chb_nodes c)" using pre(1) ns_def by (metis list_all_append)
    then show ?thesis using utf8_nodes_invalid[OF False] len by simp
  qed
qed

theorem chb_utf8_length_nodes_witness:
  "\<exists>us. list_all is_scalar us \<and> njs_chb_join_to (njs_chb_init\<lparr>chb_nodes := [\<lparr>addr = 0, node_data = [0x61], node_room = 255\<rparr>]\<rparr>) = encode_all us \<and>
     njs_chb_utf8_length (njs_chb_init\<lparr>chb_nodes := [\<lparr>addr = 0, node_data = [0x61], node_room = 255\<rparr>]\<rparr>) = Some (Inr (length us))"
proof -
  have "valid_utf8 [0x61]" unfolding valid_utf8_def by (rule exI[of _ "[0x61]"]) (simp add: is_scalar_unat njs_utf8_encode_def)
  then show ?thesis
    using chb_utf8_length_nodes[of "njs_chb_init\<lparr>chb_nodes := [\<lparr>addr = 0, node_data = [0x61], node_room = 255\<rparr>]\<rparr>"] by (simp add: njs_chb_init_def)
qed

end
