(* ===== verification/Njs_String.thy ===== *)
theory Njs_String
  imports Njs_Codec
begin

section \<open>Strings and their methods (src/src/njs_string.c, src/src/njs_string.h)\<close>

text \<open>
  A string is its bytes in UTF-8, its number of characters and, behind the bytes, a map with the
  offset of every 32nd character.  The map exists for strings of more than 32 characters that are not
  ASCII; it is filled when it is needed first, and its first entry is 0 until then.  The methods
  return the string with them because they may fill the map.

  A pointer into a string is the suffix of the bytes that it points to.  A read or a write outside of
  a buffer, and a string whose bytes are not as many as were allocated, are the answer None.
  \<open>alloc\<close> says whether a block can be allocated, \<open>junk\<close> what a new block holds.
\<close>

record string_env =
  alloc :: "nat \<Rightarrow> bool"
  junk :: "nat \<Rightarrow> uint32"

record njs_string =
  str_start :: "u_char list"
  str_length :: nat
  str_map :: "uint32 list"

abbreviation str_size :: "njs_string \<Rightarrow> nat" where
  "str_size s \<equiv> length (str_start s)"

definition NJS_STRING_MAX_LENGTH :: nat where "NJS_STRING_MAX_LENGTH = 0x7FFFFFFF"
definition NJS_STRING_MAP_STRIDE :: nat where "NJS_STRING_MAP_STRIDE = 32"

definition njs_string_map_size :: "nat \<Rightarrow> nat" where
  "njs_string_map_size len = (len - 1) div NJS_STRING_MAP_STRIDE"

definition njs_string_data_size :: "nat \<Rightarrow> nat \<Rightarrow> nat" where
  "njs_string_data_size sz len =
     (if sz \<noteq> len \<and> NJS_STRING_MAP_STRIDE < len then (sz + 1 + 3) div 4 * 4 + njs_string_map_size len * 4 else sz + 1)"

text \<open>\<open>njs_string_alloc\<close> with the bytes that the caller writes into the string, and \<open>njs_string_data_init\<close>.\<close>

definition njs_string_data_init :: "string_env \<Rightarrow> nat \<Rightarrow> nat \<Rightarrow> uint32 list" where
  "njs_string_data_init env sz len =
     (if sz \<noteq> len \<and> NJS_STRING_MAP_STRIDE < len then (map (junk env) [0..<njs_string_map_size len])[0 := 0] else [])"

definition invalid_length :: codec_error where "invalid_length = RangeErr ''invalid string length''"

definition njs_string_alloc :: "string_env \<Rightarrow> nat \<Rightarrow> nat \<Rightarrow> u_char list \<Rightarrow> (codec_error + njs_string) option" where
  "njs_string_alloc env sz len bytes =
     (if NJS_STRING_MAX_LENGTH < sz then Some (Inl invalid_length)
      else if \<not> alloc env (16 + njs_string_data_size sz len) then Some (Inl MemoryError)
      else if length bytes = sz then Some (Inr \<lparr>str_start = bytes, str_length = len, str_map = njs_string_data_init env sz len\<rparr>)
      else None)"

definition njs_string_new :: "string_env \<Rightarrow> u_char list \<Rightarrow> nat \<Rightarrow> (codec_error + njs_string) option" where
  "njs_string_new env bytes len = njs_string_alloc env (length bytes) len bytes"

definition empty_string :: njs_string where
  "empty_string = \<lparr>str_start = [], str_length = 0, str_map = []\<rparr>"

definition prop_len :: "njs_string \<Rightarrow> nat" where
  "prop_len s = (if str_length s = 0 then str_size s else str_length s)"

definition is_ascii :: "njs_string \<Rightarrow> bool" where
  "is_ascii s \<longleftrightarrow> str_length s = str_size s"

subsection \<open>Characters and offsets\<close>

lemma utf8_next_shorter: "njs_utf8_next p = Some r \<Longrightarrow> length r < length p"
proof -
  have "length (skip_trail q) \<le> length q" for q by (induction q) auto
  then show "njs_utf8_next p = Some r \<Longrightarrow> length r < length p"
    by (auto simp: njs_utf8_next_def less_Suc_eq_le split: list.splits if_splits)
qed

definition map_set :: "uint32 list \<Rightarrow> nat \<Rightarrow> uint32 \<Rightarrow> uint32 list option" where
  "map_set m n v = (if n < length m then Some (m[n := v]) else None)"

function offset_map_loop :: "nat \<Rightarrow> u_char list \<Rightarrow> nat \<Rightarrow> nat \<Rightarrow> uint32 list \<Rightarrow> uint32 list option" where
  "offset_map_loop sz p n offset m =
     (case (if offset = 0 then map_option (\<lambda>m. (n + 1, NJS_STRING_MAP_STRIDE, m)) (map_set m n (of_nat (sz - length p)))
            else Some (n, offset, m)) of
        None \<Rightarrow> None
      | Some (n, offset, m) \<Rightarrow>
          (case njs_utf8_next p of
             None \<Rightarrow> None
           | Some p \<Rightarrow> if p \<noteq> [] then offset_map_loop sz p n (offset - 1) m else Some m))"
  by pat_completeness auto
termination
  by (relation "measure (\<lambda>(sz, p, n, offset, m). length p)") (auto dest: utf8_next_shorter)

declare offset_map_loop.simps [simp del]

definition njs_string_utf8_offset_map_init :: "u_char list \<Rightarrow> uint32 list \<Rightarrow> uint32 list option" where
  "njs_string_utf8_offset_map_init start m = offset_map_loop (length start) start 0 NJS_STRING_MAP_STRIDE m"

fun utf8_skip :: "nat \<Rightarrow> u_char list \<Rightarrow> u_char list option" where
  "utf8_skip 0 p = Some p"
| "utf8_skip (Suc n) p = (case njs_utf8_next p of None \<Rightarrow> None | Some p \<Rightarrow> utf8_skip n p)"

definition ensure_map :: "u_char list \<Rightarrow> uint32 list \<Rightarrow> uint32 list option" where
  "ensure_map start m =
     (if m = [] then None else if m ! 0 = 0 then njs_string_utf8_offset_map_init start m else Some m)"

definition njs_string_utf8_offset :: "njs_string \<Rightarrow> nat \<Rightarrow> (u_char list \<times> njs_string) option" where
  "njs_string_utf8_offset s index =
     (if NJS_STRING_MAP_STRIDE \<le> index then
        (case ensure_map (str_start s) (str_map s) of
           None \<Rightarrow> None
         | Some m \<Rightarrow>
             (let k = index div NJS_STRING_MAP_STRIDE - 1
              in if length m \<le> k \<or> str_size s < unat (m ! k) then None
                 else map_option (\<lambda>p. (p, s\<lparr>str_map := m\<rparr>)) (utf8_skip (index mod NJS_STRING_MAP_STRIDE) (drop (unat (m ! k)) (str_start s)))))
      else map_option (\<lambda>p. (p, s)) (utf8_skip (index mod NJS_STRING_MAP_STRIDE) (str_start s)))"

definition njs_string_offset :: "njs_string \<Rightarrow> nat \<Rightarrow> (u_char list \<times> njs_string) option" where
  "njs_string_offset s index =
     (if is_ascii s then (if str_size s < index then None else Some (drop index (str_start s), s))
      else if index = str_length s then Some ([], s)
      else njs_string_utf8_offset s index)"

text \<open>The map entries that are not behind the offset are passed; then characters are counted.\<close>

fun index_map_loop :: "nat \<Rightarrow> nat \<Rightarrow> nat \<Rightarrow> nat \<Rightarrow> uint32 list \<Rightarrow> (nat \<times> nat) option" where
  "index_map_loop len offset lst index m =
     (if index + NJS_STRING_MAP_STRIDE < len then
        (case m of
           [] \<Rightarrow> None
         | e # m \<Rightarrow> if unat e \<le> offset then index_map_loop len offset (unat e) (index + NJS_STRING_MAP_STRIDE) m else Some (lst, index))
      else Some (lst, index))"

declare index_map_loop.simps [simp del]

function count_loop :: "nat \<Rightarrow> u_char list \<Rightarrow> nat \<Rightarrow> nat option" where
  "count_loop rest p index =
     (if rest < length p then
        (case njs_utf8_next p of None \<Rightarrow> None | Some p \<Rightarrow> count_loop rest p (index + 1))
      else Some index)"
  by pat_completeness auto
termination by (relation "measure (\<lambda>(rest, p, index). length p)") (auto dest: utf8_next_shorter)

declare count_loop.simps [simp del]

definition njs_string_index :: "njs_string \<Rightarrow> nat \<Rightarrow> (nat \<times> njs_string) option" where
  "njs_string_index s offset =
     (if str_size s = str_length s then Some (offset, s)
      else
        (case (if NJS_STRING_MAP_STRIDE < str_length s then
                 (case ensure_map (str_start s) (str_map s) of
                    None \<Rightarrow> None
                  | Some m \<Rightarrow> map_option (\<lambda>(lst, index). (lst, index, s\<lparr>str_map := m\<rparr>)) (index_map_loop (str_length s) offset 0 0 m))
               else Some (0, 0, s)) of
           None \<Rightarrow> None
         | Some (lst, index, s) \<Rightarrow>
             map_option (\<lambda>i. (i, s)) (count_loop (str_size s - offset) (drop lst (str_start s)) index)))"

subsection \<open>Parts of a string\<close>

text \<open>
  The arguments of a method after \<open>this\<close>, already converted with \<open>njs_value_to_integer\<close>; the code
  of \<open>undefined\<close> is 0.
\<close>

datatype js_arg = JsUndefined | JsInteger int

fun to_integer :: "js_arg \<Rightarrow> int" where
  "to_integer JsUndefined = 0"
| "to_integer (JsInteger i) = i"

definition njs_arg :: "js_arg list \<Rightarrow> nat \<Rightarrow> js_arg" where
  "njs_arg args n = (if n < length args then args ! n else JsUndefined)"

record njs_slice_prop =
  sl_start :: nat
  sl_length :: nat
  sl_string_length :: nat

text \<open>The bytes and the number of characters of the slice.\<close>

fun slice_end :: "nat \<Rightarrow> u_char list \<Rightarrow> (nat \<times> u_char list) option" where
  "slice_end n p =
     (if n \<noteq> 0 \<and> p \<noteq> [] then
        (case njs_utf8_next p of None \<Rightarrow> None | Some p \<Rightarrow> slice_end (n - 1) p)
      else Some (n, p))"

declare slice_end.simps [simp del]

definition njs_string_slice_string_prop :: "njs_string \<Rightarrow> njs_slice_prop \<Rightarrow> (u_char list \<times> nat \<times> njs_string) option" where
  "njs_string_slice_string_prop s sl =
     (if str_size s = sl_string_length sl then
        (if str_size s < sl_start sl + sl_length sl then None
         else Some (take (sl_length sl) (drop (sl_start sl) (str_start s)), sl_length sl, s))
      else if sl_start sl < sl_string_length sl then
        (case njs_string_utf8_offset s (sl_start sl) of
           None \<Rightarrow> None
         | Some (start, s) \<Rightarrow>
             (case slice_end (sl_length sl) start of
                None \<Rightarrow> None
              | Some (n, p) \<Rightarrow> Some (take (length start - length p) start, sl_length sl - n, s)))
      else Some ([], 0, s))"

type_synonym string_result = "((codec_error + njs_string) \<times> njs_string) option"

definition njs_string_slice :: "string_env \<Rightarrow> njs_string \<Rightarrow> njs_slice_prop \<Rightarrow> string_result" where
  "njs_string_slice env s sl =
     (case njs_string_slice_string_prop s sl of
        None \<Rightarrow> None
      | Some (bytes, len, s) \<Rightarrow>
          (if length bytes \<noteq> 0 then map_option (\<lambda>r. (r, s)) (njs_string_new env bytes len) else Some (Inr empty_string, s)))"

definition njs_string_slice_args :: "nat \<Rightarrow> js_arg list \<Rightarrow> njs_slice_prop" where
  "njs_string_slice_args string_length args =
     (let len = int string_length;
          start = to_integer (njs_arg args 0);
          start = (if start < 0 then (if start + len < 0 then 0 else start + len) else start);
          (start, len) =
            (if start \<ge> len then (0, 0)
             else
               (let e = (case njs_arg args 1 of JsUndefined \<Rightarrow> len | JsInteger i \<Rightarrow> i);
                    e = (if e < 0 then e + len else e)
                in if len \<ge> e then (if e - start < 0 then (0, 0) else (start, e - start)) else (start, len - start)))
      in \<lparr>sl_start = nat start, sl_length = nat len, sl_string_length = string_length\<rparr>)"

definition njs_string_prototype_slice :: "string_env \<Rightarrow> njs_string \<Rightarrow> js_arg list \<Rightarrow> string_result" where
  "njs_string_prototype_slice env s args = njs_string_slice env s (njs_string_slice_args (prop_len s) args)"

definition substring_args :: "nat \<Rightarrow> js_arg list \<Rightarrow> njs_slice_prop" where
  "substring_args string_length args =
     (let len = int string_length;
          (start, len) =
            (if 0 < length args then
               (let start = to_integer (args ! 0);
                    start = (if start < 0 then 0 else if start > len then len else start);
                    e = (if 1 < length args then
                           (let e = to_integer (args ! 1) in if e < 0 then 0 else if e \<ge> len then len else e)
                         else len)
                in if e - start < 0 then (e, - (e - start)) else (start, e - start))
             else (0, len))
      in \<lparr>sl_start = nat start, sl_length = nat len, sl_string_length = string_length\<rparr>)"

definition njs_string_prototype_substring :: "string_env \<Rightarrow> njs_string \<Rightarrow> js_arg list \<Rightarrow> string_result" where
  "njs_string_prototype_substring env s args = njs_string_slice env s (substring_args (prop_len s) args)"

definition substr_args :: "nat \<Rightarrow> js_arg list \<Rightarrow> njs_slice_prop" where
  "substr_args string_length args =
     (let len = int string_length;
          (start, len) =
            (if 0 < length args then
               (let start = to_integer (args ! 0)
                in if start < len then
                     (let start = (if start < 0 then (if start + len < 0 then 0 else start + len) else start);
                          len = len - start
                      in (start,
                          if 1 < length args then (let n = to_integer (args ! 1) in if n < 0 then 0 else if n < len then n else len)
                          else len))
                   else (0, 0))
             else (0, len))
      in \<lparr>sl_start = nat start, sl_length = nat len, sl_string_length = string_length\<rparr>)"

definition njs_string_prototype_substr :: "string_env \<Rightarrow> njs_string \<Rightarrow> js_arg list \<Rightarrow> string_result" where
  "njs_string_prototype_substr env s args = njs_string_slice env s (substr_args (prop_len s) args)"

definition njs_string_prototype_char_at :: "string_env \<Rightarrow> njs_string \<Rightarrow> js_arg list \<Rightarrow> string_result" where
  "njs_string_prototype_char_at env s args =
     (let start = to_integer (njs_arg args 0);
          (start, len) = (if start < 0 \<or> start \<ge> int (prop_len s) then (0, 0) else (start, 1))
      in njs_string_slice env s \<lparr>sl_start = nat start, sl_length = len, sl_string_length = prop_len s\<rparr>)"

text \<open>NaN is the answer \<open>None\<close> in the first component.\<close>

definition njs_string_prototype_char_code_at :: "njs_string \<Rightarrow> js_arg list \<Rightarrow> (uint32 option \<times> njs_string) option" where
  "njs_string_prototype_char_code_at s args =
     (let index = to_integer (njs_arg args 0)
      in if index < 0 \<or> index \<ge> int (prop_len s) then Some (None, s)
         else if prop_len s = str_size s then Some (Some (ucast (str_start s ! nat index)), s)
         else
           (case njs_string_utf8_offset s (nat index) of
              None \<Rightarrow> None
            | Some (start, s) \<Rightarrow> map_option (\<lambda>(code, _, _). (Some code, s)) (njs_utf8_decode idle_ctx start)))"

end
