(* ===== verification/Njs_String_Methods.thy ===== *)
theory Njs_String_Methods
  imports Njs_String
begin

section \<open>Searching, trimming, case, repetition and padding (src/src/njs_string.c)\<close>

text \<open>
  The other methods of strings that need no regular expression.  \<open>search\<close> is the argument, already
  converted to a string.
\<close>

subsection \<open>Searching\<close>

text \<open>\<open>memcmp\<close> of the needle with the bytes at a pointer that has room for it.\<close>

definition matches :: "u_char list \<Rightarrow> u_char list \<Rightarrow> bool" where
  "matches p needle \<longleftrightarrow> take (length needle) p = needle"

text \<open>\<open>end -= search->size - 1\<close>: a pointer is before \<open>end\<close> when the needle fits behind it.\<close>

fun index_loop_ascii :: "u_char list \<Rightarrow> u_char list \<Rightarrow> nat \<Rightarrow> int" where
  "index_loop_ascii needle [] index = - 1"
| "index_loop_ascii needle (c # p) index =
     (if length needle \<le> length (c # p) then
        (if matches (c # p) needle then int index else index_loop_ascii needle p (index + 1))
      else - 1)"

text \<open>\<open>njs_utf8_next(p, end)\<close> with the end before the last \<open>k\<close> bytes.\<close>

definition next_before :: "nat \<Rightarrow> u_char list \<Rightarrow> u_char list option" where
  "next_before k p = map_option (\<lambda>r. r @ drop (length p - k) p) (njs_utf8_next (take (length p - k) p))"

lemma next_before_shorter: "next_before k p = Some r \<Longrightarrow> length r < length p"
  by (auto simp: next_before_def dest!: utf8_next_shorter)

function index_loop_utf8 :: "u_char list \<Rightarrow> u_char list \<Rightarrow> nat \<Rightarrow> int option" where
  "index_loop_utf8 needle p index =
     (if length needle - 1 < length p then
        (if matches p needle then Some (int index)
         else
           (case next_before (length needle - 1) p of
              None \<Rightarrow> None
            | Some p \<Rightarrow> index_loop_utf8 needle p (index + 1)))
      else Some (- 1))"
  by pat_completeness auto
termination by (relation "measure (\<lambda>(needle, p, index). length p)") (auto dest: next_before_shorter)

declare index_loop_utf8.simps [simp del]

definition njs_string_index_of :: "njs_string \<Rightarrow> njs_string \<Rightarrow> nat \<Rightarrow> (int \<times> njs_string) option" where
  "njs_string_index_of s search from =
     (if str_length search = 0 \<and> from \<le> str_length s then Some (int from, s)
      else if (int (str_length s) - int from) mod 2 ^ 64 \<ge> int (str_length search) then
        (if str_size s = str_length s then Some (index_loop_ascii (str_start search) (drop from (str_start s)) from, s)
         else
           (case (if from < str_length s then njs_string_utf8_offset s from else Some ([], s)) of
              None \<Rightarrow> None
            | Some (p, s) \<Rightarrow> map_option (\<lambda>i. (i, s)) (index_loop_utf8 (str_start search) p from)))
      else Some (- 1, s))"

definition njs_string_prototype_index_of :: "njs_string \<Rightarrow> njs_string \<Rightarrow> js_arg list \<Rightarrow> (int \<times> njs_string) option" where
  "njs_string_prototype_index_of s search args =
     (let from = min (max (to_integer (njs_arg args 0)) 0) (int (prop_len s))
      in njs_string_index_of s search (nat from))"

text \<open>\<open>Some p\<close> is the position \<open>p\<close>, None the end of the loop before the start of the string.\<close>

fun last_loop_ascii :: "u_char list \<Rightarrow> u_char list \<Rightarrow> nat \<Rightarrow> int" where
  "last_loop_ascii needle bs 0 = (if matches bs needle then 0 else - 1)"
| "last_loop_ascii needle bs (Suc p) = (if matches (drop (Suc p) bs) needle then int (Suc p) else last_loop_ascii needle bs p)"

lemma utf8_prev_less: "njs_utf8_prev bs i < int i"
  by (induction bs i rule: njs_utf8_prev.induct) auto

function last_loop_utf8 :: "u_char list \<Rightarrow> u_char list \<Rightarrow> int \<Rightarrow> int \<Rightarrow> int" where
  "last_loop_utf8 needle bs p index =
     (if p \<ge> 0 then
        (if nat p + length needle \<le> length bs \<and> matches (drop (nat p) bs) needle then index
         else last_loop_utf8 needle bs (njs_utf8_prev bs (nat p)) (index - 1))
      else - 1)"
  by pat_completeness auto
termination
proof (relation "measure (\<lambda>(needle, bs, p, index). nat (p + 1))", goal_cases)
  case (2 needle bs p index)
  then show ?case using utf8_prev_less[of bs "nat p"] by simp
qed simp

declare last_loop_utf8.simps [simp del]

text \<open>The position is None when it converts to NaN.\<close>

definition njs_string_prototype_last_index_of :: "njs_string \<Rightarrow> njs_string \<Rightarrow> int option \<Rightarrow> (int \<times> njs_string) option" where
  "njs_string_prototype_last_index_of s search pos =
     (let start = (case pos of Some i \<Rightarrow> i | None \<Rightarrow> 2 ^ 63 - 1);
          len = int (prop_len s);
          start = min (max start 0) len;
          search_length = int (prop_len search);
          index = (if len - search_length > start then start else len - search_length)
      in if int (str_size s) = len then
           (let p = (if index > int (str_size s) - int (str_size search) then int (str_size s) - int (str_size search) else index)
            in Some (if p < 0 then - 1 else last_loop_ascii (str_start search) (str_start s) (nat p), s))
         else if index < 0 \<or> index = len then Some (if search_length = 0 then index else - 1, s)
         else
           (case njs_string_utf8_offset s (nat index) of
              None \<Rightarrow> None
            | Some (p, s) \<Rightarrow> Some (last_loop_utf8 (str_start search) (str_start s) (int (str_size s - length p)) index, s)))"

fun includes_loop :: "u_char list \<Rightarrow> u_char list \<Rightarrow> bool" where
  "includes_loop needle [] = False"
| "includes_loop needle (c # p) =
     (if length needle \<le> length (c # p) then matches (c # p) needle \<or> includes_loop needle p else False)"

text \<open>\<open>search\<close> is None when the method is called without an argument.\<close>

definition njs_string_prototype_includes :: "njs_string \<Rightarrow> njs_string option \<Rightarrow> js_arg list \<Rightarrow> (bool \<times> njs_string) option" where
  "njs_string_prototype_includes s search args =
     (case search of
        None \<Rightarrow> Some (False, s)
      | Some search \<Rightarrow>
          (let index = (if 0 < length args then (let i = to_integer (args ! 0) in if i < 0 then 0 else i) else 0)
           in if prop_len search = 0 then Some (True, s)
              else if int (prop_len s) - index \<ge> int (prop_len search) then
                (case njs_string_offset s (nat index) of
                   None \<Rightarrow> None
                 | Some (p, s) \<Rightarrow> Some (includes_loop (str_start search) p, s))
              else Some (False, s)))"

text \<open>\<open>given\<close> says whether there is an argument at all; \<open>search\<close> is \<open>"undefined"\<close> when there is none.\<close>

definition njs_string_prototype_starts_or_ends_with ::
    "bool \<Rightarrow> njs_string \<Rightarrow> bool \<Rightarrow> njs_string \<Rightarrow> js_arg \<Rightarrow> (bool \<times> njs_string) option" where
  "njs_string_prototype_starts_or_ends_with starts s given search pos =
     (let index = (case pos of JsUndefined \<Rightarrow> - 1 | JsInteger i \<Rightarrow> i); search_length = int (prop_len search); len = int (prop_len s)
      in if search_length = 0 then Some (True, s)
         else if \<not> given then Some (False, s)
         else
           (let index = (if starts then (if index < 0 then 0 else index)
                         else (if index < 0 \<or> index > len then len else index) - search_length)
            in if (if starts then len - index < search_length else index < 0) then Some (False, s)
               else
                 (case njs_string_offset s (nat index) of
                    None \<Rightarrow> None
                  | Some (p, s) \<Rightarrow> Some (length p \<ge> str_size search \<and> matches p (str_start search), s))))"

subsection \<open>Trimming\<close>

definition njs_is_whitespace :: "u_char \<Rightarrow> bool" where
  "njs_is_whitespace c \<longleftrightarrow> c \<in> {0x09, 0x0A, 0x0B, 0x0C, 0x0D, 0x20}"

text \<open>The bytes between \<open>start\<close> and \<open>end\<close>, and the number of characters taken off.\<close>

fun trim_start_ascii :: "u_char list \<Rightarrow> nat \<Rightarrow> u_char list \<times> nat" where
  "trim_start_ascii [] trim = ([], trim)"
| "trim_start_ascii (c # p) trim = (if njs_is_whitespace c then trim_start_ascii p (trim + 1) else (c # p, trim))"

definition trim_end_ascii :: "u_char list \<Rightarrow> nat \<Rightarrow> u_char list \<times> nat" where
  "trim_end_ascii p trim = (let (q, trim) = trim_start_ascii (rev p) trim in (rev q, trim))"

function trim_start_utf8 :: "njs_unicode_decode \<Rightarrow> u_char list \<Rightarrow> nat \<Rightarrow> (u_char list \<times> nat) option" where
  "trim_start_utf8 ctx p trim =
     (if p = [] then Some ([], trim)
      else
        (case njs_utf8_decode ctx p of
           None \<Rightarrow> None
         | Some (cp, ctx, r) \<Rightarrow> if njs_utf8_is_whitespace cp then trim_start_utf8 ctx r (trim + 1) else Some (p, trim)))"
  by pat_completeness auto
termination by (relation "measure (\<lambda>(ctx, p, trim). pending ctx p)") (auto dest: utf8_decode_pending)

declare trim_start_utf8.simps [simp del]

text \<open>\<open>bs\<close> are the bytes from \<open>start\<close> to \<open>end\<close>, \<open>prev\<close> a position in them.\<close>

function trim_end_utf8 :: "njs_unicode_decode \<Rightarrow> u_char list \<Rightarrow> nat \<Rightarrow> nat \<Rightarrow> (u_char list \<times> nat) option" where
  "trim_end_utf8 ctx bs prev trim =
     (if prev = 0 then Some ([], trim)
      else
        (let q = njs_utf8_prev bs prev
         in if q < 0 then None
            else
              (case njs_utf8_decode ctx (drop (nat q) bs) of
                 None \<Rightarrow> None
               | Some (cp, ctx, r) \<Rightarrow>
                   if njs_utf8_is_whitespace cp then trim_end_utf8 ctx bs (nat q) (trim + 1)
                   else Some (take (length bs - length r) bs, trim))))"
  by pat_completeness auto
termination
proof (relation "measure (\<lambda>(ctx, bs, prev, trim). prev)", goal_cases)
  case (2 ctx bs prev trim)
  then show ?case using utf8_prev_less[of bs prev] by auto
qed simp

declare trim_end_utf8.simps [simp del]

definition njs_string_trim :: "njs_string \<Rightarrow> bool \<Rightarrow> bool \<Rightarrow> (nat \<times> u_char list \<times> nat) option" where
  "njs_string_trim s trim_start trim_end =
     (let bs = str_start s in
      map_option (\<lambda>(bs, trim).
          (trim, bs, if bs = [] then 0 else if str_length s \<noteq> 0 then str_length s - trim else 0))
        (if is_ascii s then
           (let (bs, trim) = (if trim_start then trim_start_ascii bs 0 else (bs, 0))
            in Some (if trim_end then trim_end_ascii bs trim else (bs, trim)))
         else
           (case (if trim_start then trim_start_utf8 idle_ctx bs 0 else Some (bs, 0)) of
              None \<Rightarrow> None
            | Some (bs, trim) \<Rightarrow> if trim_end then trim_end_utf8 idle_ctx bs (length bs) trim else Some (bs, trim))))"

definition njs_string_prototype_trim :: "string_env \<Rightarrow> njs_string \<Rightarrow> bool \<Rightarrow> bool \<Rightarrow> (codec_error + njs_string) option" where
  "njs_string_prototype_trim env s trim_start trim_end =
     (case njs_string_trim s trim_start trim_end of
        None \<Rightarrow> None
      | Some (trim, bytes, len) \<Rightarrow>
          if trim = 0 then Some (Inr s) else if bytes = [] then Some (Inr empty_string) else njs_string_new env bytes len)"

subsection \<open>Case\<close>

definition njs_lower_case :: "u_char \<Rightarrow> u_char" where
  "njs_lower_case c = (if 0x41 \<le> c \<and> c \<le> 0x5A then c OR 0x20 else c)"

definition njs_upper_case :: "u_char \<Rightarrow> u_char" where
  "njs_upper_case c = (if 0x61 \<le> c \<and> c \<le> 0x7A then c AND 0xDF else c)"

text \<open>The two passes: the size, then the bytes.  \<open>conv\<close> is \<open>njs_utf8_lower_case\<close> or \<open>njs_utf8_upper_case\<close>.\<close>

type_synonym case_conv = "u_char list \<Rightarrow> (uint32 \<times> u_char list) option"

fun case_size :: "case_conv \<Rightarrow> nat \<Rightarrow> u_char list \<Rightarrow> nat \<Rightarrow> nat option" where
  "case_size conv 0 p sz = Some sz"
| "case_size conv (Suc n) p sz = (case conv p of None \<Rightarrow> None | Some (code, p) \<Rightarrow> case_size conv n p (sz + njs_utf8_size code))"

fun case_write :: "case_conv \<Rightarrow> nat \<Rightarrow> u_char list \<Rightarrow> u_char list \<Rightarrow> u_char list option" where
  "case_write conv 0 p dst = Some dst"
| "case_write conv (Suc n) p dst =
     (case conv p of
        None \<Rightarrow> None
      | Some (code, p) \<Rightarrow> (case njs_utf8_encode code of None \<Rightarrow> None | Some bs \<Rightarrow> case_write conv n p (dst @ bs)))"

definition to_case :: "string_env \<Rightarrow> (u_char \<Rightarrow> u_char) \<Rightarrow> case_conv \<Rightarrow> njs_string \<Rightarrow> (codec_error + njs_string) option" where
  "to_case env ascii conv s =
     (if is_ascii s then njs_string_alloc env (str_size s) (str_length s) (map ascii (str_start s))
      else
        (case case_size conv (str_length s) (str_start s) 0 of
           None \<Rightarrow> None
         | Some sz \<Rightarrow>
             (case case_write conv (str_length s) (str_start s) [] of
                None \<Rightarrow> None
              | Some bytes \<Rightarrow> njs_string_alloc env sz (str_length s) bytes)))"

definition njs_string_prototype_to_lower_case :: "string_env \<Rightarrow> case_tables \<Rightarrow> njs_string \<Rightarrow> (codec_error + njs_string) option" where
  "njs_string_prototype_to_lower_case env tabs s = to_case env njs_lower_case (njs_utf8_lower_case tabs) s"

definition njs_string_prototype_to_upper_case :: "string_env \<Rightarrow> case_tables \<Rightarrow> njs_string \<Rightarrow> (codec_error + njs_string) option" where
  "njs_string_prototype_to_upper_case env tabs s = to_case env njs_upper_case (njs_utf8_upper_case tabs) s"

subsection \<open>Repetition and padding\<close>

definition INT64_MAX :: int where "INT64_MAX = 2 ^ 63 - 1"

definition njs_string_prototype_repeat :: "string_env \<Rightarrow> njs_string \<Rightarrow> js_arg list \<Rightarrow> (codec_error + njs_string) option" where
  "njs_string_prototype_repeat env s args =
     (let n = to_integer (njs_arg args 0)
      in if n < 0 \<or> n = INT64_MAX then Some (Inl (RangeErr ''invalid count value''))
         else if n = 0 \<or> str_size s = 0 then Some (Inr empty_string)
         else if n \<ge> int (NJS_STRING_MAX_LENGTH div str_size s) then Some (Inl invalid_length)
         else njs_string_alloc env (str_size s * nat n) (str_length s * nat n) (concat (replicate (nat n) (str_start s))))"

text \<open>
  \<open>padstr\<close> is None for \<open>undefined\<close>; it is returned because its map may have been filled.  First the
  division of the padding into whole copies of the padding string and bytes of one more, and the bytes in all.
\<close>

definition pad_division :: "njs_string \<Rightarrow> nat \<Rightarrow> (nat \<times> nat \<times> nat \<times> njs_string) option" where
  "pad_division pad_string padding =
     (if str_size pad_string > 1 then
        (let pad_length = prop_len pad_string; n = padding div pad_length; trunc = padding mod pad_length
         in if str_size pad_string \<noteq> pad_length then
              (case njs_string_utf8_offset pad_string trunc of
                 None \<Rightarrow> None
               | Some (e, pad_string) \<Rightarrow>
                   (let trunc = str_size pad_string - length e in Some (n, trunc, str_size pad_string * n + trunc, pad_string)))
            else Some (n, trunc, padding, pad_string))
      else Some (0, 0, padding, pad_string))"

definition pad_fill :: "njs_string \<Rightarrow> nat \<Rightarrow> nat \<Rightarrow> nat \<Rightarrow> u_char list" where
  "pad_fill pad_string n trunc padding =
     (if str_size pad_string = 1 then replicate padding (str_start pad_string ! 0)
      else concat (replicate n (str_start pad_string)) @ take trunc (str_start pad_string))"

definition njs_string_prototype_pad ::
    "string_env \<Rightarrow> bool \<Rightarrow> njs_string \<Rightarrow> js_arg list \<Rightarrow> njs_string option \<Rightarrow> ((codec_error + njs_string) \<times> njs_string option) option" where
  "njs_string_prototype_pad env pad_start s args padstr =
     (let len = int (prop_len s); new_length = (if 0 < length args then to_integer (args ! 0) else 0)
      in if new_length \<le> len then Some (Inr s, padstr)
         else if new_length \<ge> int NJS_STRING_MAX_LENGTH then Some (Inl invalid_length, padstr)
         else
           (let padding = nat (new_length - len);
                pad_string = (case padstr of None \<Rightarrow> \<lparr>str_start = [0x20], str_length = 1, str_map = []\<rparr> | Some p \<Rightarrow> p)
            in if str_size pad_string = 0 then Some (Inr s, padstr)
               else
                 (case pad_division pad_string padding of
                    None \<Rightarrow> None
                  | Some (n, trunc, padding, pad_string) \<Rightarrow>
                      (let fill = pad_fill pad_string n trunc padding
                       in if length fill \<noteq> padding then None
                          else map_option (\<lambda>r. (r, map_option (\<lambda>_. pad_string) padstr))
                                 (njs_string_alloc env (str_size s + padding) (nat new_length)
                                    (if pad_start then fill @ str_start s else str_start s @ fill))))))"

end
