(* ===== verification/Njs_String_Text.thy ===== *)
theory Njs_String_Text
  imports Njs_String_Methods Njs_Uri_Props
begin

section \<open>Characters and byte offsets of a text\<close>

text \<open>
  The position of a character in the bytes of a text, the steps forward and backward over
  characters, and that the bytes of a text occur in those of another only at a character.
\<close>

definition byte_off :: "uint32 list \<Rightarrow> nat \<Rightarrow> nat" where
  "byte_off us i = length (encode_all (take i us))"

lemma trail_mask: "c AND 0xC0 = 0x80 \<longleftrightarrow> is_trail c" for c :: u_char
proof -
  have "list_all (\<lambda>k. (word_of_nat k AND 0xC0 = (0x80 :: u_char)) = (128 \<le> k \<and> k < 192)) [0..<256]" by code_simp
  from list_all_uptD[OF this, of "unat c"] unat_byte[of c] have "(c AND 0xC0 = 0x80) = (128 \<le> unat c \<and> unat c < 192)" by simp
  then show ?thesis by (simp add: is_trail_def word_le_nat_alt) auto
qed

lemma high_mask: "c AND 0x80 \<noteq> 0 \<longleftrightarrow> 0x80 \<le> unat c" for c :: u_char
proof -
  have "list_all (\<lambda>k. (word_of_nat k AND 0x80 \<noteq> (0 :: u_char)) = (128 \<le> k)) [0..<256]" by code_simp
  from list_all_uptD[OF this, of "unat c"] unat_byte[of c] show ?thesis by simp
qed

lemma encode_shape:
  assumes "is_scalar u"
  obtains c ts where "njs_utf8_encode u = Some (c # ts)" "\<not> is_trail c" "list_all is_trail ts" "ts \<noteq> [] \<longleftrightarrow> 0x80 \<le> unat c"
proof -
  obtain c ts where e: "njs_utf8_encode u = Some (c # ts)" "valid_seq c ts" using encode_seq[OF assms] by blast
  then have "\<not> is_trail c \<and> list_all is_trail ts \<and> (ts \<noteq> [] \<longleftrightarrow> 0x80 \<le> unat c)"
    by (auto simp: valid_seq_def is_trail_def word_less_nat_alt word_le_nat_alt)
  then show thesis using that e(1) by blast
qed

text \<open>A text begins with no continuation byte.\<close>

definition starts_char :: "u_char list \<Rightarrow> bool" where
  "starts_char p \<longleftrightarrow> p = [] \<or> \<not> is_trail (hd p)"

lemma starts_char_text: "list_all is_scalar us \<Longrightarrow> starts_char (encode_all us)"
  by (cases us) (auto simp: starts_char_def elim!: encode_shape)

lemma skip_trail_text: "list_all is_trail ts \<Longrightarrow> starts_char r \<Longrightarrow> skip_trail (ts @ r) = r"
proof (induction ts)
  case Nil
  then show ?case by (cases r) (auto simp: starts_char_def trail_mask)
qed (auto simp: trail_mask)

lemma utf8_next_scalar:
  assumes "is_scalar u" "starts_char r"
  shows "njs_utf8_next (the (njs_utf8_encode u) @ r) = Some r"
proof -
  obtain c ts where e: "njs_utf8_encode u = Some (c # ts)" "\<not> is_trail c" "list_all is_trail ts" "ts \<noteq> [] \<longleftrightarrow> 0x80 \<le> unat c"
    using encode_shape[OF assms(1)] .
  then show ?thesis using skip_trail_text[OF e(3) assms(2)] by (auto simp: njs_utf8_next_def high_mask)
qed

lemma utf8_next_text: "list_all is_scalar (u # us) \<Longrightarrow> njs_utf8_next (encode_all (u # us)) = Some (encode_all us)"
  using utf8_next_scalar[of u "encode_all us"] starts_char_text[of us] by simp

lemma encode_all_append: "encode_all (us @ vs) = encode_all us @ encode_all vs"
  by (simp add: encode_all_def)

lemma text_split: "i \<le> length us \<Longrightarrow> encode_all us = encode_all (take i us) @ encode_all (drop i us)"
  by (metis append_take_drop_id encode_all_append)

lemma drop_byte_off: "drop (byte_off us i) (encode_all us) = encode_all (drop i us)"
  by (metis append_eq_conv_conj append_take_drop_id byte_off_def encode_all_append)

lemma take_byte_off: "take (byte_off us i) (encode_all us) = encode_all (take i us)"
  by (metis append_eq_conv_conj append_take_drop_id byte_off_def encode_all_append)

lemma byte_off_le: "byte_off us i \<le> length (encode_all us)"
  by (metis append_take_drop_id byte_off_def encode_all_append length_append le_add1)

lemma byte_off_add: "byte_off us (i + j) = byte_off us i + length (encode_all (take j (drop i us)))"
  by (simp add: byte_off_def take_add encode_all_append)

lemma byte_off_all: "byte_off us (length us) = length (encode_all us)"
  by (simp add: byte_off_def)

lemma text_nonempty: "list_all is_scalar us \<Longrightarrow> encode_all us = [] \<longleftrightarrow> us = []"
  by (cases us) (auto elim!: encode_shape)

lemma text_length_ge: "list_all is_scalar us \<Longrightarrow> length us \<le> length (encode_all us)"
  by (induction us) (auto elim!: encode_shape)

lemma scalar_drop: "list_all is_scalar us \<Longrightarrow> list_all is_scalar (drop i us)"
  by (metis append_take_drop_id list_all_append)

lemma scalar_take: "list_all is_scalar us \<Longrightarrow> list_all is_scalar (take i us)"
  by (metis append_take_drop_id list_all_append)

lemma utf8_skip_text: "list_all is_scalar us \<Longrightarrow> n \<le> length us \<Longrightarrow> utf8_skip n (encode_all us) = Some (encode_all (drop n us))"
proof (induction n arbitrary: us)
  case (Suc n)
  then obtain u vs where us: "us = u # vs" by (cases us) auto
  then show ?case using Suc utf8_next_text[of u vs] by simp
qed simp

subsection \<open>Backward\<close>

lemma utf8_prev_trails:
  assumes "list_all is_trail ts" "\<not> is_trail c"
  shows "njs_utf8_prev (p @ c # ts @ r) (length p + 1 + length ts) = int (length p)"
  using assms(1)
proof (induction ts arbitrary: r rule: rev_induct)
  case Nil
  then show ?case using assms(2) by (simp add: trail_mask nth_append)
next
  case (snoc t ts)
  have "(p @ c # (ts @ [t]) @ r) ! (length p + 1 + length ts) = t" by (simp add: nth_append nth_Cons' )
  then show ?case using snoc.IH[of "t # r"] snoc.prems by (simp add: trail_mask)
qed

lemma utf8_prev_text:
  assumes "list_all is_scalar us" "i < length us"
  shows "njs_utf8_prev (encode_all us) (byte_off us (Suc i)) = int (byte_off us i)"
proof -
  have u: "is_scalar (us ! i)" using assms by (simp add: list_all_length)
  obtain c ts where e: "njs_utf8_encode (us ! i) = Some (c # ts)" "\<not> is_trail c" "list_all is_trail ts" using encode_shape[OF u] by metis
  have "us = take i us @ us ! i # drop (Suc i) us" using assms(2) by (rule id_take_nth_drop)
  then have t: "encode_all us = encode_all (take i us) @ c # ts @ encode_all (drop (Suc i) us)"
    using e(1) by (metis append.assoc append_Cons encode_all_append encode_all_simps(2) option.sel)
  have "take (Suc i) us = take i us @ [us ! i]" using assms(2) by (rule take_Suc_conv_app_nth)
  then have "byte_off us (Suc i) = length (encode_all (take i us)) + 1 + length ts" using e(1) by (simp add: byte_off_def encode_all_append)
  then show ?thesis using utf8_prev_trails[OF e(3,2), of "encode_all (take i us)" "encode_all (drop (Suc i) us)"] t by (simp add: byte_off_def)
qed

lemma utf8_prev_first: "njs_utf8_prev bs 0 = - 1"
  by simp

subsection \<open>Occurrences\<close>

lemma encode_prefix:
  assumes "list_all is_scalar us" "list_all is_scalar vs" "encode_all us = encode_all vs @ r"
  shows "\<exists>ws. us = vs @ ws \<and> r = encode_all ws"
  using assms
proof (induction vs arbitrary: us)
  case (Cons v vs)
  obtain bs where bs: "njs_utf8_encode v = Some bs" using is_scalar_encode Cons.prems(2) by auto
  then have "encode_all us \<noteq> []" using Cons.prems(3) encode_nonempty[OF bs] by auto
  then obtain u us' where us: "us = u # us'" using Cons.prems(1) by (cases us) auto
  obtain d where d: "njs_utf8_decode idle_ctx (bs @ encode_all vs @ r) = Some (v, d, encode_all vs @ r)"
    using decode_scalar[OF _ bs idle] Cons.prems(2) by (metis list.pred_inject(2))
  obtain d' where d': "njs_utf8_decode idle_ctx (encode_all us) = Some (u, d', encode_all us')"
    using scalar_head[OF _ idle] Cons.prems(1) us by metis
  have "encode_all us = bs @ encode_all vs @ r" using Cons.prems(3) bs by simp
  then have "u = v" "encode_all us' = encode_all vs @ r" using d d' by auto
  then show ?case using Cons.IH[of us'] Cons.prems us by auto
qed simp

lemma not_char_boundary:
  assumes "list_all is_scalar us" "p < length (encode_all us)" "\<not> is_trail (encode_all us ! p)"
  shows "\<exists>i < length us. p = byte_off us i"
  using assms
proof (induction us arbitrary: p)
  case (Cons u us)
  then obtain c ts where e: "njs_utf8_encode u = Some (c # ts)" "\<not> is_trail c" "list_all is_trail ts" using encode_shape by (metis list.pred_inject(2))
  show ?case
  proof (cases "p < length (c # ts)")
    case True
    have "p = 0"
    proof (rule ccontr)
      assume "p \<noteq> 0"
      then have "encode_all (u # us) ! p \<in> set ts" using True e(1) by (cases p) (auto simp: nth_append)
      then show False using Cons.prems(3) e(3) by (auto simp: list_all_iff)
    qed
    then show ?thesis by (intro exI[of _ 0]) (simp add: byte_off_def)
  next
    case False
    have "encode_all (u # us) = (c # ts) @ encode_all us" using e(1) by simp
    then have "p - length (c # ts) < length (encode_all us)" "\<not> is_trail (encode_all us ! (p - length (c # ts)))"
      using Cons.prems(2,3) False by (simp_all only: nth_append length_append) auto
    then obtain i where i: "i < length us" "p - length (c # ts) = byte_off us i" using Cons.IH Cons.prems(1) by auto
    have "byte_off (u # us) (Suc i) = length (c # ts) + byte_off us i" using e(1) by (simp add: byte_off_def)
    then show ?thesis using i False by (intro exI[of _ "Suc i"]) simp
  qed
qed simp

text \<open>The characters \<open>vs\<close> stand at position \<open>i\<close> of \<open>us\<close>.\<close>

definition occurs :: "uint32 list \<Rightarrow> uint32 list \<Rightarrow> nat \<Rightarrow> bool" where
  "occurs vs us i \<longleftrightarrow> i + length vs \<le> length us \<and> take (length vs) (drop i us) = vs"

lemma matches_text:
  assumes "list_all is_scalar us" "list_all is_scalar vs" "i \<le> length us"
  shows "matches (encode_all (drop i us)) (encode_all vs) \<longleftrightarrow> occurs vs us i"
proof
  assume "matches (encode_all (drop i us)) (encode_all vs)"
  then have "encode_all (drop i us) = encode_all vs @ drop (length (encode_all vs)) (encode_all (drop i us))"
    by (metis append_take_drop_id matches_def)
  then obtain ws where w: "drop i us = vs @ ws" using encode_prefix[OF scalar_drop[OF assms(1)] assms(2)] by blast
  then have "length us - i = length vs + length ws" by (metis length_append length_drop)
  then show "occurs vs us i" using assms(3) w by (simp add: occurs_def)
next
  assume "occurs vs us i"
  then have "drop i us = vs @ drop (length vs) (drop i us)" by (metis append_take_drop_id occurs_def)
  then show "matches (encode_all (drop i us)) (encode_all vs)" unfolding matches_def by (metis append_eq_conv_conj encode_all_append)
qed

lemma occurs_at_char:
  assumes "list_all is_scalar us" "list_all is_scalar vs" "vs \<noteq> []" "matches (drop p (encode_all us)) (encode_all vs)"
  shows "\<exists>i. p = byte_off us i \<and> occurs vs us i"
proof -
  have "encode_all vs \<noteq> []" using text_nonempty assms(2,3) by simp
  then obtain b bs where b: "encode_all vs = b # bs" by (cases "encode_all vs") auto
  then have "\<not> is_trail b" using starts_char_text[OF assms(2)] by (simp add: starts_char_def)
  have t: "take (length (b # bs)) (drop p (encode_all us)) = b # bs" using assms(4) by (simp add: matches_def b)
  then have "drop p (encode_all us) \<noteq> []" by auto
  then have l: "p < length (encode_all us)" by simp
  then have "encode_all us ! p = b" using t by (simp add: Cons_nth_drop_Suc[symmetric])
  then obtain i where i: "i < length us" "p = byte_off us i" using not_char_boundary[OF assms(1) l] \<open>\<not> is_trail b\<close> by blast
  then show ?thesis using assms(4) matches_text[OF assms(1,2), of i] by (auto simp: drop_byte_off)
qed

end
