(* ===== verification/Njs_String_Offset.thy ===== *)
theory Njs_String_Offset
  imports Njs_String_Text
begin

section \<open>The offset map of a string\<close>

text \<open>
  When the map of a string is as it should be, and that filling and using it are safe and right.
\<close>

definition map_filled :: "uint32 list \<Rightarrow> uint32 list \<Rightarrow> nat \<Rightarrow> bool" where
  "map_filled us m n \<longleftrightarrow> (\<forall>k < n. unat (m ! k) = byte_off us (32 * (k + 1)))"

definition has_map :: "uint32 list \<Rightarrow> bool" where
  "has_map us \<longleftrightarrow> length (encode_all us) \<noteq> length us \<and> 32 < length us"

definition map_ok :: "uint32 list \<Rightarrow> uint32 list \<Rightarrow> bool" where
  "map_ok us m \<longleftrightarrow>
     (if has_map us then length m = (length us - 1) div 32 \<and> (m ! 0 = 0 \<or> map_filled us m (length m)) else m = [])"

text \<open>The invariant of a string value: the text that it stands for.\<close>

definition string_text :: "njs_string \<Rightarrow> uint32 list \<Rightarrow> bool" where
  "string_text s us \<longleftrightarrow>
     list_all is_scalar us \<and> str_start s = encode_all us \<and> str_length s = length us \<and>
     length (encode_all us) \<le> NJS_STRING_MAX_LENGTH \<and> map_ok us (str_map s)"

lemmas stride = NJS_STRING_MAP_STRIDE_def

lemma prop_len_text: "string_text s us \<Longrightarrow> prop_len s = length us"
  using text_nonempty by (auto simp: string_text_def prop_len_def)

lemma is_ascii_text: "string_text s us \<Longrightarrow> is_ascii s \<longleftrightarrow> length (encode_all us) = length us"
  by (auto simp: string_text_def is_ascii_def)

lemma text_size: "string_text s us \<Longrightarrow> str_size s = length (encode_all us)"
  by (simp add: string_text_def)

lemma empty_text: "string_text empty_string []"
  by (simp add: string_text_def empty_string_def NJS_STRING_MAX_LENGTH_def map_ok_def has_map_def)

lemma new_map_ok: "map_ok us (njs_string_data_init env (length (encode_all us)) (length us))"
proof (cases "has_map us")
  case True
  then have "0 < (length us - 1) div 32" by (auto simp: has_map_def)
  then show ?thesis using True
    by (auto simp: map_ok_def njs_string_data_init_def has_map_def stride njs_string_map_size_def)
qed (auto simp: map_ok_def njs_string_data_init_def has_map_def stride)

lemma alloc_text:
  assumes "list_all is_scalar us" "length (encode_all us) \<le> NJS_STRING_MAX_LENGTH" "\<forall>n. alloc env n"
  obtains r where "njs_string_alloc env (length (encode_all us)) (length us) (encode_all us) = Some (Inr r)" "string_text r us"
  using assms new_map_ok[of us env] by (auto simp: njs_string_alloc_def string_text_def)

lemma new_text:
  assumes "list_all is_scalar us" "length (encode_all us) \<le> NJS_STRING_MAX_LENGTH" "\<forall>n. alloc env n"
  obtains r where "njs_string_new env (encode_all us) (length us) = Some (Inr r)" "string_text r us"
  using alloc_text[OF assms] by (auto simp: njs_string_new_def)

subsection \<open>Filling the map\<close>

lemma unat_offset: "n \<le> NJS_STRING_MAX_LENGTH \<Longrightarrow> unat (of_nat n :: uint32) = n"
  by (simp add: NJS_STRING_MAX_LENGTH_def unsigned_of_nat take_bit_nat_eq_self)

lemma offset_map_loop_correct:
  assumes "list_all is_scalar us" "length (encode_all us) \<le> NJS_STRING_MAX_LENGTH" "length m = (length us - 1) div 32"
    "j < length us" "j + offset = 32 * (n + 1)" "offset \<le> 32" "map_filled us m n"
  shows "\<exists>m'. offset_map_loop (length (encode_all us)) (encode_all (drop j us)) n offset m = Some m' \<and> length m' = length m \<and> map_filled us m' (length m')"
  using assms
proof (induction "length us - j" arbitrary: j n offset m)
  case (Suc l)
  have u: "drop j us = us ! j # drop (Suc j) us" using Suc.prems(4) by (simp add: Cons_nth_drop_Suc)
  have next': "njs_utf8_next (encode_all (drop j us)) = Some (encode_all (drop (Suc j) us))"
    using utf8_next_text[of "us ! j" "drop (Suc j) us"] scalar_drop[OF Suc.prems(1), of j] unfolding u by simp
  define n1 offset1 m1 where "n1 = (if offset = 0 then n + 1 else n)" and "offset1 = (if offset = 0 then 32 else offset)"
    and "m1 = (if offset = 0 then m[n := of_nat (byte_off us j)] else m)"
  have fits: "offset = 0 \<Longrightarrow> n < length m" using Suc.prems(3,4,5) by auto
  have off: "length (encode_all us) - length (encode_all (drop j us)) = byte_off us j"
    using text_split[of j us] Suc.prems(4) by (simp add: byte_off_def)
  have step: "offset_map_loop (length (encode_all us)) (encode_all (drop j us)) n offset m =
      (if encode_all (drop (Suc j) us) \<noteq> [] then offset_map_loop (length (encode_all us)) (encode_all (drop (Suc j) us)) n1 (offset1 - 1) m1 else Some m1)"
    using fits off by (subst offset_map_loop.simps) (simp add: next' map_set_def n1_def offset1_def m1_def stride)
  have inv: "length m1 = length m" "Suc j + (offset1 - 1) = 32 * (n1 + 1)" "offset1 - 1 \<le> 32" "0 < offset1" "offset1 \<le> 32"
    using Suc.prems(5,6) by (auto simp: m1_def n1_def offset1_def)
  have filled: "map_filled us m1 n1"
  proof (cases "offset = 0")
    case True
    have "byte_off us j \<le> NJS_STRING_MAX_LENGTH" using byte_off_le[of us j] Suc.prems(2) by linarith
    then show ?thesis using True Suc.prems(5,7) fits by (auto simp: map_filled_def m1_def n1_def unat_offset nth_list_update less_Suc_eq)
  qed (use Suc.prems(7) in \<open>simp add: m1_def n1_def\<close>)
  show ?case
  proof (cases "Suc j < length us")
    case True
    then have "encode_all (drop (Suc j) us) \<noteq> []" using text_nonempty[OF scalar_drop[OF Suc.prems(1)], of "Suc j"] by simp
    moreover have "l = length us - Suc j" using Suc.hyps(2) by simp
    then have "\<exists>m'. offset_map_loop (length (encode_all us)) (encode_all (drop (Suc j) us)) n1 (offset1 - 1) m1 = Some m' \<and> length m' = length m1 \<and> map_filled us m' (length m')"
      using Suc.hyps(1)[of "Suc j" m1 "offset1 - 1" n1] Suc.prems(1,2,3) True inv filled by simp
    ultimately show ?thesis using step inv(1) by simp
  next
    case False
    then have "drop (Suc j) us = []" by simp
    then have "offset_map_loop (length (encode_all us)) (encode_all (drop j us)) n offset m = Some m1" using step by simp
    moreover have "n1 = length m1"
    proof -
      have "Suc j = length us" using False Suc.prems(4) by simp
      then have "(length us - 1) = 32 * n1 + (32 - offset1)" "32 - offset1 < 32" using inv(2,4,5) by auto
      then have "(length us - 1) div 32 = n1" by simp
      then show ?thesis using inv(1) Suc.prems(3) by simp
    qed
    ultimately show ?thesis using filled inv(1) by simp
  qed
qed simp

lemma map_init_text:
  assumes "string_text s us" "has_map us"
  shows "\<exists>m. njs_string_utf8_offset_map_init (str_start s) (str_map s) = Some m \<and> length m = (length us - 1) div 32 \<and> map_filled us m (length m)"
proof -
  have t: "list_all is_scalar us" "str_start s = encode_all us" "length (encode_all us) \<le> NJS_STRING_MAX_LENGTH" "length (str_map s) = (length us - 1) div 32"
    using assms by (auto simp: string_text_def map_ok_def)
  have "0 < length us" using assms(2) by (auto simp: has_map_def)
  from offset_map_loop_correct[OF t(1,3,4) this, of 32 0] show ?thesis
    by (auto simp: njs_string_utf8_offset_map_init_def t(2,4) stride map_filled_def)
qed

text \<open>Whether it was filled before or not, the map is right when it is used.\<close>

lemma ensure_map_text:
  assumes "string_text s us" "has_map us"
  obtains m where "ensure_map (str_start s) (str_map s) = Some m" "length m = (length us - 1) div 32" "map_filled us m (length m)"
    "string_text (s\<lparr>str_map := m\<rparr>) us"
proof -
  have l: "length (str_map s) = (length us - 1) div 32" "str_map s ! 0 = 0 \<or> map_filled us (str_map s) (length (str_map s))"
    using assms by (auto simp: string_text_def map_ok_def)
  have "0 < (length us - 1) div 32" using assms(2) by (auto simp: has_map_def)
  then have ne: "str_map s \<noteq> []" using l(1) by auto
  obtain m where m: "ensure_map (str_start s) (str_map s) = Some m" "length m = (length us - 1) div 32" "map_filled us m (length m)"
    using map_init_text[OF assms] ne l by (cases "str_map s ! 0 = 0") (auto simp: ensure_map_def)
  then have "string_text (s\<lparr>str_map := m\<rparr>) us" using assms by (simp add: string_text_def map_ok_def)
  then show thesis using that m by blast
qed

subsection \<open>From an index to an offset\<close>

lemma utf8_offset_text:
  assumes "string_text s us" "\<not> is_ascii s" "i < length us"
  obtains s' where "njs_string_utf8_offset s i = Some (encode_all (drop i us), s')" "string_text s' us" "str_start s' = str_start s"
proof (cases "32 \<le> i")
  case True
  then have h: "has_map us" using assms is_ascii_text[OF assms(1)] by (auto simp: has_map_def)
  obtain m where m: "ensure_map (str_start s) (str_map s) = Some m" "length m = (length us - 1) div 32" "map_filled us m (length m)"
    "string_text (s\<lparr>str_map := m\<rparr>) us" using ensure_map_text[OF assms(1) h] .
  define k where "k = i div 32 - 1"
  have k: "k < length m" "32 * (k + 1) + i mod 32 = i" using True assms(3) m(2) by (auto simp: k_def)
  then have e: "unat (m ! k) = byte_off us (32 * (k + 1))" using m(3) by (simp add: map_filled_def)
  have t: "list_all is_scalar us" "str_start s = encode_all us" using assms(1) by (auto simp: string_text_def)
  have "i mod 32 \<le> length (drop (32 * (k + 1)) us)" using k(2) assms(3) by simp
  then have "utf8_skip (i mod 32) (encode_all (drop (32 * (k + 1)) us)) = Some (encode_all (drop (i mod 32) (drop (32 * (k + 1)) us)))"
    by (rule utf8_skip_text[OF scalar_drop[OF t(1)]])
  moreover have "drop (i mod 32) (drop (32 * (k + 1)) us) = drop i us" using k(2) by (metis add.commute drop_drop)
  moreover have "drop (unat (m ! k)) (str_start s) = encode_all (drop (32 * (k + 1)) us)" using e t(2) drop_byte_off by simp
  moreover have "\<not> str_size s < unat (m ! k)" using e t(2) byte_off_le by (simp add: not_less)
  ultimately have "njs_string_utf8_offset s i = Some (encode_all (drop i us), s\<lparr>str_map := m\<rparr>)"
    using True k(1) m(1) unfolding njs_string_utf8_offset_def stride Let_def k_def[symmetric] by simp
  then show thesis using that m(4) by simp
next
  case False
  then have "njs_string_utf8_offset s i = map_option (\<lambda>p. (p, s)) (utf8_skip i (str_start s))" by (simp add: njs_string_utf8_offset_def stride)
  then show thesis using that[of s] utf8_skip_text[of us i] assms by (auto simp: string_text_def)
qed

lemma ascii_off:
  assumes "list_all is_scalar us" "length (encode_all us) = length us" "i \<le> length us"
  shows "byte_off us i = i"
proof -
  have "length (encode_all us) = byte_off us i + length (encode_all (drop i us))" using text_split[OF assms(3)] by (simp add: byte_off_def)
  moreover have "i \<le> byte_off us i" using text_length_ge[OF scalar_take[OF assms(1)], of i] assms(3) by (simp add: byte_off_def)
  moreover have "length us - i \<le> length (encode_all (drop i us))" using text_length_ge[OF scalar_drop[OF assms(1)], of i] by simp
  ultimately show ?thesis using assms(2,3) by linarith
qed

lemma ascii_part:
  assumes "list_all is_scalar us" "length (encode_all us) = length us"
  shows "length (encode_all (take k (drop i us))) = length (take k (drop i us))"
proof -
  have d: "length (encode_all (drop j us)) = length (drop j us)" for j
  proof (cases "j \<le> length us")
    case True
    then show ?thesis using ascii_off[OF assms True] text_split[OF True] assms(2) by (simp add: byte_off_def)
  qed simp
  have "length (encode_all (drop i us)) = length (encode_all (take k (drop i us))) + length (encode_all (drop k (drop i us)))"
    by (metis append_take_drop_id encode_all_append length_append)
  then show ?thesis using d[of i] d[of "i + k"] by (simp add: add.commute)
qed

lemma ascii_drop:
  assumes "list_all is_scalar us" "length (encode_all us) = length us"
  shows "drop i (encode_all us) = encode_all (drop i us)"
proof (cases "i \<le> length us")
  case True
  then show ?thesis using drop_byte_off[of us i] ascii_off[OF assms] by simp
qed (use assms in simp)

lemma ascii_take:
  assumes "list_all is_scalar us" "length (encode_all us) = length us"
  shows "take k (drop i (encode_all us)) = encode_all (take k (drop i us))"
proof -
  have l: "length (encode_all (drop i us)) = length (drop i us)" using ascii_part[OF assms, of "length us" i] by simp
  have "take k (encode_all (drop i us)) = encode_all (take k (drop i us))"
  proof (cases "k \<le> length (drop i us)")
    case True
    then show ?thesis using take_byte_off[of "drop i us" k] ascii_off[OF scalar_drop[OF assms(1)] l True] by simp
  qed (use l in simp)
  then show ?thesis using ascii_drop[OF assms] by simp
qed

lemma string_offset_text:
  assumes "string_text s us" "i \<le> length us"
  obtains s' where "njs_string_offset s i = Some (encode_all (drop i us), s')" "string_text s' us" "str_start s' = str_start s"
proof (cases "is_ascii s")
  case True
  have t: "list_all is_scalar us" "str_start s = encode_all us" "length (encode_all us) = length us"
    using assms(1) True is_ascii_text[OF assms(1)] by (auto simp: string_text_def)
  then have "njs_string_offset s i = Some (encode_all (drop i us), s)"
    using ascii_drop[OF t(1,3), of i] True assms(2) by (simp add: njs_string_offset_def)
  then show thesis using that assms(1) by blast
next
  case False
  show thesis
  proof (cases "i = length us")
    case True
    then show thesis using that[of s] False assms(1) by (simp add: njs_string_offset_def string_text_def)
  next
    case less: False
    then have "i < length us" using assms(2) by simp
    from utf8_offset_text[OF assms(1) False this] obtain s' where "njs_string_utf8_offset s i = Some (encode_all (drop i us), s')"
      "string_text s' us" "str_start s' = str_start s" .
    moreover have "i \<noteq> str_length s" using less assms(1) by (simp add: string_text_def)
    ultimately show thesis using that False by (simp add: njs_string_offset_def)
  qed
qed

subsection \<open>From an offset to an index\<close>

lemma byte_off_mono: "i \<le> j \<Longrightarrow> byte_off us i \<le> byte_off us j"
  using byte_off_add[of us i "j - i"] by simp

lemma byte_off_strict:
  assumes "list_all is_scalar us" "i < j" "j \<le> length us"
  shows "byte_off us i < byte_off us j"
proof -
  have "take (j - i) (drop i us) \<noteq> []" using assms(2,3) by simp
  then have "encode_all (take (j - i) (drop i us)) \<noteq> []" using text_nonempty[OF scalar_take[OF scalar_drop[OF assms(1)]]] by blast
  then show ?thesis using byte_off_add[of us i "j - i"] assms(2) by simp
qed

lemma index_map_loop_text:
  assumes "list_all is_scalar us" "map_filled us m0 (length m0)" "length m0 = (length us - 1) div 32"
    "m = drop k m0" "lst = byte_off us (32 * k)" "32 * k \<le> i"
  shows "\<exists>k'. index_map_loop (length us) (byte_off us i) lst (32 * k) m = Some (byte_off us (32 * k'), 32 * k') \<and> 32 * k' \<le> i"
  using assms(4-6)
proof (induction m arbitrary: lst k)
  case Nil
  then have "length m0 \<le> k" by simp
  then have "\<not> 32 * k + 32 < length us" using assms(3) by linarith
  then show ?case using Nil by (auto simp: index_map_loop.simps stride)
next
  case (Cons e m)
  then have k: "k < length m0" "m0 ! k = e" "m = drop (Suc k) m0" by (metis drop_all list.distinct(1) not_less, metis hd_drop_conv_nth drop_all list.distinct(1) list.sel(1) not_less, metis drop_Suc list.sel(3) tl_drop)
  then have e: "unat e = byte_off us (32 * (k + 1))" using assms(2) by (auto simp: map_filled_def)
  show ?case
  proof (cases "32 * k + 32 < length us \<and> unat e \<le> byte_off us i")
    case True
    then have "32 * Suc k \<le> i"
      using e byte_off_strict[OF assms(1), of i "32 * (k + 1)"] by (cases "i < 32 * (k + 1)") auto
    then obtain k' where "index_map_loop (length us) (byte_off us i) (unat e) (32 * Suc k) m = Some (byte_off us (32 * k'), 32 * k')" "32 * k' \<le> i"
      using Cons.IH[OF k(3), of "unat e"] e by auto
    then show ?thesis using True by (subst index_map_loop.simps) (auto simp: stride add.commute)
  next
    case False
    then show ?thesis using Cons.prems(2,3) by (subst index_map_loop.simps) (auto simp: stride)
  qed
qed

lemma count_loop_text:
  assumes "list_all is_scalar us" "j \<le> i" "i \<le> length us"
  shows "count_loop (length (encode_all us) - byte_off us i) (encode_all (drop j us)) n = Some (n + (i - j))"
  using assms
proof (induction "i - j" arbitrary: j n)
  case 0
  then have "j = i" by simp
  moreover have "length (encode_all (drop i us)) = length (encode_all us) - byte_off us i"
    using text_split[OF 0(4)] by (simp add: byte_off_def)
  ultimately show ?case by (simp add: count_loop.simps)
next
  case (Suc d)
  then have j: "j < i" by simp
  have l: "length (encode_all (drop k us)) = length (encode_all us) - byte_off us k" if "k \<le> length us" for k
    using text_split[OF that] by (simp add: byte_off_def)
  have "byte_off us j < byte_off us i" "byte_off us i \<le> length (encode_all us)" using byte_off_strict[OF Suc.prems(1) j Suc.prems(3)] byte_off_le by auto
  then have lt: "length (encode_all us) - byte_off us i < length (encode_all (drop j us))" using l[of j] Suc.prems(3) j by simp
  have u: "drop j us = us ! j # drop (Suc j) us" using j Suc.prems(3) by (simp add: Cons_nth_drop_Suc)
  have "njs_utf8_next (encode_all (drop j us)) = Some (encode_all (drop (Suc j) us))"
    using utf8_next_text[of "us ! j" "drop (Suc j) us"] scalar_drop[OF Suc.prems(1), of j] unfolding u by simp
  then show ?case using lt Suc.hyps(1)[of "Suc j" "n + 1"] Suc.hyps(2) Suc.prems j by (subst count_loop.simps) simp
qed

lemma string_index_text:
  assumes "string_text s us" "i \<le> length us"
  obtains s' where "njs_string_index s (byte_off us i) = Some (i, s')" "string_text s' us"
proof -
  have t: "list_all is_scalar us" "str_start s = encode_all us" "str_length s = length us" using assms(1) by (auto simp: string_text_def)
  note count = count_loop_text[OF t(1) _ assms(2)]
  consider "length (encode_all us) = length us" | "length (encode_all us) \<noteq> length us" "\<not> 32 < length us" | "has_map us"
    by (auto simp: has_map_def)
  then show thesis
  proof cases
    case 1
    then show thesis using that[of s] assms(1) t ascii_off[OF t(1) 1 assms(2)] by (simp add: njs_string_index_def)
  next
    case 2
    then show thesis using that[of s] assms(1) t count[of 0 0] by (simp add: njs_string_index_def stride byte_off_def)
  next
    case 3
    obtain m where m: "ensure_map (str_start s) (str_map s) = Some m" "length m = (length us - 1) div 32" "map_filled us m (length m)"
      "string_text (s\<lparr>str_map := m\<rparr>) us" using ensure_map_text[OF assms(1) 3] .
    obtain k where k: "index_map_loop (length us) (byte_off us i) 0 0 m = Some (byte_off us (32 * k), 32 * k)" "32 * k \<le> i"
      using index_map_loop_text[OF t(1) m(3,2), of m 0 0 i] by (auto simp: byte_off_def)
    have "count_loop (length (encode_all us) - byte_off us i) (encode_all (drop (32 * k) us)) (32 * k) = Some i" using count[OF k(2)] k(2) by simp
    then have "njs_string_index s (byte_off us i) = Some (i, s\<lparr>str_map := m\<rparr>)"
      using 3 t m(1) k(1) drop_byte_off[of us "32 * k"] by (simp add: njs_string_index_def has_map_def stride)
    then show thesis using that m(4) by blast
  qed
qed

text \<open>
  C29.  Indexes and offsets.  In a valid string, whether its map was filled before or not, \<open>njs_string_offset\<close> finds the bytes of
  every character and of the end, and \<open>njs_string_index\<close> is its inverse.  The map is written
  inside of its block only, and stays right for every later call.
\<close>

theorem string_offset_index:
  assumes "string_text s us" "i \<le> length us"
  shows "\<exists>s1 s2. njs_string_offset s i = Some (drop (byte_off us i) (str_start s), s1) \<and> string_text s1 us \<and>
    njs_string_index s1 (byte_off us i) = Some (i, s2) \<and> string_text s2 us"
proof -
  obtain s1 where s1: "njs_string_offset s i = Some (encode_all (drop i us), s1)" "string_text s1 us" "str_start s1 = str_start s"
    using string_offset_text[OF assms] .
  moreover obtain s2 where "njs_string_index s1 (byte_off us i) = Some (i, s2)" "string_text s2 us"
    using string_index_text[OF s1(2) assms(2)] .
  moreover have "str_start s = encode_all us" using assms(1) by (simp add: string_text_def)
  ultimately show ?thesis by (simp add: drop_byte_off)
qed

lemma sample_text: "string_text \<lparr>str_start = encode_all (replicate 40 0xE9), str_length = 40, str_map = [0]\<rparr> (replicate 40 0xE9)"
proof -
  have "length (encode_all (replicate n 0xE9)) = 2 * n" for n by (induction n) (auto simp: njs_utf8_encode_def)
  then show ?thesis by (simp add: string_text_def NJS_STRING_MAX_LENGTH_def map_ok_def has_map_def list_all_iff is_scalar_unat)
qed

theorem string_offset_index_witness:
  "\<exists>s1 s2. njs_string_offset \<lparr>str_start = encode_all (replicate 40 0xE9), str_length = 40, str_map = [0]\<rparr> 35 =
      Some (drop (byte_off (replicate 40 0xE9) 35) (encode_all (replicate 40 0xE9)), s1) \<and> string_text s1 (replicate 40 0xE9) \<and>
    njs_string_index s1 (byte_off (replicate 40 0xE9) 35) = Some (35, s2) \<and> string_text s2 (replicate 40 0xE9)"
  using string_offset_index[OF sample_text, of 35] by simp

end
