(* ===== verification/Njs_String_Search.thy ===== *)
theory Njs_String_Search
  imports Njs_String_Offset
begin

section \<open>Searching in strings\<close>

text \<open>
  The search methods compare bytes; here is what that means for characters.  The first and the last
  occurrence, as functions of the characters:
\<close>

definition position :: "nat option \<Rightarrow> int" where
  "position r = (case r of None \<Rightarrow> - 1 | Some i \<Rightarrow> int i)"

definition index_spec :: "uint32 list \<Rightarrow> uint32 list \<Rightarrow> nat \<Rightarrow> int" where
  "index_spec vs us from = position (find (occurs vs us) [from..<Suc (length us)])"

definition last_index_spec :: "uint32 list \<Rightarrow> uint32 list \<Rightarrow> nat \<Rightarrow> int" where
  "last_index_spec vs us start = position (find (occurs vs us) (rev [0..<Suc start]))"

lemma drop_length_mono: "i \<le> j \<Longrightarrow> length (encode_all (drop j us)) \<le> length (encode_all (drop i us))"
proof -
  assume "i \<le> j"
  then have "drop j us = drop (j - i) (drop i us)" by simp
  then show ?thesis by (metis append_take_drop_id encode_all_append length_append le_add2)
qed

lemma occurs_fits: "occurs vs us j \<Longrightarrow> length (encode_all vs) \<le> length (encode_all (drop j us))"
  by (metis append_take_drop_id encode_all_append le_add1 length_append occurs_def)

lemma no_room:
  assumes "length (encode_all (drop i us)) < length (encode_all vs)" "i \<le> j"
  shows "\<not> occurs vs us j"
  using assms occurs_fits[of vs us j] drop_length_mono[of i j us] by linarith

lemma find_none: "(\<And>x. x \<in> set xs \<Longrightarrow> \<not> P x) \<Longrightarrow> find P xs = None"
  by (simp add: find_None_iff)

lemma index_spec_none: "(\<And>j. i \<le> j \<Longrightarrow> \<not> occurs vs us j) \<Longrightarrow> index_spec vs us i = - 1"
  unfolding index_spec_def by (subst find_none) (auto simp: position_def)

lemma index_spec_step: "i \<le> length us \<Longrightarrow> index_spec vs us i = (if occurs vs us i then int i else index_spec vs us (Suc i))"
  by (simp add: index_spec_def upt_conv_Cons position_def del: upt_Suc)

subsection \<open>Forward\<close>

lemma index_loop_ascii_text:
  assumes "list_all is_scalar us" "list_all is_scalar vs" "vs \<noteq> []" "length (encode_all us) = length us" "i \<le> length us"
  shows "index_loop_ascii (encode_all vs) (drop i (encode_all us)) i = index_spec vs us i"
  using assms(5)
proof (induction "length us - i" arbitrary: i)
  case 0
  then have "i = length us" by simp
  moreover have "\<not> occurs vs us j" if "i \<le> j" for j using that calculation assms(3) by (auto simp: occurs_def)
  ultimately show ?case using index_spec_none[of i vs us] assms(4) by simp
next
  case (Suc n)
  then have i: "i < length us" by simp
  have d: "drop i (encode_all us) = encode_all us ! i # drop (Suc i) (encode_all us)" using i assms(4) by (simp add: Cons_nth_drop_Suc)
  have e: "drop i (encode_all us) = encode_all (drop i us)" by (rule ascii_drop[OF assms(1,4)])
  have ih: "index_loop_ascii (encode_all vs) (drop (Suc i) (encode_all us)) (Suc i) = index_spec vs us (Suc i)"
    using Suc by simp
  show ?case
  proof (cases "length (encode_all vs) \<le> length (drop i (encode_all us))")
    case True
    have "index_loop_ascii (encode_all vs) (drop i (encode_all us)) i =
        (if matches (drop i (encode_all us)) (encode_all vs) then int i else index_loop_ascii (encode_all vs) (drop (Suc i) (encode_all us)) (Suc i))"
      using True unfolding d by simp
    then show ?thesis using ih matches_text[OF assms(1,2), of i] i e index_spec_step[of i us vs] by simp
  next
    case False
    then have "index_loop_ascii (encode_all vs) (drop i (encode_all us)) i = - 1" unfolding d by simp
    moreover have "\<not> occurs vs us j" if "i \<le> j" for j using no_room[OF _ that] False e by simp
    ultimately show ?thesis using index_spec_none by simp
  qed
qed

lemma starts_char_take: "starts_char r \<Longrightarrow> starts_char (take n r)"
  by (cases r; cases n) (auto simp: starts_char_def)

text \<open>The step to the next character stops at the end of the range, possibly inside a character.\<close>

lemma next_before_text:
  assumes "list_all is_scalar us" "i < length us" "k < length (encode_all (drop i us))"
  obtains r where "next_before k (encode_all (drop i us)) = Some r"
    "r = encode_all (drop (Suc i) us) \<or> length r = k \<and> length (encode_all (drop (Suc i) us)) < k"
proof -
  have u: "drop i us = us ! i # drop (Suc i) us" using assms(2) by (simp add: Cons_nth_drop_Suc)
  have sc: "is_scalar (us ! i)" "list_all is_scalar (drop (Suc i) us)" using scalar_drop[OF assms(1), of i] u by auto
  obtain c ts where e: "njs_utf8_encode (us ! i) = Some (c # ts)" "\<not> is_trail c" "list_all is_trail ts" "ts \<noteq> [] \<longleftrightarrow> 0x80 \<le> unat c"
    using encode_shape[OF sc(1)] .
  define r where "r = encode_all (drop (Suc i) us)"
  have p: "encode_all (drop i us) = c # ts @ r" unfolding u using e(1) by (simp add: r_def)
  define m where "m = length (encode_all (drop i us)) - k"
  have m: "0 < m" using assms(3) by (simp add: m_def)
  show thesis
  proof (cases "length (c # ts) \<le> m")
    case True
    have "take m (c # ts @ r) = the (njs_utf8_encode (us ! i)) @ take (m - length (c # ts)) r" using True m e(1) by (cases m) (auto simp: take_Cons')
    then have "njs_utf8_next (take m (c # ts @ r)) = Some (take (m - length (c # ts)) r)"
      using utf8_next_scalar[OF sc(1) starts_char_take[OF starts_char_text[OF sc(2)]]] by (simp add: r_def)
    moreover have "drop m (c # ts @ r) = drop (m - length (c # ts)) r" using True by (simp add: drop_Cons')
    ultimately have "next_before k (encode_all (drop i us)) = Some r"
      unfolding next_before_def m_def[symmetric] unfolding p by simp
    then show thesis using that[of r] by (simp add: r_def)
  next
    case False
    then have ts: "ts \<noteq> []" using m by auto
    have q: "take m (c # ts @ r) = c # take (m - 1) ts" using False m by (cases m) auto
    have "list_all is_trail (take (m - 1) ts)" using e(3) by (metis append_take_drop_id list_all_append)
    then have "skip_trail (take (m - 1) ts) = []" using skip_trail_text[of "take (m - 1) ts" "[]"] by (simp add: starts_char_def)
    then have "njs_utf8_next (take m (c # ts @ r)) = Some []" unfolding q using e(4) ts by (simp add: njs_utf8_next_def high_mask)
    then have "next_before k (encode_all (drop i us)) = Some (drop m (encode_all (drop i us)))"
      unfolding next_before_def m_def[symmetric] unfolding p by simp
    moreover have "length (drop m (encode_all (drop i us))) = k" using assms(3) by (simp add: m_def)
    moreover have "length r < k" using False p by (simp add: m_def)
    ultimately show thesis using that by (simp add: r_def)
  qed
qed

lemma index_loop_utf8_text:
  assumes "list_all is_scalar us" "list_all is_scalar vs" "vs \<noteq> []" "i \<le> length us"
  shows "index_loop_utf8 (encode_all vs) (encode_all (drop i us)) i = Some (index_spec vs us i)"
  using assms(4)
proof (induction "length us - i" arbitrary: i)
  case 0
  then have "i = length us" by simp
  moreover have "\<not> occurs vs us j" if "i \<le> j" for j using that calculation assms(3) by (auto simp: occurs_def)
  ultimately show ?case using index_spec_none[of i vs us] by (simp add: index_loop_utf8.simps)
next
  case (Suc n)
  then have i: "i < length us" by simp
  have ne: "0 < length (encode_all vs)" using assms(2,3) text_nonempty by blast
  have ih: "index_loop_utf8 (encode_all vs) (encode_all (drop (Suc i) us)) (Suc i) = Some (index_spec vs us (Suc i))" using Suc by simp
  show ?case
  proof (cases "length (encode_all vs) - 1 < length (encode_all (drop i us))")
    case True
    show ?thesis
    proof (cases "occurs vs us i")
      case occ: True
      then show ?thesis using True matches_text[OF assms(1,2), of i] i index_spec_step[of i us vs] by (subst index_loop_utf8.simps) simp
    next
      case False
      obtain r where r: "next_before (length (encode_all vs) - 1) (encode_all (drop i us)) = Some r"
        "r = encode_all (drop (Suc i) us) \<or> length r = length (encode_all vs) - 1 \<and> length (encode_all (drop (Suc i) us)) < length (encode_all vs) - 1"
        using next_before_text[OF assms(1) i True] .
      have "index_loop_utf8 (encode_all vs) (encode_all (drop i us)) i = index_loop_utf8 (encode_all vs) r (Suc i)"
        using True False matches_text[OF assms(1,2), of i] i r(1) by (subst index_loop_utf8.simps) simp
      also have "\<dots> = Some (index_spec vs us (Suc i))"
        using r(2)
      proof
        assume short: "length r = length (encode_all vs) - 1 \<and> length (encode_all (drop (Suc i) us)) < length (encode_all vs) - 1"
        then have "\<not> occurs vs us j" if "Suc i \<le> j" for j using no_room[OF _ that, of us vs] by linarith
        then have "index_spec vs us (Suc i) = - 1" by (rule index_spec_none)
        then show ?thesis using short by (subst index_loop_utf8.simps) simp
      qed (simp add: ih)
      finally show ?thesis using False index_spec_step[of i us vs] i by simp
    qed
  next
    case False
    then have "length (encode_all (drop i us)) < length (encode_all vs)" using ne by linarith
    then have "\<not> occurs vs us j" if "i \<le> j" for j using no_room[OF _ that] by simp
    then have "index_spec vs us i = - 1" by (rule index_spec_none)
    then show ?thesis using False by (subst index_loop_utf8.simps) simp
  qed
qed

lemma occurs_empty: "i \<le> length us \<Longrightarrow> occurs [] us i"
  by (simp add: occurs_def)

lemma index_of_text:
  assumes "string_text s us" "string_text t vs" "i \<le> length us"
  obtains s' where "njs_string_index_of s t i = Some (index_spec vs us i, s')" "string_text s' us"
proof -
  have S: "list_all is_scalar us" "str_start s = encode_all us" "str_length s = length us" "length us \<le> NJS_STRING_MAX_LENGTH"
    using assms(1) text_length_ge[of us] by (auto simp: string_text_def)
  have T: "list_all is_scalar vs" "str_start t = encode_all vs" "str_length t = length vs" using assms(2) by (auto simp: string_text_def)
  have wrap: "(int (length us) - int i) mod 2 ^ 64 = int (length us) - int i"
    using assms(3) S(4) by (intro mod_pos_pos_trivial) (auto simp: NJS_STRING_MAX_LENGTH_def)
  have r: "njs_string_index_of s t i =
      (if length vs = 0 \<and> i \<le> length us then Some (int i, s)
       else if int (length us) - int i \<ge> int (length vs) then
         (if length (encode_all us) = length us then Some (index_loop_ascii (encode_all vs) (drop i (encode_all us)) i, s)
          else (case (if i < length us then njs_string_utf8_offset s i else Some ([], s)) of
                  None \<Rightarrow> None
                | Some (p, s) \<Rightarrow> map_option (\<lambda>k. (k, s)) (index_loop_utf8 (encode_all vs) p i)))
       else Some (- 1, s))"
    unfolding njs_string_index_of_def S T wrap ..
  consider "vs = []" | "vs \<noteq> []" "int (length us) - int i < int (length vs)"
    | "vs \<noteq> []" "int (length vs) \<le> int (length us) - int i" "is_ascii s" | "vs \<noteq> []" "int (length vs) \<le> int (length us) - int i" "\<not> is_ascii s" by fastforce
  then show thesis
  proof cases
    case 1
    then show thesis using that[of s] assms(1,3) S T index_spec_step[of i us vs] occurs_empty by (simp add: r)
  next
    case 2
    then have "\<not> occurs vs us j" if "i \<le> j" for j using that by (auto simp: occurs_def)
    then have "index_spec vs us i = - 1" by (rule index_spec_none)
    then show thesis using that[of s] assms(1) 2 S T by (simp add: r)
  next
    case 3
    then have l: "length (encode_all us) = length us" using is_ascii_text[OF assms(1)] by simp
    then show thesis using that[of s] assms(1,3) 3 S T index_loop_ascii_text[OF S(1) T(1) _ l] by (simp add: r)
  next
    case 4
    then have i: "i < length us" using assms(3) by (cases "i = length us") auto
    have l: "length (encode_all us) \<noteq> length us" using is_ascii_text[OF assms(1)] 4(3) by simp
    obtain s' where o: "njs_string_utf8_offset s i = Some (encode_all (drop i us), s')" "string_text s' us"
      using utf8_offset_text[OF assms(1) 4(3) i] by blast
    then show thesis using that[of s'] 4 S T i l index_loop_utf8_text[OF S(1) T(1) 4(1) assms(3)] by (simp add: r)
  qed
qed

subsection \<open>Backward\<close>

lemma last_spec_step: "last_index_spec vs us (Suc i) = (if occurs vs us (Suc i) then int (Suc i) else last_index_spec vs us i)"
  by (simp add: last_index_spec_def position_def)

lemma last_spec_0: "last_index_spec vs us 0 = (if occurs vs us 0 then 0 else - 1)"
  by (simp add: last_index_spec_def position_def)

lemma last_spec_extend:
  assumes "p \<le> q" "\<And>j. p < j \<Longrightarrow> j \<le> q \<Longrightarrow> \<not> occurs vs us j"
  shows "last_index_spec vs us q = last_index_spec vs us p"
  using assms
proof (induction "q - p" arbitrary: q)
  case (Suc d)
  then obtain q' where q: "q = Suc q'" "d = q' - p" "p \<le> q'" by (cases q) auto
  then show ?case using Suc.hyps(1)[of q'] Suc.prems(2) last_spec_step[of vs us q'] by simp
qed simp

lemma last_spec_none: "(\<And>j. j \<le> i \<Longrightarrow> \<not> occurs vs us j) \<Longrightarrow> last_index_spec vs us i = - 1"
  unfolding last_index_spec_def by (subst find_none) (auto simp: position_def)

lemma last_loop_ascii_text:
  assumes "list_all is_scalar us" "list_all is_scalar vs" "length (encode_all us) = length us" "i \<le> length us"
  shows "last_loop_ascii (encode_all vs) (encode_all us) i = last_index_spec vs us i"
  using assms(4)
proof (induction i)
  case 0
  then show ?case using matches_text[OF assms(1,2), of 0] by (simp add: last_spec_0)
next
  case (Suc i)
  then show ?case using matches_text[OF assms(1,2), of "Suc i"] ascii_drop[OF assms(1,3), of "Suc i"] by (simp add: last_spec_step)
qed

lemma last_loop_utf8_text:
  assumes "list_all is_scalar us" "list_all is_scalar vs" "i < length us"
  shows "last_loop_utf8 (encode_all vs) (encode_all us) (int (byte_off us i)) (int i) = last_index_spec vs us i"
  using assms(3)
proof (induction i)
  case 0
  have "matches (encode_all us) (encode_all vs) \<Longrightarrow> length (encode_all vs) \<le> length (encode_all us)"
    unfolding matches_def by (metis length_take min.cobounded1 min.commute)
  moreover have "last_loop_utf8 (encode_all vs) (encode_all us) (- 1) (- 1) = - 1" by (simp add: last_loop_utf8.simps)
  ultimately show ?case using matches_text[OF assms(1,2), of 0] by (subst last_loop_utf8.simps) (auto simp: last_spec_0 byte_off_def)
next
  case (Suc i)
  have fits: "occurs vs us (Suc i) \<Longrightarrow> byte_off us (Suc i) + length (encode_all vs) \<le> length (encode_all us)"
    using occurs_fits[of vs us "Suc i"] text_split[of "Suc i" us] Suc.prems by (simp add: byte_off_def)
  have m: "matches (drop (byte_off us (Suc i)) (encode_all us)) (encode_all vs) \<longleftrightarrow> occurs vs us (Suc i)"
    using matches_text[OF assms(1,2), of "Suc i"] Suc.prems by (simp add: drop_byte_off)
  have "njs_utf8_prev (encode_all us) (byte_off us (Suc i)) = int (byte_off us i)" using utf8_prev_text[OF assms(1)] Suc.prems by simp
  then show ?case using m fits Suc by (subst last_loop_utf8.simps) (auto simp: last_spec_step)
qed

definition clamp_nat :: "nat \<Rightarrow> int \<Rightarrow> nat" where
  "clamp_nat len i = nat (min (max i 0) (int len))"

lemma last_index_of_text:
  assumes "string_text s us" "string_text t vs"
  shows "\<exists>s'. njs_string_prototype_last_index_of s t pos =
      Some (last_index_spec vs us (case pos of Some i \<Rightarrow> clamp_nat (length us) i | None \<Rightarrow> length us), s') \<and> string_text s' us"
proof -
  have S: "list_all is_scalar us" "str_start s = encode_all us" "length us \<le> NJS_STRING_MAX_LENGTH"
    using assms(1) text_length_ge[of us] by (auto simp: string_text_def)
  have T: "list_all is_scalar vs" "str_start t = encode_all vs" using assms(2) by (auto simp: string_text_def)
  define start where "start = (case pos of Some i \<Rightarrow> clamp_nat (length us) i | None \<Rightarrow> length us)"
  have start: "min (max (case pos of Some i \<Rightarrow> i | None \<Rightarrow> 2 ^ 63 - 1) 0) (int (length us)) = int start" "start \<le> length us"
    using S(3) by (auto simp: start_def clamp_nat_def NJS_STRING_MAX_LENGTH_def split: option.splits)
  define index where "index = (if int (length us) - int (length vs) > int start then int start else int (length us) - int (length vs))"
  have index: "index \<le> int start" "index \<le> int (length us) - int (length vs)" by (auto simp: index_def)
  have later: "\<not> occurs vs us j" if "index < int j" "j \<le> start" for j using that by (auto simp: index_def occurs_def split: if_splits)
  have r: "njs_string_prototype_last_index_of s t pos =
      (if int (length (encode_all us)) = int (length us) then
         (let p = (if index > int (length (encode_all us)) - int (length (encode_all vs)) then int (length (encode_all us)) - int (length (encode_all vs)) else index)
          in Some (if p < 0 then - 1 else last_loop_ascii (encode_all vs) (encode_all us) (nat p), s))
       else if index < 0 \<or> index = int (length us) then Some (if int (length vs) = 0 then index else - 1, s)
       else
         (case njs_string_utf8_offset s (nat index) of
            None \<Rightarrow> None
          | Some (p, s) \<Rightarrow> Some (last_loop_utf8 (encode_all vs) (str_start s) (int (str_size s - length p)) index, s)))"
    unfolding njs_string_prototype_last_index_of_def Let_def prop_len_text[OF assms(1)] prop_len_text[OF assms(2)] start(1) S(2) T(2) index_def[symmetric] ..
  show ?thesis
  proof (cases "length (encode_all us) = length us")
    case True
    define p where "p = (if index > int (length us) - int (length (encode_all vs)) then int (length us) - int (length (encode_all vs)) else index)"
    have beyond: "\<not> occurs vs us j" if "p < int j" "j \<le> start" for j
    proof (cases "p = index")
      case False
      then have p: "p = int (length us) - int (length (encode_all vs))" by (simp add: p_def split: if_splits)
      show ?thesis
      proof
        assume "occurs vs us j"
        then have "length (encode_all vs) \<le> length (encode_all (drop j us))" by (rule occurs_fits)
        also have "\<dots> = length us - j" using ascii_drop[OF S(1) True, of j] True by (metis length_drop)
        finally show False using that(1) p \<open>occurs vs us j\<close> by (auto simp: occurs_def)
      qed
    qed (use later that in simp)
    have "last_index_spec vs us start = (if p < 0 then - 1 else last_loop_ascii (encode_all vs) (encode_all us) (nat p))"
    proof (cases "p < 0")
      case True
      then show ?thesis using last_spec_none[of start vs us] beyond by simp
    next
      case False
      have "p \<le> int start" using index(1) by (auto simp: p_def)
      then have "last_index_spec vs us start = last_index_spec vs us (nat p)" using False beyond by (intro last_spec_extend) auto
      then show ?thesis using False last_loop_ascii_text[OF S(1) T(1) True, of "nat p"] \<open>p \<le> int start\<close> start(2) by simp
    qed
    then show ?thesis using True assms(1) unfolding r start_def[symmetric] by (simp add: Let_def p_def)
  next
    case False
    show ?thesis
    proof (cases "index < 0 \<or> index = int (length us)")
      case True
      have "last_index_spec vs us start = (if int (length vs) = 0 then index else - 1)"
      proof (cases "vs = []")
        case nil: True
        then have "index = int (length us)" "start = length us" using True start(2) by (auto simp: index_def split: if_splits)
        moreover have "last_index_spec [] us j = int j" if "j \<le> length us" for j
          using that occurs_empty by (cases j) (auto simp: last_spec_0 last_spec_step)
        ultimately show ?thesis using nil by simp
      next
        case False
        then have "index < 0" using True index(2) by auto
        then show ?thesis using last_spec_none[of start vs us] later False by simp
      qed
      then show ?thesis using True False assms(1) unfolding r start_def[symmetric] by simp
    next
      case inside: False
      then have n: "nat index < length us" using index(2) by auto
      have "\<not> is_ascii s" using is_ascii_text[OF assms(1)] False by simp
      then obtain s' where o: "njs_string_utf8_offset s (nat index) = Some (encode_all (drop (nat index) us), s')" "string_text s' us" "str_start s' = str_start s"
        using utf8_offset_text[OF assms(1) _ n] by blast
      have "length (encode_all us) - length (encode_all (drop (nat index) us)) = byte_off us (nat index)"
        using text_split[of "nat index" us] n by (simp add: byte_off_def)
      then have "last_loop_utf8 (encode_all vs) (str_start s') (int (str_size s' - length (encode_all (drop (nat index) us)))) index = last_index_spec vs us (nat index)"
        using last_loop_utf8_text[OF S(1) T(1) n] o(3) S(2) inside by simp
      moreover have "last_index_spec vs us start = last_index_spec vs us (nat index)"
        using inside index(1) later by (intro last_spec_extend) auto
      ultimately show ?thesis using False inside o unfolding r start_def[symmetric] by simp
    qed
  qed
qed

subsection \<open>Inclusion\<close>

lemma includes_loop_iff: "needle \<noteq> [] \<Longrightarrow> includes_loop needle p \<longleftrightarrow> (\<exists>k. matches (drop k p) needle)"
proof (induction p)
  case Nil
  then show ?case by (simp add: matches_def)
next
  case (Cons c p)
  have fits: "matches q needle \<Longrightarrow> length needle \<le> length q" for q unfolding matches_def by (metis length_take min.cobounded1 min.commute)
  have "(\<exists>k. matches (drop k (c # p)) needle) \<longleftrightarrow> matches (c # p) needle \<or> (\<exists>k. matches (drop k p) needle)"
  proof
    assume "\<exists>k. matches (drop k (c # p)) needle"
    then obtain k where "matches (drop k (c # p)) needle" ..
    then show "matches (c # p) needle \<or> (\<exists>k. matches (drop k p) needle)" by (cases k) auto
  next
    assume "matches (c # p) needle \<or> (\<exists>k. matches (drop k p) needle)"
    then show "\<exists>k. matches (drop k (c # p)) needle" by (metis drop0 drop_Suc_Cons)
  qed
  moreover have "length needle \<le> length (c # p)" if "matches (c # p) needle \<or> (\<exists>k. matches (drop k p) needle)"
    using that fits[of "c # p"] fits[of "drop k p" for k] by (auto simp: le_Suc_eq) (metis diff_le_self le_trans length_drop)
  ultimately show ?case using Cons by auto
qed

lemma occurs_drop: "occurs vs (drop i us) j \<longleftrightarrow> i \<le> length us \<and> occurs vs us (i + j) \<or> length us < i \<and> vs = [] \<and> j = 0"
  by (cases "i \<le> length us") (auto simp: occurs_def add.commute)

lemma includes_text:
  assumes "list_all is_scalar us" "list_all is_scalar vs" "vs \<noteq> []" "i \<le> length us"
  shows "includes_loop (encode_all vs) (encode_all (drop i us)) \<longleftrightarrow> (\<exists>j \<ge> i. occurs vs us j)"
proof -
  have ne: "encode_all vs \<noteq> []" using assms(2,3) text_nonempty by blast
  have "(\<exists>k. matches (drop k (encode_all (drop i us))) (encode_all vs)) \<longleftrightarrow> (\<exists>j. occurs vs (drop i us) j)"
  proof
    assume "\<exists>k. matches (drop k (encode_all (drop i us))) (encode_all vs)"
    then show "\<exists>j. occurs vs (drop i us) j" using occurs_at_char[OF scalar_drop[OF assms(1)] assms(2,3)] by blast
  next
    assume "\<exists>j. occurs vs (drop i us) j"
    then obtain j where j: "occurs vs (drop i us) j" ..
    then have "matches (drop (byte_off (drop i us) j) (encode_all (drop i us))) (encode_all vs)"
      using matches_text[OF scalar_drop[OF assms(1)] assms(2), of j i] drop_byte_off[of "drop i us" j] by (simp add: occurs_def)
    then show "\<exists>k. matches (drop k (encode_all (drop i us))) (encode_all vs)" ..
  qed
  also have "\<dots> \<longleftrightarrow> (\<exists>j \<ge> i. occurs vs us j)"
    using assms(4) by (auto simp: occurs_drop) (metis le_add1, metis le_add_diff_inverse)
  finally show ?thesis using includes_loop_iff[OF ne] by simp
qed

text \<open>
  C32.  Searching.  For valid strings \<open>indexOf\<close> answers the first occurrence at or after the position and \<open>lastIndexOf\<close> the last one at
  or before it, as character indexes, or -1; \<open>includes\<close> says whether there is one, although it looks at
  every byte; \<open>startsWith\<close> and \<open>endsWith\<close> whether there is one at the position and before it.  An
  end position below 0 counts as the end of the string.
\<close>

theorem string_search:
  assumes "string_text s us" "string_text t vs"
  shows "(\<exists>s'. njs_string_prototype_index_of s t args = Some (index_spec vs us (clamp_nat (length us) (to_integer (njs_arg args 0))), s') \<and> string_text s' us) \<and>
    (\<exists>s'. njs_string_prototype_last_index_of s t pos =
       Some (last_index_spec vs us (case pos of Some i \<Rightarrow> clamp_nat (length us) i | None \<Rightarrow> length us), s') \<and> string_text s' us) \<and>
    (\<exists>s'. njs_string_prototype_includes s (Some t) args =
       Some (vs = [] \<or> (\<exists>j. to_integer (njs_arg args 0) \<le> int j \<and> occurs vs us j), s') \<and> string_text s' us) \<and>
    (\<exists>s'. njs_string_prototype_starts_or_ends_with True s True t p =
       Some (vs = [] \<or> occurs vs us (nat (to_integer p)), s') \<and> string_text s' us) \<and>
    (\<exists>s'. njs_string_prototype_starts_or_ends_with False s True t p =
       Some (let e = (case p of JsInteger i \<Rightarrow> if i < 0 \<or> i > int (length us) then length us else nat i | JsUndefined \<Rightarrow> length us)
             in vs = [] \<or> length vs \<le> e \<and> occurs vs us (e - length vs), s') \<and> string_text s' us)"
proof (intro conjI)
  have S: "list_all is_scalar us" and T: "list_all is_scalar vs" "str_start t = encode_all vs" using assms by (auto simp: string_text_def)
  note len = prop_len_text[OF assms(1)] prop_len_text[OF assms(2)]
  have offset: "\<exists>s'. njs_string_offset s i = Some (encode_all (drop i us), s') \<and> string_text s' us" if "i \<le> length us" for i
    using string_offset_text[OF assms(1) that] by metis
  have at: "length (encode_all (drop i us)) \<ge> str_size t \<and> matches (encode_all (drop i us)) (encode_all vs) \<longleftrightarrow> occurs vs us i" if "i \<le> length us" for i
    using matches_text[OF S T(1) that] occurs_fits[of vs us i] T(2) by auto
  show "\<exists>s'. njs_string_prototype_index_of s t args = Some (index_spec vs us (clamp_nat (length us) (to_integer (njs_arg args 0))), s') \<and> string_text s' us"
  proof -
    have "clamp_nat (length us) (to_integer (njs_arg args 0)) \<le> length us" by (simp add: clamp_nat_def)
    from index_of_text[OF assms this] show ?thesis
      unfolding njs_string_prototype_index_of_def Let_def len clamp_nat_def by metis
  qed
  show "\<exists>s'. njs_string_prototype_last_index_of s t pos =
       Some (last_index_spec vs us (case pos of Some i \<Rightarrow> clamp_nat (length us) i | None \<Rightarrow> length us), s') \<and> string_text s' us"
    by (rule last_index_of_text[OF assms])
  show "\<exists>s'. njs_string_prototype_includes s (Some t) args =
       Some (vs = [] \<or> (\<exists>j. to_integer (njs_arg args 0) \<le> int j \<and> occurs vs us j), s') \<and> string_text s' us"
  proof -
    define i where "i = to_integer (njs_arg args 0)"
    have idx: "(if 0 < length args then if to_integer (args ! 0) < 0 then 0 else to_integer (args ! 0) else 0) = max i 0"
      by (auto simp: i_def njs_arg_def)
    have ex: "(\<exists>j. i \<le> int j \<and> occurs vs us j) \<longleftrightarrow> (\<exists>j \<ge> nat (max i 0). occurs vs us j)" by (auto simp: nat_le_iff le_max_iff_disj)
    show ?thesis
    proof (cases "vs = []")
      case False
      show ?thesis
      proof (cases "int (length us) - max i 0 \<ge> int (length vs)")
        case True
        then have n: "nat (max i 0) \<le> length us" by auto
        obtain s' where "njs_string_offset s (nat (max i 0)) = Some (encode_all (drop (nat (max i 0)) us), s')" "string_text s' us" using offset[OF n] by blast
        then show ?thesis using True False includes_text[OF S T(1) False n] T(2) ex
          unfolding njs_string_prototype_includes_def option.case Let_def len idx unfolding i_def[symmetric] by simp
      next
        case small: False
        then have "\<not> occurs vs us j" if "nat (max i 0) \<le> j" for j using that by (auto simp: occurs_def)
        then show ?thesis using small False assms(1) ex unfolding njs_string_prototype_includes_def option.case Let_def len idx unfolding i_def[symmetric] by auto
      qed
    qed (use assms(1) len in \<open>simp add: njs_string_prototype_includes_def\<close>)
  qed
  show "\<exists>s'. njs_string_prototype_starts_or_ends_with True s True t p = Some (vs = [] \<or> occurs vs us (nat (to_integer p)), s') \<and> string_text s' us"
  proof -
    define i where "i = (if (case p of JsUndefined \<Rightarrow> - 1 | JsInteger i \<Rightarrow> i) < 0 then 0 else (case p of JsUndefined \<Rightarrow> - 1 | JsInteger i \<Rightarrow> i))"
    have i: "0 \<le> i" "nat i = nat (to_integer p)" by (auto simp: i_def split: js_arg.splits)
    show ?thesis
    proof (cases "vs \<noteq> [] \<and> \<not> int (length us) - i < int (length vs)")
      case True
      then have n: "nat i \<le> length us" using i(1) by auto
      obtain s' where "njs_string_offset s (nat i) = Some (encode_all (drop (nat i) us), s')" "string_text s' us" using offset[OF n] by blast
      then show ?thesis using True at[OF n] T(2) i(2)
        unfolding njs_string_prototype_starts_or_ends_with_def Let_def len if_True i_def[symmetric] by simp
    next
      case False
      then have "vs = [] \<or> \<not> occurs vs us (nat i)" using i(1) by (auto simp: occurs_def)
      then show ?thesis using False assms(1) i(2)
        unfolding njs_string_prototype_starts_or_ends_with_def Let_def len if_True i_def[symmetric] by auto
    qed
  qed
  show "\<exists>s'. njs_string_prototype_starts_or_ends_with False s True t p =
       Some (let e = (case p of JsInteger i \<Rightarrow> if i < 0 \<or> i > int (length us) then length us else nat i | JsUndefined \<Rightarrow> length us)
             in vs = [] \<or> length vs \<le> e \<and> occurs vs us (e - length vs), s') \<and> string_text s' us"
  proof -
    define e where "e = (case p of JsInteger i \<Rightarrow> if i < 0 \<or> i > int (length us) then length us else nat i | JsUndefined \<Rightarrow> length us)"
    have e: "(if (case p of JsUndefined \<Rightarrow> - 1 | JsInteger i \<Rightarrow> i) < 0 \<or> (case p of JsUndefined \<Rightarrow> - 1 | JsInteger i \<Rightarrow> i) > int (length us)
        then int (length us) else (case p of JsUndefined \<Rightarrow> - 1 | JsInteger i \<Rightarrow> i)) = int e" "e \<le> length us"
      by (auto simp: e_def split: js_arg.splits)
    show ?thesis
    proof (cases "vs \<noteq> [] \<and> length vs \<le> e")
      case True
      then have n: "e - length vs \<le> length us" "nat (int e - int (length vs)) = e - length vs" using e(2) by auto
      obtain s' where "njs_string_offset s (e - length vs) = Some (encode_all (drop (e - length vs) us), s')" "string_text s' us" using offset[OF n(1)] by blast
      then show ?thesis using True at[OF n(1)] T(2) n(2)
        unfolding njs_string_prototype_starts_or_ends_with_def Let_def len if_False e(1) e_def[symmetric] by simp
    next
      case False
      then show ?thesis using assms(1)
        unfolding njs_string_prototype_starts_or_ends_with_def Let_def len if_False e(1) e_def[symmetric] by auto
    qed
  qed
qed

theorem string_search_witness:
  "\<exists>s'. njs_string_prototype_last_index_of \<lparr>str_start = encode_all (replicate 40 0xE9), str_length = 40, str_map = [0]\<rparr>
      \<lparr>str_start = encode_all (replicate 40 0xE9), str_length = 40, str_map = [0]\<rparr> None = Some (0, s') \<and> string_text s' (replicate 40 0xE9)"
proof -
  have "last_index_spec (replicate 40 0xE9) (replicate 40 0xE9) (length (replicate 40 (0xE9 :: uint32))) = 0"
    by code_simp
  then show ?thesis using string_search[OF sample_text sample_text, of "[]" None JsUndefined] by auto
qed

end
