(* ===== verification/Njs_String_Props.thy ===== *)
theory Njs_String_Props
  imports Njs_String_Offset
begin

section \<open>The methods of strings against lists of characters\<close>

text \<open>
  What the methods answer in terms of the characters of a valid string.  The numbers are those of
  ECMAScript, with characters in the place of its code units.
\<close>

subsection \<open>Parts\<close>

definition returns :: "string_result \<Rightarrow> uint32 list \<Rightarrow> uint32 list \<Rightarrow> bool" where
  "returns res us vs \<longleftrightarrow> (\<exists>r s. res = Some (Inr r, s) \<and> string_text r vs \<and> string_text s us)"

lemma slice_end_text: "list_all is_scalar vs \<Longrightarrow> n \<le> length vs \<Longrightarrow> slice_end n (encode_all vs) = Some (0, encode_all (drop n vs))"
proof (induction n arbitrary: vs)
  case (Suc n)
  then obtain v ws where vs: "vs = v # ws" by (cases vs) auto
  then have "encode_all vs \<noteq> []" using text_nonempty Suc.prems(1) by blast
  then show ?case using Suc utf8_next_text[of v ws] vs by (subst slice_end.simps) (simp del: encode_all_simps)
qed (simp add: slice_end.simps)

lemma part_size:
  assumes "length (encode_all us) \<le> NJS_STRING_MAX_LENGTH"
  shows "length (encode_all (take k (drop i us))) \<le> NJS_STRING_MAX_LENGTH"
proof -
  have "encode_all us = encode_all (take i us) @ encode_all (take k (drop i us)) @ encode_all (drop k (drop i us))"
    by (metis append_take_drop_id encode_all_append)
  then have "length (encode_all (take k (drop i us))) \<le> length (encode_all us)" by simp
  then show ?thesis using assms by simp
qed

lemma slice_prop_text:
  assumes "string_text s us" "i + k \<le> length us"
  obtains s' where "njs_string_slice_string_prop s \<lparr>sl_start = i, sl_length = k, sl_string_length = length us\<rparr> =
      Some (encode_all (take k (drop i us)), k, s')" "string_text s' us"
proof -
  have t: "list_all is_scalar us" "str_start s = encode_all us" using assms(1) by (auto simp: string_text_def)
  consider "length (encode_all us) = length us" | "length (encode_all us) \<noteq> length us" "i < length us" | "length (encode_all us) \<noteq> length us" "i = length us" "k = 0"
    using assms(2) by (cases "i < length us") auto
  then show thesis
  proof cases
    case 1
    then show thesis using that[of s] assms ascii_take[OF t(1) 1] t(2) by (simp add: njs_string_slice_string_prop_def)
  next
    case 2
    then have "\<not> is_ascii s" using is_ascii_text[OF assms(1)] by simp
    then obtain s' where o: "njs_string_utf8_offset s i = Some (encode_all (drop i us), s')" "string_text s' us"
      using utf8_offset_text[OF assms(1) _ 2(2)] by blast
    have e: "slice_end k (encode_all (drop i us)) = Some (0, encode_all (drop k (drop i us)))"
      using slice_end_text[OF scalar_drop[OF t(1)]] assms(2) by simp
    have "take (length (encode_all (drop i us)) - length (encode_all (drop k (drop i us)))) (encode_all (drop i us)) = encode_all (take k (drop i us))"
      using take_byte_off[of "drop i us" k] by (metis append_take_drop_id byte_off_def diff_add_inverse2 encode_all_append length_append)
    then show thesis using that[of s'] 2 o e t(2) by (simp add: njs_string_slice_string_prop_def)
  next
    case 3
    then show thesis using that[of s] assms(1) t(2) by (simp add: njs_string_slice_string_prop_def)
  qed
qed

lemma slice_text:
  assumes "string_text s us" "i + k \<le> length us" "\<forall>n. alloc env n"
  shows "returns (njs_string_slice env s \<lparr>sl_start = i, sl_length = k, sl_string_length = length us\<rparr>) us (take k (drop i us))"
proof -
  obtain s' where s': "njs_string_slice_string_prop s \<lparr>sl_start = i, sl_length = k, sl_string_length = length us\<rparr> =
      Some (encode_all (take k (drop i us)), k, s')" "string_text s' us" using slice_prop_text[OF assms(1,2)] .
  have sc: "list_all is_scalar (take k (drop i us))" using assms(1) by (simp add: string_text_def scalar_take scalar_drop)
  have mx: "length (encode_all (take k (drop i us))) \<le> NJS_STRING_MAX_LENGTH" using assms(1) part_size by (simp add: string_text_def)
  obtain r where r: "njs_string_new env (encode_all (take k (drop i us))) (length (take k (drop i us))) = Some (Inr r)" "string_text r (take k (drop i us))"
    using new_text[OF sc mx assms(3)] .
  show ?thesis
  proof (cases "take k (drop i us) = []")
    case True
    then have "encode_all (take k (drop i us)) = []" by (simp only: encode_all_simps)
    then show ?thesis unfolding True returns_def njs_string_slice_def s'(1) using s'(2) empty_text by simp
  next
    case False
    then have "encode_all (take k (drop i us)) \<noteq> []" using text_nonempty[OF sc] by simp
    moreover have "length (take k (drop i us)) = k" using assms(2) by simp
    ultimately show ?thesis using s' r by (simp add: returns_def njs_string_slice_def)
  qed
qed

text \<open>The range of the methods in ECMAScript: from a position, relative to the end when negative, and to another.\<close>

definition relative :: "int \<Rightarrow> int \<Rightarrow> int" where
  "relative len i = (if i < 0 then max (len + i) 0 else min i len)"

definition clamp :: "int \<Rightarrow> int \<Rightarrow> int" where
  "clamp len i = min (max i 0) len"

definition part :: "uint32 list \<Rightarrow> int \<Rightarrow> int \<Rightarrow> uint32 list" where
  "part us from to = take (nat (to - from)) (drop (nat from) us)"

definition end_arg :: "js_arg list \<Rightarrow> nat \<Rightarrow> int \<Rightarrow> (int \<Rightarrow> int) \<Rightarrow> int" where
  "end_arg args n len f = (case njs_arg args n of JsUndefined \<Rightarrow> len | JsInteger i \<Rightarrow> f i)"

definition slice_spec :: "uint32 list \<Rightarrow> js_arg list \<Rightarrow> uint32 list" where
  "slice_spec us args = (let len = int (length us) in part us (relative len (to_integer (njs_arg args 0))) (end_arg args 1 len (relative len)))"

definition substring_spec :: "uint32 list \<Rightarrow> js_arg list \<Rightarrow> uint32 list" where
  "substring_spec us args =
     (let len = int (length us); a = clamp len (to_integer (njs_arg args 0)); b = end_arg args 1 len (clamp len)
      in part us (min a b) (max a b))"

definition substr_spec :: "uint32 list \<Rightarrow> js_arg list \<Rightarrow> uint32 list" where
  "substr_spec us args =
     (let len = int (length us); a = relative len (to_integer (njs_arg args 0)); n = end_arg args 1 len (clamp len)
      in part us a (min (a + n) len))"

lemma slice_args_range:
  assumes "length us = len"
  shows "\<exists>i k. njs_string_slice_args len args = \<lparr>sl_start = i, sl_length = k, sl_string_length = len\<rparr> \<and> i + k \<le> len \<and>
     take k (drop i us) = slice_spec us args"
proof -
  define l where "l = int len"
  define a where "a = to_integer (njs_arg args 0)"
  define e where "e = (case njs_arg args 1 of JsUndefined \<Rightarrow> l | JsInteger i \<Rightarrow> i)"
  define start where "start = (if a < 0 then (if a + l < 0 then 0 else a + l) else a)"
  define e1 where "e1 = (if e < 0 then e + l else e)"
  have r: "njs_string_slice_args len args =
      (let (s, n) = (if start \<ge> l then (0, 0) else if l \<ge> e1 then (if e1 - start < 0 then (0, 0) else (start, e1 - start)) else (start, l - start))
       in \<lparr>sl_start = nat s, sl_length = nat n, sl_string_length = len\<rparr>)"
    unfolding njs_string_slice_args_def Let_def l_def[symmetric] a_def[symmetric] unfolding e_def[symmetric] start_def[symmetric]
    unfolding e1_def[symmetric] ..
  have to: "slice_spec us args = part us (relative l a) (relative l e)"
    by (auto simp: slice_spec_def Let_def end_arg_def e_def relative_def l_def a_def assms split: js_arg.splits)
  have l: "0 \<le> l" by (simp add: l_def)
  consider (empty) "start \<ge> l \<or> e1 < start" | (upto) "start < l" "start \<le> e1" "e1 \<le> l" | (rest) "start < l" "l < e1" by linarith
  then show ?thesis
  proof cases
    case empty
    then have "relative l e \<le> relative l a" using l by (auto simp: relative_def start_def e1_def split: if_splits)
    moreover have "njs_string_slice_args len args = \<lparr>sl_start = 0, sl_length = 0, sl_string_length = len\<rparr>"
      unfolding r using empty by auto
    ultimately show ?thesis by (simp add: to part_def)
  next
    case upto
    then have "relative l a = start" "relative l e = e1" "0 \<le> start" using l by (auto simp: relative_def start_def e1_def split: if_splits)
    moreover have "njs_string_slice_args len args = \<lparr>sl_start = nat start, sl_length = nat (e1 - start), sl_string_length = len\<rparr>"
      unfolding r using upto by simp
    ultimately show ?thesis using upto by (simp add: to part_def l_def)
  next
    case rest
    then have "relative l a = start" "relative l e = l" "0 \<le> start" using l by (auto simp: relative_def start_def e1_def split: if_splits)
    moreover have "njs_string_slice_args len args = \<lparr>sl_start = nat start, sl_length = nat (l - start), sl_string_length = len\<rparr>"
      unfolding r using rest by simp
    ultimately show ?thesis using rest by (simp add: to part_def l_def)
  qed
qed

text \<open>An explicit \<open>undefined\<close> as the second argument is taken for 0 by \<open>substring\<close> and \<open>substr\<close>.\<close>

definition plain_args :: "js_arg list \<Rightarrow> bool" where
  "plain_args args \<longleftrightarrow> (1 < length args \<longrightarrow> args ! 1 \<noteq> JsUndefined)"

lemma args_cases:
  assumes "plain_args args"
  obtains "args = []" | x where "args = [x]" | x i r where "args = x # JsInteger i # r"
proof -
  have "args = [] \<or> (\<exists>x. args = [x]) \<or> (\<exists>x y r. args = x # y # r)" by (metis list.exhaust)
  then show thesis using that assms by (auto simp: plain_args_def) (metis js_arg.exhaust)
qed

lemma nat_part_le: "0 \<le> a \<Longrightarrow> a \<le> l \<Longrightarrow> b \<le> l \<Longrightarrow> l = int n \<Longrightarrow> nat a + nat (b - a) \<le> n"
  by auto

lemma clamp_bounds: "0 \<le> l \<Longrightarrow> 0 \<le> clamp l i \<and> clamp l i \<le> l" "0 \<le> l \<Longrightarrow> 0 \<le> relative l i \<and> relative l i \<le> l"
  by (auto simp: clamp_def relative_def)

lemma substring_args_range:
  assumes "length us = len" "plain_args args"
  shows "\<exists>i k. substring_args len args = \<lparr>sl_start = i, sl_length = k, sl_string_length = len\<rparr> \<and> i + k \<le> len \<and> take k (drop i us) = substring_spec us args"
proof -
  define l where "l = int len"
  define a where "a = clamp l (to_integer (njs_arg args 0))"
  define b where "b = end_arg args 1 l (clamp l)"
  have r: "substring_args len args = \<lparr>sl_start = nat (min a b), sl_length = nat (max a b - min a b), sl_string_length = len\<rparr>"
    using assms(2) by (rule args_cases) (auto simp: substring_args_def a_def b_def end_arg_def njs_arg_def clamp_def l_def Let_def)
  have "0 \<le> l" by (simp add: l_def)
  then have "0 \<le> a" "a \<le> l" "0 \<le> b" "b \<le> l" using clamp_bounds(1) by (auto simp: a_def b_def end_arg_def split: js_arg.splits)
  then have "nat (min a b) + nat (max a b - min a b) \<le> len" by (intro nat_part_le[OF _ _ _ l_def]) auto
  moreover have "substring_spec us args = take (nat (max a b - min a b)) (drop (nat (min a b)) us)"
    by (simp add: substring_spec_def part_def Let_def assms(1) l_def a_def b_def)
  ultimately show ?thesis unfolding r by (intro exI conjI) auto
qed

lemma substr_args_range:
  assumes "length us = len" "plain_args args"
  shows "\<exists>i k. substr_args len args = \<lparr>sl_start = i, sl_length = k, sl_string_length = len\<rparr> \<and> i + k \<le> len \<and> take k (drop i us) = substr_spec us args"
proof -
  define l where "l = int len"
  define a where "a = relative l (to_integer (njs_arg args 0))"
  define n where "n = end_arg args 1 l (clamp l)"
  have l: "0 \<le> l" by (simp add: l_def)
  have sp: "substr_spec us args = take (nat (min (a + n) l - a)) (drop (nat a) us)"
    by (simp add: substr_spec_def part_def Let_def assms(1) l_def a_def n_def)
  have b: "0 \<le> a" "a \<le> l" "0 \<le> n" "n \<le> l" using clamp_bounds[OF l] l by (auto simp: a_def n_def end_arg_def split: js_arg.splits)
  show ?thesis
  proof (cases "to_integer (njs_arg args 0) < l")
    case True
    then have "substr_args len args = \<lparr>sl_start = nat a, sl_length = nat (min (a + n) l - a), sl_string_length = len\<rparr>"
      using assms(2) l by (elim args_cases)
        (auto simp: substr_args_def a_def n_def end_arg_def njs_arg_def clamp_def relative_def l_def Let_def)
    moreover have "nat a + nat (min (a + n) l - a) \<le> len" using b by (intro nat_part_le[OF _ _ _ l_def]) auto
    ultimately show ?thesis unfolding sp by (intro exI conjI) auto
  next
    case False
    show ?thesis
    proof (cases "args = []")
      case True
      then have "l = 0" using False l by (simp add: njs_arg_def)
      then show ?thesis using True assms(1) sp by (simp add: substr_args_def l_def)
    next
      case args: False
      then have "substr_args len args = \<lparr>sl_start = 0, sl_length = 0, sl_string_length = len\<rparr>"
        using False by (simp add: substr_args_def l_def njs_arg_def Let_def)
      moreover have "a = l" using False l by (simp add: a_def relative_def)
      ultimately show ?thesis using sp b by simp
    qed
  qed
qed


lemma char_code_at_text:
  assumes "string_text s us" "i < length us"
  shows "\<exists>s'. (if prop_len s = str_size s then Some (Some (ucast (str_start s ! i)), s)
      else (case njs_string_utf8_offset s i of
              None \<Rightarrow> None
            | Some (start, s) \<Rightarrow> map_option (\<lambda>(code, _, _). (Some code, s)) (njs_utf8_decode idle_ctx start))) = Some (Some (us ! i), s') \<and> string_text s' us"
proof -
  have t: "list_all is_scalar us" "str_start s = encode_all us" using assms(1) by (auto simp: string_text_def)
  have u: "drop i us = us ! i # drop (Suc i) us" using assms(2) by (simp add: Cons_nth_drop_Suc)
  have sc: "list_all is_scalar (us ! i # drop (Suc i) us)" using scalar_drop[OF t(1), of i] u by simp
  obtain d where d: "njs_utf8_decode idle_ctx (encode_all (drop i us)) = Some (us ! i, d, encode_all (drop (Suc i) us))"
    using scalar_head[OF sc idle] u by metis
  show ?thesis
  proof (cases "is_ascii s")
    case True
    then have l: "length (encode_all us) = length us" using is_ascii_text[OF assms(1)] by simp
    obtain c ts where e: "njs_utf8_encode (us ! i) = Some (c # ts)" "ts \<noteq> [] \<longleftrightarrow> 0x80 \<le> unat c" using encode_shape sc by (metis list.pred_inject(2))
    have "length (encode_all (take 1 (drop i us))) = 1" using ascii_part[OF t(1) l, of 1 i] assms(2) by simp
    then have "ts = []" using e(1) u by simp
    then have c: "encode_all (drop i us) = c # encode_all (drop (Suc i) us)" "unat c < 0x80" using e u by auto
    then have "ucast c = us ! i" using d decode_ascii[OF c(2), of "encode_all (drop (Suc i) us)"] by auto
    moreover have "encode_all us ! i = c" using ascii_drop[OF t(1) l, of i] c(1) l assms(2) by (metis hd_drop_conv_nth list.sel(1))
    ultimately show ?thesis using assms(1) t(2) prop_len_text[OF assms(1)] l by simp
  next
    case False
    then have "length (encode_all us) \<noteq> length us" using is_ascii_text[OF assms(1)] by simp
    moreover obtain s' where "njs_string_utf8_offset s i = Some (encode_all (drop i us), s')" "string_text s' us"
      using utf8_offset_text[OF assms(1) False assms(2)] by blast
    ultimately show ?thesis using d t(2) prop_len_text[OF assms(1)] by simp
  qed
qed



text \<open>
  \<open>substring\<close> and \<open>substr\<close> take an explicit \<open>undefined\<close> for the number 0, where ECMAScript takes the
  end of the string.
\<close>

theorem undefined_end_is_zero:
  assumes "string_text s us" "\<forall>n. alloc env n"
  shows "returns (njs_string_prototype_substring env s [x, JsUndefined]) us (substring_spec us [x, JsInteger 0]) \<and>
    returns (njs_string_prototype_substr env s [x, JsUndefined]) us []"
proof -
  note len = prop_len_text[OF assms(1)]
  note slice = slice_text[OF assms(1) _ assms(2)]
  have p: "plain_args [x, JsInteger 0]" by (simp add: plain_args_def)
  have "substring_args n [x, JsUndefined] = substring_args n [x, JsInteger 0]" for n by (simp add: substring_args_def)
  then have "returns (njs_string_prototype_substring env s [x, JsUndefined]) us (substring_spec us [x, JsInteger 0])"
    using substring_args_range[OF refl p, of us] slice unfolding njs_string_prototype_substring_def len by metis
  moreover have "substr_args n [x, JsUndefined] = substr_args n [x, JsInteger 0]" for n by (simp add: substr_args_def Let_def)
  then have "returns (njs_string_prototype_substr env s [x, JsUndefined]) us (substr_spec us [x, JsInteger 0])"
    using substr_args_range[OF refl p, of us] slice unfolding njs_string_prototype_substr_def len by metis
  moreover have "substr_spec us [x, JsInteger 0] = []"
    by (simp add: substr_spec_def part_def end_arg_def njs_arg_def clamp_def Let_def)
  ultimately show ?thesis by simp
qed

theorem undefined_end_is_zero_witness:
  "returns (njs_string_prototype_substr \<lparr>alloc = \<lambda>n. True, junk = \<lambda>n. 7\<rparr> \<lparr>str_start = encode_all (replicate 40 0xE9), str_length = 40, str_map = [0]\<rparr>
      [JsInteger 1, JsUndefined]) (replicate 40 0xE9) [] \<and>
   substr_spec (replicate 40 0xE9) [JsInteger 1, JsUndefined] = replicate 39 0xE9"
proof -
  have "\<forall>n. alloc \<lparr>alloc = \<lambda>n. True, junk = \<lambda>n. 7\<rparr> n" by simp
  from undefined_end_is_zero[OF sample_text this] show ?thesis
    by (simp add: substr_spec_def part_def end_arg_def njs_arg_def relative_def)
qed

end
