(* ===== verification/Njs_String_More.thy ===== *)
theory Njs_String_More
  imports Njs_String_Props
begin

section \<open>Trimming, repetition and padding\<close>

subsection \<open>ASCII texts\<close>

lemma ascii_string_text:
  assumes "list_all is_scalar us" "length (encode_all us) = length us"
  shows "encode_all us = map ucast us \<and> list_all (\<lambda>u. unat u < 0x80) us"
  using assms
proof (induction us)
  case (Cons u us)
  obtain c ts where e: "njs_utf8_encode u = Some (c # ts)" "ts \<noteq> [] \<longleftrightarrow> 0x80 \<le> unat c" using encode_shape Cons.prems(1) by (metis list.pred_inject(2))
  have ge: "length us \<le> length (encode_all us)" using text_length_ge Cons.prems(1) by auto
  moreover have "length ts + length (encode_all us) = length us" using Cons.prems(2) e(1) by simp
  ultimately have "length ts = 0" by linarith
  then have l: "ts = []" "length (encode_all us) = length us" using Cons.prems(2) e(1) by auto
  then have c: "unat c < 0x80" "encode_all (u # us) = c # encode_all us" using e by auto
  obtain d where "njs_utf8_decode idle_ctx (encode_all (u # us)) = Some (u, d, encode_all us)" using scalar_head[OF Cons.prems(1) idle] by metis
  then have u: "ucast c = u" using decode_ascii[OF c(1), of "encode_all us"] c(2) by auto
  have "unat u = unat c" using u unat_byte_ucast[of c] by simp
  then have "unat u < 0x80" "ucast u = c" using c(1) unat_ucast_byte[of u] by (simp_all add: word_unat_eq_iff)
  then show ?case using Cons.IH Cons.prems(1) l(2) c(2) by auto
qed simp

lemma ascii_whitespace:
  assumes "unat u < 0x80"
  shows "njs_is_whitespace (ucast u) \<longleftrightarrow> njs_utf8_is_whitespace u"
proof -
  have "list_all (\<lambda>k. njs_is_whitespace (ucast (of_nat k :: uint32)) = njs_utf8_is_whitespace (of_nat k)) [0..<0x80]" by code_simp
  from list_all_uptD[OF this le0 assms] show ?thesis by simp
qed

subsection \<open>Trimming\<close>

definition trim_spec :: "bool \<Rightarrow> bool \<Rightarrow> uint32 list \<Rightarrow> uint32 list" where
  "trim_spec a b us =
     (let vs = (if a then dropWhile njs_utf8_is_whitespace us else us)
      in if b then rev (dropWhile njs_utf8_is_whitespace (rev vs)) else vs)"

lemma trim_start_ascii_while: "trim_start_ascii p n = (dropWhile njs_is_whitespace p, n + length (takeWhile njs_is_whitespace p))"
  by (induction p arbitrary: n) auto

lemma while_ucast:
  assumes "list_all (\<lambda>u. unat u < 0x80) us"
  shows "dropWhile njs_is_whitespace (map ucast us) = map ucast (dropWhile njs_utf8_is_whitespace us)"
    "length (takeWhile njs_is_whitespace (map ucast us)) = length (takeWhile njs_utf8_is_whitespace us)"
  using assms by (induction us) (auto simp: ascii_whitespace)

lemma trim_start_utf8_text:
  assumes "list_all is_scalar us" "need ctx = 0"
  shows "trim_start_utf8 ctx (encode_all us) n =
    Some (encode_all (dropWhile njs_utf8_is_whitespace us), n + length (takeWhile njs_utf8_is_whitespace us))"
  using assms
proof (induction us arbitrary: ctx n)
  case Nil
  then show ?case by (simp add: trim_start_utf8.simps)
next
  case (Cons u us)
  obtain d where d: "njs_utf8_decode ctx (encode_all (u # us)) = Some (u, d, encode_all us)" "need d = 0" using scalar_head[OF Cons.prems] by metis
  have "encode_all (u # us) \<noteq> []" using text_nonempty[OF Cons.prems(1)] by simp
  then show ?case using Cons d by (subst trim_start_utf8.simps) (auto simp del: encode_all_simps)
qed

lemma trim_end_utf8_text:
  assumes "list_all is_scalar us" "need ctx = 0" "i \<le> length us"
  shows "trim_end_utf8 ctx (encode_all us) (byte_off us i) n =
    Some (encode_all (rev (dropWhile njs_utf8_is_whitespace (rev (take i us)))), n + length (takeWhile njs_utf8_is_whitespace (rev (take i us))))"
  using assms(2,3)
proof (induction i arbitrary: ctx n)
  case 0
  then show ?case by (simp add: trim_end_utf8.simps byte_off_def)
next
  case (Suc i)
  have u: "drop i us = us ! i # drop (Suc i) us" using Suc.prems(2) by (simp add: Cons_nth_drop_Suc)
  have sc: "list_all is_scalar (us ! i # drop (Suc i) us)" using scalar_drop[OF assms(1), of i] u by simp
  obtain d where d: "njs_utf8_decode ctx (encode_all (drop i us)) = Some (us ! i, d, encode_all (drop (Suc i) us))" "need d = 0"
    using scalar_head[OF sc Suc.prems(1)] u by metis
  have pos: "0 < byte_off us (Suc i)" using byte_off_strict[OF assms(1), of i "Suc i"] Suc.prems(2) by simp
  have prev: "njs_utf8_prev (encode_all us) (byte_off us (Suc i)) = int (byte_off us i)" using utf8_prev_text[OF assms(1)] Suc.prems(2) by simp
  have cut: "length (encode_all us) - length (encode_all (drop (Suc i) us)) = byte_off us (Suc i)"
    using text_split[OF Suc.prems(2)] by (simp add: byte_off_def)
  have r: "rev (take (Suc i) us) = us ! i # rev (take i us)" using Suc.prems(2) by (simp add: take_Suc_conv_app_nth)
  have t: "encode_all (rev (us ! i # rev (take i us))) = encode_all (take (Suc i) us)" using r by (metis rev_rev_ident)
  show ?case
    using pos prev d Suc.IH[OF d(2)] Suc.prems(2) take_byte_off[of us "Suc i"] t unfolding r
    by (subst trim_end_utf8.simps) (simp add: Let_def drop_byte_off cut)
qed

lemma ascii_encode: "list_all (\<lambda>u. unat u < 0x80) us \<Longrightarrow> encode_all us = map ucast us"
  by (induction us) (simp_all add: encode_low word_less_nat_alt)

lemma while_lengths: "length (takeWhile P xs) = length xs - length (dropWhile P xs)" "length (dropWhile P xs) \<le> length xs"
  by (metis add_diff_cancel_right' length_append takeWhile_dropWhile_id) (rule length_dropWhile_le)

lemma list_all_while: "list_all P xs \<Longrightarrow> list_all P (dropWhile Q xs)"
  by (induction xs) auto

lemma trim_spec_all: "list_all P us \<Longrightarrow> list_all P (trim_spec a b us)"
  by (simp add: trim_spec_def Let_def list_all_while)

lemma trim_bytes:
  assumes "string_text s us"
  shows "njs_string_trim s a b = Some (length us - length (trim_spec a b us), encode_all (trim_spec a b us), length (trim_spec a b us))"
proof -
  let ?ws = njs_utf8_is_whitespace
  have t: "list_all is_scalar us" "str_start s = encode_all us" "str_length s = length us" using assms by (auto simp: string_text_def)
  define vs where "vs = (if a then dropWhile ?ws us else us)"
  have vs: "length vs \<le> length us" "list_all is_scalar vs" using t(1) by (auto simp: vs_def list_all_while intro: length_dropWhile_le)
  have spec: "trim_spec a b us = (if b then rev (dropWhile ?ws (rev vs)) else vs)" by (simp add: trim_spec_def vs_def)
  have le: "length (trim_spec a b us) \<le> length vs" unfolding spec using length_dropWhile_le[of ?ws "rev vs"] by simp
  have sc: "list_all is_scalar (trim_spec a b us)" by (rule trim_spec_all[OF t(1)])
  have fin: ?thesis if "(if is_ascii s then
           (let (bs, trim) = (if a then trim_start_ascii (str_start s) 0 else (str_start s, 0))
            in Some (if b then trim_end_ascii bs trim else (bs, trim)))
         else
           (case (if a then trim_start_utf8 idle_ctx (str_start s) 0 else Some (str_start s, 0)) of
              None \<Rightarrow> None
            | Some (bs, trim) \<Rightarrow> if b then trim_end_utf8 idle_ctx bs (length bs) trim else Some (bs, trim))) =
      Some (encode_all (trim_spec a b us), length us - length (trim_spec a b us))"
    unfolding njs_string_trim_def Let_def[of "str_start s"] that using t(3) text_nonempty[OF sc] vs(1) le by auto
  show ?thesis
  proof (cases "is_ascii s")
    case True
    then have l: "list_all (\<lambda>u. unat u < 0x80) us" using ascii_string_text[OF t(1)] is_ascii_text[OF assms] by simp
    then have lv: "list_all (\<lambda>u. unat u < 0x80) vs" by (simp add: vs_def list_all_while)
    have first: "(if a then trim_start_ascii (str_start s) 0 else (str_start s, 0)) = (map ucast vs, length us - length vs)"
      using while_ucast[OF l] t(2) ascii_encode[OF l] while_lengths(1)[of ?ws us] by (simp add: trim_start_ascii_while vs_def)
    have lr: "list_all (\<lambda>u. unat u < 0x80) (rev vs)" using lv by simp
    have "(if b then trim_end_ascii (map ucast vs) (length us - length vs) else (map ucast vs, length us - length vs)) =
        (map ucast (trim_spec a b us), length us - length (trim_spec a b us))"
      using while_ucast[OF lr] while_lengths[of ?ws "rev vs"] vs(1) by (simp add: spec trim_end_ascii_def trim_start_ascii_while Let_def rev_map)
    then show ?thesis using True first ascii_encode[OF trim_spec_all[OF l]] by (intro fin) simp
  next
    case False
    have first: "(if a then trim_start_utf8 idle_ctx (str_start s) 0 else Some (str_start s, 0)) = Some (encode_all vs, length us - length vs)"
      using trim_start_utf8_text[OF t(1) idle] t(2) while_lengths(1)[of ?ws us] by (simp add: vs_def)
    have "(if b then trim_end_utf8 idle_ctx (encode_all vs) (length (encode_all vs)) (length us - length vs) else Some (encode_all vs, length us - length vs)) =
        Some (encode_all (trim_spec a b us), length us - length (trim_spec a b us))"
      using trim_end_utf8_text[OF vs(2) idle order.refl] while_lengths[of ?ws "rev vs"] vs(1) by (simp add: spec byte_off_all)
    then show ?thesis using False first by (intro fin) simp
  qed
qed

lemma part_le_text:
  assumes "string_text s us" "us = xs @ vs @ ys"
  shows "length (encode_all vs) \<le> NJS_STRING_MAX_LENGTH"
  using assms by (simp add: string_text_def encode_all_append)

lemma trim_spec_part: "\<exists>xs ys. us = xs @ trim_spec a b us @ ys"
proof -
  define vs where "vs = (if a then dropWhile njs_utf8_is_whitespace us else us)"
  have "\<exists>xs. us = xs @ vs" unfolding vs_def by (metis append_Nil takeWhile_dropWhile_id)
  moreover have "\<exists>ys. vs = trim_spec a b us @ ys"
  proof (cases b)
    case True
    have "vs = rev (dropWhile njs_utf8_is_whitespace (rev vs)) @ rev (takeWhile njs_utf8_is_whitespace (rev vs))"
      by (metis rev_append rev_rev_ident takeWhile_dropWhile_id)
    then show ?thesis using True by (auto simp: trim_spec_def vs_def Let_def)
  qed (simp add: trim_spec_def vs_def)
  ultimately show ?thesis by metis
qed

lemma trim_text:
  assumes "string_text s us" "\<forall>n. alloc env n"
  shows "\<exists>r. njs_string_prototype_trim env s a b = Some (Inr r) \<and> string_text r (trim_spec a b us)"
proof -
  obtain xs ys where us: "us = xs @ trim_spec a b us @ ys" using trim_spec_part by blast
  have sc: "list_all is_scalar (trim_spec a b us)" using assms(1) by (simp add: string_text_def trim_spec_all)
  obtain r where r: "njs_string_new env (encode_all (trim_spec a b us)) (length (trim_spec a b us)) = Some (Inr r)" "string_text r (trim_spec a b us)"
    using new_text[OF sc part_le_text[OF assms(1) us] assms(2)] .
  have whole: "trim_spec a b us = us" if "length us - length (trim_spec a b us) = 0"
  proof -
    have "length us = length xs + length (trim_spec a b us) + length ys" by (subst us) simp
    then have "xs = []" "ys = []" using that by auto
    then show ?thesis using us by simp
  qed
  show ?thesis
    using r assms(1) whole empty_text text_nonempty[OF sc] by (auto simp: njs_string_prototype_trim_def trim_bytes[OF assms(1)])
qed

text \<open>The result of a method that makes a new string of a text: the string, or an error when it is too long.\<close>

definition gives :: "(codec_error + njs_string) option \<Rightarrow> uint32 list \<Rightarrow> bool" where
  "gives res vs \<longleftrightarrow>
     (if length (encode_all vs) \<le> NJS_STRING_MAX_LENGTH then \<exists>r. res = Some (Inr r) \<and> string_text r vs else res = Some (Inl invalid_length))"

lemma alloc_gives:
  assumes "list_all is_scalar vs" "\<forall>n. alloc env n"
  shows "gives (njs_string_alloc env (length (encode_all vs)) (length vs) (encode_all vs)) vs"
proof (cases "length (encode_all vs) \<le> NJS_STRING_MAX_LENGTH")
  case True
  then show ?thesis using alloc_text[OF assms(1) True assms(2)] by (auto simp: gives_def)
qed (simp add: gives_def njs_string_alloc_def)

subsection \<open>Repetition and padding\<close>

lemma encode_all_replicate: "encode_all (concat (replicate n us)) = concat (replicate n (encode_all us))"
  by (induction n) (simp_all add: encode_all_append)

lemma scalar_replicate: "list_all is_scalar us \<Longrightarrow> list_all is_scalar (concat (replicate n us))"
  by (induction n) auto

lemma replicate_lengths: "length (concat (replicate n xs)) = length xs * n"
  by (induction n) auto

lemma repeat_text:
  assumes "string_text s us" "\<forall>n. alloc env n"
  shows "let n = to_integer (njs_arg args 0); res = njs_string_prototype_repeat env s args
    in if n < 0 \<or> n = INT64_MAX then res = Some (Inl (RangeErr ''invalid count value''))
       else if us \<noteq> [] \<and> n \<noteq> 0 \<and> int (NJS_STRING_MAX_LENGTH div length (encode_all us)) \<le> n then res = Some (Inl invalid_length)
       else \<exists>r. res = Some (Inr r) \<and> string_text r (concat (replicate (nat n) us))"
proof -
  have t: "list_all is_scalar us" "str_start s = encode_all us" "str_length s = length us" using assms(1) by (auto simp: string_text_def)
  note ne = text_nonempty[OF t(1)]
  have ok: "gives (njs_string_alloc env (length (encode_all us) * n) (length us * n) (concat (replicate n (encode_all us)))) (concat (replicate n us))" for n
    using alloc_gives[OF scalar_replicate[OF t(1)] assms(2), of n] by (simp only: encode_all_replicate replicate_lengths)
  have fits: "length (encode_all (concat (replicate n us))) \<le> NJS_STRING_MAX_LENGTH" if "int n < int (NJS_STRING_MAX_LENGTH div length (encode_all us))" for n
  proof -
    have "length (encode_all us) * n \<le> length (encode_all us) * (NJS_STRING_MAX_LENGTH div length (encode_all us))" using that by simp
    also have "\<dots> \<le> NJS_STRING_MAX_LENGTH" by simp
    finally show ?thesis by (simp only: encode_all_replicate replicate_lengths)
  qed
  show ?thesis
  proof (cases "us = []")
    case True
    moreover have "concat (replicate n []) = []" for n by simp
    ultimately show ?thesis using empty_text t(2) by (auto simp: njs_string_prototype_repeat_def Let_def)
  next
    case False
    then show ?thesis using t ne empty_text ok[of "nat (to_integer (njs_arg args 0))"] fits[of "nat (to_integer (njs_arg args 0))"]
      by (auto simp: njs_string_prototype_repeat_def Let_def gives_def)
  qed
qed

text \<open>The padding: characters of the padding string, again and again from its start.\<close>

definition pad_text :: "uint32 list \<Rightarrow> nat \<Rightarrow> uint32 list" where
  "pad_text vs k = map (\<lambda>i. vs ! (i mod length vs)) [0..<k]"

lemma pad_text_split: "vs \<noteq> [] \<Longrightarrow> t < length vs \<Longrightarrow> pad_text vs (n * length vs + t) = concat (replicate n vs) @ take t vs"
proof (induction n)
  case 0
  then show ?case by (auto simp: pad_text_def intro!: nth_equalityI)
next
  case (Suc n)
  have "[0..<length vs + m] = [0..<length vs] @ map (\<lambda>i. i + length vs) [0..<m]" for m
    using upt_add_eq_append[of 0 "length vs" m] by (simp add: map_add_upt add.commute)
  from this[of "n * length vs + t"] have "[0..<Suc n * length vs + t] = [0..<length vs] @ map (\<lambda>i. i + length vs) [0..<n * length vs + t]"
    by (simp add: add.assoc)
  moreover have "map (\<lambda>i. vs ! (i mod length vs)) [0..<length vs] = vs" by (auto intro!: nth_equalityI)
  ultimately show ?case using Suc by (simp add: pad_text_def comp_def)
qed

lemma pad_text_eq: "vs \<noteq> [] \<Longrightarrow> pad_text vs k = concat (replicate (k div length vs) vs) @ take (k mod length vs) vs"
  using pad_text_split[of vs "k mod length vs" "k div length vs"] by simp

lemma pad_text_one: "pad_text [v] k = replicate k v"
  by (simp add: pad_text_def map_replicate_const)

lemma pad_text_scalar: "list_all is_scalar vs \<Longrightarrow> vs \<noteq> [] \<Longrightarrow> list_all is_scalar (pad_text vs k)"
  by (auto simp: pad_text_def list_all_length)

lemma pad_division_text:
  assumes "string_text p vs" "vs \<noteq> []"
  shows "\<exists>n t k p'. pad_division p padding = Some (n, t, k, p') \<and> string_text p' vs \<and>
    pad_fill p' n t k = encode_all (pad_text vs padding) \<and> k = length (encode_all (pad_text vs padding))"
proof -
  have t: "list_all is_scalar vs" "str_start p = encode_all vs" using assms(1) by (auto simp: string_text_def)
  have l: "length vs \<le> length (encode_all vs)" "encode_all vs \<noteq> []" using text_length_ge[OF t(1)] text_nonempty[OF t(1)] assms(2) by auto
  have m: "padding mod length vs < length vs" using assms(2) by simp
  note eq = pad_text_eq[OF assms(2), of padding]
  consider "length (encode_all vs) = 1" | "length (encode_all vs) > 1" "is_ascii p" | "length (encode_all vs) > 1" "\<not> is_ascii p"
    using l by (metis One_nat_def Suc_lessI length_greater_0_conv)
  then show ?thesis
  proof cases
    case 1
    then have "length vs = 1" using l assms(2) by (metis le_antisym length_0_conv less_one not_less)
    then obtain v where vs: "vs = [v]" by (auto simp: length_Suc_conv)
    obtain c where c: "encode_all vs = [c]" using 1 by (auto simp: length_Suc_conv)
    have "encode_all (replicate padding v) = replicate padding c" using c unfolding vs by (induction padding) auto
    then show ?thesis using 1 assms(1) t(2) c by (simp add: pad_division_def pad_fill_def vs pad_text_one)
  next
    case 2
    then have a: "length (encode_all vs) = length vs" using is_ascii_text[OF assms(1)] by simp
    have tk: "take (padding mod length vs) (encode_all vs) = encode_all (take (padding mod length vs) vs)" using ascii_take[OF t(1) a, of "padding mod length vs" 0] by simp
    have "length (encode_all (pad_text vs padding)) = padding"
      using a tk m unfolding eq by (simp add: encode_all_append encode_all_replicate replicate_lengths flip: tk) 
    then show ?thesis using 2 a assms(1) t(2) tk prop_len_text[OF assms(1)] eq
      by (simp add: pad_division_def pad_fill_def Let_def encode_all_append encode_all_replicate)
  next
    case 3
    obtain p' where p': "njs_string_utf8_offset p (padding mod length vs) = Some (encode_all (drop (padding mod length vs) vs), p')" "string_text p' vs" "str_start p' = str_start p"
      using utf8_offset_text[OF assms(1) 3(2) m] .
    have cut: "length (encode_all vs) - length (encode_all (drop (padding mod length vs) vs)) = byte_off vs (padding mod length vs)"
      using text_split[of "padding mod length vs" vs] m by (simp add: byte_off_def)
    have "length (encode_all vs) \<noteq> length vs" using 3(2) is_ascii_text[OF assms(1)] by simp
    then show ?thesis using 3(1) p' t(2) cut take_byte_off[of vs "padding mod length vs"] prop_len_text[OF assms(1)] eq
      by (simp add: pad_division_def pad_fill_def Let_def encode_all_append encode_all_replicate replicate_lengths byte_off_def)
  qed
qed

lemma space_text: "string_text \<lparr>str_start = [0x20], str_length = 1, str_map = []\<rparr> [0x20]"
  by (simp add: string_text_def is_scalar_unat njs_utf8_encode_def NJS_STRING_MAX_LENGTH_def map_ok_def has_map_def)

lemma pad_text_result:
  assumes "string_text s us" "string_text p vs" "vs \<noteq> []" "\<forall>n. alloc env n" "length us < nat l" "l < int NJS_STRING_MAX_LENGTH"
  shows "let fill = pad_text vs (nat l - length us)
    in \<exists>res p'. njs_string_prototype_pad env a s (JsInteger l # args) (Some p) = Some (res, Some p') \<and> string_text p' vs \<and>
         gives (Some res) (if a then fill @ us else us @ fill)"
proof -
  define fill where "fill = pad_text vs (nat l - length us)"
  have t: "list_all is_scalar us" "str_start s = encode_all us" using assms(1) by (auto simp: string_text_def)
  have v: "list_all is_scalar vs" "str_start p = encode_all vs" "encode_all vs \<noteq> []" using assms(2,3) text_nonempty by (auto simp: string_text_def)
  have k: "nat (l - int (length us)) = nat l - length us" and gt: "\<not> l \<le> int (length us)" using assms(5) by auto
  obtain n tr p' where d: "pad_division p (nat l - length us) = Some (n, tr, length (encode_all fill), p')" "string_text p' vs"
      "pad_fill p' n tr (length (encode_all fill)) = encode_all fill"
    using pad_division_text[OF assms(2,3), of "nat l - length us"] unfolding fill_def by blast
  have len: "length (if a then fill @ us else us @ fill) = nat l" using assms(5) by (auto simp: fill_def pad_text_def)
  have sc: "list_all is_scalar (if a then fill @ us else us @ fill)" using t(1) pad_text_scalar[OF v(1) assms(3)] by (simp add: fill_def)
  have bytes: "encode_all (if a then fill @ us else us @ fill) = (if a then encode_all fill @ encode_all us else encode_all us @ encode_all fill)"
    by (simp add: encode_all_append)
  define res where "res = njs_string_alloc env (length (encode_all us) + length (encode_all fill)) (nat l)
      (if a then encode_all fill @ encode_all us else encode_all us @ encode_all fill)"
  have g: "gives res (if a then fill @ us else us @ fill)" using alloc_gives[OF sc assms(4)] len bytes by (simp add: res_def add.commute split: if_splits)
  then obtain r where r: "res = Some r" by (auto simp: gives_def split: if_splits)
  have "njs_string_prototype_pad env a s (JsInteger l # args) (Some p) = Some (r, Some p')"
    using assms(6) gt v d r t(2) prop_len_text[OF assms(1)] unfolding res_def by (simp add: njs_string_prototype_pad_def k Let_def split: if_splits)
  then show ?thesis using d(2) g r unfolding fill_def[symmetric] Let_def by blast
qed

text \<open>
  C34.  Padding and repetition.  \<open>padStart\<close> and \<open>padEnd\<close> to a length that is more than the string's and below the
  limit put exactly the missing number of characters before or behind it, taken from the padding
  string again and again from its start, also when they end inside of it and its characters are of
  several bytes; the result has the new length, or there is a \<open>RangeError\<close> because its bytes are more than
  a string may have.  \<open>repeat\<close> answers the copies, and an error for each count that is not allowed.
\<close>

theorem string_pad_repeat:
  assumes "string_text s us" "string_text p vs" "\<forall>n. alloc env n"
  shows "(let res = njs_string_prototype_pad env a s (JsInteger l # args) (Some p); fill = pad_text vs (nat l - length us)
     in if l \<le> int (length us) \<or> vs = [] \<and> l < int NJS_STRING_MAX_LENGTH then res = Some (Inr s, Some p)
        else if int NJS_STRING_MAX_LENGTH \<le> l then res = Some (Inl invalid_length, Some p)
        else \<exists>r p'. res = Some (r, Some p') \<and> string_text p' vs \<and> gives (Some r) (if a then fill @ us else us @ fill) \<and>
               length fill + length us = nat l) \<and>
    (let n = to_integer (njs_arg args 0); res = njs_string_prototype_repeat env s args
     in if n < 0 \<or> n = INT64_MAX then res = Some (Inl (RangeErr ''invalid count value''))
        else if us \<noteq> [] \<and> n \<noteq> 0 \<and> int (NJS_STRING_MAX_LENGTH div length (encode_all us)) \<le> n then res = Some (Inl invalid_length)
        else \<exists>r. res = Some (Inr r) \<and> string_text r (concat (replicate (nat n) us)))"
proof (rule conjI[OF _ repeat_text[OF assms(1,3)]])
  have v: "str_start p = encode_all vs" "encode_all vs = [] \<longleftrightarrow> vs = []" using assms(2) text_nonempty by (auto simp: string_text_def)
  note len = prop_len_text[OF assms(1)]
  consider "l \<le> int (length us)" | "int (length us) < l" "int NJS_STRING_MAX_LENGTH \<le> l"
    | "int (length us) < l" "l < int NJS_STRING_MAX_LENGTH" "vs = []" | "int (length us) < l" "l < int NJS_STRING_MAX_LENGTH" "vs \<noteq> []" by linarith
  then show "let res = njs_string_prototype_pad env a s (JsInteger l # args) (Some p); fill = pad_text vs (nat l - length us)
     in if l \<le> int (length us) \<or> vs = [] \<and> l < int NJS_STRING_MAX_LENGTH then res = Some (Inr s, Some p)
        else if int NJS_STRING_MAX_LENGTH \<le> l then res = Some (Inl invalid_length, Some p)
        else \<exists>r p'. res = Some (r, Some p') \<and> string_text p' vs \<and> gives (Some r) (if a then fill @ us else us @ fill) \<and>
               length fill + length us = nat l"
  proof cases
    case 4
    then have "length us < nat l" by linarith
    moreover from this have "length (pad_text vs (nat l - length us)) + length us = nat l" by (simp add: pad_text_def)
    ultimately show ?thesis using 4 pad_text_result[OF assms(1,2) 4(3) assms(3) _ 4(2), of a args] unfolding Let_def by auto
  qed (use len v in \<open>simp_all add: njs_string_prototype_pad_def Let_def\<close>)
qed

theorem string_pad_repeat_witness:
  "\<exists>r p'. njs_string_prototype_pad \<lparr>alloc = \<lambda>n. True, junk = \<lambda>n. 7\<rparr> True empty_string [JsInteger 90]
      (Some \<lparr>str_start = encode_all (replicate 40 0xE9), str_length = 40, str_map = [0]\<rparr>) = Some (r, Some p') \<and>
    string_text p' (replicate 40 0xE9) \<and> gives (Some r) (replicate 90 0xE9)"
proof -
  have a: "\<forall>n. alloc \<lparr>alloc = \<lambda>n. True, junk = \<lambda>n. 7\<rparr> n" by simp
  have "pad_text (replicate 40 0xE9) 90 = replicate 90 (0xE9 :: uint32)" by (auto simp: pad_text_def intro!: nth_equalityI)
  then show ?thesis using string_pad_repeat[OF empty_text sample_text a, of True 90 "[]"] by (simp add: NJS_STRING_MAX_LENGTH_def Let_def)
qed



end
