(* ===== verification/Njs_String_Case.thy ===== *)
theory Njs_String_Case
  imports Njs_String_More Njs_Unicode_Lower Njs_Unicode_Upper
begin

section \<open>Lower and upper case\<close>

text \<open>
  What the tables say of a character.  The ASCII path does not read them, so that the two agree is a
  property of the tables.
\<close>

definition case_char :: "case_tables \<Rightarrow> uint32 \<Rightarrow> uint32" where
  "case_char tabs u =
     (if u < 0x80 then block_000 tabs ! unat u
      else if u \<le> max_case tabs then
        (case blocks tabs (unat u div block_size tabs) of Some block \<Rightarrow> block ! (unat u mod block_size tabs) | None \<Rightarrow> u)
      else u)"

definition tables_ok :: "(u_char \<Rightarrow> u_char) \<Rightarrow> case_tables \<Rightarrow> bool" where
  "tables_ok ascii tabs \<longleftrightarrow>
     (\<forall>c < 0x80. block_000 tabs ! unat c = ucast (ascii c)) \<and> (\<forall>u. is_scalar u \<longrightarrow> is_scalar (case_char tabs u))"

lemma lower_case_scalar:
  assumes "list_all is_scalar (u # us)"
  shows "njs_utf8_lower_case tabs (encode_all (u # us)) = Some (case_char tabs u, encode_all us)"
proof -
  obtain d where d: "njs_utf8_decode idle_ctx (encode_all (u # us)) = Some (u, d, encode_all us)" using scalar_head[OF assms idle] by metis
  obtain c ts where e: "njs_utf8_encode u = Some (c # ts)" "ts \<noteq> [] \<longleftrightarrow> 0x80 \<le> unat c" using encode_shape assms by (metis list.pred_inject(2))
  show ?thesis
  proof (cases "u < 0x80")
    case True
    then have "c = ucast u" "ts = []" "unat u < 0x80" using encode_low[OF True] e(1) by (auto simp: word_less_nat_alt)
    then show ?thesis using e True by (simp add: njs_utf8_lower_case_def case_char_def word_less_nat_alt unat_ucast_byte)
  next
    case False
    have "\<not> c < 0x80"
    proof
      assume "c < 0x80"
      then have "ts = []" "unat c < 0x80" using e(2) by (auto simp: word_less_nat_alt)
      then have "u = ucast c" using decode_ascii[of c "encode_all us"] d e(1) by auto
      then show False using False \<open>unat c < 0x80\<close> by (simp add: word_less_nat_alt unat_byte_ucast)
    qed
    then show ?thesis using d e False
      by (auto simp: njs_utf8_lower_case_def case_char_def idle_ctx_def njs_utf8_decode_init_def split: option.splits)
  qed
qed

lemma case_passes:
  assumes "list_all is_scalar us" "\<forall>u. is_scalar u \<longrightarrow> is_scalar (case_char tabs u)"
  shows "case_size (njs_utf8_lower_case tabs) (length us) (encode_all us) n = Some (n + length (encode_all (map (case_char tabs) us))) \<and>
    case_write (njs_utf8_lower_case tabs) (length us) (encode_all us) dst = Some (dst @ encode_all (map (case_char tabs) us))"
  using assms(1)
proof (induction us arbitrary: n dst)
  case (Cons u us)
  obtain bs where bs: "njs_utf8_encode (case_char tabs u) = Some bs" using is_scalar_encode assms(2) Cons.prems by (meson list.pred_inject(2))
  show ?case using Cons lower_case_scalar[OF Cons.prems, of tabs] bs encode_size[OF bs] by (simp del: encode_all_simps) simp
qed simp

lemma to_case_text:
  assumes "string_text s us" "\<forall>n. alloc env n" "tables_ok ascii tabs" "conv = njs_utf8_lower_case tabs" "\<And>c. c < 0x80 \<Longrightarrow> ascii c < 0x80"
  shows "gives (to_case env ascii conv s) (map (case_char tabs) us)"
proof -
  have t: "list_all is_scalar us" "str_start s = encode_all us" "str_length s = length us" using assms(1) by (auto simp: string_text_def)
  have sc: "\<forall>u. is_scalar u \<longrightarrow> is_scalar (case_char tabs u)" using assms(3) by (simp add: tables_ok_def)
  have all: "list_all is_scalar (map (case_char tabs) us)" using t(1) sc by (auto simp: list_all_iff)
  show ?thesis
  proof (cases "is_ascii s")
    case True
    then have l: "length (encode_all us) = length us" using is_ascii_text[OF assms(1)] by simp
    have a: "encode_all us = map ucast us" "list_all (\<lambda>u. unat u < 0x80) us" using ascii_string_text[OF t(1) l] by auto
    have step: "unat (case_char tabs u) < 0x80 \<and> ucast (case_char tabs u) = ascii (ucast u)" if "unat u < 0x80" for u
    proof -
      have u: "u < 0x80" "(ucast u :: u_char) < 0x80" "unat (ucast u :: u_char) = unat u" using that by (simp_all add: word_less_nat_alt unat_ucast_byte)
      then have c: "case_char tabs u = ucast (ascii (ucast u))" using assms(3) by (metis case_char_def tables_ok_def)
      have "ascii (ucast u) < 0x80" using assms(5) u(2) .
      then have "unat (ascii (ucast u)) < 0x80" by (simp add: word_less_nat_alt)
      then show ?thesis unfolding c by (simp add: unat_byte_ucast word_unat_eq_iff unat_ucast_byte)
    qed
    have "encode_all (map (case_char tabs) us) = map ascii (map ucast us)"
      using a(2) step ascii_encode[of "map (case_char tabs) us"] by (auto simp: list_all_iff)
    moreover have "length (encode_all (map (case_char tabs) us)) = length us" using calculation by simp
    ultimately show ?thesis using alloc_gives[OF all assms(2)] True t a(1) by (simp add: to_case_def)
  next
    case False
    then show ?thesis using alloc_gives[OF all assms(2)] case_passes[OF t(1) sc] t assms(4) by (simp add: to_case_def)
  qed
qed

lemma ascii_case_stays: "c < 0x80 \<Longrightarrow> njs_lower_case c < 0x80" "c < 0x80 \<Longrightarrow> njs_upper_case c < 0x80"
proof -
  have "list_all (\<lambda>k. unat (njs_lower_case (of_nat k)) < 0x80 \<and> unat (njs_upper_case (of_nat k)) < 0x80) [0..<0x80]" by code_simp
  from list_all_uptD[OF this le0, of "unat c"]
  show "c < 0x80 \<Longrightarrow> njs_lower_case c < 0x80" "c < 0x80 \<Longrightarrow> njs_upper_case c < 0x80" by (simp_all add: word_less_nat_alt)
qed

subsection \<open>The tables of the source\<close>

definition lower_tables :: case_tables where
  "lower_tables = \<lparr>block_000 = njs_unicode_lower_case_block_000, blocks = \<lambda>n. njs_unicode_lower_case_blocks ! n,
     block_size = 128, max_case = NJS_UNICODE_MAX_LOWER_CASE\<rparr>"

definition upper_tables :: case_tables where
  "upper_tables = \<lparr>block_000 = njs_unicode_upper_case_block_000, blocks = \<lambda>n. njs_unicode_upper_case_blocks ! n,
     block_size = 128, max_case = NJS_UNICODE_MAX_UPPER_CASE\<rparr>"

text \<open>A read of the table for the code point \<open>u\<close> is inside of the array of blocks and of the block.\<close>

definition read_inside :: "uint32 list option list \<Rightarrow> uint32 \<Rightarrow> bool" where
  "read_inside bs u \<longleftrightarrow> unat u div 128 < length bs \<and> (case bs ! (unat u div 128) of None \<Rightarrow> True | Some b \<Rightarrow> unat u mod 128 < length b)"

lemma blocks_inside:
  assumes "bs = butlast bs @ [Some b]" "list_all (\<lambda>b. case b of None \<Rightarrow> True | Some b \<Rightarrow> length b = 128) (butlast bs)"
    "length bs = 979" "u \<le> m" "unat m = 978 * 128 + length b - 1" "0 < length b" "length b < 128"
  shows "read_inside bs u"
proof (cases "unat u div 128 < 978")
  case True
  then have "bs ! (unat u div 128) = butlast bs ! (unat u div 128)" using assms(3) by (simp add: nth_butlast)
  moreover have "unat u div 128 < length (butlast bs)" using True assms(3) by simp
  then have "case butlast bs ! (unat u div 128) of None \<Rightarrow> True | Some b \<Rightarrow> length b = 128" using assms(2) by (simp add: list_all_length)
  ultimately show ?thesis using True assms(3) by (auto simp: read_inside_def split: option.splits)
next
  case False
  have le: "unat u \<le> 978 * 128 + length b - 1" using assms(4,5) by (simp add: word_le_nat_alt)
  then have q: "unat u div 128 = 978" using False assms(6,7) by auto
  then have "unat u = 978 * 128 + unat u mod 128" by (metis div_mult_mod_eq)
  then have d: "unat u div 128 = 978" "unat u mod 128 < length b" using q le assms(6) by linarith+
  have "bs ! 978 = Some b" using assms(1,3) by (metis length_butlast nth_append_length diff_Suc_1 eval_nat_numeral(3) numeral_eq_Suc pred_numeral_simps(3))
  then show ?thesis using d assms(3) by (simp add: read_inside_def)
qed

lemma case_char_scalar:
  assumes "\<And>v. v \<le> max_case tabs \<Longrightarrow> read_inside bs v" "blocks tabs = (\<lambda>n. bs ! n)" "block_size tabs = 128"
    "list_all (\<lambda>b. case b of None \<Rightarrow> True | Some b \<Rightarrow> list_all is_scalar b) bs" "length (block_000 tabs) = 128 \<and> list_all is_scalar (block_000 tabs)"
    "is_scalar u"
  shows "is_scalar (case_char tabs u)"
proof -
  have low: "is_scalar (block_000 tabs ! unat u)" if "u < 0x80" using assms(5) that by (simp add: list_all_length word_less_nat_alt)
  have "is_scalar (b ! (unat u mod 128))" if "u \<le> max_case tabs" "bs ! (unat u div 128) = Some b" for b
  proof -
    have "unat u div 128 < length bs" "unat u mod 128 < length b" using assms(1)[OF that(1)] that(2) by (auto simp: read_inside_def)
    moreover from this(1) have "list_all is_scalar b" using assms(4) that(2) by (auto simp: list_all_length split: option.splits)
    ultimately show ?thesis by (simp add: list_all_length)
  qed
  then show ?thesis using low assms(2,3,6) by (auto simp: case_char_def split: option.splits)
qed

lemma max_case_values: "unat NJS_UNICODE_MAX_LOWER_CASE = 978 * 128 + 34 - 1" "unat NJS_UNICODE_MAX_UPPER_CASE = 978 * 128 + 68 - 1"
  unfolding NJS_UNICODE_MAX_LOWER_CASE_def NJS_UNICODE_MAX_UPPER_CASE_def by (simp_all only: unsigned_numeral take_bit_eq_mod) simp_all

lemma lower_inside: "u \<le> NJS_UNICODE_MAX_LOWER_CASE \<Longrightarrow> read_inside njs_unicode_lower_case_blocks u"
  by (rule blocks_inside[OF lower_blocks_last lower_blocks_whole lower_blocks_length, of _ NJS_UNICODE_MAX_LOWER_CASE])
    (simp_all add: lower_block_facts max_case_values)

lemma upper_inside: "u \<le> NJS_UNICODE_MAX_UPPER_CASE \<Longrightarrow> read_inside njs_unicode_upper_case_blocks u"
  by (rule blocks_inside[OF upper_blocks_last upper_blocks_whole upper_blocks_length, of _ NJS_UNICODE_MAX_UPPER_CASE])
    (simp_all add: upper_block_facts max_case_values)

lemma table_nth: "xs = map f [0..<n] \<Longrightarrow> k < n \<Longrightarrow> xs ! k = f k"
  by simp

lemma ascii_blocks:
  assumes "c < 0x80"
  shows "njs_unicode_lower_case_block_000 ! unat c = ucast (njs_lower_case c)" "njs_unicode_upper_case_block_000 ! unat c = ucast (njs_upper_case c)"
proof -
  have c: "unat c < 0x80" using assms by (simp add: word_less_nat_alt)
  have "njs_unicode_lower_case_block_000 = map (\<lambda>k. ucast (njs_lower_case (of_nat k))) [0..<0x80]"
    "njs_unicode_upper_case_block_000 = map (\<lambda>k. ucast (njs_upper_case (of_nat k))) [0..<0x80]" by code_simp+
  from this[THEN table_nth, OF c] show "njs_unicode_lower_case_block_000 ! unat c = ucast (njs_lower_case c)"
    "njs_unicode_upper_case_block_000 ! unat c = ucast (njs_upper_case c)" by simp_all
qed

lemma lower_tables_ok: "tables_ok njs_lower_case lower_tables"
  unfolding tables_ok_def
  using case_char_scalar[of lower_tables njs_unicode_lower_case_blocks] lower_inside lower_blocks_scalar ascii_blocks(1)
  by (simp add: lower_tables_def lower_block_facts)

lemma upper_tables_ok: "tables_ok njs_upper_case upper_tables"
  unfolding tables_ok_def
  using case_char_scalar[of upper_tables njs_unicode_upper_case_blocks] upper_inside upper_blocks_scalar ascii_blocks(2)
  by (simp add: upper_tables_def upper_block_facts)

text \<open>
  C33.  Case.  With the tables of the source \<open>toLowerCase\<close> and \<open>toUpperCase\<close> map every character by itself, the ASCII
  loop as the tables do, and the size of the first pass is that of the bytes of the second although a
  character and its image may have different sizes; the result is a valid string of as many
  characters.  Every read of the tables is inside of the array of blocks and of the block, the last of
  which is cut off.
\<close>

theorem string_case:
  assumes "string_text s us" "\<forall>n. alloc env n"
  shows "gives (njs_string_prototype_to_lower_case env lower_tables s) (map (case_char lower_tables) us) \<and>
    gives (njs_string_prototype_to_upper_case env upper_tables s) (map (case_char upper_tables) us) \<and>
    (\<forall>u. u \<le> max_case lower_tables \<longrightarrow> read_inside njs_unicode_lower_case_blocks u) \<and>
    (\<forall>u. u \<le> max_case upper_tables \<longrightarrow> read_inside njs_unicode_upper_case_blocks u)"
proof -
  have "njs_utf8_upper_case upper_tables = njs_utf8_lower_case upper_tables" by (simp add: njs_utf8_upper_case_def fun_eq_iff)
  then show ?thesis
    using to_case_text[OF assms lower_tables_ok refl ascii_case_stays(1)] to_case_text[OF assms upper_tables_ok _ ascii_case_stays(2)] lower_inside upper_inside
    by (auto simp: njs_string_prototype_to_lower_case_def njs_string_prototype_to_upper_case_def lower_tables_def upper_tables_def)
qed

theorem string_case_witness:
  "gives (njs_string_prototype_to_upper_case \<lparr>alloc = \<lambda>n. True, junk = \<lambda>n. 7\<rparr> upper_tables
      \<lparr>str_start = encode_all (replicate 40 0xE9), str_length = 40, str_map = [0]\<rparr>) (replicate 40 0xC9)"
proof -
  have a: "\<forall>n. alloc \<lparr>alloc = \<lambda>n. True, junk = \<lambda>n. 7\<rparr> n" by simp
  have "case_char upper_tables 0xE9 = 0xC9" by code_simp
  then show ?thesis using string_case[OF sample_text a] by simp
qed

end
