(* ===== verification/Njs_String_Concat.thy ===== *)
theory Njs_String_Concat
  imports Njs_String_More "HOL-Library.Sublist"
begin

section \<open>Concatenation and comparison (src/src/njs_string.c, src/src/njs_vmcode.c)\<close>

text \<open>
  \<open>String.prototype.concat\<close> and the operator + with several operands.  It makes two passes over the arguments; the texts
  of numbers are made in the first one and kept in a buffer of 512 bytes, each behind a byte with its
  size, until the next might not fit; behind them there is the byte 0, or \<open>NJS_SZ_LAST\<close> when it is full,
  and the numbers that are not there are written again in the second pass.

  \<open>dtoa\<close> is the text of a finite number, \<open>njs_dtoa\<close>; NaN and the infinities are apart.  Other values than numbers,
  booleans, null and undefined are the string that they convert to, or \<open>CThrows\<close> when that throws.
\<close>

datatype 'n concat_arg =
  CNumber 'n | CNaN | CInfinity bool | CBoolean bool | CNull | CUndefined | CString njs_string | CThrows codec_error

definition NJS_SZ_LAST :: u_char where "NJS_SZ_LAST = 64"
definition NJS_DTOA_MAX_LEN :: nat where "NJS_DTOA_MAX_LEN = 25"

definition c_text :: "string \<Rightarrow> u_char list" where "c_text s = map of_char s"

definition put_bytes :: "nat \<Rightarrow> u_char list \<Rightarrow> u_char list \<Rightarrow> u_char list option" where
  "put_bytes i xs b = (if i + length xs \<le> length b then Some (take i b @ xs @ drop (i + length xs) b) else None)"

text \<open>The words for the values that are not numbers or strings.\<close>

fun concat_word :: "'n concat_arg \<Rightarrow> u_char list" where
  "concat_word CNaN = c_text ''NaN''"
| "concat_word (CInfinity True) = c_text ''-Infinity''"
| "concat_word (CInfinity False) = c_text ''Infinity''"
| "concat_word (CBoolean True) = c_text ''true''"
| "concat_word (CBoolean False) = c_text ''false''"
| "concat_word CNull = c_text ''null''"
| "concat_word CUndefined = c_text ''undefined''"
| "concat_word _ = []"

text \<open>The number's text at \<open>np + 1\<close>; its size at \<open>np\<close> and the mark behind it when another one is sure to fit then.\<close>

definition keep_number :: "u_char list \<Rightarrow> u_char list \<Rightarrow> nat \<Rightarrow> (u_char list \<times> nat) option" where
  "keep_number t b np =
     (let sz = length t in
      case put_bytes (np + 1) t b of
        None \<Rightarrow> None
      | Some b \<Rightarrow>
          if b ! np = 0 then
            (if int (np + 1 + sz) < int (length b) - int NJS_DTOA_MAX_LEN - 1 then
               map_option (\<lambda>b. (b, np + 1 + sz)) (put_bytes (np + 1 + sz) [0] (b[np := of_nat sz]))
             else Some (b[np := NJS_SZ_LAST], np))
          else Some (b, np))"

fun concat_sizes :: "('n \<Rightarrow> u_char list) \<Rightarrow> 'n concat_arg list \<Rightarrow> u_char list \<Rightarrow> nat \<Rightarrow> nat \<Rightarrow> nat \<Rightarrow> (codec_error + u_char list \<times> nat \<times> nat) option" where
  "concat_sizes dtoa [] b np sz len = Some (Inr (b, sz, len))"
| "concat_sizes dtoa (a # args) b np sz len =
     (case a of
        CNumber n \<Rightarrow>
          (case keep_number (dtoa n) b np of
             None \<Rightarrow> None
           | Some (b, np) \<Rightarrow> concat_sizes dtoa args b np (sz + length (dtoa n)) (len + length (dtoa n)))
      | CString s \<Rightarrow> concat_sizes dtoa args b np (sz + str_size s) (len + str_length s)
      | CThrows e \<Rightarrow> Some (Inl e)
      | _ \<Rightarrow> concat_sizes dtoa args b np (sz + length (concat_word a)) (len + length (concat_word a)))"

fun concat_write :: "('n \<Rightarrow> u_char list) \<Rightarrow> 'n concat_arg list \<Rightarrow> u_char list \<Rightarrow> nat \<Rightarrow> u_char list \<Rightarrow> u_char list option" where
  "concat_write dtoa [] b np p = Some p"
| "concat_write dtoa (a # args) b np p =
     (case a of
        CNumber n \<Rightarrow>
          if length b \<le> np then None
          else if b ! np \<noteq> NJS_SZ_LAST then
            (let sz = unat (b ! np)
             in if length b < np + 1 + sz then None
                else concat_write dtoa args b (np + 1 + sz) (p @ take sz (drop (np + 1) b)))
          else concat_write dtoa args b np (p @ dtoa n)
      | CString s \<Rightarrow> concat_write dtoa args b np (p @ str_start s)
      | _ \<Rightarrow> concat_write dtoa args b np (p @ concat_word a))"

text \<open>\<open>b\<close> is what the buffer on the stack holds.\<close>

definition njs_string_prototype_concat ::
    "string_env \<Rightarrow> ('n \<Rightarrow> u_char list) \<Rightarrow> 'n concat_arg list \<Rightarrow> u_char list \<Rightarrow> (codec_error + njs_string) option" where
  "njs_string_prototype_concat env dtoa args b =
     (if hd args = CNull \<or> hd args = CUndefined then Some (Inl (TypeErr ''\"this\" argument is null or undefined''))
      else
        (case concat_sizes dtoa args (b[0 := 0]) 0 0 0 of
           None \<Rightarrow> None
         | Some (Inl e) \<Rightarrow> Some (Inl e)
         | Some (Inr (b, sz, len)) \<Rightarrow>
             (case concat_write dtoa args b 0 [] of None \<Rightarrow> None | Some bytes \<Rightarrow> njs_string_alloc env sz len bytes)))"

definition njs_string_concat :: "string_env \<Rightarrow> njs_string \<Rightarrow> njs_string \<Rightarrow> (codec_error + njs_string) option" where
  "njs_string_concat env s t = njs_string_alloc env (str_size s + str_size t) (str_length s + str_length t) (str_start s @ str_start t)"

definition njs_string_eq :: "njs_string \<Rightarrow> njs_string \<Rightarrow> bool" where
  "njs_string_eq s t \<longleftrightarrow> str_size s = str_size t \<and> take (str_size s) (str_start s) = take (str_size s) (str_start t)"

text \<open>\<open>memcmp\<close>: the difference of the first bytes that differ, of which C promises the sign.\<close>

fun memcmp :: "u_char list \<Rightarrow> u_char list \<Rightarrow> int" where
  "memcmp (b # bs) (c # cs) = (if b = c then memcmp bs cs else uint b - uint c)"
| "memcmp _ _ = 0"

definition njs_string_cmp :: "njs_string \<Rightarrow> njs_string \<Rightarrow> int" where
  "njs_string_cmp s t =
     (let n = min (str_size s) (str_size t); ret = memcmp (take n (str_start s)) (take n (str_start t))
      in if ret \<noteq> 0 then ret else int (str_size s) - int (str_size t))"

subsection \<open>The buffer of the texts of numbers\<close>

text \<open>The texts in the buffer, and the numbers among the arguments.\<close>

definition kept :: "u_char list list \<Rightarrow> u_char list" where
  "kept ts = concat (map (\<lambda>t. of_nat (length t) # t) ts)"

lemma kept_simps [simp]: "kept [] = []" "kept (t # ts) = of_nat (length t) # t @ kept ts"
  by (simp_all add: kept_def)

fun numbers :: "('n \<Rightarrow> u_char list) \<Rightarrow> 'n concat_arg list \<Rightarrow> u_char list list" where
  "numbers dtoa [] = []"
| "numbers dtoa (CNumber n # args) = dtoa n # numbers dtoa args"
| "numbers dtoa (_ # args) = numbers dtoa args"

text \<open>At \<open>np\<close> the buffer holds the texts \<open>ts\<close>, then the mark: that it is full, or that these are all the texts \<open>all\<close>.\<close>

definition holds :: "u_char list \<Rightarrow> nat \<Rightarrow> u_char list list \<Rightarrow> u_char list list \<Rightarrow> bool" where
  "holds b np ts ns \<longleftrightarrow>
     length b = 512 \<and> np + length (kept ts) < 486 \<and> take (length (kept ts)) (drop np b) = kept ts \<and> prefix ts ns \<and>
     (b ! (np + length (kept ts)) = NJS_SZ_LAST \<or> ts = ns)"

lemma take_shorter: "take m xs = take m ys \<Longrightarrow> n \<le> m \<Longrightarrow> take n xs = take n ys"
  by (metis min.absorb1 take_take)

lemma keep_number_full:
  assumes "length b = 512" "np < 486" "length t \<le> 25" "b ! np = NJS_SZ_LAST"
  shows "\<exists>b'. keep_number t b np = Some (b', np) \<and> length b' = 512 \<and> take (Suc np) b' = take (Suc np) b"
  using assms by (simp add: keep_number_def put_bytes_def NJS_SZ_LAST_def nth_append Let_def min_def)

lemma keep_number_free:
  assumes "length b = 512" "np < 486" "length t \<le> 25" "b ! np = 0"
  shows "\<exists>b' np'. keep_number t b np = Some (b', np') \<and> length b' = 512 \<and> take np b' = take np b \<and>
    (np' = np \<and> b' ! np = NJS_SZ_LAST \<or>
     np' = np + 1 + length t \<and> np' < 486 \<and> b' ! np' = 0 \<and> take (1 + length t) (drop np b') = of_nat (length t) # t)"
proof -
  define b1 where "b1 = take (np + 1) b @ t @ drop (np + 1 + length t) b"
  have b1: "put_bytes (np + 1) t b = Some b1" "length b1 = 512" "b1 ! np = 0" "take np b1 = take np b" "take (length t) (drop (np + 1) b1) = t"
    using assms by (simp_all add: b1_def put_bytes_def nth_append min_def)
  show ?thesis
  proof (cases "np + 1 + length t < 486")
    case True
    define b2 where "b2 = b1[np := of_nat (length t)]"
    have b2: "length b2 = 512" "take np b2 = take np b" "take (1 + length t) (drop np b2) = of_nat (length t) # t"
    proof -
      have "drop np b2 = of_nat (length t) # drop (np + 1) b1" using b1(2) assms(2) by (simp add: b2_def upd_conv_take_nth_drop)
      then show "take (1 + length t) (drop np b2) = of_nat (length t) # t" using b1(5) by simp
    qed (use b1 in \<open>simp_all add: b2_def\<close>)
    define b3 where "b3 = take (np + 1 + length t) b2 @ [0] @ drop (np + 1 + length t + 1) b2"
    have "keep_number t b np = Some (b3, np + 1 + length t)"
      using b1 True unfolding b3_def b2_def by (simp add: keep_number_def put_bytes_def Let_def NJS_DTOA_MAX_LEN_def)
    moreover have "length b3 = 512" "b3 ! (np + 1 + length t) = 0" "take np b3 = take np b"
      using b2 True by (simp_all add: b3_def nth_append min_def)
    moreover have "take (1 + length t) (drop np b3) = take (1 + length t) (drop np b2)"
      using b2(1) True by (simp add: b3_def drop_take)
    ultimately show ?thesis using True b2(3) by auto
  next
    case False
    then show ?thesis using b1 assms by (auto simp: keep_number_def Let_def NJS_DTOA_MAX_LEN_def)
  qed
qed

text \<open>
  The first pass with the mark at \<open>np\<close> keeps what is before it and fills the buffer behind it.
\<close>

fun plain_arg :: "('n \<Rightarrow> u_char list) \<Rightarrow> 'n concat_arg \<Rightarrow> uint32 list \<Rightarrow> bool" where
  "plain_arg dtoa (CNumber n) us \<longleftrightarrow> dtoa n = map ucast us \<and> list_all (\<lambda>u. unat u < 0x80) us \<and> length us \<le> NJS_DTOA_MAX_LEN"
| "plain_arg dtoa (CString s) us \<longleftrightarrow> string_text s us"
| "plain_arg dtoa (CThrows e) us \<longleftrightarrow> False"
| "plain_arg dtoa a us \<longleftrightarrow> us = map ucast (concat_word a)"

lemma word_ascii: "list_all (\<lambda>c. unat c < 0x80) (concat_word a)"
  by (cases a rule: concat_word.cases) (simp_all add: c_text_def)

lemma ascii_bytes:
  assumes "list_all (\<lambda>c. unat c < 0x80) (w :: u_char list)"
  shows "encode_all (map ucast w) = w"
proof -
  have "list_all (\<lambda>u. unat u < 0x80) (map ucast w :: uint32 list)" using assms by (auto simp: list_all_iff unat_byte_ucast)
  moreover have "ucast (ucast c :: uint32) = c" for c :: u_char using unat_ucast_byte[of "ucast c"] unat_byte[of c] by (simp add: word_unat_eq_iff unat_byte_ucast)
  ultimately show ?thesis by (simp add: ascii_encode comp_def)
qed

lemma ascii_scalar: "list_all (\<lambda>u. unat u < 0x80) us \<Longrightarrow> list_all is_scalar us"
  by (auto simp: list_all_iff is_scalar_unat)

lemma word_text: "list_all is_scalar (map ucast (concat_word a)) \<and> encode_all (map ucast (concat_word a)) = concat_word a"
  using word_ascii[of a] by (auto simp: ascii_bytes list_all_iff is_scalar_unat unat_byte_ucast)

lemma plain_bytes:
  assumes "plain_arg dtoa a us"
  shows "list_all is_scalar us \<and>
    encode_all us = (case a of CNumber n \<Rightarrow> dtoa n | CString s \<Rightarrow> str_start s | _ \<Rightarrow> concat_word a) \<and>
    length us = (case a of CNumber n \<Rightarrow> length (dtoa n) | CString s \<Rightarrow> str_length s | _ \<Rightarrow> length (concat_word a))"
  using assms word_text[of a] by (cases a) (auto simp: string_text_def ascii_scalar ascii_encode)

lemma other_arg:
  assumes "plain_arg dtoa a us" "\<And>n. a \<noteq> CNumber n"
  shows "concat_sizes dtoa (a # args) b np sz len = concat_sizes dtoa args b np (sz + length (encode_all us)) (len + length us)"
    "concat_write dtoa (a # args) b np p = concat_write dtoa args b np (p @ encode_all us)"
    "numbers dtoa (a # args) = numbers dtoa args"
proof -
  have "concat_sizes dtoa (a # args) b np sz len = concat_sizes dtoa args b np (sz + length (encode_all us)) (len + length us) \<and>
    concat_write dtoa (a # args) b np p = concat_write dtoa args b np (p @ encode_all us) \<and> numbers dtoa (a # args) = numbers dtoa args"
  proof (cases a)
    case (CNumber n)
    then show ?thesis using assms(2) by blast
  qed (use assms(1) plain_bytes[OF assms(1)] in auto)
  then show "concat_sizes dtoa (a # args) b np sz len = concat_sizes dtoa args b np (sz + length (encode_all us)) (len + length us)"
    "concat_write dtoa (a # args) b np p = concat_write dtoa args b np (p @ encode_all us)"
    "numbers dtoa (a # args) = numbers dtoa args" by blast+
qed

lemma sizes_full:
  assumes "list_all2 (plain_arg dtoa) args uss" "length b = 512" "np < 486" "b ! np = NJS_SZ_LAST"
  shows "\<exists>b'. concat_sizes dtoa args b np sz len = Some (Inr (b', sz + length (encode_all (concat uss)), len + length (concat uss))) \<and>
    length b' = 512 \<and> take (Suc np) b' = take (Suc np) b"
  using assms
proof (induction args uss arbitrary: b sz len rule: list_all2_induct)
  case (Cons a args us uss)
  note pb = plain_bytes[OF Cons.hyps(1)]
  show ?case
  proof (cases "\<exists>n. a = CNumber n")
    case True
    then obtain n where a: "a = CNumber n" by blast
    then have l: "length (dtoa n) \<le> 25" "length us = length (dtoa n)" "length (encode_all us) = length (dtoa n)" using Cons.hyps(1) pb by (auto simp: NJS_DTOA_MAX_LEN_def)
    obtain b' where b': "keep_number (dtoa n) b np = Some (b', np)" "length b' = 512" "take (Suc np) b' = take (Suc np) b"
      using keep_number_full[OF Cons.prems(1,2) l(1) Cons.prems(3)] by blast
    then have "b' ! np = NJS_SZ_LAST" using Cons.prems(3) by (metis lessI nth_take)
    from Cons.IH[OF b'(2) Cons.prems(2) this, of "sz + length (dtoa n)" "len + length (dtoa n)"] show ?thesis
      using a b' l by (simp add: encode_all_append add.assoc)
  next
    case False
    then have "a \<noteq> CNumber n" for n by blast
    from other_arg(1)[OF Cons.hyps(1) this] show ?thesis
      using Cons.IH[OF Cons.prems, of "sz + length (encode_all us)" "len + length us"] by (simp add: encode_all_append add.assoc)
  qed
qed simp

lemma sizes_fill:
  assumes "list_all2 (plain_arg dtoa) args uss" "length b = 512" "np < 486" "b ! np = 0"
  shows "\<exists>b' ts. concat_sizes dtoa args b np sz len = Some (Inr (b', sz + length (encode_all (concat uss)), len + length (concat uss))) \<and>
    take np b' = take np b \<and> holds b' np ts (numbers dtoa args)"
  using assms
proof (induction args uss arbitrary: b np sz len rule: list_all2_induct)
  case Nil
  then show ?case by (auto simp: holds_def)
next
  case (Cons a args us uss)
  note pb = plain_bytes[OF Cons.hyps(1)]
  show ?case
  proof (cases "\<exists>n. a = CNumber n")
    case True
    then obtain n where a: "a = CNumber n" by blast
    then have l: "length (dtoa n) \<le> 25" "length us = length (dtoa n)" "length (encode_all us) = length (dtoa n)" using Cons.hyps(1) pb by (auto simp: NJS_DTOA_MAX_LEN_def)
    obtain b' np' where k: "keep_number (dtoa n) b np = Some (b', np')" "length b' = 512" "take np b' = take np b" and
      c: "np' = np \<and> b' ! np = NJS_SZ_LAST \<or>
          np' = np + 1 + length (dtoa n) \<and> np' < 486 \<and> b' ! np' = 0 \<and> take (1 + length (dtoa n)) (drop np b') = of_nat (length (dtoa n)) # dtoa n"
      using keep_number_free[OF Cons.prems(1,2) l(1) Cons.prems(3)] by blast
    from c show ?thesis
    proof
      assume f: "np' = np \<and> b' ! np = NJS_SZ_LAST"
      then obtain b2 where b2: "concat_sizes dtoa args b' np (sz + length (dtoa n)) (len + length (dtoa n)) =
          Some (Inr (b2, sz + length (dtoa n) + length (encode_all (concat uss)), len + length (dtoa n) + length (concat uss)))"
          "length b2 = 512" "take (Suc np) b2 = take (Suc np) b'"
        using sizes_full[OF Cons.hyps(2) k(2) Cons.prems(2)] by blast
      have "b2 ! np = NJS_SZ_LAST" "take np b2 = take np b'" using f take_shorter[OF b2(3), of np] by (metis b2(3) lessI nth_take, simp)
      then have "holds b2 np [] (numbers dtoa (a # args))" using b2(2) Cons.prems(2) by (simp add: holds_def)
      then show ?thesis using a k b2 f l \<open>take np b2 = take np b'\<close> by (auto simp: encode_all_append add.assoc)
    next
      assume f: "np' = np + 1 + length (dtoa n) \<and> np' < 486 \<and> b' ! np' = 0 \<and> take (1 + length (dtoa n)) (drop np b') = of_nat (length (dtoa n)) # dtoa n"
      then obtain b2 ts where b2: "concat_sizes dtoa args b' np' (sz + length (dtoa n)) (len + length (dtoa n)) =
          Some (Inr (b2, sz + length (dtoa n) + length (encode_all (concat uss)), len + length (dtoa n) + length (concat uss)))"
          "take np' b2 = take np' b'" "holds b2 np' ts (numbers dtoa args)"
        using Cons.IH[OF k(2)] by blast
      have low: "take np b2 = take np b'" using take_shorter[OF b2(2), of np] f by simp
      have "take (1 + length (dtoa n)) (drop np b2) = of_nat (length (dtoa n)) # dtoa n"
        using b2(2) f by (metis (no_types, lifting) add.assoc add_diff_cancel_left' drop_take)
      then have "take (1 + length (dtoa n) + length (kept ts)) (drop np b2) = of_nat (length (dtoa n)) # dtoa n @ kept ts"
        using b2(3) f take_add[of "1 + length (dtoa n)" "length (kept ts)" "drop np b2"] by (simp add: holds_def add_ac)
      then have "holds b2 np (dtoa n # ts) (numbers dtoa (a # args))" using b2(3) f a by (simp add: holds_def add.assoc)
      then show ?thesis using a k b2 f l low by (auto simp: encode_all_append add.assoc)
    qed
  next
    case False
    then have "a \<noteq> CNumber n" for n by blast
    from other_arg(1,3)[OF Cons.hyps(1) this] show ?thesis
      using Cons.IH[OF Cons.prems, of "sz + length (encode_all us)" "len + length us"] by (simp add: encode_all_append add.assoc)
  qed
qed

lemma append_parts: "a @ b = c @ d \<Longrightarrow> length a = length c \<Longrightarrow> a = c \<and> b = d"
  by simp

lemma write_kept:
  assumes "list_all2 (plain_arg dtoa) args uss" "holds b np ts (numbers dtoa args)"
  shows "concat_write dtoa args b np p = Some (p @ encode_all (concat uss))"
  using assms
proof (induction args uss arbitrary: np ts p rule: list_all2_induct)
  case (Cons a args us uss)
  note pb = plain_bytes[OF Cons.hyps(1)]
  show ?case
  proof (cases "\<exists>n. a = CNumber n")
    case True
    then obtain n where a: "a = CNumber n" by blast
    have l: "length (dtoa n) \<le> 25" "encode_all us = dtoa n" using Cons.hyps(1) pb a by (auto simp: NJS_DTOA_MAX_LEN_def)
    have h: "length b = 512" "np + length (kept ts) < 486" "take (length (kept ts)) (drop np b) = kept ts" "prefix ts (dtoa n # numbers dtoa args)"
        "b ! (np + length (kept ts)) = NJS_SZ_LAST \<or> ts = dtoa n # numbers dtoa args" using Cons.prems a by (auto simp: holds_def)
    show ?thesis
    proof (cases ts)
      case Nil
      then have "b ! np = NJS_SZ_LAST" "holds b np [] (numbers dtoa args)" using h by (auto simp: holds_def)
      then show ?thesis using Cons.IH a l h(1,2) by (simp add: encode_all_append)
    next
      case (Cons t ts')
      then have t: "t = dtoa n" "prefix ts' (numbers dtoa args)" using h(4) by auto
      define k where "k = length (dtoa n)"
      have "take (Suc k + length (kept ts')) (drop np b) = (of_nat k # dtoa n) @ kept ts'" using h(3) Cons t by (simp add: k_def)
      moreover have "length (take (Suc k) (drop np b)) = length (of_nat k # dtoa n :: u_char list)" using h(1,2) Cons t by (simp add: k_def)
      ultimately have parts: "take (Suc k) (drop np b) = of_nat k # dtoa n" "take (length (kept ts')) (drop (Suc k) (drop np b)) = kept ts'"
        unfolding take_add by (blast dest: append_parts)+
      have "b ! np = of_nat k" using parts(1) h(1,2) by (cases "drop np b") (auto simp: nth_via_drop)
      moreover have "unat (of_nat k :: u_char) = k" "(of_nat k :: u_char) \<noteq> NJS_SZ_LAST"
        using l(1) by (auto simp: k_def NJS_SZ_LAST_def unsigned_of_nat take_bit_nat_eq_self word_unat_eq_iff)
      moreover have "take k (drop (Suc np) b) = dtoa n" using parts(1) h(1,2) by (cases "drop np b") (auto simp: drop_Suc drop_tl)
      moreover have "holds b (np + 1 + k) ts' (numbers dtoa args)"
        using h Cons t parts(2) by (auto simp: holds_def k_def add_ac)
      ultimately show ?thesis using Cons.IH a l(2) h(1,2) Cons t by (simp add: encode_all_append k_def)
    qed
  next
    case False
    then have "a \<noteq> CNumber n" for n by blast
    from other_arg(2,3)[OF Cons.hyps(1) this] show ?thesis using Cons.IH Cons.prems by (simp add: encode_all_append)
  qed
qed simp

text \<open>
  C30.  Concatenation.  When \<open>this\<close> is neither null nor undefined, each argument converts to a text and \<open>njs_dtoa\<close> gives ASCII of
  at most 25 characters, as \<open>njs_dtoa_max_len\<close> says, the result is the text of all the arguments in their order,
  whatever of the texts of the numbers is in the buffer on the stack and whatever that held before; no byte is written
  or read outside of it, and the size of the first pass is what the second one writes.
\<close>

theorem string_concat:
  assumes "list_all2 (plain_arg dtoa) args uss" "hd args \<noteq> CNull" "hd args \<noteq> CUndefined" "length b = 512" "\<forall>n. alloc env n"
  shows "gives (njs_string_prototype_concat env dtoa args b) (concat uss)"
proof -
  have "b[0 := 0] ! 0 = 0" "length (b[0 := 0]) = 512" using assms(4) by simp_all
  then obtain b' ts where b': "concat_sizes dtoa args (b[0 := 0]) 0 0 0 = Some (Inr (b', length (encode_all (concat uss)), length (concat uss)))"
      "holds b' 0 ts (numbers dtoa args)"
    using sizes_fill[OF assms(1), of "b[0 := 0]" 0 0 0] by auto
  have "concat_write dtoa args b' 0 [] = Some (encode_all (concat uss))" using write_kept[OF assms(1) b'(2)] by simp
  moreover have "list_all is_scalar (concat uss)"
    using assms(1) by (induction rule: list_all2_induct) (auto dest: plain_bytes)
  ultimately show ?thesis using alloc_gives[OF _ assms(5)] assms(2,3) b'(1) by (simp add: njs_string_prototype_concat_def)
qed

theorem string_concat_witness:
  "gives (njs_string_prototype_concat \<lparr>alloc = \<lambda>n. True, junk = \<lambda>n. 7\<rparr> (\<lambda>n :: nat. replicate n 0x31)
      (CString \<lparr>str_start = encode_all (replicate 40 0xE9), str_length = 40, str_map = [0]\<rparr> # CBoolean True # map CNumber (replicate 30 20)) (replicate 512 9))
    (replicate 40 0xE9 @ [0x74, 0x72, 0x75, 0x65] @ replicate 600 0x31)"
proof -
  have a: "\<forall>n. alloc \<lparr>alloc = \<lambda>n. True, junk = \<lambda>n. 7\<rparr> n" by simp
  let ?dtoa = "\<lambda>n :: nat. replicate n (0x31 :: u_char)"
  have "plain_arg ?dtoa (CNumber 20) (replicate 20 0x31)" by (simp add: NJS_DTOA_MAX_LEN_def list_all_repl)
  then have "list_all2 (plain_arg ?dtoa) (map CNumber (replicate n 20)) (replicate n (replicate 20 0x31))" for n by (induction n) auto
  from this[of 30] have "list_all2 (plain_arg ?dtoa)
      (CString \<lparr>str_start = encode_all (replicate 40 0xE9), str_length = 40, str_map = [0]\<rparr> # CBoolean True # map CNumber (replicate 30 20))
      (replicate 40 0xE9 # [0x74, 0x72, 0x75, 0x65] # replicate 30 (replicate 20 0x31))"
    using sample_text by (simp add: c_text_def)
  from string_concat[OF this _ _ _ a, of "replicate 512 9"] have "gives (njs_string_prototype_concat \<lparr>alloc = \<lambda>n. True, junk = \<lambda>n. 7\<rparr> ?dtoa
      (CString \<lparr>str_start = encode_all (replicate 40 0xE9), str_length = 40, str_map = [0]\<rparr> # CBoolean True # map CNumber (replicate 30 20)) (replicate 512 9))
    (concat (replicate 40 0xE9 # [0x74, 0x72, 0x75, 0x65] # replicate 30 (replicate 20 0x31)))" by simp
  moreover have "concat (replicate m (replicate 20 0x31)) = replicate (20 * m) (0x31 :: uint32)" for m by (induction m) (simp_all add: replicate_add[symmetric])
  ultimately show ?thesis by simp
qed

subsection \<open>Two strings\<close>

lemma concat_two:
  assumes "string_text s us" "string_text t vs" "\<forall>n. alloc env n"
  shows "gives (njs_string_concat env s t) (us @ vs)"
  using alloc_gives[of "us @ vs" env] assms by (simp add: njs_string_concat_def string_text_def encode_all_append)

lemma eq_text:
  assumes "string_text s us" "string_text t vs"
  shows "njs_string_eq s t \<longleftrightarrow> us = vs"
  using assms encode_all_length_unique[of us vs] encode_prefix[of us vs "[]"] text_nonempty by (auto simp: njs_string_eq_def string_text_def)

end
