(* ===== verification/Njs_Date.thy ===== *)
theory Njs_Date
  imports Njs_Codec "HOL-Library.Signed_Division" "HOL-Library.Log_Nat"
begin

section \<open>Dates (src/src/njs_date.c)\<close>

text \<open>
  A time is a number of milliseconds since 1970 in a double, which is an integer of at most 8.64e15 in
  amount or NaN: an \<open>int option\<close> with None for NaN.  The fields of a date are the array \<open>tm\<close> of eight integers.  \<open>gmtoff\<close> is what
  \<open>localtime_r\<close> answers: the offset in seconds of the local time zone at a time in seconds.

  \<open>dbl\<close> is the conversion of an integer to a double and the rounding of the result of an operation on doubles that are
  integers: to the nearest integer with 53 significant bits, ties to even.
\<close>

definition round_even :: "int \<Rightarrow> int \<Rightarrow> int" where
  "round_even a p = (let q = a div p; r = a mod p in if 2 * r < p \<or> 2 * r = p \<and> even q then q * p else (q + 1) * p)"

definition dbl :: "int \<Rightarrow> int" where
  "dbl x = sgn x * round_even \<bar>x\<bar> (2 ^ (nat (bitlen \<bar>x\<bar>) - 53))"

definition NJS_DATE_WDAY :: nat where "NJS_DATE_WDAY = 0"
definition NJS_DATE_YR :: nat where "NJS_DATE_YR = 1"
definition NJS_DATE_MON :: nat where "NJS_DATE_MON = 2"
definition NJS_DATE_DAY :: nat where "NJS_DATE_DAY = 3"
definition NJS_DATE_HR :: nat where "NJS_DATE_HR = 4"
definition NJS_DATE_MIN :: nat where "NJS_DATE_MIN = 5"
definition NJS_DATE_SEC :: nat where "NJS_DATE_SEC = 6"
definition NJS_DATE_MSEC :: nat where "NJS_DATE_MSEC = 7"

subsection \<open>Calendar arithmetic\<close>

text \<open>The operator \<open>%\<close> of C is \<open>smod\<close>, its division \<open>sdiv\<close>.\<close>

definition njs_mod :: "int \<Rightarrow> int \<Rightarrow> int" where
  "njs_mod a b = (let m = a smod b in m + (if m < 0 then 1 else 0) * b)"

definition njs_floor_div :: "int \<Rightarrow> int \<Rightarrow> int" where
  "njs_floor_div a b = (let m = a smod b in (a - (m + (if m < 0 then 1 else 0) * b)) sdiv b)"

definition njs_timeclip :: "int option \<Rightarrow> int option" where
  "njs_timeclip time = (case time of None \<Rightarrow> None | Some t \<Rightarrow> if t < - 8640000000000000 \<or> t > 8640000000000000 then None else Some t)"

definition njs_days_in_year :: "int \<Rightarrow> int" where
  "njs_days_in_year y = 365 + of_bool (y smod 4 = 0) - of_bool (y smod 100 = 0) + of_bool (y smod 400 = 0)"

definition njs_days_from_year :: "int \<Rightarrow> int" where
  "njs_days_from_year y = 365 * (y - 1970) + njs_floor_div (y - 1969) 4 - njs_floor_div (y - 1901) 100 + njs_floor_div (y - 1601) 400"

definition month_days :: "int list" where
  "month_days = [31, 28, 31, 30, 31, 30, 31, 31, 30, 31, 30, 31]"

definition month_length :: "int \<Rightarrow> nat \<Rightarrow> int" where
  "month_length y i = month_days ! i + (if i = 1 then njs_days_in_year y - 365 else 0)"

definition min_year :: int where "min_year = - 271821"
definition max_year :: int where "max_year = 275760"

definition njs_make_day :: "int \<Rightarrow> int \<Rightarrow> int \<Rightarrow> int option" where
  "njs_make_day yr month date =
     (if yr < min_year \<or> yr > max_year \<or> month < min_year * 12 \<or> month > max_year * 12
         \<or> date < min_year * 12 * 366 \<or> date > max_year * 12 * 366 then None
      else
        (let mn = njs_mod month 12; ym = yr + (month - mn) sdiv 12
         in Some (foldl (\<lambda>days i. days + month_length ym i) (njs_days_from_year ym) [0..<nat mn] + date - 1)))"

definition njs_tz_offset :: "(int \<Rightarrow> int) \<Rightarrow> int \<Rightarrow> int" where
  "njs_tz_offset gmtoff time = (- gmtoff (time sdiv 1000)) sdiv 60"

lemma smod_abs: "0 < b \<Longrightarrow> a smod b = sgn a * (\<bar>a\<bar> mod b)" for b :: int
  by (simp add: signed_modulo_int_def signed_divide_int_def minus_mod_eq_div_mult[symmetric] abs_if sgn_if minus_div_mult_eq_mod right_diff_distrib)

lemma njs_mod_mod: "0 < b \<Longrightarrow> njs_mod a b = a mod b"
proof -
  assume b: "0 < b"
  note m = smod_abs[OF b, of a]
  show ?thesis
  proof (cases "0 \<le> a")
    case True
    then show ?thesis using m b by (cases "a = 0") (auto simp: njs_mod_def Let_def pos_mod_sign not_less)
  next
    case False
    then have "a smod b = - (- a mod b)" using m by simp
    moreover have "- a mod b = (if a mod b = 0 then 0 else b - a mod b)" by (simp add: zmod_zminus1_eq_if)
    ultimately show ?thesis using b pos_mod_bound[OF b, of a] pos_mod_sign[OF b, of a] by (auto simp: njs_mod_def Let_def)
  qed
qed

lemma sdiv_mult: "0 < b \<Longrightarrow> (b * q) sdiv b = q" for b :: int
  by (simp add: signed_divide_int_def abs_mult sgn_mult sgn_mult_abs)

lemma njs_floor_div_div: "0 < b \<Longrightarrow> njs_floor_div a b = a div b"
proof -
  assume b: "0 < b"
  have "njs_floor_div a b = (a - njs_mod a b) sdiv b" by (simp add: njs_floor_div_def njs_mod_def Let_def)
  also have "a - njs_mod a b = b * (a div b)" using njs_mod_mod[OF b, of a] by (simp add: minus_mod_eq_mult_div)
  finally show ?thesis using sdiv_mult[OF b] by simp
qed

lemma smod_zero: "0 < b \<Longrightarrow> a smod b = 0 \<longleftrightarrow> a mod b = 0" for b :: int
  by (auto simp: smod_abs sgn_if mod_eq_0_iff_dvd)

lemma days_in_year_range: "365 \<le> njs_days_in_year y" "njs_days_in_year y \<le> 366"
proof -
  have "y mod 400 = 0 \<longrightarrow> y mod 100 = 0" "y mod 100 = 0 \<longrightarrow> y mod 4 = 0" by presburger+
  then show "365 \<le> njs_days_in_year y" "njs_days_in_year y \<le> 366" by (auto simp: njs_days_in_year_def smod_zero)
qed

lemma days_from_year_next: "njs_days_from_year (y + 1) = njs_days_from_year y + njs_days_in_year y"
proof -
  have step: "(k + 1) div b = k div b + of_bool ((k + 1) mod b = 0)" if "0 < b" for k b :: int
  proof (cases "k mod b = b - 1")
    case True
    then have "k + 1 = b * (k div b + 1)" unfolding distrib_left using mult_div_mod_eq[of b k] by linarith
    then show ?thesis using that by (metis nonzero_mult_div_cancel_left mod_mult_self1_is_0 of_bool_eq(2) order_less_irrefl)
  next
    case False
    define q where "q = k div b"
    have r: "0 \<le> k mod b + 1" "k mod b + 1 < b" using False pos_mod_bound[OF that, of k] pos_mod_sign[OF that, of k] by auto
    have "k + 1 = b * q + (k mod b + 1)" using mult_div_mod_eq[of b k] by (simp add: q_def)
    then have "(k + 1) div b = q" "(k + 1) mod b = k mod b + 1" using r by (metis int_div_pos_eq mult.commute, metis int_mod_pos_eq mult.commute)
    then show ?thesis using pos_mod_sign[OF that, of k] by (simp add: q_def)
  qed
  show ?thesis
  proof -
    have m: "(y - 1968) mod 4 = y mod 4" "(y - 1900) mod 100 = y mod 100" "(y - 1600) mod 400 = y mod 400"
      using mod_mult_self1[of y "- 492" 4] mod_mult_self1[of y "- 19" 100] mod_mult_self1[of y "- 4" 400] by simp_all
    have e: "y - 1969 + 1 = y - 1968" "y - 1901 + 1 = y - 1900" "y - 1601 + 1 = y - 1600"
      "y + 1 - 1969 = y - 1968" "y + 1 - 1901 = y - 1900" "y + 1 - 1601 = y - 1600" "365 * (y + 1 - 1970) = 365 * (y - 1970) + 365" by simp_all
    note s = step[of 4 "y - 1969", OF zero_less_numeral, unfolded e m] step[of 100 "y - 1901", OF zero_less_numeral, unfolded e m]
      step[of 400 "y - 1601", OF zero_less_numeral, unfolded e m]
    show ?thesis
      unfolding njs_days_from_year_def njs_days_in_year_def njs_floor_div_div[OF zero_less_numeral] smod_zero[OF zero_less_numeral] e s by linarith
  qed
qed

text \<open>The loop goes to the year that has the day; it never goes in both directions.\<close>

function year_loop :: "int \<Rightarrow> int \<Rightarrow> int \<times> int" where
  "year_loop d y =
     (let d1 = d - njs_days_from_year y
      in if d1 < 0 then year_loop d (y - 1)
         else if d1 < njs_days_in_year y then (y, d1) else year_loop d (y + 1))"
  by pat_completeness auto
termination
proof (relation "measure (\<lambda>(d, y). nat (if d < njs_days_from_year y then njs_days_from_year y - d + 366 else d - njs_days_from_year y))", goal_cases)
  case (2 d y)
  then show ?case using days_from_year_next[of "y - 1"] days_in_year_range[of "y - 1"] by auto
next
  case (3 d y)
  then show ?case using days_from_year_next[of y] days_in_year_range[of y] by auto
qed simp

declare year_loop.simps [simp del]

text \<open>The year, and the day in it.\<close>

definition njs_year_from_days :: "int \<Rightarrow> int \<times> int" where
  "njs_year_from_days d = year_loop d (njs_floor_div (d * 10000) 3652425 + 1970)"

definition njs_make_date :: "(int \<Rightarrow> int) \<Rightarrow> int list \<Rightarrow> bool \<Rightarrow> int option" where
  "njs_make_date gmtoff tm local =
     (case njs_make_day (tm ! NJS_DATE_YR) (tm ! NJS_DATE_MON) (tm ! NJS_DATE_DAY) of
        None \<Rightarrow> None
      | Some days \<Rightarrow>
          (let time = dbl (dbl (dbl (dbl (dbl (dbl (tm ! NJS_DATE_HR) * 60) + dbl (tm ! NJS_DATE_MIN)) * 60)
                        + dbl (tm ! NJS_DATE_SEC)) * 1000);
               time = dbl (time + dbl (tm ! NJS_DATE_MSEC));
               time = dbl (time + dbl (days * 86400000))
           in if time < - 8640000000000000 \<or> time > 8640000000000000 then None
              else njs_timeclip (Some (if local then dbl (time + njs_tz_offset gmtoff time * 60000) else time))))"

text \<open>The month and the day in it, for a day of the year.\<close>

function month_loop :: "int \<Rightarrow> nat \<Rightarrow> int \<Rightarrow> nat \<times> int" where
  "month_loop y i days =
     (if i < 11 then (let md = month_length y i in if days < md then (i, days) else month_loop y (i + 1) (days - md))
      else (i, days))"
  by pat_completeness auto
termination by (relation "measure (\<lambda>(y, i, days). 11 - i)") auto

declare month_loop.simps [simp del]

definition njs_destruct_date :: "(int \<Rightarrow> int) \<Rightarrow> int option \<Rightarrow> bool \<Rightarrow> int list" where
  "njs_destruct_date gmtoff time local =
     (let time = (case time of None \<Rightarrow> 0 | Some t \<Rightarrow> if local then t - njs_tz_offset gmtoff t * 60000 else t);
          h = njs_mod time 86400000; days = (time - h) sdiv 86400000;
          ms = h smod 1000; h = (h - ms) sdiv 1000;
          s = h smod 60; h = (h - s) sdiv 60;
          m = h smod 60; h = (h - m) sdiv 60;
          wd = njs_mod (days + 4) 7;
          (y, days) = njs_year_from_days days;
          (i, days) = month_loop y 0 days
      in [wd, y, int i, days + 1, h, m, s, ms])"

subsection \<open>Constructor arguments and setters\<close>

text \<open>A numeric argument: None when it is not finite.\<close>

definition INT64_MIN :: int where "INT64_MIN = - (2 ^ 63)"

fun date_args_loop :: "int option list \<Rightarrow> nat \<Rightarrow> int list \<Rightarrow> int list" where
  "date_args_loop [] i tm = tm"
| "date_args_loop (a # args) i tm =
     (if i < 8 then
        date_args_loop args (i + 1) (case a of None \<Rightarrow> tm[NJS_DATE_YR := INT64_MIN] | Some n \<Rightarrow> tm[i := n])
      else tm)"

definition njs_date_args :: "int option list \<Rightarrow> int list" where
  "njs_date_args args =
     (let tm = date_args_loop args 1 ((replicate 8 0)[NJS_DATE_DAY := 1]);
          y = tm ! NJS_DATE_YR
      in if 0 \<le> y \<and> y < 100 then tm[NJS_DATE_YR := y + 1900] else tm)"

definition njs_date_utc :: "int option list \<Rightarrow> int option" where
  "njs_date_utc args = (if args = [] then None else njs_make_date (\<lambda>_. 0) (njs_date_args args) False)"

text \<open>The constructor with two or more arguments.\<close>

definition njs_date_constructor_fields :: "(int \<Rightarrow> int) \<Rightarrow> int option list \<Rightarrow> int option" where
  "njs_date_constructor_fields gmtoff args = njs_make_date gmtoff (njs_date_args args) True"

fun set_loop :: "int option list \<Rightarrow> nat \<Rightarrow> nat \<Rightarrow> int list \<Rightarrow> int list" where
  "set_loop (a # args) left since tm =
     (case a of
        None \<Rightarrow> (let tm = tm[NJS_DATE_YR := INT64_MIN] in if left - 1 = 0 then tm else set_loop args (left - 1) since tm)
      | Some n \<Rightarrow> (let tm = tm[since := n] in if left - 1 = 0 then tm else set_loop args (left - 1) (since + 1) tm))"
| "set_loop [] left since tm = tm"

text \<open>\<open>since\<close>, \<open>len\<close> and \<open>local\<close> are the parts of \<open>magic\<close>.\<close>

definition njs_date_prototype_set_fields :: "(int \<Rightarrow> int) \<Rightarrow> nat \<Rightarrow> nat \<Rightarrow> bool \<Rightarrow> int option \<Rightarrow> int option list \<Rightarrow> int option" where
  "njs_date_prototype_set_fields gmtoff since len local time args =
     (if args = [] \<or> since \<noteq> NJS_DATE_YR \<and> time = None then None
      else
        (let tm = set_loop args (min len (length args)) since (njs_destruct_date gmtoff time local)
         in njs_make_date gmtoff tm True))"

definition njs_date_prototype_set_time :: "int option list \<Rightarrow> int option" where
  "njs_date_prototype_set_time args = (case args of [] \<Rightarrow> None | t # _ \<Rightarrow> njs_timeclip t)"

definition njs_date_prototype_get_field :: "(int \<Rightarrow> int) \<Rightarrow> nat \<Rightarrow> bool \<Rightarrow> int option \<Rightarrow> int option" where
  "njs_date_prototype_get_field gmtoff field local time =
     (case time of None \<Rightarrow> None | Some t \<Rightarrow> Some (njs_destruct_date gmtoff time local ! field))"

definition njs_date_prototype_get_timezone_offset :: "(int \<Rightarrow> int) \<Rightarrow> int option \<Rightarrow> int option" where
  "njs_date_prototype_get_timezone_offset gmtoff time = map_option (njs_tz_offset gmtoff) time"

end
