(* ===== verification/Njs_Date_Text.thy ===== *)
theory Njs_Date_Text
  imports Njs_Date
begin

section \<open>Dates as text (src/src/njs_date.c, src/src/njs_sprintf.c)\<close>

text \<open>
  A pointer into the text is the rest of the text up to its \<open>end\<close>; None is NULL, and NaN as the result of a parser.  The
  array \<open>tm\<close> is passed along.
\<close>

definition chr :: "char \<Rightarrow> u_char" where "chr c = of_char c"

abbreviation text_of :: "string \<Rightarrow> u_char list" where "text_of s \<equiv> map chr s"

subsection \<open>Parsing\<close>

text \<open>The loop body is run at least once; \<open>size\<close> is a \<open>size_t\<close>.\<close>

fun number_loop :: "int \<Rightarrow> u_char list \<Rightarrow> 64 word \<Rightarrow> (int \<times> u_char list) option" where
  "number_loop n [] sz = None"
| "number_loop n (c # p) sz =
     (let c = c - 0x30
      in if c > 9 then None
         else
           (let n = n * 10 + uint c; sz = sz - 1
            in if sz \<noteq> 0 then number_loop n p sz else Some (n, p)))"

definition njs_date_number_parse :: "u_char list \<Rightarrow> nat \<Rightarrow> (int \<times> u_char list) option" where
  "njs_date_number_parse p sz = number_loop 0 p (of_nat sz)"

definition set_field :: "nat \<Rightarrow> int list \<Rightarrow> (int \<times> u_char list) option \<Rightarrow> (int list \<times> u_char list) option" where
  "set_field i tm r = map_option (\<lambda>(n, p). (tm[i := n], p)) r"

definition njs_date_time_parse :: "int list \<Rightarrow> u_char list \<Rightarrow> (int list \<times> u_char list) option" where
  "njs_date_time_parse tm p =
     (case set_field NJS_DATE_HR tm (njs_date_number_parse p 2) of
        None \<Rightarrow> None
      | Some (tm, []) \<Rightarrow> None
      | Some (tm, c # p) \<Rightarrow>
          if c \<noteq> chr CHR '':'' then None
          else
            (case set_field NJS_DATE_MIN tm (njs_date_number_parse p 2) of
               None \<Rightarrow> None
             | Some (tm, []) \<Rightarrow> Some (tm, [])
             | Some (tm, c # p) \<Rightarrow> if c \<noteq> chr CHR '':'' then None else set_field NJS_DATE_SEC tm (njs_date_number_parse p 2)))"

definition njs_date_gmtoff_parse :: "u_char list \<Rightarrow> int" where
  "njs_date_gmtoff_parse start =
     (if 4 < length start \<and> (start ! 0 = chr CHR ''+'' \<or> start ! 0 = chr CHR ''-'') then
        (case njs_date_number_parse (drop 1 start) 2 of
           None \<Rightarrow> - 1
         | Some (hour, p) \<Rightarrow>
             (case njs_date_number_parse p 2 of
                None \<Rightarrow> - 1
              | Some (minute, p) \<Rightarrow>
                  (let gmtoff = hour * 60 + minute in if start ! 0 = chr CHR ''-'' then - gmtoff else gmtoff)))
      else - 1)"

definition njs_date_utc_offset_parse :: "u_char list \<Rightarrow> int" where
  "njs_date_utc_offset_parse start =
     (if 2 < length start \<and> (start ! 0 = chr CHR ''+'' \<or> start ! 0 = chr CHR ''-'') then
        (case njs_date_number_parse (drop 1 start) 2 of
           None \<Rightarrow> - 1
         | Some (hour, p) \<Rightarrow>
             if hour > 23 then - 1
             else
               (case njs_date_number_parse (if p \<noteq> [] \<and> hd p = chr CHR '':'' then tl p else p) 2 of
                  None \<Rightarrow> - 1
                | Some (minute, p) \<Rightarrow>
                    if minute > 59 then - 1
                    else
                      (let utc_off = hour * 60 + minute in if start ! 0 = chr CHR ''-'' then - utc_off else utc_off)))
      else - 1)"

fun njs_date_skip_week_day :: "u_char list \<Rightarrow> u_char list option" where
  "njs_date_skip_week_day [] = None"
| "njs_date_skip_week_day (c # p) = (if c = chr CHR '' '' then Some (c # p) else njs_date_skip_week_day p)"

definition njs_date_skip_spaces :: "u_char list \<Rightarrow> u_char list option" where
  "njs_date_skip_spaces p =
     (case p of
        [] \<Rightarrow> None
      | c # p \<Rightarrow> if c = chr CHR '' '' then Some (dropWhile (\<lambda>c. c = chr CHR '' '') p) else None)"

definition month_names :: "string list" where
  "month_names = [''Jan'', ''Feb'', ''Mar'', ''Apr'', ''May'', ''Jun'', ''Jul'', ''Aug'', ''Sep'', ''Oct'', ''Nov'', ''Dec'']"

definition week_names :: "string list" where
  "week_names = [''Sun'', ''Mon'', ''Tue'', ''Wed'', ''Thu'', ''Fri'', ''Sat'']"

definition njs_date_month_parse :: "u_char list \<Rightarrow> int" where
  "njs_date_month_parse p =
     (if 2 < length p then
        (let is = (\<lambda>i c. p ! i = chr c)
         in if is 0 CHR ''J'' then
              (if is 1 CHR ''a'' \<and> is 2 CHR ''n'' then 0
               else if is 1 CHR ''u'' \<and> is 2 CHR ''n'' then 5
               else if is 1 CHR ''u'' \<and> is 2 CHR ''l'' then 6 else - 1)
            else if is 0 CHR ''F'' then (if is 1 CHR ''e'' \<and> is 2 CHR ''b'' then 1 else - 1)
            else if is 0 CHR ''M'' then
              (if is 1 CHR ''a'' \<and> is 2 CHR ''r'' then 2 else if is 1 CHR ''a'' \<and> is 2 CHR ''y'' then 4 else - 1)
            else if is 0 CHR ''A'' then
              (if is 1 CHR ''p'' \<and> is 2 CHR ''r'' then 3 else if is 1 CHR ''u'' \<and> is 2 CHR ''g'' then 7 else - 1)
            else if is 0 CHR ''S'' then (if is 1 CHR ''e'' \<and> is 2 CHR ''p'' then 8 else - 1)
            else if is 0 CHR ''O'' then (if is 1 CHR ''c'' \<and> is 2 CHR ''t'' then 9 else - 1)
            else if is 0 CHR ''N'' then (if is 1 CHR ''o'' \<and> is 2 CHR ''v'' then 10 else - 1)
            else if is 0 CHR ''D'' then (if is 1 CHR ''e'' \<and> is 2 CHR ''c'' then 11 else - 1)
            else - 1)
      else - 1)"

text \<open>What the two parsers of long dates share: the time behind the year, and the rest of the text behind it.\<close>

definition time_after_year :: "int list \<Rightarrow> u_char list \<Rightarrow> (int list \<times> u_char list) option" where
  "time_after_year tm p =
     (if p = [] then Some (tm, [])
      else
        (case njs_date_skip_spaces p of
           None \<Rightarrow> None
         | Some [] \<Rightarrow> Some (tm, [])
         | Some p \<Rightarrow>
             (case njs_date_time_parse tm p of
                None \<Rightarrow> None
              | Some (tm, []) \<Rightarrow> Some (tm, [])
              | Some (tm, p) \<Rightarrow> map_option (\<lambda>p. (tm, p)) (njs_date_skip_spaces p))))"

definition njs_date_rfc2822_string_parse :: "int list \<Rightarrow> u_char list \<Rightarrow> int option" where
  "njs_date_rfc2822_string_parse tm p =
     (case njs_date_skip_spaces p of
        None \<Rightarrow> None
      | Some p \<Rightarrow>
          (let tm = tm[NJS_DATE_MON := njs_date_month_parse p]
           in if tm ! NJS_DATE_MON < 0 then None
              else
                (case njs_date_skip_spaces (drop 3 p) of
                   None \<Rightarrow> None
                 | Some p \<Rightarrow>
                     (case set_field NJS_DATE_YR tm (njs_date_number_parse p 4) of
                        None \<Rightarrow> None
                      | Some (tm, p) \<Rightarrow>
                          (case time_after_year tm p of
                             None \<Rightarrow> None
                           | Some (tm, p) \<Rightarrow>
                               (let finish = (\<lambda>gmtoff. njs_make_date (\<lambda>_. 0) (tm[NJS_DATE_MSEC := - gmtoff * 60000]) False)
                                in if p = [] then finish 0
                                   else if length p \<le> 2 then None
                                   else if take 3 p = text_of ''GMT'' \<or> take 3 p = text_of ''UTC'' then finish 0
                                   else
                                     (let gmtoff = njs_date_gmtoff_parse p in if gmtoff = - 1 then None else finish gmtoff)))))))"

definition njs_date_js_string_parse :: "int list \<Rightarrow> u_char list \<Rightarrow> int option" where
  "njs_date_js_string_parse tm p =
     (case njs_date_skip_spaces p of
        None \<Rightarrow> None
      | Some p \<Rightarrow>
          (case set_field NJS_DATE_DAY tm (njs_date_number_parse p 2) of
             None \<Rightarrow> None
           | Some (tm, p) \<Rightarrow>
               (case njs_date_skip_spaces p of
                  None \<Rightarrow> None
                | Some p \<Rightarrow>
                    (case set_field NJS_DATE_YR tm (njs_date_number_parse p 4) of
                       None \<Rightarrow> None
                     | Some (tm, p) \<Rightarrow>
                         (case time_after_year tm p of
                            None \<Rightarrow> None
                          | Some (tm, p) \<Rightarrow>
                              if p = [] then njs_make_date (\<lambda>_. 0) tm False
                              else if 2 < length p \<and> take 3 p = text_of ''GMT'' then
                                (let gmtoff = njs_date_gmtoff_parse (drop 3 p)
                                 in if gmtoff \<noteq> - 1 then njs_make_date (\<lambda>_. 0) (tm[NJS_DATE_MSEC := - gmtoff * 60000]) False else None)
                              else None)))))"

text \<open>ISO 8601: the fraction of a second and the offset behind it, then the date.\<close>

definition ms_length :: "u_char list \<Rightarrow> nat" where
  "ms_length p = length (takeWhile (\<lambda>c. \<not> (c < 0x30 \<or> c > 0x39)) p)"

definition iso_fraction :: "(int \<Rightarrow> int) \<Rightarrow> int list \<Rightarrow> u_char list \<Rightarrow> bool \<Rightarrow> int option" where
  "iso_fraction gmtoff tm p utc =
     (let k = ms_length p
      in case set_field NJS_DATE_MSEC tm (njs_date_number_parse p (min k 3)) of
           None \<Rightarrow> None
         | Some (tm, _) \<Rightarrow>
             (let tm = tm[NJS_DATE_MSEC := tm ! NJS_DATE_MSEC * (if k = 1 then 100 else if k = 2 then 10 else 1)];
                  p = drop k p
              in if p \<noteq> [] then
                   (let utc_off = njs_date_utc_offset_parse p
                    in if utc_off = - 1 then None
                       else njs_make_date gmtoff (tm[NJS_DATE_MSEC := tm ! NJS_DATE_MSEC + - utc_off * 60000]) (\<not> True))
                 else njs_make_date gmtoff tm (\<not> utc)))"

definition iso_time :: "(int \<Rightarrow> int) \<Rightarrow> int list \<Rightarrow> u_char list \<Rightarrow> int option" where
  "iso_time gmtoff tm p =
     (let utc = (last p = chr CHR ''Z''); p = (if utc then butlast p else p)
      in case njs_date_time_parse tm (tl p) of
           None \<Rightarrow> None
         | Some (tm, []) \<Rightarrow> njs_make_date gmtoff tm (\<not> utc)
         | Some (tm, c # p) \<Rightarrow> if c \<noteq> chr CHR ''.'' then None else iso_fraction gmtoff tm p utc)"

definition iso_month_day :: "(int \<Rightarrow> int) \<Rightarrow> int list \<Rightarrow> u_char list \<Rightarrow> int option" where
  "iso_month_day gmtoff tm p =
     (case set_field NJS_DATE_MON tm (njs_date_number_parse p 2) of
        None \<Rightarrow> None
      | Some (tm, p) \<Rightarrow>
          (let tm = tm[NJS_DATE_MON := tm ! NJS_DATE_MON - 1]
           in case p of
                [] \<Rightarrow> njs_make_date gmtoff tm (\<not> True)
              | c # p \<Rightarrow>
                  if c \<noteq> chr CHR ''-'' then None
                  else
                    (case set_field NJS_DATE_DAY tm (njs_date_number_parse p 2) of
                       None \<Rightarrow> None
                     | Some (tm, []) \<Rightarrow> njs_make_date gmtoff tm (\<not> True)
                     | Some (tm, c # p) \<Rightarrow> if c \<noteq> chr CHR ''T'' then None else iso_time gmtoff tm (c # p))))"

definition iso_parse :: "(int \<Rightarrow> int) \<Rightarrow> bool \<Rightarrow> int list \<Rightarrow> u_char list \<Rightarrow> int option" where
  "iso_parse gmtoff neg tm next =
     (case next of
        [] \<Rightarrow> njs_make_date gmtoff tm (\<not> True)
      | c # p \<Rightarrow>
          if c \<noteq> chr CHR ''-'' then
            (case njs_date_number_parse next 2 of
               None \<Rightarrow> None
             | Some (ext, next) \<Rightarrow>
                 (let y = tm ! NJS_DATE_YR * 100 + ext
                  in if neg \<and> y = 0 then None
                     else
                       (let tm = tm[NJS_DATE_YR := (if neg then - y else y)]
                        in case next of
                             [] \<Rightarrow> njs_make_date gmtoff tm (\<not> True)
                           | c # p \<Rightarrow> if c \<noteq> chr CHR ''-'' then None else iso_month_day gmtoff tm p)))
          else iso_month_day gmtoff tm p)"

text \<open>The other formats: a day, or the name of a month; after at most one word for the day of the week.\<close>

definition long_parse :: "int list \<Rightarrow> u_char list \<Rightarrow> int option option" where
  "long_parse tm p =
     (case set_field NJS_DATE_DAY tm (njs_date_number_parse p 2) of
        Some (tm, next) \<Rightarrow> Some (njs_date_rfc2822_string_parse tm next)
      | None \<Rightarrow>
          (let tm = tm[NJS_DATE_MON := njs_date_month_parse p]
           in if tm ! NJS_DATE_MON \<ge> 0 then Some (njs_date_js_string_parse tm (drop 3 p)) else None))"

definition njs_date_string_parse :: "(int \<Rightarrow> int) \<Rightarrow> u_char list \<Rightarrow> int option" where
  "njs_date_string_parse gmtoff string =
     (case string of
        [] \<Rightarrow> None
      | c # r \<Rightarrow>
          (let sign = (c = chr CHR ''+'' \<or> c = chr CHR ''-''); p = (if sign then r else string);
               tm = [0, 0, 0, 1, 0, 0, 0, 0]
           in case set_field NJS_DATE_YR tm (njs_date_number_parse p 4) of
                Some (tm, next) \<Rightarrow> iso_parse gmtoff (c = chr CHR ''-'') tm next
              | None \<Rightarrow>
                  if sign then None
                  else
                    (case long_parse tm p of
                       Some r \<Rightarrow> r
                     | None \<Rightarrow>
                         (case njs_date_skip_week_day p of
                            None \<Rightarrow> None
                          | Some p \<Rightarrow>
                              (case njs_date_skip_spaces p of
                                 None \<Rightarrow> None
                               | Some p \<Rightarrow> (case long_parse (tm[NJS_DATE_MON := - 1]) p of Some r \<Rightarrow> r | None \<Rightarrow> None))))))"

subsection \<open>Printing\<close>

text \<open>\<open>njs_integer\<close>: the decimal digits, and zeros before them up to the width.\<close>

function digits :: "nat \<Rightarrow> u_char list" where
  "digits n = (if n div 10 = 0 then [of_nat (n mod 10) + 0x30] else digits (n div 10) @ [of_nat (n mod 10) + 0x30])"
  by pat_completeness auto
termination by (relation "measure id") auto

declare digits.simps [simp del]

definition njs_integer :: "nat \<Rightarrow> nat \<Rightarrow> u_char list" where
  "njs_integer width n = replicate (width - length (digits n)) 0x30 @ digits n"

definition sprintf_int :: "nat \<Rightarrow> int \<Rightarrow> u_char list" where
  "sprintf_int width i = (if i < 0 then chr CHR ''-'' # njs_integer width (nat (- i)) else njs_integer width (nat i))"

definition NJS_DATE_TIME_LEN :: nat where "NJS_DATE_TIME_LEN = 42"

text \<open>\<open>njs_sprintf(p, buf + NJS_DATE_TIME_LEN, ...)\<close> stops at the end of the buffer.\<close>

definition print_to :: "u_char list \<Rightarrow> u_char list \<Rightarrow> u_char list" where
  "print_to p text = take NJS_DATE_TIME_LEN (p @ text)"

datatype njs_date_fmt = NJS_DATE_FMT_TO_TIME_STRING | NJS_DATE_FMT_TO_DATE_STRING | NJS_DATE_FMT_TO_STRING
  | NJS_DATE_FMT_TO_UTC_STRING | NJS_DATE_FMT_TO_ISO_STRING

definition hms :: "int list \<Rightarrow> u_char list" where
  "hms tm = sprintf_int 2 (tm ! NJS_DATE_HR) @ text_of '':'' @ sprintf_int 2 (tm ! NJS_DATE_MIN) @ text_of '':'' @ sprintf_int 2 (tm ! NJS_DATE_SEC)"

definition njs_date_string :: "(int \<Rightarrow> int) \<Rightarrow> njs_date_fmt \<Rightarrow> int option \<Rightarrow> u_char list" where
  "njs_date_string gmtoff fmt time =
     (case time of
        None \<Rightarrow> text_of ''Invalid Date''
      | Some t \<Rightarrow>
          if fmt = NJS_DATE_FMT_TO_UTC_STRING \<or> fmt = NJS_DATE_FMT_TO_ISO_STRING then
            (let tm = njs_destruct_date gmtoff time False; year = tm ! NJS_DATE_YR
             in if fmt = NJS_DATE_FMT_TO_UTC_STRING then
                  print_to []
                    (text_of (week_names ! nat (tm ! NJS_DATE_WDAY)) @ text_of '', '' @ sprintf_int 2 (tm ! NJS_DATE_DAY) @ text_of '' '' @
                     text_of (month_names ! nat (tm ! NJS_DATE_MON)) @ text_of '' '' @ sprintf_int 4 year @ text_of '' '' @ hms tm @ text_of '' GMT'')
                else
                  print_to
                    (if 0 \<le> year \<and> year \<le> 9999 then print_to [] (sprintf_int 4 year)
                     else print_to (if year > 0 then text_of ''+'' else []) (sprintf_int 6 year))
                    (text_of ''-'' @ sprintf_int 2 (tm ! NJS_DATE_MON + 1) @ text_of ''-'' @ sprintf_int 2 (tm ! NJS_DATE_DAY) @ text_of ''T'' @ hms tm @
                     text_of ''.'' @ sprintf_int 3 (tm ! NJS_DATE_MSEC) @ text_of ''Z''))
          else
            (let tm = njs_destruct_date gmtoff time True;
                 p = (if fmt \<noteq> NJS_DATE_FMT_TO_TIME_STRING then
                        print_to []
                          (text_of (week_names ! nat (tm ! NJS_DATE_WDAY)) @ text_of '' '' @ text_of (month_names ! nat (tm ! NJS_DATE_MON)) @ text_of '' '' @
                           sprintf_int 2 (tm ! NJS_DATE_DAY) @ text_of '' '' @ sprintf_int 4 (tm ! NJS_DATE_YR))
                      else [])
             in if fmt \<noteq> NJS_DATE_FMT_TO_DATE_STRING then
                  (let tz = - njs_tz_offset gmtoff t;
                       sign = (if tz < 0 then chr CHR ''-'' else chr CHR ''+'');
                       tz = (if tz < 0 then - tz else tz);
                       p = (if p \<noteq> [] then p @ text_of '' '' else p)
                   in print_to p (hms tm @ text_of '' GMT'' @ [sign] @ sprintf_int 2 (tz sdiv 60) @ sprintf_int 2 (tz smod 60)))
                else p))"

definition njs_date_prototype_to_string :: "(int \<Rightarrow> int) \<Rightarrow> njs_date_fmt \<Rightarrow> int option \<Rightarrow> codec_error + u_char list" where
  "njs_date_prototype_to_string gmtoff fmt time =
     (if fmt = NJS_DATE_FMT_TO_ISO_STRING \<and> time = None then Inl (RangeErr ''Invalid time value'')
      else Inr (njs_date_string gmtoff fmt time))"

definition njs_date_to_string :: "(int \<Rightarrow> int) \<Rightarrow> int option \<Rightarrow> u_char list" where
  "njs_date_to_string gmtoff time = njs_date_string gmtoff NJS_DATE_FMT_TO_ISO_STRING time"

end
