(* ===== verification/Njs_Date_Calendar.thy ===== *)
theory Njs_Date_Calendar
  imports Njs_Date
begin

section \<open>The calendar: times and fields determine each other\<close>

subsection \<open>Years\<close>

lemma days_from_year_mono: "y \<le> z \<Longrightarrow> njs_days_from_year y + 365 * (z - y) \<le> njs_days_from_year z"
proof (induction z rule: int_ge_induct)
  case (step z)
  then show ?case using days_from_year_next[of z] days_in_year_range(1)[of z] by (simp add: algebra_simps)
qed simp

lemma year_unique:
  assumes "njs_days_from_year y \<le> d" "d < njs_days_from_year (y + 1)" "njs_days_from_year z \<le> d" "d < njs_days_from_year (z + 1)"
  shows "y = z"
proof (rule ccontr)
  assume "y \<noteq> z"
  then consider "y + 1 \<le> z" | "z + 1 \<le> y" by linarith
  then show False
  proof cases
    case 1
    then have "0 \<le> 365 * (z - (y + 1))" by simp
    then show False using days_from_year_mono[OF 1] assms(2,3) by simp
  next
    case 2
    then have "0 \<le> 365 * (y - (z + 1))" by simp
    then show False using days_from_year_mono[OF 2] assms(1,4) by simp
  qed
qed

lemma year_loop_correct:
  "\<exists>z d1. year_loop d y = (z, d1) \<and> njs_days_from_year z \<le> d \<and> d < njs_days_from_year (z + 1) \<and> d1 = d - njs_days_from_year z"
proof (induction d y rule: year_loop.induct)
  case (1 d y)
  then show ?case using days_from_year_next[of y] by (subst year_loop.simps) (auto simp: Let_def)
qed

lemma year_from_days:
  assumes "njs_days_from_year y \<le> d" "d < njs_days_from_year (y + 1)"
  shows "njs_year_from_days d = (y, d - njs_days_from_year y)"
  using year_loop_correct[of d "njs_floor_div (d * 10000) 3652425 + 1970"] year_unique[OF assms] by (auto simp: njs_year_from_days_def)

lemma year_exists: "\<exists>y. njs_days_from_year y \<le> d \<and> d < njs_days_from_year (y + 1)"
  using year_loop_correct[of d 0] by blast

subsection \<open>Months\<close>

definition days_before :: "int \<Rightarrow> nat \<Rightarrow> int" where
  "days_before y i = foldl (\<lambda>days j. days + month_length y j) 0 [0..<i]"

lemma days_before_simps [simp]: "days_before y 0 = 0" "days_before y (Suc i) = days_before y i + month_length y i"
  by (simp_all add: days_before_def)

lemma foldl_add: "foldl (\<lambda>days j. days + f j) (a :: int) js = a + foldl (\<lambda>days j. days + f j) 0 js"
proof (induction js arbitrary: a)
  case (Cons j js)
  show ?case using Cons[of "a + f j"] Cons[of "f j"] by simp
qed simp

lemma nat_below_12: "i < 12 \<longleftrightarrow> i \<in> {0, 1, 2, 3, 4, 5, 6, 7, 8, 9, 10, 11}" for i :: nat
  by (auto simp: numeral_eq_Suc less_Suc_eq)

lemma month_length_pos: "i < 12 \<Longrightarrow> 28 \<le> month_length y i"
  using days_in_year_range(1)[of y] by (auto simp: nat_below_12 month_length_def month_days_def)

lemma days_before_year: "days_before y 12 = njs_days_in_year y"
  by (simp add: eval_nat_numeral month_length_def month_days_def)

lemma days_before_mono: "i \<le> j \<Longrightarrow> j \<le> 12 \<Longrightarrow> days_before y i \<le> days_before y j"
proof (induction j rule: dec_induct)
  case (step j)
  then show ?case using month_length_pos[of j y] by simp
qed simp

lemma month_loop_correct:
  assumes "days_before y i + d < njs_days_in_year y" "0 \<le> d" "i \<le> 11"
  shows "\<exists>j e. month_loop y i d = (j, e) \<and> j \<le> 11 \<and> 0 \<le> e \<and> e < month_length y j \<and> days_before y j + e = days_before y i + d"
  using assms
proof (induction y i d rule: month_loop.induct)
  case (1 y i d)
  show ?case
  proof (cases "i < 11 \<and> \<not> d < month_length y i")
    case True
    then have "days_before y (i + 1) + (d - month_length y i) < njs_days_in_year y" "0 \<le> d - month_length y i" "i + 1 \<le> 11" using "1.prems" by auto
    from "1.IH"[OF _ refl _ this] True show ?thesis by (subst month_loop.simps) (simp add: Let_def)
  next
    case False
    have "d < month_length y i"
    proof (cases "i < 11")
      case eleven: False
      then have "i = 11" using "1.prems"(3) by simp
      then show ?thesis using "1.prems"(1) days_before_year[of y] by (simp add: eval_nat_numeral)
    qed (use False in simp)
    then show ?thesis using False "1.prems" by (subst month_loop.simps) (auto simp: Let_def)
  qed
qed

lemma month_unique:
  assumes "i \<le> 11" "0 \<le> d" "d < month_length y i" "j \<le> 11" "0 \<le> e" "e < month_length y j" "days_before y i + d = days_before y j + e"
  shows "i = j \<and> d = e"
proof -
  have "\<not> i < j"
    using days_before_mono[of "Suc i" j y] assms by auto
  moreover have "\<not> j < i"
    using days_before_mono[of "Suc j" i y] assms by auto
  ultimately have "i = j" by simp
  then show ?thesis using assms(7) by simp
qed

lemma month_loop_fields:
  assumes "i \<le> 11" "0 \<le> d" "d < month_length y i"
  shows "month_loop y 0 (days_before y i + d) = (i, d)"
proof -
  have "0 \<le> days_before y i" using days_before_mono[of 0 i y] assms(1) by simp
  moreover have "days_before y (Suc i) \<le> njs_days_in_year y" using days_before_mono[of "Suc i" 12 y] days_before_year[of y] assms(1) by simp
  ultimately have "days_before y 0 + (days_before y i + d) < njs_days_in_year y" "0 \<le> days_before y i + d" using assms by simp_all
  from month_loop_correct[OF this le0] obtain j e where je: "month_loop y 0 (days_before y i + d) = (j, e)" "j \<le> 11" "0 \<le> e" "e < month_length y j"
      and eq: "days_before y i + d = days_before y j + e" unfolding days_before_simps(1) add_0 by metis
  show ?thesis using month_unique[OF assms je(2-4) eq] je(1) by simp
qed

subsection \<open>Times\<close>

lemma smod_nonneg: "0 \<le> a \<Longrightarrow> 0 < b \<Longrightarrow> a smod b = a mod b" for a b :: int
  by (cases "a = 0") (simp_all add: smod_abs)

lemma sdiv_rest: "0 < b \<Longrightarrow> (a - a mod b) sdiv b = a div b" for a b :: int
  using sdiv_mult[of b "a div b"] by (simp add: minus_mod_eq_mult_div)

definition time_fields :: "int \<Rightarrow> int list" where
  "time_fields h = [h div 3600000, h div 60000 mod 60, h div 1000 mod 60, h mod 1000]"

lemma destruct_fields:
  assumes "njs_days_from_year y \<le> t div 86400000" "t div 86400000 < njs_days_from_year (y + 1)"
    "month_loop y 0 (t div 86400000 - njs_days_from_year y) = (i, d)"
  shows "njs_destruct_date g (Some t) False =
    [(t div 86400000 + 4) mod 7, y, int i, d + 1] @ time_fields (t mod 86400000)"
proof -
  define h where "h = t mod 86400000"
  have h: "0 \<le> h" by (simp add: h_def)
  have d: "(t - h) sdiv 86400000 = t div 86400000" unfolding h_def by (rule sdiv_rest) simp
  have a: "h smod 1000 = h mod 1000" "(h - h mod 1000) sdiv 1000 = h div 1000" using h smod_nonneg sdiv_rest[of 1000 h] by auto
  have b: "h div 1000 smod 60 = h div 1000 mod 60" "(h div 1000 - h div 1000 mod 60) sdiv 60 = h div 60000"
    using h smod_nonneg[of "h div 1000" 60] sdiv_rest[of 60 "h div 1000"] by (auto simp: zdiv_zmult2_eq[symmetric])
  have c: "h div 60000 smod 60 = h div 60000 mod 60" "(h div 60000 - h div 60000 mod 60) sdiv 60 = h div 3600000"
    using h smod_nonneg[of "h div 60000" 60] sdiv_rest[of 60 "h div 60000"] by (auto simp: zdiv_zmult2_eq[symmetric])
  show ?thesis
    unfolding njs_destruct_date_def option.case if_False Let_def njs_mod_mod[OF zero_less_numeral] h_def[symmetric] d a b c
      year_from_days[OF assms(1,2)] case_prod_conv assms(3) time_fields_def by simp
qed

lemma dbl_exact: "\<bar>x\<bar> < 2 ^ 53 \<Longrightarrow> dbl x = x"
proof -
  assume "\<bar>x\<bar> < 2 ^ 53"
  then have "bitlen \<bar>x\<bar> \<le> 53" using bitlen_le_iff_power[of "\<bar>x\<bar>" 53] by simp
  then have "nat (bitlen \<bar>x\<bar>) - 53 = 0" by simp
  then have "dbl x = sgn x * round_even \<bar>x\<bar> 1" by (simp add: dbl_def)
  also have "round_even \<bar>x\<bar> 1 = \<bar>x\<bar>" by (simp add: round_even_def)
  finally show ?thesis by (simp add: sgn_mult_abs)
qed

text \<open>The fields of a day and of the time in it.\<close>

definition valid_fields :: "int list \<Rightarrow> bool" where
  "valid_fields tm \<longleftrightarrow>
     (\<exists>w y i d h m s ms. tm = [w, y, int i, d, h, m, s, ms] \<and> i \<le> 11 \<and> 1 \<le> d \<and> d \<le> month_length y i \<and>
        0 \<le> h \<and> h < 24 \<and> 0 \<le> m \<and> m < 60 \<and> 0 \<le> s \<and> s < 60 \<and> 0 \<le> ms \<and> ms < 1000)"

lemma date_index: "NJS_DATE_WDAY = 0" "NJS_DATE_YR = 1" "NJS_DATE_MON = 2" "NJS_DATE_DAY = 3" "NJS_DATE_HR = 4" "NJS_DATE_MIN = 5" "NJS_DATE_SEC = 6" "NJS_DATE_MSEC = 7"
  by (simp_all add: NJS_DATE_WDAY_def NJS_DATE_YR_def NJS_DATE_MON_def NJS_DATE_DAY_def NJS_DATE_HR_def NJS_DATE_MIN_def NJS_DATE_SEC_def NJS_DATE_MSEC_def)

lemma tm_nth [simp]: "[a, b, c, d, e, f, g, h] ! 2 = c" "[a, b, c, d, e, f, g, h] ! 3 = d" "[a, b, c, d, e, f, g, h] ! 4 = e"
    "[a, b, c, d, e, f, g, h] ! 5 = f" "[a, b, c, d, e, f, g, h] ! 6 = g" "[a, b, c, d, e, f, g, h] ! 7 = h"
  by (simp_all add: eval_nat_numeral)

definition day_number :: "int \<Rightarrow> nat \<Rightarrow> int \<Rightarrow> int" where
  "day_number y i d = njs_days_from_year y + days_before y i + d - 1"

lemma make_day_fields:
  assumes "min_year \<le> y" "y \<le> max_year" "i \<le> 11" "1 \<le> d" "d \<le> 31"
  shows "njs_make_day y (int i) d = Some (day_number y i d)"
proof -
  have "int i mod 12 = int i" using assms(3) by simp
  then show ?thesis
    using assms foldl_add[of "month_length y" "njs_days_from_year y" "[0..<i]"]
    by (simp add: njs_make_day_def njs_mod_mod min_year_def max_year_def day_number_def days_before_def Let_def)
qed

lemma month_length_31: "i \<le> 11 \<Longrightarrow> month_length y i \<le> 31"
  using days_in_year_range(2)[of y] nat_below_12[of i] by (auto simp: month_length_def month_days_def)

lemma year_bounds: "njs_days_from_year (- 271821) = - 100000109" "njs_days_from_year 275761 = 100000110"
  by (simp_all add: njs_days_from_year_def njs_floor_div_div)

lemma day_in_year:
  assumes "i \<le> 11" "1 \<le> d" "d \<le> month_length y i"
  shows "njs_days_from_year y \<le> day_number y i d" "day_number y i d < njs_days_from_year (y + 1)"
proof -
  have "0 \<le> days_before y i" using days_before_mono[of 0 i y] assms(1) by simp
  moreover have "days_before y (Suc i) \<le> njs_days_in_year y" using days_before_mono[of "Suc i" 12 y] days_before_year[of y] assms(1) by simp
  ultimately show "njs_days_from_year y \<le> day_number y i d" "day_number y i d < njs_days_from_year (y + 1)"
    using assms days_from_year_next[of y] by (simp_all add: day_number_def)
qed

lemma day_number_bounds:
  assumes "i \<le> 11" "1 \<le> d" "d \<le> month_length y i" "min_year \<le> y" "y \<le> max_year"
  shows "- 100000109 \<le> day_number y i d" "day_number y i d < 100000110"
proof -
  have "0 \<le> 365 * (y - (- 271821))" "0 \<le> 365 * (275761 - (y + 1))" using assms(4,5) by (simp_all add: min_year_def max_year_def)
  moreover have "- 271821 \<le> y" "y + 1 \<le> 275761" using assms(4,5) by (simp_all add: min_year_def max_year_def)
  ultimately show "- 100000109 \<le> day_number y i d" "day_number y i d < 100000110"
    using days_from_year_mono[of "- 271821" y] days_from_year_mono[of "y + 1" 275761] year_bounds day_in_year[OF assms(1-3)] by linarith+
qed

definition time_of :: "int \<Rightarrow> nat \<Rightarrow> int \<Rightarrow> int \<Rightarrow> int \<Rightarrow> int \<Rightarrow> int \<Rightarrow> int" where
  "time_of y i d h m s ms = day_number y i d * 86400000 + ((h * 60 + m) * 60 + s) * 1000 + ms"

text \<open>The amount of \<open>ms\<close> may be that of an offset of a time zone.\<close>

lemma make_date_fields:
  assumes "i \<le> 11" "1 \<le> d" "d \<le> month_length y i" "0 \<le> h" "h < 100" "0 \<le> m" "m < 100" "0 \<le> s" "s < 100" "\<bar>ms\<bar> < 2 ^ 33" "min_year \<le> y" "y \<le> max_year"
  shows "njs_make_date g [w, y, int i, d, h, m, s, ms] False =
    (let t = time_of y i d h m s ms in if t < - 8640000000000000 \<or> t > 8640000000000000 then None else Some t)"
proof -
  have day: "njs_make_day y (int i) d = Some (day_number y i d)" using make_day_fields assms month_length_31[of i y] by (meson order_trans)
  define n where "n = day_number y i d"
  have n: "- 100000109 \<le> n" "n < 100000110" using day_number_bounds[OF assms(1-3,11,12)] by (simp_all add: n_def)
  have e: "dbl h = h" "dbl m = m" "dbl s = s" "dbl ms = ms" "dbl (h * 60) = h * 60" "dbl (h * 60 + m) = h * 60 + m" "dbl ((h * 60 + m) * 60) = (h * 60 + m) * 60"
    "dbl ((h * 60 + m) * 60 + s) = (h * 60 + m) * 60 + s" "dbl (((h * 60 + m) * 60 + s) * 1000) = ((h * 60 + m) * 60 + s) * 1000"
    "dbl (((h * 60 + m) * 60 + s) * 1000 + ms) = ((h * 60 + m) * 60 + s) * 1000 + ms" "dbl (n * 86400000) = n * 86400000"
    "dbl (((h * 60 + m) * 60 + s) * 1000 + ms + n * 86400000) = ((h * 60 + m) * 60 + s) * 1000 + ms + n * 86400000"
    using assms n by (intro dbl_exact; simp add: abs_less_iff)+
  have t: "((h * 60 + m) * 60 + s) * 1000 + ms + n * 86400000 = time_of y i d h m s ms" by (simp add: time_of_def n_def)
  note et = e(12)[unfolded t]
  show ?thesis
    unfolding njs_make_date_def date_index by (simp only: tm_nth nth_Cons_0 One_nat_def nth_Cons_Suc day option.case Let_def n_def[symmetric] e(1-11) if_False t et njs_timeclip_def)
      simp
qed

lemma make_date_year:
  assumes "\<not> (min_year \<le> y \<and> y \<le> max_year)"
  shows "njs_make_date g [w, y, i, d, h, m, s, ms] l = None"
  using assms by (auto simp: njs_make_date_def date_index njs_make_day_def)

lemma hms_sum: "60 * h + m = M \<Longrightarrow> 60 * M + s = S \<Longrightarrow> 1000 * S + ms = H \<Longrightarrow> t = D * 86400000 + H \<Longrightarrow>
    t = D * 86400000 + ((h * 60 + m) * 60 + s) * 1000 + ms" for t :: int
  by simp

text \<open>The fields of a time.\<close>

lemma destruct_valid:
  obtains w y i d h m s ms where "njs_destruct_date g (Some t) False = [w, y, int i, d, h, m, s, ms]" "w = (t div 86400000 + 4) mod 7"
    "i \<le> 11" "1 \<le> d" "d \<le> month_length y i" "0 \<le> h" "h < 24" "0 \<le> m" "m < 60" "0 \<le> s" "s < 60" "0 \<le> ms" "ms < 1000"
    "t = time_of y i d h m s ms" "day_number y i d = t div 86400000"
proof -
  define D where "D = t div 86400000"
  define H where "H = t mod 86400000"
  obtain y where y: "njs_days_from_year y \<le> D" "D < njs_days_from_year (y + 1)" using year_exists by blast
  then have "days_before y 0 + (D - njs_days_from_year y) < njs_days_in_year y" "0 \<le> D - njs_days_from_year y" using days_from_year_next[of y] by simp_all
  from month_loop_correct[OF this le0] obtain i e where ie: "month_loop y 0 (D - njs_days_from_year y) = (i, e)" "i \<le> 11" "0 \<le> e" "e < month_length y i"
      and eq: "days_before y i + e = D - njs_days_from_year y" unfolding days_before_simps(1) add_0 by metis
  have day: "day_number y i (e + 1) = D" using eq by (simp add: day_number_def)
  have H: "0 \<le> H" "H < 86400000" by (simp_all add: H_def)
  have a: "60 * (H div 3600000) + H div 60000 mod 60 = H div 60000" "60 * (H div 60000) + H div 1000 mod 60 = H div 1000" "1000 * (H div 1000) + H mod 1000 = H"
    using mult_div_mod_eq[of 60 "H div 60000"] mult_div_mod_eq[of 60 "H div 1000"] mult_div_mod_eq[of 1000 H] by (simp_all add: zdiv_zmult2_eq[symmetric])
  have "t = D * 86400000 + H" by (simp add: D_def H_def)
  then have t: "t = time_of y i (e + 1) (H div 3600000) (H div 60000 mod 60) (H div 1000 mod 60) (H mod 1000)"
    unfolding time_of_def day by (rule hms_sum[OF a])
  have "njs_destruct_date g (Some t) False = [(D + 4) mod 7, y, int i, e + 1, H div 3600000, H div 60000 mod 60, H div 1000 mod 60, H mod 1000]"
    using destruct_fields[of y t i e g] y ie(1) by (simp add: D_def H_def time_fields_def)
  then have f: "njs_destruct_date g (Some t) False =
      [(t div 86400000 + 4) mod 7, y, int i, e + 1, H div 3600000, H div 60000 mod 60, H div 1000 mod 60, H mod 1000]" by (simp only: D_def)
  have h: "0 \<le> H div 3600000" "H div 3600000 < 24" using H by auto
  have e: "1 \<le> e + 1" "e + 1 \<le> month_length y i" using ie(3,4) by auto
  show thesis by (rule that[OF f refl ie(2) e h _ _ _ _ _ _ t day[unfolded D_def]]) simp_all
qed

lemma time_of_split:
  assumes "0 \<le> h" "h < 24" "0 \<le> m" "m < 60" "0 \<le> s" "s < 60" "0 \<le> ms" "ms < 1000" "t = time_of y i d h m s ms"
  shows "t div 86400000 = day_number y i d" "time_fields (t mod 86400000) = [h, m, s, ms]"
proof -
  define H where "H = ((h * 60 + m) * 60 + s) * 1000 + ms"
  have H: "0 \<le> H" "H < 86400000" using assms by (simp_all add: H_def)
  have t: "t = day_number y i d * 86400000 + H" using assms(9) by (simp add: time_of_def H_def)
  then show "t div 86400000 = day_number y i d" using H by simp
  have m: "t mod 86400000 = H" using t H by simp
  have a: "H div 1000 = (h * 60 + m) * 60 + s" "H mod 1000 = ms"
    using int_div_pos_eq[of H 1000 "(h * 60 + m) * 60 + s" ms] int_mod_pos_eq[of H 1000 "(h * 60 + m) * 60 + s" ms] assms(7,8) by (simp_all add: H_def)
  have b: "H div 60000 = h * 60 + m" using a(1) assms(5,6) zdiv_zmult2_eq[of 60 H 1000] by simp
  have c: "H div 3600000 = h" using b assms(3,4) zdiv_zmult2_eq[of 60 H 60000] by simp
  have "((h * 60 + m) * 60 + s) mod 60 = s" "(h * 60 + m) mod 60 = m"
    using int_mod_pos_eq[of "(h * 60 + m) * 60 + s" 60 "h * 60 + m" s] int_mod_pos_eq[of "h * 60 + m" 60 h m] assms(3-6) by simp_all
  then show "time_fields (t mod 86400000) = [h, m, s, ms]" unfolding m time_fields_def a b c by simp
qed

lemma year_in_range:
  assumes "- 8640000000000000 \<le> t" "t \<le> 8640000000000000" "i \<le> 11" "1 \<le> d" "d \<le> month_length y i" "day_number y i d = t div 86400000"
  shows "min_year \<le> y" "y \<le> max_year"
proof -
  have D: "- 100000000 \<le> t div 86400000" "t div 86400000 \<le> 100000000" using assms(1,2) by auto
  have y: "njs_days_from_year y \<le> t div 86400000" "t div 86400000 < njs_days_from_year (y + 1)" using day_in_year[OF assms(3-5)] assms(6) by simp_all
  show "min_year \<le> y"
  proof (rule ccontr)
    assume "\<not> min_year \<le> y"
    then have le: "y + 1 \<le> - 271821" and "0 \<le> 365 * (- 271821 - (y + 1))" by (simp_all add: min_year_def)
    then show False using days_from_year_mono[OF le] year_bounds(1) y D by linarith
  qed
  show "y \<le> max_year"
  proof (rule ccontr)
    assume "\<not> y \<le> max_year"
    then have le: "275761 \<le> y" and "0 \<le> 365 * (y - 275761)" by (simp_all add: max_year_def)
    then show False using days_from_year_mono[OF le] year_bounds(2) y D by linarith
  qed
qed

text \<open>
  C37.  Fields and times.  Every time of at most 8.64e15 milliseconds from 1970 has fields inside their ranges, the day of the week that
  follows that of the day before, and is what the fields make again, with the sums in doubles; and the fields of
  the time made from fields in their ranges are these fields.
\<close>

theorem date_fields:
  "(- 8640000000000000 \<le> t \<and> t \<le> 8640000000000000 \<longrightarrow>
     (let tm = njs_destruct_date g (Some t) False
      in valid_fields tm \<and> tm ! NJS_DATE_WDAY = (t div 86400000 + 4) mod 7 \<and> njs_make_date g tm False = Some t)) \<and>
   (valid_fields tm \<and> njs_make_date g tm False = Some t \<longrightarrow>
     njs_destruct_date g (Some t) False = tm[NJS_DATE_WDAY := (t div 86400000 + 4) mod 7])"
proof (intro conjI impI)
  assume t: "- 8640000000000000 \<le> t \<and> t \<le> 8640000000000000"
  obtain w y i d h m s ms where f: "njs_destruct_date g (Some t) False = [w, y, int i, d, h, m, s, ms]" "w = (t div 86400000 + 4) mod 7"
    "i \<le> 11" "1 \<le> d" "d \<le> month_length y i" "0 \<le> h" "h < 24" "0 \<le> m" "m < 60" "0 \<le> s" "s < 60" "0 \<le> ms" "ms < 1000"
    "t = time_of y i d h m s ms" "day_number y i d = t div 86400000" by (rule destruct_valid)
  have y: "min_year \<le> y" "y \<le> max_year" using year_in_range[OF _ _ f(3-5,15)] t by auto
  have "njs_make_date g [w, y, int i, d, h, m, s, ms] False = Some t"
    using make_date_fields[of i d y h m s ms g w] f y t by simp
  moreover have "valid_fields [w, y, int i, d, h, m, s, ms]" unfolding valid_fields_def using f by blast
  ultimately show "let tm = njs_destruct_date g (Some t) False
      in valid_fields tm \<and> tm ! NJS_DATE_WDAY = (t div 86400000 + 4) mod 7 \<and> njs_make_date g tm False = Some t"
    unfolding f(1) Let_def using f(2) by (simp add: date_index)
next
  assume "valid_fields tm \<and> njs_make_date g tm False = Some t"
  then obtain w y i d h m s ms where f: "tm = [w, y, int i, d, h, m, s, ms]" "i \<le> 11" "1 \<le> d" "d \<le> month_length y i"
    "0 \<le> h" "h < 24" "0 \<le> m" "m < 60" "0 \<le> s" "s < 60" "0 \<le> ms" "ms < 1000" and mk: "njs_make_date g [w, y, int i, d, h, m, s, ms] False = Some t"
    by (auto simp: valid_fields_def)
  have y: "min_year \<le> y" "y \<le> max_year" using make_date_year[of y g w "int i" d h m s ms False] mk by auto
  have t: "t = time_of y i d h m s ms" using make_date_fields[of i d y h m s ms g w] f y mk by (auto simp: Let_def split: if_splits)
  note sp = time_of_split[OF f(5-12) t]
  have ml: "month_loop y 0 (day_number y i d - njs_days_from_year y) = (i, d - 1)"
    using month_loop_fields[of i "d - 1" y] f(2-4) by (simp add: day_number_def)
  have "njs_destruct_date g (Some t) False = [(t div 86400000 + 4) mod 7, y, int i, d - 1 + 1] @ time_fields (t mod 86400000)"
    using day_in_year[OF f(2-4)] ml by (intro destruct_fields) (simp_all add: sp(1))
  then show "njs_destruct_date g (Some t) False = tm[NJS_DATE_WDAY := (t div 86400000 + 4) mod 7]" unfolding sp(2) f(1) by (simp add: date_index)
qed

theorem date_fields_witness:
  "let tm = njs_destruct_date (\<lambda>_. 0) (Some 1234567890123) False
   in valid_fields tm \<and> tm ! NJS_DATE_WDAY = 5 \<and> njs_make_date (\<lambda>_. 0) tm False = Some 1234567890123"
  using date_fields[of 1234567890123 "\<lambda>_. 0" "[]"] by simp

end
