(* ===== verification/Njs_Date_Text_Props.thy ===== *)
theory Njs_Date_Text_Props
  imports Njs_Date_Text Njs_Date_Calendar
begin

section \<open>Round trips of dates through text\<close>

subsection \<open>Decimal numbers\<close>

definition digit :: "nat \<Rightarrow> u_char" where "digit n = of_nat n + 0x30"

lemma digit_value: "n < 10 \<Longrightarrow> \<not> digit n - 0x30 > 9 \<and> uint (digit n - 0x30) = int n"
proof -
  assume n: "n < 10"
  have "digit n - 0x30 = of_nat n" by (simp add: digit_def)
  moreover have "unat (of_nat n :: u_char) = n" using n by (simp add: unsigned_of_nat take_bit_nat_eq_self)
  ultimately show ?thesis using n by (simp add: word_less_nat_alt uint_nat)
qed

fun number :: "int \<Rightarrow> nat list \<Rightarrow> int" where
  "number n [] = n"
| "number n (d # ds) = number (n * 10 + int d) ds"

lemma number_append: "number n (ds @ es) = number (number n ds) es"
  by (induction ds arbitrary: n) auto

lemma number_loop_digits:
  assumes "ds \<noteq> []" "list_all (\<lambda>d. d < 10) ds" "length ds < 2 ^ 64"
  shows "number_loop n (map digit ds @ r) (of_nat (length ds)) = Some (number n ds, r)"
  using assms
proof (induction ds arbitrary: n)
  case (Cons d ds)
  have "ds \<noteq> [] \<Longrightarrow> (of_nat (length ds) :: 64 word) \<noteq> 0"
    using Cons.prems(3) by (auto simp: word_unat_eq_iff unsigned_of_nat take_bit_nat_eq_self)
  then show ?case using Cons digit_value[of d] by (cases "ds = []") (auto simp: Let_def)
qed simp

text \<open>The digits of a number below \<open>10 ^ w\<close>, with zeros up to \<open>w\<close> digits.\<close>

fun digit_list :: "nat \<Rightarrow> nat \<Rightarrow> nat list" where
  "digit_list 0 n = []"
| "digit_list (Suc w) n = digit_list w (n div 10) @ [n mod 10]"

lemma int_digits: "int (n div 10) * 10 + int (n mod 10) = int n"
  by (metis div_mult_mod_eq of_nat_add of_nat_mult of_nat_numeral)

lemma digit_list_ok: "length (digit_list w n) = w \<and> list_all (\<lambda>d. d < 10) (digit_list w n) \<and> (n < 10 ^ w \<longrightarrow> number 0 (digit_list w n) = int n)"
  by (induction w arbitrary: n) (auto simp: number_append int_digits)

lemma digits_list: "n < 10 ^ Suc w \<Longrightarrow> length (digits n) \<le> Suc w \<and> replicate (Suc w - length (digits n)) 0x30 @ digits n = map digit (digit_list (Suc w) n)"
proof (induction w arbitrary: n)
  case 0
  then show ?case by (subst (1 2 3) digits.simps) (simp add: digit_def)
next
  case (Suc w)
  show ?case
  proof (cases "n div 10 = 0")
    case True
    have z: "digit_list k 0 = replicate k 0" for k by (induction k) (simp_all add: replicate_append_same)
    show ?thesis using True unfolding digits.simps[of n] by (simp add: z digit_def replicate_append_same[symmetric])
  next
    case False
    have "n div 10 < 10 ^ Suc w" using Suc.prems by (simp add: less_mult_imp_div_less mult.commute)
    from Suc.IH[OF this] show ?thesis unfolding digits.simps[of n] using False by (simp add: digit_def)
  qed
qed

lemma integer_digits: "0 < w \<Longrightarrow> n < 10 ^ w \<Longrightarrow> njs_integer w n = map digit (digit_list w n)"
  using digits_list[of n "w - 1"] by (simp add: njs_integer_def)

lemma sprintf_digits: "0 < w \<Longrightarrow> 0 \<le> i \<Longrightarrow> i < 10 ^ w \<Longrightarrow> sprintf_int w i = map digit (digit_list w (nat i))"
  by (simp add: sprintf_int_def integer_digits nat_less_iff)

lemma sprintf_length: "0 < w \<Longrightarrow> 0 \<le> i \<Longrightarrow> i < 10 ^ w \<Longrightarrow> length (sprintf_int w i) = w"
  by (simp add: sprintf_digits digit_list_ok)

lemma parse_sprintf:
  assumes "0 < w" "w < 10" "0 \<le> i" "i < 10 ^ w"
  shows "njs_date_number_parse (sprintf_int w i @ r) w = Some (i, r)"
proof -
  have "digit_list w (nat i) \<noteq> []" using digit_list_ok[of w "nat i"] assms(1) by auto
  from number_loop_digits[OF this, of 0 r] show ?thesis
    using digit_list_ok[of w "nat i"] assms by (simp add: njs_date_number_parse_def sprintf_digits nat_less_iff)
qed

lemma digit_not: "n < 10 \<Longrightarrow> digit n \<noteq> chr CHR ''-'' \<and> digit n \<noteq> chr CHR ''+'' \<and> digit n \<noteq> chr CHR '' '' \<and> digit n \<noteq> chr CHR '':'' \<and> \<not> (digit n < 0x30 \<or> digit n > 0x39)"
proof -
  assume "n < 10"
  moreover have "list_all (\<lambda>n. digit n \<noteq> chr CHR ''-'' \<and> digit n \<noteq> chr CHR ''+'' \<and> digit n \<noteq> chr CHR '' '' \<and> digit n \<noteq> chr CHR '':'' \<and> \<not> (digit n < 0x30 \<or> digit n > 0x39)) [0..<10]"
    by code_simp
  ultimately show ?thesis by (simp add: list_all_iff)
qed

text \<open>The first digit, for the tests of the character at a pointer.\<close>

lemma sprintf_cons:
  assumes "0 < w" "0 \<le> i" "i < 10 ^ w"
  obtains n r where "sprintf_int w i = digit n # r" "n < 10"
  using assms digit_list_ok[of w "nat i"] by (cases "digit_list w (nat i)") (auto simp: sprintf_digits)

lemma digit_list_split: "digit_list (w + 2) n = digit_list w (n div 100) @ digit_list 2 (n mod 100)"
proof -
  have "n mod 100 = 10 * (n div 10 mod 10) + n mod 10" using mod_mult2_eq[of n 10 10] by simp
  moreover have "(10 * q + r) div 10 mod 10 = q mod 10" "(10 * q + r) mod 10 = r" if "r < 10" for q r :: nat using that by simp_all
  from this[of "n mod 10" "n div 10 mod 10"]
  have "(10 * (n div 10 mod 10) + n mod 10) div 10 mod 10 = n div 10 mod 10" "(10 * (n div 10 mod 10) + n mod 10) mod 10 = n mod 10"
    by (simp_all only: mod_mod_trivial mod_less_divisor zero_less_numeral)
  ultimately have "n mod 100 div 10 mod 10 = n div 10 mod 10" "n mod 100 mod 10 = n mod 10" by (simp_all only:)
  moreover have "n div 10 div 10 = n div 100" using div_mult2_eq[of n 10 10] by simp
  ultimately show ?thesis by (simp only: add_Suc_right add_0_right numeral_2_eq_2 digit_list.simps append_assoc append.simps)
qed

lemma sprintf_split: "0 < w \<Longrightarrow> 0 \<le> i \<Longrightarrow> i < 10 ^ (w + 2) \<Longrightarrow> sprintf_int (w + 2) i = sprintf_int w (i div 100) @ sprintf_int 2 (i mod 100)"
proof -
  assume a: "0 < w" "0 \<le> i" "i < 10 ^ (w + 2)"
  have n: "nat (i div 100) = nat i div 100" "nat (i mod 100) = nat i mod 100" using a by (simp_all add: nat_div_distrib nat_mod_distrib)
  have "i div 100 < 10 ^ w" "0 \<le> i div 100" using a by simp_all
  then have "sprintf_int w (i div 100) = map digit (digit_list w (nat i div 100))" using sprintf_digits[OF a(1)] n(1) by metis
  moreover have "sprintf_int 2 (i mod 100) = map digit (digit_list 2 (nat i mod 100))" using sprintf_digits[of 2 "i mod 100"] n(2) by simp
  moreover have "sprintf_int (w + 2) i = map digit (digit_list (w + 2) (nat i))" using sprintf_digits[OF _ a(2,3)] by simp
  ultimately show ?thesis by (simp only: digit_list_split map_append)
qed

subsection \<open>Pieces of dates\<close>

lemma time_parse:
  assumes "0 \<le> h" "h < 100" "0 \<le> m" "m < 100" "0 \<le> s" "s < 100"
  shows "njs_date_time_parse tm (sprintf_int 2 h @ chr CHR '':'' # sprintf_int 2 m @ chr CHR '':'' # sprintf_int 2 s @ r) =
    Some (tm[NJS_DATE_HR := h, NJS_DATE_MIN := m, NJS_DATE_SEC := s], r)"
  using assms by (simp add: njs_date_time_parse_def parse_sprintf set_field_def)

lemma ms_length_digits: "0 < w \<Longrightarrow> 0 \<le> i \<Longrightarrow> i < 10 ^ w \<Longrightarrow> ms_length (sprintf_int w i) = w"
proof -
  assume a: "0 < w" "0 \<le> i" "i < 10 ^ w"
  have "takeWhile (\<lambda>c. \<not> (c < 0x30 \<or> c > 0x39)) (map digit (digit_list w (nat i))) = map digit (digit_list w (nat i))"
    using digit_list_ok[of w "nat i"] digit_not by (subst takeWhile_eq_all_conv) (auto simp: list_all_iff)
  then show ?thesis unfolding ms_length_def sprintf_digits[OF a] by (simp only: length_map digit_list_ok)
qed

lemma chr_neq: "chr CHR ''Z'' \<noteq> chr CHR ''T''" "chr CHR ''T'' \<noteq> chr CHR ''-''"
  by (simp_all add: chr_def)

lemma iso_time_parse:
  assumes "0 \<le> h" "h < 100" "0 \<le> m" "m < 100" "0 \<le> s" "s < 100" "0 \<le> ms" "ms < 1000"
  shows "iso_time g tm (chr CHR ''T'' # sprintf_int 2 h @ chr CHR '':'' # sprintf_int 2 m @ chr CHR '':'' # sprintf_int 2 s @
      chr CHR ''.'' # sprintf_int 3 ms @ [chr CHR ''Z'']) =
    njs_make_date g (tm[NJS_DATE_HR := h, NJS_DATE_MIN := m, NJS_DATE_SEC := s, NJS_DATE_MSEC := ms]) False"
proof -
  have f: "ms_length (sprintf_int 3 ms) = 3" "length (sprintf_int 3 ms) = 3" using assms by (simp_all add: ms_length_digits sprintf_length)
  have p: "njs_date_number_parse (sprintf_int 3 ms) 3 = Some (ms, [])" using parse_sprintf[of 3 ms "[]"] assms by simp
  have "iso_fraction g tm (sprintf_int 3 ms) True = njs_make_date g (tm[NJS_DATE_MSEC := ms]) False" for tm
    using f p by (cases "length tm \<le> 7") (simp_all add: iso_fraction_def set_field_def Let_def list_update_beyond NJS_DATE_MSEC_def)
  then show ?thesis using assms time_parse[OF assms(1-6), of tm] by (simp add: iso_time_def butlast_append Let_def)
qed

lemma iso_date_parse:
  assumes "0 \<le> h" "h < 100" "0 \<le> m" "m < 100" "0 \<le> s" "s < 100" "0 \<le> ms" "ms < 1000" "0 \<le> mon" "mon < 99" "0 \<le> d" "d < 100" "length tm = 8"
  shows "iso_month_day g tm (sprintf_int 2 (mon + 1) @ chr CHR ''-'' # sprintf_int 2 d @ chr CHR ''T'' # sprintf_int 2 h @ chr CHR '':'' # sprintf_int 2 m @
      chr CHR '':'' # sprintf_int 2 s @ chr CHR ''.'' # sprintf_int 3 ms @ [chr CHR ''Z'']) =
    njs_make_date g (tm[NJS_DATE_MON := mon, NJS_DATE_DAY := d, NJS_DATE_HR := h, NJS_DATE_MIN := m, NJS_DATE_SEC := s, NJS_DATE_MSEC := ms]) False"
  using assms iso_time_parse[OF assms(1-8), of g] by (simp add: iso_month_day_def parse_sprintf set_field_def Let_def NJS_DATE_MON_def)

lemma print_to_short: "length p + length t \<le> 42 \<Longrightarrow> print_to p t = p @ t"
  by (simp add: print_to_def NJS_DATE_TIME_LEN_def)

lemma hms_length: "0 \<le> h \<Longrightarrow> h < 100 \<Longrightarrow> 0 \<le> m \<Longrightarrow> m < 100 \<Longrightarrow> 0 \<le> s \<Longrightarrow> s < 100 \<Longrightarrow> length (hms [w, y, mon, d, h, m, s, ms]) = 8"
  by (simp add: hms_def date_index sprintf_length)

text \<open>The fields of a time in the range of times, with the bounds that the formats need.\<close>

lemma fields_of_time:
  assumes "- 8640000000000000 \<le> t" "t \<le> 8640000000000000"
  obtains w y i d h m s ms where "njs_destruct_date g (Some t) False = [w, y, int i, d, h, m, s, ms]" "0 \<le> w" "w < 7"
    "i \<le> 11" "1 \<le> d" "d \<le> month_length y i" "d \<le> 31" "0 \<le> h" "h < 24" "0 \<le> m" "m < 60" "0 \<le> s" "s < 60" "0 \<le> ms" "ms < 1000"
    "t = time_of y i d h m s ms" "min_year \<le> y" "y \<le> max_year"
proof -
  obtain w y i d h m s ms where f: "njs_destruct_date g (Some t) False = [w, y, int i, d, h, m, s, ms]" "w = (t div 86400000 + 4) mod 7"
    "i \<le> 11" "1 \<le> d" "d \<le> month_length y i" "0 \<le> h" "h < 24" "0 \<le> m" "m < 60" "0 \<le> s" "s < 60" "0 \<le> ms" "ms < 1000"
    "t = time_of y i d h m s ms" "day_number y i d = t div 86400000" by (rule destruct_valid)
  have w: "0 \<le> w" "w < 7" unfolding f(2) by simp_all
  have d: "d \<le> 31" using f(5) month_length_31[OF f(3), of y] by linarith
  show thesis by (rule that[OF f(1) w f(3-5) d f(6-14) year_in_range[OF assms f(3-5,15)]])
qed

subsection \<open>ISO 8601\<close>

lemma iso_roundtrip_fields:
  assumes "i \<le> 11" "1 \<le> d" "d \<le> 31" "0 \<le> h" "h < 24" "0 \<le> m" "m < 60" "0 \<le> s" "s < 60" "0 \<le> ms" "ms < 1000" "min_year \<le> y" "y \<le> max_year"
    "njs_destruct_date g (Some t) False = [w, y, int i, d, h, m, s, ms]"
  shows "njs_date_string_parse g (njs_date_string g NJS_DATE_FMT_TO_ISO_STRING (Some t)) = njs_make_date g [0, y, int i, d, h, m, s, ms] False"
proof -
  define tail where "tail = sprintf_int 2 (int i + 1) @ chr CHR ''-'' # sprintf_int 2 d @ chr CHR ''T'' # sprintf_int 2 h @ chr CHR '':'' # sprintf_int 2 m @
      chr CHR '':'' # sprintf_int 2 s @ chr CHR ''.'' # sprintf_int 3 ms @ [chr CHR ''Z'']"
  have tl: "length tail = 19" using assms by (simp add: tail_def sprintf_length)
  have tail: "iso_month_day g tm tail = njs_make_date g (tm[NJS_DATE_MON := int i, NJS_DATE_DAY := d, NJS_DATE_HR := h, NJS_DATE_MIN := m, NJS_DATE_SEC := s, NJS_DATE_MSEC := ms]) False"
    if "length tm = 8" for tm using iso_date_parse[of h m s ms "int i" d tm g] assms that by (simp add: tail_def)
  have fin: "iso_month_day g ([0, 0, 0, 1, 0, 0, 0, 0][NJS_DATE_YR := y]) tail = njs_make_date g [0, y, int i, d, h, m, s, ms] False"
    using tail[of "[0, 0, 0, 1, 0, 0, 0, 0][NJS_DATE_YR := y]"] by (simp add: date_index eval_nat_numeral)
  have parts: "text_of ''-'' @ sprintf_int 2 (int i + 1) @ text_of ''-'' @ sprintf_int 2 d @ text_of ''T'' @ hms [w, y, int i, d, h, m, s, ms] @
      text_of ''.'' @ sprintf_int 3 ms @ text_of ''Z'' = chr CHR ''-'' # tail"
    by (simp add: tail_def hms_def date_index)
  define yr where "yr = (if 0 \<le> y \<and> y \<le> 9999 then sprintf_int 4 y else (if y > 0 then [chr CHR ''+''] else []) @ sprintf_int 6 y)"
  have y6: "\<bar>y\<bar> < 10 ^ 6" using assms(12,13) by (simp add: min_year_def max_year_def abs_less_iff)
  have l6: "length (njs_integer 6 (nat \<bar>y\<bar>)) = 6" using y6 digit_list_ok[of 6 "nat \<bar>y\<bar>"] by (simp add: integer_digits nat_less_iff)
  have "length (sprintf_int 4 y) = 4" if "0 \<le> y" "y \<le> 9999" using that by (simp add: sprintf_length)
  then have yl: "length yr \<le> 7" using l6 unfolding yr_def by (cases "0 \<le> y \<and> y \<le> 9999") (auto simp: sprintf_int_def)
  have str: "njs_date_string g NJS_DATE_FMT_TO_ISO_STRING (Some t) = yr @ chr CHR ''-'' # tail"
  proof -
    have "print_to yr (chr CHR ''-'' # tail) = yr @ chr CHR ''-'' # tail" using yl tl by (intro print_to_short) simp
    moreover have "(if 0 \<le> y \<and> y \<le> 9999 then print_to [] (sprintf_int 4 y) else print_to (if y > 0 then text_of ''+'' else []) (sprintf_int 6 y)) = yr"
      using yl by (auto simp: yr_def print_to_short)
    ultimately show ?thesis unfolding njs_date_string_def option.case assms(14) Let_def date_index tm_nth nth_Cons_0 One_nat_def nth_Cons_Suc using parts by simp
  qed
  show ?thesis
  proof (cases "0 \<le> y \<and> y \<le> 9999")
    case True
    then obtain n r where c: "sprintf_int 4 y = digit n # r" "n < 10" using sprintf_cons[of 4 y] by auto
    have p: "njs_date_number_parse (digit n # r @ chr CHR ''-'' # tail) 4 = Some (y, chr CHR ''-'' # tail)"
      using parse_sprintf[of 4 y "chr CHR ''-'' # tail"] True c by simp
    show ?thesis unfolding str yr_def using True c digit_not[OF c(2)] p fin by (simp add: njs_date_string_parse_def set_field_def iso_parse_def)
  next
    case False
    define a where "a = \<bar>y\<bar>"
    have a: "0 < a" "a < 10 ^ 6" using False y6 by (auto simp: a_def)
    define hi where "hi = a div 100"
    define lo where "lo = a mod 100"
    have hl: "0 \<le> hi" "hi < 10 ^ 4" "0 \<le> lo" "lo < 100" "hi * 100 + lo = a" using a by (auto simp: hi_def lo_def)
    have six: "sprintf_int 6 a = sprintf_int 4 hi @ sprintf_int 2 lo" using sprintf_split[of 4 a] a by (simp add: hi_def lo_def)
    obtain sg where sg: "yr = sg # sprintf_int 6 a" "sg = (if y < 0 then chr CHR ''-'' else chr CHR ''+'')"
      using False by (auto simp: yr_def a_def sprintf_int_def)
    obtain n r where c: "sprintf_int 2 lo = digit n # r" "n < 10" using sprintf_cons[of 2 lo] hl by auto
    have p: "njs_date_number_parse (sprintf_int 6 a @ chr CHR ''-'' # tail) 4 = Some (hi, digit n # r @ chr CHR ''-'' # tail)"
      using parse_sprintf[of 4 hi] hl(1,2) c by (simp add: six)
    have q: "njs_date_number_parse (digit n # r @ chr CHR ''-'' # tail) 2 = Some (lo, chr CHR ''-'' # tail)"
      using parse_sprintf[of 2 lo "chr CHR ''-'' # tail"] hl(3,4) c by simp
    have yv: "(if sg = chr CHR ''-'' then - a else a) = y" using False sg(2) by (auto simp: a_def chr_def)
    show ?thesis
      unfolding str sg(1) using p q digit_not[OF c(2)] fin yv hl(5) a(1) sg(2)
      by (auto simp: njs_date_string_parse_def set_field_def iso_parse_def date_index Let_def chr_def)
  qed
qed

subsection \<open>Long dates\<close>

definition plain_char :: "u_char \<Rightarrow> bool" where
  "plain_char c \<longleftrightarrow> c \<noteq> chr CHR '' '' \<and> c \<noteq> chr CHR ''-'' \<and> c \<noteq> chr CHR ''+'' \<and> c - 0x30 > 9"

lemma month_parse_three: "njs_date_month_parse (a # b # c # r) = njs_date_month_parse [a, b, c]"
proof -
  have "(x # y # z # q) ! 0 = x" "(x # y # z # q) ! 1 = y" "(x # y # z # q) ! 2 = z" "2 < length (x # y # z # q) \<longleftrightarrow> True" for x y z :: u_char and q
    by simp_all
  then show ?thesis by (simp only: njs_date_month_parse_def Let_def if_True)
qed

lemma week_name:
  assumes "w < 7"
  obtains a b c where "text_of (week_names ! w) = [a, b, c]" "plain_char a" "plain_char b" "plain_char c" "\<And>r. njs_date_month_parse (a # b # c # r) = - 1"
proof -
  have "list_all (\<lambda>w. case text_of (week_names ! w) of [a, b, c] \<Rightarrow> plain_char a \<and> plain_char b \<and> plain_char c \<and> njs_date_month_parse [a, b, c] = - 1 | _ \<Rightarrow> False) [0..<7]"
    by code_simp
  then have "case text_of (week_names ! w) of [a, b, c] \<Rightarrow> plain_char a \<and> plain_char b \<and> plain_char c \<and> njs_date_month_parse [a, b, c] = - 1 | _ \<Rightarrow> False"
    using assms by (simp add: list_all_iff)
  then obtain a b c where n: "text_of (week_names ! w) = [a, b, c]" "plain_char a" "plain_char b" "plain_char c" "njs_date_month_parse [a, b, c] = - 1"
    by (auto split: list.splits)
  show thesis by (rule that[OF n(1-4)]) (rule trans[OF month_parse_three n(5)])
qed

lemma month_name:
  assumes "i \<le> 11"
  obtains a b c where "text_of (month_names ! i) = [a, b, c]" "plain_char a" "\<And>r. njs_date_month_parse (a # b # c # r) = int i"
proof -
  have "list_all (\<lambda>i. case text_of (month_names ! i) of [a, b, c] \<Rightarrow> plain_char a \<and> njs_date_month_parse [a, b, c] = int i | _ \<Rightarrow> False) [0..<12]"
    by code_simp
  then have "case text_of (month_names ! i) of [a, b, c] \<Rightarrow> plain_char a \<and> njs_date_month_parse [a, b, c] = int i | _ \<Rightarrow> False"
    using assms by (simp add: list_all_iff)
  then obtain a b c where n: "text_of (month_names ! i) = [a, b, c]" "plain_char a" "njs_date_month_parse [a, b, c] = int i"
    by (auto split: list.splits)
  show thesis by (rule that[OF n(1,2)]) (rule trans[OF month_parse_three n(3)])
qed

lemma number_parse_letter: "plain_char c \<Longrightarrow> njs_date_number_parse (c # r) n = None"
  by (simp add: plain_char_def njs_date_number_parse_def Let_def)

lemma skip_one: "c \<noteq> chr CHR '' '' \<Longrightarrow> njs_date_skip_spaces (chr CHR '' '' # c # r) = Some (c # r)"
  by (simp add: njs_date_skip_spaces_def)

lemma skip_number:
  assumes "0 < w" "0 \<le> i" "i < 10 ^ w"
  shows "njs_date_skip_spaces (chr CHR '' '' # sprintf_int w i @ r) = Some (sprintf_int w i @ r)"
  using assms by (rule sprintf_cons) (simp add: skip_one digit_not)

lemma time_behind:
  assumes "0 \<le> h" "h < 100" "0 \<le> m" "m < 100" "0 \<le> s" "s < 100" "c \<noteq> chr CHR '' ''"
  shows "time_after_year tm (chr CHR '' '' # sprintf_int 2 h @ chr CHR '':'' # sprintf_int 2 m @ chr CHR '':'' # sprintf_int 2 s @ chr CHR '' '' # c # r) =
    Some (tm[NJS_DATE_HR := h, NJS_DATE_MIN := m, NJS_DATE_SEC := s], c # r)"
proof -
  have "0 < length (sprintf_int 2 h)" using assms(1,2) by (simp add: sprintf_length)
  then obtain d ds where c: "sprintf_int 2 h = d # ds" by (cases "sprintf_int 2 h") auto
  show ?thesis
    using skip_number[of 2 h "chr CHR '':'' # sprintf_int 2 m @ chr CHR '':'' # sprintf_int 2 s @ chr CHR '' '' # c # r"] time_parse[OF assms(1-6), of tm "chr CHR '' '' # c # r"]
      assms(1,2) skip_one[OF assms(7)] c by (simp add: time_after_year_def)
qed

text \<open>What \<open>toUTCString\<close> prints behind the day of the week.\<close>

lemma rfc2822_parse:
  assumes "i \<le> 11" "0 \<le> y" "y \<le> 9999" "0 \<le> h" "h < 100" "0 \<le> m" "m < 100" "0 \<le> s" "s < 100" "length tm = 8"
  shows "njs_date_rfc2822_string_parse tm (chr CHR '' '' # text_of (month_names ! i) @ chr CHR '' '' # sprintf_int 4 y @ chr CHR '' '' # sprintf_int 2 h @
      chr CHR '':'' # sprintf_int 2 m @ chr CHR '':'' # sprintf_int 2 s @ text_of '' GMT'') =
    njs_make_date (\<lambda>_. 0) (tm[NJS_DATE_MON := int i, NJS_DATE_YR := y, NJS_DATE_HR := h, NJS_DATE_MIN := m, NJS_DATE_SEC := s, NJS_DATE_MSEC := 0]) False"
proof -
  obtain a b c where n: "text_of (month_names ! i) = [a, b, c]" "plain_char a" "\<And>r. njs_date_month_parse (a # b # c # r) = int i" using month_name[OF assms(1)] by blast
  have a: "a \<noteq> chr CHR '' ''" using n(2) by (simp add: plain_char_def)
  have G: "chr CHR ''G'' \<noteq> chr CHR '' ''" by (simp add: chr_def)
  have y: "y < 10 ^ 4" using assms(3) by simp
  show ?thesis
    unfolding n(1) njs_date_rfc2822_string_parse_def
    using skip_one[OF a] n(3) skip_number[of 4 y] parse_sprintf[of 4 y] time_behind[OF assms(4-9) G] assms(2,10) y
    by (simp add: set_field_def Let_def date_index)
qed

lemma gmtoff_parse:
  assumes "0 \<le> a" "a < 6000"
  shows "njs_date_gmtoff_parse ((if neg then chr CHR ''-'' else chr CHR ''+'') # sprintf_int 2 (a div 60) @ sprintf_int 2 (a mod 60)) = (if neg then - a else a)"
proof -
  have "0 \<le> a div 60" "a div 60 < 10 ^ 2" "a mod 60 < 10 ^ 2" "0 \<le> a mod 60" "a mod 60 < 60" using assms by auto
  moreover have sum: "a div 60 * 60 + a mod 60 = a" by simp
  moreover from sum have "- (a div 60 * 60) - a mod 60 = - a" by linarith
  ultimately show ?thesis
    using parse_sprintf[of 2 "a div 60"] parse_sprintf[of 2 "a mod 60" "[]"] by (simp add: njs_date_gmtoff_parse_def sprintf_length chr_def Let_def)
qed

text \<open>What \<open>toString\<close> prints behind the name of the month.\<close>

lemma js_string_parse:
  assumes "0 \<le> d" "d < 100" "0 \<le> y" "y \<le> 9999" "0 \<le> h" "h < 100" "0 \<le> m" "m < 100" "0 \<le> s" "s < 100" "length tm = 8"
    "0 \<le> a" "a < 6000" "(if neg then - a else a) \<noteq> - 1"
  shows "njs_date_js_string_parse tm (chr CHR '' '' # sprintf_int 2 d @ chr CHR '' '' # sprintf_int 4 y @ chr CHR '' '' # sprintf_int 2 h @ chr CHR '':'' #
      sprintf_int 2 m @ chr CHR '':'' # sprintf_int 2 s @ text_of '' GMT'' @ (if neg then chr CHR ''-'' else chr CHR ''+'') # sprintf_int 2 (a div 60) @ sprintf_int 2 (a mod 60)) =
    njs_make_date (\<lambda>_. 0) (tm[NJS_DATE_DAY := d, NJS_DATE_YR := y, NJS_DATE_HR := h, NJS_DATE_MIN := m, NJS_DATE_SEC := s,
      NJS_DATE_MSEC := - (if neg then - a else a) * 60000]) False"
proof -
  have G: "chr CHR ''G'' \<noteq> chr CHR '' ''" by (simp add: chr_def)
  have y: "y < 10 ^ 4" using assms(4) by simp
  show ?thesis
    unfolding njs_date_js_string_parse_def
    using skip_number[of 2 d] skip_number[of 4 y] parse_sprintf[of 2 d] parse_sprintf[of 4 y] time_behind[OF assms(5-10) G] gmtoff_parse[OF assms(12,13), of neg] assms(1-3,14) y
    by (simp add: set_field_def Let_def)
qed

text \<open>The parser goes over the day of the week to the day of the month, or to the name of the month.\<close>

lemma week_day_skipped:
  assumes "text_of (week_names ! w) = [a, b, c]" "plain_char a" "plain_char b" "plain_char c" "\<And>r. njs_date_month_parse (a # b # c # r) = - 1"
    "q = [] \<or> q = [chr CHR '','']" "x \<noteq> chr CHR '' ''" "long_parse [0, 0, - 1, 1, 0, 0, 0, 0] (x # r) = Some res"
  shows "njs_date_string_parse g ([a, b, c] @ q @ chr CHR '' '' # x # r) = res"
proof -
  have "njs_date_skip_week_day ([a, b, c] @ q @ chr CHR '' '' # x # r) = Some (chr CHR '' '' # x # r)"
    using assms(2-4,6) by (auto simp: plain_char_def chr_def)
  moreover have "long_parse tm ([a, b, c] @ q @ chr CHR '' '' # x # r) = None" if "length tm = 8" for tm
    using assms(2,5) that by (simp add: long_parse_def number_parse_letter set_field_def date_index Let_def)
  ultimately show ?thesis
    using assms(2,7,8) skip_one[OF assms(7)] number_parse_letter[OF assms(2)]
    by (simp add: njs_date_string_parse_def plain_char_def set_field_def date_index Let_def eval_nat_numeral)
qed

lemma utc_string_parse:
  assumes "0 \<le> w" "w < 7" "i \<le> 11" "1 \<le> d" "d \<le> 31" "0 \<le> h" "h < 24" "0 \<le> m" "m < 60" "0 \<le> s" "s < 60" "0 \<le> y" "y \<le> 9999"
    "njs_destruct_date g (Some t) False = [w, y, int i, d, h, m, s, ms]"
  shows "njs_date_string_parse g (njs_date_string g NJS_DATE_FMT_TO_UTC_STRING (Some t)) = njs_make_date (\<lambda>_. 0) [0, y, int i, d, h, m, s, 0] False"
proof -
  have "nat w < 7" using assms(1,2) by simp
  then obtain a b c where W: "text_of (week_names ! nat w) = [a, b, c]" "plain_char a" "plain_char b" "plain_char c" "\<And>r. njs_date_month_parse (a # b # c # r) = - 1"
    using week_name by blast
  define M where "M = text_of (month_names ! i)"
  have Ml: "length M = 3" unfolding M_def by (rule month_name[OF assms(3)]) simp
  define rest where "rest = chr CHR '' '' # M @ chr CHR '' '' # sprintf_int 4 y @ chr CHR '' '' # sprintf_int 2 h @ chr CHR '':'' # sprintf_int 2 m @ chr CHR '':'' #
      sprintf_int 2 s @ text_of '' GMT''"
  have str: "njs_date_string g NJS_DATE_FMT_TO_UTC_STRING (Some t) = [a, b, c] @ [chr CHR '',''] @ chr CHR '' '' # sprintf_int 2 d @ rest"
    unfolding njs_date_string_def option.case assms(14) Let_def
    using W(1) Ml assms by (simp add: date_index hms_def M_def[symmetric] rest_def print_to_short sprintf_length)
  obtain n ds where dd: "sprintf_int 2 d = digit n # ds" "n < 10" using sprintf_cons[of 2 d] assms(4,5) by auto
  have "njs_date_rfc2822_string_parse [0, 0, - 1, d, 0, 0, 0, 0] rest = njs_make_date (\<lambda>_. 0) [0, y, int i, d, h, m, s, 0] False"
    using rfc2822_parse[of i y h m s "[0, 0, - 1, d, 0, 0, 0, 0]"] assms by (simp add: rest_def M_def date_index eval_nat_numeral)
  then have "long_parse [0, 0, - 1, 1, 0, 0, 0, 0] (digit n # ds @ rest) = Some (njs_make_date (\<lambda>_. 0) [0, y, int i, d, h, m, s, 0] False)"
    using parse_sprintf[of 2 d rest] assms(4,5) dd(1) by (simp add: long_parse_def set_field_def date_index eval_nat_numeral)
  then show ?thesis unfolding str using week_day_skipped[OF W, of "[chr CHR '','']" "digit n"] digit_not[OF dd(2)] dd(1) by simp
qed

lemma local_string_parse:
  assumes "0 \<le> w" "w < 7" "i \<le> 11" "1 \<le> d" "d \<le> 31" "0 \<le> h" "h < 24" "0 \<le> m" "m < 60" "0 \<le> s" "s < 60" "0 \<le> y" "y \<le> 9999"
    "njs_destruct_date g (Some t) True = [w, y, int i, d, h, m, s, ms]" "\<bar>njs_tz_offset g t\<bar> < 6000" "njs_tz_offset g t \<noteq> 1"
  shows "njs_date_string_parse g (njs_date_string g NJS_DATE_FMT_TO_STRING (Some t)) = njs_make_date (\<lambda>_. 0) [0, y, int i, d, h, m, s, njs_tz_offset g t * 60000] False"
proof -
  define z where "z = - njs_tz_offset g t"
  define neg where "neg = (z < 0)"
  define A where "A = \<bar>z\<bar>"
  have A: "0 \<le> A" "A < 6000" "(if neg then - A else A) = z" "(if z < 0 then - z else z) = A" using assms(15) by (auto simp: A_def neg_def z_def)
  have "nat w < 7" using assms(1,2) by simp
  then obtain a b c where W: "text_of (week_names ! nat w) = [a, b, c]" "plain_char a" "plain_char b" "plain_char c" "\<And>r. njs_date_month_parse (a # b # c # r) = - 1"
    using week_name by blast
  obtain e f k where M: "text_of (month_names ! i) = [e, f, k]" "plain_char e" "\<And>r. njs_date_month_parse (e # f # k # r) = int i" using month_name[OF assms(3)] by blast
  define rest where "rest = chr CHR '' '' # sprintf_int 2 d @ chr CHR '' '' # sprintf_int 4 y @ chr CHR '' '' # sprintf_int 2 h @ chr CHR '':'' #
      sprintf_int 2 m @ chr CHR '':'' # sprintf_int 2 s @ text_of '' GMT'' @ (if neg then chr CHR ''-'' else chr CHR ''+'') # sprintf_int 2 (A div 60) @ sprintf_int 2 (A mod 60)"
  have sd: "A sdiv 60 = A div 60" "A smod 60 = A mod 60" using A(1) smod_nonneg[of A 60] by (simp_all add: signed_divide_int_def sgn_if)
  have q: "0 \<le> A div 60" "A div 60 < 100" "0 \<le> A mod 60" "A mod 60 < 100" using A(1,2) pos_mod_bound[of 60 A] by auto
  have str: "njs_date_string g NJS_DATE_FMT_TO_STRING (Some t) = [a, b, c] @ [] @ chr CHR '' '' # e # f # k # rest"
    unfolding njs_date_string_def option.case assms(14) Let_def z_def[symmetric] A(4) sd
    using W(1) M(1) assms q by (simp add: date_index hms_def rest_def print_to_short sprintf_length neg_def)
  have "njs_date_js_string_parse [0, 0, int i, 1, 0, 0, 0, 0] rest = njs_make_date (\<lambda>_. 0) [0, y, int i, d, h, m, s, - z * 60000] False"
    using js_string_parse[of d y h m s "[0, 0, int i, 1, 0, 0, 0, 0]" A neg] assms A by (simp add: rest_def date_index eval_nat_numeral z_def)
  then have "long_parse [0, 0, - 1, 1, 0, 0, 0, 0] (e # f # k # rest) = Some (njs_make_date (\<lambda>_. 0) [0, y, int i, d, h, m, s, njs_tz_offset g t * 60000] False)"
    using M(3) number_parse_letter[OF M(2)] by (simp add: long_parse_def set_field_def date_index eval_nat_numeral z_def)
  then show ?thesis unfolding str using week_day_skipped[OF W, of "[]" e] M(2) by (simp add: plain_char_def)
qed

lemma time_of_ms: "time_of y i d h m s ms = time_of y i d h m s 0 + ms"
  by (simp add: time_of_def)

lemma whole_seconds:
  assumes "0 \<le> ms" "ms < 1000"
  shows "time_of y i d h m s ms mod 1000 = ms"
proof -
  have "time_of y i d h m s ms = 1000 * (day_number y i d * 86400 + (h * 60 + m) * 60 + s) + ms" by (simp add: time_of_def)
  then show ?thesis using assms int_mod_pos_eq by blast
qed

lemma floor_second: "- 8640000000000000 \<le> t \<Longrightarrow> - 8640000000000000 \<le> t - t mod 1000" for t :: int
proof -
  assume "- 8640000000000000 \<le> t"
  then have "- 8640000000000000 div 1000 \<le> t div 1000" by (rule zdiv_mono1) simp
  then show ?thesis by (simp add: minus_mod_eq_mult_div)
qed



subsection \<open>What the code does not do\<close>

text \<open>An offset of one minute west of UTC is the value that the parser takes for an error.\<close>

theorem offset_minute_west_lost:
  "njs_date_string_parse g (text_of ''1970-01-01T00:00:00.000-00:02'') = Some 120000 \<and>
   njs_date_string_parse g (text_of ''1970-01-01T00:00:00.000-00:01'') = None"
  by code_simp

text \<open>A year that is not finite is forgotten when a month follows: it is taken for the year.\<close>

theorem set_year_nan_forgotten:
  "njs_date_prototype_set_fields g NJS_DATE_YR 3 local time [None, Some n] = njs_date_prototype_set_fields g NJS_DATE_YR 3 local time [Some n]"
  by (simp add: njs_date_prototype_set_fields_def NJS_DATE_YR_def Let_def)

text \<open>The setters of UTC fields take the result for a local time: with a clock one hour east of UTC, five o'clock becomes four.\<close>

theorem set_utc_hours_shifted:
  "njs_date_prototype_set_fields (\<lambda>_. 3600) NJS_DATE_HR 4 False (Some 0) [Some 5] = Some 14400000"
  by code_simp

end
