(* ===== verification/Njs_Query.thy ===== *)
theory Njs_Query
  imports Njs_Uri Njs_String "HOL-Library.AList"
begin

section \<open>Query strings (external/njs_query_string_module.c)\<close>

text \<open>
  The text of a string is its bytes.  The object that is parsed into is the list of its own properties
  in the order of their creation; \<open>inherited\<close> says what a lookup finds in its prototype, whose
  values are no arrays and have no setter of the name (\<open>__proto__\<close> has one: queries with this name are
  left out).  A function given by the caller, \<open>User f\<close>, is its effect on a text; its result has already
  been converted to a string.  Memory for the chains of buffers is taken as given.
\<close>

datatype js_function = Native | User "u_char list \<Rightarrow> codec_error + u_char list"

text \<open>A property that should hold a function.\<close>

datatype js_function_property = Missing | Not_callable | Callable js_function

datatype 'v query_value = Text "u_char list" | Inherited 'v
datatype 'v query_entry = One "'v query_value" | Many "'v query_value list"

type_synonym 'v query_object = "(u_char list \<times> 'v query_entry) list"

definition njs_sep_default :: "u_char list" where "njs_sep_default = [0x26]"
definition njs_eq_default :: "u_char list" where "njs_eq_default = [0x3D]"

subsection \<open>Decoding\<close>

definition query_hex :: "int list" where
  "query_hex =
     replicate 48 (- 1) @ [0, 1, 2, 3, 4, 5, 6, 7, 8, 9] @ replicate 7 (- 1) @ [10, 11, 12, 13, 14, 15] @ replicate 26 (- 1) @
     [10, 11, 12, 13, 14, 15] @ replicate 153 (- 1)"

text \<open>One turn of the loop: an escaped byte, a plus sign or a character.  None is a read out of the buffer.\<close>

definition query_decode_step :: "njs_unicode_decode \<Rightarrow> u_char list \<Rightarrow> (uint32 \<times> njs_unicode_decode \<times> u_char list) option" where
  "query_decode_step ctx p =
     (if hd p = 0x25 \<and> 2 < length p \<and> 0 \<le> query_hex ! unat (p ! 1) \<and> 0 \<le> query_hex ! unat (p ! 2)
      then map_option (\<lambda>(cp, ctx', _). (cp, ctx', drop 3 p))
             (njs_utf8_consume ctx (word_of_int (query_hex ! unat (p ! 1) * 16 + query_hex ! unat (p ! 2))))
      else if hd p = 0x2B then Some (0x20, ctx, tl p)
      else njs_utf8_decode ctx p)"

lemma query_step_pending:
  assumes "query_decode_step ctx p = Some (cp, ctx', p')" "p \<noteq> []"
  shows "pending ctx' p' < pending ctx p"
proof -
  consider "length p' + 3 = length p" | "ctx' = ctx" "length p' < length p" | "njs_utf8_decode ctx p = Some (cp, ctx', p')"
    using assms by (auto simp: query_decode_step_def split: if_splits)
  then show ?thesis
  proof cases
    case 3
    then show ?thesis using utf8_decode_pending assms(2) by blast
  qed (auto simp: pending_def)
qed

text \<open>\<open>cp\<close> is the variable of the C function: the last answer of the decoder, with errors replaced.\<close>

function query_decode_loop :: "njs_unicode_decode \<Rightarrow> uint32 \<Rightarrow> u_char list \<Rightarrow> u_char list \<Rightarrow> (uint32 \<times> u_char list) option" where
  "query_decode_loop ctx cp p chain =
     (if p = [] then Some (cp, chain)
      else
        (case query_decode_step ctx p of
           None \<Rightarrow> None
         | Some (cp, ctx', p') \<Rightarrow>
             (if NJS_UNICODE_MAX_CODEPOINT < cp then
                (if cp = NJS_UNICODE_CONTINUE then query_decode_loop ctx' cp p' chain
                 else query_decode_loop ctx' NJS_UNICODE_REPLACEMENT p' (chain @ utf8_bytes NJS_UNICODE_REPLACEMENT))
              else query_decode_loop ctx' cp p' (chain @ utf8_bytes cp))))"
  by pat_completeness auto
termination
  by (relation "measure (\<lambda>(ctx, cp, p, chain). pending ctx p)") (auto dest: query_step_pending)

declare query_decode_loop.simps [simp del]

definition query_decode_bytes :: "u_char list \<Rightarrow> u_char list option" where
  "query_decode_bytes start =
     map_option (\<lambda>(cp, chain). if cp = NJS_UNICODE_CONTINUE then chain @ utf8_bytes NJS_UNICODE_REPLACEMENT else chain)
       (query_decode_loop idle_ctx 0 start [])"

text \<open>
  \<open>njs_string_create_chb\<close> on the bytes that the chain holds, and \<open>njs_string_create\<close>.
\<close>

definition njs_string_create_chb :: "string_env \<Rightarrow> u_char list \<Rightarrow> (codec_error + njs_string) option" where
  "njs_string_create_chb env chain =
     (case njs_utf8_length chain of
        None \<Rightarrow> None
      | Some (Inl _) \<Rightarrow> Some (Inl (InternalErr ''invalid UTF-8 string''))
      | Some (Inr len) \<Rightarrow> njs_string_alloc env (length chain) len chain)"

definition njs_query_string_decode :: "string_env \<Rightarrow> u_char list \<Rightarrow> (codec_error + njs_string) option" where
  "njs_query_string_decode env start =
     (case query_decode_bytes start of None \<Rightarrow> None | Some chain \<Rightarrow> njs_string_create_chb env chain)"

definition njs_query_string_unescape :: "string_env \<Rightarrow> u_char list \<Rightarrow> (codec_error + njs_string) option" where
  "njs_query_string_unescape env str = njs_query_string_decode env str"

subsection \<open>Parsing\<close>

definition to_text :: "(codec_error + njs_string) option \<Rightarrow> (codec_error + u_char list) option" where
  "to_text = map_option (map_sum id str_start)"

text \<open>A part of the query as text: decoded, or given to the caller's function unless it is empty.\<close>

definition query_part :: "string_env \<Rightarrow> js_function \<Rightarrow> u_char list \<Rightarrow> (codec_error + u_char list) option" where
  "query_part env decoder part =
     (case decoder of
        Native \<Rightarrow> to_text (njs_query_string_decode env part)
      | User f \<Rightarrow> Some (if part = [] then Inr [] else f part))"

definition query_put :: "('k \<Rightarrow> 'v option) \<Rightarrow> ('k \<times> 'v query_entry) list \<Rightarrow> 'k \<Rightarrow> u_char list \<Rightarrow> ('k \<times> 'v query_entry) list" where
  "query_put inherited obj name val =
     (case map_of obj name of
        Some (Many vs) \<Rightarrow> AList.update name (Many (vs @ [Text val])) obj
      | Some (One v) \<Rightarrow> AList.update name (Many [v, Text val]) obj
      | None \<Rightarrow>
          (case inherited name of
             Some v \<Rightarrow> AList.update name (Many [Inherited v, Text val]) obj
           | None \<Rightarrow> AList.update name (One (Text val)) obj))"

definition njs_query_string_append ::
    "string_env \<Rightarrow> (u_char list \<Rightarrow> 'v option) \<Rightarrow> js_function \<Rightarrow> 'v query_object \<Rightarrow> u_char list \<Rightarrow> u_char list \<Rightarrow>
     (codec_error + 'v query_object) option" where
  "njs_query_string_append env inherited decoder obj key val =
     (case query_part env decoder key of
        None \<Rightarrow> None
      | Some (Inl e) \<Rightarrow> Some (Inl e)
      | Some (Inr name) \<Rightarrow>
          (case query_part env decoder val of
             None \<Rightarrow> None
           | Some (Inl e) \<Rightarrow> Some (Inl e)
           | Some (Inr v) \<Rightarrow> Some (Inr (query_put inherited obj name v))))"

text \<open>The number of bytes before the first occurrence of \<open>v\<close>, all of them when there is none.\<close>

fun match_loop :: "u_char list \<Rightarrow> u_char list \<Rightarrow> nat" where
  "match_loop v [] = 0"
| "match_loop v (c # p) =
     (if length (c # p) < length v then length (c # p)
      else if take (length v) (c # p) = v then 0
      else match_loop v p + 1)"

definition njs_query_string_match :: "u_char list \<Rightarrow> u_char list \<Rightarrow> nat" where
  "njs_query_string_match p v =
     (if length v = 1 then length (takeWhile (\<lambda>c. c \<noteq> hd v) p) else match_loop v p)"

text \<open>
  The loop of \<open>njs_query_string_parser\<close>.  An empty separator never advances it (the loop would only
  count); its callers replace an empty separator by the default one.
\<close>

function query_parser_loop ::
    "string_env \<Rightarrow> (u_char list \<Rightarrow> 'v option) \<Rightarrow> u_char list \<Rightarrow> u_char list \<Rightarrow> js_function \<Rightarrow> nat \<Rightarrow> nat \<Rightarrow> u_char list \<Rightarrow>
     'v query_object \<Rightarrow> (codec_error + 'v query_object) option" where
  "query_parser_loop env inherited sep eq decode max_keys count key obj =
     (if key = [] \<or> sep = [] \<or> count = max_keys then Some (Inr obj)
      else
        (let n = njs_query_string_match key sep;
             part = take n key;
             rest = drop (n + length sep) key;
             k = njs_query_string_match part eq;
             val = (if k \<noteq> n then drop (k + length eq) part else [])
         in if n = 0 then query_parser_loop env inherited sep eq decode max_keys (count + 1) rest obj
            else
              (case njs_query_string_append env inherited decode obj (take k part) val of
                 None \<Rightarrow> None
               | Some (Inl e) \<Rightarrow> Some (Inl e)
               | Some (Inr obj') \<Rightarrow> query_parser_loop env inherited sep eq decode max_keys (count + 1) rest obj')))"
  by pat_completeness auto
termination
  by (relation "measure (\<lambda>(env, inherited, sep, eq, decode, max_keys, count, key, obj). length key)") auto

declare query_parser_loop.simps [simp del]

definition njs_query_string_parser ::
    "string_env \<Rightarrow> (u_char list \<Rightarrow> 'v option) \<Rightarrow> u_char list \<Rightarrow> u_char list \<Rightarrow> u_char list \<Rightarrow> js_function \<Rightarrow> nat \<Rightarrow>
     (codec_error + 'v query_object) option" where
  "njs_query_string_parser env inherited query sep eq decode max_keys =
     query_parser_loop env inherited sep eq decode max_keys 0 query []"

definition njs_vm_query_string_parse :: "string_env \<Rightarrow> (u_char list \<Rightarrow> 'v option) \<Rightarrow> u_char list \<Rightarrow> (codec_error + 'v query_object) option" where
  "njs_vm_query_string_parse env inherited query =
     njs_query_string_parser env inherited query njs_sep_default njs_eq_default Native 1000"

text \<open>
  The arguments of \<open>parse\<close>: the query, a string or another value with its conversion to a string;
  the separators, None for null and undefined; the properties of the options object and
  \<open>this.unescape\<close>.
\<close>

datatype query_source = Is_string "u_char list" | Not_string "u_char list"
datatype query_limit = No_limit | Not_number | Limit int

record query_args =
  arg_sep :: "u_char list option"
  arg_eq :: "u_char list option"
  arg_max_keys :: query_limit
  arg_function :: js_function_property
  arg_this :: js_function_property

definition separator :: "u_char list \<Rightarrow> u_char list option \<Rightarrow> u_char list" where
  "separator dflt arg = (case arg of None \<Rightarrow> dflt | Some s \<Rightarrow> if s \<noteq> [] then s else dflt)"

definition INT64_MAX :: int where "INT64_MAX = 0x7FFFFFFFFFFFFFFF"

definition parse_limit :: "query_limit \<Rightarrow> codec_error + nat" where
  "parse_limit l =
     (case l of
        No_limit \<Rightarrow> Inr 1000
      | Not_number \<Rightarrow> Inl (TypeErr ''is not a number'')
      | Limit n \<Rightarrow> Inr (nat ((if n = 0 then INT64_MAX else n) mod 2 ^ 64)))"

definition parse_function :: "js_function_property \<Rightarrow> js_function_property \<Rightarrow> codec_error + js_function" where
  "parse_function opt this =
     (case opt of
        Callable f \<Rightarrow> Inr f
      | Not_callable \<Rightarrow> Inl (TypeErr ''option decodeURIComponent is not a function'')
      | Missing \<Rightarrow>
          (case this of Callable f \<Rightarrow> Inr f | _ \<Rightarrow> Inl (TypeErr ''QueryString.unescape is not a function'')))"

definition njs_query_string_parse ::
    "string_env \<Rightarrow> (u_char list \<Rightarrow> 'v option) \<Rightarrow> query_source \<Rightarrow> query_args \<Rightarrow> (codec_error + 'v query_object) option" where
  "njs_query_string_parse env inherited string args =
     (let str = (case string of Is_string s \<Rightarrow> s | Not_string _ \<Rightarrow> [])
      in case parse_limit (arg_max_keys args) of
           Inl e \<Rightarrow> Some (Inl e)
         | Inr max_keys \<Rightarrow>
             (case parse_function (arg_function args) (arg_this args) of
                Inl e \<Rightarrow> Some (Inl e)
              | Inr decode \<Rightarrow>
                  njs_query_string_parser env inherited str (separator njs_sep_default (arg_sep args))
                    (separator njs_eq_default (arg_eq args)) decode max_keys))"

subsection \<open>Encoding\<close>

definition query_escape :: "uint32 list" where
  "query_escape = [0xFFFFFFFF, 0xFC00987D, 0x78000001, 0xB8000001, 0xFFFFFFFF, 0xFFFFFFFF, 0xFFFFFFFF, 0xFFFFFFFF]"

definition query_encode_size :: "u_char list \<Rightarrow> nat" where
  "query_encode_size str = foldl (\<lambda>sz c. if njs_need_escape query_escape (ucast c) then sz + 2 else sz) (length str) str"

definition njs_query_string_encode :: "u_char list \<Rightarrow> u_char list \<Rightarrow> u_char list" where
  "njs_query_string_encode chain str =
     (if str = [] then chain
      else if query_encode_size str = length str then chain @ str
      else chain @ njs_string_encode query_escape str)"

definition njs_query_string_escape :: "string_env \<Rightarrow> u_char list \<Rightarrow> (codec_error + njs_string) option" where
  "njs_query_string_escape env str = njs_string_create_chb env (njs_query_string_encode [] str)"

text \<open>
  The values of an object that is turned into a query.  \<open>number_text\<close> is the conversion of a number to a
  string.
\<close>

datatype 'n query_item = Q_string "u_char list" | Q_bool bool | Q_number 'n | Q_nan | Q_other
datatype 'n query_field = Single "'n query_item" | Array "'n query_item list"

definition bool_text :: "bool \<Rightarrow> u_char list" where
  "bool_text b = (if b then [0x74, 0x72, 0x75, 0x65] else [0x66, 0x61, 0x6C, 0x73, 0x65])"

definition njs_query_string_encoder_call :: "js_function \<Rightarrow> u_char list \<Rightarrow> u_char list \<Rightarrow> codec_error + u_char list" where
  "njs_query_string_encoder_call encoder chain string =
     (case encoder of
        Native \<Rightarrow> Inr (njs_query_string_encode chain string)
      | User f \<Rightarrow> map_sum id (\<lambda>s. chain @ s) (f string))"

definition njs_query_string_push ::
    "('n \<Rightarrow> u_char list) \<Rightarrow> u_char list \<Rightarrow> js_function \<Rightarrow> u_char list \<Rightarrow> u_char list \<Rightarrow> 'n query_item \<Rightarrow> codec_error + u_char list" where
  "njs_query_string_push number_text eq encoder chain key item =
     (case njs_query_string_encoder_call encoder chain key of
        Inl e \<Rightarrow> Inl e
      | Inr chain \<Rightarrow>
          (let chain = chain @ eq
           in case item of
                Q_string s \<Rightarrow> njs_query_string_encoder_call encoder chain s
              | Q_bool b \<Rightarrow> njs_query_string_encoder_call encoder chain (bool_text b)
              | Q_number n \<Rightarrow> njs_query_string_encoder_call encoder chain (number_text n)
              | Q_nan \<Rightarrow> Inr chain
              | Q_other \<Rightarrow> Inr chain))"

text \<open>The chain has a last buffer once something has been written: \<open>chain \<noteq> []\<close>.\<close>

fun stringify_items ::
    "('n \<Rightarrow> u_char list) \<Rightarrow> u_char list \<Rightarrow> u_char list \<Rightarrow> js_function \<Rightarrow> u_char list \<Rightarrow> 'n query_item list \<Rightarrow> u_char list \<Rightarrow> codec_error + u_char list" where
  "stringify_items number_text sep eq encoder key [] chain = Inr chain"
| "stringify_items number_text sep eq encoder key (item # items) chain =
     (case njs_query_string_push number_text eq encoder (if chain \<noteq> [] then chain @ sep else chain) key item of
        Inl e \<Rightarrow> Inl e
      | Inr chain \<Rightarrow> stringify_items number_text sep eq encoder key items chain)"

fun stringify_fields ::
    "('n \<Rightarrow> u_char list) \<Rightarrow> u_char list \<Rightarrow> u_char list \<Rightarrow> js_function \<Rightarrow> nat \<Rightarrow> (u_char list \<times> 'n query_field) list \<Rightarrow> u_char list \<Rightarrow>
     codec_error + u_char list" where
  "stringify_fields number_text sep eq encoder n [] chain = Inr chain"
| "stringify_fields number_text sep eq encoder n ((key, field) # props) chain =
     (case (case field of
              Array items \<Rightarrow> stringify_items number_text sep eq encoder key items chain
            | Single item \<Rightarrow> njs_query_string_push number_text eq encoder (if n \<noteq> 0 then chain @ sep else chain) key item) of
        Inl e \<Rightarrow> Inl e
      | Inr chain \<Rightarrow> stringify_fields number_text sep eq encoder (n + 1) props chain)"

definition stringify_function :: "js_function_property \<Rightarrow> js_function_property \<Rightarrow> codec_error + js_function" where
  "stringify_function opt this =
     (case opt of
        Callable f \<Rightarrow> Inr f
      | Not_callable \<Rightarrow> Inl (TypeErr ''option encodeURIComponent is not a function'')
      | Missing \<Rightarrow>
          (case this of Callable f \<Rightarrow> Inr f | _ \<Rightarrow> Inl (TypeErr ''QueryString.escape is not a function'')))"

text \<open>
  The object is given by its enumerable properties in the order of \<open>njs_vm_object_keys\<close>, None for a value
  that is no object.
\<close>

definition njs_query_string_stringify ::
    "string_env \<Rightarrow> ('n \<Rightarrow> u_char list) \<Rightarrow> (u_char list \<times> 'n query_field) list option \<Rightarrow> query_args \<Rightarrow> (codec_error + njs_string) option" where
  "njs_query_string_stringify env number_text object args =
     (case object of
        None \<Rightarrow> Some (Inr empty_string)
      | Some props \<Rightarrow>
          (case stringify_function (arg_function args) (arg_this args) of
             Inl e \<Rightarrow> Some (Inl e)
           | Inr encode \<Rightarrow>
               (case stringify_fields number_text (separator njs_sep_default (arg_sep args)) (separator njs_eq_default (arg_eq args))
                       encode 0 props [] of
                  Inl e \<Rightarrow> Some (Inl e)
                | Inr chain \<Rightarrow> njs_string_create_chb env chain)))"

end
