(* ===== verification/Njs_Query_Text.thy ===== *)
theory Njs_Query_Text
  imports Njs_Query Njs_Uri_Props Njs_Utf8_Stream
begin

section \<open>Coding of query strings\<close>

text \<open>
  Decoding feeds escaped bytes to the decoder of UTF-8 one at a time, so a character may be spread over
  escapes; the lemmas on streams in chunks say that the bytes of a character arrive as the character.
\<close>

subsection \<open>Every answer is text\<close>

lemma init_stream: "stream_ctx idle_ctx"
  by (simp add: stream_ctx_def idle_def idle_ctx_def njs_utf8_decode_init_def)

lemma stream_scalar:
  assumes d: "njs_utf8_decode ctx p = Some (cp, ctx', r)" and s: "stream_ctx ctx" and p: "p \<noteq> []" and c: "cp \<le> NJS_UNICODE_MAX_CODEPOINT"
  shows "is_scalar cp"
proof (cases "need ctx = 0")
  case True
  then show ?thesis using decode_step(2)[OF d c] by blast
next
  case False
  then obtain c0 p0 where c0: "idle c0" "p0 \<noteq> []"
    "\<And>q. q \<noteq> [] \<Longrightarrow> map_option norm_answer (njs_utf8_decode c0 (p0 @ q)) = map_option norm_answer (njs_utf8_decode ctx q)"
    using stream_ctx_pending[OF s] by metis
  from norm_SomeD[OF c0(3)[OF p, unfolded d]] obtain c2 where "njs_utf8_decode c0 (p0 @ p) = Some (cp, c2, r)" by blast
  then show ?thesis using decode_step(2)[OF _ c] c0(1) by (auto simp: idle_def)
qed

lemma query_step_stream:
  assumes "stream_ctx ctx" "p \<noteq> []"
  obtains cp ctx' p' where "query_decode_step ctx p = Some (cp, ctx', p')" "stream_ctx ctx'" "cp \<le> NJS_UNICODE_MAX_CODEPOINT \<longrightarrow> is_scalar cp"
proof -
  have a: "\<exists>cp ctx' r. njs_utf8_decode ctx q = Some (cp, ctx', r) \<and> stream_ctx ctx' \<and> (cp \<le> NJS_UNICODE_MAX_CODEPOINT \<longrightarrow> is_scalar cp)"
    if q: "q \<noteq> []" for q
  proof -
    obtain cp ctx' r where d: "njs_utf8_decode ctx q = Some (cp, ctx', r)"
      using utf8_decode_answers[OF q, of ctx] by (metis not_None_eq prod_cases3)
    then show ?thesis using stream_answer(2)[OF d assms(1) q] stream_scalar[OF d assms(1) q] by blast
  qed
  have sp: "is_scalar 0x20" by (simp add: is_scalar_unat)
  show thesis
  proof (cases "hd p = 0x25 \<and> 2 < length p \<and> 0 \<le> query_hex ! unat (p ! 1) \<and> 0 \<le> query_hex ! unat (p ! 2)")
    case True
    then show thesis using a[of "[word_of_int (query_hex ! unat (p ! 1) * 16 + query_hex ! unat (p ! 2))]"] that
      by (auto simp: query_decode_step_def njs_utf8_consume_def)
  next
    case False
    then have e: "query_decode_step ctx p = (if hd p = 0x2B then Some (0x20, ctx, tl p) else njs_utf8_decode ctx p)"
      unfolding query_decode_step_def by (rule if_not_P)
    obtain cp ctx' r where "njs_utf8_decode ctx p = Some (cp, ctx', r)" "stream_ctx ctx'" "cp \<le> NJS_UNICODE_MAX_CODEPOINT \<longrightarrow> is_scalar cp"
      using a[OF assms(2)] by blast
    then show thesis using that[of "0x20" ctx "tl p"] that[of cp ctx' r] sp assms(1) e by (cases "hd p = 0x2B") simp_all
  qed
qed

lemma replacement_text: "utf8_bytes NJS_UNICODE_REPLACEMENT = encode_all [NJS_UNICODE_REPLACEMENT]"
  by (rule utf8_bytes_scalar[OF max_cp_consts(3)])

lemma query_loop_text:
  "stream_ctx ctx \<Longrightarrow> \<exists>us cp'. list_all is_scalar us \<and> query_decode_loop ctx cp p chain = Some (cp', chain @ encode_all us)"
proof (induction ctx cp p chain rule: query_decode_loop.induct)
  case (1 ctx cp p chain)
  show ?case
  proof (cases "p = []")
    case True
    then show ?thesis by (intro exI[of _ "[]"]) (simp add: query_decode_loop.simps)
  next
    case False
    obtain c ctx' p' where st: "query_decode_step ctx p = Some (c, ctx', p')" "stream_ctx ctx'" "c \<le> NJS_UNICODE_MAX_CODEPOINT \<longrightarrow> is_scalar c"
      using query_step_stream[OF "1.prems" False] .
    note u = query_decode_loop.simps[of ctx cp p chain]
    consider (go) "c = NJS_UNICODE_CONTINUE" | (bad) "NJS_UNICODE_MAX_CODEPOINT < c" "c \<noteq> NJS_UNICODE_CONTINUE" | (ok) "\<not> NJS_UNICODE_MAX_CODEPOINT < c" by blast
    then show ?thesis
    proof cases
      case go
      then have m: "NJS_UNICODE_MAX_CODEPOINT < c" using max_cp_consts(2) by simp
      have "query_decode_loop ctx cp p chain = query_decode_loop ctx' c p' chain" unfolding u using False st(1) m go by simp
      then show ?thesis using "1.IH"(1)[OF False st(1) refl refl m go st(2)] by simp
    next
      case bad
      obtain us cp' where "list_all is_scalar us"
        "query_decode_loop ctx' NJS_UNICODE_REPLACEMENT p' (chain @ utf8_bytes NJS_UNICODE_REPLACEMENT) =
           Some (cp', (chain @ utf8_bytes NJS_UNICODE_REPLACEMENT) @ encode_all us)"
        using "1.IH"(2)[OF False st(1) refl refl bad st(2)] by blast
      then show ?thesis using max_cp_consts(3) bad
        by (intro exI[of _ "NJS_UNICODE_REPLACEMENT # us"] exI[of _ cp']) (simp add: u False st(1) replacement_text)
    next
      case ok
      then have sc: "is_scalar c" using st(3) by simp
      obtain us cp' where "list_all is_scalar us"
        "query_decode_loop ctx' c p' (chain @ utf8_bytes c) = Some (cp', (chain @ utf8_bytes c) @ encode_all us)"
        using "1.IH"(3)[OF False st(1) refl refl ok st(2)] by blast
      then show ?thesis using sc ok
        by (intro exI[of _ "c # us"] exI[of _ cp']) (simp add: u False st(1) utf8_bytes_scalar)
    qed
  qed
qed

lemma query_decode_text: "\<exists>us. list_all is_scalar us \<and> query_decode_bytes p = Some (encode_all us)"
proof -
  obtain us cp where us: "list_all is_scalar us" "query_decode_loop idle_ctx 0 p [] = Some (cp, [] @ encode_all us)"
    using query_loop_text[OF init_stream] by blast
  then have "query_decode_bytes p = Some (encode_all (if cp = NJS_UNICODE_CONTINUE then us @ [NJS_UNICODE_REPLACEMENT] else us))"
    using replacement_text by (simp add: query_decode_bytes_def encode_all_def)
  moreover have "list_all is_scalar (if cp = NJS_UNICODE_CONTINUE then us @ [NJS_UNICODE_REPLACEMENT] else us)"
    using us(1) max_cp_consts(3) by simp
  ultimately show ?thesis by blast
qed

subsection \<open>Encoding, and back\<close>

lemma query_tables: "query_hex = uri_hex" "query_escape = escape_uri_component"
  by (simp_all add: query_hex_def uri_hex_def query_escape_def escape_uri_component_def)

abbreviation escaped :: "u_char list \<Rightarrow> u_char list" where
  "escaped s \<equiv> njs_string_encode query_escape s"

lemma foldl_count: "foldl (\<lambda>sz c. if P c then sz + 2 else sz) n s = n + 2 * length (filter P s)"
  by (induction s arbitrary: n) auto

lemma query_encode: "njs_query_string_encode chain s = chain @ escaped s"
proof -
  have "query_encode_size s = length s \<Longrightarrow> escaped s = s"
    unfolding query_encode_size_def foldl_count by (induction s) (auto simp: filter_empty_conv)
  then show ?thesis by (simp add: njs_query_string_encode_def)
qed

lemma escaped_byte: "query_decode_step ctx (0x25 # upper_hex ! unat (drop_bit 4 b) # upper_hex ! unat (b AND 0x0F) # rest) =
    map_option (\<lambda>(cp, ctx', _). (cp, ctx', rest)) (njs_utf8_decode ctx [b])" for b :: u_char
proof -
  have "word_of_int (int (unat (drop_bit 4 b)) * 16 + int (unat (b AND 0x0F))) = b"
    using nibbles(3)[of b] by simp
  then show ?thesis using nibbles(1,2)[of b] by (simp add: query_decode_step_def query_tables uri_hex_upper njs_utf8_consume_def)
qed

lemma decode_one_more:
  assumes d: "map_option norm_answer (njs_utf8_decode ctx (b # bs)) = Some (u, c, [])" and s: "stream_ctx ctx" and ne: "bs \<noteq> []"
  obtains ctx' where "njs_utf8_decode ctx [b] = Some (NJS_UNICODE_CONTINUE, ctx', [])" "stream_ctx ctx'"
    "map_option norm_answer (njs_utf8_decode ctx' bs) = Some (u, c, [])"
proof -
  obtain cp ctx' r where d1: "njs_utf8_decode ctx [b] = Some (cp, ctx', r)"
    using utf8_decode_answers[of "[b]" ctx] by (metis list.distinct(1) not_None_eq prod_cases3)
  note sa = stream_answer[OF d1 s, simplified]
  have "need ctx' \<noteq> 0"
  proof
    assume "need ctx' = 0"
    then have "map_option norm_answer (njs_utf8_decode ctx ([b] @ bs)) = Some (cp, norm_ctx ctx', r @ bs)" using sa(5)[of bs] by simp
    then show False using d ne by simp
  qed
  then show thesis using sa(1,2,3) sa(4)[of bs] ne d d1 that by simp
qed

text \<open>A character whose bytes are all escaped.\<close>

lemma query_loop_bytes:
  assumes "list_all (\<lambda>b. njs_need_escape query_escape (ucast b)) bs" "bs \<noteq> []" "is_scalar u" "stream_ctx ctx"
    "map_option norm_answer (njs_utf8_decode ctx bs) = Some (u, c, [])"
  shows "\<exists>ctx'. stream_ctx ctx' \<and> need ctx' = need c \<and>
      query_decode_loop ctx cp (escaped bs @ rest) chain = query_decode_loop ctx' u rest (chain @ utf8_bytes u)"
  using assms
proof (induction bs arbitrary: ctx cp)
  case (Cons b bs)
  have e: "escaped (b # bs) @ rest = 0x25 # upper_hex ! unat (drop_bit 4 b) # upper_hex ! unat (b AND 0x0F) # (escaped bs @ rest)"
    using Cons.prems(1) by simp
  show ?case
  proof (cases "bs = []")
    case True
    with Cons.prems(5) have "map_option norm_answer (njs_utf8_decode ctx [b]) = Some (u, c, [])" by simp
    then obtain ctx' where d: "njs_utf8_decode ctx [b] = Some (u, ctx', [])" "norm_ctx ctx' = c"
      by (cases "njs_utf8_decode ctx [b]") auto
    have "\<not> NJS_UNICODE_MAX_CODEPOINT < u" using Cons.prems(3) by (simp add: is_scalar_def not_less)
    then have "query_decode_loop ctx cp (escaped (b # bs) @ rest) chain = query_decode_loop ctx' u rest (chain @ utf8_bytes u)"
      unfolding e by (subst query_decode_loop.simps) (simp add: escaped_byte d(1) True)
    then show ?thesis using stream_answer(2)[OF d(1) Cons.prems(4)] d(2) by auto
  next
    case False
    obtain ctx' where d: "njs_utf8_decode ctx [b] = Some (NJS_UNICODE_CONTINUE, ctx', [])" "stream_ctx ctx'"
      "map_option norm_answer (njs_utf8_decode ctx' bs) = Some (u, c, [])"
      using decode_one_more[OF Cons.prems(5,4) False] .
    have "query_decode_loop ctx cp (escaped (b # bs) @ rest) chain = query_decode_loop ctx' NJS_UNICODE_CONTINUE (escaped bs @ rest) chain"
      unfolding e using max_cp_consts(2) by (subst query_decode_loop.simps) (simp add: escaped_byte d(1))
    then show ?thesis using Cons.IH[OF _ False Cons.prems(3) d(2,3)] Cons.prems(1) by simp
  qed
qed simp

lemma query_high: "0x80 \<le> unat b \<Longrightarrow> njs_need_escape query_escape (ucast (b :: u_char))"
  unfolding query_tables by (rule uri_component.high_escaped)

lemma query_specials: "njs_need_escape query_escape 0x25" "njs_need_escape query_escape 0x2B"
  by code_simp+

lemma query_loop_char:
  assumes u: "is_scalar u" and s: "stream_ctx ctx" "need ctx = 0"
  shows "\<exists>ctx'. stream_ctx ctx' \<and> need ctx' = 0 \<and>
      query_decode_loop ctx cp (escaped (the (njs_utf8_encode u)) @ rest) chain = query_decode_loop ctx' u rest (chain @ utf8_bytes u)"
proof -
  obtain bs where bs: "njs_utf8_encode u = Some bs" using is_scalar_encode[OF u] by blast
  obtain c1 where d: "njs_utf8_decode ctx bs = Some (u, c1, [])" "need c1 = 0"
    using decode_scalar[OF u bs s(2), of "[]"] by auto
  have m: "map_option norm_answer (njs_utf8_decode ctx bs) = Some (u, norm_ctx c1, [])" by (simp add: d(1))
  have all: ?thesis if "list_all (\<lambda>b. njs_need_escape query_escape (ucast b)) bs"
    using query_loop_bytes[OF that encode_nonempty[OF bs] u s(1) m] d(2) bs by simp
  show ?thesis
  proof (cases "u < 0x80")
    case True
    then have b: "bs = [ucast u]" "ucast (ucast u :: u_char) = u" using encode_low[OF True] bs by simp_all
    show ?thesis
    proof (cases "njs_need_escape query_escape u")
      case esc: True
      then show ?thesis using all b by simp
    next
      case False
      define x where "x = (ucast u :: u_char)"
      have ne: "x \<noteq> 0x25" "x \<noteq> 0x2B" using False query_specials b(2) by (auto simp: x_def)
      have "njs_utf8_decode ctx (x # rest) = Some (u, c1, rest)"
      proof -
        obtain c2 where "njs_utf8_decode ctx (bs @ rest) = Some (u, c2, rest)" using decode_scalar[OF u bs s(2)] by blast
        moreover have "njs_utf8_decode ctx [x] = Some (u, c1, [])" using d(1) b(1) by (simp add: x_def)
        moreover have "x < 0x80" using True by (simp add: x_def word_less_nat_alt unat_ucast_byte)
        ultimately show ?thesis using s(2) b(1) by (simp add: x_def njs_utf8_decode_def)
      qed
      moreover have "\<not> NJS_UNICODE_MAX_CODEPOINT < u" using u by (simp add: is_scalar_def not_less)
      ultimately have "query_decode_loop ctx cp (x # rest) chain = query_decode_loop c1 u rest (chain @ utf8_bytes u)"
        using ne by (subst query_decode_loop.simps) (simp add: query_decode_step_def)
      moreover have "escaped [x] = [x]" using False b(2) by (simp add: x_def)
      ultimately show ?thesis using stream_answer(2)[OF d(1) s(1) encode_nonempty[OF bs]] d(2) bs b(1)
        by (auto simp: x_def)
    qed
  next
    case False
    obtain c ts where e: "njs_utf8_encode u = Some (c # ts)" "0xC0 \<le> unat c" "list_all (\<lambda>b. 0x80 \<le> unat b) ts"
      using encode_high[OF u False] by metis
    then have "list_all (\<lambda>b. njs_need_escape query_escape (ucast b)) bs" using bs query_high by (auto simp: list_all_iff)
    then show ?thesis by (rule all)
  qed
qed

lemma query_loop_escaped:
  "list_all is_scalar us \<Longrightarrow> stream_ctx ctx \<Longrightarrow> need ctx = 0 \<Longrightarrow> cp \<noteq> NJS_UNICODE_CONTINUE \<Longrightarrow>
   \<exists>cp'. cp' \<noteq> NJS_UNICODE_CONTINUE \<and> query_decode_loop ctx cp (escaped (encode_all us)) chain = Some (cp', chain @ encode_all us)"
proof (induction us arbitrary: ctx cp chain)
  case (Cons u us)
  then have u: "is_scalar u" by simp
  obtain ctx' where c: "stream_ctx ctx'" "need ctx' = 0"
    "query_decode_loop ctx cp (escaped (the (njs_utf8_encode u)) @ escaped (encode_all us)) chain = query_decode_loop ctx' u (escaped (encode_all us)) (chain @ utf8_bytes u)"
    using query_loop_char[OF u Cons.prems(2,3)] by blast
  have n: "u \<noteq> NJS_UNICODE_CONTINUE" using u by (auto simp: is_scalar_def unicode_consts)
  show ?case using Cons.IH[OF _ c(1,2) n, of "chain @ utf8_bytes u"] Cons.prems(1) c(3)
    by (auto simp: string_encode_append utf8_bytes_scalar)
qed (auto simp: query_decode_loop.simps)

lemma query_decode_escaped: "list_all is_scalar us \<Longrightarrow> query_decode_bytes (escaped (encode_all us)) = Some (encode_all us)"
  using query_loop_escaped[OF _ init_stream, of us 0 "[]"] by (auto simp: query_decode_bytes_def Njs_Uri_Props.idle unicode_consts)

end
