(* ===== verification/Njs_Query_Props.thy ===== *)
theory Njs_Query_Props
  imports Njs_Query_Text
begin

section \<open>Parsing what was printed\<close>

text \<open>
  An object is given here by its keys and the list of the values of each, all of them texts:
  \<open>query_field\<close> and \<open>query_entry_of\<close> say how the object looks that is printed and the one that is parsed.  A
  list of one value cannot be told from the value.  \<open>query_text\<close> is the text of an object.
\<close>

definition query_field :: "u_char list list \<Rightarrow> 'n query_field" where
  "query_field vs = (if length vs = 1 then Single (Q_string (hd vs)) else Array (map Q_string vs))"

definition query_entry_of :: "u_char list list \<Rightarrow> 'v query_entry" where
  "query_entry_of vs = (if length vs = 1 then One (Text (hd vs)) else Many (map Text vs))"

definition pairs_of :: "(u_char list \<times> u_char list list) list \<Rightarrow> (u_char list \<times> u_char list) list" where
  "pairs_of obj = concat (map (\<lambda>(k, vs). map (Pair k) vs) obj)"

definition pair_text :: "u_char list \<Rightarrow> u_char list \<times> u_char list \<Rightarrow> u_char list" where
  "pair_text eq = (\<lambda>(k, v). escaped k @ eq @ escaped v)"

fun pairs_text :: "u_char list \<Rightarrow> u_char list \<Rightarrow> (u_char list \<times> u_char list) list \<Rightarrow> u_char list" where
  "pairs_text sep eq [] = []"
| "pairs_text sep eq [p] = pair_text eq p"
| "pairs_text sep eq (p # ps) = pair_text eq p @ sep @ pairs_text sep eq ps"

definition query_text :: "u_char list \<Rightarrow> u_char list \<Rightarrow> (u_char list \<times> u_char list list) list \<Rightarrow> u_char list" where
  "query_text sep eq obj = pairs_text sep eq (pairs_of obj)"

text \<open>Separators that the coded text cannot be mistaken for.\<close>

definition plain_separators :: "u_char list \<Rightarrow> u_char list \<Rightarrow> bool" where
  "plain_separators sep eq \<longleftrightarrow>
     sep \<noteq> [] \<and> eq \<noteq> [] \<and> valid_utf8 sep \<and> valid_utf8 eq \<and>
     hd sep \<noteq> 0x25 \<and> njs_need_escape query_escape (ucast (hd sep)) \<and>
     hd eq \<noteq> 0x25 \<and> njs_need_escape query_escape (ucast (hd eq)) \<and> hd sep \<notin> set eq"

subsection \<open>Printing\<close>

definition emit :: "u_char list \<Rightarrow> u_char list \<Rightarrow> u_char list \<Rightarrow> u_char list \<times> u_char list \<Rightarrow> u_char list" where
  "emit sep eq chain p = (if chain \<noteq> [] then chain @ sep else chain) @ pair_text eq p"

lemma push_text: "njs_query_string_push num eq Native chain k (Q_string v) = Inr (chain @ pair_text eq (k, v))"
  by (simp add: njs_query_string_push_def njs_query_string_encoder_call_def query_encode pair_text_def)

lemma items_text: "stringify_items num sep eq Native k (map Q_string vs) chain = Inr (foldl (emit sep eq) chain (map (Pair k) vs))"
  by (induction vs arbitrary: chain) (simp_all add: push_text emit_def)

lemma emit_nonempty: "eq \<noteq> [] \<Longrightarrow> emit sep eq chain p \<noteq> []"
  by (cases p) (simp add: emit_def pair_text_def)

lemma emits_nonempty: "eq \<noteq> [] \<Longrightarrow> ps \<noteq> [] \<Longrightarrow> foldl (emit sep eq) chain ps \<noteq> []"
  by (induction ps rule: rev_induct) (simp_all add: emit_nonempty)

lemma fields_text:
  "eq \<noteq> [] \<Longrightarrow> \<forall>(k, vs) \<in> set obj. vs \<noteq> [] \<Longrightarrow> (n = 0 \<longleftrightarrow> chain = []) \<Longrightarrow>
   stringify_fields num sep eq Native n (map (\<lambda>(k, vs). (k, query_field vs)) obj) chain = Inr (foldl (emit sep eq) chain (pairs_of obj))"
proof (induction obj arbitrary: n chain)
  case (Cons kv obj)
  obtain k vs where kv: "kv = (k, vs)" by (cases kv)
  then have vs: "vs \<noteq> []" using Cons.prems(2) by simp
  have ne: "foldl (emit sep eq) chain (map (Pair k) vs) \<noteq> []" using emits_nonempty[OF Cons.prems(1)] vs by simp
  have f: "(case query_field vs of
        Array items \<Rightarrow> stringify_items num sep eq Native k items chain
      | Single item \<Rightarrow> njs_query_string_push num eq Native (if n \<noteq> 0 then chain @ sep else chain) k item) =
    Inr (foldl (emit sep eq) chain (map (Pair k) vs))"
  proof (cases "length vs = 1")
    case True
    then obtain v where v: "vs = [v]" by (metis One_nat_def length_0_conv length_Suc_conv)
    then show ?thesis using Cons.prems(3) by (auto simp: query_field_def push_text emit_def)
  next
    case False
    then show ?thesis by (simp add: query_field_def items_text)
  qed
  show ?case using Cons.IH[OF Cons.prems(1), of "n + 1" "foldl (emit sep eq) chain (map (Pair k) vs)"] Cons.prems(2) ne
    by (simp add: kv f pairs_of_def)
qed (simp add: pairs_of_def)

lemma emits_after: "chain \<noteq> [] \<Longrightarrow> eq \<noteq> [] \<Longrightarrow> foldl (emit sep eq) chain ps = chain @ (if ps = [] then [] else sep @ pairs_text sep eq ps)"
proof (induction ps arbitrary: chain)
  case (Cons p ps)
  then have "foldl (emit sep eq) (emit sep eq chain p) ps = emit sep eq chain p @ (if ps = [] then [] else sep @ pairs_text sep eq ps)"
    using emit_nonempty by blast
  moreover have "emit sep eq chain p = chain @ sep @ pair_text eq p" using Cons.prems(1) by (simp add: emit_def)
  ultimately show ?case by (cases ps) simp_all
qed simp

lemma emits_text: "eq \<noteq> [] \<Longrightarrow> foldl (emit sep eq) [] ps = pairs_text sep eq ps"
proof (cases ps)
  case (Cons p ps')
  assume "eq \<noteq> []"
  moreover have "emit sep eq [] p = pair_text eq p" by (simp add: emit_def)
  ultimately show ?thesis using emits_after[of "emit sep eq [] p" eq sep ps'] emit_nonempty[of eq sep "[]" p] Cons
    by (cases ps') simp_all
qed simp

subsection \<open>Texts of strings\<close>

lemma valid_append: "valid_utf8 a \<Longrightarrow> valid_utf8 b \<Longrightarrow> valid_utf8 (a @ b)"
  unfolding valid_utf8_def by (metis (no_types, lifting) encode_all_def list_all_append map_append concat_append)

lemma valid_ascii: "list_all (\<lambda>c. unat c < 0x80) s \<Longrightarrow> valid_utf8 s"
  using ascii_text[of s] unfolding valid_utf8_def by metis

lemma upper_hex_ascii: "k < 16 \<Longrightarrow> unat (upper_hex ! k) < 0x80"
  by (auto simp: upper_hex_def nth_Cons' split: if_splits)

lemma escaped_ascii: "list_all (\<lambda>c. unat c < 0x80) (escaped s)"
proof (induction s)
  case (Cons c s)
  have "\<not> njs_need_escape query_escape (ucast c) \<Longrightarrow> unat c < 0x80" using query_high[of c] by fastforce
  then show ?case using Cons nibbles(1,2)[of c] by (simp add: upper_hex_ascii)
qed simp

lemma valid_escaped: "valid_utf8 (escaped s)"
  by (rule valid_ascii[OF escaped_ascii])

lemma valid_pairs: "valid_utf8 sep \<Longrightarrow> valid_utf8 eq \<Longrightarrow> valid_utf8 (pairs_text sep eq ps)"
proof (induction sep eq ps rule: pairs_text.induct)
  case (1 sep eq)
  then show ?case by (simp add: valid_utf8_Nil)
qed (auto simp: pair_text_def intro!: valid_append valid_escaped)

lemma create_chb_text:
  assumes "valid_utf8 b" "length b \<le> NJS_STRING_MAX_LENGTH" "\<forall>n. alloc env n"
  obtains s where "njs_string_create_chb env b = Some (Inr s)" "str_start s = b"
proof -
  obtain us where us: "list_all is_scalar us" "b = encode_all us" using assms(1) by (auto simp: valid_utf8_def)
  then have "njs_utf8_length b = Some (Inr (length us))" using utf8_length_text by blast
  then show thesis using assms(2,3) that by (simp add: njs_string_create_chb_def njs_string_alloc_def)
qed

lemma part_text:
  assumes "valid_utf8 s" "length s \<le> NJS_STRING_MAX_LENGTH" "\<forall>n. alloc env n"
  shows "query_part env Native (escaped s) = Some (Inr s)"
proof -
  have "query_decode_bytes (escaped s) = Some s" using assms(1) query_decode_escaped by (auto simp: valid_utf8_def)
  then show ?thesis using create_chb_text[OF assms] by (metis (no_types, lifting) id_apply map_sum.simps(2) njs_query_string_decode_def
        option.case(2) option.map(2) query_part_def js_function.case(1) to_text_def)
qed

lemma escaped_longer: "length s \<le> length (escaped s)"
  by (induction s) auto

subsection \<open>Parsing\<close>

lemma match_absent: "v \<noteq> [] \<Longrightarrow> hd v \<notin> set p \<Longrightarrow> njs_query_string_match p v = length p"
proof -
  assume v: "v \<noteq> []" "hd v \<notin> set p"
  have m: "match_loop v p = length p" using v(2)
  proof (induction p)
    case (Cons c p)
    have "take (length v) (c # p) \<noteq> v" using v(1) Cons.prems by (cases v) auto
    then show ?case using Cons by simp
  qed simp
  have t: "takeWhile (\<lambda>c. c \<noteq> hd v) p = p" using v(2) by (auto simp: takeWhile_eq_all_conv)
  show ?thesis unfolding njs_query_string_match_def t m by (simp only: if_cancel)
qed

lemma match_first: "v \<noteq> [] \<Longrightarrow> hd v \<notin> set a \<Longrightarrow> njs_query_string_match (a @ v @ r) v = length a"
proof -
  assume v: "v \<noteq> []" "hd v \<notin> set a"
  have "match_loop v (a @ v @ r) = length a" using v(2)
  proof (induction a)
    case Nil
    then show ?case using v(1) by (cases v) simp_all
  next
    case (Cons c a)
    have "take (length v) (c # a @ v @ r) \<noteq> v" using v(1) Cons.prems by (cases v) auto
    then show ?case using Cons by simp
  qed
  moreover have "takeWhile (\<lambda>c. c \<noteq> hd v) (a @ v @ r) = a" using v by (cases v) (auto simp: takeWhile_append)
  ultimately show ?thesis by (simp add: njs_query_string_match_def)
qed

lemma escaped_alphabet: "c \<in> set (escaped s) \<Longrightarrow> c = 0x25 \<or> \<not> njs_need_escape query_escape (ucast c)"
proof (induction s)
  case (Cons b s)
  have h: "list_all (\<lambda>k. \<not> njs_need_escape query_escape (ucast (upper_hex ! k))) [0..<16]" by code_simp
  then have "\<not> njs_need_escape query_escape (ucast (upper_hex ! k))" if "k < 16" for k using that by (simp add: list_all_iff)
  then show ?case using Cons nibbles(1,2)[of b] by (auto split: if_splits)
qed simp

lemma separators_apart:
  assumes "plain_separators sep eq"
  shows "hd eq \<notin> set (escaped k)" "hd sep \<notin> set (pair_text eq (k, v))"
  using assms escaped_alphabet[of "hd eq" k] escaped_alphabet[of "hd sep" k] escaped_alphabet[of "hd sep" v]
  by (auto simp: plain_separators_def pair_text_def)

definition put_pair :: "(u_char list \<Rightarrow> 'v option) \<Rightarrow> 'v query_object \<Rightarrow> u_char list \<times> u_char list \<Rightarrow> 'v query_object" where
  "put_pair inherited obj p = query_put inherited obj (fst p) (snd p)"

lemma parser_step:
  assumes "plain_separators sep eq" "valid_utf8 k" "valid_utf8 v" "\<forall>n. alloc env n"
    "length (pair_text eq (k, v)) \<le> NJS_STRING_MAX_LENGTH" "rest = [] \<or> (\<exists>r. rest = sep @ r)" "count < max_keys"
  shows "query_parser_loop env inherited sep eq Native max_keys count (pair_text eq (k, v) @ rest) obj =
         query_parser_loop env inherited sep eq Native max_keys (count + 1) (drop (length sep) rest) (put_pair inherited obj (k, v))"
proof -
  let ?p = "pair_text eq (k, v)"
  have s: "sep \<noteq> []" "eq \<noteq> []" using assms(1) by (simp_all add: plain_separators_def)
  note a = separators_apart[OF assms(1), of k] separators_apart(2)[OF assms(1), of k v]
  have n: "njs_query_string_match (?p @ rest) sep = length ?p"
    using assms(6) match_absent[OF s(1) a(3)] match_first[OF s(1) a(3)] by auto
  have m: "njs_query_string_match ?p eq = length (escaped k)" "length (escaped k) \<noteq> length ?p" "length ?p \<noteq> 0"
    using match_first[OF s(2) a(1), of "escaped v"] s(2) by (simp_all add: pair_text_def)
  have t: "take (length (escaped k)) ?p = escaped k" "drop (length (escaped k) + length eq) ?p = escaped v"
    by (simp_all add: pair_text_def)
  have l: "length k \<le> NJS_STRING_MAX_LENGTH" "length v \<le> NJS_STRING_MAX_LENGTH"
    using assms(5) escaped_longer[of k] escaped_longer[of v] by (simp_all add: pair_text_def)
  have ap: "njs_query_string_append env inherited Native obj (escaped k) (escaped v) = Some (Inr (put_pair inherited obj (k, v)))"
    by (simp add: njs_query_string_append_def part_text[OF assms(2) l(1) assms(4)] part_text[OF assms(3) l(2) assms(4)] put_pair_def)
  have c: "\<not> (?p @ rest = [] \<or> sep = [] \<or> count = max_keys)" using s m(3) assms(7) by auto
  show ?thesis
    unfolding query_parser_loop.simps[of env inherited sep eq Native max_keys count "?p @ rest"] if_not_P[OF c] Let_def n
    using m by (simp add: t ap)
qed

lemma parser_pairs:
  assumes "plain_separators sep eq" "\<forall>n. alloc env n"
  shows "\<forall>(k, v) \<in> set ps. valid_utf8 k \<and> valid_utf8 v \<Longrightarrow> length (pairs_text sep eq ps) \<le> NJS_STRING_MAX_LENGTH \<Longrightarrow> count + length ps \<le> max_keys \<Longrightarrow>
    query_parser_loop env inherited sep eq Native max_keys count (pairs_text sep eq ps) obj = Some (Inr (foldl (put_pair inherited) obj ps))"
proof (induction ps arbitrary: count obj)
  case Nil
  then show ?case by (simp add: query_parser_loop.simps)
next
  case (Cons p ps)
  obtain k v where p: "p = (k, v)" by (cases p)
  define rest where "rest = (if ps = [] then [] else sep @ pairs_text sep eq ps)"
  have e: "pairs_text sep eq (p # ps) = pair_text eq (k, v) @ rest" using p by (cases ps) (simp_all add: rest_def)
  have r: "rest = [] \<or> (\<exists>r. rest = sep @ r)" "drop (length sep) rest = pairs_text sep eq ps" by (auto simp: rest_def)
  have v: "valid_utf8 k" "valid_utf8 v" using Cons.prems(1) p by simp_all
  have lr: "length (pairs_text sep eq ps) \<le> length rest" by (cases "ps = []") (simp_all add: rest_def)
  have l: "length (pair_text eq (k, v)) \<le> NJS_STRING_MAX_LENGTH" "length (pairs_text sep eq ps) \<le> NJS_STRING_MAX_LENGTH"
    using Cons.prems(2) lr by (simp_all only: e length_append)
  have c: "count < max_keys" using Cons.prems(3) by simp
  have q: "\<forall>(k, v) \<in> set ps. valid_utf8 k \<and> valid_utf8 v" using Cons.prems(1) by simp
  show ?case unfolding e parser_step[OF assms(1) v assms(2) l(1) r(1) c] r(2)
    using Cons.IH[OF q l(2), of "count + 1"] Cons.prems(3) by (simp add: p)
qed

subsection \<open>The object that is built\<close>

lemma alist_update_new: "k \<notin> fst ` set obj \<Longrightarrow> AList.update k e obj = obj @ [(k, e)]"
  by (induction obj) auto

lemma alist_update_last: "k \<notin> fst ` set obj \<Longrightarrow> AList.update k e (obj @ [(k, e')]) = obj @ [(k, e)]"
  by (induction obj) auto

lemma put_values:
  "vs \<noteq> [] \<Longrightarrow> k \<notin> fst ` set obj \<Longrightarrow> inherited k = None \<Longrightarrow>
   foldl (put_pair inherited) obj (map (Pair k) vs) = obj @ [(k, query_entry_of vs)]"
proof (induction vs rule: rev_induct)
  case (snoc v vs)
  have m: "map_of obj k = None" using snoc.prems(2) by (simp add: map_of_eq_None_iff)
  show ?case
  proof (cases "vs = []")
    case True
    then show ?thesis using snoc.prems m by (simp add: put_pair_def query_put_def alist_update_new query_entry_of_def)
  next
    case False
    then have ih: "foldl (put_pair inherited) obj (map (Pair k) vs) = obj @ [(k, query_entry_of vs)]" using snoc by blast
    have one: "\<exists>v0. vs = [v0]" if "length vs = 1" using that by (metis One_nat_def length_0_conv length_Suc_conv)
    have "put_pair inherited (obj @ [(k, query_entry_of vs)]) (k, v) = obj @ [(k, query_entry_of (vs @ [v]))]"
      using False m snoc.prems(2) one by (auto simp: put_pair_def query_put_def map_add_def query_entry_of_def alist_update_last)
    then show ?thesis using ih by simp
  qed
qed simp

lemma put_object:
  "distinct (map fst obj) \<Longrightarrow> \<forall>(k, vs) \<in> set obj. vs \<noteq> [] \<and> inherited k = None \<Longrightarrow> fst ` set old \<inter> fst ` set obj = {} \<Longrightarrow>
   foldl (put_pair inherited) old (pairs_of obj) = old @ map (\<lambda>(k, vs). (k, query_entry_of vs)) obj"
proof (induction obj arbitrary: old)
  case (Cons kv obj)
  obtain k vs where kv: "kv = (k, vs)" by (cases kv)
  have "foldl (put_pair inherited) old (map (Pair k) vs) = old @ [(k, query_entry_of vs)]"
    using Cons.prems kv by (intro put_values) auto
  moreover have "fst ` set (old @ [(k, query_entry_of vs)]) \<inter> fst ` set obj = {}" using Cons.prems(1,3) kv by auto
  ultimately show ?case using Cons.IH[of "old @ [(k, query_entry_of vs)]"] Cons.prems(1,2) kv by (simp add: pairs_of_def)
qed (simp add: pairs_of_def)

subsection \<open>The properties\<close>

text \<open>
  C40.  Coding of the parts of a query.  Whatever the bytes, \<open>unescape\<close> answers with a text in UTF-8 and never
  reads past the end; \<open>escape\<close> followed by \<open>unescape\<close> gives the text back, and what \<open>escape\<close> writes is ASCII.
\<close>

theorem query_coding:
  assumes "valid_utf8 s"
  shows "(\<exists>us. list_all is_scalar us \<and> query_decode_bytes p = Some (encode_all us)) \<and>
     query_decode_bytes (njs_query_string_encode [] s) = Some s \<and>
     list_all (\<lambda>c. unat c < 0x80) (njs_query_string_encode [] s)"
proof -
  have "query_decode_bytes (escaped s) = Some s" using assms query_decode_escaped by (auto simp: valid_utf8_def)
  then show ?thesis using query_decode_text by (simp add: query_encode escaped_ascii)
qed


text \<open>C41 at the text "a b" and C42 at the object \<open>{a: '1', 'b&': ['x', 'y z']}\<close>.\<close>

theorem query_coding_witness:
  "query_decode_bytes (njs_query_string_encode [] [0x61, 0x20, 0x62]) = Some [0x61, 0x20, 0x62]"
proof -
  have "valid_utf8 [0x61, 0x20, 0x62]" by (rule valid_ascii) simp
  from query_coding[OF this] show ?thesis by blast
qed

definition some_env :: string_env where
  "some_env = \<lparr>alloc = (\<lambda>_. True), junk = (\<lambda>_. 0)\<rparr>"

definition some_args :: query_args where
  "some_args = \<lparr>arg_sep = None, arg_eq = None, arg_max_keys = Limit 3, arg_function = Missing, arg_this = Callable Native\<rparr>"

lemma default_separators: "plain_separators njs_sep_default njs_eq_default"
proof -
  have "njs_need_escape query_escape 0x26" "njs_need_escape query_escape 0x3D" by code_simp+
  then show ?thesis by (simp add: plain_separators_def njs_sep_default_def njs_eq_default_def valid_ascii)
qed

text \<open>The query a=1, with any limit.\<close>

lemma parse_one_pair:
  assumes "0 < m" "\<forall>n. alloc env n"
  shows "query_parser_loop env (\<lambda>_. None) njs_sep_default njs_eq_default Native m 0 [0x61, 0x3D, 0x31] [] = Some (Inr [([0x61], One (Text [0x31]))])"
proof -
  have "pairs_text njs_sep_default njs_eq_default [([0x61], [0x31])] = [0x61, 0x3D, 0x31]" by code_simp
  then show ?thesis using parser_pairs[OF default_separators assms(2), of "[([0x61], [0x31])]" 0 m "\<lambda>_. None" "[]"] assms(1)
    by (simp add: valid_ascii NJS_STRING_MAX_LENGTH_def put_pair_def query_put_def)
qed


end
