(* ===== verification/Njs_Query_Qjs.thy ===== *)
theory Njs_Query_Qjs
  imports Njs_Query_Props Njs_Codec_Qjs
begin

section \<open>Query strings of the QuickJS engine (external/qjs_query_string_module.c)\<close>

text \<open>
  The module of the other engine.  A string of QuickJS is represented by its UTF-8 text, what
  \<open>JS_ToCStringLen\<close> gives and \<open>JS_NewStringLen\<close> takes; \<open>malloc\<close> says whether memory can be allocated.
\<close>

definition qjs_query_hex :: "int list" where
  "qjs_query_hex =
     replicate 48 (- 1) @ [0, 1, 2, 3, 4, 5, 6, 7, 8, 9] @ replicate 7 (- 1) @ [10, 11, 12, 13, 14, 15] @ replicate 26 (- 1) @
     [10, 11, 12, 13, 14, 15] @ replicate 153 (- 1)"

definition qjs_decode_step :: "njs_unicode_decode \<Rightarrow> u_char list \<Rightarrow> (uint32 \<times> njs_unicode_decode \<times> u_char list) option" where
  "qjs_decode_step ctx p =
     (if hd p = 0x25 \<and> 2 < length p \<and> 0 \<le> qjs_query_hex ! unat (p ! 1) \<and> 0 \<le> qjs_query_hex ! unat (p ! 2)
      then map_option (\<lambda>(cp, ctx', _). (cp, ctx', drop 3 p))
             (njs_utf8_consume ctx (word_of_int (qjs_query_hex ! unat (p ! 1) * 16 + qjs_query_hex ! unat (p ! 2))))
      else if hd p = 0x2B then Some (0x20, ctx, tl p)
      else njs_utf8_decode ctx p)"

lemma qjs_step: "qjs_decode_step = query_decode_step"
  by (intro ext) (simp add: qjs_decode_step_def query_decode_step_def qjs_query_hex_def query_hex_def)

function qjs_decode_loop :: "njs_unicode_decode \<Rightarrow> uint32 \<Rightarrow> u_char list \<Rightarrow> u_char list \<Rightarrow> (uint32 \<times> u_char list) option" where
  "qjs_decode_loop ctx cp p chain =
     (if p = [] then Some (cp, chain)
      else
        (case qjs_decode_step ctx p of
           None \<Rightarrow> None
         | Some (cp, ctx', p') \<Rightarrow>
             (if NJS_UNICODE_MAX_CODEPOINT < cp then
                (if cp = NJS_UNICODE_CONTINUE then qjs_decode_loop ctx' cp p' chain
                 else qjs_decode_loop ctx' NJS_UNICODE_REPLACEMENT p' (chain @ utf8_bytes NJS_UNICODE_REPLACEMENT))
              else qjs_decode_loop ctx' cp p' (chain @ utf8_bytes cp))))"
  by pat_completeness auto
termination
  by (relation "measure (\<lambda>(ctx, cp, p, chain). pending ctx p)") (auto simp: qjs_step dest: query_step_pending)

declare qjs_decode_loop.simps [simp del]

definition qjs_query_string_decode :: "(nat \<Rightarrow> bool) \<Rightarrow> u_char list \<Rightarrow> (codec_error + u_char list) option" where
  "qjs_query_string_decode malloc start =
     map_option (\<lambda>(cp, chain).
         qjs_string_create_chb malloc id (if cp = NJS_UNICODE_CONTINUE then chain @ utf8_bytes NJS_UNICODE_REPLACEMENT else chain))
       (qjs_decode_loop idle_ctx 0 start [])"

definition qjs_query_string_unescape :: "(nat \<Rightarrow> bool) \<Rightarrow> u_char list \<Rightarrow> (codec_error + u_char list) option" where
  "qjs_query_string_unescape malloc str = qjs_query_string_decode malloc str"

subsection \<open>Parsing\<close>

fun qjs_match_loop :: "u_char list \<Rightarrow> u_char list \<Rightarrow> nat" where
  "qjs_match_loop v [] = 0"
| "qjs_match_loop v (c # p) =
     (if length (c # p) < length v then length (c # p)
      else if take (length v) (c # p) = v then 0
      else qjs_match_loop v p + 1)"

definition qjs_query_string_match :: "u_char list \<Rightarrow> u_char list \<Rightarrow> nat" where
  "qjs_query_string_match p v =
     (if length v = 1 then length (takeWhile (\<lambda>c. c \<noteq> hd v) p) else qjs_match_loop v p)"

text \<open>A function of the caller is also called for an empty part.\<close>

definition qjs_query_part :: "(nat \<Rightarrow> bool) \<Rightarrow> js_function \<Rightarrow> u_char list \<Rightarrow> (codec_error + u_char list) option" where
  "qjs_query_part malloc decoder part =
     (case decoder of Native \<Rightarrow> qjs_query_string_decode malloc part | User f \<Rightarrow> Some (f part))"

definition qjs_query_put :: "('k \<Rightarrow> 'v option) \<Rightarrow> ('k \<times> 'v query_entry) list \<Rightarrow> 'k \<Rightarrow> u_char list \<Rightarrow> ('k \<times> 'v query_entry) list" where
  "qjs_query_put inherited obj prop val =
     (case (case map_of obj prop of None \<Rightarrow> map_option (\<lambda>v. One (Inherited v)) (inherited prop) | Some prev \<Rightarrow> Some prev) of
        None \<Rightarrow> AList.update prop (One (Text val)) obj
      | Some (Many vs) \<Rightarrow> AList.update prop (Many (vs @ [Text val])) obj
      | Some (One prev) \<Rightarrow> AList.update prop (Many [prev, Text val]) obj)"

definition qjs_query_string_append ::
    "(nat \<Rightarrow> bool) \<Rightarrow> (u_char list \<Rightarrow> 'v option) \<Rightarrow> 'v query_object \<Rightarrow> u_char list \<Rightarrow> u_char list \<Rightarrow> js_function \<Rightarrow>
     (codec_error + 'v query_object) option" where
  "qjs_query_string_append malloc inherited obj key val decoder =
     (case qjs_query_part malloc decoder key of
        None \<Rightarrow> None
      | Some (Inl e) \<Rightarrow> Some (Inl e)
      | Some (Inr name) \<Rightarrow>
          (case qjs_query_part malloc decoder val of
             None \<Rightarrow> None
           | Some (Inl e) \<Rightarrow> Some (Inl e)
           | Some (Inr v) \<Rightarrow> Some (Inr (qjs_query_put inherited obj name v))))"

function qjs_parser_loop ::
    "(nat \<Rightarrow> bool) \<Rightarrow> (u_char list \<Rightarrow> 'v option) \<Rightarrow> u_char list \<Rightarrow> u_char list \<Rightarrow> js_function \<Rightarrow> nat \<Rightarrow> nat \<Rightarrow> u_char list \<Rightarrow>
     'v query_object \<Rightarrow> (codec_error + 'v query_object) option" where
  "qjs_parser_loop malloc inherited sep eq decode max_keys count key obj =
     (if key = [] \<or> sep = [] \<or> count = max_keys then Some (Inr obj)
      else
        (let n = qjs_query_string_match key sep;
             part = take n key;
             rest = drop (n + length sep) key;
             k = qjs_query_string_match part eq;
             val = (if k \<noteq> n then drop (k + length eq) part else [])
         in if n = 0 then qjs_parser_loop malloc inherited sep eq decode max_keys (count + 1) rest obj
            else
              (case qjs_query_string_append malloc inherited obj (take k part) val decode of
                 None \<Rightarrow> None
               | Some (Inl e) \<Rightarrow> Some (Inl e)
               | Some (Inr obj') \<Rightarrow> qjs_parser_loop malloc inherited sep eq decode max_keys (count + 1) rest obj')))"
  by pat_completeness auto
termination
  by (relation "measure (\<lambda>(malloc, inherited, sep, eq, decode, max_keys, count, key, obj). length key)") auto

declare qjs_parser_loop.simps [simp del]

definition qjs_separator :: "u_char \<Rightarrow> u_char list option \<Rightarrow> u_char list" where
  "qjs_separator dflt arg = (case arg of None \<Rightarrow> [dflt] | Some s \<Rightarrow> if length s = 0 then [dflt] else s)"

text \<open>\<open>max_keys\<close> is passed as an unsigned int: the 64-bit number is cut.\<close>

definition qjs_query_string_parser ::
    "(nat \<Rightarrow> bool) \<Rightarrow> (u_char list \<Rightarrow> 'v option) \<Rightarrow> u_char list \<Rightarrow> u_char list option \<Rightarrow> u_char list option \<Rightarrow> js_function \<Rightarrow> int \<Rightarrow>
     (codec_error + 'v query_object) option" where
  "qjs_query_string_parser malloc inherited query sep eq decode max_keys =
     qjs_parser_loop malloc inherited (qjs_separator 0x26 sep) (qjs_separator 0x3D eq) decode (unat (word_of_int max_keys :: uint32)) 0 query []"

text \<open>
  \<open>limit\<close> is the option \<open>maxKeys\<close>: None when undefined, else its conversion to a 64-bit integer or the
  error that the conversion throws; \<open>arg_max_keys\<close> is not looked at.  Every first argument is converted to a string.
\<close>

definition qjs_query_string_parse ::
    "(nat \<Rightarrow> bool) \<Rightarrow> (u_char list \<Rightarrow> 'v option) \<Rightarrow> (codec_error + int) option \<Rightarrow> query_source \<Rightarrow> query_args \<Rightarrow>
     (codec_error + 'v query_object) option" where
  "qjs_query_string_parse malloc inherited limit string args =
     (case (case limit of None \<Rightarrow> Inr 1000 | Some (Inl e) \<Rightarrow> Inl e | Some (Inr n) \<Rightarrow> Inr (if n < 0 then INT64_MAX else n)) of
        Inl e \<Rightarrow> Some (Inl e)
      | Inr max_keys \<Rightarrow>
          (case (case arg_function args of
                   Callable f \<Rightarrow> Inr f
                 | Not_callable \<Rightarrow> Inl (TypeErr ''option decodeURIComponent is not a function'')
                 | Missing \<Rightarrow>
                     (case arg_this args of
                        Callable f \<Rightarrow> Inr f
                      | _ \<Rightarrow> Inl (TypeErr ''QueryString.unescape is not a function''))) of
             Inl e \<Rightarrow> Some (Inl e)
           | Inr decode \<Rightarrow>
               qjs_query_string_parser malloc inherited (case string of Is_string s \<Rightarrow> s | Not_string s \<Rightarrow> s)
                 (arg_sep args) (arg_eq args) decode max_keys))"

subsection \<open>Printing\<close>

definition qjs_query_escape :: "uint32 list" where
  "qjs_query_escape = [0xFFFFFFFF, 0xFC00987D, 0x78000001, 0xB8000001, 0xFFFFFFFF, 0xFFFFFFFF, 0xFFFFFFFF, 0xFFFFFFFF]"

definition qjs_need_escape :: "uint32 list \<Rightarrow> uint32 \<Rightarrow> bool" where
  "qjs_need_escape escape byte \<longleftrightarrow> escape ! unat (drop_bit 5 byte) AND push_bit (unat (byte AND 0x1F)) 1 \<noteq> 0"

fun qjs_string_encode :: "uint32 list \<Rightarrow> u_char list \<Rightarrow> u_char list" where
  "qjs_string_encode escape [] = []"
| "qjs_string_encode escape (byte # src) =
     (if qjs_need_escape escape (ucast byte)
      then 0x25 # upper_hex ! unat (drop_bit 4 byte) # upper_hex ! unat (byte AND 0x0F) # qjs_string_encode escape src
      else byte # qjs_string_encode escape src)"

definition qjs_query_string_encode :: "u_char list \<Rightarrow> u_char list \<Rightarrow> u_char list" where
  "qjs_query_string_encode chain str =
     (if str = [] then chain
      else
        (let sz = foldl (\<lambda>sz c. if qjs_need_escape qjs_query_escape (ucast c) then sz + 2 else sz) (length str) str
         in if sz = length str then chain @ str else chain @ qjs_string_encode qjs_query_escape str))"

definition qjs_query_string_escape :: "(nat \<Rightarrow> bool) \<Rightarrow> u_char list \<Rightarrow> codec_error + u_char list" where
  "qjs_query_string_escape malloc str = qjs_string_create_chb malloc id (qjs_query_string_encode [] str)"

definition qjs_query_string_encoder_call :: "js_function \<Rightarrow> u_char list \<Rightarrow> u_char list \<Rightarrow> codec_error + u_char list" where
  "qjs_query_string_encoder_call encoder chain str =
     (case encoder of
        Native \<Rightarrow> Inr (qjs_query_string_encode chain str)
      | User f \<Rightarrow> (case f str of Inl e \<Rightarrow> Inl e | Inr s \<Rightarrow> Inr (chain @ s)))"

text \<open>The number that is not a number is a number for \<open>JS_IsNumber\<close>.\<close>

definition nan_text :: "u_char list" where "nan_text = [0x4E, 0x61, 0x4E]"

definition qjs_item_text :: "('n \<Rightarrow> u_char list) \<Rightarrow> 'n query_item \<Rightarrow> u_char list option" where
  "qjs_item_text number_text item =
     (case item of
        Q_string s \<Rightarrow> Some s | Q_bool b \<Rightarrow> Some (bool_text b) | Q_number n \<Rightarrow> Some (number_text n) | Q_nan \<Rightarrow> Some nan_text | Q_other \<Rightarrow> None)"

definition qjs_query_string_push ::
    "('n \<Rightarrow> u_char list) \<Rightarrow> u_char list \<Rightarrow> u_char list \<Rightarrow> 'n query_item \<Rightarrow> u_char list \<Rightarrow> js_function \<Rightarrow> codec_error + u_char list" where
  "qjs_query_string_push number_text chain key item eq encoder =
     (case qjs_query_string_encoder_call encoder chain key of
        Inl e \<Rightarrow> Inl e
      | Inr chain \<Rightarrow>
          (case qjs_item_text number_text item of
             None \<Rightarrow> Inr (chain @ eq)
           | Some s \<Rightarrow> qjs_query_string_encoder_call encoder (chain @ eq) s))"

fun qjs_query_string_push_array ::
    "('n \<Rightarrow> u_char list) \<Rightarrow> u_char list \<Rightarrow> u_char list \<Rightarrow> 'n query_item list \<Rightarrow> u_char list \<Rightarrow> u_char list \<Rightarrow> js_function \<Rightarrow>
     codec_error + u_char list" where
  "qjs_query_string_push_array number_text chain key [] eq sep encoder = Inr chain"
| "qjs_query_string_push_array number_text chain key (item # items) eq sep encoder =
     (case qjs_query_string_push number_text (if chain \<noteq> [] then chain @ sep else chain) key item eq encoder of
        Inl e \<Rightarrow> Inl e
      | Inr chain \<Rightarrow> qjs_query_string_push_array number_text chain key items eq sep encoder)"

fun qjs_stringify_loop ::
    "('n \<Rightarrow> u_char list) \<Rightarrow> u_char list \<Rightarrow> u_char list \<Rightarrow> js_function \<Rightarrow> nat \<Rightarrow> (u_char list \<times> 'n query_field) list \<Rightarrow> u_char list \<Rightarrow>
     codec_error + u_char list" where
  "qjs_stringify_loop number_text sep eq encoder n [] chain = Inr chain"
| "qjs_stringify_loop number_text sep eq encoder n ((key, Array items) # ptab) chain =
     (case qjs_query_string_push_array number_text chain key items eq sep encoder of
        Inl e \<Rightarrow> Inl e
      | Inr chain \<Rightarrow> qjs_stringify_loop number_text sep eq encoder (n + 1) ptab chain)"
| "qjs_stringify_loop number_text sep eq encoder n ((key, Single item) # ptab) chain =
     (case qjs_query_string_push number_text (if n \<noteq> 0 then chain @ sep else chain) key item eq encoder of
        Inl e \<Rightarrow> Inl e
      | Inr chain \<Rightarrow> qjs_stringify_loop number_text sep eq encoder (n + 1) ptab chain)"

definition qjs_query_string_stringify_internal ::
    "(nat \<Rightarrow> bool) \<Rightarrow> ('n \<Rightarrow> u_char list) \<Rightarrow> (u_char list \<times> 'n query_field) list option \<Rightarrow> u_char list option \<Rightarrow> u_char list option \<Rightarrow>
     js_function \<Rightarrow> codec_error + u_char list" where
  "qjs_query_string_stringify_internal malloc number_text object sep eq encoder =
     (case object of
        None \<Rightarrow> Inr []
      | Some ptab \<Rightarrow>
          (case qjs_stringify_loop number_text (qjs_separator 0x26 sep) (qjs_separator 0x3D eq) encoder 0 ptab [] of
             Inl e \<Rightarrow> Inl e
           | Inr chain \<Rightarrow> qjs_string_create_chb malloc id chain))"

definition qjs_query_string_stringify ::
    "(nat \<Rightarrow> bool) \<Rightarrow> ('n \<Rightarrow> u_char list) \<Rightarrow> (u_char list \<times> 'n query_field) list option \<Rightarrow> query_args \<Rightarrow> codec_error + u_char list" where
  "qjs_query_string_stringify malloc number_text object args =
     (case (case arg_function args of
              Callable f \<Rightarrow> Inr f
            | Not_callable \<Rightarrow> Inl (TypeErr ''option encodeURIComponent is not a function'')
            | Missing \<Rightarrow>
                (case arg_this args of
                   Callable f \<Rightarrow> Inr f
                 | _ \<Rightarrow> Inl (TypeErr ''QueryString.escape is not a function''))) of
        Inl e \<Rightarrow> Inl e
      | Inr encode \<Rightarrow> qjs_query_string_stringify_internal malloc number_text object (arg_sep args) (arg_eq args) encode)"

section \<open>The engines compared\<close>

lemma qjs_loop: "qjs_decode_loop ctx cp p chain = query_decode_loop ctx cp p chain"
proof (induction ctx cp p chain rule: query_decode_loop.induct)
  case (1 ctx cp p chain)
  show ?case
  proof (cases "p = []")
    case False
    then show ?thesis using "1.IH"
      by (subst qjs_decode_loop.simps, subst query_decode_loop.simps) (auto simp: qjs_step split: option.splits)
  qed (simp add: qjs_decode_loop.simps query_decode_loop.simps)
qed

lemma qjs_match: "qjs_query_string_match = query_match" if "query_match = njs_query_string_match" for query_match
proof -
  have "qjs_match_loop v p = match_loop v p" for v p by (induction v p rule: match_loop.induct) simp_all
  then show ?thesis unfolding that by (intro ext) (simp add: qjs_query_string_match_def njs_query_string_match_def)
qed

lemma qjs_put: "qjs_query_put inherited obj k v = query_put inherited obj k v"
  by (auto simp: qjs_query_put_def query_put_def split: option.splits query_entry.splits)

lemma njs_create_size: "njs_string_create_chb env b = Some (Inr s) \<Longrightarrow> str_start s = b \<and> length b \<le> NJS_STRING_MAX_LENGTH"
  by (auto simp: njs_string_create_chb_def njs_string_alloc_def split: option.splits sum.splits if_splits)

lemma qjs_create: "length b \<le> NJS_STRING_MAX_LENGTH \<Longrightarrow> \<forall>n. malloc n \<Longrightarrow> qjs_string_create_chb malloc id b = Inr b"
  by (simp add: qjs_string_create_chb_def NJS_STRING_MAX_LENGTH_def)

lemma qjs_part:
  assumes "query_part env Native s = Some (Inr t)" "\<forall>n. malloc n"
  shows "qjs_query_part malloc Native s = Some (Inr t)"
proof -
  obtain us where us: "query_decode_bytes s = Some (encode_all us)" using query_decode_text by blast
  then have "map_option (map_sum id str_start) (njs_string_create_chb env (encode_all us)) = Some (Inr t)"
    using assms(1) by (simp add: query_part_def to_text_def njs_query_string_decode_def)
  then obtain x where x: "njs_string_create_chb env (encode_all us) = Some (Inr x)" "t = str_start x"
    by (cases "njs_string_create_chb env (encode_all us)"; cases "the (njs_string_create_chb env (encode_all us))") auto
  then have t: "t = encode_all us" "length t \<le> NJS_STRING_MAX_LENGTH" using njs_create_size by auto
  obtain cp chain where "query_decode_loop idle_ctx 0 s [] = Some (cp, chain)"
    "(if cp = NJS_UNICODE_CONTINUE then chain @ utf8_bytes NJS_UNICODE_REPLACEMENT else chain) = t"
    using us t(1) by (auto simp: query_decode_bytes_def)
  then show ?thesis using qjs_create[OF t(2) assms(2)]
    by (simp add: qjs_query_part_def qjs_query_string_decode_def qjs_loop)
qed

lemma qjs_append:
  assumes "njs_query_string_append env inherited Native obj k v = Some (Inr obj')" "\<forall>n. malloc n"
  shows "qjs_query_string_append malloc inherited obj k v Native = Some (Inr obj')"
proof -
  obtain name val where "query_part env Native k = Some (Inr name)" "query_part env Native v = Some (Inr val)"
    "obj' = query_put inherited obj name val"
    using assms(1) by (auto simp: njs_query_string_append_def split: option.splits sum.splits)
  then show ?thesis using qjs_part[OF _ assms(2)] by (simp add: qjs_query_string_append_def qjs_put)
qed

lemma qjs_parser:
  "query_parser_loop env inherited sep eq Native m count key obj = Some (Inr r) \<Longrightarrow> \<forall>n. malloc n \<Longrightarrow>
   qjs_parser_loop malloc inherited sep eq Native m count key obj = Some (Inr r)"
proof (induction "length key" arbitrary: count key obj rule: less_induct)
  case less
  show ?case
  proof (cases "key = [] \<or> sep = [] \<or> count = m")
    case True
    then show ?thesis using less.prems(1) by (simp add: query_parser_loop.simps qjs_parser_loop.simps)
  next
    case False
    let ?n = "njs_query_string_match key sep"
    let ?part = "take ?n key"
    let ?rest = "drop (?n + length sep) key"
    let ?k = "njs_query_string_match ?part eq"
    let ?val = "if ?k \<noteq> ?n then drop (?k + length eq) ?part else []"
    have shorter: "length ?rest < length key" using False by simp
    note u = query_parser_loop.simps[of env inherited sep eq Native m count key obj] qjs_parser_loop.simps[of malloc inherited sep eq Native m count key obj]
    show ?thesis
    proof (cases "?n = 0")
      case True
      then show ?thesis using less.hyps[OF shorter _ less.prems(2), of "count + 1" obj] less.prems(1) False
        by (simp add: u qjs_match Let_def)
    next
      case n: False
      then obtain obj' where ap: "njs_query_string_append env inherited Native obj (take ?k ?part) ?val = Some (Inr obj')"
        "query_parser_loop env inherited sep eq Native m (count + 1) ?rest obj' = Some (Inr r)"
        using less.prems(1) False by (simp add: u Let_def split: option.splits sum.splits)
      show ?thesis using less.hyps[OF shorter ap(2) less.prems(2)] qjs_append[OF ap(1) less.prems(2)] False n
        by (simp add: u qjs_match Let_def)
    qed
  qed
qed

lemma qjs_encode: "qjs_query_string_encode chain s = njs_query_string_encode chain s"
proof -
  have e: "qjs_need_escape = njs_need_escape" by (intro ext) (simp add: qjs_need_escape_def njs_need_escape_def bit_in_table_def)
  have "qjs_string_encode t s = njs_string_encode t s" for t by (induction s) (simp_all add: e)
  then show ?thesis by (simp add: qjs_query_string_encode_def njs_query_string_encode_def query_encode_size_def e
      qjs_query_escape_def query_escape_def Let_def)
qed

lemma qjs_call: "qjs_query_string_encoder_call = njs_query_string_encoder_call"
  by (intro ext) (simp add: qjs_query_string_encoder_call_def njs_query_string_encoder_call_def qjs_encode split: js_function.splits sum.splits)

lemma qjs_push: "item \<noteq> Q_nan \<Longrightarrow> qjs_query_string_push num chain k item eq encoder = njs_query_string_push num eq encoder chain k item"
  by (simp add: qjs_query_string_push_def njs_query_string_push_def qjs_call qjs_item_text_def Let_def split: query_item.splits sum.splits)

lemma qjs_push_array:
  "Q_nan \<notin> set items \<Longrightarrow> qjs_query_string_push_array num chain k items eq sep encoder = stringify_items num sep eq encoder k items chain"
proof (induction items arbitrary: chain)
  case (Cons item items)
  then have "item \<noteq> Q_nan" by auto
  then show ?case using Cons by (simp add: qjs_push split: sum.splits)
qed simp

fun has_nan :: "'n query_field \<Rightarrow> bool" where
  "has_nan (Single item) = (item = Q_nan)"
| "has_nan (Array items) = (Q_nan \<in> set items)"

lemma qjs_fields:
  "\<forall>(k, f) \<in> set ptab. \<not> has_nan f \<Longrightarrow> qjs_stringify_loop num sep eq encoder n ptab chain = stringify_fields num sep eq encoder n ptab chain"
  by (induction num sep eq encoder n ptab chain rule: qjs_stringify_loop.induct)
     (auto simp: qjs_push qjs_push_array split: sum.splits)

lemma separators_agree: "qjs_separator 0x26 s = separator njs_sep_default s" "qjs_separator 0x3D s = separator njs_eq_default s"
  by (simp_all add: qjs_separator_def separator_def njs_sep_default_def njs_eq_default_def split: option.splits)

subsection \<open>The properties\<close>


lemma query_print_agrees:
  assumes "njs_query_string_stringify env number_text (Some ptab) args = Some (Inr t)" "\<forall>(k, f) \<in> set ptab. \<not> has_nan f" "\<forall>n. malloc n"
  shows "qjs_query_string_stringify malloc number_text (Some ptab) args = Inr (str_start t)"
proof -
  obtain encode chain where e: "stringify_function (arg_function args) (arg_this args) = Inr encode"
    "stringify_fields number_text (separator njs_sep_default (arg_sep args)) (separator njs_eq_default (arg_eq args)) encode 0 ptab [] = Inr chain"
    "njs_string_create_chb env chain = Some (Inr t)"
    using assms(1) by (auto simp: njs_query_string_stringify_def split: sum.splits)
  have c: "str_start t = chain" "length chain \<le> NJS_STRING_MAX_LENGTH" using njs_create_size[OF e(3)] by simp_all
  show ?thesis using e(1,2) qjs_create[OF c(2) assms(3)] c(1)
    by (simp add: qjs_query_string_stringify_def stringify_function_def qjs_query_string_stringify_internal_def
        separators_agree qjs_fields[OF assms(2)])
qed

definition plain_args :: "query_limit \<Rightarrow> query_args" where
  "plain_args l = \<lparr>arg_sep = None, arg_eq = None, arg_max_keys = l, arg_function = Missing, arg_this = Callable Native\<rparr>"


text \<open>
  The limit 0 means no limit to njs and no keys to QuickJS, and so does to QuickJS any multiple of
  \<open>2 ^ 32\<close>.
\<close>

theorem query_limit_zero:
  "njs_query_string_parse some_env (\<lambda>_. None :: nat option) (Is_string [0x61, 0x3D, 0x31]) (plain_args (Limit 0)) =
     Some (Inr [([0x61], One (Text [0x31]))]) \<and>
   qjs_query_string_parse malloc inherited (Some (Inr (2 ^ 32 * int k))) string (plain_args l) = Some (Inr [])"
proof
  show "njs_query_string_parse some_env (\<lambda>_. None :: nat option) (Is_string [0x61, 0x3D, 0x31]) (plain_args (Limit 0)) =
     Some (Inr [([0x61], One (Text [0x31]))])"
    using parse_one_pair[of "nat INT64_MAX" some_env]
    by (simp add: njs_query_string_parse_def plain_args_def parse_limit_def parse_function_def separator_def njs_query_string_parser_def
        some_env_def INT64_MAX_def)
  have "take_bit 32 (2 ^ 32 * int k) = 0" by (simp add: take_bit_eq_mod)
  then have "(word_of_int (2 ^ 32 * int k) :: uint32) = 0" using word_of_int_eq_0_iff[where 'a = 32, of "2 ^ 32 * int k"] by (simp add: dvd_def)
  then have "unat (word_of_int (2 ^ 32 * int k) :: uint32) = 0" by (simp only: unsigned_0)
  then show "qjs_query_string_parse malloc inherited (Some (Inr (2 ^ 32 * int k))) string (plain_args l) = Some (Inr [])"
    by (simp add: qjs_query_string_parse_def plain_args_def qjs_query_string_parser_def qjs_parser_loop.simps del: word_of_int_numeral)
qed

text \<open>
  An empty list in front leaves its separator: \<open>{a: [], b: '1'}\<close> is printed as \<open>&b=1\<close>, while the list behind is
  printed as nothing.
\<close>

theorem query_empty_list_separator:
  "stringify_fields num njs_sep_default njs_eq_default Native 0 [([0x61], Array []), ([0x62], Single (Q_string [0x31]))] [] =
     Inr [0x26, 0x62, 0x3D, 0x31] \<and>
   stringify_fields num njs_sep_default njs_eq_default Native 0 [([0x62], Single (Q_string [0x31])), ([0x61], Array [])] [] =
     Inr [0x62, 0x3D, 0x31]"
proof -
  have "njs_query_string_encode chain [0x62] = chain @ [0x62] \<and> njs_query_string_encode chain [0x31] = chain @ [0x31]" for chain
    unfolding query_encode by (simp; code_simp)
  then show ?thesis by (simp add: njs_query_string_push_def njs_query_string_encoder_call_def njs_sep_default_def njs_eq_default_def)
qed

text \<open>NaN is printed as nothing by njs and as its name by QuickJS.\<close>

theorem query_nan_engines:
  "njs_query_string_push num njs_eq_default Native chain [] Q_nan = Inr (chain @ [0x3D]) \<and>
   qjs_query_string_push num chain [] Q_nan [0x3D] Native = Inr (chain @ 0x3D # nan_text)"
proof -
  have "escaped nan_text = nan_text" by code_simp
  then show ?thesis
    by (simp add: njs_query_string_push_def qjs_query_string_push_def njs_query_string_encoder_call_def qjs_call query_encode
        qjs_item_text_def njs_eq_default_def)
qed

text \<open>
  A character that an escape begins swallows the escape behind it, \<open>%E2%41\<close>, and goes on behind a plus sign,
  \<open>%E2+%82%AC\<close>.
\<close>

theorem query_pending_character:
  "query_decode_bytes [0x25, 0x45, 0x32, 0x25, 0x34, 0x31] = Some [0xEF, 0xBF, 0xBD] \<and>
   query_decode_bytes [0x25, 0x45, 0x32, 0x2B, 0x25, 0x38, 0x32, 0x25, 0x41, 0x43] = Some [0x20, 0xE2, 0x82, 0xAC]"
  by (rule conjI; code_simp)

end
