(* ===== verification/Spec2Isabelle.thy ===== *)
theory Spec2Isabelle
  imports Njs_Flathsh_Map Njs_Utf8_Stream Njs_Utf16 Njs_Atom_Props Njs_Qsort_Props Ngx_Js_Http_Props
    Ngx_Js_Dict_Engines Ngx_Js_Dict_State_Props Njs_Codec_Qjs Njs_Chb_Props
    Njs_String_Search Njs_String_Case Njs_String_Concat Njs_Date_Text_Props Njs_Query_Qjs
begin

text \<open>
  njs is a JavaScript engine for nginx: an interpreter (\<open>src/src\<close>), modules that give scripts
  access to nginx (\<open>src/nginx\<close>) and libraries for scripts (\<open>src/external\<close>).  This development
  models parts of it as functions and proves what makes them correct.  It is organised by component;
  for each there is a theory with the definitions, written after the C code function by function and
  under the names of the code, and one or more theories with the invariants and theorems.

  \<^bold>\<open>Shared vocabulary\<close> (\<open>Njs_Prelude\<close>).  Machine integers are words; return codes are datatypes; the
  generic facts on lists and words.

  \<^bold>\<open>Flat hash\<close> (\<open>src/src/njs_flathsh.c\<close>; \<open>Njs_Flathsh\<close>, \<open>Njs_Flathsh_Inv\<close>, \<open>Njs_Flathsh_Map\<close>).  The table
  behind every object and the atoms: cells with the head of a list, elements in insertion order
  linked by number.  A table is a record with both arrays; the allocator is a parameter.  The
  locale \<open>flathsh_match\<close> has what search and removal need of the test of an element and is
  interpreted for both of the tests in the code.  The theorems: the table is an insertion-ordered map through any
  sequence of insertions and deletions, growth and shrinking included; searches end; what the 26 bits of
  a link mean for its size.  The fuel of a search is the number of elements, which an invariant on
  the lists shows to be enough.

  \<^bold>\<open>Unicode\<close> (\<open>src/src/njs_utf8.[ch]\<close>, \<open>njs_utf16.[ch]\<close>, \<open>njs_unicode.h\<close>, \<open>njs_string_from_char_code\<close> of
  \<open>njs_string.c\<close>; \<open>Njs_Unicode\<close>, \<open>Njs_Utf8_Codec\<close>, \<open>Njs_Utf8\<close>, \<open>Njs_Utf8_Stream\<close>, \<open>Njs_Utf16\<close>).  The
  incremental decoders carry their context between calls.  The theorems: round trips, that only
  canonical encodings are accepted, validation and length of a text against its definition as a
  concatenation of encoded characters, that the pass that writes fits what the pass that counts
  announced, that the cuts between the chunks of a stream do not matter.  The case tables are parameters.

  \<^bold>\<open>Hashes and atoms\<close> (\<open>njs_djb_hash.c\<close>, \<open>njs_murmur_hash.c\<close>, \<open>njs_atom.c\<close>; \<open>Njs_Hash\<close>, \<open>Njs_Atom\<close>,
  \<open>Njs_Atom_Props\<close>).  Atoms are built on the flat hash: a shared table of the built-in names, one per
  VM for the rest.  The theorems: ids identify strings, ids keep their meaning, symbols are
  fresh, a clone reads the ids of its parent.

  \<^bold>\<open>Sorting\<close> (\<open>njs_utils.c\<close>, the comparators of \<open>njs_typed_array.c\<close>; \<open>Njs_Qsort\<close>, \<open>Njs_Qsort_Props\<close>).
  Quick sort with an explicit stack, heap sort when the depth is exhausted, insertion sort for
  short segments, exchanges by machine words of the size of an element.  The locale \<open>comparator\<close> has what the
  sort needs of a comparison and is interpreted for the six integer comparators.  The
  theorems: a sorted permutation for every total preorder, and the stack stays within its array.

  \<^bold>\<open>HTTP responses\<close> (\<open>src/nginx/ngx_js_http.c\<close>; \<open>Ngx_Js_Http\<close>, \<open>Ngx_Js_Http_Props\<close>).  The client behind
  \<open>fetch\<close>: the state machines for status line, header lines and chunked bodies, what is done with
  each, and the turns of the read handler.  The locale \<open>resumable\<close> has the argument that a parser
  cut anywhere continues as if it were not; both line parsers interpret it.  The theorems: chunked
  bodies are decoded however the bytes arrive, sizes are never wrapped, bodies stay within their limits,
  names and values are checked for what could split a request.

  \<^bold>\<open>Shared dictionaries\<close> (\<open>src/nginx/ngx_js_shared_dict.c\<close>; \<open>Ngx_Js_Dict\<close>, \<open>Ngx_Js_Dict_Inv\<close>,
  \<open>Ngx_Js_Dict_Props\<close>, \<open>Ngx_Js_Dict_Api\<close>, \<open>Ngx_Js_Dict_Engines\<close>, \<open>Ngx_Js_Dict_State\<close>,
  \<open>Ngx_Js_Dict_State_Props\<close>).  Nodes in a tree by key and a tree by expiry, in a slab pool that may
  be full.  nginx's trees and allocator are parameters (\<open>dict_env\<close>) with their documented behaviour
  as hypothesis (\<open>nginx_ok\<close>), which a concrete instance satisfies.  The invariant \<open>dict_inv\<close> ties
  both trees, the nodes and the allocated blocks together.  The theorems: what every operation does to
  the map a script sees (\<open>visible\<close>), with eviction and failure of memory; which nodes are evicted; the
  methods in the two engines answer alike, and where they do not; what is saved is what is loaded;
  unescaping stays within its block.  The loop that evicts until memory is found has the
  length of the expiry tree plus one as fuel: every turn takes at least one node.

  \<^bold>\<open>Not modelled\<close>.  The lexer, parser, generator and interpreter of the language and the objects of
  its library (\<open>njs_lexer.c\<close> to \<open>njs_vmcode.c\<close>, \<open>njs_object.c\<close>, \<open>njs_array.c\<close>, \<open>njs_promise.c\<close> and others)
  are the largest part of the engine and are not covered yet.  The modules that bind nginx's
  requests, sessions and configuration, and those that bind external libraries (OpenSSL, libxml2,
  zlib, PCRE, QuickJS), mostly pass values on to code outside of the repository.  Allocation
  (\<open>njs_mp.c\<close>) is a parameter wherever it can fail.  Locks are taken and released in the model, but
  operations do not interleave: an operation on a shared dictionary is one step.
\<close>

end
